(* ===== verification/Prelude.thy ===== *)
theory Prelude
  imports Main "HOL-Library.AList" "HOL-Library.Char_ord" "HOL-Library.List_Lexorder"
begin

text \<open>
  What every component of the development shares: JavaScript values, the safe
  integers, the insertion-ordered \<^verbatim>\<open>Map\<close> and \<^verbatim>\<open>Set\<close> of the
  language, the stable \<^verbatim>\<open>Array.prototype.sort\<close>, and the lemma collections
  the component proofs draw on.

  \<^item> A \<^verbatim>\<open>Map\<close> is an association list with distinct keys. Setting a key that is
    present keeps its place, a new key goes last, iteration follows the list: these are
    the language's own rules, and the code relies on them where it evicts the first key.
  \<^item> A \<^verbatim>\<open>Set\<close> is a list with distinct elements, in insertion order.
  \<^item> A string is a list of code units, of which the type \<open>string\<close> has the first 256 only.
    Its order is the code-unit order, as \<^verbatim>\<open><\<close> on strings has it; \<open>length\<close>
    counts code units.
  \<^item> A number that came from the network is a \<open>js_number\<close>: an integer value, or one that
    is no integer, known by the text it has as a string (\<^verbatim>\<open>0.5\<close>, \<^verbatim>\<open>1e-7\<close>,
    \<^verbatim>\<open>Infinity\<close>, \<^verbatim>\<open>NaN\<close>). The code tests such a value
    with \<^verbatim>\<open>Number.isSafeInteger\<close> before it computes with it.
\<close>

named_theorems awful_defs \<open>definitions unfolded together in component proofs\<close>
named_theorems awful_inv \<open>an operation keeps its component's invariant\<close>
named_theorems awful_frame \<open>what an operation leaves alone\<close>

section \<open>JavaScript values\<close>

datatype js_number = JInt int | JNonInt string

definition not_finite :: "string \<Rightarrow> bool" where
  "not_finite t \<longleftrightarrow> t \<in> set [''NaN'', ''Infinity'', ''-Infinity'']"

datatype js_value =
    JUndefined
  | JNull
  | JBool bool
  | JNum js_number
  | JStr string
  | JArr "js_value list"
  | JObj "(string \<times> js_value) list"

definition MAX_SAFE_INTEGER :: int where
  "MAX_SAFE_INTEGER = 2 ^ 53 - 1"

lemma MAX_SAFE_INTEGER_val [simp]: "MAX_SAFE_INTEGER = 9007199254740991"
  by (simp add: MAX_SAFE_INTEGER_def)

fun isSafeInteger :: "js_value \<Rightarrow> bool" where
  "isSafeInteger (JNum (JInt i)) \<longleftrightarrow> \<bar>i\<bar> \<le> MAX_SAFE_INTEGER"
| "isSafeInteger _ \<longleftrightarrow> False"

fun as_int :: "js_value \<Rightarrow> int" where
  "as_int (JNum (JInt i)) = i"
| "as_int _ = 0"

text \<open>Property access on a value: a missing property, or one read off a value that has
  none, is \<^verbatim>\<open>undefined\<close>. Access on \<^verbatim>\<open>null\<close> or
  \<^verbatim>\<open>undefined\<close> throws; the callers test for that first.\<close>

fun js_prop :: "js_value \<Rightarrow> string \<Rightarrow> js_value" where
  "js_prop (JObj ps) k = (case map_of ps k of None \<Rightarrow> JUndefined | Some v \<Rightarrow> v)"
| "js_prop _ k = JUndefined"

fun is_js_string :: "js_value \<Rightarrow> bool" where
  "is_js_string (JStr _) \<longleftrightarrow> True"
| "is_js_string _ \<longleftrightarrow> False"

fun js_truthy :: "js_value \<Rightarrow> bool" where
  "js_truthy JUndefined \<longleftrightarrow> False"
| "js_truthy JNull \<longleftrightarrow> False"
| "js_truthy (JBool b) \<longleftrightarrow> b"
| "js_truthy (JNum n) \<longleftrightarrow> n \<noteq> JInt 0 \<and> n \<noteq> JNonInt ''NaN''"
| "js_truthy (JStr s) \<longleftrightarrow> s \<noteq> []"
| "js_truthy _ \<longleftrightarrow> True"

lemma isSafeInteger_iff:
  "isSafeInteger v \<longleftrightarrow> (\<exists>i. v = JNum (JInt i) \<and> \<bar>i\<bar> \<le> MAX_SAFE_INTEGER)"
  by (cases v rule: isSafeInteger.cases) auto

section \<open>Insertion-ordered maps\<close>

type_synonym ('k, 'v) jsmap = "('k \<times> 'v) list"

abbreviation js_get :: "('k, 'v) jsmap \<Rightarrow> 'k \<Rightarrow> 'v option" where
  "js_get m k \<equiv> map_of m k"

abbreviation js_set :: "('k, 'v) jsmap \<Rightarrow> 'k \<Rightarrow> 'v \<Rightarrow> ('k, 'v) jsmap" where
  "js_set m k v \<equiv> AList.update k v m"

abbreviation js_delete :: "('k, 'v) jsmap \<Rightarrow> 'k \<Rightarrow> ('k, 'v) jsmap" where
  "js_delete m k \<equiv> AList.delete k m"

definition js_wf :: "('k, 'v) jsmap \<Rightarrow> bool" where
  "js_wf m \<longleftrightarrow> distinct (map fst m)"

definition js_get_or :: "'v \<Rightarrow> ('k, 'v) jsmap \<Rightarrow> 'k \<Rightarrow> 'v" where
  "js_get_or d m k = (case js_get m k of None \<Rightarrow> d | Some v \<Rightarrow> v)"

definition delete_first :: "('k, 'v) jsmap \<Rightarrow> ('k, 'v) jsmap" where
  \<comment> \<open>\<^verbatim>\<open>m.delete(m.keys().next().value)\<close>: drop the oldest key\<close>
  "delete_first m = (case m of [] \<Rightarrow> [] | (k, _) # _ \<Rightarrow> js_delete m k)"

text \<open>
  The interface the components use: what a lookup returns after each update, and how the
  number of keys moves. The client lemmas below are proved from these laws alone.
\<close>

locale keyed_map =
  fixes get :: "'m \<Rightarrow> 'k \<Rightarrow> 'v option"
    and put :: "'m \<Rightarrow> 'k \<Rightarrow> 'v \<Rightarrow> 'm"
    and del :: "'m \<Rightarrow> 'k \<Rightarrow> 'm"
    and count :: "'m \<Rightarrow> nat"
    and ok :: "'m \<Rightarrow> bool"
  assumes get_put: "get (put m k v) k' = (if k = k' then Some v else get m k')"
    and get_del: "get (del m k) k' = (if k = k' then None else get m k')"
    and ok_put: "ok m \<Longrightarrow> ok (put m k v)"
    and ok_del: "ok m \<Longrightarrow> ok (del m k)"
    and count_put: "ok m \<Longrightarrow> count (put m k v) = (if get m k = None then Suc (count m) else count m)"
    and count_del: "ok m \<Longrightarrow> count (del m k) = (if get m k = None then count m else count m - 1)"
    and count_pos: "ok m \<Longrightarrow> get m k = Some v \<Longrightarrow> 0 < count m"
begin

lemma dom_put: "dom (get (put m k v)) = insert k (dom (get m))"
  by (auto simp: get_put dom_def split: if_splits)

lemma dom_del: "dom (get (del m k)) = dom (get m) - {k}"
  by (auto simp: get_del dom_def split: if_splits)

lemma put_back: "get m k = Some v \<Longrightarrow> get (put m k v) = get m"
  by (rule ext) (auto simp: get_put)

lemma count_put_le: "ok m \<Longrightarrow> count (put m k v) \<le> Suc (count m)"
  by (simp add: count_put)

lemma count_put_present: "ok m \<Longrightarrow> get m k \<noteq> None \<Longrightarrow> count (put m k v) = count m"
  by (simp add: count_put)

lemma count_del_le: "ok m \<Longrightarrow> count (del m k) \<le> count m"
  by (simp add: count_del)

lemma count_del_put:
  assumes "ok m"
  shows "count (put (del m k) k v) = (if get m k = None then Suc (count m) else count m)"
  using count_pos [OF assms, of k] assms
  by (auto simp: count_put count_del ok_del get_del)

lemma values_put:
  "(\<And>k' v'. get m k' = Some v' \<Longrightarrow> P v') \<Longrightarrow> P v \<Longrightarrow> get (put m k v) k' = Some v' \<Longrightarrow> P v'"
  by (auto simp: get_put split: if_splits)

lemma values_del:
  "(\<And>k' v'. get m k' = Some v' \<Longrightarrow> P v') \<Longrightarrow> get (del m k) k' = Some v' \<Longrightarrow> P v'"
  by (auto simp: get_del split: if_splits)

end

lemma js_get_set [simp]: "js_get (js_set m k v) k' = (if k = k' then Some v else js_get m k')"
  by (simp add: update_conv')

lemma js_get_or_set [simp]: "js_get_or d (js_set m k v) k' = (if k = k' then v else js_get_or d m k')"
  by (simp add: js_get_or_def)

lemma js_get_delete [simp]: "js_get (js_delete m k) k' = (if k = k' then None else js_get m k')"
  by (simp add: delete_conv')

lemma js_wf_set [simp, intro]: "js_wf m \<Longrightarrow> js_wf (js_set m k v)"
  unfolding js_wf_def by (rule distinct_update)

lemma js_wf_delete [simp, intro]: "js_wf m \<Longrightarrow> js_wf (js_delete m k)"
  unfolding js_wf_def by (rule distinct_delete)

lemma js_wf_Nil [simp, intro]: "js_wf []"
  by (simp add: js_wf_def)

lemma length_js_set [simp]:
  "length (js_set m k v) = (if js_get m k = None then Suc (length m) else length m)"
  by (induction m) auto

lemma js_delete_absent: "js_get m k = None \<Longrightarrow> js_delete m k = m"
  by (simp add: map_of_eq_None_iff)

lemma length_js_delete:
  "js_wf m \<Longrightarrow> length (js_delete m k) = (if js_get m k = None then length m else length m - 1)"
proof (induction m)
  case Nil
  then show ?case by simp
next
  case (Cons p m)
  show ?case
  proof (cases "fst p = k")
    case True
    with Cons.prems have "js_get m k = None"
      by (auto simp: js_wf_def map_of_eq_None_iff)
    with True show ?thesis by (cases p) (simp add: js_delete_absent)
  next
    case False
    with Cons have "length (js_delete m k) = (if js_get m k = None then length m else length m - 1)"
      by (simp add: js_wf_def)
    moreover have "js_get m k \<noteq> None \<Longrightarrow> m \<noteq> []" by auto
    ultimately show ?thesis using False by (cases p) auto
  qed
qed

interpretation jm: keyed_map js_get js_set js_delete length js_wf
proof unfold_locales
  fix m :: "('a, 'b) jsmap" and k v
  assume "js_get m k = Some v"
  then show "0 < length m" by (cases m) auto
qed (auto simp: length_js_delete)

lemma delete_first_eq: "js_wf m \<Longrightarrow> delete_first m = tl m"
  by (cases m) (auto simp: delete_first_def js_wf_def map_of_eq_None_iff intro!: js_delete_absent)

lemma js_wf_delete_first [simp, intro]: "js_wf m \<Longrightarrow> js_wf (delete_first m)"
  by (cases m) (auto simp: delete_first_eq js_wf_def)

lemma length_delete_first: "js_wf m \<Longrightarrow> length (delete_first m) = length m - 1"
  by (simp add: delete_first_eq)

lemma js_get_filter:
  "js_wf m \<Longrightarrow> js_get (filter P m) k =
     (case js_get m k of None \<Rightarrow> None | Some v \<Rightarrow> if P (k, v) then Some v else None)"
  by (induction m)
    (auto simp: js_wf_def split: option.splits dest: map_of_SomeD intro: rev_image_eqI)

lemma js_wf_filter [simp, intro]: "js_wf m \<Longrightarrow> js_wf (filter P m)"
  unfolding js_wf_def by (rule distinct_map_filter)

lemma set_js_set: "set (js_set m k v) \<subseteq> insert (k, v) (set m)"
  by (induction m) auto

lemma list_all_js_set: "list_all P m \<Longrightarrow> P (k, v) \<Longrightarrow> list_all P (js_set m k v)"
  using set_js_set [of k v m] by (auto simp: list_all_iff)

lemma js_values_iff:
  "js_wf m \<Longrightarrow> list_all (\<lambda>(k, v). P k v) m \<longleftrightarrow> (\<forall>k v. js_get m k = Some v \<longrightarrow> P k v)"
proof -
  assume "js_wf m"
  then have "((k, v) \<in> set m) = (js_get m k = Some v)" for k v
    by (simp add: js_wf_def)
  then show ?thesis by (force simp: list_all_iff)
qed

section \<open>Insertion-ordered sets\<close>

definition set_add :: "'a list \<Rightarrow> 'a \<Rightarrow> 'a list" where
  "set_add s x = (if x \<in> set s then s else s @ [x])"

definition set_remove :: "'a list \<Rightarrow> 'a \<Rightarrow> 'a list" where
  "set_remove s x = filter (\<lambda>y. y \<noteq> x) s"

lemma set_set_add [simp]: "set (set_add s x) = insert x (set s)"
  by (auto simp: set_add_def)

lemma distinct_set_add [simp]: "distinct (set_add s x) \<longleftrightarrow> distinct s"
  by (auto simp: set_add_def)

lemma length_set_add: "length (set_add s x) = (if x \<in> set s then length s else Suc (length s))"
  by (simp add: set_add_def)

lemma set_set_remove [simp]: "set (set_remove s x) = set s - {x}"
  by (auto simp: set_remove_def)

lemma distinct_set_remove [simp, intro]: "distinct s \<Longrightarrow> distinct (set_remove s x)"
  by (simp add: set_remove_def)

section \<open>Lists updated in place\<close>

lemma filter_update:
  assumes "i < length xs" "P (xs ! i)" "\<not> P y"
  shows "Suc (length (filter P (xs[i := y]))) = length (filter P xs)"
proof -
  have xs: "xs = take i xs @ xs ! i # drop (Suc i) xs" using assms(1) by (rule id_take_nth_drop)
  have up: "xs[i := y] = take i xs @ y # drop (Suc i) xs" using assms(1) by (rule upd_conv_take_nth_drop)
  have "length (filter P xs) = length (filter P (take i xs)) + length (filter P (xs ! i # drop (Suc i) xs))"
    by (subst xs) simp
  then show ?thesis using assms(2,3) by (simp add: up)
qed

lemma filter_update_other:
  assumes "\<not> P (xs ! i)" "\<not> P y" "i < length xs"
  shows "length (filter P (xs[i := y])) = length (filter P xs)"
proof -
  have xs: "xs = take i xs @ xs ! i # drop (Suc i) xs" using assms(3) by (rule id_take_nth_drop)
  have up: "xs[i := y] = take i xs @ y # drop (Suc i) xs" using assms(3) by (rule upd_conv_take_nth_drop)
  have "length (filter P xs) = length (filter P (take i xs)) + length (filter P (xs ! i # drop (Suc i) xs))"
    by (subst xs) simp
  then show ?thesis using assms(1,2) by (simp add: up)
qed

end
