(* ===== verification/Logical_Clock.thy ===== *)
theory Logical_Clock
  imports Prelude
begin

text \<open>
  The per-conversation Lamport counters of
  \<^verbatim>\<open>frontend/src/lib/transport/logical-clock.ts\<close>. The module's one
  \<^verbatim>\<open>Map\<close> is the state \<open>clocks\<close>; each exported function is one definition.
  \<open>issueLamport\<close> throws when the sequence is used up, which is the \<open>Inl\<close> case.
\<close>

section \<open>The module\<close>

type_synonym clocks = "(string, int) jsmap"

datatype clock_error = Sequence_exhausted

definition BOOTSTRAP_CEILING :: int where
  "BOOTSTRAP_CEILING = 2 ^ 48"

definition MAX_REMOTE_JUMP :: int where
  "MAX_REMOTE_JUMP = 1000000"

definition validLamport :: "js_value \<Rightarrow> bool" where
  "validLamport v \<longleftrightarrow> isSafeInteger v \<and> 0 \<le> as_int v \<and> as_int v < MAX_SAFE_INTEGER"

definition observedLamport :: "clocks \<Rightarrow> string \<Rightarrow> int" where
  "observedLamport cs room = js_get_or 0 cs room"

definition remoteLamportAllowed :: "clocks \<Rightarrow> string \<Rightarrow> js_value \<Rightarrow> bool" where
  "remoteLamportAllowed cs room v \<longleftrightarrow>
     validLamport v \<and> as_int v \<le> max BOOTSTRAP_CEILING (js_get_or 0 cs room + MAX_REMOTE_JUMP)"

definition observeLamport :: "clocks \<Rightarrow> string \<Rightarrow> js_value \<Rightarrow> clocks" where
  "observeLamport cs room v =
     (if validLamport v then js_set cs room (max (js_get_or 0 cs room) (as_int v)) else cs)"

definition issueLamport :: "clocks \<Rightarrow> string \<Rightarrow> clock_error + int \<times> clocks" where
  "issueLamport cs room =
     (let next = js_get_or 0 cs room + 1 in
      if \<not> validLamport (JNum (JInt next)) then Inl Sequence_exhausted
      else Inr (next, js_set cs room next))"

lemmas [awful_defs] = BOOTSTRAP_CEILING_def MAX_REMOTE_JUMP_def

section \<open>Invariant and behaviour of each operation\<close>

definition clocks_ok :: "clocks \<Rightarrow> bool" where
  "clocks_ok cs \<longleftrightarrow> js_wf cs \<and> list_all (\<lambda>(_, c). 0 \<le> c \<and> c < MAX_SAFE_INTEGER) cs"

lemma validLamport_int: "validLamport (JNum (JInt i)) \<longleftrightarrow> 0 \<le> i \<and> i < MAX_SAFE_INTEGER"
  by (auto simp: validLamport_def)

lemma validLamportE:
  assumes "validLamport v"
  obtains i where "v = JNum (JInt i)" "0 \<le> i" "i < MAX_SAFE_INTEGER"
  using assms by (auto simp: validLamport_def isSafeInteger_iff)

lemma clocks_okD: "clocks_ok cs \<Longrightarrow> js_get cs r = Some c \<Longrightarrow> 0 \<le> c \<and> c < MAX_SAFE_INTEGER"
  by (auto simp: clocks_ok_def list_all_iff dest!: map_of_SomeD)

lemma clocks_ok_iff:
  "clocks_ok cs \<longleftrightarrow> js_wf cs \<and> (\<forall>r c. js_get cs r = Some c \<longrightarrow> 0 \<le> c \<and> c < MAX_SAFE_INTEGER)"
  unfolding clocks_ok_def using js_values_iff [of cs "\<lambda>_ c. 0 \<le> c \<and> c < MAX_SAFE_INTEGER"] by blast

lemma clocks_ok_Nil [simp]: "clocks_ok []"
  by (simp add: clocks_ok_def)

lemma observedLamport_range:
  "clocks_ok cs \<Longrightarrow> 0 \<le> observedLamport cs r \<and> observedLamport cs r < MAX_SAFE_INTEGER"
  by (auto simp: observedLamport_def js_get_or_def split: option.splits dest: clocks_okD)

lemma clocks_ok_set:
  "clocks_ok cs \<Longrightarrow> 0 \<le> c \<Longrightarrow> c < MAX_SAFE_INTEGER \<Longrightarrow> clocks_ok (js_set cs r c)"
  by (auto simp: clocks_ok_iff split: if_splits)

lemma observeLamport_ok [awful_inv]: "clocks_ok cs \<Longrightarrow> clocks_ok (observeLamport cs r v)"
  using observedLamport_range [of cs r]
  by (auto simp: observeLamport_def observedLamport_def intro!: clocks_ok_set elim!: validLamportE)

lemma issueLamport_ok [awful_inv]:
  "clocks_ok cs \<Longrightarrow> issueLamport cs r = Inr (n, cs') \<Longrightarrow> clocks_ok cs'"
  by (auto simp: issueLamport_def validLamport_int Let_def split: if_splits intro!: clocks_ok_set)

lemma observed_observe:
  "observedLamport (observeLamport cs r v) r' =
     (if r = r' \<and> validLamport v then max (observedLamport cs r) (as_int v) else observedLamport cs r')"
  by (simp add: observedLamport_def observeLamport_def js_get_or_def)

lemma observed_issue:
  "issueLamport cs r = Inr (n, cs') \<Longrightarrow>
     n = observedLamport cs r + 1 \<and>
     observedLamport cs' r' = (if r = r' then n else observedLamport cs r')"
  by (auto simp: issueLamport_def observedLamport_def js_get_or_def Let_def split: if_splits)

lemma issueLamport_defined:
  "clocks_ok cs \<Longrightarrow> observedLamport cs r < MAX_SAFE_INTEGER - 1 \<Longrightarrow>
     \<exists>cs'. issueLamport cs r = Inr (observedLamport cs r + 1, cs')"
  using observedLamport_range [of cs r]
  by (auto simp: issueLamport_def observedLamport_def validLamport_int Let_def)

section \<open>A conversation as a sequence of steps\<close>

text \<open>
  A remote row is admitted only if \<open>remoteLamportAllowed\<close> says so (this is the first test of
  \<^verbatim>\<open>verifyIncoming\<close>), and is then observed; a local send issues.
\<close>

datatype clock_event = Remote js_value | Local_send

fun clock_step :: "string \<Rightarrow> clocks \<Rightarrow> clock_event \<Rightarrow> clocks" where
  "clock_step room cs (Remote v) =
     (if remoteLamportAllowed cs room v then observeLamport cs room v else cs)"
| "clock_step room cs Local_send =
     (case issueLamport cs room of Inl _ \<Rightarrow> cs | Inr (_, cs') \<Rightarrow> cs')"

fun clock_run :: "string \<Rightarrow> clocks \<Rightarrow> clock_event list \<Rightarrow> clocks" where
  "clock_run room cs [] = cs"
| "clock_run room cs (e # es) = clock_run room (clock_step room cs e) es"

lemma clock_step_ok [awful_inv]: "clocks_ok cs \<Longrightarrow> clocks_ok (clock_step r cs e)"
  by (cases e) (auto split: sum.splits intro: awful_inv)

lemma clock_run_ok [awful_inv]: "clocks_ok cs \<Longrightarrow> clocks_ok (clock_run r cs es)"
  by (induction es arbitrary: cs) (auto intro: clock_step_ok)

lemma clock_step_mono: "observedLamport cs r' \<le> observedLamport (clock_step r cs e) r'"
  by (cases e) (auto simp: observed_observe split: sum.splits dest: observed_issue [where r' = r'])

lemma clock_run_mono: "observedLamport cs r' \<le> observedLamport (clock_run r cs es) r'"
proof (induction es arbitrary: cs)
  case Nil
  then show ?case by simp
next
  case (Cons e es)
  show ?case using clock_step_mono [of cs r' r e] Cons.IH [of "clock_step r cs e"] by simp
qed

lemma clock_step_bound:
  "observedLamport (clock_step r cs e) r
     \<le> max BOOTSTRAP_CEILING (observedLamport cs r) + MAX_REMOTE_JUMP"
  by (cases e)
    (auto simp: observed_observe remoteLamportAllowed_def awful_defs observedLamport_def [symmetric]
      split: sum.splits dest: observed_issue [where r' = r])

lemma clock_run_bound:
  "observedLamport (clock_run r cs es) r
     \<le> max BOOTSTRAP_CEILING (observedLamport cs r) + int (length es) * MAX_REMOTE_JUMP"
proof (induction es arbitrary: cs)
  case Nil
  then show ?case by simp
next
  case (Cons e es)
  let ?cs = "clock_step r cs e"
  have "observedLamport (clock_run r ?cs es) r
      \<le> max BOOTSTRAP_CEILING (observedLamport ?cs r) + int (length es) * MAX_REMOTE_JUMP"
    by (rule Cons.IH)
  with clock_step_bound [of r cs e] show ?case
    by (simp add: algebra_simps MAX_REMOTE_JUMP_def)
qed

text \<open>C29: in one conversation no run of fewer than eight billion events, however hostile the
  remote lamports in it, can use up the counter: starting at or below the bootstrap ceiling
  the next local send still gets a lamport, and it is larger than every lamport observed on
  the way.\<close>

theorem clock_never_exhausted_by_peers:
  assumes "clocks_ok cs" and "observedLamport cs r \<le> BOOTSTRAP_CEILING"
    and "length es < 8 * 10 ^ 9"
  shows "\<exists>n cs'. issueLamport (clock_run r cs es) r = Inr (n, cs') \<and>
           observedLamport cs r < n \<and> observedLamport (clock_run r cs es) r < n"
proof -
  let ?final = "clock_run r cs es"
  have "int (length es) < 8 * 10 ^ 9" using assms(3) by simp
  then have "int (length es) * MAX_REMOTE_JUMP < 8 * 10 ^ 15"
    by (simp add: MAX_REMOTE_JUMP_def)
  with clock_run_bound [of r cs es] assms(2)
  have "observedLamport ?final r < MAX_SAFE_INTEGER - 1"
    by (simp add: BOOTSTRAP_CEILING_def)
  with clock_run_ok [OF assms(1)] obtain cs'
    where "issueLamport ?final r = Inr (observedLamport ?final r + 1, cs')"
    using issueLamport_defined by blast
  with clock_run_mono [of cs r r es] show ?thesis by force
qed

theorem clock_never_exhausted_by_peers_witness:
  "\<exists>n cs'. issueLamport (clock_run ''r'' [] [Remote (JNum (JInt 5)), Local_send]) ''r'' = Inr (n, cs')
     \<and> observedLamport [] ''r'' < n
     \<and> observedLamport (clock_run ''r'' [] [Remote (JNum (JInt 5)), Local_send]) ''r'' < n"
  by (rule clock_never_exhausted_by_peers)
    (simp_all add: observedLamport_def js_get_or_def BOOTSTRAP_CEILING_def)

text \<open>The happened-before rule of the shared order: a lamport issued after a valid remote
  lamport was observed is larger than it, and the clocks of every other conversation are
  untouched by both operations.\<close>

theorem issue_after_observe:
  assumes "validLamport v" and "issueLamport (observeLamport cs r v) r = Inr (n, cs')"
  shows "as_int v < n \<and> observedLamport cs r < n \<and>
         observedLamport cs' r' = (if r' = r then n else observedLamport cs r')"
  using observed_issue [OF assms(2), of r'] assms(1) by (auto simp: observed_observe)

theorem issue_after_observe_witness:
  "as_int (JNum (JInt 7)) < (8::int) \<and> observedLamport [(''r'', 3)] ''r'' < 8 \<and>
   observedLamport [(''r'', 8)] ''q'' = (if ''q'' = ''r'' then 8 else observedLamport [(''r'', 3)] ''q'')"
  by (rule issue_after_observe)
    (simp_all add: validLamport_int issueLamport_def observeLamport_def js_get_or_def Let_def)

end
