(* ===== verification/Sync_Throttle.thy ===== *)
theory Sync_Throttle
  imports Prelude "HOL-Library.Sublist"
begin

text \<open>
  Rate limits of the sync surface, \<^verbatim>\<open>frontend/src/lib/transport/sync-throttle.ts\<close>:
  the hard window in front of every expensive reaction to a peer's frame
  (\<open>allowSyncReaction\<close>), and the back-off of the repair tick (\<open>RepairBackoff\<close>). The clock is a
  parameter of every operation, as it is in the code.
\<close>

section \<open>The reaction window\<close>

definition SYNC_REACTION_MIN_MS :: int where
  "SYNC_REACTION_MIN_MS = 10000"

type_synonym reactions = "(string, int) jsmap"

definition allowSyncReaction :: "reactions \<Rightarrow> string \<Rightarrow> int \<Rightarrow> bool \<times> reactions" where
  "allowSyncReaction m key now =
     (case js_get m key of
        Some t \<Rightarrow> if now - t < SYNC_REACTION_MIN_MS then (False, m) else (True, js_set m key now)
      | None \<Rightarrow> (True, js_set m key now))"

text \<open>A sequence of calls, and the times at which one key was let through.\<close>

fun allowed_at :: "reactions \<Rightarrow> string \<Rightarrow> (string \<times> int) list \<Rightarrow> int list" where
  "allowed_at m key [] = []"
| "allowed_at m key ((k, now) # calls) =
     (let (ok, m') = allowSyncReaction m k now in
      (if ok \<and> k = key then [now] else []) @ allowed_at m' key calls)"

lemma allowSyncReaction_other:
  "k \<noteq> key \<Longrightarrow> js_get (snd (allowSyncReaction m k now)) key = js_get m key"
  by (auto simp: allowSyncReaction_def split: option.splits)

lemma allowSyncReaction_own:
  "js_get (snd (allowSyncReaction m k now)) k =
     (if fst (allowSyncReaction m k now) then Some now else js_get m k)"
  by (auto simp: allowSyncReaction_def split: option.splits)

lemma allowSyncReaction_allows:
  "fst (allowSyncReaction m k now) \<longleftrightarrow>
     (case js_get m k of None \<Rightarrow> True | Some t \<Rightarrow> t + SYNC_REACTION_MIN_MS \<le> now)"
  by (auto simp: allowSyncReaction_def split: option.splits)

lemma allowed_at_gap:
  assumes "js_get m key = Some t" and "a \<in> set (allowed_at m key calls)"
    and "sorted (map snd calls)" and "\<forall>c\<in>set calls. t \<le> snd c"
  shows "t + SYNC_REACTION_MIN_MS \<le> a"
  using assms
proof (induction calls arbitrary: m t)
  case Nil
  then show ?case by simp
next
  case (Cons c calls)
  obtain k now where c: "c = (k, now)" by force
  obtain ok m' where al: "allowSyncReaction m k now = (ok, m')" by force
  show ?case
  proof (cases "k = key \<and> ok")
    case True
    then have now: "t + SYNC_REACTION_MIN_MS \<le> now"
      using allowSyncReaction_allows [of m k now] al Cons.prems(1) by simp
    have m': "js_get m' key = Some now"
      using allowSyncReaction_own [of m k now] al True by simp
    show ?thesis
    proof (cases "a = now")
      case False
      then have "now + SYNC_REACTION_MIN_MS \<le> a"
        using Cons.prems c al True by (intro Cons.IH [OF m']) auto
      then show ?thesis using now by (simp add: SYNC_REACTION_MIN_MS_def)
    qed (simp add: now)
  next
    case False
    have m': "js_get m' key = Some t"
    proof (cases "k = key")
      case True
      then show ?thesis using allowSyncReaction_own [of m k now] al False Cons.prems(1) by simp
    next
      case False
      then show ?thesis using allowSyncReaction_other [of k key m now] al Cons.prems(1) by simp
    qed
    with False Cons.prems c al show ?thesis by (intro Cons.IH [OF m']) auto
  qed
qed

text \<open>However fast a peer loops a frame, one reaction key is let through at most once per
  window: on a clock that does not run backwards the admitted times of a key are at least
  ten seconds apart, whatever the other keys do in between.\<close>

theorem reactions_spaced:
  assumes "sorted (map snd calls)"
  shows "sorted_wrt (\<lambda>a b. a + SYNC_REACTION_MIN_MS \<le> b) (allowed_at m key calls)"
  using assms
proof (induction calls arbitrary: m)
  case Nil
  then show ?case by simp
next
  case (Cons c calls)
  obtain k now where c: "c = (k, now)" by force
  obtain ok m' where al: "allowSyncReaction m k now = (ok, m')" by force
  have rest: "sorted_wrt (\<lambda>a b. a + SYNC_REACTION_MIN_MS \<le> b) (allowed_at m' key calls)"
    using Cons by (simp add: c)
  have "now + SYNC_REACTION_MIN_MS \<le> a" if "ok \<and> k = key" and "a \<in> set (allowed_at m' key calls)" for a
  proof (rule allowed_at_gap [of m' key now a calls])
    show "js_get m' key = Some now"
      using allowSyncReaction_own [of m k now] al that(1) by simp
  qed (use Cons.prems c that in auto)
  with rest show ?case by (auto simp: c al)
qed

theorem reactions_spaced_witness:
  "sorted_wrt (\<lambda>a b. a + SYNC_REACTION_MIN_MS \<le> b)
     (allowed_at [] ''push'' [(''push'', 0), (''push'', 9000), (''push'', 12000)]) \<and>
   allowed_at [] ''push'' [(''push'', 0), (''push'', 9000), (''push'', 12000)] = [0, 12000]"
  using reactions_spaced [of "[(''push'', 0), (''push'', 9000), (''push'', 12000)]" "[]" "''push''"]
  by (simp add: allowSyncReaction_def SYNC_REACTION_MIN_MS_def)

section \<open>The repair back-off\<close>

definition REPAIR_BACKOFF_MIN_MS :: int where
  "REPAIR_BACKOFF_MIN_MS = 15000"

definition REPAIR_BACKOFF_MAX_MS :: int where
  "REPAIR_BACKOFF_MAX_MS = 5 * 60000"

record wait_entry =
  next_at :: int
  delay :: int

type_synonym RepairBackoff = "(string, wait_entry) jsmap"

definition backoff_key :: "string \<Rightarrow> string \<Rightarrow> string" where
  "backoff_key peer room = peer @ ''|'' @ room"

definition backoff_due :: "RepairBackoff \<Rightarrow> string \<Rightarrow> string \<Rightarrow> int \<Rightarrow> bool" where
  "backoff_due w peer room now \<longleftrightarrow>
     (case js_get w (backoff_key peer room) of None \<Rightarrow> 0 | Some e \<Rightarrow> next_at e) \<le> now"

definition backoff_wait :: "RepairBackoff \<Rightarrow> string \<Rightarrow> string \<Rightarrow> int \<Rightarrow> RepairBackoff" where
  "backoff_wait w peer room now =
     (let key = backoff_key peer room;
          at = js_get_or \<lparr>next_at = 0, delay = 0\<rparr> w key;
          d = min (max (delay at * 2) REPAIR_BACKOFF_MIN_MS) REPAIR_BACKOFF_MAX_MS
      in js_set w key (at\<lparr>delay := d, next_at := now + d\<rparr>))"

definition backoff_reset :: "RepairBackoff \<Rightarrow> string \<Rightarrow> string \<Rightarrow> RepairBackoff" where
  "backoff_reset w peer room = js_delete w (backoff_key peer room)"

definition backoff_forgetPeer :: "RepairBackoff \<Rightarrow> string \<Rightarrow> RepairBackoff" where
  "backoff_forgetPeer w peer = filter (\<lambda>(k, _). \<not> prefix (peer @ ''|'') k) w"

lemmas backoff_defs = backoff_due_def backoff_wait_def backoff_reset_def backoff_forgetPeer_def
  REPAIR_BACKOFF_MIN_MS_def REPAIR_BACKOFF_MAX_MS_def Let_def js_get_or_def

lemma backoff_key_inject:
  assumes "CHR ''|'' \<notin> set p" and "CHR ''|'' \<notin> set q"
  shows "backoff_key p r = backoff_key q s \<longleftrightarrow> p = q \<and> r = s"
proof -
  have "takeWhile (\<lambda>c. c \<noteq> CHR ''|'') (backoff_key p r) = p" if "CHR ''|'' \<notin> set p" for p r
    using that by (auto simp: backoff_key_def takeWhile_append2 intro: takeWhile_append2 [THEN trans])
  then show ?thesis using assms by (metis backoff_key_def same_append_eq)
qed

lemma prefix_backoff_key:
  assumes "CHR ''|'' \<notin> set p" and "CHR ''|'' \<notin> set q"
  shows "prefix (p @ ''|'') (backoff_key q s) \<longleftrightarrow> p = q"
proof
  assume "prefix (p @ ''|'') (backoff_key q s)"
  then obtain z where "backoff_key q s = backoff_key p z"
    by (auto simp: prefix_def backoff_key_def)
  then show "p = q" using backoff_key_inject [OF assms(2,1)] by simp
qed (auto simp: backoff_key_def prefix_def)

text \<open>The delay of the \<open>n\<close>-th wait in a row, by the code's own rule.\<close>

fun nth_delay :: "nat \<Rightarrow> int" where
  "nth_delay 0 = 0"
| "nth_delay (Suc n) = min (max (nth_delay n * 2) REPAIR_BACKOFF_MIN_MS) REPAIR_BACKOFF_MAX_MS"

lemma nth_delay_closed:
  "nth_delay (Suc n) = min (REPAIR_BACKOFF_MIN_MS * 2 ^ n) REPAIR_BACKOFF_MAX_MS"
proof (induction n)
  case 0
  then show ?case by (simp add: backoff_defs)
next
  case (Suc n)
  have "(1::int) \<le> 2 ^ n" by simp
  with Suc show ?case by (simp add: backoff_defs)
qed

fun wait_n :: "RepairBackoff \<Rightarrow> string \<Rightarrow> string \<Rightarrow> int list \<Rightarrow> RepairBackoff" where
  "wait_n w peer room [] = w"
| "wait_n w peer room (t # ts) = wait_n (backoff_wait w peer room t) peer room ts"

lemma wait_n_snoc: "wait_n w peer room (ts @ [t]) = backoff_wait (wait_n w peer room ts) peer room t"
  by (induction ts arbitrary: w) auto

lemma wait_n_delay:
  assumes "js_get w (backoff_key peer room) = None" and "ts \<noteq> []"
  shows "js_get (wait_n w peer room ts) (backoff_key peer room) =
    Some \<lparr>next_at = last ts + nth_delay (length ts), delay = nth_delay (length ts)\<rparr>"
  using assms(2)
proof (induction ts rule: rev_induct)
  case Nil
  then show ?case by simp
next
  case (snoc t ts)
  then show ?case
    using assms(1) by (cases "ts = []") (simp_all add: wait_n_snoc backoff_wait_def js_get_or_def Let_def)
qed

lemma wait_n_other:
  assumes "backoff_key peer room \<noteq> k"
  shows "js_get (wait_n w peer room ts) k = js_get w k"
  by (induction ts arbitrary: w) (simp_all add: backoff_wait_def Let_def assms)

text \<open>The repair digests to one peer and room back off 15 s, 30 s, and so on up to five
  minutes: after \<open>n\<close> waits in a row since a reset the next digest is due exactly when the capped
  doubling says, and a reset makes it due again at once, without touching any other peer or
  room.\<close>

theorem repair_backoff_schedule:
  assumes "js_get w (backoff_key peer room) = None" and "ts \<noteq> []"
    and "CHR ''|'' \<notin> set peer" and "CHR ''|'' \<notin> set peer'" and "(peer, room) \<noteq> (peer', room')"
  shows "(backoff_due (wait_n w peer room ts) peer room now \<longleftrightarrow>
            last ts + min (15000 * 2 ^ (length ts - 1)) 300000 \<le> now) \<and>
         (backoff_due (backoff_reset (wait_n w peer room ts) peer room) peer room now \<longleftrightarrow> 0 \<le> now) \<and>
         backoff_due (backoff_reset (wait_n w peer room ts) peer room) peer' room' now =
           backoff_due w peer' room' now"
proof (intro conjI)
  obtain n where n: "length ts = Suc n" using assms(2) by (cases ts) auto
  show "backoff_due (wait_n w peer room ts) peer room now \<longleftrightarrow>
      last ts + min (15000 * 2 ^ (length ts - 1)) 300000 \<le> now"
    using nth_delay_closed [of n] wait_n_delay [OF assms(1,2)]
    by (simp add: n backoff_due_def REPAIR_BACKOFF_MIN_MS_def REPAIR_BACKOFF_MAX_MS_def del: nth_delay.simps)
  show "backoff_due (backoff_reset (wait_n w peer room ts) peer room) peer room now \<longleftrightarrow> 0 \<le> now"
    by (simp add: backoff_due_def backoff_reset_def)
  have key: "backoff_key peer room \<noteq> backoff_key peer' room'"
    using assms(3-5) by (simp add: backoff_key_inject)
  show "backoff_due (backoff_reset (wait_n w peer room ts) peer room) peer' room' now =
      backoff_due w peer' room' now"
    by (simp add: backoff_due_def backoff_reset_def wait_n_other key)
qed

theorem repair_backoff_schedule_witness:
  "(backoff_due (wait_n [] ''p'' ''r'' [0, 15000]) ''p'' ''r'' 40000 \<longleftrightarrow>
      last [0, 15000] + min (15000 * 2 ^ (length [0, 15000 :: int] - 1)) 300000 \<le> (40000 :: int)) \<and>
   (backoff_due (backoff_reset (wait_n [] ''p'' ''r'' [0, 15000]) ''p'' ''r'') ''p'' ''r'' 40000
      \<longleftrightarrow> 0 \<le> (40000 :: int)) \<and>
   backoff_due (backoff_reset (wait_n [] ''p'' ''r'' [0, 15000]) ''p'' ''r'') ''q'' ''r'' 40000 =
     backoff_due [] ''q'' ''r'' 40000"
  by (rule repair_backoff_schedule) simp_all

lemma forgetPeer_due:
  assumes "js_wf w" and "CHR ''|'' \<notin> set peer" and "CHR ''|'' \<notin> set peer'"
  shows "backoff_due (backoff_forgetPeer w peer) peer' room now =
    (if peer' = peer then 0 \<le> now else backoff_due w peer' room now)"
  using assms(1) prefix_backoff_key [OF assms(2,3), of room]
  by (auto simp: backoff_due_def backoff_forgetPeer_def js_get_filter split: option.splits)

end
