(* ===== verification/Stable_Sort.thy ===== *)
theory Stable_Sort
  imports Prelude "HOL-Library.Multiset"
begin

text \<open>
  \<^verbatim>\<open>Array.prototype.sort\<close> with a comparator: the language promises a stable sort.
  It is modelled by insertion sort, and the locale \<open>comparator\<close> shows that this choice does
  not matter: for a consistent comparator every ordered permutation of a list whose
  members the comparator tells apart is the same list.
\<close>

fun insert_by :: "('a \<Rightarrow> 'a \<Rightarrow> int) \<Rightarrow> 'a \<Rightarrow> 'a list \<Rightarrow> 'a list" where
  "insert_by cmp x [] = [x]"
| "insert_by cmp x (y # ys) = (if cmp x y \<le> 0 then x # y # ys else y # insert_by cmp x ys)"

fun js_sort :: "('a \<Rightarrow> 'a \<Rightarrow> int) \<Rightarrow> 'a list \<Rightarrow> 'a list" where
  "js_sort cmp [] = []"
| "js_sort cmp (x # xs) = insert_by cmp x (js_sort cmp xs)"

definition ordered_by :: "('a \<Rightarrow> 'a \<Rightarrow> int) \<Rightarrow> 'a list \<Rightarrow> bool" where
  "ordered_by cmp xs \<longleftrightarrow> sorted_wrt (\<lambda>a b. cmp a b \<le> 0) xs"

definition apart :: "('a \<Rightarrow> 'a \<Rightarrow> int) \<Rightarrow> 'a list \<Rightarrow> bool" where
  "apart cmp xs \<longleftrightarrow> (\<forall>a\<in>set xs. \<forall>b\<in>set xs. cmp a b = 0 \<longrightarrow> a = b)"

lemma mset_insert_by [simp]: "mset (insert_by cmp x xs) = {#x#} + mset xs"
  by (induction xs) auto

lemma mset_js_sort [simp]: "mset (js_sort cmp xs) = mset xs"
  by (induction xs) auto

lemma set_insert_by [simp]: "set (insert_by cmp x xs) = insert x (set xs)"
  by (induction xs) auto

lemma set_js_sort [simp]: "set (js_sort cmp xs) = set xs"
  by (induction xs) auto

lemma length_js_sort [simp]: "length (js_sort cmp xs) = length xs"
  by (metis mset_js_sort size_mset)

lemma distinct_js_sort [simp]: "distinct (js_sort cmp xs) = distinct xs"
  by (metis mset_js_sort mset_eq_imp_distinct_iff)

lemma ordered_by_Nil [simp]: "ordered_by cmp []"
  by (simp add: ordered_by_def)

lemma ordered_by_Cons [simp]:
  "ordered_by cmp (x # xs) \<longleftrightarrow> (\<forall>y\<in>set xs. cmp x y \<le> 0) \<and> ordered_by cmp xs"
  by (simp add: ordered_by_def)

lemma ordered_by_append:
  "ordered_by cmp (xs @ ys) \<longleftrightarrow>
     ordered_by cmp xs \<and> ordered_by cmp ys \<and> (\<forall>x\<in>set xs. \<forall>y\<in>set ys. cmp x y \<le> 0)"
  by (simp add: ordered_by_def sorted_wrt_append)

lemma ordered_by_take: "ordered_by cmp xs \<Longrightarrow> ordered_by cmp (take n xs)"
  by (metis append_take_drop_id ordered_by_append)

lemma ordered_by_drop: "ordered_by cmp xs \<Longrightarrow> ordered_by cmp (drop n xs)"
  by (metis append_take_drop_id ordered_by_append)

lemma apart_cong: "set xs = set ys \<Longrightarrow> apart cmp xs = apart cmp ys"
  by (simp add: apart_def)

locale comparator =
  fixes cmp :: "'a \<Rightarrow> 'a \<Rightarrow> int"
  assumes flip: "cmp a b \<le> 0 \<longleftrightarrow> 0 \<le> cmp b a"
    and trans_le: "cmp a b \<le> 0 \<Longrightarrow> cmp b c \<le> 0 \<Longrightarrow> cmp a c \<le> 0"
begin

lemma total: "cmp a b \<le> 0 \<or> cmp b a \<le> 0"
  using flip [of a b] by linarith

lemma gt_le: "0 < cmp a b \<Longrightarrow> cmp b a \<le> 0"
  using flip [of b a] by simp

lemma both_zero: "cmp a b \<le> 0 \<Longrightarrow> cmp b a \<le> 0 \<Longrightarrow> cmp a b = 0"
  using flip [of a b] flip [of b a] by simp

lemma refl_zero: "cmp a a = 0"
  using flip [of a a] by linarith

lemma ordered_insert: "ordered_by cmp xs \<Longrightarrow> ordered_by cmp (insert_by cmp x xs)"
proof (induction xs)
  case Nil
  then show ?case by simp
next
  case (Cons y ys)
  then show ?case using gt_le [of x y] by (auto intro: trans_le)
qed

lemma ordered_sort: "ordered_by cmp (js_sort cmp xs)"
  by (induction xs) (auto intro: ordered_insert)

lemma ordered_unique:
  assumes "ordered_by cmp xs" "ordered_by cmp ys" "mset xs = mset ys" "apart cmp xs"
  shows "xs = ys"
  using assms
proof (induction xs arbitrary: ys)
  case Nil
  then show ?case by simp
next
  case (Cons x xs)
  then obtain y ys' where ys: "ys = y # ys'" by (cases ys) auto
  from Cons.prems(3) have sets: "set (x # xs) = set ys" by (metis set_mset_mset)
  then have ends: "y \<in> set (x # xs)" "x \<in> set (y # ys')" by (auto simp: ys)
  have "cmp x y \<le> 0" using Cons.prems(1) ends(1) refl_zero [of x] by auto
  moreover have "cmp y x \<le> 0" using Cons.prems(2) ends(2) ys refl_zero [of y] by auto
  ultimately have "x = y"
    using Cons.prems(4) ends(1) both_zero [of x y] by (auto simp: apart_def)
  moreover have "xs = ys'"
    using Cons.prems ys \<open>x = y\<close> by (intro Cons.IH) (auto simp: apart_def)
  ultimately show ?case by (simp add: ys)
qed

lemma sort_unique:
  "ordered_by cmp ys \<Longrightarrow> mset ys = mset xs \<Longrightarrow> apart cmp xs \<Longrightarrow> js_sort cmp xs = ys"
  by (rule ordered_unique) (auto simp: ordered_sort apart_def)

end

end
