(* ===== verification/Message_Order.thy ===== *)
theory Message_Order
  imports Stable_Sort
begin

text \<open>
  The conversation order of \<^verbatim>\<open>frontend/src/lib/transport/message-order.ts\<close>:
  lamport first, then the message id by code units. A \<open>cursor\<close> is the part of a message the
  order reads; every other message record of the development extends it.
\<close>

record cursor =
  lamport :: int
  mid :: string

definition compareMessages :: "'a cursor_scheme \<Rightarrow> 'a cursor_scheme \<Rightarrow> int" where
  "compareMessages a b =
     (if lamport a - lamport b \<noteq> 0 then lamport a - lamport b
      else if mid a < mid b then -1 else if mid b < mid a then 1 else 0)"

definition appendSorted :: "'a cursor_scheme list \<Rightarrow> 'a cursor_scheme \<Rightarrow> 'a cursor_scheme list" where
  "appendSorted list msg =
     (let next = list @ [msg] in
      if list \<noteq> [] \<and> compareMessages (last list) msg > 0 then js_sort compareMessages next
      else next)"

lemma compareMessages_le:
  "compareMessages a b \<le> 0 \<longleftrightarrow> (lamport a, mid a) = (lamport b, mid b) \<or>
     lamport a < lamport b \<or> lamport a = lamport b \<and> mid a < mid b"
  by (auto simp: compareMessages_def)

lemma compareMessages_zero:
  "compareMessages a b = 0 \<longleftrightarrow> lamport a = lamport b \<and> mid a = mid b"
  by (auto simp: compareMessages_def)

lemma compareMessages_lamport: "compareMessages a b \<le> 0 \<Longrightarrow> lamport a \<le> lamport b"
  by (auto simp: compareMessages_le)

interpretation cm: comparator compareMessages
proof unfold_locales
  fix a b c :: "'a cursor_scheme"
  show "(compareMessages a b \<le> 0) = (0 \<le> compareMessages b a)"
    by (auto simp: compareMessages_def)
  assume "compareMessages a b \<le> 0" "compareMessages b c \<le> 0"
  then show "compareMessages a c \<le> 0" by (auto simp: compareMessages_le)
qed

lemma apart_inj: "inj_on mid (set xs) \<Longrightarrow> apart compareMessages xs"
  by (auto simp: apart_def compareMessages_zero dest: inj_onD)

lemma set_appendSorted [simp]: "set (appendSorted xs m) = insert m (set xs)"
  by (auto simp: appendSorted_def Let_def)

lemma mset_appendSorted [simp]: "mset (appendSorted xs m) = add_mset m (mset xs)"
  by (auto simp: appendSorted_def Let_def)

lemma appendSorted_ordered:
  assumes "ordered_by compareMessages xs"
  shows "ordered_by compareMessages (appendSorted xs m)"
proof (cases "xs \<noteq> [] \<and> compareMessages (last xs) m > 0")
  case True
  then show ?thesis by (simp add: appendSorted_def cm.ordered_sort)
next
  case False
  have "compareMessages x m \<le> 0" if "x \<in> set xs" for x
  proof -
    from that obtain ys z where xs: "xs = ys @ [z]" by (cases xs rule: rev_cases) auto
    with that assms have "compareMessages x z \<le> 0"
      by (auto simp: ordered_by_append cm.refl_zero)
    moreover have "compareMessages z m \<le> 0" using False xs by simp
    ultimately show ?thesis by (rule cm.trans_le)
  qed
  with False assms show ?thesis by (auto simp: appendSorted_def Let_def ordered_by_append)
qed

fun receive_all :: "'a cursor_scheme list \<Rightarrow> 'a cursor_scheme list \<Rightarrow> 'a cursor_scheme list" where
  "receive_all view [] = view"
| "receive_all view (m # ms) = receive_all (appendSorted view m) ms"

lemma receive_all_ordered:
  "ordered_by compareMessages view \<Longrightarrow> ordered_by compareMessages (receive_all view ms)"
  by (induction ms arbitrary: view) (auto intro: appendSorted_ordered)

lemma mset_receive_all: "mset (receive_all view ms) = mset view + mset ms"
  by (induction ms arbitrary: view) auto

text \<open>C25: every device shows a conversation in the same order: whatever order the same messages
  (with ids that tell them apart) reach two devices in, appending them one by one leaves both
  with the same list, and it is the sorted one.\<close>

theorem views_converge:
  assumes "mset ms = mset ms'" and "inj_on mid (set ms)"
  shows "receive_all [] ms = receive_all [] ms' \<and> receive_all [] ms = js_sort compareMessages ms"
proof -
  have ap: "apart compareMessages ms" using assms(2) by (rule apart_inj)
  have "js_sort compareMessages ms = receive_all [] ms"
    by (rule cm.sort_unique) (auto simp: receive_all_ordered mset_receive_all ap)
  moreover have "js_sort compareMessages ms = receive_all [] ms'"
    by (rule cm.sort_unique) (auto simp: receive_all_ordered mset_receive_all ap assms(1))
  ultimately show ?thesis by simp
qed

theorem views_converge_witness:
  "receive_all [] [\<lparr>lamport = 2, mid = ''b''\<rparr>, \<lparr>lamport = 2, mid = ''a''\<rparr>]
     = receive_all [] [\<lparr>lamport = 2, mid = ''a''\<rparr>, \<lparr>lamport = 2, mid = ''b''\<rparr>] \<and>
   receive_all [] [\<lparr>lamport = 2, mid = ''b''\<rparr>, \<lparr>lamport = 2, mid = ''a''\<rparr>]
     = js_sort compareMessages [\<lparr>lamport = 2, mid = ''b''\<rparr>, \<lparr>lamport = 2, mid = ''a''\<rparr>]"
  by (rule views_converge) simp_all

end
