(* ===== verification/Message_Types.thy ===== *)
theory Message_Types
  imports Message_Order
begin

text \<open>
  The message kinds of \<^verbatim>\<open>frontend/src/lib/types/message.ts\<close>, the test that picks the
  kinds that are stored, and the row record the history sync works on: a cursor with its
  kind and its sender.
\<close>

datatype MessageType =
    Text | Reply | Reaction | File | PluginCard | PluginUpdate
  | Profile | CallPresence | CallState | WatchPresence | VoiceRedial | VoiceSignal
  | RoomName | PluginEphemeral | Typing
  | JoinRoom | LeaveRoom | RoomUsersSync
  | SyncDigest | SyncBatch | SyncComplete | SyncNone

fun wire_tag :: "MessageType \<Rightarrow> string" where
  "wire_tag Text = ''text''"
| "wire_tag Reply = ''reply''"
| "wire_tag Reaction = ''reaction''"
| "wire_tag File = ''file''"
| "wire_tag PluginCard = ''plugin_card''"
| "wire_tag PluginUpdate = ''plugin_update''"
| "wire_tag Profile = ''profile''"
| "wire_tag CallPresence = ''call_presence''"
| "wire_tag CallState = ''call_state''"
| "wire_tag WatchPresence = ''watch_presence''"
| "wire_tag VoiceRedial = ''voice_redial''"
| "wire_tag VoiceSignal = ''voice_signal''"
| "wire_tag RoomName = ''room_name''"
| "wire_tag PluginEphemeral = ''plugin_ephemeral''"
| "wire_tag Typing = ''typing''"
| "wire_tag JoinRoom = ''join_room''"
| "wire_tag LeaveRoom = ''leave_room''"
| "wire_tag RoomUsersSync = ''room_users_sync''"
| "wire_tag SyncDigest = ''sync_digest''"
| "wire_tag SyncBatch = ''sync_batch''"
| "wire_tag SyncComplete = ''sync_complete''"
| "wire_tag SyncNone = ''sync_none''"

lemma wire_tag_inject [simp]: "wire_tag a = wire_tag b \<longleftrightarrow> a = b"
  by (cases a; cases b) simp_all

definition isChatMessage :: "MessageType \<Rightarrow> bool" where
  "isChatMessage t \<longleftrightarrow>
     t = Text \<or> t = Reply \<or> t = Reaction \<or> t = File \<or> t = PluginCard \<or> t = PluginUpdate"

record row = cursor +
  mtype :: MessageType
  senderId :: string

end
