(* ===== verification/Sync_View.thy ===== *)
theory Sync_View
  imports Message_Types
begin

text \<open>
  The view buffer of history sync, \<^verbatim>\<open>frontend/src/lib/transport/sync-view.ts\<close>. Rows for
  the open conversation are parked per room and handed over in one flush: after a quiet gap,
  at a deadline, or when the pusher says it is done. A timer is the time it will fire at
  (\<open>None\<close> while it is not set); a timer event runs \<open>fire\<close>. What reached the view is \<open>flushed\<close>,
  the calls of the \<^verbatim>\<open>flush\<close> callback in order.
\<close>

section \<open>The buffer\<close>

definition SYNC_VIEW_SETTLE_MS :: int where
  "SYNC_VIEW_SETTLE_MS = 250"

definition SYNC_VIEW_MAX_WAIT_MS :: int where
  "SYNC_VIEW_MAX_WAIT_MS = 1000"

record pending_rows =
  p_rows :: "row list"
  p_ids :: "string list"
  settle_at :: "int option"
  deadline_at :: int

record view_buffer =
  pending :: "(string, pending_rows) jsmap"
  flushed :: "(string \<times> row list) list"

definition empty_buffer :: view_buffer where
  "empty_buffer = \<lparr>pending = [], flushed = []\<rparr>"

definition fire :: "view_buffer \<Rightarrow> string \<Rightarrow> view_buffer" where
  "fire b room =
     (case js_get (pending b) room of
        None \<Rightarrow> b
      | Some p \<Rightarrow>
          let b' = b\<lparr>pending := js_delete (pending b) room\<rparr> in
          if p_rows p \<noteq> [] then b'\<lparr>flushed := flushed b' @ [(room, p_rows p)]\<rparr> else b')"

definition clear_buffer :: "view_buffer \<Rightarrow> view_buffer" where
  "clear_buffer b = b\<lparr>pending := []\<rparr>"

fun park :: "pending_rows \<Rightarrow> row list \<Rightarrow> pending_rows" where
  "park p [] = p"
| "park p (m # ms) =
     park (if mid m \<in> set (p_ids p) then p
           else p\<lparr>p_ids := set_add (p_ids p) (mid m), p_rows := p_rows p @ [m]\<rparr>) ms"

definition add_rows :: "view_buffer \<Rightarrow> string \<Rightarrow> row list \<Rightarrow> int \<Rightarrow> view_buffer" where
  "add_rows b room rs now =
     (if rs = [] then b
      else
        let p = (case js_get (pending b) room of
                   Some p \<Rightarrow> p
                 | None \<Rightarrow> \<lparr>p_rows = [], p_ids = [], settle_at = None,
                            deadline_at = now + SYNC_VIEW_MAX_WAIT_MS\<rparr>);
            p' = park p rs
        in b\<lparr>pending := js_set (pending b) room (p'\<lparr>settle_at := Some (now + SYNC_VIEW_SETTLE_MS)\<rparr>)\<rparr>)"

definition drop_room :: "view_buffer \<Rightarrow> string \<Rightarrow> view_buffer" where
  "drop_room b room =
     (case js_get (pending b) room of
        None \<Rightarrow> b
      | Some p \<Rightarrow> b\<lparr>pending := js_delete (pending b) room\<rparr>)"

definition pending_count :: "view_buffer \<Rightarrow> string \<Rightarrow> nat" where
  "pending_count b room =
     (case js_get (pending b) room of None \<Rightarrow> 0 | Some p \<Rightarrow> length (p_rows p))"

section \<open>Parking\<close>

definition parked_ok :: "pending_rows \<Rightarrow> bool" where
  "parked_ok p \<longleftrightarrow> p_ids p = map mid (p_rows p) \<and> distinct (map mid (p_rows p))"

lemma parked_ok_settle [simp]: "parked_ok (p\<lparr>settle_at := x\<rparr>) = parked_ok p"
  by (simp add: parked_ok_def)

lemma parked_okD: "parked_ok p \<Longrightarrow> distinct (map mid (p_rows p))"
  by (simp add: parked_ok_def)

lemma park_ok: "parked_ok p \<Longrightarrow> parked_ok (park p ms)"
  by (induction p ms rule: park.induct) (auto simp: parked_ok_def set_add_def)

lemma park_ids: "set (p_ids (park p ms)) = set (p_ids p) \<union> mid ` set ms"
  by (induction p ms rule: park.induct) auto

lemma park_extends: "\<exists>new. p_rows (park p ms) = p_rows p @ new \<and> set new \<subseteq> set ms"
proof (induction p ms rule: park.induct)
  case (2 p m ms)
  then show ?case by (cases "mid m \<in> set (p_ids p)") fastforce+
qed simp

lemma park_timers [simp]:
  "deadline_at (park p ms) = deadline_at p" "settle_at (park p ms) = settle_at p"
  by (induction p ms rule: park.induct) auto

section \<open>Runs\<close>

text \<open>Events carry the time they happen at. A timer event is possible only once one of the
  room's two timers is due.\<close>

datatype view_event = Add string "row list" | Complete string | Leave string | Clear | Timer string

inductive view_step :: "view_buffer \<Rightarrow> int \<Rightarrow> view_event \<Rightarrow> view_buffer \<Rightarrow> bool" where
  add: "view_step b now (Add room rs) (add_rows b room rs now)"
| complete: "view_step b now (Complete room) (fire b room)"
| leave: "view_step b now (Leave room) (drop_room b room)"
| clear: "view_step b now Clear (clear_buffer b)"
| timer: "js_get (pending b) room = Some p \<Longrightarrow> deadline_at p \<le> now \<or> (\<exists>t. settle_at p = Some t \<and> t \<le> now) \<Longrightarrow>
    view_step b now (Timer room) (fire b room)"

inductive_simps view_step_simps [simp]:
  "view_step b now (Add room rs) b'"
  "view_step b now (Complete room) b'"
  "view_step b now (Leave room) b'"
  "view_step b now Clear b'"
  "view_step b now (Timer room) b'"

inductive view_reachable :: "view_buffer \<Rightarrow> bool" where
  start: "view_reachable empty_buffer"
| step: "view_reachable b \<Longrightarrow> view_step b now e b' \<Longrightarrow> view_reachable b'"

definition view_ok :: "view_buffer \<Rightarrow> bool" where
  "view_ok b \<longleftrightarrow> js_wf (pending b) \<and>
     (\<forall>room p. js_get (pending b) room = Some p \<longrightarrow>
        parked_ok p \<and> p_rows p \<noteq> [] \<and> settle_at p \<noteq> None) \<and>
     (\<forall>(room, rs) \<in> set (flushed b). rs \<noteq> [] \<and> distinct (map mid rs))"

lemma fire_ok: "view_ok b \<Longrightarrow> view_ok (fire b room)"
  by (auto simp: view_ok_def fire_def Let_def split: option.splits if_splits dest: parked_okD)

lemma park_nonempty: "parked_ok p \<Longrightarrow> ms \<noteq> [] \<Longrightarrow> p_rows (park p ms) \<noteq> []"
  using park_ok [of p ms] park_ids [of p ms] by (auto simp: parked_ok_def)

lemma add_rows_ok: "view_ok b \<Longrightarrow> view_ok (add_rows b room rs now)"
proof (cases "rs = []")
  case False
  assume ok: "view_ok b"
  define p where "p = (case js_get (pending b) room of Some p \<Rightarrow> p
     | None \<Rightarrow> \<lparr>p_rows = [], p_ids = [], settle_at = None, deadline_at = now + SYNC_VIEW_MAX_WAIT_MS\<rparr>)"
  have "parked_ok p" using ok by (auto simp: p_def view_ok_def parked_ok_def split: option.splits)
  then have "parked_ok (park p rs)" "p_rows (park p rs) \<noteq> []"
    using False park_nonempty [of p rs] by (simp_all add: park_ok)
  then show ?thesis
    using ok False by (auto simp: view_ok_def add_rows_def Let_def p_def [symmetric])
qed (simp add: add_rows_def)

lemma view_step_ok: "view_step b now e b' \<Longrightarrow> view_ok b \<Longrightarrow> view_ok b'"
  by (induction rule: view_step.induct)
    (auto intro: add_rows_ok fire_ok, auto simp: view_ok_def drop_room_def clear_buffer_def split: option.splits if_splits)

text \<open>In every reachable state of the view buffer a flush hands over a non-empty list in
  which no message occurs twice, and every room with parked rows has its timer armed, so
  parked rows are never stranded.\<close>

theorem view_buffer_invariant:
  assumes "view_reachable b"
  shows "view_ok b"
  using assms
proof (induction rule: view_reachable.induct)
  case start
  show ?case by (simp add: view_ok_def empty_buffer_def)
next
  case (step b now e b')
  then show ?case by (blast intro: view_step_ok)
qed

theorem view_buffer_invariant_witness:
  "view_ok (add_rows empty_buffer ''r'' [\<lparr>lamport = 1, mid = ''m'', mtype = Text, senderId = ''a''\<rparr>] 0)"
  by (rule view_buffer_invariant, rule view_reachable.step [OF view_reachable.start])
    (rule view_step.add)

fun add_batches :: "view_buffer \<Rightarrow> string \<Rightarrow> (row list \<times> int) list \<Rightarrow> view_buffer" where
  "add_batches b room [] = b"
| "add_batches b room ((rs, t) # cs) = add_batches (add_rows b room rs t) room cs"

lemma add_batches_deadline:
  assumes "js_get (pending b) room = Some p" and "parked_ok p"
  shows "\<exists>q. js_get (pending (add_batches b room cs)) room = Some q \<and> deadline_at q = deadline_at p \<and>
     parked_ok q \<and> set (p_ids q) = set (p_ids p) \<union> (\<Union>(rs, t)\<in>set cs. mid ` set rs) \<and>
     flushed (add_batches b room cs) = flushed b"
  using assms
proof (induction b room cs arbitrary: p rule: add_batches.induct)
  case (1 b room)
  then show ?case by auto
next
  case (2 b room rs t cs)
  show ?case
  proof (cases "rs = []")
    case True
    with "2.IH" [of p] "2.prems" show ?thesis by (simp add: add_rows_def)
  next
    case False
    let ?p = "(park p rs)\<lparr>settle_at := Some (t + SYNC_VIEW_SETTLE_MS)\<rparr>"
    have g: "js_get (pending (add_rows b room rs t)) room = Some ?p"
      using False "2.prems"(1) by (simp add: add_rows_def)
    have ok: "parked_ok ?p" using park_ok [OF "2.prems"(2), of rs] by simp
    have "flushed (add_rows b room rs t) = flushed b" by (simp add: add_rows_def Let_def)
    with "2.IH" [OF g ok] show ?thesis by (auto simp: park_ids)
  qed
qed

text \<open>No parked row waits longer than a second: from the first row parked for a room, any
  number of later batches leaves the room's deadline where it was, so once it passes the timer
  may fire, and firing hands over every distinct row parked since.\<close>

theorem parked_rows_reach_the_view:
  assumes "js_get (pending b) room = None" and "rs \<noteq> []" and "t0 + 1000 \<le> now"
    and "b' = add_batches (add_rows b room rs t0) room cs"
  shows "\<exists>out. view_step b' now (Timer room) (fire b' room) \<and>
     flushed (fire b' room) = flushed b @ [(room, out)] \<and>
     mid ` set out = mid ` set rs \<union> (\<Union>(rs', t)\<in>set cs. mid ` set rs')"
proof -
  define p0 where "p0 = \<lparr>p_rows = [], p_ids = [], settle_at = None, deadline_at = t0 + 1000\<rparr>"
  let ?p = "(park p0 rs)\<lparr>settle_at := Some (t0 + SYNC_VIEW_SETTLE_MS)\<rparr>"
  have g: "js_get (pending (add_rows b room rs t0)) room = Some ?p"
    using assms(1,2) by (simp add: add_rows_def p0_def SYNC_VIEW_MAX_WAIT_MS_def)
  have "parked_ok p0" by (simp add: p0_def parked_ok_def)
  then have ok: "parked_ok ?p" using park_ok [of p0 rs] by simp
  have fl: "flushed (add_rows b room rs t0) = flushed b" by (simp add: add_rows_def Let_def)
  obtain q where q: "js_get (pending b') room = Some q" "deadline_at q = t0 + 1000" "parked_ok q"
      "set (p_ids q) = mid ` set rs \<union> (\<Union>(rs', t)\<in>set cs. mid ` set rs')" "flushed b' = flushed b"
    using add_batches_deadline [OF g ok, of cs] fl by (auto simp: assms(4) park_ids p0_def)
  have "set (p_ids q) \<noteq> {}" using q(4) assms(2) by auto
  then have "p_rows q \<noteq> []" using q(3) by (auto simp: parked_ok_def)
  then have "flushed (fire b' room) = flushed b @ [(room, p_rows q)]"
    using q by (simp add: fire_def)
  moreover have "mid ` set (p_rows q) = set (p_ids q)" using q(3) by (simp add: parked_ok_def)
  moreover have "view_step b' now (Timer room) (fire b' room)" using q assms(3) by auto
  ultimately show ?thesis using q(4) by auto
qed

definition demo_view :: view_buffer where
  "demo_view = add_batches (add_rows empty_buffer ''r''
     [\<lparr>lamport = 1, mid = ''m'', mtype = Text, senderId = ''a''\<rparr>] 0) ''r'' []"

theorem parked_rows_reach_the_view_witness:
  "\<exists>out. view_step demo_view 1000 (Timer ''r'') (fire demo_view ''r'') \<and>
     flushed (fire demo_view ''r'') = flushed empty_buffer @ [(''r'', out)] \<and>
     mid ` set out = mid ` set [\<lparr>lamport = 1, mid = ''m'', mtype = Text, senderId = ''a''\<rparr>]
       \<union> (\<Union>(rs', t)\<in>set ([] :: (row list \<times> int) list). mid ` set rs')"
  by (rule parked_rows_reach_the_view [OF _ _ _ demo_view_def]) (simp_all add: empty_buffer_def)

end
