(* ===== verification/Sync_Push.thy ===== *)
theory Sync_Push
  imports Message_Types
begin

text \<open>
  The sending end of a history push, \<^verbatim>\<open>frontend/src/lib/transport/sync-push.ts\<close>:
  how the rows a peer lacks are cut into batches (\<open>planPush\<close>, \<open>chunk\<close>) and how the
  batches are sent one after another with retries (\<open>runPush\<close>).

  \<open>runPush\<close> awaits two callbacks. Their answers are read from \<open>alive\<close> and \<open>send\<close>, functions of
  the number of calls made so far, so that any sequence of answers is covered; a rejected
  \<open>send\<close> is the answer \<open>False\<close>, as its \<^verbatim>\<open>catch\<close> makes it. What the function does
  is the trace of its effects.
\<close>

section \<open>Planning\<close>

datatype PushOrder = Head | Asc

record 'r PushBatch =
  rows :: "'r list"
  order :: PushOrder

record 'r PushPlan =
  batchSize :: nat
  pageSize :: nat
  maxBatchBytes :: nat
  sizeOf :: "'r \<Rightarrow> nat"

text \<open>The loop of \<open>chunk\<close>: \<open>out\<close> is the finished batches, \<open>cur\<close> the open one.\<close>

fun chunk_loop ::
  "'r PushPlan \<Rightarrow> PushOrder \<Rightarrow> 'r PushBatch list \<Rightarrow> 'r list \<Rightarrow> nat \<Rightarrow> 'r list \<Rightarrow> 'r PushBatch list"
where
  "chunk_loop plan ord out cur bytes [] =
     (if cur \<noteq> [] then out @ [\<lparr>rows = cur, order = ord\<rparr>] else out)"
| "chunk_loop plan ord out cur bytes (r # rs) =
     (let size = sizeOf plan r in
      if cur \<noteq> [] \<and> (batchSize plan \<le> length cur \<or> maxBatchBytes plan < bytes + size)
      then chunk_loop plan ord (out @ [\<lparr>rows = cur, order = ord\<rparr>]) [r] size rs
      else chunk_loop plan ord out (cur @ [r]) (bytes + size) rs)"

definition chunk :: "'r list \<Rightarrow> PushOrder \<Rightarrow> 'r PushPlan \<Rightarrow> 'r PushBatch list" where
  "chunk rs ord plan = chunk_loop plan ord [] [] 0 rs"

text \<open>The backward scan for the head: \<open>head_scan rs page i start shown\<close> is the loop about to
  look at row \<open>i - 1\<close>.\<close>

fun head_scan :: "('a row_scheme) list \<Rightarrow> nat \<Rightarrow> nat \<Rightarrow> nat \<Rightarrow> nat \<Rightarrow> nat" where
  "head_scan rs page 0 start shown = start"
| "head_scan rs page (Suc i) start shown =
     (if shown < page
      then head_scan rs page i i (if mtype (rs ! i) \<noteq> PluginUpdate then shown + 1 else shown)
      else start)"

definition head_start :: "('a row_scheme) list \<Rightarrow> nat \<Rightarrow> nat" where
  "head_start rs page =
     (let start = head_scan rs page (length rs) (length rs) 0 in
      if list_ex (\<lambda>r. mtype r \<noteq> PluginUpdate) (take start rs) then start else length rs)"

definition planPush :: "('a row_scheme) list \<Rightarrow> ('a row_scheme) PushPlan \<Rightarrow> ('a row_scheme) PushBatch list" where
  "planPush rs plan =
     (let srt = js_sort compareMessages rs;
          start = head_start srt (pageSize plan)
      in chunk (rev (drop start srt)) Head plan @ chunk (take start srt) Asc plan)"

subsection \<open>Chunks\<close>

definition batched :: "'r PushBatch list \<Rightarrow> 'r list" where
  "batched bs = concat (map rows bs)"

lemma batched_Nil [simp]: "batched [] = []"
  and batched_append [simp]: "batched (as @ bs) = batched as @ batched bs"
  and batched_Cons [simp]: "batched (b # bs) = rows b @ batched bs"
  by (simp_all add: batched_def)

lemma batched_chunk_loop:
  "batched (chunk_loop plan ord out cur bytes rs) = batched out @ cur @ rs"
  by (induction plan ord out cur bytes rs rule: chunk_loop.induct) (auto simp: Let_def)

lemma batched_chunk [simp]: "batched (chunk rs ord plan) = rs"
  by (simp add: chunk_def batched_chunk_loop)

definition batch_ok :: "'r PushPlan \<Rightarrow> 'r PushBatch \<Rightarrow> bool" where
  "batch_ok plan b \<longleftrightarrow> rows b \<noteq> [] \<and> length (rows b) \<le> max 1 (batchSize plan) \<and>
     (length (rows b) = 1 \<or> sum_list (map (sizeOf plan) (rows b)) \<le> maxBatchBytes plan)"

lemma chunk_loop_ok:
  assumes "\<forall>b\<in>set out. batch_ok plan b \<and> order b = ord"
    and "cur \<noteq> [] \<Longrightarrow> batch_ok plan \<lparr>rows = cur, order = ord\<rparr>"
    and "bytes = sum_list (map (sizeOf plan) cur)"
  shows "\<forall>b\<in>set (chunk_loop plan ord out cur bytes rs). batch_ok plan b \<and> order b = ord"
  using assms
proof (induction plan ord out cur bytes rs rule: chunk_loop.induct)
  case (1 plan ord out cur bytes)
  then show ?case by auto
next
  case (2 plan ord out cur bytes r rs)
  show ?case
  proof (cases "cur \<noteq> [] \<and> (batchSize plan \<le> length cur \<or> maxBatchBytes plan < bytes + sizeOf plan r)")
    case True
    then have "\<forall>b\<in>set (chunk_loop plan ord (out @ [\<lparr>rows = cur, order = ord\<rparr>]) [r] (sizeOf plan r) rs).
        batch_ok plan b \<and> order b = ord"
      using "2.prems" by (intro "2.IH"(1)) (auto simp: batch_ok_def)
    with True show ?thesis by (simp add: Let_def)
  next
    case False
    then have "\<forall>b\<in>set (chunk_loop plan ord out (cur @ [r]) (bytes + sizeOf plan r) rs).
        batch_ok plan b \<and> order b = ord"
      using "2.prems" by (intro "2.IH"(2)) (auto simp: batch_ok_def)
    with False show ?thesis by (simp only: chunk_loop.simps Let_def if_False)
  qed
qed

lemma chunk_ok: "b \<in> set (chunk rs ord plan) \<Longrightarrow> batch_ok plan b \<and> order b = ord"
  using chunk_loop_ok [of "[]" plan ord "[]" 0 rs] by (auto simp: chunk_def)

subsection \<open>The head\<close>

definition visible :: "('a row_scheme) list \<Rightarrow> nat" where
  "visible rs = length (filter (\<lambda>r. mtype r \<noteq> PluginUpdate) rs)"

lemma visible_Nil [simp]: "visible [] = 0"
  and visible_Cons [simp]: "visible (r # rs) = (if mtype r \<noteq> PluginUpdate then 1 else 0) + visible rs"
  and visible_append [simp]: "visible (xs @ ys) = visible xs + visible ys"
  by (simp_all add: visible_def)

lemma head_scan_le: "i \<le> start \<Longrightarrow> head_scan rs page i start shown \<le> start"
proof (induction i arbitrary: start shown)
  case (Suc i)
  have "head_scan rs page i i x \<le> i" for x by (rule Suc.IH) simp
  then show ?case using Suc.prems by (auto intro: le_trans [where j = i])
qed simp

lemma head_scan_shows:
  assumes "i \<le> length rs" and "shown = visible (drop i rs)" and "shown \<le> page"
  shows "visible (drop (head_scan rs page i i shown) rs) \<le> page \<and>
         (0 < head_scan rs page i i shown \<longrightarrow> visible (drop (head_scan rs page i i shown) rs) = page)"
  using assms
proof (induction i arbitrary: shown)
  case 0
  then show ?case by simp
next
  case (Suc i)
  show ?case
  proof (cases "shown < page")
    case True
    have i: "i < length rs" using Suc.prems(1) by simp
    let ?shown = "if mtype (rs ! i) \<noteq> PluginUpdate then shown + 1 else shown"
    have "visible (drop i rs) = visible (rs ! i # drop (Suc i) rs)"
      by (simp only: Cons_nth_drop_Suc [OF i])
    then have "?shown = visible (drop i rs)" using Suc.prems(2) by simp
    moreover have "?shown \<le> page" using True by simp
    ultimately show ?thesis using Suc.IH [of ?shown] i True by simp
  next
    case False
    with Suc.prems show ?thesis by simp
  qed
qed

lemma head_start_le: "head_start rs page \<le> length rs"
  using head_scan_le [of "length rs" "length rs" rs page 0] by (simp add: head_start_def Let_def)

lemma visible_take_pos: "list_ex (\<lambda>r. mtype r \<noteq> PluginUpdate) xs \<longleftrightarrow> 0 < visible xs"
  by (induction xs) auto

lemma head_start_shows:
  "head_start rs page = length rs \<or>
   (visible (drop (head_start rs page) rs) = page \<and> 0 < visible (take (head_start rs page) rs))"
proof -
  let ?s = "head_scan rs page (length rs) (length rs) 0"
  have "visible (drop ?s rs) = page" if "0 < ?s"
    using head_scan_shows [of "length rs" rs 0 page] that by simp
  moreover have "0 < ?s" if "0 < visible (take ?s rs)" using that by (cases ?s) auto
  ultimately show ?thesis by (auto simp: head_start_def Let_def visible_take_pos)
qed

subsection \<open>The plan\<close>

abbreviation head_of :: "'r PushBatch list \<Rightarrow> 'r PushBatch list" where
  "head_of bs \<equiv> filter (\<lambda>b. order b = Head) bs"

abbreviation asc_of :: "'r PushBatch list \<Rightarrow> 'r PushBatch list" where
  "asc_of bs \<equiv> filter (\<lambda>b. order b = Asc) bs"

lemma chunk_filter:
  "filter (\<lambda>b. order b = o') (chunk rs ord plan) = (if o' = ord then chunk rs ord plan else [])"
  by (auto simp: filter_id_conv filter_empty_conv dest: chunk_ok)

lemma planPush_parts:
  fixes rs :: "('a row_scheme) list" and plan
  defines "srt \<equiv> js_sort compareMessages rs"
  defines "start \<equiv> head_start srt (pageSize plan)"
  shows "planPush rs plan = head_of (planPush rs plan) @ asc_of (planPush rs plan)"
    and "batched (head_of (planPush rs plan)) = rev (drop start srt)"
    and "batched (asc_of (planPush rs plan)) = take start srt"
  by (simp_all add: planPush_def Let_def chunk_filter srt_def start_def)

lemma planPush_batch_ok: "b \<in> set (planPush rs plan) \<Longrightarrow> batch_ok plan b"
  by (auto simp: planPush_def Let_def dest: chunk_ok)

lemma set_planPush: "set (batched (planPush rs plan)) = set rs"
proof -
  let ?srt = "js_sort compareMessages rs" and ?n = "head_start (js_sort compareMessages rs) (pageSize plan)"
  have "set (batched (planPush rs plan)) = set (take ?n ?srt @ drop ?n ?srt)"
    by (auto simp: planPush_def Let_def simp del: append_take_drop_id)
  then show ?thesis by (metis append_take_drop_id mset_js_sort set_mset_mset)
qed

text \<open>Nothing older comes later: a row below one of an \<open>Asc\<close> batch is in that batch or an
  earlier one.\<close>

lemma planPush_prefix:
  assumes i: "i < length (planPush rs plan)" "order (planPush rs plan ! i) = Asc"
    and x: "x \<in> set (rows (planPush rs plan ! i))" and r: "r \<in> set rs" "lamport r < lamport x"
  shows "\<exists>m\<le>i. r \<in> set (rows (planPush rs plan ! m))"
proof (rule ccontr)
  let ?bs = "planPush rs plan"
  let ?hs = "head_of ?bs" and ?as = "asc_of ?bs"
  assume no: "\<not> ?thesis"
  have bs: "?bs = ?hs @ ?as" by (rule planPush_parts)
  have "i \<ge> length ?hs"
  proof (rule ccontr)
    assume "\<not> i \<ge> length ?hs"
    then have "?bs ! i \<in> set ?hs" by (metis bs nth_append nth_mem not_le)
    with i show False by simp
  qed
  then obtain j where j: "i = length ?hs + j" "j < length ?as"
    using i(1) bs by (metis add_diff_inverse_nat length_append nat_add_left_cancel_less not_le)
  have "r \<in> set (batched ?bs)" using r(1) by (simp add: set_planPush)
  then obtain b where b: "b \<in> set ?bs" "r \<in> set (rows b)" unfolding batched_def by auto
  from b(1) obtain m where "m < length ?bs" "?bs ! m = b" unfolding in_set_conv_nth by blast
  with b(2) have m: "m < length ?bs" "r \<in> set (rows (?bs ! m))" by simp_all
  with no have "i < m" by (meson not_le)
  have xr: "x \<in> set (batched (take (Suc j) ?as))" "r \<in> set (batched (drop (Suc j) ?as))"
  proof -
    have "?bs ! i = ?as ! j" using j bs by (metis nth_append_length_plus)
    moreover have "?as ! j \<in> set (take (Suc j) ?as)" using j(2) by (simp add: take_Suc_conv_app_nth)
    ultimately show "x \<in> set (batched (take (Suc j) ?as))" using x by (auto simp: batched_def)
    define d where "d = m - Suc i"
    have d: "m = length ?hs + (Suc j + d)" using \<open>i < m\<close> j(1) by (simp add: d_def)
    have "(?hs @ ?as) ! m = ?as ! (Suc j + d)" unfolding d by (rule nth_append_length_plus)
    moreover have "Suc j + d < length ?as" using m(1) d arg_cong [OF bs, of length] by simp
    ultimately have "?bs ! m = drop (Suc j) ?as ! d" "d < length (drop (Suc j) ?as)"
      using bs by simp_all
    then have "?bs ! m \<in> set (drop (Suc j) ?as)" by (simp only: nth_mem)
    then show "r \<in> set (batched (drop (Suc j) ?as))" using m(2) by (auto simp: batched_def)
  qed
  let ?srt = "js_sort compareMessages rs"
  have "batched (take (Suc j) ?as) @ batched (drop (Suc j) ?as) = batched ?as"
    by (metis append_take_drop_id batched_append)
  then have "ordered_by compareMessages (batched (take (Suc j) ?as) @ batched (drop (Suc j) ?as))"
    using planPush_parts(3) [of rs plan] cm.ordered_sort [of rs]
    by (metis append_take_drop_id ordered_by_append)
  with xr have "compareMessages x r \<le> 0" by (auto simp: ordered_by_append)
  then show False using compareMessages_lamport r(2) by fastforce
qed

text \<open>C23: a push hands over every row the receiver lacks exactly once, in batches that respect
  the plan's row and byte limits, the head batches before the rest.\<close>

theorem planPush_complete:
  "mset (batched (planPush rs plan)) = mset rs
   \<and> planPush rs plan = head_of (planPush rs plan) @ asc_of (planPush rs plan)
   \<and> list_all (batch_ok plan) (planPush rs plan)"
proof (intro conjI)
  let ?srt = "js_sort compareMessages rs" and ?n = "head_start (js_sort compareMessages rs) (pageSize plan)"
  have "mset (batched (planPush rs plan)) = mset (drop ?n ?srt) + mset (take ?n ?srt)"
    by (simp add: planPush_def Let_def)
  also have "\<dots> = mset ?srt"
    by (metis append_take_drop_id mset_append union_commute)
  finally show "mset (batched (planPush rs plan)) = mset rs" by simp
  show "planPush rs plan = head_of (planPush rs plan) @ asc_of (planPush rs plan)"
    by (rule planPush_parts)
  show "list_all (batch_ok plan) (planPush rs plan)"
    by (simp add: list_all_iff planPush_batch_ok)
qed

text \<open>The order of a push leaves no hole: the rows after the head come oldest first and all
  lie below the head, so whatever prefix of the \<open>Asc\<close> batches arrives, no row outside it is
  older than one inside it; the head, when there is one, fills exactly one page of visible rows.\<close>

theorem planPush_ordered:
  assumes "planPush rs plan = hs @ as @ rest" and "hs = head_of (planPush rs plan)"
  shows "ordered_by compareMessages (batched as @ batched rest @ rev (batched hs)) \<and>
         (hs = [] \<or> visible (batched hs) = pageSize plan)"
proof -
  let ?srt = "js_sort compareMessages rs"
  let ?n = "head_start ?srt (pageSize plan)"
  have "head_of (planPush rs plan) @ (as @ rest) = head_of (planPush rs plan) @ asc_of (planPush rs plan)"
    using planPush_parts(1) [of rs plan] assms by metis
  then have "asc_of (planPush rs plan) = as @ rest" by (simp only: same_append_eq)
  then have "batched as @ batched rest = take ?n ?srt"
    using planPush_parts(3) [of rs plan] by simp
  moreover have hs: "batched hs = rev (drop ?n ?srt)"
    using planPush_parts(2) [of rs plan] by (simp only: assms(2))
  ultimately have "(batched as @ batched rest) @ rev (batched hs) = take ?n ?srt @ drop ?n ?srt"
    by (simp only: rev_rev_ident)
  then have all: "batched as @ batched rest @ rev (batched hs) = ?srt" by simp
  have "visible (batched hs) = pageSize plan" if ne: "hs \<noteq> []"
  proof -
    obtain b where "b \<in> set hs" using ne by (cases hs) auto
    then have "rows b \<noteq> []"
      using assms(2) by (auto simp: batch_ok_def dest: planPush_batch_ok)
    with \<open>b \<in> set hs\<close> have "batched hs \<noteq> []" by (auto simp: batched_def)
    then have "?n \<noteq> length ?srt" by (auto simp: hs)
    with head_start_shows [of ?srt "pageSize plan"] hs show ?thesis
      by (simp add: visible_def flip: rev_filter)
  qed
  then show ?thesis using cm.ordered_sort [of rs] by (auto simp: all)
qed

definition demo_rows :: "row list" where
  "demo_rows = map (\<lambda>i. \<lparr>lamport = int i, mid = ''m'', mtype = Text, senderId = ''a''\<rparr>) [0..<4]"

definition demo_plan :: "row PushPlan" where
  "demo_plan = \<lparr>batchSize = 2, pageSize = 2, maxBatchBytes = 100, sizeOf = \<lambda>_. 10\<rparr>"

theorem planPush_ordered_witness:
  "ordered_by compareMessages
     (batched (asc_of (planPush demo_rows demo_plan)) @ batched [] @
      rev (batched (head_of (planPush demo_rows demo_plan)))) \<and>
   (head_of (planPush demo_rows demo_plan) = [] \<or>
    visible (batched (head_of (planPush demo_rows demo_plan))) = pageSize demo_plan)"
  by (rule planPush_ordered [of demo_rows demo_plan]) (use planPush_parts(1) in auto)

section \<open>Sending\<close>

record PushPace =
  burst :: nat
  paceMs :: nat
  retryMs :: "nat list"

definition PUSH_PACE :: PushPace where
  "PUSH_PACE = \<lparr>burst = 4, paceMs = 150, retryMs = [250, 1000]\<rparr>"

datatype push_event = Sleep nat | Sent nat bool

text \<open>Callback answers, by how many calls were made before.\<close>

record callbacks =
  alive :: "nat \<Rightarrow> bool"
  send :: "nat \<Rightarrow> bool"

text \<open>The retries of frame \<open>i\<close>, with \<open>ok\<close> the last answer; \<open>a\<close> and \<open>s\<close> count the calls made.
  The result says whether the push goes on (\<open>Some ok\<close>) or stopped because it is not alive.\<close>

fun retry_frame ::
  "callbacks \<Rightarrow> nat \<Rightarrow> nat list \<Rightarrow> bool \<Rightarrow> nat \<Rightarrow> nat \<Rightarrow> bool option \<times> nat \<times> nat \<times> push_event list"
where
  "retry_frame cb i [] ok a s = (Some ok, a, s, [])"
| "retry_frame cb i (w # ws) ok a s =
     (if ok then (Some ok, a, s, [])
      else if \<not> alive cb a then (None, Suc a, s, [Sleep w])
      else (let ok' = send cb s;
                (res, a', s', tr) = retry_frame cb i ws ok' (Suc a) (Suc s)
            in (res, a', s', Sleep w # Sent i ok' # tr)))"

fun push_loop ::
  "PushPace \<Rightarrow> callbacks \<Rightarrow> nat \<Rightarrow> nat \<Rightarrow> nat \<Rightarrow> nat \<Rightarrow> bool \<times> push_event list"
where
  "push_loop pace cb i 0 a s = (True, [])"
| "push_loop pace cb i (Suc n) a s =
     (let pause = (if burst pace \<le> i then [Sleep (paceMs pace)] else []) in
      if \<not> alive cb a then (False, pause)
      else
        let ok = send cb s;
            (res, a', s', tr) = retry_frame cb i (retryMs pace) ok (Suc a) (Suc s)
        in if res = Some True
           then (let (r, tr') = push_loop pace cb (Suc i) n a' s' in (r, pause @ Sent i ok # tr @ tr'))
           else (False, pause @ Sent i ok # tr))"

definition runPush :: "nat \<Rightarrow> callbacks \<Rightarrow> PushPace \<Rightarrow> bool \<times> push_event list" where
  "runPush n cb pace = push_loop pace cb 0 n 0 0"

fun accepted :: "push_event list \<Rightarrow> nat list" where
  "accepted [] = []"
| "accepted (Sent i True # es) = i # accepted es"
| "accepted (_ # es) = accepted es"

fun attempted :: "push_event list \<Rightarrow> nat list" where
  "attempted [] = []"
| "attempted (Sent i _ # es) = i # attempted es"
| "attempted (Sleep _ # es) = attempted es"

lemma accepted_append [simp]: "accepted (xs @ ys) = accepted xs @ accepted ys"
  by (induction xs rule: accepted.induct) auto

lemma attempted_append [simp]: "attempted (xs @ ys) = attempted xs @ attempted ys"
  by (induction xs rule: attempted.induct) auto

lemma accepted_Sent: "accepted (Sent i ok # es) = (if ok then [i] else []) @ accepted es"
  by (cases ok) auto

lemma retry_frame_trace:
  assumes "retry_frame cb i ws ok a s = (res, a', s', tr)"
  shows "accepted tr = (if \<not> ok \<and> res = Some True then [i] else []) \<and>
         attempted tr = replicate (length (attempted tr)) i \<and> length (attempted tr) \<le> length ws \<and>
         (ok \<longrightarrow> res = Some True)"
  using assms
proof (induction cb i ws ok a s arbitrary: res a' s' tr rule: retry_frame.induct)
  case (1 cb i ok a s)
  then show ?case by auto
next
  case (2 cb i w ws ok a s)
  show ?case
  proof (cases "ok \<or> \<not> alive cb a")
    case True
    with "2.prems" show ?thesis by (auto split: if_splits)
  next
    case False
    obtain res1 a1 s1 tr1 where r: "retry_frame cb i ws (send cb s) (Suc a) (Suc s) = (res1, a1, s1, tr1)"
      by (cases "retry_frame cb i ws (send cb s) (Suc a) (Suc s)") auto
    with False "2.prems" have eq: "res = res1" "tr = Sleep w # Sent i (send cb s) # tr1"
      by (auto simp: Let_def)
    have IH: "accepted tr1 = (if \<not> send cb s \<and> res1 = Some True then [i] else []) \<and>
         attempted tr1 = replicate (length (attempted tr1)) i \<and> length (attempted tr1) \<le> length ws \<and>
         (send cb s \<longrightarrow> res1 = Some True)"
      by (rule "2.IH") (use False r in auto)
    then show ?thesis using False by (auto simp: eq accepted_Sent)
  qed
qed

lemma push_loop_trace:
  assumes "push_loop pace cb i n a s = (r, tr)"
  shows "\<exists>k\<le>n. accepted tr = [i..<i + k] \<and> (r \<longleftrightarrow> k = n) \<and> sorted (attempted tr) \<and>
           (\<forall>j\<in>set (attempted tr). i \<le> j \<and> j \<le> i + k)"
  using assms
proof (induction pace cb i n a s arbitrary: r tr rule: push_loop.induct)
  case (1 pace cb i a s)
  then show ?case by auto
next
  case (2 pace cb i n a s)
  define pause where "pause = (if burst pace \<le> i then [Sleep (paceMs pace)] else [])"
  have [simp]: "accepted pause = []" "attempted pause = []" by (auto simp: pause_def)
  show ?case
  proof (cases "alive cb a")
    case False
    with "2.prems" have "r = False" "tr = pause" by (auto simp: pause_def Let_def)
    then show ?thesis by (intro exI [of _ 0]) auto
  next
    case True
    obtain res a' s' tr1 where rf: "retry_frame cb i (retryMs pace) (send cb s) (Suc a) (Suc s) = (res, a', s', tr1)"
      by (cases "retry_frame cb i (retryMs pace) (send cb s) (Suc a) (Suc s)") auto
    note rt = retry_frame_trace [OF rf]
    then have at: "set (attempted tr1) \<subseteq> {i}" "sorted (attempted tr1)"
      by (metis set_replicate_conv_if subset_refl empty_subsetI, metis sorted_replicate)
    show ?thesis
    proof (cases "res = Some True")
      case False
      with True rf "2.prems" have "r = False" "tr = pause @ Sent i (send cb s) # tr1"
        by (auto simp: pause_def Let_def)
      moreover have "\<not> send cb s" using rt False by auto
      ultimately show ?thesis
        using rt at False by (intro exI [of _ 0]) (auto simp: accepted_Sent)
    next
      case res: True
      obtain r2 tr2 where l: "push_loop pace cb (Suc i) n a' s' = (r2, tr2)" by force
      with True rf res "2.prems" have tr: "r = r2" "tr = pause @ Sent i (send cb s) # tr1 @ tr2"
        by (auto simp: pause_def Let_def)
      obtain k where k: "k \<le> n" "accepted tr2 = [Suc i..<Suc i + k]" "r2 \<longleftrightarrow> k = n"
          "sorted (attempted tr2)" "\<forall>j\<in>set (attempted tr2). Suc i \<le> j \<and> j \<le> Suc i + k"
        using "2.IH" [OF refl _ refl refl rf [symmetric] refl refl res l] True
        by (auto simp: rf)
      have "accepted tr = i # [Suc i..<Suc i + k]"
        using rt res k(2) by (auto simp: tr accepted_Sent)
      also have "\<dots> = [i..<i + Suc k]" by (simp add: upt_conv_Cons)
      finally show ?thesis
        using k at by (intro exI [of _ "Suc k"]) (fastforce simp: tr sorted_append)
    qed
  qed
qed

text \<open>C24: frames are accepted strictly in order, each once: whatever the callbacks answer, the
  accepted frames are an initial segment of the push, \<open>runPush\<close> answers true exactly when that
  segment is the whole push, and no frame past the first unaccepted one is ever attempted.\<close>

theorem runPush_in_order:
  "\<exists>k\<le>n. accepted (snd (runPush n cb pace)) = [0..<k] \<and>
     (fst (runPush n cb pace) \<longleftrightarrow> k = n) \<and>
     sorted (attempted (snd (runPush n cb pace))) \<and>
     set (attempted (snd (runPush n cb pace))) \<subseteq> {0..k}"
proof -
  obtain r tr where rt: "runPush n cb pace = (r, tr)" by force
  then show ?thesis
    using push_loop_trace [of pace cb 0 n 0 0 r tr] by (auto simp: runPush_def)
qed

end
