(* ===== verification/Refused_Lamports.thy ===== *)
theory Refused_Lamports
  imports Prelude
begin

text \<open>
  Refusal claims of the sync repair loop,
  \<^verbatim>\<open>frontend/src/lib/transport/refused-lamports.ts\<close>: per room, the senders whose rows
  were refused for good and the lamport claimed for each, with the time the room's table
  was made. The digest a device sends is its stored watermarks raised by these claims.
\<close>

section \<open>The module\<close>

record refused_entry =
  at :: int
  senders :: "(string, int) jsmap"

type_synonym refused = "(string, refused_entry) jsmap"
type_synonym watermarks = "(string, int) jsmap"

definition REFUSED_MAX_SENDERS :: nat where
  "REFUSED_MAX_SENDERS = 4096"

definition REFUSED_TTL_MS :: int where
  "REFUSED_TTL_MS = 10 * 60 * 1000"

text \<open>The table for a room, if there is a live one or one is to be made, and the module state
  after the expired one was dropped.\<close>

definition refusedFor :: "refused \<Rightarrow> string \<Rightarrow> bool \<Rightarrow> int \<Rightarrow> (string, int) jsmap option \<times> refused" where
  "refusedFor st room create now =
     (case js_get st room of
        Some e \<Rightarrow>
          if now - at e < REFUSED_TTL_MS then (Some (senders e), st)
          else
            let st' = js_delete st room in
            if \<not> create then (None, st')
            else (Some [], js_set st' room \<lparr>at = now, senders = []\<rparr>)
      | None \<Rightarrow>
          if \<not> create then (None, st)
          else (Some [], js_set st room \<lparr>at = now, senders = []\<rparr>))"

definition put_senders :: "refused \<Rightarrow> string \<Rightarrow> (string, int) jsmap \<Rightarrow> refused" where
  \<comment> \<open>the in-place write to the room's inner map\<close>
  "put_senders st room m =
     (case js_get st room of None \<Rightarrow> st | Some e \<Rightarrow> js_set st room (e\<lparr>senders := m\<rparr>))"

definition noteRefused :: "refused \<Rightarrow> string \<Rightarrow> string \<Rightarrow> int \<Rightarrow> int \<Rightarrow> refused" where
  "noteRefused st room senderId lam now =
     (case refusedFor st room True now of
        (None, st') \<Rightarrow> st'
      | (Some perRoom, st') \<Rightarrow>
          (case js_get perRoom senderId of
             None \<Rightarrow>
               if REFUSED_MAX_SENDERS \<le> length perRoom then st'
               else put_senders st' room (js_set perRoom senderId lam)
           | Some a \<Rightarrow>
               if a < lam then put_senders st' room (js_set perRoom senderId lam) else st'))"

fun raise_all :: "watermarks \<Rightarrow> (string \<times> int) list \<Rightarrow> watermarks" where
  "raise_all w [] = w"
| "raise_all w ((s, l) # ps) =
     raise_all (if js_get_or (-1) w s < l then js_set w s l else w) ps"

definition withRefused :: "refused \<Rightarrow> string \<Rightarrow> watermarks \<Rightarrow> int \<Rightarrow> watermarks \<times> refused" where
  "withRefused st room w now =
     (case refusedFor st room False now of
        (None, st') \<Rightarrow> (w, st')
      | (Some perRoom, st') \<Rightarrow> (raise_all w perRoom, st'))"

definition clearRefused :: "refused \<Rightarrow> refused" where
  "clearRefused st = []"

lemmas refused_defs = refusedFor_def put_senders_def noteRefused_def withRefused_def Let_def

section \<open>Raising watermarks\<close>

lemma raise_all_get:
  assumes "js_wf ps"
  shows "js_get_or (-1) (raise_all w ps) s =
    (case js_get ps s of None \<Rightarrow> js_get_or (-1) w s | Some l \<Rightarrow> max (js_get_or (-1) w s) l)"
  using assms
proof (induction w ps rule: raise_all.induct)
  case (1 w)
  then show ?case by simp
next
  case (2 w s' l ps)
  let ?w = "if js_get_or (-1) w s' < l then js_set w s' l else w"
  have "s' \<notin> fst ` set ps" "js_wf ps" using "2.prems" by (auto simp: js_wf_def)
  then have "js_get ps s' = None" by (simp add: map_of_eq_None_iff)
  with "2.IH" \<open>js_wf ps\<close> show ?case
    by (auto simp: js_get_or_def split: option.splits if_splits)
qed

section \<open>Invariant\<close>

definition refused_ok :: "refused \<Rightarrow> bool" where
  "refused_ok st \<longleftrightarrow> js_wf st \<and>
     (\<forall>room e. js_get st room = Some e \<longrightarrow>
        js_wf (senders e) \<and> length (senders e) \<le> REFUSED_MAX_SENDERS)"

lemma refused_ok_Nil [simp]: "refused_ok []"
  by (simp add: refused_ok_def)

lemma refusedFor_ok:
  assumes "refused_ok st" and "refusedFor st room create now = (r, st')"
  shows "refused_ok st' \<and> (\<forall>m. r = Some m \<longrightarrow> js_wf m \<and> length m \<le> REFUSED_MAX_SENDERS \<and>
           (\<exists>e. js_get st' room = Some e \<and> senders e = m))"
  using assms
  by (auto simp: refusedFor_def refused_ok_def Let_def REFUSED_MAX_SENDERS_def split: option.splits if_splits)

lemma put_senders_ok:
  "refused_ok st \<Longrightarrow> js_wf m \<Longrightarrow> length m \<le> REFUSED_MAX_SENDERS \<Longrightarrow> refused_ok (put_senders st room m)"
  by (auto simp: refused_ok_def put_senders_def split: option.splits if_splits)

lemma noteRefused_ok [awful_inv]:
  assumes "refused_ok st"
  shows "refused_ok (noteRefused st room s l now)"
proof -
  obtain r st' where rf: "refusedFor st room True now = (r, st')" by force
  note ok = refusedFor_ok [OF assms rf]
  show ?thesis
    using ok by (cases r) (auto simp: noteRefused_def rf split: option.splits intro!: put_senders_ok)
qed

lemma withRefused_ok [awful_inv]: "refused_ok st \<Longrightarrow> refused_ok (snd (withRefused st room w now))"
  using refusedFor_ok [of st room False now] by (auto simp: withRefused_def split: prod.splits option.splits)

fun note_all :: "refused \<Rightarrow> (string \<times> string \<times> int \<times> int) list \<Rightarrow> refused" where
  "note_all st [] = st"
| "note_all st ((room, s, l, now) # cs) = note_all (noteRefused st room s l now) cs"

lemma note_all_ok: "refused_ok st \<Longrightarrow> refused_ok (note_all st cs)"
  by (induction st cs rule: note_all.induct) (auto intro: awful_inv)

lemma withRefused_get:
  assumes "refused_ok st"
  shows "js_get_or (-1) (fst (withRefused st room w now)) s =
    (case js_get st room of
       None \<Rightarrow> js_get_or (-1) w s
     | Some e \<Rightarrow>
         if now - at e < REFUSED_TTL_MS
         then (case js_get (senders e) s of None \<Rightarrow> js_get_or (-1) w s
               | Some l \<Rightarrow> max (js_get_or (-1) w s) l)
         else js_get_or (-1) w s)"
  using assms
  by (auto simp: withRefused_def refusedFor_def Let_def refused_ok_def raise_all_get split: option.splits)

text \<open>Refusal claims cannot be used to fill memory or to hide history for good: after any
  sequence of refusals no room holds more than 4096 senders, an advertised watermark is never
  below the stored one, and a table ten minutes old no longer raises anything.\<close>

theorem refused_bounded_and_expires:
  assumes "js_get (note_all [] calls) room = Some e" and "js_get (senders e) s = Some l"
  shows "length (senders e) \<le> REFUSED_MAX_SENDERS \<and>
    js_get_or (-1) (fst (withRefused (note_all [] calls) room w now)) s =
      (if now - at e < REFUSED_TTL_MS then max (js_get_or (-1) w s) l else js_get_or (-1) w s)"
proof -
  have ok: "refused_ok (note_all [] calls)" by (rule note_all_ok) simp
  with assms show ?thesis by (auto simp: withRefused_get) (simp add: refused_ok_def)
qed

theorem refused_bounded_and_expires_witness:
  "length (senders \<lparr>at = 5, senders = [(''mallory'', 9)]\<rparr>) \<le> REFUSED_MAX_SENDERS \<and>
   js_get_or (-1) (fst (withRefused (note_all [] [(''r'', ''mallory'', 9, 5)]) ''r'' [(''mallory'', 3)] 600005))
     ''mallory'' =
   (if 600005 - at \<lparr>at = 5, senders = [(''mallory'', 9 :: int)]\<rparr> < REFUSED_TTL_MS
    then max (js_get_or (-1) [(''mallory'', 3)] ''mallory'') 9
    else js_get_or (-1) [(''mallory'', 3)] ''mallory'')"
  by (rule refused_bounded_and_expires)
    (simp_all add: refused_defs REFUSED_TTL_MS_def REFUSED_MAX_SENDERS_def)

text \<open>A note within the life of its table records the larger claim and never lowers one.\<close>

lemma noteRefused_raises:
  assumes "js_get st room = Some e" and "now - at e < REFUSED_TTL_MS" and "js_get (senders e) s = Some a"
  shows "\<exists>e'. js_get (noteRefused st room s l now) room = Some e' \<and> at e' = at e \<and>
           js_get (senders e') s = Some (max a l)"
  using assms by (auto simp: refused_defs split: option.splits)

end
