(* ===== verification/Sync_Inbound.thy ===== *)
theory Sync_Inbound
  imports Sync_Push Refused_Lamports
begin

text \<open>
  The receiving end of a history push, the class \<open>InboundPushes\<close> of
  \<^verbatim>\<open>frontend/src/lib/transport/sync-inbound.ts\<close>.

  \<^item> A \<open>Push\<close> is an object: the class keeps references to it in its \<^verbatim>\<open>pushes\<close> map, in
    a room's \<^verbatim>\<open>open\<close> set and in queued closures. The model has a store \<open>objs\<close> of
    pushes by number, and the maps hold numbers.
  \<^item> A push's \<^verbatim>\<open>chain\<close> promise runs its jobs one at a time in order. It is a queue of
    jobs in \<open>queues\<close>; a push that replaces another goes on the other's queue, as the code
    starts the new chain from the old one.
  \<^item> Every \<^verbatim>\<open>await\<close> is a place where other events may come in between: a batch job is
    done when its outcome arrives, and every \<open>commit\<close> is a step of its own.
  \<^item> A timer is a flag (a push's stall timer) or an entry (a digest's wait); its firing is an
    event that is possible while it is set.
  \<^item> \<open>log\<close> is the calls to the \<open>deps\<close> the class was built with. The field \<open>outcomes\<close> of a push, the
    \<open>basis\<close> of a commit and the index in a batch job are history for the statements below: no
    operation reads them.
\<close>

section \<open>Data\<close>

record HeldRow =
  hr_sender :: js_value
  hr_lamport :: js_value

record BatchOutcome =
  held :: "HeldRow list"
  floors :: "(string, int) jsmap"

record PushFrame =
  batchIndex :: js_value
  totalBatches :: js_value
  frame_order :: js_value

definition MAX_CLAIMED :: nat where "MAX_CLAIMED = 256"
definition MAX_CLAIM_SENDERS :: nat where "MAX_CLAIM_SENDERS = 4096"
definition MAX_FLOOR_SENDERS :: nat where "MAX_FLOOR_SENDERS = 4096"

type_synonym done_batch = "nat \<times> PushOrder option \<times> BatchOutcome"

record Push =
  key :: string
  proom :: string
  first :: "PushOrder option"
  phase :: "PushOrder option"
  next_index :: nat
  total :: nat
  broken :: bool
  partial :: bool
  ppending :: "(string, int list) jsmap"
  pfloors :: "(string, int) jsmap"
  overflowed :: bool
  chain :: nat
  timer :: bool
  ended :: bool
  outcomes :: "done_batch list"

record RoomState =
  open_pushes :: "nat list"
  owed :: bool
  expecting :: "(string, nat) jsmap"

datatype job =
    JBatch nat "PushOrder option" nat
  | JCommit nat "(string \<times> int) list" "done_batch list"
  | JFinish nat
  | JFinCommit nat "(string \<times> int) list" "done_batch list"
  | JEnd nat bool

record commit_call =
  c_room :: string
  c_sender :: string
  c_lamport :: int
  c_push :: nat
  basis :: "done_batch list"

datatype effect = Commit commit_call | Hold string | Release string

record InboundPushes =
  objs :: "(nat, Push) jsmap"
  next_obj :: nat
  pushes :: "(string, nat) jsmap"
  finishing :: "(string, nat) jsmap"
  rooms :: "(string, RoomState) jsmap"
  claims :: "(string, (string, int) jsmap) jsmap"
  nonces :: nat
  queues :: "(nat, job list) jsmap"
  log :: "effect list"

definition init_inbound :: InboundPushes where
  "init_inbound = \<lparr>objs = [], next_obj = 0, pushes = [], finishing = [], rooms = [], claims = [],
     nonces = 0, queues = [], log = []\<rparr>"

section \<open>Helpers\<close>

definition validRow :: "HeldRow \<Rightarrow> bool" where
  "validRow r \<longleftrightarrow> is_js_string (hr_sender r) \<and> js_truthy (hr_sender r) \<and>
     isSafeInteger (hr_lamport r) \<and> 0 \<le> as_int (hr_lamport r)"

fun as_string :: "js_value \<Rightarrow> string" where
  "as_string (JStr s) = s"
| "as_string _ = []"

definition row_pair :: "HeldRow \<Rightarrow> string \<times> int" where
  "row_pair r = (as_string (hr_sender r), as_int (hr_lamport r))"

definition valid_pairs :: "BatchOutcome \<Rightarrow> (string \<times> int) list" where
  "valid_pairs oc = map row_pair (filter validRow (held oc))"

fun claimable_loop :: "(string, int) jsmap \<Rightarrow> (string \<times> int) list \<Rightarrow> (string, int) jsmap \<Rightarrow> (string, int) jsmap" where
  "claimable_loop best [] fl = best"
| "claimable_loop best ((s, l) # ps) fl =
     (if (case js_get fl s of None \<Rightarrow> False | Some f \<Rightarrow> f \<le> l) then claimable_loop best ps fl
      else if js_get_or (-1) best s < l then claimable_loop (js_set best s l) ps fl
      else claimable_loop best ps fl)"

definition claimable :: "(string \<times> int) list \<Rightarrow> (string, int) jsmap \<Rightarrow> (string, int) jsmap" where
  "claimable ps fl = claimable_loop [] ps fl"

definition entries :: "(string, int list) jsmap \<Rightarrow> (string \<times> int) list" where
  "entries m = concat (map (\<lambda>(s, ls). map (\<lambda>l. (s, l)) ls) m)"

definition push_key :: "string \<Rightarrow> string \<Rightarrow> string" where
  "push_key peer r = peer @ ''|'' @ r"

definition upd_push :: "nat \<Rightarrow> (Push \<Rightarrow> Push) \<Rightarrow> InboundPushes \<Rightarrow> InboundPushes" where
  \<comment> \<open>a write to the fields of a push object\<close>
  "upd_push pid f s =
     (case js_get (objs s) pid of None \<Rightarrow> s | Some p \<Rightarrow> s\<lparr>objs := js_set (objs s) pid (f p)\<rparr>)"

definition enqueue :: "nat \<Rightarrow> job \<Rightarrow> InboundPushes \<Rightarrow> InboundPushes" where
  \<comment> \<open>\<^verbatim>\<open>p.chain = p.chain.then(...)\<close>\<close>
  "enqueue q j s = s\<lparr>queues := js_set (queues s) q (js_get_or [] (queues s) q @ [j])\<rparr>"

definition emit :: "effect \<Rightarrow> InboundPushes \<Rightarrow> InboundPushes" where
  "emit e s = s\<lparr>log := log s @ [e]\<rparr>"

section \<open>Rooms and expectations\<close>

definition room_of :: "InboundPushes \<Rightarrow> string \<Rightarrow> RoomState \<times> InboundPushes" where
  \<comment> \<open>the private method \<^verbatim>\<open>room\<close>\<close>
  "room_of s r =
     (case js_get (rooms s) r of
        Some st \<Rightarrow> (st, emit (Hold r) s)
      | None \<Rightarrow>
          let st = \<lparr>open_pushes = [], owed = False, expecting = []\<rparr>
          in (st, emit (Hold r) (s\<lparr>rooms := js_set (rooms s) r st\<rparr>)))"

definition settle :: "InboundPushes \<Rightarrow> string \<Rightarrow> InboundPushes" where
  "settle s r =
     (case js_get (rooms s) r of
        None \<Rightarrow> s
      | Some st \<Rightarrow>
          if open_pushes st \<noteq> [] \<or> owed st \<or> expecting st \<noteq> [] then s
          else emit (Release r) (s\<lparr>rooms := js_delete (rooms s) r\<rparr>))"

definition expect_push :: "InboundPushes \<Rightarrow> string \<Rightarrow> string \<Rightarrow> nat \<times> InboundPushes" where
  \<comment> \<open>the method \<^verbatim>\<open>expect\<close>; the wait it replaces loses its timer with its entry\<close>
  "expect_push s peer r =
     (let (st, s1) = room_of s r;
          nonce = Suc (nonces s1)
      in (nonce, s1\<lparr>nonces := nonce,
                    rooms := js_set (rooms s1) r (st\<lparr>expecting := js_set (expecting st) peer nonce\<rparr>)\<rparr>))"

definition answered :: "InboundPushes \<Rightarrow> string \<Rightarrow> string \<Rightarrow> nat option \<Rightarrow> InboundPushes" where
  "answered s peer r nonce =
     (case js_get (rooms s) r of
        None \<Rightarrow> s
      | Some st \<Rightarrow>
          (case js_get (expecting st) peer of
             None \<Rightarrow> s
           | Some wait \<Rightarrow>
               if nonce \<noteq> None \<and> nonce \<noteq> Some wait then s
               else settle (s\<lparr>rooms := js_set (rooms s) r (st\<lparr>expecting := js_delete (expecting st) peer\<rparr>)\<rparr>) r))"

definition expect_timeout :: "InboundPushes \<Rightarrow> string \<Rightarrow> string \<Rightarrow> nat \<Rightarrow> InboundPushes" where
  \<comment> \<open>the timer set by \<open>expect_push\<close> runs out\<close>
  "expect_timeout s peer r nonce = answered s peer r (Some nonce)"

section \<open>The end of a push\<close>

fun claim_loop :: "(string, int) jsmap \<Rightarrow> (string \<times> int) list \<Rightarrow> (string, int) jsmap" where
  "claim_loop cl [] = cl"
| "claim_loop cl ((s, l) # ps) =
     (case js_get cl s of
        None \<Rightarrow> if MAX_CLAIM_SENDERS \<le> length cl then claim_loop cl ps
                else claim_loop (js_set cl s l) ps
      | Some a \<Rightarrow> if a < l then claim_loop (js_set cl s l) ps else claim_loop cl ps)"

definition claim :: "InboundPushes \<Rightarrow> Push \<Rightarrow> InboundPushes" where
  "claim s p =
     (let best = claimable (entries (ppending p)) (pfloors p) in
      if best = [] then s
      else
        let (cl, cs) = (case js_get (claims s) (key p) of
                          Some cl \<Rightarrow> (cl, claims s)
                        | None \<Rightarrow> ([], if MAX_CLAIMED \<le> length (claims s)
                                       then delete_first (claims s) else claims s))
        in s\<lparr>claims := js_set cs (key p) (claim_loop cl best)\<rparr>)"

definition end_push :: "InboundPushes \<Rightarrow> nat \<Rightarrow> bool \<Rightarrow> InboundPushes" where
  "end_push s pid completed =
     (case js_get (objs s) pid of
        None \<Rightarrow> s
      | Some p \<Rightarrow>
          if ended p then s
          else
            let s1 = upd_push pid (\<lambda>p. p\<lparr>ended := True, timer := False\<rparr>) s;
                s2 = (if js_get (pushes s1) (key p) = Some pid
                      then s1\<lparr>pushes := js_delete (pushes s1) (key p)\<rparr> else s1);
                s3 = (if first p = None \<and> \<not> completed then claim s2 p else s2);
                s4 = (case js_get (rooms s3) (proom p) of
                        None \<Rightarrow> s3
                      | Some st \<Rightarrow>
                          settle (s3\<lparr>rooms := js_set (rooms s3) (proom p)
                             (st\<lparr>open_pushes := set_remove (open_pushes st) pid, owed := \<not> completed\<rparr>)\<rparr>)
                            (proom p))
            in if js_get (finishing s4) (key p) = Some pid
               then s4\<lparr>finishing := js_delete (finishing s4) (key p)\<rparr> else s4)"

definition arm :: "InboundPushes \<Rightarrow> nat \<Rightarrow> InboundPushes" where
  "arm s pid = upd_push pid (\<lambda>p. p\<lparr>timer := True\<rparr>) s"

definition stall_timeout :: "InboundPushes \<Rightarrow> nat \<Rightarrow> InboundPushes" where
  \<comment> \<open>the timer set by \<open>arm\<close> fires\<close>
  "stall_timeout s pid =
     (case js_get (objs s) pid of
        None \<Rightarrow> s
      | Some p \<Rightarrow>
          let s1 = upd_push pid (\<lambda>p. p\<lparr>timer := False\<rparr>) s;
              s2 = (if js_get (pushes s1) (key p) = Some pid
                    then s1\<lparr>pushes := js_delete (pushes s1) (key p)\<rparr> else s1)
          in enqueue (chain p) (JEnd pid False) s2)"

definition finish :: "InboundPushes \<Rightarrow> nat \<Rightarrow> InboundPushes" where
  "finish s pid =
     (case js_get (objs s) pid of
        None \<Rightarrow> s
      | Some p \<Rightarrow>
          if js_get (pushes s) (key p) \<noteq> Some pid then s
          else
            let s1 = upd_push pid (\<lambda>p. p\<lparr>timer := False\<rparr>) s;
                s2 = s1\<lparr>pushes := js_delete (pushes s1) (key p),
                        finishing := js_set (finishing s1) (key p) pid\<rparr>
            in enqueue (chain p) (JFinish pid) s2)"

section \<open>Frames\<close>

definition parse_order :: "js_value \<Rightarrow> PushOrder option" where
  "parse_order v = (if v = JStr ''head'' then Some Head else if v = JStr ''asc'' then Some Asc else None)"

definition valid_frame :: "PushFrame \<Rightarrow> bool" where
  "valid_frame f \<longleftrightarrow> isSafeInteger (batchIndex f) \<and> isSafeInteger (totalBatches f) \<and>
     0 \<le> as_int (batchIndex f) \<and> 1 \<le> as_int (totalBatches f) \<and>
     as_int (batchIndex f) < as_int (totalBatches f)"

abbreviation frame_index :: "PushFrame \<Rightarrow> nat" where
  "frame_index f \<equiv> nat (as_int (batchIndex f))"

abbreviation frame_total :: "PushFrame \<Rightarrow> nat" where
  "frame_total f \<equiv> nat (as_int (totalBatches f))"

fun fits :: "Push \<Rightarrow> PushOrder option \<Rightarrow> bool" where
  "fits p ord =
     (if first p = None then ord = None
      else if ord = None then False
      else phase p = Some Head \<or> ord = Some Asc)"

definition start_push ::
  "InboundPushes \<Rightarrow> string \<Rightarrow> string \<Rightarrow> PushOrder option \<Rightarrow> nat \<Rightarrow> nat option \<Rightarrow> nat \<times> InboundPushes"
where
  "start_push s k r ord tot before =
     (let s1 = (case before of
                  None \<Rightarrow> s
                | Some b \<Rightarrow>
                    (case js_get (objs s) b of
                       None \<Rightarrow> s
                     | Some bp \<Rightarrow> enqueue (chain bp) (JEnd b False) (s\<lparr>pushes := js_delete (pushes s) k\<rparr>)));
          pid = next_obj s1;
          q = (case before of
                 None \<Rightarrow> pid
               | Some b \<Rightarrow> (case js_get (objs s) b of None \<Rightarrow> pid | Some bp \<Rightarrow> chain bp));
          cl = js_get (claims s1) k;
          p = \<lparr>key = k, proom = r, first = ord, phase = ord, next_index = 0, total = tot,
               broken = False, partial = cl \<noteq> None, ppending = [], pfloors = [], overflowed = False,
               chain = q, timer = False, ended = False, outcomes = []\<rparr>;
          s2 = (if ord \<noteq> None \<and> cl \<noteq> None then s1\<lparr>claims := js_delete (claims s1) k\<rparr> else s1);
          s3 = s2\<lparr>objs := js_set (objs s2) pid p, next_obj := Suc pid, pushes := js_set (pushes s2) k pid\<rparr>;
          (st, s4) = room_of s3 r
      in (pid, s4\<lparr>rooms := js_set (rooms s4) r (st\<lparr>open_pushes := set_add (open_pushes st) pid\<rparr>)\<rparr>))"

definition take_frame :: "Push \<Rightarrow> PushFrame \<Rightarrow> Push" where
  \<comment> \<open>what one frame does to the fields of its push, before its rows are handled\<close>
  "take_frame p f =
     (let ord = parse_order (frame_order f);
          bad = \<not> valid_frame f \<or> frame_index f \<noteq> next_index p \<or> frame_total f \<noteq> total p \<or> \<not> fits p ord
      in p\<lparr>broken := broken p \<or> bad,
           next_index := (if valid_frame f then Suc (frame_index f) else next_index p),
           phase := ord\<rparr>)"

definition batch :: "InboundPushes \<Rightarrow> string \<Rightarrow> string \<Rightarrow> PushFrame \<Rightarrow> InboundPushes" where
  \<comment> \<open>the synchronous part; the frame's rows are handled by the job it queues\<close>
  "batch s peer r f =
     (let k = push_key peer r;
          ord = parse_order (frame_order f);
          first_frame = (valid_frame f \<and> frame_index f = 0);
          (pid, s1) = (if js_get (pushes s) k = None \<or> first_frame
             then (let (pid, s1) = start_push s k r ord (if valid_frame f then frame_total f else 0) (js_get (pushes s) k)
                   in (pid, if first_frame then s1 else upd_push pid (\<lambda>p. p\<lparr>broken := True\<rparr>) s1))
             else (the (js_get (pushes s) k), s));
          s2 = upd_push pid (\<lambda>p. take_frame p f) s1;
          s3 = answered (arm s2 pid) peer r None
      in case js_get (objs s3) pid of
           None \<Rightarrow> s3
         | Some p \<Rightarrow>
             let s4 = enqueue (chain p) (JBatch pid ord (frame_index f)) s3
             in if 0 < total p \<and> total p \<le> next_index p then finish s4 pid else s4)"

definition complete :: "InboundPushes \<Rightarrow> string \<Rightarrow> string \<Rightarrow> InboundPushes" where
  "complete s peer r =
     (let s1 = (case js_get (pushes s) (push_key peer r) of
                  None \<Rightarrow> s
                | Some pid \<Rightarrow>
                    (case js_get (objs s) pid of
                       None \<Rightarrow> s
                     | Some p \<Rightarrow> if broken p then finish s pid else arm s pid))
      in answered s1 peer r None)"

definition withClaims :: "InboundPushes \<Rightarrow> string \<Rightarrow> string \<Rightarrow> watermarks \<Rightarrow> watermarks" where
  "withClaims s peer r w =
     (case js_get (claims s) (push_key peer r) of None \<Rightarrow> w | Some cl \<Rightarrow> raise_all w cl)"

definition reset :: "InboundPushes \<Rightarrow> InboundPushes" where
  "reset s = s\<lparr>objs := map (\<lambda>(pid, p). (pid, if pid \<in> snd ` set (pushes s)
                                               then p\<lparr>timer := False, ended := True\<rparr> else p)) (objs s),
               pushes := [], finishing := [], rooms := [], claims := []\<rparr>"

section \<open>Handling the rows of a frame\<close>

fun merge_floors :: "(string, int) jsmap \<Rightarrow> (string \<times> int) list \<Rightarrow> (string, int) jsmap \<times> bool" where
  \<comment> \<open>the new floors, and whether their number overflowed\<close>
  "merge_floors fl [] = (fl, False)"
| "merge_floors fl ((s, l) # ps) =
     (case js_get fl s of
        None \<Rightarrow> if MAX_FLOOR_SENDERS \<le> length fl then (fl, True) else merge_floors (js_set fl s l) ps
      | Some a \<Rightarrow> if l < a then merge_floors (js_set fl s l) ps else merge_floors fl ps)"

fun add_pending :: "(string, int list) jsmap \<Rightarrow> (string \<times> int) list \<Rightarrow> (string, int list) jsmap" where
  "add_pending m [] = m"
| "add_pending m ((s, l) # ps) =
     add_pending (case js_get m s of
                    Some ls \<Rightarrow> js_set m s (set_add ls l)
                  | None \<Rightarrow> js_set m s [l]) ps"

definition account :: "Push \<Rightarrow> PushOrder option \<Rightarrow> BatchOutcome \<Rightarrow> Push \<times> (string, int) jsmap" where
  \<comment> \<open>the push afterwards, and what is to be committed\<close>
  "account p ord oc =
     (if overflowed p then (p, [])
      else
        let (fl, over) = merge_floors (pfloors p) (floors oc) in
        if over then (p\<lparr>pfloors := fl, overflowed := True, broken := True, ppending := []\<rparr>, [])
        else
          let p1 = p\<lparr>pfloors := fl\<rparr>;
              rs = valid_pairs oc
          in if ord = Some Asc
             then (if broken p1 \<or> partial p1 then (p1, []) else (p1, claimable rs fl))
             else (p1\<lparr>ppending := add_pending (ppending p1) rs\<rparr>, []))"

text \<open>What a job was waiting for: the outcome of the frame's rows, or that a write succeeded.\<close>

datatype answer = Outcome "BatchOutcome option" | Written bool | Go

definition set_head :: "nat \<Rightarrow> job list \<Rightarrow> InboundPushes \<Rightarrow> InboundPushes" where
  "set_head q js s = s\<lparr>queues := js_set (queues s) q js\<rparr>"

definition commit_of :: "Push \<Rightarrow> nat \<Rightarrow> string \<times> int \<Rightarrow> done_batch list \<Rightarrow> effect" where
  "commit_of p pid sl b =
     Commit \<lparr>c_room = proom p, c_sender = fst sl, c_lamport = snd sl, c_push = pid, basis = b\<rparr>"

fun run_job :: "InboundPushes \<Rightarrow> nat \<Rightarrow> answer \<Rightarrow> InboundPushes" where
  "run_job s q ans =
     (case js_get_or [] (queues s) q of
        [] \<Rightarrow> s
      | JBatch pid ord i # js \<Rightarrow>
          (case (js_get (objs s) pid, ans) of
             (Some p, Outcome None) \<Rightarrow> set_head q js (upd_push pid (\<lambda>p. p\<lparr>broken := True\<rparr>) s)
           | (Some p, Outcome (Some oc)) \<Rightarrow>
               let (p', cs) = account p ord oc;
                   p'' = p'\<lparr>outcomes := outcomes p @ [(i, ord, oc)]\<rparr>
               in set_head q (if cs = [] then js else JCommit pid cs (outcomes p'') # js)
                    (upd_push pid (\<lambda>_. p'') s)
           | _ \<Rightarrow> s)
      | JCommit pid [] b # js \<Rightarrow> set_head q js s
      | JCommit pid (c # cs) b # js \<Rightarrow>
          (case (js_get (objs s) pid, ans) of
             (Some p, Written True) \<Rightarrow>
               set_head q (if cs = [] then js else JCommit pid cs b # js) (emit (commit_of p pid c b) s)
           | (Some p, Written False) \<Rightarrow> set_head q js (upd_push pid (\<lambda>p. p\<lparr>broken := True\<rparr>) s)
           | _ \<Rightarrow> s)
      | JFinish pid # js \<Rightarrow>
          (case js_get (objs s) pid of
             None \<Rightarrow> s
           | Some p \<Rightarrow>
               if \<not> broken p \<and> \<not> partial p \<and> 0 < total p \<and> next_index p = total p
               then set_head q (JFinCommit pid (claimable (entries (ppending p)) (pfloors p)) (outcomes p) # js) s
               else end_push (set_head q js s) pid False)
      | JFinCommit pid [] b # js \<Rightarrow> end_push (set_head q js s) pid True
      | JFinCommit pid (c # cs) b # js \<Rightarrow>
          (case (js_get (objs s) pid, ans) of
             (Some p, Written True) \<Rightarrow> set_head q (JFinCommit pid cs b # js) (emit (commit_of p pid c b) s)
           | (Some p, Written False) \<Rightarrow> end_push (set_head q js s) pid False
           | _ \<Rightarrow> s)
      | JEnd pid done # js \<Rightarrow> end_push (set_head q js s) pid done)"

section \<open>Steps\<close>

datatype inbound_event =
    Expect string string
  | Answered string string "nat option"
  | ExpectTimeout string string nat
  | Frame string string PushFrame
  | CompleteFrame string string
  | Stall nat
  | Job nat answer
  | Reset

fun inbound_step :: "InboundPushes \<Rightarrow> inbound_event \<Rightarrow> InboundPushes" where
  "inbound_step s (Expect peer r) = snd (expect_push s peer r)"
| "inbound_step s (Answered peer r n) = answered s peer r n"
| "inbound_step s (ExpectTimeout peer r n) = expect_timeout s peer r n"
| "inbound_step s (Frame peer r f) = batch s peer r f"
| "inbound_step s (CompleteFrame peer r) = complete s peer r"
| "inbound_step s (Stall pid) =
     (case js_get (objs s) pid of
        None \<Rightarrow> s
      | Some p \<Rightarrow> if timer p then stall_timeout s pid else s)"
| "inbound_step s (Job q ans) = run_job s q ans"
| "inbound_step s Reset = reset s"

inductive inbound_reachable :: "InboundPushes \<Rightarrow> bool" where
  start: "inbound_reachable init_inbound"
| step: "inbound_reachable s \<Longrightarrow> inbound_reachable (inbound_step s e)"

end
