(* ===== verification/Sync_Inbound_Safety.thy ===== *)
theory Sync_Inbound_Safety
  imports Sync_Inbound
begin

text \<open>
  What a watermark write of \<open>InboundPushes\<close> rests on. Every reachable state keeps
  \<open>inbound_inv\<close>: the batches of an unbroken push are handled in order without a gap, and
  every commit, queued or made, is justified by the outcomes handled when it was decided.
  With \<open>planPush\<close> at the other end this gives the property the two modules are for: a watermark
  is never written past a row the device does not hold.
\<close>

section \<open>What a commit rests on\<close>

definition below_floors :: "done_batch list \<Rightarrow> string \<times> int \<Rightarrow> bool" where
  "below_floors b c \<longleftrightarrow> (\<forall>(i, ord, oc) \<in> set b. \<forall>(s, f) \<in> set (floors oc). s = fst c \<longrightarrow> snd c < f)"

definition in_order :: "done_batch list \<Rightarrow> bool" where
  "in_order b \<longleftrightarrow> map fst b = [0..<length b]"

definition asc_basis :: "done_batch list \<Rightarrow> string \<times> int \<Rightarrow> bool" where
  "asc_basis b c \<longleftrightarrow> b \<noteq> [] \<and> in_order b \<and> fst (snd (last b)) = Some Asc \<and>
     c \<in> set (valid_pairs (snd (snd (last b)))) \<and> below_floors b c"

definition full_basis :: "done_batch list \<Rightarrow> string \<times> int \<Rightarrow> bool" where
  "full_basis b c \<longleftrightarrow> in_order b \<and> (\<exists>(i, ord, oc) \<in> set b. c \<in> set (valid_pairs oc)) \<and> below_floors b c"

section \<open>The invariant\<close>

abbreviation queue :: "InboundPushes \<Rightarrow> nat \<Rightarrow> job list" where
  "queue s q \<equiv> js_get_or [] (queues s) q"

fun job_push :: "job \<Rightarrow> nat" where
  "job_push (JBatch pid _ _) = pid"
| "job_push (JCommit pid _ _) = pid"
| "job_push (JFinish pid) = pid"
| "job_push (JFinCommit pid _ _) = pid"
| "job_push (JEnd pid _) = pid"

fun batch_idx :: "nat \<Rightarrow> job \<Rightarrow> nat list" where
  "batch_idx pid (JBatch pid' _ i) = (if pid' = pid then [i] else [])"
| "batch_idx pid _ = []"

fun closes :: "nat \<Rightarrow> job \<Rightarrow> bool" where
  "closes pid (JFinish pid') \<longleftrightarrow> pid' = pid"
| "closes pid (JFinCommit pid' _ _) \<longleftrightarrow> pid' = pid"
| "closes pid _ \<longleftrightarrow> False"

definition queued :: "nat \<Rightarrow> job list \<Rightarrow> nat list" where
  "queued pid js = concat (map (batch_idx pid) js)"

definition fifo :: "job list \<Rightarrow> bool" where
  "fifo js \<longleftrightarrow> sorted_wrt (\<lambda>j j'. \<forall>pid. closes pid j \<longrightarrow> batch_idx pid j' = []) js"

definition floors_cover :: "Push \<Rightarrow> bool" where
  "floors_cover p \<longleftrightarrow> (\<forall>(i, ord, oc) \<in> set (outcomes p). \<forall>(s, f) \<in> set (floors oc).
     \<exists>f'. js_get (pfloors p) s = Some f' \<and> f' \<le> f)"

definition pending_from :: "Push \<Rightarrow> bool" where
  "pending_from p \<longleftrightarrow> (\<forall>c \<in> set (entries (ppending p)). \<exists>(i, ord, oc) \<in> set (outcomes p). c \<in> set (valid_pairs oc))"

definition push_ok :: "Push \<Rightarrow> nat list \<Rightarrow> bool" where
  "push_ok p waiting \<longleftrightarrow>
     (\<not> broken p \<longrightarrow> map fst (outcomes p) @ waiting = [0..<next_index p]) \<and>
     (overflowed p \<longrightarrow> broken p) \<and>
     (\<not> overflowed p \<longrightarrow> floors_cover p \<and> pending_from p)"

fun job_ok :: "Push \<Rightarrow> job \<Rightarrow> bool" where
  "job_ok p (JCommit _ cs b) \<longleftrightarrow> (\<forall>c\<in>set cs. asc_basis b c)"
| "job_ok p (JFinCommit _ cs b) \<longleftrightarrow> total p = length b \<and> (\<forall>c\<in>set cs. full_basis b c)"
| "job_ok p _ \<longleftrightarrow> True"

definition commit_ok :: "Push \<Rightarrow> commit_call \<Rightarrow> bool" where
  "commit_ok p c \<longleftrightarrow> c_room c = proom p \<and>
     (asc_basis (basis c) (c_sender c, c_lamport c) \<or>
      total p = length (basis c) \<and> full_basis (basis c) (c_sender c, c_lamport c))"

definition inbound_inv :: "InboundPushes \<Rightarrow> bool" where
  "inbound_inv s \<longleftrightarrow>
     (\<forall>pid p. js_get (objs s) pid = Some p \<longrightarrow>
        pid < next_obj s \<and> push_ok p (queued pid (queue s (chain p)))) \<and>
     (\<forall>q. fifo (queue s q)) \<and>
     (\<forall>q. \<forall>j\<in>set (queue s q). \<exists>p. js_get (objs s) (job_push j) = Some p \<and> chain p = q \<and> job_ok p j) \<and>
     (\<forall>k pid. js_get (pushes s) k = Some pid \<longrightarrow>
        (\<exists>p. js_get (objs s) pid = Some p \<and> key p = k) \<and> (\<forall>q. \<forall>j\<in>set (queue s q). \<not> closes pid j)) \<and>
     (\<forall>c. Commit c \<in> set (log s) \<longrightarrow> (\<exists>p. js_get (objs s) (c_push c) = Some p \<and> commit_ok p c))"

lemma inbound_invD:
  assumes "inbound_inv s"
  shows inv_obj: "\<And>pid p. js_get (objs s) pid = Some p \<Longrightarrow>
          pid < next_obj s \<and> push_ok p (queued pid (queue s (chain p)))"
    and inv_fifo: "\<And>q. fifo (queue s q)"
    and inv_job: "\<And>q j. j \<in> set (queue s q) \<Longrightarrow>
          \<exists>p. js_get (objs s) (job_push j) = Some p \<and> chain p = q \<and> job_ok p j"
    and inv_live: "\<And>k pid. js_get (pushes s) k = Some pid \<Longrightarrow>
          (\<exists>p. js_get (objs s) pid = Some p \<and> key p = k) \<and> (\<forall>q. \<forall>j\<in>set (queue s q). \<not> closes pid j)"
    and inv_log: "\<And>c. Commit c \<in> set (log s) \<Longrightarrow> \<exists>p. js_get (objs s) (c_push c) = Some p \<and> commit_ok p c"
  using assms unfolding inbound_inv_def by blast+

lemma queued_simps [simp]:
  "queued pid [] = []"
  "queued pid (j # js) = batch_idx pid j @ queued pid js"
  "queued pid (js @ js') = queued pid js @ queued pid js'"
  by (simp_all add: queued_def)

lemma fifo_simps [simp]:
  "fifo []"
  "fifo (j # js) \<longleftrightarrow> (\<forall>j'\<in>set js. \<forall>pid. closes pid j \<longrightarrow> batch_idx pid j' = []) \<and> fifo js"
  by (simp_all add: fifo_def)

lemma fifo_snoc:
  "fifo (js @ [j]) \<longleftrightarrow> fifo js \<and> (\<forall>j'\<in>set js. \<forall>pid. closes pid j' \<longrightarrow> batch_idx pid j = [])"
  by (auto simp: fifo_def sorted_wrt_append)

lemma fifo_closed: "fifo (j # js) \<Longrightarrow> closes pid j \<Longrightarrow> queued pid js = []"
  by (auto simp: queued_def)

subsection \<open>Operations that leave the core alone\<close>

definition same_core :: "InboundPushes \<Rightarrow> InboundPushes \<Rightarrow> bool" where
  "same_core s s' \<longleftrightarrow> js_get (objs s') = js_get (objs s) \<and> next_obj s' = next_obj s \<and> pushes s' = pushes s \<and>
     queues s' = queues s \<and> (\<forall>c. Commit c \<in> set (log s') \<longleftrightarrow> Commit c \<in> set (log s))"

lemma same_core_refl [simp]: "same_core s s"
  by (simp add: same_core_def)

lemma same_core_trans: "same_core s t \<Longrightarrow> same_core t u \<Longrightarrow> same_core s u"
  by (auto simp: same_core_def)

lemma same_core_inv: "same_core s s' \<Longrightarrow> inbound_inv s \<Longrightarrow> inbound_inv s'"
  unfolding inbound_inv_def same_core_def by simp

lemma same_core_fields [simp]:
  "same_core s (s\<lparr>rooms := r\<rparr>)" "same_core s (s\<lparr>claims := c\<rparr>)"
  "same_core s (s\<lparr>finishing := f\<rparr>)" "same_core s (s\<lparr>nonces := n\<rparr>)"
  "same_core s (emit (Hold rm) s)" "same_core s (emit (Release rm) s)"
  by (auto simp: same_core_def emit_def)

lemma settle_core [simp]: "same_core s (settle s r)"
  unfolding settle_def by (auto split: option.splits) (auto simp: same_core_def emit_def)

lemma settle_rooms_core: "same_core s (settle (s\<lparr>rooms := x\<rparr>) r)"
  by (rule same_core_trans [OF same_core_fields(1) settle_core])

lemma same_core_if: "same_core s a \<Longrightarrow> same_core s b \<Longrightarrow> same_core s (if c then a else b)"
  by (cases c) simp_all

lemma answered_core [simp]: "same_core s (answered s peer r n)"
proof (cases "js_get (rooms s) r")
  case None
  then show ?thesis by (simp add: answered_def)
next
  case st: (Some st)
  show ?thesis
  proof (cases "js_get (expecting st) peer")
    case None
    with st show ?thesis by (simp add: answered_def)
  next
    case (Some w)
    show ?thesis unfolding answered_def st Some option.case
      by (intro same_core_if same_core_refl settle_rooms_core)
  qed
qed

lemma room_of_core [simp]: "same_core s (snd (room_of s r))"
  by (auto simp: room_of_def same_core_def emit_def Let_def split: option.splits)

lemma expect_core [simp]: "same_core s (snd (expect_push s peer r))"
  by (cases "js_get (rooms s) r") (simp_all add: expect_push_def room_of_def same_core_def emit_def Let_def)

lemma claim_core [simp]: "same_core s (claim s p)"
  by (auto simp: claim_def same_core_def Let_def split: prod.splits)

subsection \<open>Writes to a push\<close>

lemma upd_push_get:
  "js_get (objs (upd_push pid f s)) pid' =
     (if pid' = pid then map_option f (js_get (objs s) pid) else js_get (objs s) pid')"
  by (auto simp: upd_push_def split: option.splits)

lemma upd_push_rest [simp]:
  "next_obj (upd_push pid f s) = next_obj s" "pushes (upd_push pid f s) = pushes s"
  "queues (upd_push pid f s) = queues s" "log (upd_push pid f s) = log s"
  "rooms (upd_push pid f s) = rooms s" "finishing (upd_push pid f s) = finishing s"
  "claims (upd_push pid f s) = claims s"
  by (auto simp: upd_push_def split: option.splits)

lemma upd_push_inv:
  assumes inv: "inbound_inv s"
    and keep: "\<And>p. js_get (objs s) pid = Some p \<Longrightarrow>
      key (f p) = key p \<and> proom (f p) = proom p \<and> chain (f p) = chain p \<and> total (f p) = total p \<and>
      push_ok (f p) (queued pid (queue s (chain p)))"
  shows "inbound_inv (upd_push pid f s)"
proof -
  have jk: "job_ok (f p) j = job_ok p j" if "js_get (objs s) pid = Some p" for p j
    using keep [OF that] by (cases j) simp_all
  have ck: "commit_ok (f p) c = commit_ok p c" if "js_get (objs s) pid = Some p" for p c
    using keep [OF that] by (simp add: commit_ok_def)
  have same: "\<exists>p'. js_get (objs (upd_push pid f s)) x = Some p' \<and> key p' = key p \<and> chain p' = chain p \<and>
      (\<forall>j. job_ok p' j = job_ok p j) \<and> (\<forall>c. commit_ok p' c = commit_ok p c)"
    if "js_get (objs s) x = Some p" for x p
  proof (cases "x = pid")
    case True
    with that keep [of p] jk [of p] ck [of p] show ?thesis by (simp add: upd_push_get)
  qed (use that in \<open>simp add: upd_push_get\<close>)
  show ?thesis unfolding inbound_inv_def upd_push_rest
  proof (intro conjI allI impI ballI)
    fix x p assume x: "js_get (objs (upd_push pid f s)) x = Some p"
    show "x < next_obj s" "push_ok p (queued x (queue s (chain p)))"
      using x inv_obj [OF inv] keep by (auto simp: upd_push_get split: if_splits)
  next
    fix q show "fifo (queue s q)" by (rule inv_fifo [OF inv])
  next
    fix q j assume "j \<in> set (queue s q)"
    from inv_job [OF inv this] same
    show "\<exists>p. js_get (objs (upd_push pid f s)) (job_push j) = Some p \<and> chain p = q \<and> job_ok p j" by metis
  next
    fix k x assume "js_get (pushes s) k = Some x"
    from inv_live [OF inv this] same
    show "\<exists>p. js_get (objs (upd_push pid f s)) x = Some p \<and> key p = k" by metis
  next
    fix k x q j assume "js_get (pushes s) k = Some x" "j \<in> set (queue s q)"
    with inv_live [OF inv] show "\<not> closes x j" by blast
  next
    fix c assume "Commit c \<in> set (log s)"
    from inv_log [OF inv this] same
    show "\<exists>p. js_get (objs (upd_push pid f s)) (c_push c) = Some p \<and> commit_ok p c" by metis
  qed
qed

lemma upd_push_id_core: "same_core s (upd_push pid (\<lambda>p. p) s)"
  by (auto simp: same_core_def upd_push_get fun_eq_iff option.map_ident)

lemma upd_push_plain_inv:
  assumes "inbound_inv s"
    and "\<And>p. key (f p) = key p \<and> proom (f p) = proom p \<and> chain (f p) = chain p \<and> total (f p) = total p \<and>
      next_index (f p) = next_index p \<and> outcomes (f p) = outcomes p \<and> pfloors (f p) = pfloors p \<and>
      ppending (f p) = ppending p \<and> overflowed (f p) = overflowed p \<and> (broken p \<longrightarrow> broken (f p))"
  shows "inbound_inv (upd_push pid f s)"
proof (rule upd_push_inv [OF assms(1)])
  fix p assume "js_get (objs s) pid = Some p"
  then have "push_ok p (queued pid (queue s (chain p)))" using inv_obj [OF assms(1)] by blast
  then show "key (f p) = key p \<and> proom (f p) = proom p \<and> chain (f p) = chain p \<and> total (f p) = total p \<and>
      push_ok (f p) (queued pid (queue s (chain p)))"
    using assms(2) [of p] by (auto simp: push_ok_def floors_cover_def pending_from_def)
qed

lemma delete_push_inv: "inbound_inv s \<Longrightarrow> inbound_inv (s\<lparr>pushes := js_delete (pushes s) k\<rparr>)"
  unfolding inbound_inv_def by simp

lemma emit_commit_inv:
  assumes "inbound_inv s" and "js_get (objs s) (c_push c) = Some p" and "commit_ok p c"
  shows "inbound_inv (emit (Commit c) s)"
  using assms unfolding inbound_inv_def emit_def by auto

subsection \<open>The queues\<close>

lemma queue_enqueue [simp]: "queue (enqueue q j s) q' = (if q' = q then queue s q @ [j] else queue s q')"
  by (simp add: enqueue_def js_get_or_def)

lemma enqueue_rest [simp]:
  "objs (enqueue q j s) = objs s" "next_obj (enqueue q j s) = next_obj s"
  "pushes (enqueue q j s) = pushes s" "log (enqueue q j s) = log s" "claims (enqueue q j s) = claims s"
  "rooms (enqueue q j s) = rooms s" "finishing (enqueue q j s) = finishing s"
  by (simp_all add: enqueue_def)

lemma enqueue_inv:
  assumes inv: "inbound_inv s" and p: "js_get (objs s) (job_push j) = Some p" "job_ok p j"
    and nobatch: "\<And>pid. batch_idx pid j = []"
    and closed: "\<And>k. closes (job_push j) j \<Longrightarrow> js_get (pushes s) k \<noteq> Some (job_push j)"
  shows "inbound_inv (enqueue (chain p) j s)"
proof -
  have cl: "closes pid j \<Longrightarrow> pid = job_push j" for pid by (cases j) auto
  show ?thesis unfolding inbound_inv_def enqueue_rest
  proof (intro conjI allI impI ballI)
    fix x p' assume "js_get (objs s) x = Some p'"
    with inv_obj [OF inv this] show "x < next_obj s" "push_ok p' (queued x (queue (enqueue (chain p) j s) (chain p')))"
      by (auto simp: nobatch)
  next
    fix q show "fifo (queue (enqueue (chain p) j s) q)"
      using inv_fifo [OF inv] by (auto simp: fifo_snoc nobatch)
  next
    fix q j' assume "j' \<in> set (queue (enqueue (chain p) j s) q)"
    then show "\<exists>p. js_get (objs s) (job_push j') = Some p \<and> chain p = q \<and> job_ok p j'"
      using inv_job [OF inv] p by (auto split: if_splits)
  next
    fix k x assume k: "js_get (pushes s) k = Some x"
    show "\<exists>p. js_get (objs s) x = Some p \<and> key p = k" using inv_live [OF inv k] by blast
    fix q j' assume "j' \<in> set (queue (enqueue (chain p) j s) q)"
    then show "\<not> closes x j'"
      using inv_live [OF inv k] closed k cl [of x] by (auto split: if_splits)
  next
    fix c assume "Commit c \<in> set (log s)"
    then show "\<exists>p. js_get (objs s) (c_push c) = Some p \<and> commit_ok p c" by (rule inv_log [OF inv])
  qed
qed

text \<open>A frame: the push takes it and its batch job goes to the end of the push's queue.\<close>

lemma take_frame_ok:
  assumes "push_ok p w"
  shows "push_ok ((take_frame p f)\<lparr>timer := True\<rparr>) (w @ [frame_index f])"
  using assms by (auto simp: push_ok_def take_frame_def Let_def floors_cover_def pending_from_def)

lemma enqueue_frame_inv:
  assumes inv: "inbound_inv s" and k: "js_get (pushes s) k = Some pid" and p: "js_get (objs s) pid = Some p"
  shows "inbound_inv (enqueue (chain p) (JBatch pid ord (frame_index f))
           (upd_push pid (\<lambda>p. (take_frame p f)\<lparr>timer := True\<rparr>) s))" (is "inbound_inv (enqueue _ ?j ?s)")
proof -
  have keep: "\<exists>p''. js_get (objs ?s) x = Some p'' \<and> key p'' = key p' \<and> chain p'' = chain p' \<and>
      (\<forall>j. job_ok p'' j = job_ok p' j) \<and> (\<forall>c. commit_ok p'' c = commit_ok p' c)"
    if "js_get (objs s) x = Some p'" for x p'
  proof -
    have "job_ok ((take_frame p' f)\<lparr>timer := True\<rparr>) j = job_ok p' j" for j
      by (cases j) (simp_all add: take_frame_def Let_def)
    then show ?thesis
      using that by (cases "x = pid") (simp_all add: upd_push_get take_frame_def Let_def commit_ok_def)
  qed
  show ?thesis unfolding inbound_inv_def enqueue_rest upd_push_rest
  proof (intro conjI allI impI ballI)
    fix x p' assume x: "js_get (objs ?s) x = Some p'"
    then show "x < next_obj s" using inv_obj [OF inv] by (auto simp: upd_push_get split: if_splits)
    show "push_ok p' (queued x (queue (enqueue (chain p) ?j ?s) (chain p')))"
    proof (cases "x = pid")
      case True
      then have "p' = (take_frame p f)\<lparr>timer := True\<rparr>" using x p by (simp add: upd_push_get)
      moreover have "push_ok p (queued pid (queue s (chain p)))" using inv_obj [OF inv p] by blast
      ultimately show ?thesis using take_frame_ok True by (simp add: take_frame_def Let_def)
    next
      case False
      then have "js_get (objs s) x = Some p'" using x by (simp add: upd_push_get)
      with inv_obj [OF inv this] False show ?thesis by (cases "chain p' = chain p") simp_all
    qed
  next
    fix q show "fifo (queue (enqueue (chain p) ?j ?s) q)"
      using inv_fifo [OF inv] inv_live [OF inv k] by (auto simp: fifo_snoc)
  next
    fix q j' assume "j' \<in> set (queue (enqueue (chain p) ?j ?s) q)"
    then consider "j' \<in> set (queue s q)" | "j' = ?j" "q = chain p" by (auto split: if_splits)
    then show "\<exists>p. js_get (objs ?s) (job_push j') = Some p \<and> chain p = q \<and> job_ok p j'"
    proof cases
      case 1
      from inv_job [OF inv 1] keep show ?thesis by metis
    next
      case 2
      with keep [OF p] show ?thesis by auto
    qed
  next
    fix k' x assume "js_get (pushes s) k' = Some x"
    note live = inv_live [OF inv this]
    then show "\<exists>p. js_get (objs ?s) x = Some p \<and> key p = k'" using keep by metis
    fix q j' assume "j' \<in> set (queue (enqueue (chain p) ?j ?s) q)"
    then show "\<not> closes x j'" using live by (auto split: if_splits)
  next
    fix c assume "Commit c \<in> set (log s)"
    from inv_log [OF inv this] keep
    show "\<exists>p. js_get (objs ?s) (c_push c) = Some p \<and> commit_ok p c" by metis
  qed
qed

text \<open>The head of a queue is done with, or leaves one job in its place.\<close>

lemma queue_set_head [simp]: "queue (set_head q js s) q' = (if q' = q then js else queue s q')"
  by (simp add: set_head_def js_get_or_def)

lemma set_head_rest [simp]:
  "objs (set_head q j s) = objs s" "next_obj (set_head q j s) = next_obj s"
  "pushes (set_head q j s) = pushes s" "log (set_head q j s) = log s" "claims (set_head q j s) = claims s"
  "rooms (set_head q j s) = rooms s" "finishing (set_head q j s) = finishing s"
  by (simp_all add: set_head_def)

lemma set_head_inv:
  assumes inv: "inbound_inv s" and q: "queue s q = j # js" and h: "set h \<subseteq> {j'}"
    and p: "js_get (objs s) (job_push j) = Some p"
    and j': "job_push j' = job_push j" "\<And>pid. batch_idx pid j' = []" "\<And>pid. closes pid j' \<Longrightarrow> closes pid j"
       "h \<noteq> [] \<Longrightarrow> job_ok p j'" "length h \<le> 1"
    and f: "key (f p) = key p" "proom (f p) = proom p" "chain (f p) = chain p" "total (f p) = total p"
       "push_ok (f p) (queued (job_push j) js)"
  shows "inbound_inv (set_head q (h @ js) (upd_push (job_push j) f s))" (is "inbound_inv ?s")
proof -
  let ?pid = "job_push j"
  have ch: "chain p = q" using inv_job [OF inv, of j q] q p by auto
  have jk: "job_ok (f p) x = job_ok p x" for x using f by (cases x) simp_all
  have ck: "commit_ok (f p) c = commit_ok p c" for c using f by (simp add: commit_ok_def)
  have keep: "\<exists>p''. js_get (objs ?s) x = Some p'' \<and> key p'' = key p' \<and> chain p'' = chain p' \<and>
      (\<forall>j. job_ok p'' j = job_ok p' j) \<and> (\<forall>c. commit_ok p'' c = commit_ok p' c)"
    if "js_get (objs s) x = Some p'" for x p'
    using that p f jk ck by (cases "x = ?pid") (simp_all add: upd_push_get)
  have hq: "queued x h = []" for x
    using h j'(2) by (auto simp: queued_def)
  have nb: "batch_idx x j = []" if "x \<noteq> ?pid" for x using that by (cases j) auto
  have hj: "x \<in> set h \<Longrightarrow> x = j'" for x using h by auto
  show ?thesis unfolding inbound_inv_def set_head_rest upd_push_rest
  proof (intro conjI allI impI ballI)
    fix x p' assume x: "js_get (objs (upd_push ?pid f s)) x = Some p'"
    then show "x < next_obj s" using inv_obj [OF inv] by (auto simp: upd_push_get split: if_splits)
    show "push_ok p' (queued x (queue ?s (chain p')))"
    proof (cases "x = ?pid")
      case True
      with x p f ch show ?thesis by (simp add: upd_push_get hq)
    next
      case False
      with x have "js_get (objs s) x = Some p'" by (simp add: upd_push_get)
      with inv_obj [OF inv this] False nb [of x] q show ?thesis
        by (cases "chain p' = q") (simp_all add: hq)
    qed
  next
    fix q' have "fifo (j # js)" using inv_fifo [OF inv, of q] q by simp
    then have "fifo (h @ js)"
      using h j' by (cases h) auto
    then show "fifo (queue ?s q')" using inv_fifo [OF inv] by simp
  next
    fix q' x assume "x \<in> set (queue ?s q')"
    then consider "x \<in> set (queue s q')" | "x \<in> set h" "q' = q" by (auto simp: q split: if_splits)
    then show "\<exists>p. js_get (objs (upd_push ?pid f s)) (job_push x) = Some p \<and> chain p = q' \<and> job_ok p x"
    proof cases
      case 1
      from inv_job [OF inv 1] keep show ?thesis by (metis set_head_rest(1))
    next
      case 2
      then have "x = j'" "h \<noteq> []" using hj by auto
      with keep [OF p] j' ch 2 show ?thesis by (metis set_head_rest(1))
    qed
  next
    fix k x assume "js_get (pushes s) k = Some x"
    note live = inv_live [OF inv this]
    then show "\<exists>p. js_get (objs (upd_push ?pid f s)) x = Some p \<and> key p = k"
      using keep by (metis set_head_rest(1))
    fix q' y assume "y \<in> set (queue ?s q')"
    then consider "y \<in> set (queue s q')" | "y = j'" "q' = q" using hj by (auto simp: q split: if_splits)
    then show "\<not> closes x y"
    proof cases
      case 2
      have "\<not> closes x j" using live q by (metis list.set_intros(1))
      with 2 j'(3) show ?thesis by blast
    qed (use live in blast)
  next
    fix c assume "Commit c \<in> set (log s)"
    from inv_log [OF inv this] keep
    show "\<exists>p. js_get (objs (upd_push ?pid f s)) (c_push c) = Some p \<and> commit_ok p c" by (metis set_head_rest(1))
  qed
qed

subsection \<open>Accounting for a batch\<close>

lemma claimable_loop_sound:
  "c \<in> set (claimable_loop best ps fl) \<Longrightarrow>
     c \<in> set best \<or> c \<in> set ps \<and> (\<forall>f. js_get fl (fst c) = Some f \<longrightarrow> snd c < f)"
proof (induction best ps fl rule: claimable_loop.induct)
  case (1 best fl)
  then show ?case by simp
next
  case (2 best s l ps fl)
  then show ?case using set_js_set [of s l best] by (fastforce split: if_splits option.splits)
qed

lemma claimable_sound:
  "c \<in> set (claimable ps fl) \<Longrightarrow> c \<in> set ps \<and> (\<forall>f. js_get fl (fst c) = Some f \<longrightarrow> snd c < f)"
  using claimable_loop_sound [of c "[]"] by (simp add: claimable_def)

lemma merge_floors_cover:
  assumes "merge_floors fl ps = (fl', False)"
  shows "(\<forall>s f. js_get fl s = Some f \<longrightarrow> (\<exists>f'\<le>f. js_get fl' s = Some f')) \<and>
         (\<forall>(s, f) \<in> set ps. \<exists>f'\<le>f. js_get fl' s = Some f')"
  using assms
proof (induction fl ps rule: merge_floors.induct)
  case (1 fl)
  then show ?case by auto
next
  case (2 fl s l ps)
  define g where "g = (case js_get fl s of None \<Rightarrow> js_set fl s l | Some a \<Rightarrow> if l < a then js_set fl s l else fl)"
  have m: "merge_floors g ps = (fl', False)"
    using "2.prems" by (auto simp: g_def split: option.splits if_splits)
  have IH: "(\<forall>s f. js_get g s = Some f \<longrightarrow> (\<exists>f'\<le>f. js_get fl' s = Some f')) \<and>
      (\<forall>(s, f) \<in> set ps. \<exists>f'\<le>f. js_get fl' s = Some f')"
    using "2.IH" "2.prems" m by (auto simp: g_def split: option.splits if_splits)
  have "\<exists>f'\<le>f. js_get g s' = Some f'" if "js_get fl s' = Some f" for s' f
    using that by (auto simp: g_def split: option.splits)
  moreover have "\<exists>f'\<le>l. js_get g s = Some f'" by (auto simp: g_def split: option.splits)
  ultimately show ?case using IH by (fastforce intro: order_trans)
qed

lemma entries_js_set: "set (entries (js_set m k ls)) \<subseteq> (\<lambda>l. (k, l)) ` set ls \<union> set (entries m)"
  using set_js_set [of k ls m] by (fastforce simp: entries_def)

lemma entries_add_pending: "set (entries (add_pending m ps)) \<subseteq> set (entries m) \<union> set ps"
proof (induction m ps rule: add_pending.induct)
  case (1 m)
  then show ?case by simp
next
  case (2 m s l ps)
  have "set (entries (case js_get m s of Some ls \<Rightarrow> js_set m s (set_add ls l) | None \<Rightarrow> js_set m s [l]))
      \<subseteq> insert (s, l) (set (entries m))"
  proof (cases "js_get m s")
    case None
    then show ?thesis using entries_js_set [of s "[l]" m] by auto
  next
    case (Some ls)
    then have "(\<lambda>l. (s, l)) ` set ls \<subseteq> set (entries m)"
      by (fastforce simp: entries_def dest: map_of_SomeD)
    with Some entries_js_set [of s "set_add ls l" m] show ?thesis by auto
  qed
  with "2.IH" show ?case by auto
qed

lemma account_keeps:
  "account p ord oc = (p', cs) \<Longrightarrow> key p' = key p \<and> proom p' = proom p \<and> chain p' = chain p \<and>
     total p' = total p \<and> next_index p' = next_index p \<and> outcomes p' = outcomes p \<and>
     (broken p \<longrightarrow> broken p') \<and> (\<not> broken p' \<longrightarrow> \<not> broken p)"
  by (auto simp: account_def Let_def split: if_splits prod.splits)

lemma account_ok:
  assumes ok: "push_ok p (i # w)" and acc: "account p ord oc = (p', cs)"
  defines "p'' \<equiv> p'\<lparr>outcomes := outcomes p @ [(i, ord, oc)]\<rparr>"
  shows "push_ok p'' w"
proof -
  note kp = account_keeps [OF acc]
  have A: "\<not> broken p'' \<longrightarrow> map fst (outcomes p'') @ w = [0..<next_index p'']"
    using ok kp by (simp add: push_ok_def p''_def)
  show ?thesis
  proof (cases "overflowed p'")
    case True
    then have "broken p'"
      using acc ok by (auto simp: account_def push_ok_def Let_def split: if_splits prod.splits)
    with True show ?thesis by (simp add: push_ok_def p''_def)
  next
    case False
    then have no: "\<not> overflowed p"
      using acc by (auto simp: account_def Let_def split: if_splits prod.splits)
    then obtain fl where fl: "merge_floors (pfloors p) (floors oc) = (fl, False)"
      using acc False by (cases "merge_floors (pfloors p) (floors oc)")
        (auto simp: account_def Let_def split: if_splits)
    have p': "pfloors p' = fl"
      "ppending p' = (if ord = Some Asc then ppending p else add_pending (ppending p) (valid_pairs oc))"
      using acc no fl by (auto simp: account_def Let_def split: if_splits)
    have old: "floors_cover p" "pending_from p" using ok no by (auto simp: push_ok_def)
    have "floors_cover p''"
      using old(1) merge_floors_cover [OF fl] p'(1) kp
      unfolding floors_cover_def p''_def by (fastforce intro: order_trans)
    moreover have "pending_from p''"
      using old(2) p'(2) kp entries_add_pending [of "ppending p" "valid_pairs oc"]
      unfolding pending_from_def p''_def by (fastforce split: if_splits)
    ultimately show ?thesis using A False by (simp add: push_ok_def p''_def)
  qed
qed

lemma in_order_prefix: "map fst b @ w = [0..<n] \<Longrightarrow> in_order b"
proof -
  assume eq: "map fst b @ w = [0..<n]"
  then have "length b \<le> n" by (metis le_add1 length_append length_map length_upt minus_nat.diff_0)
  moreover have "map fst b = take (length b) [0..<n]"
    using eq by (metis append_eq_conv_conj length_map)
  ultimately show ?thesis by (simp add: in_order_def take_upt)
qed

lemma below_floorsI:
  assumes "floors_cover p" and "\<forall>f. js_get (pfloors p) (fst c) = Some f \<longrightarrow> snd c < f"
  shows "below_floors (outcomes p) c"
  using assms unfolding floors_cover_def below_floors_def by (fastforce intro: less_le_trans)

lemma account_commits:
  assumes ok: "push_ok p (i # w)" and acc: "account p ord oc = (p', cs)" and c: "c \<in> set cs"
  shows "asc_basis (outcomes p @ [(i, ord, oc)]) c"
proof -
  let ?p = "p'\<lparr>outcomes := outcomes p @ [(i, ord, oc)]\<rparr>"
  obtain fl where fl: "merge_floors (pfloors p) (floors oc) = (fl, False)" "pfloors p' = fl"
      and p: "\<not> broken p'" "\<not> overflowed p'" "ord = Some Asc" "cs = claimable (valid_pairs oc) fl"
    using acc c by (auto simp: account_def Let_def split: if_splits prod.splits)
  have ok': "push_ok ?p w" by (rule account_ok [OF ok acc])
  then have "floors_cover ?p" using p by (simp add: push_ok_def)
  then have "below_floors (outcomes ?p) c"
    using claimable_sound [of c "valid_pairs oc" fl] c p fl by (intro below_floorsI) simp_all
  moreover have "in_order (outcomes ?p)"
    using ok' p by (intro in_order_prefix [of _ w "next_index ?p"]) (simp add: push_ok_def)
  moreover have "c \<in> set (valid_pairs oc)" using claimable_sound c p by blast
  ultimately show ?thesis using p by (simp add: asc_basis_def)
qed

lemma finish_commits:
  assumes ok: "push_ok p []" and "\<not> broken p" "next_index p = total p"
  shows "total p = length (outcomes p)"
    and "c \<in> set (claimable (entries (ppending p)) (pfloors p)) \<Longrightarrow> full_basis (outcomes p) c"
proof -
  have all: "map fst (outcomes p) = [0..<total p]" and fc: "floors_cover p" and pf: "pending_from p"
    using assms by (auto simp: push_ok_def)
  then show len: "total p = length (outcomes p)" by (metis length_map length_upt minus_nat.diff_0)
  assume c: "c \<in> set (claimable (entries (ppending p)) (pfloors p))"
  note sound = claimable_sound [OF c]
  have "below_floors (outcomes p) c" by (rule below_floorsI [OF fc]) (use sound in blast)
  moreover have "\<exists>(i, ord, oc) \<in> set (outcomes p). c \<in> set (valid_pairs oc)"
    using pf sound unfolding pending_from_def by blast
  ultimately show "full_basis (outcomes p) c" using all len by (simp add: full_basis_def in_order_def)
qed

subsection \<open>Every operation keeps the invariant\<close>

lemma inv_if: "inbound_inv a \<Longrightarrow> inbound_inv b \<Longrightarrow> inbound_inv (if c then a else b)"
  by (cases c) simp_all

lemma end_room_core:
  "same_core s (case js_get (rooms s) r of None \<Rightarrow> s | Some st \<Rightarrow> settle (s\<lparr>rooms := g st\<rparr>) r)"
  by (cases "js_get (rooms s) r") (simp_all add: settle_rooms_core)

lemma end_push_inv:
  assumes inv: "inbound_inv s"
  shows "inbound_inv (end_push s pid completed)"
proof (cases "js_get (objs s) pid")
  case None
  with inv show ?thesis by (simp add: end_push_def)
next
  case (Some p)
  define s1 where "s1 = upd_push pid (\<lambda>p. p\<lparr>ended := True, timer := False\<rparr>) s"
  define s2 where "s2 = (if js_get (pushes s1) (key p) = Some pid
                      then s1\<lparr>pushes := js_delete (pushes s1) (key p)\<rparr> else s1)"
  define s3 where "s3 = (if first p = None \<and> \<not> completed then claim s2 p else s2)"
  define s4 where "s4 = (case js_get (rooms s3) (proom p) of
                        None \<Rightarrow> s3
                      | Some st \<Rightarrow>
                          settle (s3\<lparr>rooms := js_set (rooms s3) (proom p)
                             (st\<lparr>open_pushes := set_remove (open_pushes st) pid, owed := \<not> completed\<rparr>)\<rparr>)
                            (proom p))"
  have "inbound_inv s1" unfolding s1_def by (rule upd_push_plain_inv [OF inv]) simp
  then have "inbound_inv s2" unfolding s2_def by (intro inv_if delete_push_inv)
  moreover have "same_core s2 s3" unfolding s3_def by (intro same_core_if claim_core same_core_refl)
  moreover have "same_core s3 s4" unfolding s4_def by (rule end_room_core)
  ultimately have i4: "inbound_inv s4" by (blast intro: same_core_inv)
  have "end_push s pid completed = (if ended p then s
      else if js_get (finishing s4) (key p) = Some pid
           then s4\<lparr>finishing := js_delete (finishing s4) (key p)\<rparr> else s4)"
    unfolding end_push_def Some option.case Let_def s4_def s3_def s2_def s1_def ..
  then show ?thesis using inv i4 same_core_inv [OF same_core_fields(3) i4] by simp
qed

lemma stall_timeout_inv:
  assumes inv: "inbound_inv s"
  shows "inbound_inv (stall_timeout s pid)"
proof (cases "js_get (objs s) pid")
  case None
  with inv show ?thesis by (simp add: stall_timeout_def)
next
  case (Some p)
  define s1 where "s1 = upd_push pid (\<lambda>p. p\<lparr>timer := False\<rparr>) s"
  define s2 where "s2 = (if js_get (pushes s1) (key p) = Some pid
                    then s1\<lparr>pushes := js_delete (pushes s1) (key p)\<rparr> else s1)"
  have "inbound_inv s1" unfolding s1_def by (rule upd_push_plain_inv [OF inv]) simp
  then have i2: "inbound_inv s2" unfolding s2_def by (intro inv_if delete_push_inv)
  have o: "js_get (objs s2) pid = Some (p\<lparr>timer := False\<rparr>)"
    using Some by (simp add: s2_def s1_def upd_push_get)
  have "inbound_inv (enqueue (chain (p\<lparr>timer := False\<rparr>)) (JEnd pid False) s2)"
    by (rule enqueue_inv [OF i2]) (use o in auto)
  then show ?thesis unfolding stall_timeout_def Some option.case Let_def s2_def s1_def by simp
qed

lemma finish_inv:
  assumes inv: "inbound_inv s"
  shows "inbound_inv (finish s pid)"
proof (cases "js_get (objs s) pid")
  case None
  with inv show ?thesis by (simp add: finish_def)
next
  case (Some p)
  define s1 where "s1 = upd_push pid (\<lambda>p. p\<lparr>timer := False\<rparr>) s"
  define s2 where "s2 = s1\<lparr>pushes := js_delete (pushes s1) (key p)\<rparr>"
  define s3 where "s3 = s2\<lparr>finishing := js_set (finishing s1) (key p) pid\<rparr>"
  have "inbound_inv s1" unfolding s1_def by (rule upd_push_plain_inv [OF inv]) simp
  then have "inbound_inv s2" unfolding s2_def by (rule delete_push_inv)
  then have i3: "inbound_inv s3" unfolding s3_def by (rule same_core_inv [OF same_core_fields(3)])
  have o: "js_get (objs s3) pid = Some (p\<lparr>timer := False\<rparr>)"
    using Some by (simp add: s3_def s2_def s1_def upd_push_get)
  have gone: "js_get (pushes s3) k \<noteq> Some pid" for k
    using inv_live [OF inv, of k pid] Some by (auto simp: s3_def s2_def s1_def)
  have "inbound_inv (enqueue (chain (p\<lparr>timer := False\<rparr>)) (JFinish pid) s3)"
    by (rule enqueue_inv [OF i3]) (use o gone in auto)
  then show ?thesis using inv unfolding finish_def Some option.case Let_def s3_def s2_def s1_def by simp
qed

lemma new_push_inv:
  assumes inv: "inbound_inv s"
    and p: "outcomes p = []" "next_index p = 0" "\<not> overflowed p" "ppending p = []" "key p = k"
  shows "inbound_inv (s\<lparr>objs := js_set (objs s) (next_obj s) p, next_obj := Suc (next_obj s),
                       pushes := js_set (pushes s) k (next_obj s)\<rparr>)" (is "inbound_inv ?s")
proof -
  let ?n = "next_obj s"
  have fresh: "js_get (objs s) ?n = None" using inv_obj [OF inv, of ?n] by (cases "js_get (objs s) ?n") auto
  have nojob: "job_push j \<noteq> ?n" if "j \<in> set (queue s q)" for j q
    using inv_job [OF inv that] fresh by auto
  have cl: "closes pid j \<Longrightarrow> pid = job_push j" for pid j by (cases j) auto
  have none: "queued ?n (queue s q) = []" for q
  proof -
    have "batch_idx ?n j = []" if "j \<in> set (queue s q)" for j using nojob [OF that] by (cases j) auto
    then show ?thesis by (simp add: queued_def)
  qed
  show ?thesis unfolding inbound_inv_def
  proof (intro conjI allI impI ballI)
    fix x p' assume x: "js_get (objs ?s) x = Some p'"
    show "x < next_obj ?s" using x inv_obj [OF inv, of x] by (auto split: if_splits)
    show "push_ok p' (queued x (queue ?s (chain p')))"
      using x inv_obj [OF inv, of x] p none
      by (auto split: if_splits simp: push_ok_def floors_cover_def pending_from_def entries_def)
  next
    fix q show "fifo (queue ?s q)" using inv_fifo [OF inv] by simp
  next
    fix q j assume j: "j \<in> set (queue ?s q)"
    then show "\<exists>p. js_get (objs ?s) (job_push j) = Some p \<and> chain p = q \<and> job_ok p j"
      using inv_job [OF inv, of j q] nojob [of j q] by auto
  next
    fix k' x assume k': "js_get (pushes ?s) k' = Some x"
    show "\<exists>p. js_get (objs ?s) x = Some p \<and> key p = k'"
      using k' inv_live [OF inv, of k' x] inv_obj [OF inv, of x] p by (auto split: if_splits)
    fix q j assume "j \<in> set (queue ?s q)"
    then show "\<not> closes x j"
      using k' inv_live [OF inv, of k' x] nojob [of j q] cl [of x j] by (auto split: if_splits)
  next
    fix c assume "Commit c \<in> set (log ?s)"
    then show "\<exists>p. js_get (objs ?s) (c_push c) = Some p \<and> commit_ok p c"
      using inv_log [OF inv, of c] inv_obj [OF inv, of "c_push c"] by auto
  qed
qed

text \<open>The parts of \<open>start_push\<close> and \<open>batch\<close>, for the proofs about them.\<close>

lemma start_push_shape:
  assumes "start_push s k r ord tot before = (pid, s')"
  obtains s1 s2 p st s4 where
    "s1 = s \<or> (\<exists>b bp. before = Some b \<and> js_get (objs s) b = Some bp \<and>
        s1 = enqueue (chain bp) (JEnd b False) (s\<lparr>pushes := js_delete (pushes s) k\<rparr>))"
    "s2 = s1 \<or> s2 = s1\<lparr>claims := js_delete (claims s1) k\<rparr>"
    "key p = k" "proom p = r" "next_index p = 0" "ppending p = []" "pfloors p = []" "\<not> overflowed p" "outcomes p = []"
    "pid = next_obj s2"
    "room_of (s2\<lparr>objs := js_set (objs s2) (next_obj s2) p, next_obj := Suc (next_obj s2),
                 pushes := js_set (pushes s2) k (next_obj s2)\<rparr>) r = (st, s4)"
    "s' = s4\<lparr>rooms := js_set (rooms s4) r (st\<lparr>open_pushes := set_add (open_pushes st) pid\<rparr>)\<rparr>"
proof -
  define s1 where "s1 = (case before of
                  None \<Rightarrow> s
                | Some b \<Rightarrow>
                    (case js_get (objs s) b of
                       None \<Rightarrow> s
                     | Some bp \<Rightarrow> enqueue (chain bp) (JEnd b False) (s\<lparr>pushes := js_delete (pushes s) k\<rparr>)))"
  define q where "q = (case before of
                 None \<Rightarrow> next_obj s1
               | Some b \<Rightarrow> (case js_get (objs s) b of None \<Rightarrow> next_obj s1 | Some bp \<Rightarrow> chain bp))"
  define p where "p = \<lparr>key = k, proom = r, first = ord, phase = ord, next_index = 0, total = tot,
               broken = False, partial = js_get (claims s1) k \<noteq> None, ppending = [], pfloors = [], overflowed = False,
               chain = q, timer = False, ended = False, outcomes = []\<rparr>"
  define s2 where "s2 = (if ord \<noteq> None \<and> js_get (claims s1) k \<noteq> None
                         then s1\<lparr>claims := js_delete (claims s1) k\<rparr> else s1)"
  have n2: "next_obj s2 = next_obj s1" by (simp add: s2_def)
  define s3 where "s3 = s2\<lparr>objs := js_set (objs s2) (next_obj s1) p, next_obj := Suc (next_obj s1),
                           pushes := js_set (pushes s2) k (next_obj s1)\<rparr>"
  obtain st s4 where s4: "room_of s3 r = (st, s4)" by force
  have "pid = next_obj s1"
    "s' = s4\<lparr>rooms := js_set (rooms s4) r (st\<lparr>open_pushes := set_add (open_pushes st) pid\<rparr>)\<rparr>"
    using assms s4 unfolding start_push_def Let_def s1_def [symmetric] q_def [symmetric] p_def [symmetric]
      s2_def [symmetric] s3_def [symmetric] by auto
  moreover have "s1 = s \<or> (\<exists>b bp. before = Some b \<and> js_get (objs s) b = Some bp \<and>
        s1 = enqueue (chain bp) (JEnd b False) (s\<lparr>pushes := js_delete (pushes s) k\<rparr>))"
    by (auto simp: s1_def split: option.splits)
  moreover have "s2 = s1 \<or> s2 = s1\<lparr>claims := js_delete (claims s1) k\<rparr>" by (simp add: s2_def)
  ultimately show thesis using s4 n2 by (intro that [of s1 s2 p st s4]) (simp_all add: p_def s3_def)
qed

lemma start_push_ok:
  assumes inv: "inbound_inv s" and res: "start_push s k r ord tot before = (pid, s')"
  shows "inbound_inv s' \<and> js_get (pushes s') k = Some pid \<and> (\<exists>p. js_get (objs s') pid = Some p)"
  using res
proof (rule start_push_shape)
  fix s1 s2 :: InboundPushes and p st s4
  let ?s3 = "s2\<lparr>objs := js_set (objs s2) (next_obj s2) p, next_obj := Suc (next_obj s2),
                pushes := js_set (pushes s2) k (next_obj s2)\<rparr>"
  assume s1: "s1 = s \<or> (\<exists>b bp. before = Some b \<and> js_get (objs s) b = Some bp \<and>
        s1 = enqueue (chain bp) (JEnd b False) (s\<lparr>pushes := js_delete (pushes s) k\<rparr>))"
    and s2: "s2 = s1 \<or> s2 = s1\<lparr>claims := js_delete (claims s1) k\<rparr>"
    and p: "key p = k" "proom p = r" "next_index p = 0" "ppending p = []" "\<not> overflowed p" "outcomes p = []"
    and pid: "pid = next_obj s2" and s4: "room_of ?s3 r = (st, s4)"
    and s': "s' = s4\<lparr>rooms := js_set (rooms s4) r (st\<lparr>open_pushes := set_add (open_pushes st) pid\<rparr>)\<rparr>"
  have "inbound_inv (enqueue (chain bp) (JEnd b False) (s\<lparr>pushes := js_delete (pushes s) k\<rparr>))"
    if "js_get (objs s) b = Some bp" for b bp
    by (rule enqueue_inv [OF delete_push_inv [OF inv]]) (use that in auto)
  then have "inbound_inv s1" using s1 inv by blast
  moreover have "same_core s1 s2" using s2 by auto
  ultimately have "inbound_inv s2" using same_core_inv by blast
  then have i3: "inbound_inv ?s3" using p by (intro new_push_inv)
  have "same_core ?s3 s4" using room_of_core [of ?s3 r] unfolding s4 by simp
  then have c: "same_core ?s3 s'" unfolding s' by (rule same_core_trans) (rule same_core_fields)
  moreover have "js_get (pushes ?s3) k = Some pid" "js_get (objs ?s3) pid = Some p" using pid by simp_all
  ultimately show ?thesis using same_core_inv [OF c i3] by (auto simp: same_core_def)
qed

lemma same_core_enqueue: "same_core s s' \<Longrightarrow> same_core (enqueue q j s) (enqueue q j s')"
  by (auto simp: same_core_def enqueue_def)

lemma arm_take_core:
  "same_core (upd_push pid (\<lambda>p. (take_frame p f)\<lparr>timer := True\<rparr>) s)
     (arm (upd_push pid (\<lambda>p. take_frame p f) s) pid)"
  by (auto simp: same_core_def arm_def upd_push_get fun_eq_iff option.map_comp comp_def)

lemma arm_inv: "inbound_inv s \<Longrightarrow> inbound_inv (arm s pid)"
  unfolding arm_def by (rule upd_push_plain_inv) simp_all

lemma batch_shape:
  obtains pid s1 where
    "(s1 = s \<and> js_get (pushes s) (push_key peer r) = Some pid) \<or>
     (\<exists>t ord tot. start_push s (push_key peer r) r ord tot (js_get (pushes s) (push_key peer r)) = (pid, t) \<and>
        (s1 = t \<or> s1 = upd_push pid (\<lambda>p. p\<lparr>broken := True\<rparr>) t))"
    "batch s peer r f =
       (let s3 = answered (arm (upd_push pid (\<lambda>p. take_frame p f) s1) pid) peer r None
        in case js_get (objs s3) pid of
             None \<Rightarrow> s3
           | Some p \<Rightarrow>
               let s4 = enqueue (chain p) (JBatch pid (parse_order (frame_order f)) (frame_index f)) s3
               in if 0 < total p \<and> total p \<le> next_index p then finish s4 pid else s4)"
proof -
  define k where "k = push_key peer r"
  define ff where "ff \<longleftrightarrow> valid_frame f \<and> frame_index f = 0"
  define o' where "o' = parse_order (frame_order f)"
  define tot where "tot = (if valid_frame f then frame_total f else 0)"
  obtain pid s1 where s1: "(if js_get (pushes s) k = None \<or> ff
             then (let (pid, s1) = start_push s k r o' tot (js_get (pushes s) k)
                   in (pid, if ff then s1 else upd_push pid (\<lambda>p. p\<lparr>broken := True\<rparr>) s1))
             else (the (js_get (pushes s) k), s)) = (pid, s1)" by force
  have "(s1 = s \<and> js_get (pushes s) k = Some pid) \<or>
     (\<exists>t ord tot. start_push s k r ord tot (js_get (pushes s) k) = (pid, t) \<and>
        (s1 = t \<or> s1 = upd_push pid (\<lambda>p. p\<lparr>broken := True\<rparr>) t))"
  proof (cases "js_get (pushes s) k = None \<or> ff")
    case True
    obtain pid' t where t: "start_push s k r o' tot (js_get (pushes s) k) = (pid', t)" by force
    then have "pid' = pid" "s1 = t \<or> s1 = upd_push pid (\<lambda>p. p\<lparr>broken := True\<rparr>) t"
      using s1 True by (auto split: if_splits)
    with t show ?thesis by blast
  qed (use s1 in auto)
  then show thesis
    by (rule that [of s1 pid, folded k_def])
      (simp only: batch_def Let_def k_def [symmetric] o'_def [symmetric] ff_def [symmetric]
        tot_def [symmetric] s1 [unfolded Let_def] prod.case)
qed

lemma batch_inv:
  assumes inv: "inbound_inv s"
  shows "inbound_inv (batch s peer r f)"
proof (rule batch_shape [of s peer r f])
  fix pid s1
  let ?k = "push_key peer r" and ?o = "parse_order (frame_order f)"
  let ?s3 = "answered (arm (upd_push pid (\<lambda>p. take_frame p f) s1) pid) peer r None"
  assume s1: "(s1 = s \<and> js_get (pushes s) ?k = Some pid) \<or>
     (\<exists>t ord tot. start_push s ?k r ord tot (js_get (pushes s) ?k) = (pid, t) \<and>
        (s1 = t \<or> s1 = upd_push pid (\<lambda>p. p\<lparr>broken := True\<rparr>) t))"
    and b: "batch s peer r f = (let s3 = ?s3 in case js_get (objs s3) pid of None \<Rightarrow> s3
           | Some p \<Rightarrow> let s4 = enqueue (chain p) (JBatch pid ?o (frame_index f)) s3
               in if 0 < total p \<and> total p \<le> next_index p then finish s4 pid else s4)"
  have "inbound_inv s1 \<and> js_get (pushes s1) ?k = Some pid \<and> (\<exists>p. js_get (objs s1) pid = Some p)"
    using s1 inv inv_live [OF inv, of ?k pid] start_push_ok [OF inv]
      upd_push_plain_inv [of _ "\<lambda>p. p\<lparr>broken := True\<rparr>" pid] by (auto simp: upd_push_get)
  then obtain p where i1: "inbound_inv s1" "js_get (pushes s1) ?k = Some pid" and p: "js_get (objs s1) pid = Some p"
    by blast
  have c3: "same_core (upd_push pid (\<lambda>p. (take_frame p f)\<lparr>timer := True\<rparr>) s1) ?s3"
    by (rule same_core_trans [OF arm_take_core answered_core])
  then have "js_get (objs ?s3) pid = Some ((take_frame p f)\<lparr>timer := True\<rparr>)"
    using p by (simp add: same_core_def upd_push_get)
  then obtain p3 where p3: "js_get (objs ?s3) pid = Some p3" "chain p3 = chain p"
    by (simp add: take_frame_def Let_def)
  have i4: "inbound_inv (enqueue (chain p) (JBatch pid ?o (frame_index f)) ?s3)"
    by (rule same_core_inv [OF same_core_enqueue [OF c3] enqueue_frame_inv]) (use i1 p in auto)
  then show ?thesis unfolding b Let_def p3 option.case by (intro inv_if finish_inv)
qed

lemma complete_inv:
  assumes inv: "inbound_inv s"
  shows "inbound_inv (complete s peer r)"
proof -
  have "inbound_inv (case js_get (pushes s) (push_key peer r) of None \<Rightarrow> s
      | Some pid \<Rightarrow> (case js_get (objs s) pid of None \<Rightarrow> s | Some p \<Rightarrow> if broken p then finish s pid else arm s pid))"
    using inv finish_inv arm_inv by (auto split: option.splits)
  then show ?thesis unfolding complete_def Let_def by (rule same_core_inv [OF answered_core])
qed

lemma js_get_map: "js_get (map (\<lambda>(k, v). (k, g k v)) m) k = map_option (g k) (js_get m k)"
  by (induction m) auto

lemma reset_inv:
  assumes inv: "inbound_inv s"
  shows "inbound_inv (reset s)"
proof -
  let ?g = "\<lambda>pid p. if pid \<in> snd ` set (pushes s) then p\<lparr>timer := False, ended := True\<rparr> else p"
  have get: "js_get (objs (reset s)) pid = map_option (?g pid) (js_get (objs s) pid)" for pid
    unfolding reset_def by (simp add: js_get_map)
  have jk: "job_ok (?g x p) j = job_ok p j" for x p j by (cases j) simp_all
  have pk: "push_ok (?g x p) w = push_ok p w" for x p w by (simp add: push_ok_def floors_cover_def pending_from_def)
  have ck: "commit_ok (?g x p) c = commit_ok p c" for x p c by (simp add: commit_ok_def)
  have ch: "chain (?g x p) = chain p" for x p by simp
  have rest: "next_obj (reset s) = next_obj s" "queues (reset s) = queues s" "pushes (reset s) = []"
    "log (reset s) = log s" by (simp_all add: reset_def)
  show ?thesis unfolding inbound_inv_def rest
  proof (intro conjI allI impI ballI)
    fix x p assume "js_get (objs (reset s)) x = Some p"
    then obtain p0 where "js_get (objs s) x = Some p0" "p = ?g x p0" unfolding get by auto
    with inv_obj [OF inv] show "x < next_obj s" "push_ok p (queued x (queue s (chain p)))"
      by (simp_all only: pk ch)
  next
    fix q show "fifo (queue s q)" by (rule inv_fifo [OF inv])
  next
    fix q j assume "j \<in> set (queue s q)"
    from inv_job [OF inv this] obtain p where "js_get (objs s) (job_push j) = Some p" "chain p = q" "job_ok p j" by blast
    then show "\<exists>p. js_get (objs (reset s)) (job_push j) = Some p \<and> chain p = q \<and> job_ok p j"
      unfolding get by (simp only: option.map option.inject) (metis jk ch)
  next
    fix c assume "Commit c \<in> set (log s)"
    from inv_log [OF inv this] obtain p where "js_get (objs s) (c_push c) = Some p" "commit_ok p c" by blast
    then show "\<exists>p. js_get (objs (reset s)) (c_push c) = Some p \<and> commit_ok p c"
      unfolding get by (simp only: option.map option.inject) (metis ck)
  qed simp_all
qed

subsection \<open>The jobs\<close>

lemma set_head_same_core: "same_core s s' \<Longrightarrow> same_core (set_head q js s) (set_head q js s')"
  by (auto simp: same_core_def set_head_def)

lemma set_head_emit: "set_head q js (emit e s) = emit e (set_head q js s)"
  by (simp add: set_head_def emit_def)

lemma push_ok_head:
  assumes inv: "inbound_inv s" and q: "queue s q = j # js" and p: "js_get (objs s) (job_push j) = Some p"
  shows "push_ok p (batch_idx (job_push j) j @ queued (job_push j) js)"
proof -
  have "chain p = q" using inv_job [OF inv, of j q] q p by auto
  with inv_obj [OF inv p] q show ?thesis by simp
qed

lemma job_obj:
  assumes "inbound_inv s" and "queue s q = j # js"
  obtains p where "js_get (objs s) (job_push j) = Some p" "job_ok p j"
  using inv_job [OF assms(1), of j q] assms(2) by auto

lemma swap_head_inv:
  assumes inv: "inbound_inv s" and q: "queue s q = j # js"
    and j: "\<And>pid. batch_idx pid j = []" and h: "set h \<subseteq> {j'}" "length h \<le> 1"
    and j': "job_push j' = job_push j" "\<And>pid. batch_idx pid j' = []" "\<And>pid. closes pid j' \<Longrightarrow> closes pid j"
      "\<And>p. js_get (objs s) (job_push j) = Some p \<Longrightarrow> h \<noteq> [] \<Longrightarrow> job_ok p j'"
  shows "inbound_inv (set_head q (h @ js) s)"
proof -
  obtain p where p: "js_get (objs s) (job_push j) = Some p" using job_obj [OF inv q] by blast
  have "push_ok p (queued (job_push j) js)" using push_ok_head [OF inv q p] j by simp
  then have "inbound_inv (set_head q (h @ js) (upd_push (job_push j) (\<lambda>p. p) s))"
    by (intro set_head_inv [OF inv q h(1) p j'(1,2,3)]) (use j' p h in auto)
  moreover have "same_core (set_head q (h @ js) (upd_push (job_push j) (\<lambda>p. p) s)) (set_head q (h @ js) s)"
    using set_head_same_core [OF upd_push_id_core] by (auto simp: same_core_def)
  ultimately show ?thesis using same_core_inv by blast
qed

lemma pop_inv:
  assumes "inbound_inv s" "queue s q = j # js" "\<And>pid. batch_idx pid j = []"
  shows "inbound_inv (set_head q js s)"
  using swap_head_inv [OF assms, of "[]" j] assms(3) by simp

lemma pop_broken_inv:
  assumes inv: "inbound_inv s" and q: "queue s q = j # js"
  shows "inbound_inv (set_head q js (upd_push (job_push j) (\<lambda>p. p\<lparr>broken := True\<rparr>) s))"
proof -
  obtain p where p: "js_get (objs s) (job_push j) = Some p" using job_obj [OF inv q] by blast
  have "push_ok (p\<lparr>broken := True\<rparr>) (queued (job_push j) js)"
    using push_ok_head [OF inv q p] by (auto simp: push_ok_def floors_cover_def pending_from_def)
  then have "inbound_inv (set_head q ([] @ js) (upd_push (job_push j) (\<lambda>p. p\<lparr>broken := True\<rparr>) s))"
    by (intro set_head_inv [OF inv q, where j' = "JEnd (job_push j) False"]) (use p in auto)
  then show ?thesis by simp
qed

lemma batch_job_inv:
  assumes inv: "inbound_inv s" and q: "queue s q = JBatch pid ord i # js"
    and p: "js_get (objs s) pid = Some p" and acc: "account p ord oc = (p', cs)"
  defines "p'' \<equiv> p'\<lparr>outcomes := outcomes p @ [(i, ord, oc)]\<rparr>"
  shows "inbound_inv (set_head q (if cs = [] then js else JCommit pid cs (outcomes p'') # js)
           (upd_push pid (\<lambda>_. p'') s))"
proof -
  let ?j = "JBatch pid ord i" and ?j' = "JCommit pid cs (outcomes p'')"
  have ok: "push_ok p (i # queued pid js)" using push_ok_head [OF inv q] p by simp
  have "push_ok p'' (queued pid js)" unfolding p''_def by (rule account_ok [OF ok acc])
  moreover have "job_ok p ?j'" using account_commits [OF ok acc] by (simp add: p''_def)
  ultimately have "inbound_inv (set_head q ((if cs = [] then [] else [?j']) @ js) (upd_push (job_push ?j) (\<lambda>_. p'') s))"
    by (intro set_head_inv [OF inv q, where j' = ?j']) (use p account_keeps [OF acc] in \<open>auto simp: p''_def\<close>)
  then show ?thesis by (simp split: if_splits)
qed

lemma commit_job_inv:
  assumes inv: "inbound_inv s" and q: "queue s q = j # js" and p: "js_get (objs s) pid = Some p"
    and j: "j = JCommit pid (c # cs) b \<or> j = JFinCommit pid (c # cs) b"
    and h: "h = [] \<or> h = [if j = JCommit pid (c # cs) b then JCommit pid cs b else JFinCommit pid cs b]"
  shows "inbound_inv (set_head q (h @ js) (emit (commit_of p pid c b) s))"
proof -
  have ok: "job_ok p j" using job_obj [OF inv q] p j by (metis job_push.simps(2,4) option.inject)
  let ?j' = "if j = JCommit pid (c # cs) b then JCommit pid cs b else JFinCommit pid cs b"
  have i: "inbound_inv (set_head q (h @ js) s)"
    by (rule swap_head_inv [OF inv q, where j' = ?j']) (use j h ok p in \<open>auto split: if_splits\<close>)
  have "commit_ok p \<lparr>c_room = proom p, c_sender = fst c, c_lamport = snd c, c_push = pid, basis = b\<rparr>"
    using ok j by (auto simp: commit_ok_def)
  then show ?thesis unfolding set_head_emit commit_of_def
    by (intro emit_commit_inv [OF i]) (use p in simp_all)
qed

lemma finish_job_inv:
  assumes inv: "inbound_inv s" and q: "queue s q = JFinish pid # js" and p: "js_get (objs s) pid = Some p"
    and whole: "\<not> broken p" "next_index p = total p"
  shows "inbound_inv (set_head q (JFinCommit pid (claimable (entries (ppending p)) (pfloors p)) (outcomes p) # js) s)"
    (is "inbound_inv (set_head q (?j' # js) s)")
proof -
  have "queued pid js = []" using fifo_closed [of "JFinish pid" js pid] inv_fifo [OF inv, of q] q by simp
  then have "push_ok p []" using push_ok_head [OF inv q] p by simp
  from finish_commits [OF this whole] have "job_ok p ?j'" by simp
  then have "inbound_inv (set_head q ([?j'] @ js) s)"
    by (intro swap_head_inv [OF inv q, where j' = ?j']) (use p in auto)
  then show ?thesis by simp
qed

lemma run_job_inv:
  assumes inv: "inbound_inv s"
  shows "inbound_inv (run_job s q ans)"
proof (cases "queue s q")
  case Nil
  with inv show ?thesis by simp
next
  case q: (Cons j js)
  note pop = end_push_inv [OF pop_inv [OF inv q]]
  show ?thesis
  proof (cases j)
    case j: (JBatch pid ord i)
    obtain p where p: "js_get (objs s) pid = Some p" using job_obj [OF inv q] j by auto
    show ?thesis
    proof (cases ans)
      case (Outcome r)
      then show ?thesis
        using pop_broken_inv [OF inv q] batch_job_inv [OF inv q [unfolded j] p] inv p q j
        by (cases r) (auto split: prod.splits simp: Let_def)
    qed (use inv p q j in simp_all)
  next
    case j: (JCommit pid cs b)
    obtain p where p: "js_get (objs s) pid = Some p" using job_obj [OF inv q] j by auto
    show ?thesis
    proof (cases cs)
      case Nil
      then show ?thesis using pop_inv [OF inv q] j q by simp
    next
      case (Cons c ds)
      have "inbound_inv (set_head q ((if ds = [] then [] else [JCommit pid ds b]) @ js) (emit (commit_of p pid c b) s))"
        by (rule commit_job_inv [OF inv q p]) (auto simp: j Cons)
      then show ?thesis using pop_broken_inv [OF inv q] inv p q j Cons
        by (auto split: answer.splits bool.splits if_splits)
    qed
  next
    case j: (JFinish pid)
    obtain p where p: "js_get (objs s) pid = Some p" using job_obj [OF inv q] j by auto
    show ?thesis using finish_job_inv [OF inv q [unfolded j] p] pop p q j by simp
  next
    case j: (JFinCommit pid cs b)
    obtain p where p: "js_get (objs s) pid = Some p" using job_obj [OF inv q] j by auto
    show ?thesis
    proof (cases cs)
      case Nil
      then show ?thesis using pop j q by simp
    next
      case (Cons c ds)
      have "inbound_inv (set_head q ([JFinCommit pid ds b] @ js) (emit (commit_of p pid c b) s))"
        by (rule commit_job_inv [OF inv q p]) (auto simp: j Cons)
      then show ?thesis using pop inv p q j Cons by (auto split: answer.splits bool.splits)
    qed
  next
    case j: (JEnd pid d)
    then show ?thesis using pop q by simp
  qed
qed

lemma init_inv: "inbound_inv init_inbound"
  by (simp add: inbound_inv_def init_inbound_def js_get_or_def)

theorem reachable_inv: "inbound_reachable s \<Longrightarrow> inbound_inv s"
proof (induction rule: inbound_reachable.induct)
  case start
  show ?case by (rule init_inv)
next
  case (step s e)
  then show ?case
    by (cases e) (simp_all add: same_core_inv [OF expect_core] same_core_inv [OF answered_core]
      expect_timeout_def batch_inv complete_inv stall_timeout_inv run_job_inv reset_inv
      del: run_job.simps split: option.splits)
qed

section \<open>What every watermark write has behind it\<close>

definition held_in :: "done_batch list \<Rightarrow> string \<times> int \<Rightarrow> bool" where
  "held_in b c \<longleftrightarrow> list_ex (\<lambda>(i, ord, oc). c \<in> set (valid_pairs oc)) b"

lemma held_inI: "(i, ord, oc) \<in> set b \<Longrightarrow> c \<in> set (valid_pairs oc) \<Longrightarrow> held_in b c"
  by (auto simp: held_in_def list_ex_iff)

lemma commit_ok_basis:
  assumes "commit_ok p c"
  shows "in_order (basis c) \<and> held_in (basis c) (c_sender c, c_lamport c) \<and>
         below_floors (basis c) (c_sender c, c_lamport c) \<and>
         (fst (snd (last (basis c))) = Some Asc \<or> total p = length (basis c))"
proof -
  have asc: "held_in b x" if "asc_basis b x" for b x
  proof -
    obtain i ord oc where l: "last b = (i, ord, oc)" by (cases "last b") auto
    then have "(i, ord, oc) \<in> set b" using that last_in_set unfolding asc_basis_def by metis
    with l that show ?thesis by (auto simp: asc_basis_def intro: held_inI)
  qed
  from assms consider "asc_basis (basis c) (c_sender c, c_lamport c)"
    | "full_basis (basis c) (c_sender c, c_lamport c)" "total p = length (basis c)"
    unfolding commit_ok_def by blast
  then show ?thesis
  proof cases
    case 1
    with asc [OF 1] show ?thesis by (simp add: asc_basis_def)
  next
    case 2
    then show ?thesis by (auto simp: full_basis_def intro: held_inI)
  qed
qed

fun inbound_run :: "InboundPushes \<Rightarrow> inbound_event list \<Rightarrow> InboundPushes" where
  "inbound_run s [] = s"
| "inbound_run s (e # es) = inbound_run (inbound_step s e) es"

lemma run_reachable: "inbound_reachable s \<Longrightarrow> inbound_reachable (inbound_run s es)"
  by (induction es arbitrary: s) (auto intro: inbound_reachable.step)

definition demo_outcome :: "int \<Rightarrow> BatchOutcome" where
  "demo_outcome l = \<lparr>held = [\<lparr>hr_sender = JStr ''a'', hr_lamport = JNum (JInt l)\<rparr>], floors = []\<rparr>"

definition demo_frame :: "int \<Rightarrow> PushFrame" where
  "demo_frame i = \<lparr>batchIndex = JNum (JInt i), totalBatches = JNum (JInt 2), frame_order = JStr ''asc''\<rparr>"

definition demo_state :: InboundPushes where
  "demo_state = inbound_run init_inbound
     [Frame ''p'' ''r'' (demo_frame 0), Job 0 (Outcome (Some (demo_outcome 4))), Job 0 (Written True),
      Frame ''p'' ''r'' (demo_frame 1), Job 0 (Outcome (Some (demo_outcome 7))), Job 0 (Written True)]"

definition demo_commit :: commit_call where
  "demo_commit = \<lparr>c_room = ''r'', c_sender = ''a'', c_lamport = 7, c_push = 0,
     basis = [(0, Some Asc, demo_outcome 4), (1, Some Asc, demo_outcome 7)]\<rparr>"

lemma demo_reachable: "inbound_reachable demo_state"
  unfolding demo_state_def by (intro run_reachable inbound_reachable.start)

lemma demo_committed: "Commit demo_commit \<in> set (log demo_state)"
  by code_simp

text \<open>C2: a watermark is written only on proof: in every interleaving of frames, timers, store
  results and resets, behind each write are batches of its push handled in order with none
  missing, one of which holds the row claimed; the row lies below every row of its sender that
  failed verification; and either the last of those batches was an oldest-first one or they are
  all the batches the push announced.\<close>

theorem commit_rests_on_prefix:
  assumes "inbound_reachable s" and "Commit c \<in> set (log s)"
  shows "\<exists>p. js_get (objs s) (c_push c) = Some p \<and> c_room c = proom p \<and> in_order (basis c) \<and>
     held_in (basis c) (c_sender c, c_lamport c) \<and> below_floors (basis c) (c_sender c, c_lamport c) \<and>
     (fst (snd (last (basis c))) = Some Asc \<or> total p = length (basis c))"
  using inv_log [OF reachable_inv [OF assms(1)] assms(2)] commit_ok_basis
  by (auto simp: commit_ok_def)

theorem commit_rests_on_prefix_witness:
  "\<exists>p. js_get (objs demo_state) (c_push demo_commit) = Some p \<and> c_room demo_commit = proom p \<and>
     in_order (basis demo_commit) \<and>
     held_in (basis demo_commit) (c_sender demo_commit, c_lamport demo_commit) \<and>
     below_floors (basis demo_commit) (c_sender demo_commit, c_lamport demo_commit) \<and>
     (fst (snd (last (basis demo_commit))) = Some Asc \<or> total p = length (basis demo_commit))"
  by (rule commit_rests_on_prefix [OF demo_reachable demo_committed])

end
