(* ===== verification/Sync_Inbound_Rooms.thy ===== *)
theory Sync_Inbound_Rooms
  imports Sync_Inbound_Safety
begin

text \<open>
  The other two things \<open>InboundPushes\<close> is trusted with: a room's watermark advances wait for as
  long as a push into it is open (\<open>room_inv\<close>), and what a peer sends cannot make the
  per-peer tables grow without bound (\<open>bounds_inv\<close>).
\<close>

section \<open>Holding a room\<close>

definition held_now :: "string \<Rightarrow> effect list \<Rightarrow> bool" where
  "held_now r es \<longleftrightarrow> (let xs = filter (\<lambda>e. e = Hold r \<or> e = Release r) es in xs \<noteq> [] \<and> last xs = Hold r)"

lemma held_now_snoc [simp]:
  "held_now r (es @ [Hold r']) \<longleftrightarrow> r' = r \<or> held_now r es"
  "held_now r (es @ [Release r']) \<longleftrightarrow> r' \<noteq> r \<and> held_now r es"
  "held_now r (es @ [Commit c]) \<longleftrightarrow> held_now r es"
  by (auto simp: held_now_def Let_def)

definition room_inv :: "InboundPushes \<Rightarrow> bool" where
  "room_inv s \<longleftrightarrow>
     (\<forall>r st. js_get (rooms s) r = Some st \<longrightarrow> held_now r (log s)) \<and>
     (\<forall>k pid. js_get (pushes s) k = Some pid \<longrightarrow>
        (\<exists>p st. js_get (objs s) pid = Some p \<and> key p = k \<and>
                js_get (rooms s) (proom p) = Some st \<and> pid \<in> set (open_pushes st)))"

lemma room_invD:
  assumes "room_inv s"
  shows room_held: "\<And>r st. js_get (rooms s) r = Some st \<Longrightarrow> held_now r (log s)"
    and room_open: "\<And>k pid. js_get (pushes s) k = Some pid \<Longrightarrow>
      \<exists>p st. js_get (objs s) pid = Some p \<and> key p = k \<and>
             js_get (rooms s) (proom p) = Some st \<and> pid \<in> set (open_pushes st)"
  using assms unfolding room_inv_def by blast+

text \<open>Steps that touch neither the rooms nor the holds.\<close>

definition rooms_alone :: "InboundPushes \<Rightarrow> InboundPushes \<Rightarrow> bool" where
  "rooms_alone s s' \<longleftrightarrow> rooms s' = rooms s \<and>
     (\<forall>r. held_now r (log s') \<longleftrightarrow> held_now r (log s)) \<and>
     (\<forall>k pid. js_get (pushes s') k = Some pid \<longrightarrow> js_get (pushes s) k = Some pid) \<and>
     (\<forall>pid p. js_get (objs s) pid = Some p \<longrightarrow>
        (\<exists>p'. js_get (objs s') pid = Some p' \<and> key p' = key p \<and> proom p' = proom p))"

lemma rooms_alone_inv: "rooms_alone s s' \<Longrightarrow> room_inv s \<Longrightarrow> room_inv s'"
  unfolding room_inv_def rooms_alone_def by metis

lemma rooms_alone_trans [trans]:
  assumes "rooms_alone s t" and "rooms_alone t u"
  shows "rooms_alone s u"
proof -
  have "\<exists>p''. js_get (objs u) pid = Some p'' \<and> key p'' = key p \<and> proom p'' = proom p"
    if "js_get (objs s) pid = Some p" for pid p
  proof -
    obtain p' where "js_get (objs t) pid = Some p'" "key p' = key p" "proom p' = proom p"
      using assms(1) \<open>js_get (objs s) pid = Some p\<close> unfolding rooms_alone_def by blast
    then show ?thesis using assms(2) unfolding rooms_alone_def by fastforce
  qed
  with assms show ?thesis unfolding rooms_alone_def by simp
qed

lemma rooms_alone_refl [simp]: "rooms_alone s s"
  by (simp add: rooms_alone_def)

lemma rooms_alone_basic [simp]:
  "rooms_alone s (s\<lparr>claims := c\<rparr>)" "rooms_alone s (s\<lparr>finishing := f\<rparr>)" "rooms_alone s (s\<lparr>nonces := n\<rparr>)"
  "rooms_alone s (enqueue q j s)" "rooms_alone s (set_head q js s)" "rooms_alone s (emit (Commit cc) s)"
  "rooms_alone s (s\<lparr>pushes := js_delete (pushes s) k\<rparr>)"
  by (auto simp: rooms_alone_def enqueue_def set_head_def emit_def split: if_splits)

lemma rooms_alone_upd:
  "(\<And>p. js_get (objs s) pid = Some p \<Longrightarrow> key (f p) = key p \<and> proom (f p) = proom p) \<Longrightarrow>
   rooms_alone s (upd_push pid f s)"
  by (auto simp: rooms_alone_def upd_push_get)

lemma rooms_alone_if: "rooms_alone s a \<Longrightarrow> rooms_alone s b \<Longrightarrow> rooms_alone s (if c then a else b)"
  by (cases c) simp_all

lemma rooms_alone_claim: "rooms_alone s (claim s p)"
  unfolding claim_def Let_def by (auto split: prod.splits)

lemma settle_room_inv:
  assumes "room_inv s"
  shows "room_inv (settle s r)"
proof (cases "js_get (rooms s) r")
  case None
  with assms show ?thesis by (simp add: settle_def)
next
  case (Some st)
  show ?thesis
  proof (cases "open_pushes st \<noteq> [] \<or> owed st \<or> expecting st \<noteq> []")
    case True
    with assms Some show ?thesis by (auto simp: settle_def)
  next
    case False
    then have eq: "settle s r = emit (Release r) (s\<lparr>rooms := js_delete (rooms s) r\<rparr>)"
      using Some by (simp add: settle_def)
    have held: "held_now x (log (settle s r))" if x: "js_get (rooms (settle s r)) x = Some y" for x y
      using x room_held [OF assms, of x y] by (simp add: eq emit_def split: if_splits)
    have "\<exists>p st. js_get (objs (settle s r)) pid = Some p \<and> key p = k \<and>
        js_get (rooms (settle s r)) (proom p) = Some st \<and> pid \<in> set (open_pushes st)"
      if k: "js_get (pushes (settle s r)) k = Some pid" for k pid
    proof -
      have "js_get (pushes s) k = Some pid" using k by (simp add: eq emit_def)
      then obtain p st' where p: "js_get (objs s) pid = Some p" "key p = k"
          "js_get (rooms s) (proom p) = Some st'" "pid \<in> set (open_pushes st')"
        using room_open [OF assms] by blast
      then have "proom p \<noteq> r" using Some False by auto
      with p show ?thesis by (simp add: eq emit_def)
    qed
    with held show ?thesis unfolding room_inv_def by blast
  qed
qed

text \<open>A room's state changes, and every live push keeps its place in it.\<close>

lemma set_room_inv:
  assumes inv: "room_inv s" and old: "js_get (rooms s) r = Some st"
    and keep: "\<And>k pid. js_get (pushes s) k = Some pid \<Longrightarrow> pid \<in> set (open_pushes st) \<Longrightarrow> pid \<in> set (open_pushes st')"
  shows "room_inv (s\<lparr>rooms := js_set (rooms s) r st'\<rparr>)"
  unfolding room_inv_def
proof (intro conjI allI impI)
  fix r' x assume "js_get (rooms (s\<lparr>rooms := js_set (rooms s) r st'\<rparr>)) r' = Some x"
  then show "held_now r' (log (s\<lparr>rooms := js_set (rooms s) r st'\<rparr>))"
    using room_held [OF inv] old by (auto split: if_splits)
next
  fix k pid assume "js_get (pushes (s\<lparr>rooms := js_set (rooms s) r st'\<rparr>)) k = Some pid"
  then have k: "js_get (pushes s) k = Some pid" by simp
  from room_open [OF inv k] keep [OF k] old
  show "\<exists>p st. js_get (objs (s\<lparr>rooms := js_set (rooms s) r st'\<rparr>)) pid = Some p \<and> key p = k \<and>
      js_get (rooms (s\<lparr>rooms := js_set (rooms s) r st'\<rparr>)) (proom p) = Some st \<and> pid \<in> set (open_pushes st)"
    by (auto split: if_splits)
qed

lemma answered_room_inv:
  assumes "room_inv s"
  shows "room_inv (answered s peer r n)"
proof (cases "js_get (rooms s) r")
  case None
  with assms show ?thesis by (simp add: answered_def)
next
  case (Some st)
  then have "room_inv (settle (s\<lparr>rooms := js_set (rooms s) r (st\<lparr>expecting := js_delete (expecting st) peer\<rparr>)\<rparr>) r)"
    by (intro settle_room_inv set_room_inv [OF assms]) simp_all
  with Some assms show ?thesis by (auto simp: answered_def split: option.splits)
qed

lemma room_of_inv:
  assumes "room_inv s" and "room_of s r = (st, s')"
  shows "room_inv s' \<and> js_get (rooms s') r = Some st"
proof (cases "js_get (rooms s) r")
  case None
  then have s': "s' = emit (Hold r) (s\<lparr>rooms := js_set (rooms s) r st\<rparr>)"
    using assms(2) by (auto simp: room_of_def Let_def)
  have "js_get (rooms s') x = (if x = r then Some st else js_get (rooms s) x)" for x
    by (auto simp: s' emit_def)
  moreover have "held_now x (log s') \<longleftrightarrow> x = r \<or> held_now x (log s)" for x by (auto simp: s' emit_def)
  moreover have "pushes s' = pushes s" "objs s' = objs s" by (simp_all add: s' emit_def)
  ultimately show ?thesis using assms(1) None unfolding room_inv_def by fastforce
next
  case (Some x)
  then have "s' = emit (Hold r) s" "st = x" using assms(2) by (auto simp: room_of_def)
  with Some show ?thesis using assms(1) by (auto simp: room_inv_def emit_def)
qed

lemma expect_room_inv:
  assumes "room_inv s"
  shows "room_inv (snd (expect_push s peer r))"
proof -
  obtain st s1 where s1: "room_of s r = (st, s1)" by force
  note r = room_of_inv [OF assms s1]
  let ?t = "s1\<lparr>nonces := Suc (nonces s1)\<rparr>"
  have t: "room_inv ?t" by (rule rooms_alone_inv [OF rooms_alone_basic(3)]) (use r in simp)
  have "room_inv (?t\<lparr>rooms := js_set (rooms ?t) r (st\<lparr>expecting := js_set (expecting st) peer (Suc (nonces s1))\<rparr>)\<rparr>)"
    by (rule set_room_inv [OF t, of r st]) (use r in simp_all)
  then show ?thesis by (simp add: expect_push_def s1 Let_def)
qed

lemma end_push_room_inv:
  assumes inv: "room_inv s"
  shows "room_inv (end_push s pid completed)"
proof (cases "js_get (objs s) pid")
  case None
  with inv show ?thesis by (simp add: end_push_def)
next
  case (Some p)
  define s1 where "s1 = upd_push pid (\<lambda>p. p\<lparr>ended := True, timer := False\<rparr>) s"
  define s2 where "s2 = (if js_get (pushes s1) (key p) = Some pid
                      then s1\<lparr>pushes := js_delete (pushes s1) (key p)\<rparr> else s1)"
  define s3 where "s3 = (if first p = None \<and> \<not> completed then claim s2 p else s2)"
  define s4 where "s4 = (case js_get (rooms s3) (proom p) of
                        None \<Rightarrow> s3
                      | Some st \<Rightarrow>
                          settle (s3\<lparr>rooms := js_set (rooms s3) (proom p)
                             (st\<lparr>open_pushes := set_remove (open_pushes st) pid, owed := \<not> completed\<rparr>)\<rparr>)
                            (proom p))"
  have a: "rooms_alone s s1" unfolding s1_def by (rule rooms_alone_upd) simp
  moreover have "rooms_alone s1 s2" unfolding s2_def by (intro rooms_alone_if rooms_alone_basic rooms_alone_refl)
  moreover have c3: "rooms_alone s2 s3" unfolding s3_def by (intro rooms_alone_if rooms_alone_claim rooms_alone_refl)
  ultimately have i3: "room_inv s3" using inv by (blast intro: rooms_alone_inv)
  have gone: "js_get (pushes s3) k \<noteq> Some pid" for k
  proof
    assume k: "js_get (pushes s3) k = Some pid"
    then have k2: "js_get (pushes s2) k = Some pid" using c3 by (simp add: rooms_alone_def)
    then have "js_get (pushes s) k = Some pid" by (auto simp: s2_def s1_def split: if_splits)
    then have "key p = k" using room_open [OF inv] Some by fastforce
    with k2 show False by (auto simp: s2_def split: if_splits)
  qed
  have i4: "room_inv s4"
  proof (cases "js_get (rooms s3) (proom p)")
    case None
    with i3 show ?thesis by (simp add: s4_def)
  next
    case (Some st)
    show ?thesis unfolding s4_def Some option.case
      by (rule settle_room_inv, rule set_room_inv [OF i3 Some]) (use gone in auto)
  qed
  have "end_push s pid completed = (if ended p then s
      else if js_get (finishing s4) (key p) = Some pid
           then s4\<lparr>finishing := js_delete (finishing s4) (key p)\<rparr> else s4)"
    unfolding end_push_def Some option.case Let_def s4_def s3_def s2_def s1_def ..
  then show ?thesis using inv i4 rooms_alone_inv [OF rooms_alone_basic(2) i4] by simp
qed

lemma stall_rooms_alone: "rooms_alone s (stall_timeout s pid)"
proof (cases "js_get (objs s) pid")
  case (Some p)
  define s1 where "s1 = upd_push pid (\<lambda>p. p\<lparr>timer := False\<rparr>) s"
  define s2 where "s2 = (if js_get (pushes s1) (key p) = Some pid
                    then s1\<lparr>pushes := js_delete (pushes s1) (key p)\<rparr> else s1)"
  have "rooms_alone s s1" unfolding s1_def by (rule rooms_alone_upd) simp
  also have "rooms_alone s1 s2" unfolding s2_def by (intro rooms_alone_if rooms_alone_basic rooms_alone_refl)
  also have "rooms_alone s2 (enqueue (chain p) (JEnd pid False) s2)" by (rule rooms_alone_basic)
  finally show ?thesis unfolding stall_timeout_def Some option.case Let_def s2_def s1_def .
qed (simp add: stall_timeout_def)

lemma finish_rooms_alone: "rooms_alone s (finish s pid)"
proof (cases "js_get (objs s) pid")
  case (Some p)
  define s1 where "s1 = upd_push pid (\<lambda>p. p\<lparr>timer := False\<rparr>) s"
  have "rooms_alone s s1" unfolding s1_def by (rule rooms_alone_upd) simp
  also have "rooms_alone s1 (s1\<lparr>pushes := js_delete (pushes s1) (key p)\<rparr>)" by simp
  also have "rooms_alone \<dots> (s1\<lparr>pushes := js_delete (pushes s1) (key p), finishing := js_set (finishing s1) (key p) pid\<rparr>)"
    by (rule rooms_alone_basic)
  also have "rooms_alone \<dots> (enqueue (chain p) (JFinish pid)
      (s1\<lparr>pushes := js_delete (pushes s1) (key p), finishing := js_set (finishing s1) (key p) pid\<rparr>))"
    by (rule rooms_alone_basic)
  finally show ?thesis unfolding finish_def Some option.case Let_def s1_def
    by (intro rooms_alone_if rooms_alone_refl)
qed (simp add: finish_def)


lemma start_push_room_inv:
  assumes inv: "room_inv s" and ii: "inbound_inv s" and res: "start_push s k r ord tot before = (pid, s')"
  shows "room_inv s'"
  using res
proof (rule start_push_shape)
  fix s1 s2 :: InboundPushes and p st s4
  assume s1: "s1 = s \<or> (\<exists>b bp. before = Some b \<and> js_get (objs s) b = Some bp \<and>
        s1 = enqueue (chain bp) (JEnd b False) (s\<lparr>pushes := js_delete (pushes s) k\<rparr>))"
    and s2: "s2 = s1 \<or> s2 = s1\<lparr>claims := js_delete (claims s1) k\<rparr>"
    and p: "key p = k" "proom p = r" and pid: "pid = next_obj s2"
    and s4: "room_of (s2\<lparr>objs := js_set (objs s2) (next_obj s2) p, next_obj := Suc (next_obj s2),
                pushes := js_set (pushes s2) k (next_obj s2)\<rparr>) r = (st, s4)"
    and s': "s' = s4\<lparr>rooms := js_set (rooms s4) r (st\<lparr>open_pushes := set_add (open_pushes st) pid\<rparr>)\<rparr>"
  have "rooms_alone s s1"
    using s1 by (auto intro: rooms_alone_trans [OF rooms_alone_basic(7) rooms_alone_basic(4)])
  also have "rooms_alone s1 s2" using s2 by auto
  finally have i2: "room_inv s2" using inv by (rule rooms_alone_inv)
  have o: "objs s2 = objs s" "next_obj s2 = next_obj s" using s1 s2 by auto
  have low: "x < pid" if "js_get (objs s2) x = Some y" for x y
    using inv_obj [OF ii, of x y] that o pid by simp
  have rm: "js_get (rooms s') x = (if x = r then Some (st\<lparr>open_pushes := set_add (open_pushes st) pid\<rparr>)
      else js_get (rooms s2) x)" "js_get (rooms s2) r = None \<or> js_get (rooms s2) r = Some st" for x
    using s4 by (auto simp: s' room_of_def Let_def emit_def split: option.splits)
  have rest: "pushes s' = js_set (pushes s2) k pid" "objs s' = js_set (objs s2) pid p"
      "log s' = log s2 @ [Hold r]"
    using s4 by (auto simp: s' pid room_of_def Let_def emit_def split: option.splits)
  show ?thesis unfolding room_inv_def rest
  proof (intro conjI allI impI)
    fix x y assume "js_get (rooms s') x = Some y"
    then show "held_now x (log s2 @ [Hold r])" using room_held [OF i2, of x y] rm(1) [of x] by (auto split: if_splits)
  next
    fix k' x assume k': "js_get (js_set (pushes s2) k pid) k' = Some x"
    show "\<exists>p' st. js_get (js_set (objs s2) pid p) x = Some p' \<and> key p' = k' \<and>
        js_get (rooms s') (proom p') = Some st \<and> x \<in> set (open_pushes st)"
    proof (cases "k' = k")
      case True
      then have "x = pid" using k' by simp
      then show ?thesis using True rm(1) [of r] p by simp
    next
      case False
      then obtain p' y where y: "js_get (objs s2) x = Some p'" "key p' = k'"
          "js_get (rooms s2) (proom p') = Some y" "x \<in> set (open_pushes y)"
        using k' room_open [OF i2, of k' x] by auto
      then show ?thesis using low [OF y(1)] rm(1) [of "proom p'"] rm(2) by auto
    qed
  qed
qed

lemma take_frame_keeps: "key (take_frame p f) = key p \<and> proom (take_frame p f) = proom p"
  by (simp add: take_frame_def Let_def)

lemma batch_room_inv:
  assumes inv: "room_inv s" and ii: "inbound_inv s"
  shows "room_inv (batch s peer r f)"
proof (rule batch_shape [of s peer r f])
  fix pid s1
  let ?k = "push_key peer r"
  let ?s3 = "answered (arm (upd_push pid (\<lambda>p. take_frame p f) s1) pid) peer r None"
  assume s1: "(s1 = s \<and> js_get (pushes s) ?k = Some pid) \<or>
     (\<exists>t ord tot. start_push s ?k r ord tot (js_get (pushes s) ?k) = (pid, t) \<and>
        (s1 = t \<or> s1 = upd_push pid (\<lambda>p. p\<lparr>broken := True\<rparr>) t))"
    and b: "batch s peer r f = (let s3 = ?s3 in case js_get (objs s3) pid of None \<Rightarrow> s3
           | Some p \<Rightarrow> let s4 = enqueue (chain p) (JBatch pid (parse_order (frame_order f)) (frame_index f)) s3
               in if 0 < total p \<and> total p \<le> next_index p then finish s4 pid else s4)"
  have "rooms_alone t (upd_push pid (\<lambda>p. p\<lparr>broken := True\<rparr>) t)" for t by (rule rooms_alone_upd) simp
  then have i1: "room_inv s1" using s1 inv start_push_room_inv [OF inv ii] rooms_alone_inv by blast
  have "rooms_alone s1 (upd_push pid (\<lambda>p. take_frame p f) s1)" by (rule rooms_alone_upd) (rule take_frame_keeps)
  also have "rooms_alone \<dots> (arm \<dots> pid)" unfolding arm_def by (rule rooms_alone_upd) simp
  finally have i3: "room_inv ?s3" by (intro answered_room_inv rooms_alone_inv [OF _ i1])
  have "room_inv (enqueue q j ?s3)" for q j by (rule rooms_alone_inv [OF rooms_alone_basic(4) i3])
  then show ?thesis using i3 rooms_alone_inv [OF finish_rooms_alone]
    unfolding b Let_def by (auto split: option.splits)
qed

lemma complete_room_inv:
  assumes "room_inv s"
  shows "room_inv (complete s peer r)"
proof -
  have "rooms_alone s (arm s pid)" for pid unfolding arm_def by (rule rooms_alone_upd) simp
  then have "room_inv (case js_get (pushes s) (push_key peer r) of None \<Rightarrow> s
      | Some pid \<Rightarrow> (case js_get (objs s) pid of None \<Rightarrow> s | Some p \<Rightarrow> if broken p then finish s pid else arm s pid))"
    using assms rooms_alone_inv [OF finish_rooms_alone assms] rooms_alone_inv [OF _ assms]
    by (auto split: option.splits)
  then show ?thesis unfolding complete_def Let_def by (rule answered_room_inv)
qed

lemma reset_room_inv: "room_inv (reset s)"
  by (simp add: room_inv_def reset_def)

lemma run_job_room_inv:
  assumes inv: "room_inv s"
  shows "room_inv (run_job s q ans)"
proof (cases "queue s q")
  case Nil
  with inv show ?thesis by simp
next
  case q: (Cons j js)
  note alone = rooms_alone_inv [OF _ inv]
  have pop: "room_inv (set_head q js s)" by (rule alone) simp
  have brk: "room_inv (set_head q js (upd_push pid (\<lambda>p. p\<lparr>broken := True\<rparr>) s))" for pid
    by (rule alone, rule rooms_alone_trans [OF rooms_alone_upd rooms_alone_basic(5)]) simp
  have com: "room_inv (set_head q js' (emit (commit_of p pid c b) s))" for js' p pid c b
    unfolding commit_of_def by (rule alone, rule rooms_alone_trans [OF rooms_alone_basic(6) rooms_alone_basic(5)])
  have acc: "room_inv (set_head q js' (upd_push pid (\<lambda>_. p'\<lparr>outcomes := b\<rparr>) s))"
    if "account p ord oc = (p', cs)" "js_get (objs s) pid = Some p" for p p' cs ord oc pid js' b
    by (rule alone, rule rooms_alone_trans [OF rooms_alone_upd rooms_alone_basic(5)])
      (use account_keeps [OF that(1)] that(2) in simp)
  have hd: "room_inv (set_head q js' s)" for js' by (rule alone) simp
  show ?thesis
    using q inv acc
    by (cases j; cases ans)
      (auto simp: pop brk com hd end_push_room_inv Let_def split: option.splits list.splits bool.splits prod.splits)
qed

section \<open>Bounds\<close>

definition claims_ok :: "(string, (string, int) jsmap) jsmap \<Rightarrow> bool" where
  "claims_ok cs \<longleftrightarrow> js_wf cs \<and> length cs \<le> MAX_CLAIMED \<and>
     (\<forall>k cl. js_get cs k = Some cl \<longrightarrow> js_wf cl \<and> length cl \<le> MAX_CLAIM_SENDERS)"

definition floors_ok :: "(nat, Push) jsmap \<Rightarrow> bool" where
  "floors_ok ob \<longleftrightarrow> (\<forall>pid p. js_get ob pid = Some p \<longrightarrow> length (pfloors p) \<le> MAX_FLOOR_SENDERS)"

lemma claims_ok_delete [simp]: "claims_ok cs \<Longrightarrow> claims_ok (js_delete cs k)"
  by (auto simp: claims_ok_def length_js_delete)

lemma claim_loop_ok:
  "js_wf cl \<Longrightarrow> length cl \<le> MAX_CLAIM_SENDERS \<Longrightarrow>
   js_wf (claim_loop cl ps) \<and> length (claim_loop cl ps) \<le> MAX_CLAIM_SENDERS"
proof (induction cl ps rule: claim_loop.induct)
  case (2 cl s l ps)
  then show ?case by (cases "js_get cl s") auto
qed simp

lemma claims_ok_delete_first: "claims_ok cs \<Longrightarrow> claims_ok (delete_first cs)"
  using claims_ok_delete [of cs "fst (hd cs)"] by (cases cs) (auto simp: delete_first_def)

lemma claims_ok_set:
  assumes "claims_ok cs" "js_wf cl" "length cl \<le> MAX_CLAIM_SENDERS" "js_get cs k = None \<Longrightarrow> length cs < MAX_CLAIMED"
  shows "claims_ok (js_set cs k cl)"
  using assms by (auto simp: claims_ok_def)

lemma claim_claims_ok:
  assumes "claims_ok (claims s)"
  shows "claims_ok (claims (claim s p))"
proof -
  let ?best = "claimable (entries (ppending p)) (pfloors p)" and ?cs = "claims s"
  have wf: "js_wf ?cs" using assms by (simp add: claims_ok_def)
  have e: "js_wf (claim_loop [] ?best) \<and> length (claim_loop [] ?best) \<le> MAX_CLAIM_SENDERS"
    by (rule claim_loop_ok) simp_all
  have lt: "length (if MAX_CLAIMED \<le> length ?cs then delete_first ?cs else ?cs) < MAX_CLAIMED"
    using assms by (auto simp: claims_ok_def length_delete_first MAX_CLAIMED_def)
  have "claims_ok (js_set ?cs (key p) (claim_loop cl ?best))" if "js_get ?cs (key p) = Some cl" for cl
    using assms that claim_loop_ok [of cl ?best] by (intro claims_ok_set) (auto simp: claims_ok_def)
  moreover have "claims_ok (js_set (if MAX_CLAIMED \<le> length ?cs then delete_first ?cs else ?cs) (key p) (claim_loop [] ?best))"
    using assms e lt claims_ok_delete_first [OF assms] by (intro claims_ok_set) auto
  ultimately show ?thesis using assms by (auto simp: claim_def Let_def split: option.splits)
qed

lemma claims_rest [simp]:
  "claims (settle s r) = claims s" "claims (emit e s) = claims s" "claims (answered s peer r n) = claims s"
  "claims (snd (room_of s r)) = claims s" "claims (finish s pid) = claims s" "claims (stall_timeout s pid) = claims s"
  "claims (snd (expect_push s peer r)) = claims s" "claims (arm s pid) = claims s"
proof -
  show e: "claims (emit e s) = claims s" for e s by (simp add: emit_def)
  show st: "claims (settle s r) = claims s" for s r by (simp add: settle_def e split: option.splits)
  show "claims (answered s peer r n) = claims s" by (simp add: answered_def st split: option.splits)
  show rm: "claims (snd (room_of s r)) = claims s" by (simp add: room_of_def e Let_def split: option.splits)
  then show "claims (snd (expect_push s peer r)) = claims s"
    by (cases "room_of s r") (simp add: expect_push_def Let_def)
  show "claims (arm s pid) = claims s" by (simp add: arm_def)
  show "claims (finish s pid) = claims s" by (simp add: finish_def Let_def split: option.splits)
  show "claims (stall_timeout s pid) = claims s" by (simp add: stall_timeout_def Let_def split: option.splits)
qed

lemma start_push_claims:
  assumes "start_push s k r ord tot before = (pid, s')"
  shows "claims s' = claims s \<or> claims s' = js_delete (claims s) k"
  using assms by (rule start_push_shape) (auto dest!: arg_cong [of _ _ "\<lambda>x. claims (snd x)"])

lemma batch_claims_ok:
  assumes "claims_ok (claims s)"
  shows "claims_ok (claims (batch s peer r f))"
proof (rule batch_shape [of s peer r f])
  fix pid s1
  let ?k = "push_key peer r"
  assume s1: "(s1 = s \<and> js_get (pushes s) ?k = Some pid) \<or>
     (\<exists>t ord tot. start_push s ?k r ord tot (js_get (pushes s) ?k) = (pid, t) \<and>
        (s1 = t \<or> s1 = upd_push pid (\<lambda>p. p\<lparr>broken := True\<rparr>) t))"
    and b: "batch s peer r f = (let s3 = answered (arm (upd_push pid (\<lambda>p. take_frame p f) s1) pid) peer r None
       in case js_get (objs s3) pid of None \<Rightarrow> s3
           | Some p \<Rightarrow> let s4 = enqueue (chain p) (JBatch pid (parse_order (frame_order f)) (frame_index f)) s3
               in if 0 < total p \<and> total p \<le> next_index p then finish s4 pid else s4)"
  have "claims_ok (claims t)" if "start_push s ?k r ord tot x = (pid, t)" for ord tot x t
    using start_push_claims [OF that] assms by auto
  then have "claims_ok (claims s1)" using s1 assms by auto
  then show ?thesis unfolding b by (simp add: Let_def split: option.splits)
qed

lemma end_push_claims_ok: "claims_ok (claims s) \<Longrightarrow> claims_ok (claims (end_push s pid d))"
  by (auto simp: end_push_def Let_def claim_claims_ok split: option.splits)


lemma run_job_claims_ok:
  assumes "claims_ok (claims s)"
  shows "claims_ok (claims (run_job s q ans))"
  using assms
  by (auto simp: end_push_claims_ok Let_def split: option.splits list.splits bool.splits prod.splits job.splits answer.splits)

text \<open>The floors of a push.\<close>

lemma floors_ok_set: "floors_ok ob \<Longrightarrow> length (pfloors p) \<le> MAX_FLOOR_SENDERS \<Longrightarrow> floors_ok (js_set ob pid p)"
  by (simp add: floors_ok_def)

lemma floors_ok_upd:
  assumes "floors_ok (objs s)"
    and "\<And>p. js_get (objs s) pid = Some p \<Longrightarrow> length (pfloors (f p)) \<le> MAX_FLOOR_SENDERS"
  shows "floors_ok (objs (upd_push pid f s))"
  using assms by (auto simp: upd_push_def floors_ok_def split: option.splits)

lemma merge_floors_bound:
  "length fl \<le> MAX_FLOOR_SENDERS \<Longrightarrow> length (fst (merge_floors fl ps)) \<le> MAX_FLOOR_SENDERS"
proof (induction fl ps rule: merge_floors.induct)
  case (2 fl s l ps)
  then show ?case by (cases "js_get fl s") auto
qed simp

lemma account_floors:
  assumes "account p ord oc = (p', cs)" "length (pfloors p) \<le> MAX_FLOOR_SENDERS"
  shows "length (pfloors p') \<le> MAX_FLOOR_SENDERS"
  using assms merge_floors_bound [OF assms(2), of "floors oc"]
  by (auto simp: account_def Let_def split: if_splits prod.splits)

lemma objs_rest [simp]:
  "objs (settle s r) = objs s" "objs (emit e s) = objs s" "objs (answered s peer r n) = objs s"
  "objs (snd (room_of s r)) = objs s" "objs (snd (expect_push s peer r)) = objs s" "objs (claim s p) = objs s"
proof -
  show e: "objs (emit e s) = objs s" for e s by (simp add: emit_def)
  show st: "objs (settle s r) = objs s" for s r by (simp add: settle_def e split: option.splits)
  show "objs (answered s peer r n) = objs s" by (simp add: answered_def st split: option.splits)
  show rm: "objs (snd (room_of s r)) = objs s" by (simp add: room_of_def e Let_def split: option.splits)
  then show "objs (snd (expect_push s peer r)) = objs s"
    by (cases "room_of s r") (simp add: expect_push_def Let_def)
  show "objs (claim s p) = objs s" by (auto simp: claim_def Let_def split: prod.splits)
qed

lemma floors_ok_plain:
  assumes "floors_ok (objs s)" and "\<And>p. pfloors (f p) = pfloors p"
  shows "floors_ok (objs (upd_push pid f s))"
  by (rule floors_ok_upd [OF assms(1)]) (use assms in \<open>auto simp: floors_ok_def\<close>)

lemma finish_floors: "floors_ok (objs s) \<Longrightarrow> floors_ok (objs (finish s pid))"
  by (auto simp: finish_def Let_def floors_ok_plain split: option.splits)

lemma stall_floors: "floors_ok (objs s) \<Longrightarrow> floors_ok (objs (stall_timeout s pid))"
  by (auto simp: stall_timeout_def Let_def floors_ok_plain split: option.splits)

lemma end_push_floors: "floors_ok (objs s) \<Longrightarrow> floors_ok (objs (end_push s pid d))"
  by (auto simp: end_push_def Let_def floors_ok_plain split: option.splits)

lemma arm_floors: "floors_ok (objs s) \<Longrightarrow> floors_ok (objs (arm s pid))"
  by (simp add: arm_def floors_ok_plain)

lemma start_push_floors:
  assumes "floors_ok (objs s)" and res: "start_push s k r ord tot before = (pid, s')"
  shows "floors_ok (objs s')"
  using res
proof (rule start_push_shape)
  fix s1 s2 :: InboundPushes and p st s4
  assume "s1 = s \<or> (\<exists>b bp. before = Some b \<and> js_get (objs s) b = Some bp \<and>
        s1 = enqueue (chain bp) (JEnd b False) (s\<lparr>pushes := js_delete (pushes s) k\<rparr>))"
    and "s2 = s1 \<or> s2 = s1\<lparr>claims := js_delete (claims s1) k\<rparr>" and p: "pfloors p = []"
    and s4: "room_of (s2\<lparr>objs := js_set (objs s2) (next_obj s2) p, next_obj := Suc (next_obj s2),
                pushes := js_set (pushes s2) k (next_obj s2)\<rparr>) r = (st, s4)"
    and s': "s' = s4\<lparr>rooms := js_set (rooms s4) r (st\<lparr>open_pushes := set_add (open_pushes st) pid\<rparr>)\<rparr>"
  then have "objs s2 = objs s" by auto
  moreover have "objs s' = js_set (objs s2) (next_obj s2) p"
    using s4 s' by (auto dest!: arg_cong [of _ _ "\<lambda>x. objs (snd x)"])
  ultimately show ?thesis using assms(1) p by (simp add: floors_ok_set)
qed

lemma batch_floors:
  assumes "floors_ok (objs s)"
  shows "floors_ok (objs (batch s peer r f))"
proof (rule batch_shape [of s peer r f])
  fix pid s1
  let ?k = "push_key peer r"
  assume s1: "(s1 = s \<and> js_get (pushes s) ?k = Some pid) \<or>
     (\<exists>t ord tot. start_push s ?k r ord tot (js_get (pushes s) ?k) = (pid, t) \<and>
        (s1 = t \<or> s1 = upd_push pid (\<lambda>p. p\<lparr>broken := True\<rparr>) t))"
    and b: "batch s peer r f = (let s3 = answered (arm (upd_push pid (\<lambda>p. take_frame p f) s1) pid) peer r None
       in case js_get (objs s3) pid of None \<Rightarrow> s3
           | Some p \<Rightarrow> let s4 = enqueue (chain p) (JBatch pid (parse_order (frame_order f)) (frame_index f)) s3
               in if 0 < total p \<and> total p \<le> next_index p then finish s4 pid else s4)"
  have "floors_ok (objs s1)" using s1 assms start_push_floors [OF assms] floors_ok_plain by auto
  then have "floors_ok (objs (arm (upd_push pid (\<lambda>p. take_frame p f) s1) pid))"
    by (intro arm_floors floors_ok_plain) (auto simp: take_frame_def Let_def)
  then show ?thesis unfolding b by (auto simp: Let_def finish_floors split: option.splits)
qed

lemma run_job_floors:
  assumes "floors_ok (objs s)"
  shows "floors_ok (objs (run_job s q ans))"
proof (cases "queue s q")
  case (Cons j js)
  have acc: "floors_ok (objs (upd_push pid (\<lambda>_. p'\<lparr>outcomes := b\<rparr>) s))"
    if "account p ord oc = (p', cs)" "js_get (objs s) pid = Some p" for p p' cs ord oc pid b
    by (rule floors_ok_upd [OF assms]) (use account_floors [OF that(1)] assms that(2) in \<open>auto simp: floors_ok_def\<close>)
  show ?thesis using Cons assms acc
    by (cases j; cases ans)
      (auto simp: end_push_floors floors_ok_plain Let_def split: option.splits list.splits bool.splits prod.splits)
qed (use assms in simp)

lemma complete_floors: "floors_ok (objs s) \<Longrightarrow> floors_ok (objs (complete s peer r))"
  by (auto simp: complete_def Let_def finish_floors arm_floors split: option.splits)

lemma reset_floors: "floors_ok (objs s) \<Longrightarrow> floors_ok (objs (reset s))"
  by (auto simp: reset_def floors_ok_def js_get_map split: if_splits)

section \<open>Reachable states\<close>

lemma reachable_rooms:
  "inbound_reachable s \<Longrightarrow> room_inv s \<and> claims_ok (claims s) \<and> floors_ok (objs s)"
proof (induction rule: inbound_reachable.induct)
  case start
  show ?case by (simp add: init_inbound_def room_inv_def claims_ok_def floors_ok_def)
next
  case (step s e)
  have ii: "inbound_inv s" by (rule reachable_inv [OF step.hyps])
  from step.IH have IH: "room_inv s" "claims_ok (claims s)" "floors_ok (objs s)" by auto
  have "claims (complete s peer r) = claims s" for peer r
    by (auto simp: complete_def Let_def split: option.splits)
  moreover have "claims_ok (claims (reset s))" by (simp add: reset_def claims_ok_def)
  ultimately show ?case using IH ii
    by (cases e) (simp_all add: expect_room_inv answered_room_inv expect_timeout_def batch_room_inv batch_claims_ok
        batch_floors complete_room_inv complete_floors rooms_alone_inv [OF stall_rooms_alone] stall_floors
        run_job_room_inv run_job_claims_ok run_job_floors reset_room_inv reset_floors
        del: run_job.simps split: option.splits)
qed


definition short_frame :: PushFrame where
  "short_frame = \<lparr>batchIndex = JNum (JInt 0), totalBatches = JNum (JInt 2), frame_order = JUndefined\<rparr>"

text \<open>An older build's push that stops after its first batch.\<close>

definition short_state :: InboundPushes where
  "short_state = inbound_run init_inbound
     [Frame ''p'' ''r'' short_frame, Job 0 (Outcome (Some (demo_outcome 4))), Stall 0, Job 0 Go]"

definition open_state :: InboundPushes where
  "open_state = inbound_run init_inbound [Frame ''p'' ''r'' (demo_frame 0)]"

lemma demo_states_reachable: "inbound_reachable short_state" "inbound_reachable open_state"
  unfolding short_state_def open_state_def by (intro run_reachable inbound_reachable.start)+

text \<open>C3: while a push is open its room is held: in every reachable state, a push that can still
  take frames is listed in its room's record, and the last call the class made about that room
  was to hold it, so no other advance in the room can overtake what the push has yet to bring.\<close>

theorem open_push_holds_room:
  assumes "inbound_reachable s" and "js_get (pushes s) k = Some pid"
  shows "\<exists>p st. js_get (objs s) pid = Some p \<and> key p = k \<and> js_get (rooms s) (proom p) = Some st \<and>
           pid \<in> set (open_pushes st) \<and> held_now (proom p) (log s)"
proof -
  have "room_inv s" using reachable_rooms [OF assms(1)] by blast
  then show ?thesis using room_open [OF _ assms(2)] room_held by metis
qed

theorem open_push_holds_room_witness:
  "\<exists>p st. js_get (objs open_state) 0 = Some p \<and> key p = ''p|r'' \<and>
     js_get (rooms open_state) (proom p) = Some st \<and>
     0 \<in> set (open_pushes st) \<and> held_now (proom p) (log open_state)"
proof (rule open_push_holds_room [OF demo_states_reachable(2)])
  show "js_get (pushes open_state) ''p|r'' = Some 0" by code_simp
qed

text \<open>A peer cannot make the tables grow without bound: at most 256 peer-and-room claim
  sets are kept, each with at most 4096 senders, and a push keeps floors for at most 4096.\<close>

theorem inbound_tables_bounded:
  assumes "inbound_reachable s" and "js_get (claims s) k = Some cl" and "js_get (objs s) pid = Some p"
  shows "length (claims s) \<le> 256 \<and> length cl \<le> 4096 \<and> length (pfloors p) \<le> 4096"
  using reachable_rooms [OF assms(1)] assms(2,3)
  unfolding claims_ok_def floors_ok_def MAX_CLAIMED_def MAX_CLAIM_SENDERS_def MAX_FLOOR_SENDERS_def by blast

theorem inbound_tables_bounded_witness:
  "length (claims short_state) \<le> 256 \<and> length (the (js_get (claims short_state) ''p|r'')) \<le> 4096 \<and>
   length (pfloors (the (js_get (objs short_state) 0))) \<le> 4096"
proof (rule inbound_tables_bounded [OF demo_states_reachable(1)])
  show "js_get (claims short_state) ''p|r'' = Some (the (js_get (claims short_state) ''p|r''))"
    "js_get (objs short_state) 0 = Some (the (js_get (objs short_state) 0))" by code_simp+
qed

end
