(* ===== verification/Frame_Assembler.thy ===== *)
theory Frame_Assembler
  imports Prelude "HOL-Library.Word"
begin

unbundle bit_operations_syntax

text \<open>
  Length-prefixed frames out of a stream's chunks,
  \<^verbatim>\<open>frontend/src/lib/transport/libp2p/frame-assembler.ts\<close>. The assembler keeps
  the chunks as they came; its reference is a parser on the concatenated bytes, and the two
  agree however the stream is cut.
\<close>

type_synonym octets = "8 word list"

record FrameAssembler =
  chunks :: "octets list"
  fheld :: nat

datatype frame_error = FrameTooLarge nat

definition new_assembler :: FrameAssembler where
  "new_assembler = \<lparr>chunks = [], fheld = 0\<rparr>"

text \<open>The loop that fills the header: \<open>filled\<close> is what is in it so far.\<close>

fun peek_loop :: "octets \<Rightarrow> octets list \<Rightarrow> octets" where
  "peek_loop filled [] = filled"
| "peek_loop filled (c # cs) =
     (let n = min (4 - length filled) (length c);
          filled' = filled @ take n c
      in if length filled' = 4 then filled' else peek_loop filled' cs)"

definition getUint32 :: "octets \<Rightarrow> nat" where
  \<comment> \<open>\<^verbatim>\<open>DataView.getUint32(0, false)\<close>, big-endian\<close>
  "getUint32 h = unat (h ! 0) * 2 ^ 24 + unat (h ! 1) * 2 ^ 16 + unat (h ! 2) * 2 ^ 8 + unat (h ! 3)"

definition peekLength :: "FrameAssembler \<Rightarrow> nat" where
  "peekLength a = getUint32 (peek_loop [] (chunks a) @ replicate (4 - length (peek_loop [] (chunks a))) 0)"

text \<open>The loop of \<^verbatim>\<open>#take\<close>: \<open>out\<close> is what was copied, \<open>n\<close> what is still wanted. The code
  never asks for more than is held, so the chunks do not run out under it.\<close>

fun take_loop :: "octets \<Rightarrow> nat \<Rightarrow> octets list \<Rightarrow> octets \<times> octets list" where
  "take_loop out n [] = (out, [])"
| "take_loop out n (c # cs) =
     (if n = 0 then (out, c # cs)
      else
        let k = min n (length c) in
        if k = length c then take_loop (out @ c) (n - k) cs
        else (out @ take k c, drop k c # cs))"

definition take_bytes :: "FrameAssembler \<Rightarrow> nat \<Rightarrow> octets \<times> FrameAssembler" where
  "take_bytes a n =
     (let (out, cs) = take_loop [] n (chunks a) in (out, \<lparr>chunks = cs, fheld = fheld a - n\<rparr>))"

text \<open>The loop of \<open>push\<close>. A thrown error leaves the assembler as it was when it was thrown.\<close>

function push_loop_frames ::
  "nat \<Rightarrow> octets list \<Rightarrow> FrameAssembler \<Rightarrow> (frame_error + octets list) \<times> FrameAssembler"
where
  "push_loop_frames maxFrameBytes frames a =
     (if fheld a < 4 then (Inr frames, a)
      else
        let l = peekLength a in
        if maxFrameBytes < l then (Inl (FrameTooLarge l), a)
        else if fheld a < 4 + l then (Inr frames, a)
        else
          let (b, a') = take_bytes a (4 + l) in
          push_loop_frames maxFrameBytes (frames @ [drop 4 b]) a')"
  by pat_completeness auto
termination
  by (relation "measure (\<lambda>(_, _, a). fheld a)") (auto simp: take_bytes_def split: prod.splits)

declare push_loop_frames.simps [simp del]

definition push_chunk ::
  "nat \<Rightarrow> FrameAssembler \<Rightarrow> octets \<Rightarrow> (frame_error + octets list) \<times> FrameAssembler"
where
  "push_chunk maxFrameBytes a c =
     push_loop_frames maxFrameBytes []
       (if 0 < length c then \<lparr>chunks = chunks a @ [c], fheld = fheld a + length c\<rparr> else a)"

section \<open>The reference parser\<close>

function parse_frames :: "nat \<Rightarrow> octets \<Rightarrow> (frame_error + octets list) \<times> octets" where
  \<comment> \<open>the frames at the front of a byte string, and what is left of it\<close>
  "parse_frames mx bs =
     (if length bs < 4 then (Inr [], bs)
      else
        let l = getUint32 (take 4 bs) in
        if mx < l then (Inl (FrameTooLarge l), bs)
        else if length bs < 4 + l then (Inr [], bs)
        else case parse_frames mx (drop (4 + l) bs) of
               (Inl e, rest) \<Rightarrow> (Inl e, rest)
             | (Inr fs, rest) \<Rightarrow> (Inr (take l (drop 4 bs) # fs), rest))"
  by pat_completeness auto
termination
  by (relation "measure (\<lambda>(_, bs). length bs)") auto

declare parse_frames.simps [simp del]

definition assembler_ok :: "FrameAssembler \<Rightarrow> bool" where
  "assembler_ok a \<longleftrightarrow> fheld a = length (concat (chunks a)) \<and> list_all (\<lambda>c. c \<noteq> []) (chunks a)"

lemma peek_loop_take:
  "length filled < 4 \<Longrightarrow> peek_loop filled cs = take 4 (filled @ concat cs)"
proof (induction filled cs rule: peek_loop.induct)
  case (2 filled c cs)
  show ?case
  proof (cases "length filled + length c < 4")
    case True
    then have m: "min (4 - length filled) (length c) = length c" by simp
    have "peek_loop (filled @ c) cs = take 4 ((filled @ c) @ concat cs)"
      using "2.IH" [OF refl refl] True unfolding m by simp
    with True m show ?thesis by (simp add: Let_def)
  next
    case False
    with "2.prems" show ?thesis by (auto simp: min_def Let_def)
  qed
qed simp

lemma peekLength_take:
  "assembler_ok a \<Longrightarrow> 4 \<le> fheld a \<Longrightarrow> peekLength a = getUint32 (take 4 (concat (chunks a)))"
  by (simp add: peekLength_def peek_loop_take assembler_ok_def)

lemma take_loop_split:
  assumes "take_loop out n cs = (out', cs')" "n \<le> length (concat cs)" "list_all (\<lambda>c. c \<noteq> []) cs"
  shows "out' = out @ take n (concat cs) \<and> concat cs' = drop n (concat cs) \<and> list_all (\<lambda>c. c \<noteq> []) cs'"
  using assms
proof (induction out n cs rule: take_loop.induct)
  case (2 out n c cs)
  show ?case
  proof (cases "n = 0 \<or> n < length c")
    case True
    with "2.prems" show ?thesis by (auto simp: min_def Let_def split: if_splits)
  next
    case False
    then have m: "min n (length c) = length c" by simp
    have "take_loop (out @ c) (n - length c) cs = (out', cs')"
      using "2.prems"(1) False by (simp add: m Let_def)
    moreover have "n - length c \<le> length (concat cs)" using "2.prems" by simp
    ultimately show ?thesis using "2.IH" [of "length c"] False "2.prems" by (auto simp: m)
  qed
qed simp

lemma take_bytes_ok:
  assumes "assembler_ok a" "take_bytes a n = (b, a')" "n \<le> fheld a"
  shows "b = take n (concat (chunks a)) \<and> concat (chunks a') = drop n (concat (chunks a)) \<and> assembler_ok a'"
  using assms take_loop_split [of "[]" n "chunks a"]
  by (auto simp: take_bytes_def assembler_ok_def split: prod.splits)

lemma push_loop_parse:
  assumes "assembler_ok a"
  shows "\<exists>a'. push_loop_frames mx frames a =
           (case fst (parse_frames mx (concat (chunks a))) of Inl e \<Rightarrow> Inl e | Inr fs \<Rightarrow> Inr (frames @ fs), a') \<and>
         assembler_ok a' \<and> concat (chunks a') = snd (parse_frames mx (concat (chunks a)))"
  using assms
proof (induction mx frames a rule: push_loop_frames.induct)
  case (1 mx frames a)
  let ?bs = "concat (chunks a)"
  have len: "fheld a = length ?bs" using "1.prems" by (simp add: assembler_ok_def)
  show ?case
  proof (cases "fheld a < 4")
    case True
    with "1.prems" len show ?thesis
      by (simp add: push_loop_frames.simps [of mx frames a] parse_frames.simps [of mx ?bs])
  next
    case False
    define l where "l = getUint32 (take 4 ?bs)"
    have pk: "peekLength a = l" using peekLength_take "1.prems" False by (simp add: l_def)
    show ?thesis
    proof (cases "mx < l \<or> fheld a < 4 + l")
      case True
      with False "1.prems" len pk show ?thesis
        by (auto simp: push_loop_frames.simps [of mx frames a] parse_frames.simps [of mx ?bs] l_def [symmetric])
    next
      case whole: False
      obtain b a' where tb: "take_bytes a (4 + l) = (b, a')" by force
      have t: "b = take (4 + l) ?bs" "concat (chunks a') = drop (4 + l) ?bs" "assembler_ok a'"
        using take_bytes_ok [OF "1.prems" tb] whole by auto
      have step: "push_loop_frames mx frames a = push_loop_frames mx (frames @ [drop 4 b]) a'"
        using False whole pk tb by (simp add: push_loop_frames.simps [of mx frames a])
      have IH: "\<exists>a''. push_loop_frames mx (frames @ [drop 4 b]) a' =
           (case fst (parse_frames mx (drop (4 + l) ?bs)) of Inl e \<Rightarrow> Inl e | Inr fs \<Rightarrow> Inr ((frames @ [drop 4 b]) @ fs), a'') \<and>
         assembler_ok a'' \<and> concat (chunks a'') = snd (parse_frames mx (drop (4 + l) ?bs))"
        using "1.IH" [OF False refl _ _ _ refl t(3)] whole pk tb t(2) by simp
      have "drop 4 b = take l (drop 4 ?bs)" using t(1) by (simp add: drop_take)
      then show ?thesis using IH False whole len
        by (auto simp: step parse_frames.simps [of mx ?bs] l_def [symmetric] Let_def split: sum.splits prod.splits)
    qed
  qed
qed


lemma push_chunk_parse:
  assumes "assembler_ok a"
  shows "\<exists>a'. push_chunk mx a c = (fst (parse_frames mx (concat (chunks a) @ c)), a') \<and>
         assembler_ok a' \<and> concat (chunks a') = snd (parse_frames mx (concat (chunks a) @ c))"
proof (cases "c = []")
  case True
  with push_loop_parse [OF assms, of mx "[]"] show ?thesis
    by (auto simp: push_chunk_def split: sum.splits)
next
  case False
  then have "assembler_ok \<lparr>chunks = chunks a @ [c], fheld = fheld a + length c\<rparr>"
    using assms by (simp add: assembler_ok_def)
  from push_loop_parse [OF this, of mx "[]"] False show ?thesis
    by (auto simp: push_chunk_def split: sum.splits)
qed

text \<open>C26: the assembler is the parser: taking a chunk gives exactly the frames, or the refusal of an
  announced length past the limit, that parsing all the bytes received gives, and what stays
  buffered is exactly the unparsed rest.\<close>

theorem assembler_refines_parser:
  assumes "assembler_ok a"
  shows "fst (push_chunk mx a c) = fst (parse_frames mx (concat (chunks a) @ c)) \<and>
         assembler_ok (snd (push_chunk mx a c)) \<and>
         concat (chunks (snd (push_chunk mx a c))) = snd (parse_frames mx (concat (chunks a) @ c))"
  using push_chunk_parse [OF assms, of mx c] by auto

theorem assembler_refines_parser_witness:
  "fst (push_chunk 8 new_assembler [0, 0, 0, 1, 7]) = fst (parse_frames 8 (concat (chunks new_assembler) @ [0, 0, 0, 1, 7])) \<and>
   assembler_ok (snd (push_chunk 8 new_assembler [0, 0, 0, 1, 7])) \<and>
   concat (chunks (snd (push_chunk 8 new_assembler [0, 0, 0, 1, 7])))
     = snd (parse_frames 8 (concat (chunks new_assembler) @ [0, 0, 0, 1, 7]))"
  by (rule assembler_refines_parser) (simp add: assembler_ok_def new_assembler_def)

section \<open>A whole stream\<close>

fun push_all :: "nat \<Rightarrow> FrameAssembler \<Rightarrow> octets list \<Rightarrow> (frame_error + octets list) \<times> FrameAssembler" where
  "push_all mx a [] = (Inr [], a)"
| "push_all mx a (c # cs) =
     (case push_chunk mx a c of
        (Inl e, a') \<Rightarrow> (Inl e, a')
      | (Inr fs, a') \<Rightarrow>
          (case push_all mx a' cs of
             (Inl e, a'') \<Rightarrow> (Inl e, a'')
           | (Inr gs, a'') \<Rightarrow> (Inr (fs @ gs), a'')))"

text \<open>The sender's framing, \<^verbatim>\<open>encodeFrame\<close> of the libp2p transport: a four-byte big-endian length, then the bytes.\<close>

definition length_prefix :: "nat \<Rightarrow> octets" where
  "length_prefix n = [word_of_nat (n div 2 ^ 24), word_of_nat (n div 2 ^ 16), word_of_nat (n div 2 ^ 8), word_of_nat n]"

definition encodeFrame :: "octets \<Rightarrow> octets" where
  "encodeFrame f = length_prefix (length f) @ f"

lemma getUint32_prefix: "n < 2 ^ 32 \<Longrightarrow> getUint32 (length_prefix n) = n"
proof -
  assume n: "n < 2 ^ 32"
  have "n = 256 * (n div 256) + n mod 256" "n div 256 = 256 * (n div 65536) + n div 256 mod 256"
    "n div 65536 = 256 * (n div 16777216) + n div 65536 mod 256"
    using mult_div_mod_eq [of 256 n] mult_div_mod_eq [of 256 "n div 256"] mult_div_mod_eq [of 256 "n div 65536"]
    by (simp_all flip: div_mult2_eq)
  moreover have "getUint32 (length_prefix n) =
      n div 16777216 * 16777216 + n div 65536 mod 256 * 65536 + n div 256 mod 256 * 256 + n mod 256"
    using n by (simp add: getUint32_def length_prefix_def unat_of_nat take_bit_eq_mod)
  ultimately show ?thesis by linarith
qed

lemma parse_append:
  assumes "parse_frames mx xs = (Inr fs, rest)"
  shows "parse_frames mx (xs @ ys) =
    (case parse_frames mx (rest @ ys) of (Inl e, r) \<Rightarrow> (Inl e, r) | (Inr gs, r) \<Rightarrow> (Inr (fs @ gs), r))"
  using assms
proof (induction mx xs arbitrary: fs rest rule: parse_frames.induct)
  case (1 mx xs)
  let ?l = "getUint32 (take 4 xs)"
  show ?case
  proof (cases "length xs < 4 \<or> length xs < 4 + ?l")
    case True
    then have "fs = []" "rest = xs"
      using "1.prems" by (auto simp: parse_frames.simps [of mx xs] Let_def split: if_splits prod.splits sum.splits)
    then show ?thesis by (auto split: prod.splits sum.splits)
  next
    case False
    then obtain gs where gs: "parse_frames mx (drop (4 + ?l) xs) = (Inr gs, rest)"
        "fs = take ?l (drop 4 xs) # gs" and mx: "\<not> mx < ?l"
      using "1.prems" by (auto simp: parse_frames.simps [of mx xs] Let_def split: if_splits prod.splits sum.splits)
    have IH: "parse_frames mx (drop (4 + ?l) xs @ ys) =
      (case parse_frames mx (rest @ ys) of (Inl e, r) \<Rightarrow> (Inl e, r) | (Inr hs, r) \<Rightarrow> (Inr (gs @ hs), r))"
      by (rule "1.IH" [OF _ refl]) (use False mx gs in auto)
    have h: "getUint32 (take 4 (xs @ ys)) = ?l" "take ?l (drop 4 (xs @ ys)) = take ?l (drop 4 xs)"
      "drop (4 + ?l) (xs @ ys) = drop (4 + ?l) xs @ ys"
      using False by simp_all
    show ?thesis
      using False mx by (simp only: parse_frames.simps [of mx "xs @ ys"] h IH Let_def gs(2))
        (auto split: prod.splits sum.splits)
  qed
qed

lemma parse_append_error:
  "parse_frames mx xs = (Inl e, rest) \<Longrightarrow> fst (parse_frames mx (xs @ ys)) = Inl e"
proof (induction mx xs arbitrary: rest rule: parse_frames.induct)
  case (1 mx xs)
  let ?l = "getUint32 (take 4 xs)"
  have len: "\<not> length xs < 4" using "1.prems" by (auto simp: parse_frames.simps [of mx xs])
  then have h: "getUint32 (take 4 (xs @ ys)) = ?l" by simp
  show ?case
  proof (cases "mx < ?l")
    case True
    then have "e = FrameTooLarge ?l" using "1.prems" len by (auto simp: parse_frames.simps [of mx xs])
    with True len h show ?thesis by (simp add: parse_frames.simps [of mx "xs @ ys"])
  next
    case False
    then have whole: "\<not> length xs < 4 + ?l" and p: "\<exists>r. parse_frames mx (drop (4 + ?l) xs) = (Inl e, r)"
      using "1.prems" len by (auto simp: parse_frames.simps [of mx xs] Let_def split: if_splits prod.splits sum.splits)
    then have "fst (parse_frames mx (drop (4 + ?l) xs @ ys)) = Inl e"
      using "1.IH" [OF len refl False whole] by blast
    then show ?thesis using len h False whole
      by (auto simp: parse_frames.simps [of mx "xs @ ys"] Let_def split: prod.splits sum.splits)
  qed
qed

lemma parse_rest: "parse_frames mx xs = (Inr fs, rest) \<Longrightarrow> parse_frames mx rest = (Inr [], rest)"
proof (induction mx xs arbitrary: fs rest rule: parse_frames.induct)
  case (1 mx xs)
  let ?l = "getUint32 (take 4 xs)"
  show ?case
  proof (cases "length xs < 4 \<or> length xs < 4 + ?l")
    case True
    then have "fs = []" "rest = xs"
      using "1.prems" by (auto simp: parse_frames.simps [of mx xs] Let_def split: if_splits prod.splits sum.splits)
    with "1.prems" show ?thesis by simp
  next
    case False
    then have "\<not> mx < ?l" "\<exists>gs. parse_frames mx (drop (4 + ?l) xs) = (Inr gs, rest)"
      using "1.prems" by (auto simp: parse_frames.simps [of mx xs] Let_def split: if_splits prod.splits sum.splits)
    with "1.IH" [OF _ refl] False show ?thesis by auto
  qed
qed

lemma push_all_parse:
  assumes "assembler_ok a" and "parse_frames mx (concat (chunks a)) = (Inr [], concat (chunks a))"
  shows "fst (push_all mx a cs) = fst (parse_frames mx (concat (chunks a) @ concat cs))"
  using assms
proof (induction cs arbitrary: a)
  case (Cons c cs)
  let ?bs = "concat (chunks a) @ c"
  obtain a1 where a1: "push_chunk mx a c = (fst (parse_frames mx ?bs), a1)" "assembler_ok a1"
      "concat (chunks a1) = snd (parse_frames mx ?bs)"
    using push_chunk_parse [OF Cons.prems(1), of mx c] by auto
  show ?case
  proof (cases "fst (parse_frames mx ?bs)")
    case (Inl e)
    then have "fst (parse_frames mx (?bs @ concat cs)) = Inl e"
      by (metis parse_append_error prod.collapse)
    with a1 Inl show ?thesis by simp
  next
    case (Inr fs)
    then have p: "parse_frames mx ?bs = (Inr fs, concat (chunks a1))" using a1 by (metis prod.collapse)
    have IH: "fst (push_all mx a1 cs) = fst (parse_frames mx (concat (chunks a1) @ concat cs))"
      by (rule Cons.IH [OF a1(2) parse_rest [OF p]])
    have "push_all mx a (c # cs) = (case push_all mx a1 cs of (Inl e, x) \<Rightarrow> (Inl e, x) | (Inr gs, x) \<Rightarrow> (Inr (fs @ gs), x))"
      using a1(1) Inr by simp
    moreover have "parse_frames mx (?bs @ concat cs) = (case parse_frames mx (concat (chunks a1) @ concat cs) of
        (Inl e, r) \<Rightarrow> (Inl e, r) | (Inr gs, r) \<Rightarrow> (Inr (fs @ gs), r))"
      by (rule parse_append [OF p])
    ultimately show ?thesis using IH by (auto split: prod.splits sum.splits)
  qed
qed simp

lemma parse_encodeFrame:
  assumes "length f \<le> mx" "length f < 2 ^ 32"
  shows "parse_frames mx (encodeFrame f @ rest) =
     (case parse_frames mx rest of (Inl e, r) \<Rightarrow> (Inl e, r) | (Inr gs, r) \<Rightarrow> (Inr (f # gs), r))"
proof -
  have l: "length (length_prefix (length f)) = 4" by (simp add: length_prefix_def)
  have g: "getUint32 (take 4 (encodeFrame f @ rest)) = length f"
    using getUint32_prefix [OF assms(2)] by (simp add: encodeFrame_def l)
  have parts: "take (length f) (drop 4 (encodeFrame f @ rest)) = f" "drop (4 + length f) (encodeFrame f @ rest) = rest"
    "\<not> length (encodeFrame f @ rest) < 4" "\<not> length (encodeFrame f @ rest) < 4 + length f" "\<not> mx < length f"
    using assms(1) by (simp_all add: encodeFrame_def l)
  show ?thesis unfolding parse_frames.simps [of mx "encodeFrame f @ rest"] g Let_def
    using parts(3,4,5) by (simp only: if_False parts(1,2))
qed

lemma parse_stream:
  "list_all (\<lambda>f. length f \<le> mx \<and> length f < 2 ^ 32) fs \<Longrightarrow>
   parse_frames mx (concat (map encodeFrame fs)) = (Inr fs, [])"
  by (induction fs) (simp_all add: parse_encodeFrame parse_frames.simps [of mx "[]"])

text \<open>Frames arrive whole: whatever pieces a stream of framed messages is cut into, feeding the
  pieces to the assembler one by one yields exactly the messages that were sent, in order.\<close>

theorem frames_survive_chunking:
  assumes "concat cs = concat (map encodeFrame fs)" and "list_all (\<lambda>f. length f \<le> mx \<and> length f < 2 ^ 32) fs"
  shows "fst (push_all mx new_assembler cs) = Inr fs"
  using push_all_parse [of new_assembler mx cs] parse_stream [OF assms(2)] assms(1)
  by (simp add: new_assembler_def assembler_ok_def parse_frames.simps [of mx "[]"])

theorem frames_survive_chunking_witness:
  "fst (push_all 8 new_assembler [[0, 0], [0, 2, 5], [6, 0, 0, 0, 1], [9]]) = Inr [[5, 6], [9]]"
  by (rule frames_survive_chunking) (simp_all add: encodeFrame_def length_prefix_def)

end
