(* ===== verification/Rate_Window.thy ===== *)
theory Rate_Window
  imports Prelude
begin

text \<open>
  The contract of a sliding-window rate limit: a request is granted only while fewer than \<open>cap\<close>
  grants lie within the last \<open>span\<close>, and every grant is remembered for at least that long. Several
  parts of the program keep such a limit over their own state; each is an interpretation of
  \<open>sliding_cap\<close>, and the bound on every stretch of time is proved here once.
\<close>

definition within :: "int \<Rightarrow> int \<Rightarrow> int list \<Rightarrow> nat" where
  \<comment> \<open>how many of the times lie in the half-open stretch of length \<open>span\<close> from \<open>x\<close>\<close>
  "within span x ts = length (filter (\<lambda>t. x \<le> t \<and> t < x + span) ts)"

definition live :: "int \<Rightarrow> int \<Rightarrow> int list \<Rightarrow> int list" where
  \<comment> \<open>the times that are still less than \<open>span\<close> old\<close>
  "live span now ts = filter (\<lambda>t. now - t < span) ts"

lemma within_append [simp]: "within span x (as @ bs) = within span x as + within span x bs"
  by (simp add: within_def)

lemma within_Nil [simp]: "within span x [] = 0"
  by (simp add: within_def)

lemma within_one [simp]: "within span x [t] = (if x \<le> t \<and> t < x + span then 1 else 0)"
  by (simp add: within_def)

lemma live_live: "now \<le> now' \<Longrightarrow> live span now' (live span now ts) = live span now' ts"
  by (auto simp: live_def intro!: filter_cong)

lemma live_append [simp]: "live span now (as @ bs) = live span now as @ live span now bs"
  by (simp add: live_def)

lemma within_live: "x \<le> t \<Longrightarrow> t < x + span \<Longrightarrow> \<forall>y\<in>set ts. y \<le> t \<Longrightarrow> within span x ts \<le> length (live span t ts)"
  by (induction ts) (auto simp: within_def live_def)

lemma live_sorted_dropWhile: "sorted ts \<Longrightarrow> dropWhile (\<lambda>t. span \<le> now - t) ts = live span now ts"
  unfolding live_def
proof (induction ts)
  case (Cons a ts)
  show ?case
  proof (cases "span \<le> now - a")
    case True
    with Cons show ?thesis by simp
  next
    case False
    then have "filter (\<lambda>t. now - t < span) ts = ts" using Cons.prems by (fastforce simp: filter_id_conv)
    with False show ?thesis by simp
  qed
qed simp

lemma sorted_live: "sorted ts \<Longrightarrow> sorted (live span now ts)"
  by (simp add: live_def sorted_filter [of "\<lambda>x. x", simplified])

locale sliding_cap =
  fixes span :: int and cap :: nat
    and step :: "'s \<Rightarrow> 'e \<Rightarrow> bool \<times> 's"
    and time :: "'e \<Rightarrow> int"
    and counts :: "'e \<Rightarrow> bool"
    and recent :: "'s \<Rightarrow> int list"
    and ok :: "'s \<Rightarrow> bool"
  assumes step_ok: "ok s \<Longrightarrow> \<forall>y\<in>set (recent s). y \<le> time e \<Longrightarrow> step s e = (b, s') \<Longrightarrow> ok s'"
    and granted: "ok s \<Longrightarrow> counts e \<Longrightarrow> step s e = (True, s') \<Longrightarrow>
      length (live span (time e) (recent s)) < cap \<and> recent s' = live span (time e) (recent s) @ [time e]"
    and otherwise: "ok s \<Longrightarrow> step s e = (b, s') \<Longrightarrow> \<not> (counts e \<and> b) \<Longrightarrow>
      recent s' = recent s \<or> recent s' = live span (time e) (recent s)"
begin

fun grants :: "'s \<Rightarrow> 'e list \<Rightarrow> int list" where
  "grants s [] = []"
| "grants s (e # es) =
     (case step s e of (b, s') \<Rightarrow> (if counts e \<and> b then [time e] else []) @ grants s' es)"

text \<open>\<open>past\<close> is the grants so far; the state remembers all that still count at \<open>now\<close>.\<close>

definition remembers :: "'s \<Rightarrow> int list \<Rightarrow> int \<Rightarrow> bool" where
  "remembers s past now \<longleftrightarrow> (\<forall>y\<in>set past \<union> set (recent s). y \<le> now) \<and>
     (\<forall>t\<ge>now. live span t (recent s) = live span t past)"

lemma grants_within:
  assumes "ok s" and "remembers s past now" and "\<forall>x. within span x past \<le> cap"
    and "sorted (now # map time es)"
  shows "within span x (past @ grants s es) \<le> cap"
  using assms
proof (induction es arbitrary: s past now)
  case (Cons e es)
  obtain b s' where st: "step s e = (b, s')" by force
  let ?t = "time e"
  have t: "now \<le> ?t" and srt: "sorted (?t # map time es)" using Cons.prems(4) by auto
  have old: "\<forall>y\<in>set past \<union> set (recent s). y \<le> ?t" "live span ?t (recent s) = live span ?t past"
    using Cons.prems(2) t unfolding remembers_def by force+
  have ok': "ok s'" using step_ok [OF Cons.prems(1) _ st] old(1) by blast
  show ?case
  proof (cases "counts e \<and> b")
    case True
    then have g: "length (live span ?t past) < cap" "recent s' = live span ?t past @ [?t]"
      using granted [OF Cons.prems(1), of e s'] st old(2) by auto
    have rem: "remembers s' (past @ [?t]) ?t"
      using old by (auto simp: remembers_def g(2) live_live) (auto simp: live_def)
    have "within span x (past @ [?t]) \<le> cap" for x
    proof (cases "x \<le> ?t \<and> ?t < x + span")
      case True
      have "within span x past \<le> length (live span ?t past)"
        by (rule within_live) (use True old in auto)
      then show ?thesis using g(1) True by simp
    qed (use Cons.prems(3) in auto)
    then have "within span x ((past @ [?t]) @ grants s' es) \<le> cap"
      by (intro Cons.IH [OF ok' rem _ srt]) blast
    with True st show ?thesis by simp
  next
    case False
    then have "recent s' = recent s \<or> recent s' = live span ?t (recent s)"
      using otherwise [OF Cons.prems(1) st] by blast
    then have rem: "remembers s' past ?t"
      using Cons.prems(2) old(1) t by (auto simp: remembers_def live_live) (auto simp: live_def)
    then have "within span x (past @ grants s' es) \<le> cap"
      by (rule Cons.IH [OF ok' _ Cons.prems(3) srt])
    with False st show ?thesis by auto
  qed
qed simp

lemma never_exceeded:
  assumes "ok s" and "recent s = []" and "sorted (map time es)"
  shows "within span x (grants s es) \<le> cap"
proof (cases es)
  case (Cons e es')
  have "within span x ([] @ grants s es) \<le> cap"
    by (rule grants_within [OF assms(1), of "[]" "time e"])
      (use assms Cons in \<open>auto simp: remembers_def live_def\<close>)
  then show ?thesis by simp
qed simp

end

end
