(* ===== verification/Lobby_Budget.thy ===== *)
theory Lobby_Budget
  imports Rate_Window
begin

text \<open>
  How many DM-lobby introductions a device may start,
  \<^verbatim>\<open>frontend/src/lib/transport/libp2p/dm-lobby-budget.ts\<close>. The clock is an argument;
  \<open>allow\<close> returns its answer and the budget afterwards. Two of its three limits are sliding windows
  and interpret \<open>sliding_cap\<close>.
\<close>

record LobbyDialLimits =
  retryMs :: int
  perLobby :: nat
  perMinute :: nat
  maxPeers :: nat

definition DEFAULT_LOBBY_DIAL_LIMITS :: LobbyDialLimits where
  "DEFAULT_LOBBY_DIAL_LIMITS = \<lparr>retryMs = 10 * 60000, perLobby = 4, perMinute = 16, maxPeers = 1024\<rparr>"

definition MINUTE_MS :: int where
  "MINUTE_MS = 60000"

record LobbyDialBudget =
  lpeers :: "(string, int) jsmap"
  lobbies :: "(string, int list) jsmap"
  lrecent :: "int list"

definition new_budget :: LobbyDialBudget where
  "new_budget = \<lparr>lpeers = [], lobbies = [], lrecent = []\<rparr>"

definition mayTry :: "LobbyDialLimits \<Rightarrow> LobbyDialBudget \<Rightarrow> string \<Rightarrow> int \<Rightarrow> bool" where
  "mayTry lim s peer now =
     (case js_get (lpeers s) peer of None \<Rightarrow> True | Some at \<Rightarrow> retryMs lim \<le> now - at)"

function evict :: "nat \<Rightarrow> (string, int) jsmap \<Rightarrow> (string, int) jsmap" where
  "evict mx m = (if mx < length m then evict mx (delete_first m) else m)"
  by pat_completeness auto
termination
proof (relation "measure (\<lambda>(_, m). length m)")
  fix mx :: nat and m :: "(string, int) jsmap"
  assume "mx < length m"
  then obtain k v ms where m: "m = (k, v) # ms" by (cases m) auto
  then show "((mx, delete_first m), mx, m) \<in> measure (\<lambda>(_, m). length m)"
    using length_delete_le [of k ms] by (simp add: delete_first_def)
qed simp

declare evict.simps [simp del]

definition allow :: "LobbyDialLimits \<Rightarrow> LobbyDialBudget \<Rightarrow> string \<Rightarrow> string \<Rightarrow> int \<Rightarrow> bool \<times> LobbyDialBudget" where
  "allow lim s lobby peer now =
     (if \<not> mayTry lim s peer now then (False, s)
      else
        let inLobby = filter (\<lambda>t. now - t < retryMs lim) (js_get_or [] (lobbies s) lobby);
            s1 = s\<lparr>lobbies := js_set (lobbies s) lobby inLobby\<rparr>
        in if perLobby lim \<le> length inLobby then (False, s1)
           else
             let s2 = s1\<lparr>lrecent := filter (\<lambda>t. now - t < MINUTE_MS) (lrecent s1)\<rparr>
             in if perMinute lim \<le> length (lrecent s2) then (False, s2)
                else (True, s2\<lparr>lobbies := js_set (lobbies s2) lobby (inLobby @ [now]),
                               lrecent := lrecent s2 @ [now],
                               lpeers := evict (maxPeers lim) (js_set (js_delete (lpeers s2) peer) peer now)\<rparr>))"

definition forgetLobby :: "LobbyDialBudget \<Rightarrow> string \<Rightarrow> LobbyDialBudget" where
  "forgetLobby s lobby = s\<lparr>lobbies := js_delete (lobbies s) lobby\<rparr>"

definition clear_budget :: "LobbyDialBudget \<Rightarrow> LobbyDialBudget" where
  "clear_budget s = \<lparr>lpeers = [], lobbies = [], lrecent = []\<rparr>"

section \<open>The two sliding windows\<close>

datatype lobby_event = Allow string string int | ForgetLobby string int

fun lobby_step :: "LobbyDialLimits \<Rightarrow> LobbyDialBudget \<Rightarrow> lobby_event \<Rightarrow> bool \<times> LobbyDialBudget" where
  "lobby_step lim s (Allow lobby peer now) = allow lim s lobby peer now"
| "lobby_step lim s (ForgetLobby lobby now) = (False, forgetLobby s lobby)"

fun lobby_time :: "lobby_event \<Rightarrow> int" where
  "lobby_time (Allow _ _ now) = now"
| "lobby_time (ForgetLobby _ now) = now"

fun is_allow :: "lobby_event \<Rightarrow> bool" where
  "is_allow (Allow _ _ _) \<longleftrightarrow> True"
| "is_allow (ForgetLobby _ _) \<longleftrightarrow> False"

fun in_lobby :: "string \<Rightarrow> string \<times> string \<times> int \<Rightarrow> bool" where
  "in_lobby l (lobby, _, _) \<longleftrightarrow> lobby = l"

interpretation overall: sliding_cap MINUTE_MS "perMinute lim" "lobby_step lim" lobby_time is_allow lrecent "\<lambda>_. True"
  for lim
proof
  fix s :: LobbyDialBudget and e s' b
  show "is_allow e \<Longrightarrow> lobby_step lim s e = (True, s') \<Longrightarrow>
      length (live MINUTE_MS (lobby_time e) (lrecent s)) < perMinute lim \<and>
      lrecent s' = live MINUTE_MS (lobby_time e) (lrecent s) @ [lobby_time e]"
    by (cases e) (auto simp: allow_def live_def Let_def split: if_splits)
  show "lobby_step lim s e = (b, s') \<Longrightarrow> \<not> (is_allow e \<and> b) \<Longrightarrow>
      lrecent s' = lrecent s \<or> lrecent s' = live MINUTE_MS (lobby_time e) (lrecent s)"
    by (cases e) (auto simp: allow_def forgetLobby_def live_def Let_def split: if_splits)
qed simp

interpretation per_lobby: sliding_cap "retryMs lim" "perLobby lim"
    "\<lambda>s (lobby, peer, now). allow lim s lobby peer now" "\<lambda>(lobby, peer, now). now" "in_lobby l"
    "\<lambda>s. js_get_or [] (lobbies s) l" "\<lambda>_. True"
  for lim l
proof
  fix s :: LobbyDialBudget and e :: "string \<times> string \<times> int" and s' b
  obtain lobby peer now where e: "e = (lobby, peer, now)" by (cases e)
  show "in_lobby l e \<Longrightarrow> (case e of (lobby, peer, now) \<Rightarrow> allow lim s lobby peer now) = (True, s') \<Longrightarrow>
      length (live (retryMs lim) (case e of (lobby, peer, now) \<Rightarrow> now) (js_get_or [] (lobbies s) l)) < perLobby lim \<and>
      js_get_or [] (lobbies s') l =
        live (retryMs lim) (case e of (lobby, peer, now) \<Rightarrow> now) (js_get_or [] (lobbies s) l) @
        [case e of (lobby, peer, now) \<Rightarrow> now]"
    by (auto simp: e allow_def live_def Let_def js_get_or_def split: if_splits)
  show "(case e of (lobby, peer, now) \<Rightarrow> allow lim s lobby peer now) = (b, s') \<Longrightarrow> \<not> (in_lobby l e \<and> b) \<Longrightarrow>
      js_get_or [] (lobbies s') l = js_get_or [] (lobbies s) l \<or>
      js_get_or [] (lobbies s') l =
        live (retryMs lim) (case e of (lobby, peer, now) \<Rightarrow> now) (js_get_or [] (lobbies s) l)"
    by (auto simp: e allow_def live_def Let_def js_get_or_def split: if_splits)
qed simp


section \<open>What a relay can get out of a device\<close>

text \<open>The introductions granted over a sequence of \<open>allow\<close> calls, with the lobby each was for.\<close>

fun introductions :: "LobbyDialLimits \<Rightarrow> LobbyDialBudget \<Rightarrow> (string \<times> string \<times> int) list \<Rightarrow> (string \<times> int) list" where
  "introductions lim s [] = []"
| "introductions lim s ((lobby, peer, now) # es) =
     (case allow lim s lobby peer now of
        (b, s') \<Rightarrow> (if b then [(lobby, now)] else []) @ introductions lim s' es)"

lemma introductions_overall:
  "map snd (introductions lim s es) = overall.grants lim s (map (\<lambda>(l, p, t). Allow l p t) es)"
  by (induction lim s es rule: introductions.induct) (auto split: prod.splits)

lemma introductions_lobby:
  "map snd (filter (\<lambda>(l', _). l' = l) (introductions lim s es)) = per_lobby.grants lim l s es"
  by (induction lim s es rule: introductions.induct) (auto split: prod.splits)

text \<open>The dials a relay can cause are bounded: whatever peers and lobbies it lists, in any
  minute the device starts at most \<open>perMinute\<close> introductions, and within any retry window at most
  \<open>perLobby\<close> of them for one lobby.\<close>

theorem lobby_dials_bounded:
  assumes "sorted (map (\<lambda>(_, _, t). t) es)"
  shows "within MINUTE_MS x (map snd (introductions lim new_budget es)) \<le> perMinute lim \<and>
         within (retryMs lim) x (map snd (filter (\<lambda>(l', _). l' = l) (introductions lim new_budget es))) \<le> perLobby lim"
proof
  show "within MINUTE_MS x (map snd (introductions lim new_budget es)) \<le> perMinute lim"
    unfolding introductions_overall
    by (rule overall.never_exceeded) (use assms in \<open>simp_all add: new_budget_def split_def comp_def\<close>)
  show "within (retryMs lim) x (map snd (filter (\<lambda>(l', _). l' = l) (introductions lim new_budget es))) \<le> perLobby lim"
    unfolding introductions_lobby
    by (rule per_lobby.never_exceeded) (use assms in \<open>simp_all add: new_budget_def js_get_or_def\<close>)
qed

theorem lobby_dials_bounded_witness:
  "within MINUTE_MS 0 (map snd (introductions DEFAULT_LOBBY_DIAL_LIMITS new_budget [(''l'', ''p'', 1), (''l'', ''q'', 2)])) \<le> perMinute DEFAULT_LOBBY_DIAL_LIMITS \<and>
   within (retryMs DEFAULT_LOBBY_DIAL_LIMITS) 0 (map snd (filter (\<lambda>(l', _). l' = ''l'') (introductions DEFAULT_LOBBY_DIAL_LIMITS new_budget [(''l'', ''p'', 1), (''l'', ''q'', 2)]))) \<le> perLobby DEFAULT_LOBBY_DIAL_LIMITS"
  by (rule lobby_dials_bounded) simp

end
