(* ===== verification/Flood_Cap.thy ===== *)
theory Flood_Cap
  imports Rate_Window "HOL-Library.Multiset"
begin

text \<open>
  The flood caps for plugin traffic, \<^verbatim>\<open>frontend/src/lib/plugins/flood-cap.ts\<close>: the
  receiver's fixed window per key (\<open>flood_cap\<close>), the sender's sliding window (\<open>send_cap\<close>) and the
  named caps built from them. Each closure's private variables are a record; the injected clock is
  an argument of every call.

  The sender's window is an interpretation of \<open>sliding_cap\<close>, and the point of the module is the
  theorem at the end: what a sender inside its own cap sends, no receiver drops.
\<close>

definition EPHEMERAL_FLOOD_LIMIT :: nat where "EPHEMERAL_FLOOD_LIMIT = 4"
definition EPHEMERAL_FLOOD_WINDOW :: int where "EPHEMERAL_FLOOD_WINDOW = 1000"
definition UPDATE_FLOOD_LIMIT :: nat where "UPDATE_FLOOD_LIMIT = 20"
definition UPDATE_FLOOD_WINDOW :: int where "UPDATE_FLOOD_WINDOW = 10000"
definition CARD_FLOOD_LIMIT :: nat where "CARD_FLOOD_LIMIT = 10"
definition CARD_FLOOD_WINDOW :: int where "CARD_FLOOD_WINDOW = 60000"
definition FLOOD_MAX_KEYS :: nat where "FLOOD_MAX_KEYS = 256"

section \<open>The receiver's cap\<close>

record flood_window =
  resetAt :: int
  wcount :: nat
  wids :: "string list"

record flood_state =
  windows :: "(string, flood_window) jsmap"
  sweepAt :: int

definition new_flood :: flood_state where
  "new_flood = \<lparr>windows = [], sweepAt = 0\<rparr>"

definition flood_sweep :: "int \<Rightarrow> flood_state \<Rightarrow> int \<Rightarrow> flood_state" where
  "flood_sweep windowMs s t =
     (if FLOOD_MAX_KEYS < length (windows s) \<and> sweepAt s \<le> t
      then s\<lparr>sweepAt := t + windowMs, windows := filter (\<lambda>(k, w). \<not> resetAt w \<le> t) (windows s)\<rparr>
      else s)"

definition createFloodCap ::
  "nat \<Rightarrow> int \<Rightarrow> flood_state \<Rightarrow> string \<Rightarrow> string option \<Rightarrow> int \<Rightarrow> bool \<times> flood_state"
where
  \<comment> \<open>one call of the function \<^verbatim>\<open>createFloodCap(limit, windowMs)\<close> returns\<close>
  "createFloodCap limit windowMs s key i t =
     (let s1 = flood_sweep windowMs s t;
          old = js_get (windows s1) key;
          w = (case old of
                 Some w \<Rightarrow> if resetAt w \<le> t then \<lparr>resetAt = t + windowMs, wcount = 0, wids = []\<rparr> else w
               | None \<Rightarrow> \<lparr>resetAt = t + windowMs, wcount = 0, wids = []\<rparr>);
          s2 = s1\<lparr>windows := js_set (windows s1) key w\<rparr>
      in if (case i of None \<Rightarrow> False | Some x \<Rightarrow> x \<in> set (wids w)) then (True, s2)
         else if limit \<le> wcount w then (False, s2)
         else (True, s2\<lparr>windows := js_set (windows s2) key
                 (w\<lparr>wcount := wcount w + 1,
                    wids := (case i of None \<Rightarrow> wids w | Some x \<Rightarrow> set_add (wids w) x)\<rparr>)\<rparr>))"

record plugin_flood =
  ephemeral :: flood_state
  updates :: flood_state
  cards :: flood_state

datatype plugin_message = Ephemeral string string | Update string string string | Card string string string

fun pluginFloodCaps :: "plugin_flood \<Rightarrow> plugin_message \<Rightarrow> int \<Rightarrow> bool \<times> plugin_flood" where
  \<comment> \<open>the three functions of \<^verbatim>\<open>createPluginFloodCaps\<close>, by the message they are asked about\<close>
  "pluginFloodCaps s (Ephemeral pluginId senderId) t =
     (let (b, f) = createFloodCap EPHEMERAL_FLOOD_LIMIT EPHEMERAL_FLOOD_WINDOW (ephemeral s)
                     (pluginId @ ''|'' @ senderId) None t
      in (b, s\<lparr>ephemeral := f\<rparr>))"
| "pluginFloodCaps s (Update roomCode senderId i) t =
     (let (b, f) = createFloodCap UPDATE_FLOOD_LIMIT UPDATE_FLOOD_WINDOW (updates s)
                     (roomCode @ ''|'' @ senderId) (Some i) t
      in (b, s\<lparr>updates := f\<rparr>))"
| "pluginFloodCaps s (Card roomCode senderId i) t =
     (let (b, f) = createFloodCap CARD_FLOOD_LIMIT CARD_FLOOD_WINDOW (cards s)
                     (roomCode @ ''|'' @ senderId) (Some i) t
      in (b, s\<lparr>cards := f\<rparr>))"

section \<open>The sender's cap\<close>

definition SEND_SLACK_MS :: int where "SEND_SLACK_MS = 5000"

record slot =
  slot_key :: string
  slot_at :: int
  released :: bool

datatype SendSlot = Slot slot | Wait int

type_synonym taken = "(string, int list) jsmap"

definition createSendCap :: "nat \<Rightarrow> int \<Rightarrow> taken \<Rightarrow> string \<Rightarrow> int \<Rightarrow> SendSlot \<times> taken" where
  "createSendCap limit windowMs s key t =
     (let span = windowMs + SEND_SLACK_MS;
          times = dropWhile (\<lambda>x. span \<le> t - x) (js_get_or [] s key)
      in if limit \<le> length times then (Wait (hd times + span - t), js_set s key times)
         else (Slot \<lparr>slot_key = key, slot_at = t, released = False\<rparr>, js_set s key (times @ [t])))"

fun remove_last :: "int \<Rightarrow> int list \<Rightarrow> int list" where
  \<comment> \<open>\<^verbatim>\<open>lastIndexOf\<close> and \<^verbatim>\<open>splice\<close>\<close>
  "remove_last x [] = []"
| "remove_last x (y # ys) = (if x \<in> set ys then y # remove_last x ys else if x = y then ys else y # ys)"

definition release_slot :: "taken \<Rightarrow> slot \<Rightarrow> slot \<times> taken" where
  "release_slot s sl =
     (if released sl then (sl, s)
      else (sl\<lparr>released := True\<rparr>,
            js_set s (slot_key sl) (remove_last (slot_at sl) (js_get_or [] s (slot_key sl)))))"

record plugin_send =
  send_updates :: taken
  send_cards :: taken

definition pluginSendUpdate :: "plugin_send \<Rightarrow> string \<Rightarrow> string \<Rightarrow> int \<Rightarrow> SendSlot \<times> plugin_send" where
  "pluginSendUpdate s roomCode senderId t =
     (let (r, f) = createSendCap UPDATE_FLOOD_LIMIT UPDATE_FLOOD_WINDOW (send_updates s) (roomCode @ ''|'' @ senderId) t
      in (r, s\<lparr>send_updates := f\<rparr>))"

definition pluginSendCard :: "plugin_send \<Rightarrow> string \<Rightarrow> string \<Rightarrow> int \<Rightarrow> SendSlot \<times> plugin_send" where
  "pluginSendCard s roomCode senderId t =
     (let (r, f) = createSendCap CARD_FLOOD_LIMIT CARD_FLOOD_WINDOW (send_cards s) (roomCode @ ''|'' @ senderId) t
      in (r, s\<lparr>send_cards := f\<rparr>))"

fun is_slot :: "SendSlot \<Rightarrow> bool" where
  "is_slot (Slot _) \<longleftrightarrow> True"
| "is_slot (Wait _) \<longleftrightarrow> False"

interpretation sending: sliding_cap "windowMs + SEND_SLACK_MS" limit
    "\<lambda>s (key, t). (is_slot (fst (createSendCap limit windowMs s key t)), snd (createSendCap limit windowMs s key t))"
    snd "\<lambda>(key, t). key = k" "\<lambda>s. js_get_or [] s k" "\<lambda>s. sorted (js_get_or [] s k)"
  for limit windowMs k
proof
  fix s :: taken and e :: "string \<times> int" and b s'
  obtain key t where e: "e = (key, t)" by force
  let ?span = "windowMs + SEND_SLACK_MS"
  let ?step = "case e of (key, t) \<Rightarrow>
    (is_slot (fst (createSendCap limit windowMs s key t)), snd (createSendCap limit windowMs s key t))"
  assume ok: "sorted (js_get_or [] s k)"
  then have dw: "dropWhile (\<lambda>x. ?span \<le> t - x) (js_get_or [] s k) = live ?span t (js_get_or [] s k)"
    by (rule live_sorted_dropWhile)
  have own: "createSendCap limit windowMs s k t =
      (if limit \<le> length (live ?span t (js_get_or [] s k))
       then (Wait (hd (live ?span t (js_get_or [] s k)) + ?span - t), js_set s k (live ?span t (js_get_or [] s k)))
       else (Slot \<lparr>slot_key = k, slot_at = t, released = False\<rparr>, js_set s k (live ?span t (js_get_or [] s k) @ [t])))"
    by (simp add: createSendCap_def Let_def dw)
  have other: "js_get_or [] (snd (createSendCap limit windowMs s key t)) k = js_get_or [] s k" if "key \<noteq> k"
    using that by (simp add: createSendCap_def Let_def js_get_or_def)
  show "?step = (b, s') \<Longrightarrow> \<forall>y\<in>set (js_get_or [] s k). y \<le> snd e \<Longrightarrow> sorted (js_get_or [] s' k)"
    using ok other own sorted_live [OF ok, of ?span t]
    by (cases "key = k") (auto simp: e js_get_or_def sorted_append live_def split: if_splits)
  show "(case e of (key, t) \<Rightarrow> key = k) \<Longrightarrow> ?step = (True, s') \<Longrightarrow>
      length (live ?span (snd e) (js_get_or [] s k)) < limit \<and>
      js_get_or [] s' k = live ?span (snd e) (js_get_or [] s k) @ [snd e]"
    using own by (auto simp: e js_get_or_def split: if_splits)
  show "?step = (b, s') \<Longrightarrow> \<not> ((case e of (key, t) \<Rightarrow> key = k) \<and> b) \<Longrightarrow>
      js_get_or [] s' k = js_get_or [] s k \<or> js_get_or [] s' k = live ?span (snd e) (js_get_or [] s k)"
    using other own by (cases "key = k") (auto simp: e js_get_or_def split: if_splits)
qed


section \<open>A sender inside its cap is never dropped\<close>

type_synonym flood_call = "string \<times> string option \<times> int"

fun flood_run :: "nat \<Rightarrow> int \<Rightarrow> flood_state \<Rightarrow> flood_call list \<Rightarrow> (flood_call \<times> bool) list" where
  "flood_run limit W s [] = []"
| "flood_run limit W s ((key, i, t) # cs) =
     (let (b, s') = createFloodCap limit W s key i t in ((key, i, t), b) # flood_run limit W s' cs)"

definition times_of :: "string \<Rightarrow> flood_call list \<Rightarrow> int list" where
  "times_of k cs = map (\<lambda>(_, _, t). t) (filter (\<lambda>(key, _, _). key = k) cs)"

lemma times_of_simps [simp]:
  "times_of k [] = []"
  "times_of k ((key, i, t) # cs) = (if key = k then [t] else []) @ times_of k cs"
  by (simp_all add: times_of_def)

text \<open>The window open for \<open>k\<close>, if any, has counted no more than the calls that fell into it.\<close>

definition window_counts :: "int \<Rightarrow> string \<Rightarrow> flood_state \<Rightarrow> int list \<Rightarrow> int \<Rightarrow> bool" where
  "window_counts W k s past now \<longleftrightarrow> js_wf (windows s) \<and>
     (\<forall>w. js_get (windows s) k = Some w \<longrightarrow>
        resetAt w \<le> now + W \<and> wcount w \<le> within W (resetAt w - W) past)"

lemma sweep_counts:
  "window_counts W k s past now \<Longrightarrow> window_counts W k (flood_sweep W s t) past now"
  by (auto simp: window_counts_def flood_sweep_def js_get_filter split: option.splits if_splits)

lemma flood_own:
  assumes inv: "window_counts W k s past now" and t: "now \<le> t" and W: "0 < W"
    and lim: "\<forall>x. within W x (past @ [t]) \<le> limit"
  shows "fst (createFloodCap limit W s k i t) \<and> window_counts W k (snd (createFloodCap limit W s k i t)) (past @ [t]) t"
proof -
  define s1 where "s1 = flood_sweep W s t"
  have inv1: "window_counts W k s1 past now" unfolding s1_def by (rule sweep_counts [OF inv])
  define w where "w = (case js_get (windows s1) k of
                 Some w \<Rightarrow> if resetAt w \<le> t then \<lparr>resetAt = t + W, wcount = 0, wids = []\<rparr> else w
               | None \<Rightarrow> \<lparr>resetAt = t + W, wcount = 0, wids = []\<rparr>)"
  have w: "resetAt w \<le> t + W" "t < resetAt w" "wcount w \<le> within W (resetAt w - W) past"
    using inv1 t W by (auto simp: w_def window_counts_def split: option.splits)
  then have one: "within W (resetAt w - W) (past @ [t]) = Suc (within W (resetAt w - W) past)" by simp
  then have lt: "wcount w < limit" using lim w(3) by (metis Suc_le_eq le_trans not_less_eq_eq)
  have wf: "js_wf (windows s1)" using inv1 by (simp add: window_counts_def)
  have eq: "createFloodCap limit W s k i t =
     (if (case i of None \<Rightarrow> False | Some x \<Rightarrow> x \<in> set (wids w)) then (True, s1\<lparr>windows := js_set (windows s1) k w\<rparr>)
      else (True, s1\<lparr>windows := js_set (js_set (windows s1) k w) k
                 (w\<lparr>wcount := wcount w + 1,
                    wids := (case i of None \<Rightarrow> wids w | Some x \<Rightarrow> set_add (wids w) x)\<rparr>)\<rparr>))"
    unfolding createFloodCap_def Let_def s1_def [symmetric] w_def [symmetric] using lt by simp
  show ?thesis unfolding eq using w wf one by (auto simp: window_counts_def)
qed

lemma flood_other:
  assumes "window_counts W k s past now" and "now \<le> t" and "key \<noteq> k"
  shows "window_counts W k (snd (createFloodCap limit W s key i t)) past t"
  using sweep_counts [OF assms(1), of t] assms(2,3)
  by (auto simp: createFloodCap_def window_counts_def Let_def)

lemma flood_run_passes:
  assumes "window_counts W k s past now" and "0 < W" and "\<forall>x. within W x (past @ times_of k cs) \<le> limit"
    and "sorted (now # map (\<lambda>(_, _, t). t) cs)"
  shows "list_all (\<lambda>((key, _, _), b). key = k \<longrightarrow> b) (flood_run limit W s cs)"
  using assms
proof (induction cs arbitrary: s past now)
  case (Cons c cs)
  obtain key i t where c: "c = (key, i, t)" by (cases c)
  obtain b s' where st: "createFloodCap limit W s key i t = (b, s')" by force
  have t: "now \<le> t" and srt: "sorted (t # map (\<lambda>(_, _, t). t) cs)" using Cons.prems(4) by (auto simp: c)
  show ?case
  proof (cases "key = k")
    case True
    have lim: "\<forall>x. within W x ((past @ [t]) @ times_of k cs) \<le> limit" using Cons.prems(3) True by (simp add: c)
    then have "\<forall>x. within W x (past @ [t]) \<le> limit" by (metis le_add1 le_trans within_append)
    from flood_own [OF Cons.prems(1) t Cons.prems(2) this, of i] st True
    have "b" "window_counts W k s' (past @ [t]) t" by auto
    with Cons.IH [OF _ Cons.prems(2) lim srt] st show ?thesis by (simp add: c)
  next
    case False
    have "window_counts W k s' past t" using flood_other [OF Cons.prems(1) t False] st by (metis snd_conv)
    moreover have "\<forall>x. within W x (past @ times_of k cs) \<le> limit" using Cons.prems(3) False by (simp add: c)
    ultimately show ?thesis using Cons.IH [OF _ Cons.prems(2) _ srt] st False by (simp add: c)
  qed
qed simp

text \<open>Messages that take between \<open>lo\<close> and \<open>lo + SEND_SLACK_MS\<close> to arrive are at most as dense
  on arrival as the sender's longer window allows.\<close>

lemma arrivals_within:
  assumes "list_all2 (\<lambda>a s. s + lo \<le> a \<and> a \<le> s + lo + SEND_SLACK_MS) as ss"
  shows "within W x as \<le> within (W + SEND_SLACK_MS) (x - lo - SEND_SLACK_MS) ss"
  using assms by (induction as ss rule: list_all2_induct) (auto simp: within_def)

lemma within_mset: "mset as = mset bs \<Longrightarrow> within span x as = within span x bs"
  unfolding within_def by (metis mset_filter size_mset)

fun send_run :: "nat \<Rightarrow> int \<Rightarrow> taken \<Rightarrow> (string \<times> int) list \<Rightarrow> (string \<times> int) list" where
  \<comment> \<open>the sends that got a slot\<close>
  "send_run limit W s [] = []"
| "send_run limit W s ((key, t) # cs) =
     (let (r, s') = createSendCap limit W s key t
      in (if is_slot r then [(key, t)] else []) @ send_run limit W s' cs)"

lemma send_run_grants:
  "map snd (filter (\<lambda>(key, _). key = k) (send_run limit W s cs)) = sending.grants limit W k s cs"
  by (induction limit W s cs rule: send_run.induct) (auto split: prod.splits)

text \<open>What the sending cap lets out, no receiver drops. A sender asks for a slot at each send and
  sends only with one; its messages reach a receiver in any order, each between \<open>lo\<close> and
  \<open>lo + 5 s\<close> after it left, mixed with other senders' traffic in any way. Then the receiver's cap
  with the same limit and window lets every one of them through, wherever its windows start.\<close>

theorem paced_sender_not_dropped:
  assumes "0 < W" and "sorted (map snd sends)" and "sorted (map (\<lambda>(_, _, t). t) arrivals)"
    and "mset (times_of k arrivals) = mset as"
    and "list_all2 (\<lambda>a s. s + lo \<le> a \<and> a \<le> s + lo + SEND_SLACK_MS) as
           (map snd (filter (\<lambda>(key, _). key = k) (send_run limit W [] sends)))"
  shows "list_all (\<lambda>((key, _, _), b). key = k \<longrightarrow> b) (flood_run limit W new_flood arrivals)"
proof (cases arrivals)
  case (Cons c cs)
  have lim: "within W x (times_of k arrivals) \<le> limit" for x
  proof -
    have "within W x (times_of k arrivals) = within W x as" by (rule within_mset [OF assms(4)])
    also have "\<dots> \<le> within (W + SEND_SLACK_MS) (x - lo - SEND_SLACK_MS)
        (map snd (filter (\<lambda>(key, _). key = k) (send_run limit W [] sends)))"
      by (rule arrivals_within [OF assms(5)])
    also have "\<dots> \<le> limit" unfolding send_run_grants
      by (rule sending.never_exceeded) (use assms(2) in \<open>simp_all add: js_get_or_def\<close>)
    finally show ?thesis .
  qed
  let ?now = "snd (snd c)"
  have "sorted (?now # map (\<lambda>(_, _, t). t) arrivals)" using assms(3) Cons by (auto simp: split_def)
  then show ?thesis using lim assms(1)
    by (intro flood_run_passes [where past = "[]" and now = ?now])
      (simp_all add: window_counts_def new_flood_def)
qed simp

theorem paced_sender_not_dropped_witness:
  "list_all (\<lambda>((key, _, _), b). key = ''r|s'' \<longrightarrow> b)
     (flood_run CARD_FLOOD_LIMIT CARD_FLOOD_WINDOW new_flood [(''r|s'', Some ''a'', 150), (''r|s'', Some ''b'', 4000)])"
proof (rule paced_sender_not_dropped [where lo = 100 and sends = "[(''r|s'', 50), (''r|s'', 60)]" and as = "[150, 4000]"])
  show "list_all2 (\<lambda>a s. s + 100 \<le> a \<and> a \<le> s + 100 + SEND_SLACK_MS) [150, 4000]
     (map snd (filter (\<lambda>(key, _). key = ''r|s'')
       (send_run CARD_FLOOD_LIMIT CARD_FLOOD_WINDOW [] [(''r|s'', 50), (''r|s'', 60)])))"
    by (simp add: createSendCap_def SEND_SLACK_MS_def CARD_FLOOD_LIMIT_def CARD_FLOOD_WINDOW_def js_get_or_def)
qed (simp_all add: CARD_FLOOD_WINDOW_def)

end
