(* ===== verification/Js_Strings.thy ===== *)
theory Js_Strings
  imports Prelude
begin

text \<open>
  The string methods of the language that the modelled code uses: \<^verbatim>\<open>split\<close>,
  \<^verbatim>\<open>join\<close>, \<^verbatim>\<open>trim\<close>, \<^verbatim>\<open>toLowerCase\<close>,
  \<^verbatim>\<open>slice\<close> and the decimal printing of an integer.
\<close>

fun split_on :: "char \<Rightarrow> string \<Rightarrow> string list" where
  \<comment> \<open>\<^verbatim>\<open>s.split(c)\<close> for a one-character separator\<close>
  "split_on c [] = [[]]"
| "split_on c (x # xs) =
     (if x = c then [] # split_on c xs
      else case split_on c xs of [] \<Rightarrow> [[x]] | p # ps \<Rightarrow> (x # p) # ps)"

fun js_join :: "string \<Rightarrow> string list \<Rightarrow> string" where
  "js_join sep [] = []"
| "js_join sep [p] = p"
| "js_join sep (p # q # ps) = p @ sep @ js_join sep (q # ps)"

definition is_space :: "char \<Rightarrow> bool" where
  \<comment> \<open>the white space and line terminators among the first 256 code units\<close>
  "is_space c \<longleftrightarrow> (let n = of_char c :: nat in n = 32 \<or> 9 \<le> n \<and> n \<le> 13 \<or> n = 160)"

definition js_trim :: "string \<Rightarrow> string" where
  "js_trim s = rev (dropWhile is_space (rev (dropWhile is_space s)))"

definition lower_char :: "char \<Rightarrow> char" where
  "lower_char c = (let n = of_char c :: nat in if 65 \<le> n \<and> n \<le> 90 then char_of (n + 32) else c)"

definition to_lower :: "string \<Rightarrow> string" where
  "to_lower s = map lower_char s"

definition is_digit :: "char \<Rightarrow> bool" where
  "is_digit c \<longleftrightarrow> (let n = of_char c :: nat in 48 \<le> n \<and> n \<le> 57)"

definition digit_char :: "nat \<Rightarrow> char" where
  "digit_char d = char_of (48 + d)"

fun show_nat :: "nat \<Rightarrow> string" where
  "show_nat n = (if n < 10 then [digit_char n] else show_nat (n div 10) @ [digit_char (n mod 10)])"

declare show_nat.simps [simp del]

definition show_int :: "int \<Rightarrow> string" where
  "show_int i = (if i < 0 then ''-'' @ show_nat (nat (- i)) else show_nat (nat i))"

definition parse_digits :: "string \<Rightarrow> nat" where
  "parse_digits s = foldl (\<lambda>n c. 10 * n + (of_char c - 48)) 0 s"

lemma split_on_not_Nil [simp]: "split_on c s \<noteq> []"
  by (induction s) (auto split: list.splits)

lemma split_on_append: "split_on c (a @ c # b) = split_on c a @ split_on c b"
  by (induction a) (auto split: list.splits)

lemma split_on_plain: "c \<notin> set s \<Longrightarrow> split_on c s = [s]"
  by (induction s) auto

lemma split_join:
  "ps \<noteq> [] \<Longrightarrow> \<forall>p\<in>set ps. c \<notin> set p \<Longrightarrow> split_on c (js_join [c] ps) = ps"
proof (induction "[c]" ps rule: js_join.induct)
  case (3 p q ps)
  then show ?case by (simp add: split_on_append split_on_plain)
qed (simp_all add: split_on_plain)

lemma join_split: "js_join [c] (split_on c s) = s"
proof (induction s)
  case (Cons x xs)
  obtain p ps where ps: "split_on c xs = p # ps" by (cases "split_on c xs") auto
  with Cons show ?case by (cases ps) auto
qed simp

lemma js_trim_plain:
  "s = [] \<or> \<not> is_space (hd s) \<and> \<not> is_space (last s) \<Longrightarrow> js_trim s = s"
proof (elim disjE)
  assume a: "\<not> is_space (hd s) \<and> \<not> is_space (last s)"
  then have "dropWhile is_space s = s" by (cases s) auto
  moreover have "dropWhile is_space (rev s) = rev s" using a by (cases s rule: rev_cases) auto
  ultimately show ?thesis by (simp add: js_trim_def)
qed (simp add: js_trim_def)

lemma parse_digits_snoc: "parse_digits (s @ [c]) = 10 * parse_digits s + (of_char c - 48)"
  by (simp add: parse_digits_def)

lemma digit_value: "d < 10 \<Longrightarrow> (of_char (digit_char d) :: nat) = 48 + d"
  by (simp add: digit_char_def)

lemma parse_show_nat [simp]: "parse_digits (show_nat n) = n"
proof (induction n rule: show_nat.induct)
  case (1 n)
  show ?case
  proof (cases "n < 10")
    case True
    then show ?thesis by (simp add: show_nat.simps [of n] parse_digits_def digit_value)
  next
    case False
    with 1 show ?thesis by (simp add: show_nat.simps [of n] parse_digits_snoc digit_value)
  qed
qed

lemma show_nat_inject [simp]: "show_nat m = show_nat n \<longleftrightarrow> m = n"
  by (metis parse_show_nat)

lemma show_nat_digits: "list_all is_digit (show_nat n)"
proof (induction n rule: show_nat.induct)
  case (1 n)
  have "n mod 10 \<le> 9" by (simp add: less_Suc_eq_le [symmetric])
  with 1 show ?case by (simp add: show_nat.simps [of n] is_digit_def digit_value)
qed

end
