(* ===== verification/Sfu_Admission.thy ===== *)
theory Sfu_Admission
  imports Js_Strings
begin

text \<open>
  Who may open a signalling socket on the SFU, \<^verbatim>\<open>sfu/admission.ts\<close>: the Origin check,
  the bucket a socket counts against, and the table of sockets that have not joined yet.

  Node's own address and URL functions are parameters: \<open>isIPv4\<close>, \<open>isIPv6\<close>, the \<open>BlockList\<close> built
  from the configuration (\<open>trustedProxies\<close>, as the test it answers) and the URL parser, which gives
  the protocol and the origin or fails.
\<close>

record net =
  isIPv4 :: "string \<Rightarrow> bool"
  isIPv6 :: "string \<Rightarrow> bool"
  parseURL :: "string \<Rightarrow> (string \<times> string) option"

record AdmissionConfig =
  allowedOrigins :: "string list"
  strict :: bool
  trustedProxies :: "string \<Rightarrow> bool"
  maxPendingPerClient :: nat
  maxPendingPerProxy :: nat
  maxPendingTotal :: nat

section \<open>Configuration numbers\<close>

datatype config_error = Not_positive_integer string

definition intFrom :: "(string, string) jsmap \<Rightarrow> string \<Rightarrow> nat \<Rightarrow> config_error + nat" where
  "intFrom env name fallback =
     (case map_option js_trim (js_get env name) of
        None \<Rightarrow> Inr fallback
      | Some raw \<Rightarrow>
          if raw = [] then Inr fallback
          else if \<not> list_all is_digit raw \<or> \<not> int (parse_digits raw) \<le> MAX_SAFE_INTEGER \<or> parse_digits raw < 1
          then Inl (Not_positive_integer name)
          else Inr (parse_digits raw))"

section \<open>Origins\<close>

definition normalizeOrigin :: "net \<Rightarrow> string \<Rightarrow> string option" where
  "normalizeOrigin n raw =
     (if raw = [] then None
      else case parseURL n raw of
             None \<Rightarrow> None
           | Some (protocol, origin) \<Rightarrow>
               if protocol \<noteq> ''https:'' \<and> protocol \<noteq> ''http:'' then None else Some (to_lower origin))"

definition originAllowed :: "net \<Rightarrow> AdmissionConfig \<Rightarrow> string option \<Rightarrow> bool" where
  "originAllowed n cfg origin =
     (case origin of
        None \<Rightarrow> True
      | Some o' \<Rightarrow>
          if o' = [] then True
          else if \<not> strict cfg then True
          else case normalizeOrigin n o' of None \<Rightarrow> False | Some x \<Rightarrow> x \<in> set (allowedOrigins cfg))"

section \<open>Buckets\<close>




fun split_dc :: "string \<Rightarrow> string list" where
  \<comment> \<open>\<^verbatim>\<open>s.split("::")\<close>\<close>
  "split_dc [] = [[]]"
| "split_dc [x] = [[x]]"
| "split_dc (x # y # xs) =
     (if x = CHR '':'' \<and> y = CHR '':'' then [] # split_dc xs
      else case split_dc (y # xs) of [] \<Rightarrow> [[x]] | p # ps \<Rightarrow> (x # p) # ps)"

fun strip_zeros :: "string \<Rightarrow> string" where
  \<comment> \<open>\<^verbatim>\<open>g.replace(/^0+(?=.)/, "")\<close>\<close>
  "strip_zeros (x # y # xs) = (if x = CHR ''0'' then strip_zeros (y # xs) else x # y # xs)"
| "strip_zeros s = s"

definition groups_of :: "string \<Rightarrow> string list" where
  "groups_of addr =
     (let parts = split_dc (to_lower addr);
          phead = hd parts;
          ptail = (case tl parts of [] \<Rightarrow> [] | t # _ \<Rightarrow> t);
          left = (if phead = [] then [] else split_on CHR '':'' phead);
          right = (if ptail = [] then [] else split_on CHR '':'' ptail)
      in if 1 < length (split_dc addr) then left @ replicate (8 - length left - length right) ''0'' @ right
         else left)"

definition bucketOf :: "net \<Rightarrow> string \<Rightarrow> string" where
  "bucketOf n addr =
     (if \<not> isIPv6 n addr then addr
      else js_join '':'' (map strip_zeros (take 4 (groups_of addr))) @ ''::/64'')"

record ClientKey =
  ckey :: string
  proxy :: bool






definition demo_net :: net where
  "demo_net = \<lparr>isIPv4 = \<lambda>s. length (split_on CHR ''.'' s) = 4, isIPv6 = \<lambda>s. CHR '':'' \<in> set s, parseURL = \<lambda>_. None\<rparr>"

definition demo_config :: AdmissionConfig where
  "demo_config = \<lparr>allowedOrigins = [], strict = True, trustedProxies = \<lambda>s. take 3 s = ''10.'',
     maxPendingPerClient = 8, maxPendingPerProxy = 256, maxPendingTotal = 1024\<rparr>"


section \<open>One bucket per /64\<close>

fun dc_free :: "string \<Rightarrow> bool" where
  "dc_free (x # y # xs) \<longleftrightarrow> \<not> (x = CHR '':'' \<and> y = CHR '':'') \<and> dc_free (y # xs)"
| "dc_free _ \<longleftrightarrow> True"

lemma split_dc_free: "dc_free s \<Longrightarrow> split_dc s = [s]"
  by (induction s rule: dc_free.induct) auto

lemma split_dc_append:
  "dc_free a \<Longrightarrow> a = [] \<or> last a \<noteq> CHR '':'' \<Longrightarrow> split_dc (a @ CHR '':'' # CHR '':'' # b) = a # split_dc b"
  by (induction a rule: dc_free.induct) auto

text \<open>A group: what stands between two colons.\<close>

definition is_group :: "string \<Rightarrow> bool" where
  "is_group g \<longleftrightarrow> g \<noteq> [] \<and> CHR '':'' \<notin> set g"

lemma lower_colon [simp]: "lower_char CHR '':'' = CHR '':''"
  by (simp add: lower_char_def)

lemma lower_colon_iff: "lower_char c = CHR '':'' \<longleftrightarrow> c = CHR '':''"
proof
  assume c: "lower_char c = CHR '':''"
  show "c = CHR '':''"
  proof (cases "65 \<le> (of_char c :: nat) \<and> of_char c \<le> (90 :: nat)")
    case True
    then have "(of_char (lower_char c) :: nat) = of_char c + 32" by (simp add: lower_char_def Let_def)
    with c True show ?thesis by simp
  qed (use c in \<open>auto simp: lower_char_def Let_def\<close>)
qed simp

lemma group_lower:
  assumes "is_group g"
  shows "is_group (to_lower g)"
proof -
  have "lower_char c \<noteq> CHR '':''" if "c \<in> set g" for c
    using that assms lower_colon_iff [of c] unfolding is_group_def by blast
  then have "CHR '':'' \<notin> lower_char ` set g" by (metis imageE)
  then show ?thesis using assms by (simp add: is_group_def to_lower_def)
qed

lemma to_lower_join: "to_lower (js_join '':'' ps) = js_join '':'' (map to_lower ps)"
  by (induction "'':''" ps rule: js_join.induct) (simp_all add: to_lower_def)

lemma dc_free_group: "CHR '':'' \<notin> set g \<Longrightarrow> g \<noteq> [] \<Longrightarrow> dc_free (g @ CHR '':'' # s) \<longleftrightarrow> s = [] \<or> hd s \<noteq> CHR '':'' \<and> dc_free s"
proof (induction g)
  case (Cons x g)
  show ?case
  proof (cases g)
    case Nil
    then show ?thesis using Cons.prems by (cases s) auto
  next
    case (Cons y ys)
    then show ?thesis using Cons.IH Cons.prems by auto
  qed
qed simp

lemma dc_free_plain: "CHR '':'' \<notin> set g \<Longrightarrow> dc_free g"
  by (induction g rule: dc_free.induct) auto

lemma join_groups:
  "list_all is_group ps \<Longrightarrow> ps \<noteq> [] \<Longrightarrow>
   js_join '':'' ps \<noteq> [] \<and> dc_free (js_join '':'' ps) \<and> hd (js_join '':'' ps) \<noteq> CHR '':'' \<and> last (js_join '':'' ps) \<noteq> CHR '':''"
proof (induction "'':''" ps rule: js_join.induct)
  case (2 p)
  then show ?case by (auto simp: is_group_def dc_free_plain dest: hd_in_set last_in_set)
next
  case (3 p q ps)
  then have IH: "js_join '':'' (q # ps) \<noteq> []" "dc_free (js_join '':'' (q # ps))"
      "hd (js_join '':'' (q # ps)) \<noteq> CHR '':''" "last (js_join '':'' (q # ps)) \<noteq> CHR '':''"
    and p: "p \<noteq> []" "CHR '':'' \<notin> set p" by (auto simp: is_group_def)
  then show ?case using dc_free_group [OF p(2,1), of "js_join '':'' (q # ps)"]
    by (auto simp: hd_append dest: hd_in_set)
qed simp

lemma split_groups: "list_all is_group ps \<Longrightarrow> ps \<noteq> [] \<Longrightarrow> split_on CHR '':'' (js_join '':'' ps) = ps"
  by (rule split_join) (auto simp: list_all_iff is_group_def)

lemma lower_groups: "list_all is_group ps \<Longrightarrow> list_all is_group (map to_lower ps)"
  by (simp add: list_all_iff group_lower)

lemma groups_full:
  assumes "list_all is_group gs" "gs \<noteq> []"
  shows "groups_of (js_join '':'' gs) = map to_lower gs"
proof -
  note l = lower_groups [OF assms(1)]
  have "split_dc (to_lower (js_join '':'' gs)) = [js_join '':'' (map to_lower gs)]"
    using join_groups [OF l] assms(2) by (simp add: to_lower_join split_dc_free)
  moreover have "split_dc (js_join '':'' gs) = [js_join '':'' gs]"
    using join_groups [OF assms] by (simp add: split_dc_free)
  ultimately show ?thesis
    using join_groups [OF l] split_groups [OF l] assms(2) by (simp add: groups_of_def)
qed

lemma join_side:
  assumes "list_all is_group l"
  shows "dc_free (js_join '':'' l) \<and> (js_join '':'' l = [] \<or> last (js_join '':'' l) \<noteq> CHR '':'') \<and>
         (if js_join '':'' l = [] then [] else split_on CHR '':'' (js_join '':'' l)) = l"
  using join_groups [OF assms] split_groups [OF assms] by (cases "l = []") auto

lemma groups_compressed:
  assumes "list_all is_group l" "list_all is_group r"
  shows "groups_of (js_join '':'' l @ ''::'' @ js_join '':'' r) =
     map to_lower l @ replicate (8 - length l - length r) ''0'' @ map to_lower r"
proof -
  let ?L = "js_join '':'' (map to_lower l)" and ?R = "js_join '':'' (map to_lower r)"
  note jl = join_side [OF lower_groups [OF assms(1)]] and jr = join_side [OF lower_groups [OF assms(2)]]
  have low: "to_lower (js_join '':'' l @ ''::'' @ js_join '':'' r) = ?L @ CHR '':'' # CHR '':'' # ?R"
    by (simp add: to_lower_join [symmetric]) (simp add: to_lower_def)
  have 1: "split_dc (to_lower (js_join '':'' l @ ''::'' @ js_join '':'' r)) = [?L, ?R]"
    unfolding low using jl jr by (simp add: split_dc_append split_dc_free)
  have 2: "length (split_dc (js_join '':'' l @ ''::'' @ js_join '':'' r)) = 2"
    using join_side [OF assms(1)] join_side [OF assms(2)] by (simp add: split_dc_append split_dc_free)
  have sides: "(if ?L = [] then [] else split_on CHR '':'' ?L) = map to_lower l"
    "(if ?R = [] then [] else split_on CHR '':'' ?R) = map to_lower r" using jl jr by blast+
  show ?thesis unfolding groups_of_def 1 Let_def list.sel list.case sides 2 by simp
qed

text \<open>Every spelling of an IPv6 address counts in one bucket: writing the zero groups out or as
  \<^verbatim>\<open>::\<close> gives the same bucket, which is the first four groups without their
  leading zeros, so no one multiplies their slots by respelling an address or by moving within
  a /64.\<close>

theorem bucket_of_respelling:
  assumes "list_all is_group l" and "list_all is_group r" and "length l + length r < 8"
    and "isIPv6 n (js_join '':'' l @ ''::'' @ js_join '':'' r)"
    and "isIPv6 n (js_join '':'' (l @ replicate (8 - length l - length r) ''0'' @ r))"
  shows "bucketOf n (js_join '':'' l @ ''::'' @ js_join '':'' r)
           = bucketOf n (js_join '':'' (l @ replicate (8 - length l - length r) ''0'' @ r)) \<and>
         bucketOf n (js_join '':'' l @ ''::'' @ js_join '':'' r)
           = js_join '':'' (map (\<lambda>g. strip_zeros (to_lower g)) (take 4 (l @ replicate (8 - length l - length r) ''0'' @ r))) @ ''::/64''"
proof -
  let ?gs = "l @ replicate (8 - length l - length r) ''0'' @ r"
  have z: "to_lower ''0'' = ''0''" by code_simp
  have "list_all is_group ?gs" "?gs \<noteq> []" using assms(1,2,3) by (auto simp: list_all_iff is_group_def)
  then have "groups_of (js_join '':'' ?gs) = map to_lower ?gs" by (rule groups_full)
  moreover have "groups_of (js_join '':'' l @ ''::'' @ js_join '':'' r) = map to_lower ?gs"
    using groups_compressed [OF assms(1,2)] by (simp add: z map_replicate_const)
  ultimately show ?thesis using assms(4,5) by (simp only: bucketOf_def) (simp add: take_map comp_def)
qed

theorem bucket_of_respelling_witness:
  "bucketOf demo_net (js_join '':'' [''2001'', ''0DB8''] @ ''::'' @ js_join '':'' [''1''])
     = bucketOf demo_net (js_join '':'' ([''2001'', ''0DB8''] @ replicate (8 - length [''2001'', ''0DB8''] - length [''1'']) ''0'' @ [''1''])) \<and>
   bucketOf demo_net (js_join '':'' [''2001'', ''0DB8''] @ ''::'' @ js_join '':'' [''1''])
     = js_join '':'' (map (\<lambda>g. strip_zeros (to_lower g)) (take 4 ([''2001'', ''0DB8''] @ replicate (8 - length [''2001'', ''0DB8''] - length [''1'']) ''0'' @ [''1'']))) @ ''::/64''"
proof (rule bucket_of_respelling)
  show "isIPv6 demo_net (js_join '':'' [''2001'', ''0DB8''] @ ''::'' @ js_join '':'' [''1''])" by code_simp
  show "isIPv6 demo_net (js_join '':'' ([''2001'', ''0DB8''] @ replicate (8 - length [''2001'', ''0DB8''] - length [''1'']) ''0'' @ [''1'']))"
    by code_simp
qed (simp_all add: is_group_def)


section \<open>Pending sockets\<close>

text \<open>A slot handed out is an entry of \<open>slots\<close>: the key it counts against and the \<open>released\<close> flag its
  closure keeps, so that releasing twice is the call the code makes harmless.\<close>

record PendingSockets =
  perKey :: "(string, nat) jsmap"
  ptotal :: nat
  slots :: "(string \<times> bool) list"

definition new_pending :: PendingSockets where
  "new_pending = \<lparr>perKey = [], ptotal = 0, slots = []\<rparr>"

definition tryAcquire :: "AdmissionConfig \<Rightarrow> PendingSockets \<Rightarrow> ClientKey \<Rightarrow> nat option \<times> PendingSockets" where
  \<comment> \<open>the number of the slot taken, or \<open>None\<close> for the code's \<^verbatim>\<open>null\<close>\<close>
  "tryAcquire cfg s k =
     (let cap = (if proxy k then maxPendingPerProxy cfg else maxPendingPerClient cfg);
          held = js_get_or 0 (perKey s) (ckey k)
      in if cap \<le> held \<or> maxPendingTotal cfg \<le> ptotal s then (None, s)
         else (Some (length (slots s)),
               s\<lparr>perKey := js_set (perKey s) (ckey k) (held + 1), ptotal := ptotal s + 1,
                 slots := slots s @ [(ckey k, False)]\<rparr>))"

definition release_pending :: "PendingSockets \<Rightarrow> nat \<Rightarrow> PendingSockets" where
  "release_pending s i =
     (if length (slots s) \<le> i then s
      else
        let (k, rel) = slots s ! i in
        if rel then s
        else
          let n = int (js_get_or 1 (perKey s) k) - 1 in
          s\<lparr>slots := (slots s)[i := (k, True)], ptotal := ptotal s - 1,
            perKey := (if 0 < n then js_set (perKey s) k (nat n) else js_delete (perKey s) k)\<rparr>)"

datatype pending_event = Acquire ClientKey | Release_slot nat

fun pending_step :: "AdmissionConfig \<Rightarrow> PendingSockets \<Rightarrow> pending_event \<Rightarrow> PendingSockets" where
  "pending_step cfg s (Acquire k) = snd (tryAcquire cfg s k)"
| "pending_step cfg s (Release_slot i) = release_pending s i"

fun pending_run :: "AdmissionConfig \<Rightarrow> PendingSockets \<Rightarrow> pending_event list \<Rightarrow> PendingSockets" where
  "pending_run cfg s [] = s"
| "pending_run cfg s (e # es) = pending_run cfg (pending_step cfg s e) es"

definition holding :: "PendingSockets \<Rightarrow> string \<Rightarrow> nat" where
  "holding s k = length (filter (\<lambda>x. x = (k, False)) (slots s))"

definition holding_all :: "PendingSockets \<Rightarrow> nat" where
  "holding_all s = length (filter (\<lambda>(_, rel). \<not> rel) (slots s))"

definition pending_ok :: "AdmissionConfig \<Rightarrow> (string \<Rightarrow> bool) \<Rightarrow> PendingSockets \<Rightarrow> bool" where
  "pending_ok cfg is_proxy s \<longleftrightarrow> ptotal s = holding_all s \<and> ptotal s \<le> maxPendingTotal cfg \<and>
     (\<forall>k. js_get (perKey s) k = (if holding s k = 0 then None else Some (holding s k))) \<and>
     (\<forall>k. holding s k \<le> (if is_proxy k then maxPendingPerProxy cfg else maxPendingPerClient cfg))"

lemma acquire_ok:
  assumes ok: "pending_ok cfg is_proxy s" and k: "proxy k = is_proxy (ckey k)"
  shows "pending_ok cfg is_proxy (snd (tryAcquire cfg s k))"
proof (cases "fst (tryAcquire cfg s k)")
  case None
  then show ?thesis using ok by (auto simp: tryAcquire_def Let_def split: if_splits)
next
  case (Some i)
  let ?cap = "if proxy k then maxPendingPerProxy cfg else maxPendingPerClient cfg"
  have h: "js_get_or 0 (perKey s) (ckey k) = holding s (ckey k)"
    using ok by (simp add: pending_ok_def js_get_or_def)
  have lt: "holding s (ckey k) < ?cap" "ptotal s < maxPendingTotal cfg"
    and s': "snd (tryAcquire cfg s k) = s\<lparr>perKey := js_set (perKey s) (ckey k) (holding s (ckey k) + 1),
       ptotal := ptotal s + 1, slots := slots s @ [(ckey k, False)]\<rparr>"
    using Some h by (auto simp: tryAcquire_def Let_def split: if_splits)
  show ?thesis unfolding s' using ok lt k
    by (auto simp: pending_ok_def holding_def holding_all_def split: if_splits)
qed

lemma release_ok:
  assumes ok: "pending_ok cfg is_proxy s"
  shows "pending_ok cfg is_proxy (release_pending s i)"
proof (cases "i < length (slots s) \<and> \<not> snd (slots s ! i)")
  case False
  then show ?thesis using ok by (auto simp: release_pending_def split: prod.splits)
next
  case True
  define k where "k = fst (slots s ! i)"
  have sl: "slots s ! i = (k, False)" "i < length (slots s)" using True by (auto simp: k_def prod_eq_iff)
  let ?s = "(slots s)[i := (k, True)]"
  have own: "Suc (length (filter (\<lambda>x. x = (k, False)) ?s)) = holding s k"
    unfolding holding_def by (rule filter_update) (use sl in auto)
  have all: "Suc (length (filter (\<lambda>(_, rel). \<not> rel) ?s)) = holding_all s"
    unfolding holding_all_def by (rule filter_update) (use sl in auto)
  have other: "length (filter (\<lambda>x. x = (k', False)) ?s) = holding s k'" if "k' \<noteq> k" for k'
    unfolding holding_def by (rule filter_update_other) (use sl that in auto)
  have g: "js_get (perKey s) k = Some (holding s k)" using ok own by (auto simp: pending_ok_def)
  have s': "release_pending s i = s\<lparr>slots := ?s, ptotal := ptotal s - 1,
      perKey := (if 1 < holding s k then js_set (perKey s) k (holding s k - 1) else js_delete (perKey s) k)\<rparr>"
    using sl g by (auto simp: release_pending_def js_get_or_def Let_def nat_diff_distrib)
  have hold': "holding (release_pending s i) k' = (if k' = k then holding s k - 1 else holding s k')" for k'
    using own other [of k'] by (auto simp: s' holding_def)
  have "holding_all (release_pending s i) = holding_all s - 1" using all by (simp add: s' holding_all_def)
  moreover have "js_get (perKey (release_pending s i)) k' =
      (if holding (release_pending s i) k' = 0 then None else Some (holding (release_pending s i) k'))" for k'
    using ok own unfolding hold' by (auto simp: s' pending_ok_def)
  moreover have "holding (release_pending s i) k' \<le>
      (if is_proxy k' then maxPendingPerProxy cfg else maxPendingPerClient cfg)" for k'
  proof -
    have "holding (release_pending s i) k' \<le> holding s k'" by (simp add: hold')
    also have "\<dots> \<le> (if is_proxy k' then maxPendingPerProxy cfg else maxPendingPerClient cfg)"
      using ok by (simp only: pending_ok_def)
    finally show ?thesis .
  qed
  moreover have "ptotal (release_pending s i) = ptotal s - 1" by (simp add: s')
  moreover have "ptotal s = holding_all s" "ptotal s \<le> maxPendingTotal cfg" using ok by (simp_all add: pending_ok_def)
  ultimately show ?thesis unfolding pending_ok_def by simp
qed

lemma pending_run_ok:
  "pending_ok cfg is_proxy s \<Longrightarrow> list_all (\<lambda>e. case e of Acquire k \<Rightarrow> proxy k = is_proxy (ckey k) | _ \<Rightarrow> True) es \<Longrightarrow>
   pending_ok cfg is_proxy (pending_run cfg s es)"
proof (induction es arbitrary: s)
  case (Cons e es)
  then show ?case using acquire_ok release_ok by (cases e) auto
qed simp

text \<open>C39: unjoined sockets are bounded and never leaked: over any sequence of acquisitions and
  releases, releases repeated included, the counters equal the slots really outstanding, in
  total and per bucket, they stay within the configured limits, and a bucket with no outstanding
  slot takes no memory.\<close>

theorem pending_sockets_exact:
  assumes "list_all (\<lambda>e. case e of Acquire k \<Rightarrow> proxy k = is_proxy (ckey k) | _ \<Rightarrow> True) es"
  shows "ptotal (pending_run cfg new_pending es) = holding_all (pending_run cfg new_pending es) \<and>
     ptotal (pending_run cfg new_pending es) \<le> maxPendingTotal cfg \<and>
     js_get (perKey (pending_run cfg new_pending es)) k =
       (if holding (pending_run cfg new_pending es) k = 0 then None
        else Some (holding (pending_run cfg new_pending es) k)) \<and>
     holding (pending_run cfg new_pending es) k \<le>
       (if is_proxy k then maxPendingPerProxy cfg else maxPendingPerClient cfg)"
proof -
  have "pending_ok cfg is_proxy new_pending"
    by (simp add: pending_ok_def new_pending_def holding_def holding_all_def)
  from pending_run_ok [OF this assms] show ?thesis by (simp add: pending_ok_def)
qed

definition demo_pending :: "pending_event list" where
  "demo_pending = [Acquire \<lparr>ckey = ''a'', proxy = False\<rparr>, Acquire \<lparr>ckey = ''a'', proxy = False\<rparr>, Release_slot 0, Release_slot 0]"

theorem pending_sockets_exact_witness:
  "ptotal (pending_run demo_config new_pending demo_pending) = holding_all (pending_run demo_config new_pending demo_pending) \<and>
   ptotal (pending_run demo_config new_pending demo_pending) \<le> maxPendingTotal demo_config \<and>
   js_get (perKey (pending_run demo_config new_pending demo_pending)) ''a'' =
     (if holding (pending_run demo_config new_pending demo_pending) ''a'' = 0 then None
      else Some (holding (pending_run demo_config new_pending demo_pending) ''a'')) \<and>
   holding (pending_run demo_config new_pending demo_pending) ''a'' \<le>
     (if (\<lambda>_. False) ''a'' then maxPendingPerProxy demo_config else maxPendingPerClient demo_config)"
  by (rule pending_sockets_exact) (simp add: demo_pending_def)

end
