(* ===== verification/Sfu_Heartbeat.thy ===== *)
theory Sfu_Heartbeat
  imports Js_Strings
begin

text \<open>
  When the SFU cuts a socket, \<^verbatim>\<open>sfu/heartbeat.ts\<close>, with the handlers of
  \<^verbatim>\<open>sfu/index.ts\<close> that set the flags the sweep reads: a pong, a frame arriving (which
  may pause the socket) and a queued frame handled (which may resume it). The side effects
  \<^verbatim>\<open>ping()\<close> and \<^verbatim>\<open>terminate()\<close> are counted in the record.
\<close>

datatype EndedBy = Heartbeat | Backpressure | Join_timeout | Replaced | Resumed

record HeartbeatSocket =
  backpressured :: bool
  backpressuredSince :: "int option"
  isAlive :: "bool option"
  pings :: nat
  terminates :: nat
  queuedBytes :: nat

definition sweepHeartbeatConnection ::
  "HeartbeatSocket \<Rightarrow> int \<Rightarrow> int \<Rightarrow> EndedBy option \<times> HeartbeatSocket"
where
  "sweepHeartbeatConnection w now backpressureDeadlineMs =
     (if backpressured w then
        (if (case backpressuredSince w of None \<Rightarrow> False | Some since \<Rightarrow> now - since > backpressureDeadlineMs)
         then (Some Backpressure, w\<lparr>terminates := terminates w + 1\<rparr>)
         else (None, w))
      else if isAlive w = Some False then (Some Heartbeat, w\<lparr>terminates := terminates w + 1\<rparr>)
      else (None, w\<lparr>isAlive := Some False, pings := pings w + 1\<rparr>))"

definition describeClose :: "int \<Rightarrow> EndedBy option \<Rightarrow> int \<Rightarrow> string" where
  \<comment> \<open>\<open>rounded\<close> is \<^verbatim>\<open>Math.round(seconds)\<close>\<close>
  "describeClose code endedBy rounded =
     (let after = ''after '' @ show_int rounded @ ''s'' in
      case endedBy of
        Some Heartbeat \<Rightarrow> ''cut by the SFU: no answer to a heartbeat ping within the sweep interval ('' @ after @ '')''
      | Some Backpressure \<Rightarrow> ''cut by the SFU: its send queue stayed full past the deadline ('' @ after @ '')''
      | Some Join_timeout \<Rightarrow> ''cut by the SFU: never finished joining ('' @ after @ '')''
      | Some Replaced \<Rightarrow> ''cut by the SFU: the same peer joined again and this session failed its liveness probe ('' @ after @ '')''
      | Some Resumed \<Rightarrow> ''cut by the SFU: the same client resumed its session on a new socket ('' @ after @ '')''
      | None \<Rightarrow>
          if code = 1000 \<or> code = 1001 then ''closed by the client (code '' @ show_int code @ '', '' @ after @ '')''
          else if code = 1006
          then ''dropped without a close frame - the network or a proxy in between (code 1006, '' @ after @ '')''
          else ''closed (code '' @ show_int code @ '', '' @ after @ '')'')"

definition holdsForResume :: "int \<Rightarrow> EndedBy option \<Rightarrow> bool" where
  "holdsForResume code endedBy =
     (if endedBy = Some Heartbeat \<or> endedBy = Some Backpressure then True
      else endedBy = None \<and> code = 1006)"

section \<open>The handlers around it\<close>

definition open_socket :: HeartbeatSocket where
  "open_socket = \<lparr>backpressured = False, backpressuredSince = None, isAlive = Some True,
     pings = 0, terminates = 0, queuedBytes = 0\<rparr>"

definition on_pong :: "HeartbeatSocket \<Rightarrow> HeartbeatSocket" where
  "on_pong w = w\<lparr>isAlive := Some True\<rparr>"

definition on_frame :: "nat \<Rightarrow> HeartbeatSocket \<Rightarrow> nat \<Rightarrow> int \<Rightarrow> HeartbeatSocket" where
  "on_frame maxQueued w bytes now =
     (let w1 = w\<lparr>queuedBytes := queuedBytes w + bytes\<rparr> in
      if maxQueued \<le> queuedBytes w1
      then w1\<lparr>backpressuredSince := (if \<not> backpressured w1 then Some now else backpressuredSince w1),
              backpressured := True\<rparr>
      else w1)"

definition on_handled :: "nat \<Rightarrow> HeartbeatSocket \<Rightarrow> nat \<Rightarrow> HeartbeatSocket" where
  "on_handled maxQueued w bytes =
     (let wasOver = (maxQueued \<le> queuedBytes w);
          w1 = w\<lparr>queuedBytes := queuedBytes w - bytes\<rparr>
      in if wasOver \<and> queuedBytes w1 < maxQueued
         then w1\<lparr>backpressured := False, backpressuredSince := None\<rparr> else w1)"

datatype socket_event = Pong | FrameIn nat int | Handled nat

fun socket_step :: "nat \<Rightarrow> HeartbeatSocket \<Rightarrow> socket_event \<Rightarrow> HeartbeatSocket" where
  "socket_step mx w Pong = on_pong w"
| "socket_step mx w (FrameIn bytes now) = on_frame mx w bytes now"
| "socket_step mx w (Handled bytes) = on_handled mx w bytes"

fun socket_run :: "nat \<Rightarrow> HeartbeatSocket \<Rightarrow> socket_event list \<Rightarrow> HeartbeatSocket" where
  "socket_run mx w [] = w"
| "socket_run mx w (e # es) = socket_run mx (socket_step mx w e) es"

lemma run_isAlive: "isAlive (socket_run mx w es) = (if Pong \<in> set es then Some True else isAlive w)"
proof (induction es arbitrary: w)
  case (Cons e es)
  then show ?case by (cases e) (auto simp: on_pong_def on_frame_def on_handled_def Let_def)
qed simp

lemma sweep_pings:
  "sweepHeartbeatConnection w now d = (None, w') \<Longrightarrow> \<not> backpressured w \<Longrightarrow> isAlive w' = Some False"
  by (auto simp: sweepHeartbeatConnection_def split: if_splits)

text \<open>The heartbeat cuts exactly the sockets that did not answer: after a sweep that pinged a
  socket, whatever frames come and go before the next one, that next sweep of a socket not paused
  cuts it if and only if no pong arrived in between; a socket that never stops answering is
  never cut, and one that stopped is cut at the second sweep.\<close>

theorem heartbeat_cuts_the_silent:
  assumes "sweepHeartbeatConnection w t1 d = (None, w1)" and "\<not> backpressured w"
    and "\<not> backpressured (socket_run mx w1 es)"
  shows "fst (sweepHeartbeatConnection (socket_run mx w1 es) t2 d) = (if Pong \<in> set es then None else Some Heartbeat)"
  using sweep_pings [OF assms(1,2)] assms(3) run_isAlive [of mx w1 es]
  by (simp add: sweepHeartbeatConnection_def)

theorem heartbeat_cuts_the_silent_witness:
  "fst (sweepHeartbeatConnection (socket_run 100 (snd (sweepHeartbeatConnection open_socket 0 20000)) [FrameIn 5 1, Handled 5]) 10000 20000)
     = (if Pong \<in> set [FrameIn 5 1, Handled 5] then None else Some Heartbeat)"
proof (rule heartbeat_cuts_the_silent)
  show "sweepHeartbeatConnection open_socket 0 20000 = (None, snd (sweepHeartbeatConnection open_socket 0 20000))"
    by code_simp
  show "\<not> backpressured open_socket" by (simp add: open_socket_def)
  show "\<not> backpressured (socket_run 100 (snd (sweepHeartbeatConnection open_socket 0 20000)) [FrameIn 5 1, Handled 5])"
    by code_simp
qed

section \<open>Paused sockets\<close>

fun frames_ok :: "nat list \<Rightarrow> socket_event list \<Rightarrow> bool" where
  \<comment> \<open>frames are handled in the order they came\<close>
  "frames_ok q [] \<longleftrightarrow> True"
| "frames_ok q (Pong # es) \<longleftrightarrow> frames_ok q es"
| "frames_ok q (FrameIn b _ # es) \<longleftrightarrow> frames_ok (q @ [b]) es"
| "frames_ok (b # q) (Handled b' # es) \<longleftrightarrow> b = b' \<and> frames_ok q es"
| "frames_ok [] (Handled b' # es) \<longleftrightarrow> False"

definition paused_ok :: "nat \<Rightarrow> nat list \<Rightarrow> HeartbeatSocket \<Rightarrow> bool" where
  "paused_ok mx q w \<longleftrightarrow> queuedBytes w = sum_list q \<and>
     (backpressured w \<longleftrightarrow> mx \<le> queuedBytes w) \<and> (backpressuredSince w = None \<longleftrightarrow> \<not> backpressured w)"

lemma paused_run:
  assumes "0 < mx" "paused_ok mx q w" "frames_ok q es"
  shows "\<exists>q'. paused_ok mx q' (socket_run mx w es)"
  using assms(2,3)
proof (induction q es arbitrary: w rule: frames_ok.induct)
  case (2 q es)
  then show ?case by (simp add: paused_ok_def on_pong_def)
next
  case (3 q b t es)
  then have "paused_ok mx (q @ [b]) (on_frame mx w b t)" by (auto simp: paused_ok_def on_frame_def Let_def)
  with 3 show ?case by simp
next
  case (4 b q b' es)
  then have "paused_ok mx q (on_handled mx w b')" by (auto simp: paused_ok_def on_handled_def Let_def)
  with 4 show ?case by simp
qed auto

text \<open>A pause is the backlog and nothing else: frames being handled in the order they came, a socket
  is paused exactly while its unhandled bytes reach the limit, the time it was paused is known
  while it lasts, and a sweep cuts it exactly when that pause is older than the deadline.\<close>

theorem pause_is_backlog:
  assumes "0 < mx" and "frames_ok [] es"
  shows "(backpressured (socket_run mx open_socket es) \<longleftrightarrow> mx \<le> queuedBytes (socket_run mx open_socket es)) \<and>
     (backpressured (socket_run mx open_socket es) =
        (\<exists>since. backpressuredSince (socket_run mx open_socket es) = Some since \<and>
           (fst (sweepHeartbeatConnection (socket_run mx open_socket es) now d) = Some Backpressure \<longleftrightarrow> d < now - since)))"
proof -
  have "paused_ok mx [] open_socket" using assms(1) by (simp add: paused_ok_def open_socket_def)
  from paused_run [OF assms(1) this assms(2)] show ?thesis
    by (auto simp: paused_ok_def sweepHeartbeatConnection_def)
qed

theorem pause_is_backlog_witness:
  "(backpressured (socket_run 10 open_socket [FrameIn 12 5]) \<longleftrightarrow> 10 \<le> queuedBytes (socket_run 10 open_socket [FrameIn 12 5])) \<and>
   (backpressured (socket_run 10 open_socket [FrameIn 12 5]) =
      (\<exists>since. backpressuredSince (socket_run 10 open_socket [FrameIn 12 5]) = Some since \<and>
         (fst (sweepHeartbeatConnection (socket_run 10 open_socket [FrameIn 12 5]) 30 20) = Some Backpressure \<longleftrightarrow> 20 < 30 - since)))"
  by (rule pause_is_backlog) simp_all

end
