(* ===== verification/Replay_Window.thy ===== *)
theory Replay_Window
  imports Prelude "HOL-Library.Word"
begin

unbundle bit_operations_syntax

text \<open>
  The replay window of one authenticated sender session,
  \<^verbatim>\<open>frontend/src/lib/room-security/replay.ts\<close>. The bitmap is a BigInt, so it is an
  unbounded \<open>int\<close> that the code masks to 64 bits itself.

  The abstract window is the set of sequences seen so far; the bitmap implements it, and a
  sequence is accepted at most once however the sender repeats or reorders them.
\<close>

record ReplayWindow =
  highest :: int
  bitmap :: int

definition new_window :: ReplayWindow where
  "new_window = \<lparr>highest = -1, bitmap = 0\<rparr>"

definition accept :: "ReplayWindow \<Rightarrow> js_value \<Rightarrow> bool \<times> ReplayWindow" where
  "accept w sequence =
     (if \<not> isSafeInteger sequence \<or> as_int sequence < 0 then (False, w)
      else
        let s = as_int sequence in
        if highest w < s then
          (let delta = s - highest w in
           (True, w\<lparr>bitmap := (if 64 \<le> delta then 1
                               else (push_bit (nat delta) (bitmap w) OR 1) AND (push_bit 64 1 - 1)),
                    highest := s\<rparr>))
        else
          (let distance = highest w - s in
           if 64 \<le> distance then (False, w)
           else
             (let b = push_bit (nat distance) 1 in
              if bitmap w AND b \<noteq> 0 then (False, w)
              else (True, w\<lparr>bitmap := bitmap w OR b\<rparr>))))"

section \<open>The abstract window\<close>

definition fresh :: "int set \<Rightarrow> int \<Rightarrow> bool" where
  "fresh seen s \<longleftrightarrow> 0 \<le> s \<and> s \<notin> seen \<and> (\<forall>x\<in>seen. x < s + 64)"

text \<open>\<open>window_rel\<close>: the bitmap has bit \<open>d\<close> exactly when the sequence \<open>d\<close> below the highest was seen.\<close>

definition window_rel :: "ReplayWindow \<Rightarrow> int set \<Rightarrow> bool" where
  "window_rel w seen \<longleftrightarrow>
     (\<forall>x\<in>seen. 0 \<le> x \<and> x \<le> highest w) \<and> (if seen = {} then highest w = -1 else highest w \<in> seen) \<and>
     (\<forall>d. bit (bitmap w) d \<longleftrightarrow> d < 64 \<and> highest w - int d \<in> seen)"

lemma window_rel_new: "window_rel new_window {}"
  by (simp add: window_rel_def new_window_def)

lemma shifted_bits:
  "bit ((push_bit n b OR 1) AND (push_bit 64 1 - 1) :: int) d \<longleftrightarrow> d < 64 \<and> (d = 0 \<or> n \<le> d \<and> bit b (d - n))"
proof -
  have m: "(push_bit 64 1 - 1 :: int) = mask 64" by (simp add: mask_eq_exp_minus_1 push_bit_eq_mult)
  show ?thesis unfolding m by (auto simp: bit_and_iff bit_or_iff bit_push_bit_iff bit_mask_iff bit_1_iff)
qed

lemma test_bit: "(b AND push_bit n 1 \<noteq> (0 :: int)) \<longleftrightarrow> bit b n"
proof -
  have "bit (b AND push_bit n 1) d \<longleftrightarrow> d = n \<and> bit b n" for d
    by (auto simp: bit_and_iff bit_push_bit_iff bit_1_iff bit_exp_iff)
  then show ?thesis by (metis bit_0_eq bot_apply bot_bool_def bit_eq_iff)
qed

lemma accept_new:
  assumes rel: "window_rel w seen" and s: "0 \<le> s" "highest w < s"
  shows "window_rel \<lparr>highest = s, bitmap = (if 64 \<le> s - highest w then 1
           else (push_bit (nat (s - highest w)) (bitmap w) OR 1) AND (push_bit 64 1 - 1))\<rparr> (insert s seen)"
    (is "window_rel \<lparr>highest = s, bitmap = ?b\<rparr> _")
proof -
  have le: "x \<le> highest w" if "x \<in> seen" for x using rel that by (simp add: window_rel_def)
  have old: "bit (bitmap w) d \<longleftrightarrow> d < 64 \<and> highest w - int d \<in> seen" for d
    using rel by (simp add: window_rel_def)
  have "bit ?b d \<longleftrightarrow> d < 64 \<and> s - int d \<in> insert s seen" for d
  proof (cases "64 \<le> s - highest w")
    case True
    then have "s - int d \<notin> seen" if "d < 64" using le [of "s - int d"] that by force
    with True show ?thesis by (auto simp: bit_1_iff)
  next
    case False
    define n where "n = nat (s - highest w)"
    have n: "int n = s - highest w" "0 < n" "n < 64" using False s by (auto simp: n_def)
    have iff: "s - int d \<in> seen \<longleftrightarrow> n \<le> d \<and> highest w - int (d - n) \<in> seen"
    proof
      assume a: "s - int d \<in> seen"
      have "n \<le> d" using le [OF a] n by linarith
      have eq: "highest w - int (d - n) = s - int d" using n \<open>n \<le> d\<close> by (simp add: of_nat_diff)
      show "n \<le> d \<and> highest w - int (d - n) \<in> seen" unfolding eq using a \<open>n \<le> d\<close> by blast
    next
      assume a: "n \<le> d \<and> highest w - int (d - n) \<in> seen"
      have eq: "highest w - int (d - n) = s - int d" using n a by (simp add: of_nat_diff)
      show "s - int d \<in> seen" using conjunct2 [OF a] unfolding eq .
    qed
    have b: "?b = (push_bit n (bitmap w) OR 1) AND (push_bit 64 1 - 1)" using False by (simp add: n_def)
    have "bit ?b d \<longleftrightarrow> d < 64 \<and> (d = 0 \<or> n \<le> d \<and> d - n < 64 \<and> highest w - int (d - n) \<in> seen)"
      unfolding b shifted_bits old ..
    also have "\<dots> \<longleftrightarrow> d < 64 \<and> (s - int d = s \<or> s - int d \<in> seen)" unfolding iff by fastforce
    finally show ?thesis by simp
  qed
  moreover have "\<forall>x\<in>insert s seen. 0 \<le> x \<and> x \<le> s" using rel s by (fastforce simp: window_rel_def)
  ultimately show ?thesis by (simp add: window_rel_def)
qed

lemma accept_old:
  assumes rel: "window_rel w seen" and s: "0 \<le> s" "s \<le> highest w" "highest w - s < 64"
  shows "window_rel (w\<lparr>bitmap := bitmap w OR push_bit (nat (highest w - s)) 1\<rparr>) (insert s seen)"
proof -
  have "seen \<noteq> {}" using rel s by (auto simp: window_rel_def)
  moreover have "bit (bitmap w OR push_bit (nat (highest w - s)) 1) d \<longleftrightarrow>
      d < 64 \<and> highest w - int d \<in> insert s seen" for d
    using rel s by (auto simp: window_rel_def bit_or_iff bit_push_bit_iff bit_1_iff bit_exp_iff)
  ultimately show ?thesis using rel s by (auto simp: window_rel_def)
qed

lemma seen_highest:
  assumes "window_rel w seen" "0 \<le> s" "s \<le> highest w"
  shows "(\<forall>x\<in>seen. x < s + 64) \<longleftrightarrow> highest w - s < 64"
  using assms unfolding window_rel_def by (smt (verit) empty_iff)

lemma accept_sound:
  assumes "window_rel w seen"
  shows "fst (accept w v) = (isSafeInteger v \<and> fresh seen (as_int v)) \<and>
         window_rel (snd (accept w v)) (if fst (accept w v) then insert (as_int v) seen else seen)"
proof (cases "isSafeInteger v \<and> 0 \<le> as_int v")
  case False
  then show ?thesis using assms by (auto simp: accept_def fresh_def)
next
  case True
  let ?s = "as_int v"
  show ?thesis
  proof (cases "highest w < ?s")
    case new: True
    then have "?s \<notin> seen" "\<forall>x\<in>seen. x < ?s + 64" using assms unfolding window_rel_def by force+
    moreover have "snd (accept w v) = \<lparr>highest = ?s, bitmap = (if 64 \<le> ?s - highest w then 1
           else (push_bit (nat (?s - highest w)) (bitmap w) OR 1) AND (push_bit 64 1 - 1))\<rparr>"
      "fst (accept w v)"
      using True new by (simp_all add: accept_def Let_def)
    ultimately show ?thesis using accept_new [OF assms _ new] True by (simp add: fresh_def)
  next
    case old: False
    note far = seen_highest [OF assms, of ?s]
    show ?thesis
    proof (cases "64 \<le> highest w - ?s")
      case True
      then show ?thesis using assms old far \<open>isSafeInteger v \<and> 0 \<le> ?s\<close> by (auto simp: accept_def fresh_def Let_def)
    next
      case near: False
      have b: "(bitmap w AND push_bit (nat (highest w - ?s)) 1 \<noteq> 0) = (?s \<in> seen)"
        using assms near old unfolding test_bit by (auto simp: window_rel_def)
      then show ?thesis using assms near old True far accept_old [OF assms, of ?s]
        by (auto simp: accept_def fresh_def Let_def)
    qed
  qed
qed

text \<open>C11: the bitmap implements the window: related to the set of sequences seen, the code accepts
  a value exactly when it is a safe non-negative integer that was not seen and is less than 64
  behind the highest one seen, and then the new bitmap stands for the set with that sequence added.\<close>

theorem accept_refines:
  assumes "window_rel w seen"
  shows "fst (accept w v) = (isSafeInteger v \<and> fresh seen (as_int v)) \<and>
         window_rel (snd (accept w v)) (if fst (accept w v) then insert (as_int v) seen else seen)"
  by (rule accept_sound [OF assms])

theorem accept_refines_witness:
  "fst (accept new_window (JNum (JInt 3))) = (isSafeInteger (JNum (JInt 3)) \<and> fresh {} (as_int (JNum (JInt 3)))) \<and>
   window_rel (snd (accept new_window (JNum (JInt 3))))
     (if fst (accept new_window (JNum (JInt 3))) then insert (as_int (JNum (JInt 3))) {} else {})"
  by (rule accept_refines [OF window_rel_new])

section \<open>A session\<close>

fun accept_all :: "ReplayWindow \<Rightarrow> js_value list \<Rightarrow> int list" where
  \<comment> \<open>the sequences accepted while the window takes a list of values\<close>
  "accept_all w [] = []"
| "accept_all w (v # vs) =
     (let (ok, w') = accept w v in if ok then as_int v # accept_all w' vs else accept_all w' vs)"

lemma accept_all_fresh:
  assumes "window_rel w seen"
  shows "distinct (accept_all w vs) \<and> set (accept_all w vs) \<inter> seen = {}"
  using assms
proof (induction vs arbitrary: w seen)
  case (Cons v vs)
  obtain ok w' where a: "accept w v = (ok, w')" by force
  note r = accept_sound [OF Cons.prems, of v, unfolded a fst_conv snd_conv]
  show ?case
  proof (cases ok)
    case True
    then show ?thesis using r Cons.IH [of w' "insert (as_int v) seen"] by (auto simp: a fresh_def)
  next
    case False
    then have "window_rel w' seen" using conjunct2 [OF r] by (simp only: if_False)
    with False Cons.IH [of w' seen] show ?thesis by (simp add: a)
  qed
qed simp

text \<open>Nothing is accepted twice: over any sequence of values a sender puts in its frames, in any
  order and with any repetitions, the window of its session accepts each sequence number at most
  once.\<close>

theorem replay_at_most_once: "distinct (accept_all new_window vs)"
  using accept_all_fresh [OF window_rel_new] by blast

end
