(* ===== verification/Base64url.thy ===== *)
theory Base64url
  imports Prelude "HOL-Library.Word"
begin

unbundle bit_operations_syntax

text \<open>
  The room channel's wire encoding, \<^verbatim>\<open>frontend/src/lib/room-security/base64url.ts\<close>.

  Bytes are 8-bit words. A text is the list of its code units, as numbers: the decoder sees whatever
  a peer sent. The 24-bit groups are computed in 32-bit words, as the engine's bitwise
  operators do; they stay below \<open>2 ^ 24\<close>, so its signed shifts and the logical ones agree. The
  index loops that walk whole groups and then the tail are recursion over the list.

  The engine's own codec, which the module prefers where there is one, is code outside the
  repository; what it must agree with is the portable codec modelled here, behind the same
  \<open>assertCanonical\<close>.
\<close>

type_synonym byte = "8 word"
type_synonym code_units = "nat list"

datatype base64_error = Invalid_base64url | Invalid_length | Non_canonical

definition ALPHABET :: string where
  "ALPHABET = ''ABCDEFGHIJKLMNOPQRSTUVWXYZabcdefghijklmnopqrstuvwxyz0123456789-_''"

definition char_code :: "char \<Rightarrow> nat" where
  "char_code c = of_char c"

definition char_codes :: "nat list" where
  "char_codes = map char_code ALPHABET"

definition TO_CHAR :: "32 word \<Rightarrow> nat" where
  "TO_CHAR v = char_codes ! unat v"

text \<open>The table is zero outside the alphabet, as the fresh \<^verbatim>\<open>Uint8Array\<close> is.\<close>

fun index_of :: "nat list \<Rightarrow> nat \<Rightarrow> nat \<Rightarrow> nat" where
  "index_of [] i c = 0"
| "index_of (x # xs) i c = (if x = c then i else index_of xs (Suc i) c)"

definition FROM_CHAR :: "nat \<Rightarrow> 32 word" where
  "FROM_CHAR c = word_of_nat (index_of char_codes 0 c)"

definition SHAPE :: "code_units \<Rightarrow> bool" where
  \<comment> \<open>\<^verbatim>\<open>/^[A-Za-z0-9_-]*$/\<close>\<close>
  "SHAPE t \<longleftrightarrow> list_all (\<lambda>c. 65 \<le> c \<and> c \<le> 90 \<or> 97 \<le> c \<and> c \<le> 122 \<or> 48 \<le> c \<and> c \<le> 57 \<or> c = 95 \<or> c = 45) t"

definition assertCanonical :: "code_units \<Rightarrow> base64_error option" where
  "assertCanonical t =
     (if \<not> SHAPE t then Some Invalid_base64url
      else
        let tail = length t mod 4 in
        if tail = 1 then Some Invalid_length
        else if tail \<noteq> 0 \<and> FROM_CHAR (last t) AND (if tail = 2 then 0x0f else 0x03) \<noteq> 0
        then Some Non_canonical
        else None)"

abbreviation wide :: "byte \<Rightarrow> 32 word" where
  "wide \<equiv> ucast"

abbreviation narrow :: "32 word \<Rightarrow> byte" where
  \<comment> \<open>a store into a \<^verbatim>\<open>Uint8Array\<close>\<close>
  "narrow \<equiv> ucast"

fun encode_portable :: "byte list \<Rightarrow> code_units" where
  "encode_portable (a # b # c # rest) =
     (let v = push_bit 16 (wide a) OR push_bit 8 (wide b) OR wide c in
      TO_CHAR (drop_bit 18 v) # TO_CHAR (drop_bit 12 v AND 63) # TO_CHAR (drop_bit 6 v AND 63) #
      TO_CHAR (v AND 63) # encode_portable rest)"
| "encode_portable [a] =
     (let v = push_bit 16 (wide a) in [TO_CHAR (drop_bit 18 v), TO_CHAR (drop_bit 12 v AND 63)])"
| "encode_portable [a, b] =
     (let v = push_bit 16 (wide a) OR push_bit 8 (wide b) in
      [TO_CHAR (drop_bit 18 v), TO_CHAR (drop_bit 12 v AND 63), TO_CHAR (drop_bit 6 v AND 63)])"
| "encode_portable [] = []"

fun decode_groups :: "code_units \<Rightarrow> byte list" where
  "decode_groups (p # q # r # s # rest) =
     (let v = push_bit 18 (FROM_CHAR p) OR push_bit 12 (FROM_CHAR q) OR push_bit 6 (FROM_CHAR r) OR FROM_CHAR s in
      narrow (drop_bit 16 v) # narrow (drop_bit 8 v AND 255) # narrow (v AND 255) # decode_groups rest)"
| "decode_groups [p, q] = [narrow (push_bit 2 (FROM_CHAR p) OR drop_bit 4 (FROM_CHAR q))]"
| "decode_groups [p, q, r] =
     (let v = push_bit 12 (FROM_CHAR p) OR push_bit 6 (FROM_CHAR q) OR FROM_CHAR r in
      [narrow (drop_bit 10 v), narrow (drop_bit 2 v AND 255)])"
| "decode_groups _ = []"

definition decode_portable :: "code_units \<Rightarrow> base64_error + byte list" where
  "decode_portable t = (case assertCanonical t of Some e \<Rightarrow> Inl e | None \<Rightarrow> Inr (decode_groups t))"

section \<open>The tables\<close>

lemma char_codes_val: "char_codes = [65..<91] @ [97..<123] @ [48..<58] @ [45, 95]"
  by (simp add: char_codes_def ALPHABET_def char_code_def upt_conv_Cons)

definition in_shape :: "nat \<Rightarrow> bool" where
  "in_shape c \<longleftrightarrow> 65 \<le> c \<and> c \<le> 90 \<or> 97 \<le> c \<and> c \<le> 122 \<or> 48 \<le> c \<and> c \<le> 57 \<or> c = 95 \<or> c = 45"

lemma SHAPE_iff: "SHAPE t \<longleftrightarrow> list_all in_shape t"
  by (simp add: SHAPE_def in_shape_def [abs_def])

lemma set_char_codes: "c \<in> set char_codes \<longleftrightarrow> in_shape c"
  unfolding char_codes_val set_append set_upt in_shape_def by auto

lemma distinct_char_codes: "distinct char_codes"
  by (simp add: char_codes_val)

lemma length_char_codes [simp]: "length char_codes = 64"
  by (simp add: char_codes_val)

lemma index_of_nth: "distinct xs \<Longrightarrow> i < length xs \<Longrightarrow> index_of xs k (xs ! i) = k + i"
proof (induction xs arbitrary: i k)
  case (Cons x xs)
  then show ?case by (cases i) auto
qed simp

lemma FROM_TO: "unat v < 64 \<Longrightarrow> FROM_CHAR (TO_CHAR v) = v"
  by (simp add: FROM_CHAR_def TO_CHAR_def index_of_nth distinct_char_codes)

lemma TO_shape: "unat v < 64 \<Longrightarrow> in_shape (TO_CHAR v)"
  using set_char_codes nth_mem [of "unat v" char_codes] by (simp add: TO_CHAR_def)

lemma FROM_lt: "in_shape c \<Longrightarrow> unat (FROM_CHAR c) < 64 \<and> TO_CHAR (FROM_CHAR c) = c"
proof -
  assume "in_shape c"
  then obtain i where i: "i < 64" "c = char_codes ! i"
    using set_char_codes [of c] by (auto simp: in_set_conv_nth)
  then have "unat (FROM_CHAR c) = i"
    by (simp add: FROM_CHAR_def index_of_nth distinct_char_codes unat_of_nat)
  with i show ?thesis by (simp add: TO_CHAR_def)
qed

text \<open>A value is a six-bit one exactly when masking leaves it alone.\<close>

lemma six_bits: "unat (v :: 32 word) < 64 \<longleftrightarrow> take_bit 6 v = v"
proof -
  have "take_bit 6 v = v \<longleftrightarrow> take_bit 6 (unat v) = unat v"
    by (metis unsigned_take_bit_eq word_unat_eq_iff)
  then show ?thesis by (simp add: take_bit_nat_eq_self_iff)
qed

lemma masks: "(63 :: 32 word) = mask 6" "(255 :: 32 word) = mask 8" "(15 :: 32 word) = mask 4" "(3 :: 32 word) = mask 2"
  by (simp_all add: mask_eq_exp_minus_1)

lemma and_masks:
  "v AND 63 = take_bit 6 (v :: 32 word)" "v AND 255 = take_bit 8 (v :: 32 word)"
  "v AND 15 = take_bit 4 (v :: 32 word)" "v AND 3 = take_bit 2 (v :: 32 word)"
  by (simp_all add: masks take_bit_eq_mask)

text \<open>Two words are equal when they agree on each of their bits, checked one by one.\<close>

lemma word32_eqI: "list_all (\<lambda>n. bit x n = bit y n) [0..<32] \<Longrightarrow> x = (y :: 32 word)"
  by (rule bit_word_eqI) (simp add: list_all_iff)

lemma byte_eqI: "list_all (\<lambda>n. bit x n = bit y n) [0..<8] \<Longrightarrow> x = (y :: byte)"
  by (rule bit_word_eqI) (simp add: list_all_iff)

lemma byte_high: "8 \<le> n \<Longrightarrow> \<not> bit (a :: byte) n"
  using bit_imp_le_length [of a n] by auto

lemmas bitwise = upt_conv_Cons bit_simps byte_high

lemma group_bits:
  fixes a b c :: byte
  defines "v \<equiv> push_bit 16 (wide a) OR push_bit 8 (wide b) OR wide c"
  shows "take_bit 6 (drop_bit 18 v) = drop_bit 18 v"
    and "push_bit 18 (drop_bit 18 v) OR push_bit 12 (take_bit 6 (drop_bit 12 v)) OR
         push_bit 6 (take_bit 6 (drop_bit 6 v)) OR take_bit 6 v = v"
    and "narrow (drop_bit 16 v) = a" "narrow (take_bit 8 (drop_bit 8 v)) = b" "narrow (take_bit 8 v) = c"
  unfolding v_def
  by (rule word32_eqI byte_eqI; simp add: bitwise; simp add: eval_nat_numeral)+

lemma two_byte_bits:
  fixes a b :: byte
  defines "v \<equiv> push_bit 16 (wide a) OR push_bit 8 (wide b)"
  shows "take_bit 6 (drop_bit 18 v) = drop_bit 18 v"
    and "narrow (drop_bit 10 (push_bit 12 (drop_bit 18 v) OR push_bit 6 (take_bit 6 (drop_bit 12 v)) OR
           take_bit 6 (drop_bit 6 v))) = a"
    and "narrow (take_bit 8 (drop_bit 2 (push_bit 12 (drop_bit 18 v) OR push_bit 6 (take_bit 6 (drop_bit 12 v)) OR
           take_bit 6 (drop_bit 6 v)))) = b"
    and "take_bit 2 (drop_bit 6 v) = 0"
  unfolding v_def
  by (rule word32_eqI byte_eqI; simp add: bitwise; simp add: eval_nat_numeral)+

lemma one_byte_bits:
  fixes a :: byte
  defines "v \<equiv> push_bit 16 (wide a)"
  shows "take_bit 6 (drop_bit 18 v) = drop_bit 18 v"
    and "narrow (push_bit 2 (drop_bit 18 v) OR drop_bit 4 (take_bit 6 (drop_bit 12 v))) = a"
    and "take_bit 4 (drop_bit 12 v) = 0"
  unfolding v_def
  by (rule word32_eqI byte_eqI; simp add: bitwise; simp add: eval_nat_numeral)+

section \<open>Decoding an encoding\<close>

lemma FROM_TO_mask [simp]: "FROM_CHAR (TO_CHAR (take_bit 6 v)) = take_bit 6 v"
  by (rule FROM_TO) (simp add: six_bits)

lemma FROM_TO_top: "take_bit 6 w = w \<Longrightarrow> FROM_CHAR (TO_CHAR w) = w"
  by (metis FROM_TO_mask)

lemma TO_shape_mask [simp]: "in_shape (TO_CHAR (take_bit 6 v))"
  by (rule TO_shape) (simp add: six_bits)

lemma TO_shape_top: "take_bit 6 w = w \<Longrightarrow> in_shape (TO_CHAR w)"
  by (metis TO_shape_mask)

lemma encode_shape: "list_all in_shape (encode_portable bs)"
  by (induction bs rule: encode_portable.induct)
    (simp_all only: encode_portable.simps Let_def and_masks list.pred_inject TO_shape_mask
      TO_shape_top [OF group_bits(1)] TO_shape_top [OF two_byte_bits(1)] TO_shape_top [OF one_byte_bits(1)] simp_thms)

lemma encode_length: "length (encode_portable bs) = (4 * length bs + 2) div 3"
  by (induction bs rule: encode_portable.induct) (simp_all add: Let_def)

lemma decode_encode_groups: "decode_groups (encode_portable bs) = bs"
  by (induction bs rule: encode_portable.induct)
    (simp_all only: encode_portable.simps decode_groups.simps Let_def and_masks FROM_TO_mask
      FROM_TO_top [OF group_bits(1)] FROM_TO_top [OF two_byte_bits(1)] FROM_TO_top [OF one_byte_bits(1)]
      group_bits two_byte_bits one_byte_bits)

lemma encode_tail:
  "length (encode_portable bs) mod 4 = 0 \<or>
   length (encode_portable bs) mod 4 = 2 \<and> take_bit 4 (FROM_CHAR (last (encode_portable bs))) = 0 \<or>
   length (encode_portable bs) mod 4 = 3 \<and> take_bit 2 (FROM_CHAR (last (encode_portable bs))) = 0"
proof (induction bs rule: encode_portable.induct)
  case (1 a b c rest)
  then show ?case by (cases "encode_portable rest = []") (auto simp: Let_def)
qed (simp_all add: Let_def and_masks two_byte_bits one_byte_bits del: drop_bit_or take_bit_or)

lemma encode_canonical: "assertCanonical (encode_portable bs) = None"
  using encode_tail [of bs] by (auto simp: assertCanonical_def SHAPE_iff encode_shape Let_def and_masks)

section \<open>Encoding a decoding\<close>

lemma decode_group_bits:
  fixes p q r s :: "32 word"
  assumes "take_bit 6 p = p" "take_bit 6 q = q" "take_bit 6 r = r" "take_bit 6 s = s"
  defines "v \<equiv> push_bit 18 p OR push_bit 12 q OR push_bit 6 r OR s"
  shows "push_bit 16 (wide (narrow (drop_bit 16 v))) OR push_bit 8 (wide (narrow (take_bit 8 (drop_bit 8 v)))) OR
         wide (narrow (take_bit 8 v)) = v"
    and "drop_bit 18 v = p" "take_bit 6 (drop_bit 12 v) = q" "take_bit 6 (drop_bit 6 v) = r" "take_bit 6 v = s"
proof -
  have high: "\<not> bit x n" if "take_bit 6 x = x" "6 \<le> n" for x :: "32 word" and n
    using that by (metis bit_take_bit_iff not_le)
  note hs = high [OF assms(1)] high [OF assms(2)] high [OF assms(3)] high [OF assms(4)]
  show "push_bit 16 (wide (narrow (drop_bit 16 v))) OR push_bit 8 (wide (narrow (take_bit 8 (drop_bit 8 v)))) OR
         wide (narrow (take_bit 8 v)) = v"
    "drop_bit 18 v = p" "take_bit 6 (drop_bit 12 v) = q" "take_bit 6 (drop_bit 6 v) = r" "take_bit 6 v = s"
    unfolding v_def by (rule word32_eqI; simp add: bitwise hs; simp add: eval_nat_numeral)+
qed


lemma decode_two_bits:
  fixes p q r :: "32 word"
  assumes "take_bit 6 p = p" "take_bit 6 q = q" "take_bit 6 r = r" "take_bit 2 r = 0"
  defines "v \<equiv> push_bit 12 p OR push_bit 6 q OR r"
  defines "w \<equiv> push_bit 16 (wide (narrow (drop_bit 10 v))) OR push_bit 8 (wide (narrow (take_bit 8 (drop_bit 2 v))))"
  shows "drop_bit 18 w = p" "take_bit 6 (drop_bit 12 w) = q" "take_bit 6 (drop_bit 6 w) = r"
proof -
  have high: "\<not> bit x n" if "take_bit 6 x = x" "6 \<le> n" for x :: "32 word" and n
    using that by (metis bit_take_bit_iff not_le)
  have low: "\<not> bit r n" if "n < 2" for n
    using assms(4) that by (metis bit_take_bit_iff bit_0_eq bot_apply bot_bool_def)
  note hs = high [OF assms(1)] high [OF assms(2)] high [OF assms(3)] low
  show "drop_bit 18 w = p" "take_bit 6 (drop_bit 12 w) = q" "take_bit 6 (drop_bit 6 w) = r"
    unfolding w_def v_def by (rule word32_eqI; simp add: bitwise hs; simp add: eval_nat_numeral hs)+
qed

lemma decode_one_bits:
  fixes p q :: "32 word"
  assumes "take_bit 6 p = p" "take_bit 6 q = q" "take_bit 4 q = 0"
  defines "w \<equiv> push_bit 16 (wide (narrow (push_bit 2 p OR drop_bit 4 q)))"
  shows "drop_bit 18 w = p" "take_bit 6 (drop_bit 12 w) = q"
proof -
  have high: "\<not> bit x n" if "take_bit 6 x = x" "6 \<le> n" for x :: "32 word" and n
    using that by (metis bit_take_bit_iff not_le)
  have low: "\<not> bit q n" if "n < 4" for n
    using assms(3) that by (metis bit_take_bit_iff bit_0_eq bot_apply bot_bool_def)
  note hs = high [OF assms(1)] high [OF assms(2)] low
  show "drop_bit 18 w = p" "take_bit 6 (drop_bit 12 w) = q"
    unfolding w_def by (rule word32_eqI; simp add: bitwise hs; simp add: eval_nat_numeral hs)+
qed

lemma FROM_six: "in_shape c \<Longrightarrow> take_bit 6 (FROM_CHAR c) = FROM_CHAR c"
  using FROM_lt six_bits by blast

lemma TO_FROM: "in_shape c \<Longrightarrow> TO_CHAR (FROM_CHAR c) = c"
  using FROM_lt by blast

lemma encode_decode_groups:
  assumes "list_all in_shape t"
    and "length t mod 4 \<noteq> 1"
    and "length t mod 4 = 2 \<Longrightarrow> take_bit 4 (FROM_CHAR (last t)) = 0"
    and "length t mod 4 = 3 \<Longrightarrow> take_bit 2 (FROM_CHAR (last t)) = 0"
  shows "encode_portable (decode_groups t) = t"
  using assms
proof (induction t rule: decode_groups.induct)
  case (1 p q r s rest)
  have six: "take_bit 6 (FROM_CHAR p) = FROM_CHAR p" "take_bit 6 (FROM_CHAR q) = FROM_CHAR q"
      "take_bit 6 (FROM_CHAR r) = FROM_CHAR r" "take_bit 6 (FROM_CHAR s) = FROM_CHAR s"
    using "1.prems"(1) by (simp_all add: FROM_six)
  have tf: "TO_CHAR (FROM_CHAR p) = p" "TO_CHAR (FROM_CHAR q) = q" "TO_CHAR (FROM_CHAR r) = r" "TO_CHAR (FROM_CHAR s) = s"
    using "1.prems"(1) by (simp_all add: TO_FROM)
  have "encode_portable (decode_groups rest) = rest"
    by (rule "1.IH") (use "1.prems" in \<open>auto split: if_splits\<close>)
  then show ?case
    by (simp only: decode_groups.simps encode_portable.simps Let_def and_masks decode_group_bits [OF six] tf)
next
  case (2 p q)
  then have six: "take_bit 6 (FROM_CHAR p) = FROM_CHAR p" "take_bit 6 (FROM_CHAR q) = FROM_CHAR q"
      "take_bit 4 (FROM_CHAR q) = 0"
    and tf: "TO_CHAR (FROM_CHAR p) = p" "TO_CHAR (FROM_CHAR q) = q"
    by (simp_all add: FROM_six TO_FROM)
  show ?case
    by (simp only: decode_groups.simps encode_portable.simps Let_def and_masks decode_one_bits [OF six] tf)
next
  case (3 p q r)
  then have six: "take_bit 6 (FROM_CHAR p) = FROM_CHAR p" "take_bit 6 (FROM_CHAR q) = FROM_CHAR q"
      "take_bit 6 (FROM_CHAR r) = FROM_CHAR r" "take_bit 2 (FROM_CHAR r) = 0"
    and tf: "TO_CHAR (FROM_CHAR p) = p" "TO_CHAR (FROM_CHAR q) = q" "TO_CHAR (FROM_CHAR r) = r"
    by (simp_all add: FROM_six TO_FROM)
  show ?case
    by (simp only: decode_groups.simps encode_portable.simps Let_def and_masks decode_two_bits [OF six] tf)
qed simp_all

section \<open>The codec\<close>

text \<open>What the rest of the program relies on: every byte string has exactly one accepted text.\<close>

locale text_codec =
  fixes enc :: "byte list \<Rightarrow> 't"
    and dec :: "'t \<Rightarrow> 'e + byte list"
  assumes dec_enc: "dec (enc bs) = Inr bs"
    and enc_dec: "dec t = Inr bs \<Longrightarrow> enc bs = t"
begin

lemma enc_inject: "enc a = enc b \<longleftrightarrow> a = b"
  by (metis dec_enc Inr_inject)

lemma one_text: "dec t = Inr bs \<Longrightarrow> dec t' = Inr bs \<Longrightarrow> t = t'"
  using enc_dec by blast

lemma dec_iff: "dec t = Inr bs \<longleftrightarrow> t = enc bs"
  using dec_enc enc_dec by blast

end

lemma decode_canonical:
  "decode_portable t = Inr bs \<Longrightarrow> encode_portable bs = t"
proof -
  assume "decode_portable t = Inr bs"
  then have c: "assertCanonical t = None" and bs: "bs = decode_groups t"
    by (auto simp: decode_portable_def split: option.splits)
  from c have "list_all in_shape t" "length t mod 4 \<noteq> 1"
      "length t mod 4 = 2 \<Longrightarrow> take_bit 4 (FROM_CHAR (last t)) = 0"
      "length t mod 4 = 3 \<Longrightarrow> take_bit 2 (FROM_CHAR (last t)) = 0"
    by (auto simp: assertCanonical_def SHAPE_iff Let_def and_masks split: if_splits)
  then show ?thesis unfolding bs by (rule encode_decode_groups)
qed

interpretation portable: text_codec encode_portable decode_portable
proof
  show "decode_portable (encode_portable bs) = Inr bs" for bs
    by (simp add: decode_portable_def encode_canonical decode_encode_groups)
  show "decode_portable t = Inr bs \<Longrightarrow> encode_portable bs = t" for t bs by (rule decode_canonical)
qed

text \<open>C22: the encoding round-trips and is unique: decoding a byte string's text gives the bytes,
  its length is four thirds rounded up, and any text the decoder accepts at all is the text the
  encoder produces for what it decoded to, so no peer can find a second encoding of a value.\<close>

theorem base64url_canonical:
  "decode_portable (encode_portable bs) = Inr bs \<and> length (encode_portable bs) = (4 * length bs + 2) div 3 \<and>
   (decode_portable t = Inr bs \<longleftrightarrow> t = encode_portable bs)"
  using portable.dec_enc portable.dec_iff encode_length by blast

section \<open>As strings\<close>

definition b64 :: "byte list \<Rightarrow> string" where
  "b64 bs = map char_of (encode_portable bs)"

definition unb64 :: "string \<Rightarrow> base64_error + byte list" where
  "unb64 s = decode_portable (map of_char s)"

lemma shape_lt: "in_shape c \<Longrightarrow> c < 256"
  by (auto simp: in_shape_def)

lemma codes_b64: "map of_char (b64 bs) = encode_portable bs"
  using encode_shape [of bs] by (auto simp: b64_def list_all_iff comp_def shape_lt intro!: map_idI)

interpretation strings: text_codec b64 unb64
proof
  show "unb64 (b64 bs) = Inr bs" for bs by (simp add: unb64_def codes_b64 portable.dec_enc)
  show "b64 bs = s" if "unb64 s = Inr bs" for s bs
  proof -
    have "encode_portable bs = map of_char s" using that by (simp add: unb64_def decode_canonical)
    then show ?thesis by (simp add: b64_def comp_def)
  qed
qed

lemma length_b64: "length (b64 bs) = (4 * length bs + 2) div 3"
  by (simp add: b64_def encode_length)

lemma b64_shape: "list_all (\<lambda>c. in_shape (of_char c)) (b64 bs)"
  using encode_shape [of bs] unfolding codes_b64 [symmetric] by (simp add: list_all_iff)

end
