(* ===== verification/Js_Json.thy ===== *)
theory Js_Json
  imports Js_Strings "HOL-Library.Word"
begin

text \<open>
  What the modelled code uses of \<^verbatim>\<open>JSON.stringify\<close> and
  \<^verbatim>\<open>TextEncoder\<close>: the text of an array of strings, as it is hashed and
  authenticated, and its UTF-8 bytes. Both are injective: an authenticated text determines every
  field that went into it.
\<close>

definition hex_digit :: "nat \<Rightarrow> char" where
  "hex_digit d = (if d < 10 then char_of (48 + d) else char_of (87 + d))"

definition quote_char :: "char \<Rightarrow> string" where
  "quote_char c =
     (let n = of_char c :: nat in
      if n = 34 then [CHR 0x5C, CHR 0x22]
      else if n = 92 then [CHR 0x5C, CHR 0x5C]
      else if n = 8 then [CHR 0x5C, CHR ''b'']
      else if n = 9 then [CHR 0x5C, CHR ''t'']
      else if n = 10 then [CHR 0x5C, CHR ''n'']
      else if n = 12 then [CHR 0x5C, CHR ''f'']
      else if n = 13 then [CHR 0x5C, CHR ''r'']
      else if n < 32 then [CHR 0x5C, CHR ''u'', CHR ''0'', CHR ''0'', hex_digit (n div 16), hex_digit (n mod 16)]
      else [c])"

definition json_quote :: "string \<Rightarrow> string" where
  "json_quote s = CHR 0x22 # concat (map quote_char s) @ [CHR 0x22]"

definition json_array :: "string list \<Rightarrow> string" where
  \<comment> \<open>\<^verbatim>\<open>JSON.stringify\<close> of an array of strings\<close>
  "json_array ss = ''['' @ js_join '','' (map json_quote ss) @ '']''"

definition utf8_char :: "char \<Rightarrow> 8 word list" where
  "utf8_char c =
     (let n = of_char c :: nat in
      if n < 128 then [word_of_nat n] else [word_of_nat (192 + n div 64), word_of_nat (128 + n mod 64)])"

definition utf8 :: "string \<Rightarrow> 8 word list" where
  \<comment> \<open>\<^verbatim>\<open>new TextEncoder().encode\<close>\<close>
  "utf8 s = concat (map utf8_char s)"

section \<open>Injectivity\<close>

text \<open>A code is a function from letters to non-empty words none of which starts another.\<close>

definition prefix_code :: "('a \<Rightarrow> 'b list) \<Rightarrow> bool" where
  "prefix_code f \<longleftrightarrow> (\<forall>x y r r'. f x @ r = f y @ r' \<longrightarrow> x = y) \<and> (\<forall>x. f x \<noteq> [])"

lemma prefix_code_concat:
  assumes "prefix_code f"
  shows "concat (map f xs) = concat (map f ys) \<longleftrightarrow> xs = ys"
proof
  show "concat (map f xs) = concat (map f ys) \<Longrightarrow> xs = ys"
  proof (induction xs arbitrary: ys)
    case Nil
    then show ?case using assms by (cases ys) (auto simp: prefix_code_def)
  next
    case (Cons x xs)
    then obtain y ys' where ys: "ys = y # ys'" using assms by (cases ys) (auto simp: prefix_code_def)
    with Cons.prems have eq: "f x @ concat (map f xs) = f y @ concat (map f ys')" by simp
    then have "x = y" using assms unfolding prefix_code_def by blast
    with eq Cons.IH ys show ?case by simp
  qed
qed simp

lemma prefix_codeI:
  assumes "\<And>x r. d (f x @ r) = (x, r)" and "\<And>x. f x \<noteq> []"
  shows "prefix_code f"
  unfolding prefix_code_def using assms by (metis prod.inject)

lemma prefix_code_stop:
  assumes "prefix_code f" and hd: "\<And>x. hd (f x) \<noteq> q"
  shows "concat (map f xs) @ q # r = concat (map f ys) @ q # r' \<Longrightarrow> xs = ys \<and> r = r'"
proof (induction xs arbitrary: ys)
  case Nil
  show ?case
  proof (cases ys)
    case (Cons y ys')
    then have "q = hd (f y @ concat (map f ys') @ q # r')" using Nil by (metis append_Nil append_assoc concat.simps list.sel(1) list.simps(8,9))
    then show ?thesis using hd [of y] assms(1) by (simp add: prefix_code_def)
  qed (use Nil in simp)
next
  case (Cons x xs)
  have ne: "f z \<noteq> []" for z using assms(1) by (simp add: prefix_code_def)
  show ?case
  proof (cases ys)
    case Nil
    with Cons.prems have "f x @ (concat (map f xs) @ q # r) = q # r'" by simp
    then have "hd (f x) = q" using ne [of x] by (metis hd_append2 list.sel(1))
    then show ?thesis using hd by blast
  next
    case ys: (Cons y ys')
    with Cons.prems have eq: "f x @ (concat (map f xs) @ q # r) = f y @ (concat (map f ys') @ q # r')" by simp
    then have "x = y" using assms(1) unfolding prefix_code_def by blast
    with eq Cons.IH [of ys'] ys show ?thesis by simp
  qed
qed

text \<open>Reading one character back.\<close>

definition utf8_read :: "8 word list \<Rightarrow> char \<times> 8 word list" where
  "utf8_read ws = (if unat (hd ws) < 128 then (char_of (unat (hd ws)), tl ws)
     else (char_of ((unat (hd ws) - 192) * 64 + (unat (ws ! 1) - 128)), drop 2 ws))"

lemma unat_byte: "n < 256 \<Longrightarrow> unat (word_of_nat n :: 8 word) = n"
  by (simp add: unat_of_nat take_bit_eq_mod)

lemma utf8_read_char: "utf8_read (utf8_char c @ r) = (c, r)"
proof -
  let ?n = "of_char c :: nat"
  have n: "?n < 256" by simp
  have d: "?n div 64 < 4" using n by (simp add: less_mult_imp_div_less)
  have m: "?n mod 64 < 64" by simp
  have u: "unat (word_of_nat (192 + ?n div 64) :: 8 word) = 192 + ?n div 64"
    "unat (word_of_nat (128 + ?n mod 64) :: 8 word) = 128 + ?n mod 64" "unat (word_of_nat ?n :: 8 word) = ?n"
    by (rule unat_byte, use n d m in linarith)+
  have c: "char_of (?n div 64 * 64 + ?n mod 64) = c" by (simp add: mult.commute)
  show ?thesis
  proof (cases "?n < 128")
    case True
    then show ?thesis by (simp add: utf8_read_def utf8_char_def u(3))
  next
    case False
    have "utf8_char c @ r = word_of_nat (192 + ?n div 64) # word_of_nat (128 + ?n mod 64) # r"
      using False by (simp add: utf8_char_def Let_def)
    then show ?thesis unfolding utf8_read_def using c
      by (simp only: list.sel nth_Cons_Suc nth_Cons_0 One_nat_def u) simp
  qed
qed

lemma utf8_inject [simp]: "utf8 s = utf8 t \<longleftrightarrow> s = t"
proof -
  have "prefix_code utf8_char"
    by (rule prefix_codeI [of utf8_read, OF utf8_read_char]) (simp add: utf8_char_def Let_def)
  then show ?thesis unfolding utf8_def by (rule prefix_code_concat)
qed

definition hex_value :: "char \<Rightarrow> nat" where
  "hex_value c = (let n = of_char c in if n < 58 then n - 48 else n - 87)"

lemma hex_value_digit: "d < 16 \<Longrightarrow> hex_value (hex_digit d) = d"
  by (auto simp: hex_value_def hex_digit_def Let_def)

definition quote_read :: "string \<Rightarrow> char \<times> string" where
  "quote_read s =
     (if hd s \<noteq> CHR 0x5C then (hd s, tl s)
      else if s ! 1 = CHR ''b'' then (char_of (8 :: nat), drop 2 s)
      else if s ! 1 = CHR ''t'' then (char_of (9 :: nat), drop 2 s)
      else if s ! 1 = CHR ''n'' then (char_of (10 :: nat), drop 2 s)
      else if s ! 1 = CHR ''f'' then (char_of (12 :: nat), drop 2 s)
      else if s ! 1 = CHR ''r'' then (char_of (13 :: nat), drop 2 s)
      else if s ! 1 = CHR ''u'' then (char_of (16 * hex_value (s ! 4) + hex_value (s ! 5)), drop 6 s)
      else (s ! 1, drop 2 s))"

lemma char_eqI: "(of_char c :: nat) = n \<Longrightarrow> char_of n = c"
  by (metis char_of_char)

lemma quote_read_char: "quote_read (quote_char c @ r) = (c, r)"
proof -
  let ?n = "of_char c :: nat"
  have esc: "?n = 92 \<longleftrightarrow> c = CHR 0x5C" "?n = 34 \<longleftrightarrow> c = CHR 0x22"
    using of_char_eq_iff [of c "CHR 0x5C", where 'a = nat] of_char_eq_iff [of c "CHR 0x22", where 'a = nat] by simp_all
  have known: "quote_read (quote_char c @ r) = (c, r)" if "?n \<in> {8, 9, 10, 12, 13}"
    using that char_eqI [of c] by (elim insertE emptyE) (simp_all add: quote_char_def quote_read_def)
  have quoted: "quote_read (quote_char c @ r) = (c, r)" if "?n = 34 \<or> ?n = 92"
    using that esc by (elim disjE) (simp_all add: quote_char_def quote_read_def)
  have hex: "quote_read (quote_char c @ r) = (c, r)" if "?n < 32" "?n \<notin> {8, 9, 10, 12, 13}"
  proof -
    have "?n div 16 < 16" "?n mod 16 < 16" using that(1) by (simp_all add: less_mult_imp_div_less)
    then have "16 * hex_value (hex_digit (?n div 16)) + hex_value (hex_digit (?n mod 16)) = ?n"
      by (simp add: hex_value_digit)
    moreover have "quote_char c = [CHR 0x5C, CHR ''u'', CHR ''0'', CHR ''0'', hex_digit (?n div 16), hex_digit (?n mod 16)]"
      using that by (simp add: quote_char_def Let_def)
    ultimately show ?thesis by (simp add: quote_read_def)
  qed
  have plain: "quote_read (quote_char c @ r) = (c, r)" if "32 \<le> ?n" "?n \<noteq> 34" "?n \<noteq> 92"
    using that esc by (simp add: quote_char_def quote_read_def Let_def)
  from known quoted hex plain show ?thesis by (meson not_le)
qed

lemma quote_code: "prefix_code quote_char"
  by (rule prefix_codeI [of quote_read, OF quote_read_char]) (simp add: quote_char_def Let_def)

lemma quote_hd: "hd (quote_char c) \<noteq> CHR 0x22"
proof -
  have "c \<noteq> CHR 0x22" if "(of_char c :: nat) \<noteq> 34" using that by auto
  then show ?thesis by (auto simp: quote_char_def Let_def)
qed

lemma json_quote_append: "json_quote s @ r = json_quote t @ r' \<Longrightarrow> s = t \<and> r = r'"
  using prefix_code_stop [OF quote_code quote_hd, of s r t r'] by (simp add: json_quote_def)

lemma json_join_inject:
  "js_join '','' (map json_quote ss) @ '']'' = js_join '','' (map json_quote ts) @ '']'' \<Longrightarrow> ss = ts"
proof (induction ss arbitrary: ts)
  case Nil
  then show ?case by (cases ts rule: remdups_adj.cases) (auto simp: json_quote_def)
next
  case (Cons s ss)
  then obtain t ts' where ts: "ts = t # ts'" by (cases ts) (auto simp: json_quote_def, cases ss, auto simp: json_quote_def)
  have split: "js_join '','' (map json_quote (x # xs)) @ '']'' =
      json_quote x @ (if xs = [] then '']'' else '','' @ js_join '','' (map json_quote xs) @ '']'')" for x xs
    by (cases xs) auto
  have "s = t \<and> (if ss = [] then '']'' else '','' @ js_join '','' (map json_quote ss) @ '']'') =
      (if ts' = [] then '']'' else '','' @ js_join '','' (map json_quote ts') @ '']'')"
    by (rule json_quote_append) (use Cons.prems ts in \<open>simp only: split\<close>)
  then show ?case using Cons.IH [of ts'] ts by (auto split: if_splits)
qed

lemma json_array_inject [simp]: "json_array ss = json_array ts \<longleftrightarrow> ss = ts"
  using json_join_inject by (auto simp: json_array_def)

end
