(* ===== verification/Membership.thy ===== *)
theory Membership
  imports Base64url Js_Json
begin

text \<open>
  Proving room membership on a connection:
  \<^verbatim>\<open>frontend/src/lib/room-security/membership.ts\<close> (transcripts and proofs) and
  \<^verbatim>\<open>frontend/src/lib/room-security/session.ts\<close> (the handshake's state machine).

  HMAC and the base64url of \<^verbatim>\<open>@scure/base\<close> are packages: they are fields of
  \<open>crypto\<close>, and \<open>lawful\<close> states what their documentation promises and the code relies on. Nothing is
  assumed of HMAC beyond its output length; the agreement theorem says instead that a wrong
  acceptance exhibits a collision. Random challenges and the clock are arguments.
\<close>

record crypto =
  hmac :: "byte list \<Rightarrow> byte list \<Rightarrow> byte list"
  enc64 :: "byte list \<Rightarrow> string"
  dec64 :: "string \<Rightarrow> base64_error + byte list"

record RoomKeys =
  discoveryId :: string
  membershipKey :: "byte list"

datatype role = Initiator | Responder

fun role_name :: "role \<Rightarrow> string" where
  "role_name Initiator = ''initiator''"
| "role_name Responder = ''responder''"

record MembershipTranscript =
  troom :: string
  initiator :: string
  responder :: string
  initiatorChallenge :: string
  responderChallenge :: string

datatype membership_error =
    Invalid_identities | Invalid_challenge | Wrong_room | Invalid_peers | Cannot_start
  | Verification_failed | Unverified

section \<open>Proofs\<close>

definition token43 :: "string \<Rightarrow> bool" where
  \<comment> \<open>\<^verbatim>\<open>/^[A-Za-z0-9_-]{43}$/\<close>\<close>
  "token43 s \<longleftrightarrow> length s = 43 \<and> list_all (\<lambda>c. in_shape (of_char c)) s"

definition newMembershipChallenge :: "crypto \<Rightarrow> byte list \<Rightarrow> string" where
  "newMembershipChallenge c random = enc64 c random"

definition canonical_challenge :: "crypto \<Rightarrow> string \<Rightarrow> bool" where
  "canonical_challenge c s \<longleftrightarrow> token43 s \<and>
     (case dec64 c s of Inl _ \<Rightarrow> False | Inr bs \<Rightarrow> enc64 c bs = s)"

definition transcriptBytes :: "crypto \<Rightarrow> MembershipTranscript \<Rightarrow> role \<Rightarrow> membership_error + byte list" where
  "transcriptBytes c t r =
     (if initiator t = [] \<or> responder t = [] \<or> initiator t = responder t \<or>
         256 < length (initiator t) \<or> 256 < length (responder t) then Inl Invalid_identities
      else if \<not> canonical_challenge c (initiatorChallenge t) \<or> \<not> canonical_challenge c (responderChallenge t)
      then Inl Invalid_challenge
      else Inr (utf8 (json_array [''awful/room-membership/v2'', troom t, initiator t, responder t,
                                  initiatorChallenge t, responderChallenge t, role_name r])))"

definition createMembershipProof ::
  "crypto \<Rightarrow> RoomKeys \<Rightarrow> MembershipTranscript \<Rightarrow> role \<Rightarrow> membership_error + string"
where
  "createMembershipProof c keys t r =
     (if troom t \<noteq> discoveryId keys then Inl Wrong_room
      else case transcriptBytes c t r of
             Inl e \<Rightarrow> Inl e
           | Inr m \<Rightarrow> Inr (enc64 c (hmac c (membershipKey keys) m)))"

text \<open>The comparison that looks at every character: a missing one reads as \<^verbatim>\<open>NaN\<close>, which
  the bitwise operators take as 0.\<close>

unbundle bit_operations_syntax

fun ct_diff :: "string \<Rightarrow> string \<Rightarrow> nat" where
  "ct_diff [] p = 0"
| "ct_diff (e # es) p =
     ((of_char e XOR (case p of [] \<Rightarrow> 0 | x # _ \<Rightarrow> of_char x)) OR ct_diff es (tl p))"

definition verifyMembershipProof ::
  "crypto \<Rightarrow> RoomKeys \<Rightarrow> MembershipTranscript \<Rightarrow> role \<Rightarrow> js_value \<Rightarrow> bool"
where
  "verifyMembershipProof c keys t r proof =
     (case proof of
        JStr p \<Rightarrow>
          if \<not> token43 p then False
          else (case createMembershipProof c keys t r of
                  Inl _ \<Rightarrow> False
                | Inr expected \<Rightarrow> ct_diff expected p = 0)
      | _ \<Rightarrow> False)"

section \<open>Sessions\<close>

datatype session_state = New | Waiting | Verified | Closed

record MembershipSession =
  skeys :: RoomKeys
  srole :: role
  sstate :: session_state
  transcript :: MembershipTranscript
  sdeadline :: int

definition new_session ::
  "crypto \<Rightarrow> RoomKeys \<Rightarrow> string \<Rightarrow> string \<Rightarrow> role \<Rightarrow> byte list \<Rightarrow> int \<Rightarrow> membership_error + MembershipSession"
where
  "new_session c keys localPeer remotePeer r random now =
     (if localPeer = [] \<or> remotePeer = [] \<or> localPeer = remotePeer \<or> 256 < length localPeer \<or> 256 < length remotePeer
      then Inl Invalid_peers
      else Inr \<lparr>skeys = keys, srole = r, sstate = New,
        transcript = \<lparr>troom = discoveryId keys,
          initiator = (if r = Initiator then localPeer else remotePeer),
          responder = (if r = Responder then localPeer else remotePeer),
          initiatorChallenge = (if r = Initiator then newMembershipChallenge c random else []),
          responderChallenge = (if r = Responder then newMembershipChallenge c random else [])\<rparr>,
        sdeadline = now + 10000\<rparr>)"

definition verified :: "MembershipSession \<Rightarrow> bool" where
  "verified s \<longleftrightarrow> sstate s = Verified"

definition binding :: "MembershipSession \<Rightarrow> membership_error + string" where
  "binding s =
     (if \<not> verified s then Inl Unverified
      else Inr (initiatorChallenge (transcript s) @ ''.'' @ responderChallenge (transcript s)))"

definition close_session :: "MembershipSession \<Rightarrow> MembershipSession" where
  "close_session s = s\<lparr>sstate := Closed,
     transcript := (transcript s)\<lparr>initiatorChallenge := [], responderChallenge := []\<rparr>\<rparr>"

definition start_session :: "MembershipSession \<Rightarrow> int \<Rightarrow> (membership_error + js_value) \<times> MembershipSession" where
  "start_session s now =
     (if sstate s \<noteq> New \<or> srole s \<noteq> Initiator \<or> sdeadline s \<le> now then (Inl Cannot_start, close_session s)
      else (Inr (JObj [(''version'', JNum (JInt 2)), (''type'', JStr ''hello''),
              (''room'', JStr (discoveryId (skeys s))),
              (''challenge'', JStr (initiatorChallenge (transcript s)))]),
            s\<lparr>sstate := Waiting\<rparr>))"

fun is_js_object :: "js_value \<Rightarrow> bool" where
  "is_js_object (JObj _) \<longleftrightarrow> True"
| "is_js_object (JArr _) \<longleftrightarrow> True"
| "is_js_object _ \<longleftrightarrow> False"

definition fail_session :: "MembershipSession \<Rightarrow> (membership_error + js_value option) \<times> MembershipSession" where
  "fail_session s = (Inl Verification_failed, close_session s)"

definition receive_hello :: "crypto \<Rightarrow> MembershipSession \<Rightarrow> js_value \<Rightarrow> (membership_error + js_value option) \<times> MembershipSession" where
  "receive_hello c s frame =
     (case js_prop frame ''challenge'' of
        JStr ch \<Rightarrow>
          let t = (transcript s)\<lparr>initiatorChallenge := ch\<rparr> in
          (case createMembershipProof c (skeys s) t Responder of
             Inl _ \<Rightarrow> fail_session s
           | Inr proof \<Rightarrow>
               (Inr (Some (JObj [(''version'', JNum (JInt 2)), (''type'', JStr ''challenge''),
                  (''room'', JStr (discoveryId (skeys s))), (''challenge'', JStr (responderChallenge t)),
                  (''proof'', JStr proof)])),
                s\<lparr>transcript := t, sstate := Waiting\<rparr>))
      | _ \<Rightarrow> fail_session s)"

definition receive_challenge :: "crypto \<Rightarrow> MembershipSession \<Rightarrow> js_value \<Rightarrow> (membership_error + js_value option) \<times> MembershipSession" where
  "receive_challenge c s frame =
     (case js_prop frame ''challenge'' of
        JStr ch \<Rightarrow>
          let t = (transcript s)\<lparr>responderChallenge := ch\<rparr> in
          if \<not> verifyMembershipProof c (skeys s) t Responder (js_prop frame ''proof'') then fail_session s
          else (case createMembershipProof c (skeys s) t Initiator of
                  Inl _ \<Rightarrow> fail_session s
                | Inr proof \<Rightarrow>
                    (Inr (Some (JObj [(''version'', JNum (JInt 2)), (''type'', JStr ''finish''),
                       (''room'', JStr (discoveryId (skeys s))), (''proof'', JStr proof)])),
                     s\<lparr>transcript := t, sstate := Verified\<rparr>))
      | _ \<Rightarrow> fail_session s)"

definition receive_finish :: "crypto \<Rightarrow> MembershipSession \<Rightarrow> js_value \<Rightarrow> (membership_error + js_value option) \<times> MembershipSession" where
  "receive_finish c s frame =
     (if \<not> verifyMembershipProof c (skeys s) (transcript s) Initiator (js_prop frame ''proof'') then fail_session s
      else (Inr None, s\<lparr>sstate := Verified\<rparr>))"

definition receive_session ::
  "crypto \<Rightarrow> MembershipSession \<Rightarrow> js_value \<Rightarrow> int \<Rightarrow> (membership_error + js_value option) \<times> MembershipSession"
where
  "receive_session c s input now =
     (if sstate s = Closed \<or> sstate s = Verified \<or> sdeadline s \<le> now \<or> \<not> is_js_object input then fail_session s
      else if js_prop input ''version'' \<noteq> JNum (JInt 2) \<or> js_prop input ''room'' \<noteq> JStr (discoveryId (skeys s))
      then fail_session s
      else if srole s = Responder \<and> sstate s = New \<and> js_prop input ''type'' = JStr ''hello'' then receive_hello c s input
      else if srole s = Initiator \<and> sstate s = Waiting \<and> js_prop input ''type'' = JStr ''challenge'' then receive_challenge c s input
      else if srole s = Responder \<and> sstate s = Waiting \<and> js_prop input ''type'' = JStr ''finish'' then receive_finish c s input
      else fail_session s)"

section \<open>What a proof proves\<close>

definition lawful :: "crypto \<Rightarrow> bool" where
  "lawful c \<longleftrightarrow> text_codec (enc64 c) (dec64 c) \<and> (\<forall>bs. length bs = 32 \<longrightarrow> token43 (enc64 c bs)) \<and>
     (\<forall>k m. length (hmac c k m) = 32)"

lemma nat_xor_eq_0: "(a XOR b = (0 :: nat)) \<longleftrightarrow> a = b"
  by (metis bit_xor_iff bit_eq_iff xor_self_eq bit_0_eq bot_apply bot_bool_def)

lemma nat_or_eq_0: "(a OR b = (0 :: nat)) \<longleftrightarrow> a = 0 \<and> b = 0"
  by (auto simp: bit_eq_iff bit_or_iff)

lemma ct_diff_iff: "length es = length p \<Longrightarrow> ct_diff es p = 0 \<longleftrightarrow> es = p"
  by (induction es p rule: list_induct2) (auto simp: nat_xor_eq_0 nat_or_eq_0)

lemma verify_iff:
  assumes "lawful c"
  shows "verifyMembershipProof c keys t r v \<longleftrightarrow>
    (\<exists>p. v = JStr p \<and> createMembershipProof c keys t r = Inr p)"
proof -
  have tok: "token43 p" if "createMembershipProof c keys t r = Inr p" for p
    using that assms by (auto simp: createMembershipProof_def lawful_def split: if_splits sum.splits)
  show ?thesis
  proof (cases "\<exists>q. v = JStr q")
    case True
    then obtain q where v: "v = JStr q" by blast
    show ?thesis
    proof (cases "createMembershipProof c keys t r")
      case (Inl e)
      then show ?thesis by (simp add: v verifyMembershipProof_def)
    next
      case (Inr p)
      then have "length p = 43" using tok [OF Inr] by (simp add: token43_def)
      then have "token43 q \<Longrightarrow> ct_diff p q = 0 \<longleftrightarrow> p = q" by (intro ct_diff_iff) (simp add: token43_def)
      then show ?thesis using tok [OF Inr] Inr by (auto simp: v verifyMembershipProof_def)
    qed
  next
    case False
    then show ?thesis by (cases v) (simp_all add: verifyMembershipProof_def)
  qed
qed

lemma role_name_inject [simp]: "role_name a = role_name b \<longleftrightarrow> a = b"
  by (cases a; cases b) simp_all

lemma transcriptBytes_inject:
  "transcriptBytes c t r = Inr m \<Longrightarrow> transcriptBytes c t' r' = Inr m \<Longrightarrow> t = t' \<and> r = r'"
  by (auto simp: transcriptBytes_def split: if_splits intro!: MembershipTranscript.equality)

text \<open>C8: a proof proves exactly its own statement: when a proof made by a holder of some room key
  for some transcript and role is accepted by a peer for its own room key, transcript and role,
  then keys, room, both identities, both challenges and the role agree - or the two inputs
  are a collision of HMAC. In particular a proof cannot be reflected at its maker, carried to
  another room or peer, or replayed in a session with other challenges.\<close>

theorem membership_agreement:
  assumes "lawful c" and "createMembershipProof c keys' t' r' = Inr p"
    and "verifyMembershipProof c keys t r (JStr p)"
  shows "(membershipKey keys' = membershipKey keys \<and> discoveryId keys' = discoveryId keys \<and> t' = t \<and> r' = r) \<or>
    (\<exists>m m'. transcriptBytes c t r = Inr m \<and> transcriptBytes c t' r' = Inr m' \<and>
       (membershipKey keys, m) \<noteq> (membershipKey keys', m') \<and>
       hmac c (membershipKey keys) m = hmac c (membershipKey keys') m')"
proof -
  have p: "createMembershipProof c keys t r = Inr p" using verify_iff [OF assms(1)] assms(3) by auto
  from assms(2) p obtain m m' where m: "transcriptBytes c t r = Inr m" "transcriptBytes c t' r' = Inr m'"
      "troom t = discoveryId keys" "troom t' = discoveryId keys'"
      "enc64 c (hmac c (membershipKey keys) m) = enc64 c (hmac c (membershipKey keys') m')"
    by (auto simp: createMembershipProof_def split: if_splits sum.splits)
  have "hmac c (membershipKey keys) m = hmac c (membershipKey keys') m'"
    using m(5) text_codec.enc_inject [of "enc64 c" "dec64 c"] assms(1) unfolding lawful_def by blast
  then show ?thesis using m transcriptBytes_inject [OF m(1), of t' r'] by auto
qed


text \<open>A toy instance of the packages, for evaluating the definitions.\<close>

definition demo_crypto :: crypto where
  "demo_crypto = \<lparr>hmac = \<lambda>k m. take 32 (k @ m @ replicate 32 0), enc64 = b64, dec64 = unb64\<rparr>"

lemma demo_lawful: "lawful demo_crypto"
proof -
  have "token43 (b64 bs)" if "length bs = 32" for bs
    using that b64_shape [of bs] by (simp add: token43_def length_b64)
  moreover have "text_codec b64 unb64" by unfold_locales (rule strings.dec_enc, rule strings.enc_dec)
  moreover have "length (take 32 (k @ m @ replicate 32 (0 :: byte))) = 32" for k m by (auto simp: min_def)
  ultimately show ?thesis by (simp only: lawful_def demo_crypto_def crypto.simps) simp
qed

definition demo_keys :: RoomKeys where
  "demo_keys = \<lparr>discoveryId = ''rd2_x'', membershipKey = replicate 4 7\<rparr>"

definition demo_transcript :: MembershipTranscript where
  "demo_transcript = \<lparr>troom = ''rd2_x'', initiator = ''a'', responder = ''b'',
     initiatorChallenge = b64 (replicate 32 1), responderChallenge = b64 (replicate 32 2)\<rparr>"

lemma canonical_enc: "lawful c \<Longrightarrow> length bs = 32 \<Longrightarrow> canonical_challenge c (enc64 c bs)"
  by (auto simp: canonical_challenge_def lawful_def text_codec.dec_enc)

lemma demo_proof: "\<exists>p. createMembershipProof demo_crypto demo_keys demo_transcript Responder = Inr p"
  using canonical_enc [OF demo_lawful, of "replicate 32 1"] canonical_enc [OF demo_lawful, of "replicate 32 2"]
  by (simp add: createMembershipProof_def transcriptBytes_def demo_transcript_def demo_keys_def demo_crypto_def)

theorem membership_agreement_witness:
  "(membershipKey demo_keys = membershipKey demo_keys \<and> discoveryId demo_keys = discoveryId demo_keys \<and>
      demo_transcript = demo_transcript \<and> Responder = Responder) \<or>
    (\<exists>m m'. transcriptBytes demo_crypto demo_transcript Responder = Inr m \<and>
       transcriptBytes demo_crypto demo_transcript Responder = Inr m' \<and>
       (membershipKey demo_keys, m) \<noteq> (membershipKey demo_keys, m') \<and>
       hmac demo_crypto (membershipKey demo_keys) m = hmac demo_crypto (membershipKey demo_keys) m')"
proof -
  obtain p where p: "createMembershipProof demo_crypto demo_keys demo_transcript Responder = Inr p"
    using demo_proof by blast
  then have "verifyMembershipProof demo_crypto demo_keys demo_transcript Responder (JStr p)"
    by (simp add: verify_iff [OF demo_lawful])
  from membership_agreement [OF demo_lawful p this] show ?thesis .
qed

section \<open>What a session does\<close>

fun other_role :: "role \<Rightarrow> role" where
  "other_role Initiator = Responder"
| "other_role Responder = Initiator"

lemma fail_session_simps [simp]:
  "fst (fail_session s) = Inl Verification_failed" "sstate (snd (fail_session s)) = Closed"
  by (simp_all add: fail_session_def close_session_def)

lemma receive_cases:
  "(\<exists>e. fst (receive_session c s input now) = Inl e \<and> receive_session c s input now = fail_session s) \<or>
   (srole s = Responder \<and> sstate s = New \<and> sstate (snd (receive_session c s input now)) = Waiting) \<or>
   (sstate s = Waiting \<and> now < sdeadline s \<and> sstate (snd (receive_session c s input now)) = Verified \<and>
    verifyMembershipProof c (skeys s) (transcript (snd (receive_session c s input now))) (other_role (srole s))
      (js_prop input ''proof''))"
  by (auto simp: receive_session_def receive_hello_def receive_challenge_def receive_finish_def Let_def
      split: if_splits js_value.splits sum.splits)

lemma closed_receive: "sstate s = Closed \<Longrightarrow> receive_session c s input now = fail_session s"
  by (simp add: receive_session_def)

text \<open>C9: a session is verified only by the other side's proof, and fails for good: whenever taking a
  frame makes a session verified, it was waiting, it was in time, and the frame carried a valid proof
  of the opposite role for the session's own transcript; and whenever taking a frame fails, the
  session is closed, its challenges are erased, and no later frame is ever accepted.\<close>

theorem verified_only_by_proof:
  assumes "receive_session c s input now = (res, s')"
  shows "(sstate s' = Verified \<longrightarrow> sstate s = Waiting \<and> now < sdeadline s \<and>
       verifyMembershipProof c (skeys s) (transcript s') (other_role (srole s)) (js_prop input ''proof'')) \<and>
    (\<forall>e. res = Inl e \<longrightarrow> sstate s' = Closed \<and>
       initiatorChallenge (transcript s') = [] \<and> responderChallenge (transcript s') = [] \<and>
       fst (receive_session c s' input' now') = Inl Verification_failed \<and>
       sstate (snd (receive_session c s' input' now')) = Closed)"
proof -
  have "receive_session c s input now = fail_session s" if "res = Inl e" for e
    using that assms receive_cases [of c s input now]
    by (auto simp: receive_session_def receive_hello_def receive_challenge_def receive_finish_def Let_def
        split: if_splits js_value.splits sum.splits)
  then have fail: "s' = close_session s" if "res = Inl e" for e
    using that assms by (simp add: fail_session_def)
  have "sstate s' = Verified \<longrightarrow> sstate s = Waiting \<and> now < sdeadline s \<and>
       verifyMembershipProof c (skeys s) (transcript s') (other_role (srole s)) (js_prop input ''proof'')"
    using receive_cases [of c s input now] assms by (auto simp: fail_session_def close_session_def)
  moreover have "sstate s' = Closed \<Longrightarrow> receive_session c s' input' now' = fail_session s'" by (rule closed_receive)
  ultimately show ?thesis using fail by (auto simp: close_session_def)
qed

definition demo_session :: MembershipSession where
  "demo_session = \<lparr>skeys = demo_keys, srole = Responder, sstate = Waiting, transcript = demo_transcript, sdeadline = 10000\<rparr>"

theorem verified_only_by_proof_witness:
  "sstate (snd (receive_session demo_crypto demo_session JNull 5)) \<noteq> Verified \<and>
   fst (receive_session demo_crypto (snd (receive_session demo_crypto demo_session JNull 5)) JNull 6) = Inl Verification_failed"
proof -
  have r: "receive_session demo_crypto demo_session JNull 5 = (Inl Verification_failed, close_session demo_session)"
    by (simp add: receive_session_def fail_session_def)
  from verified_only_by_proof [OF r, of JNull 6] show ?thesis by (auto simp: r close_session_def)
qed

lemma proof_ok:
  assumes "lawful c" "initiator t \<noteq> []" "responder t \<noteq> []" "initiator t \<noteq> responder t"
    "length (initiator t) \<le> 256" "length (responder t) \<le> 256" "troom t = discoveryId keys"
    "length ra = 32" "length rb = 32" "initiatorChallenge t = enc64 c ra" "responderChallenge t = enc64 c rb"
  shows "\<exists>p. createMembershipProof c keys t r = Inr p"
  using assms canonical_enc [OF assms(1)] by (simp add: createMembershipProof_def transcriptBytes_def)

text \<open>C10: two members always get through: with distinct authenticated peers, fresh 32-byte challenges and
  every frame within ten seconds of the session's creation, the three frames of the handshake
  leave both sides verified with the same binding, the one later envelopes are tied to.\<close>

theorem handshake_completes:
  assumes "lawful c" and "a \<noteq> []" "b \<noteq> []" "a \<noteq> b" "length a \<le> 256" "length b \<le> 256"
    and "length ra = 32" "length rb = 32"
    and "t1 < t0 + 10000" "t2 < t0 + 10000" "t3 < t0 + 10000" "t4 < t0 + 10000"
  shows "\<exists>si sr hello si1 challenge sr1 finish si2 sr2.
     new_session c keys a b Initiator ra t0 = Inr si \<and> new_session c keys b a Responder rb t0 = Inr sr \<and>
     start_session si t1 = (Inr hello, si1) \<and>
     receive_session c sr hello t2 = (Inr (Some challenge), sr1) \<and>
     receive_session c si1 challenge t3 = (Inr (Some finish), si2) \<and>
     receive_session c sr1 finish t4 = (Inr None, sr2) \<and>
     verified si2 \<and> verified sr2 \<and> binding si2 = binding sr2"
proof -
  let ?t = "\<lparr>troom = discoveryId keys, initiator = a, responder = b,
             initiatorChallenge = enc64 c ra, responderChallenge = enc64 c rb\<rparr>"
  obtain pr where pr: "createMembershipProof c keys ?t Responder = Inr pr"
    using proof_ok [OF assms(1), of ?t keys ra rb Responder] assms by auto
  obtain pi where pi: "createMembershipProof c keys ?t Initiator = Inr pi"
    using proof_ok [OF assms(1), of ?t keys ra rb Initiator] assms by auto
  have ver: "verifyMembershipProof c keys ?t Responder (JStr pr)" "verifyMembershipProof c keys ?t Initiator (JStr pi)"
    using verify_iff [OF assms(1)] pr pi by auto
  show ?thesis using assms pr pi ver
    by (simp add: new_session_def newMembershipChallenge_def start_session_def receive_session_def
        receive_hello_def receive_challenge_def receive_finish_def verified_def binding_def)
qed

theorem handshake_completes_witness:
  "\<exists>si sr hello si1 challenge sr1 finish si2 sr2.
     new_session demo_crypto demo_keys ''a'' ''b'' Initiator (replicate 32 1) 0 = Inr si \<and>
     new_session demo_crypto demo_keys ''b'' ''a'' Responder (replicate 32 2) 0 = Inr sr \<and>
     start_session si 1 = (Inr hello, si1) \<and>
     receive_session demo_crypto sr hello 2 = (Inr (Some challenge), sr1) \<and>
     receive_session demo_crypto si1 challenge 3 = (Inr (Some finish), si2) \<and>
     receive_session demo_crypto sr1 finish 4 = (Inr None, sr2) \<and>
     verified si2 \<and> verified sr2 \<and> binding si2 = binding sr2"
  by (rule handshake_completes [OF demo_lawful]) simp_all

end
