(* ===== verification/Room_Envelope.thy ===== *)
theory Room_Envelope
  imports Membership
begin

text \<open>
  Room envelopes, \<^verbatim>\<open>frontend/src/lib/room-security/envelope.ts\<close>, and the routing
  check of \<^verbatim>\<open>frontend/src/lib/room-security/scope.ts\<close>.

  HKDF and the browser's AES-GCM are the fields of \<open>aead\<close>: sealing under a key derived from a key
  and a salt, with associated data, and opening, which may fail. The random salt is an argument.
\<close>

record aead =
  aes_seal :: "byte list \<Rightarrow> byte list \<Rightarrow> byte list \<Rightarrow> byte list \<Rightarrow> byte list"
    \<comment> \<open>room key, salt, associated data, plaintext\<close>
  aes_open :: "byte list \<Rightarrow> byte list \<Rightarrow> byte list \<Rightarrow> byte list \<Rightarrow> byte list option"

record EnvelopeKeys = RoomKeys +
  encryptionKey :: "byte list"

definition MAX_ROOM_PLAINTEXT :: nat where
  "MAX_ROOM_PLAINTEXT = 1024 * 1024"

record RoomEnvelope =
  eversion :: js_value
  eroom :: js_value
  esender :: js_value
  ekind :: js_value
  esalt :: js_value
  eciphertext :: js_value

datatype envelope_error = Invalid_payload | Invalid_envelope | Invalid_ciphertext | Decrypt_failed

definition aad :: "string \<Rightarrow> string \<Rightarrow> string \<Rightarrow> string \<Rightarrow> byte list" where
  \<comment> \<open>\<^verbatim>\<open>JSON.stringify\<close> of the array; the version in it is the number 2\<close>
  "aad room sender kind salt =
     utf8 (''['' @ json_quote ''awful/room-envelope/v2'' @ '',2,'' @
       js_join '','' (map json_quote [room, sender, kind, salt]) @ '']'')"

definition kind_ok :: "string \<Rightarrow> bool" where
  \<comment> \<open>\<^verbatim>\<open>/^[a-z][a-z0-9-]{0,63}$/\<close>\<close>
  "kind_ok k \<longleftrightarrow> k \<noteq> [] \<and> length k \<le> 64 \<and> (let n = of_char (hd k) :: nat in 97 \<le> n \<and> n \<le> 122) \<and>
     list_all (\<lambda>c. let n = of_char c :: nat in 97 \<le> n \<and> n \<le> 122 \<or> 48 \<le> n \<and> n \<le> 57 \<or> n = 45) (tl k)"

fun validLabels :: "js_value \<Rightarrow> js_value \<Rightarrow> bool" where
  "validLabels (JStr sender) (JStr kind) \<longleftrightarrow> 0 < length sender \<and> length sender \<le> 256 \<and> kind_ok kind"
| "validLabels _ _ \<longleftrightarrow> False"

definition sealRoomEnvelope ::
  "aead \<Rightarrow> ('a EnvelopeKeys_scheme) \<Rightarrow> string \<Rightarrow> string \<Rightarrow> byte list \<Rightarrow> byte list \<Rightarrow> envelope_error + RoomEnvelope"
where
  "sealRoomEnvelope a keys sender kind random plaintext =
     (if \<not> validLabels (JStr sender) (JStr kind) \<or> MAX_ROOM_PLAINTEXT < length plaintext then Inl Invalid_payload
      else Inr \<lparr>eversion = JNum (JInt 2), eroom = JStr (discoveryId keys), esender = JStr sender, ekind = JStr kind,
        esalt = JStr (b64 random),
        eciphertext = JStr (b64 (aes_seal a (encryptionKey keys) random
                                 (aad (discoveryId keys) sender kind (b64 random)) plaintext))\<rparr>)"

definition openRoomEnvelope ::
  "aead \<Rightarrow> ('a EnvelopeKeys_scheme) \<Rightarrow> RoomEnvelope \<Rightarrow> envelope_error + byte list"
where
  "openRoomEnvelope a keys e =
     (case (esender e, ekind e, esalt e, eciphertext e) of
        (JStr sender, JStr kind, JStr salt, JStr ct) \<Rightarrow>
          if eversion e \<noteq> JNum (JInt 2) \<or> eroom e \<noteq> JStr (discoveryId keys) \<or>
             \<not> validLabels (esender e) (ekind e) \<or> \<not> token43 salt \<or>
             (case unb64 salt of Inl _ \<Rightarrow> True | Inr bs \<Rightarrow> b64 bs \<noteq> salt) \<or>
             (4 * (MAX_ROOM_PLAINTEXT + 16) + 2) div 3 < length ct \<or>
             \<not> (ct \<noteq> [] \<and> list_all (\<lambda>c. in_shape (of_char c)) ct)
          then Inl Invalid_envelope
          else (case (unb64 ct, unb64 salt) of
                  (Inr ciphertext, Inr saltBytes) \<Rightarrow>
                    if length ciphertext < 16 \<or> MAX_ROOM_PLAINTEXT + 16 < length ciphertext \<or> b64 ciphertext \<noteq> ct
                    then Inl Invalid_ciphertext
                    else (case aes_open a (encryptionKey keys) saltBytes
                                 (aad (discoveryId keys) sender kind salt) ciphertext of
                            None \<Rightarrow> Inl Decrypt_failed
                          | Some plain \<Rightarrow> Inr plain)
                | _ \<Rightarrow> Inl Invalid_envelope)
      | _ \<Rightarrow> Inl Invalid_envelope)"

text \<open>What the browser's AES-GCM promises: a sealed text opens, under the same key, salt and associated
  data, to what was sealed, and carries a 16-byte tag.\<close>

definition aead_lawful :: "aead \<Rightarrow> bool" where
  "aead_lawful a \<longleftrightarrow>
     (\<forall>k n ad p. aes_open a k n ad (aes_seal a k n ad p) = Some p \<and>
                 length (aes_seal a k n ad p) = length p + 16)"

lemma open_sealed:
  assumes "aead_lawful a" and "length random = 32"
    and "sealRoomEnvelope a keys sender kind random plaintext = Inr e"
  shows "openRoomEnvelope a keys e = Inr plaintext"
proof -
  have unseal: "aes_open a k n ad (aes_seal a k n ad p) = Some p" "length (aes_seal a k n ad p) = length p + 16"
    for k n ad p
    using assms(1) by (simp_all add: aead_lawful_def)
  let ?ct = "aes_seal a (encryptionKey keys) random (aad (discoveryId keys) sender kind (b64 random)) plaintext"
  have ok: "validLabels (JStr sender) (JStr kind)" "length plaintext \<le> MAX_ROOM_PLAINTEXT"
    and e: "e = \<lparr>eversion = JNum (JInt 2), eroom = JStr (discoveryId keys), esender = JStr sender, ekind = JStr kind,
        esalt = JStr (b64 random), eciphertext = JStr (b64 ?ct)\<rparr>"
    using assms(3) by (auto simp: sealRoomEnvelope_def split: if_splits)
  have salt: "token43 (b64 random)" using assms(2) b64_shape by (simp add: token43_def length_b64)
  have ct: "list_all (\<lambda>c. in_shape (of_char c)) (b64 ?ct)" "length (b64 ?ct) = (4 * (length plaintext + 16) + 2) div 3"
    by (simp_all add: b64_shape length_b64 unseal)
  then have "length (b64 ?ct) \<le> (4 * (MAX_ROOM_PLAINTEXT + 16) + 2) div 3" "b64 ?ct \<noteq> []"
    using ok(2) by (auto intro: div_le_mono simp flip: length_0_conv)
  then show ?thesis
    using ok salt ct by (simp add: openRoomEnvelope_def e strings.dec_enc unseal)
qed

section \<open>An instance\<close>

text \<open>The identity cipher with a constant tag, to evaluate the definitions with.\<close>

definition demo_aead :: aead where
  "demo_aead = \<lparr>aes_seal = \<lambda>k n ad p. p @ replicate 16 0,
     aes_open = \<lambda>k n ad ct. Some (take (length ct - 16) ct)\<rparr>"

text \<open>C12: what is sealed is what is opened: an envelope this module makes for a room opens with the same
  room's keys to the bytes that were put in, whatever the sender, the kind and the random salt;
  none of the canonical-form checks on the way refuses it.\<close>

theorem envelope_roundtrip:
  assumes "aead_lawful a" and "length random = 32"
    and "sealRoomEnvelope a keys sender kind random plaintext = Inr e"
  shows "openRoomEnvelope a keys e = Inr plaintext"
  using assms by (rule open_sealed)

lemma demo_aead_lawful: "aead_lawful demo_aead"
  by (simp add: aead_lawful_def demo_aead_def)

definition demo_envelope_keys :: EnvelopeKeys where
  "demo_envelope_keys = \<lparr>discoveryId = ''rd2_x'', membershipKey = [], encryptionKey = [1]\<rparr>"

theorem envelope_roundtrip_witness:
  "openRoomEnvelope demo_aead demo_envelope_keys
     (projr (sealRoomEnvelope demo_aead demo_envelope_keys ''alice'' ''direct'' (replicate 32 9) [1, 2, 3])) = Inr [1, 2, 3]"
proof (rule envelope_roundtrip [OF demo_aead_lawful])
  show "sealRoomEnvelope demo_aead demo_envelope_keys ''alice'' ''direct'' (replicate 32 9) [1, 2, 3] =
      Inr (projr (sealRoomEnvelope demo_aead demo_envelope_keys ''alice'' ''direct'' (replicate 32 9) [1, 2, 3]))"
    by (simp add: sealRoomEnvelope_def kind_ok_def MAX_ROOM_PLAINTEXT_def)
qed simp

section \<open>Routing scope\<close>

definition starts :: "string \<Rightarrow> string \<Rightarrow> bool" where
  "starts p s \<longleftrightarrow> take (length p) s = p"

definition ROOM_SECURITY_V2_RELEASED :: bool where
  "ROOM_SECURITY_V2_RELEASED = True"

definition claimed_starts :: "string \<Rightarrow> js_value \<Rightarrow> bool" where
  "claimed_starts p v = (case v of JStr s \<Rightarrow> starts p s | _ \<Rightarrow> False)"

definition acceptsRoomScope :: "js_value \<Rightarrow> string option \<Rightarrow> bool" where
  "acceptsRoomScope payload channelRoom =
     (if \<not> is_js_object payload then False
      else
        let claimed = js_prop payload ''roomCode'' in
        if claimed_starts ''r2_'' claimed then False
        else if (case channelRoom of None \<Rightarrow> False | Some r \<Rightarrow> starts ''r2_'' r) then False
        else if (case channelRoom of None \<Rightarrow> False | Some r \<Rightarrow> starts ''rd2_'' r \<or> starts ''dm-'' r)
        then claimed = JUndefined \<or> claimed = JStr (the channelRoom)
        else \<not> (ROOM_SECURITY_V2_RELEASED \<and> (channelRoom \<noteq> None \<or> is_js_string claimed)) \<and>
             \<not> (claimed_starts ''rd2_'' claimed \<or> claimed_starts ''dm-'' claimed))"

text \<open>A payload never speaks for another room: what arrives on a verified room's channel is accepted
  only if it names that room or none, what arrives on no room channel only if it names no room
  at all, and a room secret is never accepted as a name.\<close>

theorem scope_confined:
  assumes "acceptsRoomScope payload channelRoom"
  shows "(case channelRoom of
            Some r \<Rightarrow> (starts ''rd2_'' r \<or> starts ''dm-'' r) \<and> \<not> starts ''r2_'' r \<and>
                       (js_prop payload ''roomCode'' = JUndefined \<or> js_prop payload ''roomCode'' = JStr r)
          | None \<Rightarrow> \<not> is_js_string (js_prop payload ''roomCode''))"
  using assms
  by (auto simp: acceptsRoomScope_def Let_def ROOM_SECURITY_V2_RELEASED_def split: if_splits option.splits)

theorem scope_confined_witness:
  "(case Some ''rd2_a'' of
      Some r \<Rightarrow> (starts ''rd2_'' r \<or> starts ''dm-'' r) \<and> \<not> starts ''r2_'' r \<and>
        (js_prop (JObj [(''roomCode'', JStr ''rd2_a'')]) ''roomCode'' = JUndefined \<or>
         js_prop (JObj [(''roomCode'', JStr ''rd2_a'')]) ''roomCode'' = JStr r)
    | None \<Rightarrow> \<not> is_js_string (js_prop (JObj [(''roomCode'', JStr ''rd2_a'')]) ''roomCode''))"
  by (rule scope_confined) code_simp

end
