(* ===== verification/Room_Channel.thy ===== *)
theory Room_Channel
  imports Room_Envelope Replay_Window
begin

text \<open>
  The secure room channel, \<^verbatim>\<open>frontend/src/lib/room-security/channel.ts\<close>: the membership
  handshake, then encrypted, numbered fragments that are put together into messages.

  The promise chains \<^verbatim>\<open>processing\<close> and \<^verbatim>\<open>outgoing\<close> are the queues \<open>incoming\<close> and
  \<open>sends\<close>; running the job at the head of a queue is one step, and calls and timeouts come between the
  steps in any order. What an awaited \<^verbatim>\<open>write\<close> does (done, refused, or the channel closed
  meanwhile) is an argument of the step. A channel that closes while an envelope is being opened or
  sealed behaves as if it had closed just before, because the code looks at \<^verbatim>\<open>closed\<close> again
  right after; so that wait needs no step of its own. The frames handed to \<^verbatim>\<open>write\<close>, the messages
  handed to \<^verbatim>\<open>deliver\<close> and the results of \<^verbatim>\<open>trySend\<close> are logs.

  \<open>enc_body\<close> and \<open>dec_body\<close> are the platform's JSON text as UTF-8 bytes and back (strings of the model
  have the first 256 code units only, so reading arbitrary bytes is left to a parameter).
\<close>

definition MAX_ROOM_MESSAGE :: nat where
  "MAX_ROOM_MESSAGE = 4 * 1024 * 1024"

definition CHUNK_BYTES :: nat where
  "CHUNK_BYTES = 256 * 1024"

record room_platform =
  pcrypto :: crypto
  paead :: aead
  enc_body :: "js_value \<Rightarrow> byte list"
  dec_body :: "byte list \<Rightarrow> js_value option"

record Assembly =
  aid :: int
  atotal :: nat
  aoffset :: nat
  abytes :: "byte list"

record send_job =
  jmessage :: int
  jfragments :: nat
  jcopy :: "byte list"
  jindex :: nat
  handedOver :: bool

datatype send_result = Sent_ok | Unsent | Send_failed

datatype ready_state = Ready_pending | Ready_resolved | Ready_rejected

datatype channel_error =
    Oversized_membership_frame | Membership_failed | Not_opened | Wrong_room_sender | Invalid_room_payload
  | Stale_room_session | Room_session_changed | Room_replay | Invalid_room_encoding
  | Invalid_room_fragment | Missing_room_fragment | Out_of_order_room_fragment

datatype write_answer = Write_ok | Write_refused | Write_closed

record SecureRoomChannel =
  ckeys :: EnvelopeKeys
  clocal :: string
  cremote :: string
  csession :: MembershipSession
  creplay :: ReplayWindow
  csessionId :: string
  csequence :: int
  cclosed :: bool
  cestablished :: bool
  receivedSession :: "string option"
  incoming :: "(js_value \<times> int) list"
  pendingBytes :: int
  pendingFrames :: int
  sends :: "send_job list"
  outgoingBytes :: int
  outgoingFrames :: int
  cassembly :: "Assembly option"
  cready :: ready_state
  written :: "js_value list"
  delivered :: "byte list list"
  results :: "(int \<times> send_result) list"

section \<open>Opening and closing\<close>

definition close_channel :: "SecureRoomChannel \<Rightarrow> SecureRoomChannel" where
  "close_channel s =
     (if cclosed s then s
      else s\<lparr>cclosed := True, cassembly := None, csession := close_session (csession s),
        cready := (if cready s = Ready_pending then Ready_rejected else cready s)\<rparr>)"

definition new_channel ::
  "room_platform \<Rightarrow> EnvelopeKeys \<Rightarrow> string \<Rightarrow> string \<Rightarrow> role \<Rightarrow> byte list \<Rightarrow> byte list \<Rightarrow> int
   \<Rightarrow> membership_error + SecureRoomChannel"
where
  \<comment> \<open>\<open>challenge\<close> and \<open>random\<close> are the two draws of random bytes\<close>
  "new_channel P keys localPeer remotePeer r challenge random now =
     (case new_session (pcrypto P) (RoomKeys.truncate keys) localPeer remotePeer r challenge now of
        Inl e \<Rightarrow> Inl e
      | Inr session \<Rightarrow>
          let s = \<lparr>ckeys = keys, clocal = localPeer, cremote = remotePeer, csession = session,
            creplay = new_window, csessionId = b64 random, csequence = 0, cclosed = False,
            cestablished = False, receivedSession = None, incoming = [], pendingBytes = 0,
            pendingFrames = 0, sends = [], outgoingBytes = 0, outgoingFrames = 0, cassembly = None,
            cready = Ready_pending, written = [], delivered = [], results = []\<rparr> in
          if r = Initiator then
            (case start_session session now of
               (Inl e, _) \<Rightarrow> Inl e
             | (Inr hello, session') \<Rightarrow> Inr (s\<lparr>csession := session', written := [hello]\<rparr>))
          else Inr s)"

definition channel_verified :: "SecureRoomChannel \<Rightarrow> bool" where
  "channel_verified s \<longleftrightarrow> \<not> cclosed s \<and> cestablished s"

definition channel_idle :: "SecureRoomChannel \<Rightarrow> bool" where
  "channel_idle s \<longleftrightarrow> channel_verified s \<and> outgoingFrames s = 0 \<and> pendingFrames s = 0 \<and> cassembly s = None"

definition discovery_id :: "string \<Rightarrow> bool" where
  \<comment> \<open>\<^verbatim>\<open>DISCOVERY_ID_RE\<close> of keys.ts, \<^verbatim>\<open>/^rd2_[a-z2-7]{52}$/\<close>\<close>
  "discovery_id r \<longleftrightarrow> starts ''rd2_'' r \<and> length r = 56 \<and>
     list_all (\<lambda>c. let n = of_char c :: nat in 97 \<le> n \<and> n \<le> 122 \<or> 50 \<le> n \<and> n \<le> 55) (drop 4 r)"

definition isMembershipHello :: "js_value \<Rightarrow> bool" where
  "isMembershipHello f \<longleftrightarrow> is_js_object f \<and> js_prop f ''version'' = JNum (JInt 2) \<and>
     js_prop f ''type'' = JStr ''hello'' \<and>
     (case js_prop f ''room'' of JStr r \<Rightarrow> discovery_id r | _ \<Rightarrow> False) \<and>
     (case js_prop f ''challenge'' of JStr t \<Rightarrow> token43 t | _ \<Rightarrow> False)"

section \<open>Receiving\<close>

definition receive_frame :: "SecureRoomChannel \<Rightarrow> js_value \<Rightarrow> int \<Rightarrow> SecureRoomChannel" where
  "receive_frame s frame bytes =
     (if cclosed s then s
      else if MAX_SAFE_INTEGER < \<bar>bytes\<bar> \<or> bytes < 0 \<or> 2 * int MAX_ROOM_PLAINTEXT < bytes \<or>
              32 \<le> pendingFrames s \<or> 4 * int MAX_ROOM_PLAINTEXT < pendingBytes s + bytes
      then close_channel s
      else s\<lparr>pendingFrames := pendingFrames s + 1, pendingBytes := pendingBytes s + bytes,
             incoming := incoming s @ [(frame, bytes)]\<rparr>)"

definition handshake_job ::
  "room_platform \<Rightarrow> SecureRoomChannel \<Rightarrow> js_value \<Rightarrow> int \<Rightarrow> write_answer \<Rightarrow> int \<Rightarrow> channel_error + SecureRoomChannel"
where
  "handshake_job P s frame bytes answer now =
     (if 2048 < bytes then Inl Oversized_membership_frame
      else case receive_session (pcrypto P) (csession s) frame now of
             (Inl _, _) \<Rightarrow> Inl Membership_failed
           | (Inr reply, session) \<Rightarrow>
               let s1 = s\<lparr>csession := session,
                          written := written s @ (case reply of None \<Rightarrow> [] | Some f \<Rightarrow> [f])\<rparr> in
               if reply \<noteq> None \<and> answer = Write_refused then Inl Membership_failed
               else if reply \<noteq> None \<and> answer = Write_closed then Inr (close_channel s1)
               else if verified session then Inr (s1\<lparr>cestablished := True, cready := Ready_resolved\<rparr>)
               else Inr s1)"

definition envelope_of :: "js_value \<Rightarrow> RoomEnvelope" where
  "envelope_of f = \<lparr>eversion = js_prop f ''version'', eroom = js_prop f ''room'', esender = js_prop f ''sender'',
     ekind = js_prop f ''kind'', esalt = js_prop f ''salt'', eciphertext = js_prop f ''ciphertext''\<rparr>"

definition fragment_ok :: "js_value \<Rightarrow> byte list \<Rightarrow> bool" where
  "fragment_ok body data \<longleftrightarrow>
     isSafeInteger (js_prop body ''message'') \<and> 0 \<le> as_int (js_prop body ''message'') \<and>
     isSafeInteger (js_prop body ''offset'') \<and> 0 \<le> as_int (js_prop body ''offset'') \<and>
     isSafeInteger (js_prop body ''total'') \<and> 0 \<le> as_int (js_prop body ''total'') \<and>
     as_int (js_prop body ''total'') \<le> int MAX_ROOM_MESSAGE \<and> length data \<le> CHUNK_BYTES \<and>
     as_int (js_prop body ''offset'') + int (length data) \<le> as_int (js_prop body ''total'') \<and>
     \<not> (length data = 0 \<and> as_int (js_prop body ''total'') \<noteq> 0)"

definition patch :: "byte list \<Rightarrow> byte list \<Rightarrow> nat \<Rightarrow> byte list" where
  \<comment> \<open>\<^verbatim>\<open>bytes.set(data, offset)\<close>\<close>
  "patch bytes data offset = take offset bytes @ data @ drop (offset + length data) bytes"

definition place_fragment :: "SecureRoomChannel \<Rightarrow> Assembly \<Rightarrow> byte list \<Rightarrow> SecureRoomChannel" where
  "place_fragment s a data =
     (let a' = a\<lparr>abytes := patch (abytes a) data (aoffset a), aoffset := aoffset a + length data\<rparr> in
      if aoffset a' = atotal a' then s\<lparr>cassembly := None, delivered := delivered s @ [abytes a']\<rparr>
      else s\<lparr>cassembly := Some a'\<rparr>)"

definition assemble :: "SecureRoomChannel \<Rightarrow> js_value \<Rightarrow> byte list \<Rightarrow> channel_error + SecureRoomChannel" where
  "assemble s body data =
     (let message = as_int (js_prop body ''message''); offset = nat (as_int (js_prop body ''offset''));
          total = nat (as_int (js_prop body ''total'')) in
      case (case cassembly s of
              Some a \<Rightarrow> Inr a
            | None \<Rightarrow>
                if offset \<noteq> 0 \<or> js_prop body ''message'' \<noteq> js_prop body ''sequence'' then Inl Missing_room_fragment
                else Inr \<lparr>aid = message, atotal = total, aoffset = 0, abytes = replicate total 0\<rparr>) of
        Inl e \<Rightarrow> Inl e
      | Inr a \<Rightarrow>
          if aid a \<noteq> message \<or> atotal a \<noteq> total \<or> aoffset a \<noteq> offset then Inl Out_of_order_room_fragment
          else Inr (place_fragment s a data))"

definition accept_body :: "SecureRoomChannel \<Rightarrow> js_value \<Rightarrow> channel_error + SecureRoomChannel" where
  \<comment> \<open>a thrown error closes the channel, whose window and session are not read again: the state that
    throws is not returned\<close>
  "accept_body s body =
     (case (js_prop body ''session'', js_prop body ''data'') of
        (JStr sess, JStr text) \<Rightarrow>
          if js_prop body ''sender'' \<noteq> JStr (cremote s) \<or> js_prop body ''recipient'' \<noteq> JStr (clocal s) \<or>
             js_prop body ''room'' \<noteq> JStr (discoveryId (ckeys s)) \<or> \<not> token43 sess
          then Inl Invalid_room_payload
          else if (case binding (csession s) of Inl _ \<Rightarrow> True | Inr b \<Rightarrow> js_prop body ''membership'' \<noteq> JStr b)
          then Inl Stale_room_session
          else if receivedSession s \<noteq> None \<and> receivedSession s \<noteq> Some sess then Inl Room_session_changed
          else
            let (ok, w) = accept (creplay s) (js_prop body ''sequence'') in
            if \<not> ok then Inl Room_replay
            else (case unb64 text of
                    Inl _ \<Rightarrow> Inl Invalid_room_encoding
                  | Inr data \<Rightarrow>
                      if b64 data \<noteq> text then Inl Invalid_room_encoding
                      else if \<not> fragment_ok body data then Inl Invalid_room_fragment
                      else assemble (s\<lparr>creplay := w, receivedSession := Some sess\<rparr>) body data)
      | _ \<Rightarrow> Inl Invalid_room_payload)"

definition open_frame :: "room_platform \<Rightarrow> SecureRoomChannel \<Rightarrow> js_value \<Rightarrow> channel_error + js_value" where
  "open_frame P s frame =
     (if \<not> is_js_object frame then Inl Not_opened
      else case openRoomEnvelope (paead P) (ckeys s) (envelope_of frame) of
        Inl _ \<Rightarrow> Inl Not_opened
      | Inr raw \<Rightarrow>
          if js_prop frame ''sender'' \<noteq> JStr (cremote s) \<or> js_prop frame ''kind'' \<noteq> JStr ''direct''
          then Inl Wrong_room_sender
          else (case dec_body P raw of None \<Rightarrow> Inl Invalid_room_payload | Some body \<Rightarrow> Inr body))"

definition process_job ::
  "room_platform \<Rightarrow> SecureRoomChannel \<Rightarrow> js_value \<Rightarrow> int \<Rightarrow> write_answer \<Rightarrow> int \<Rightarrow> channel_error + SecureRoomChannel"
where
  "process_job P s frame bytes answer now =
     (if cclosed s then Inr s
      else if \<not> cestablished s then handshake_job P s frame bytes answer now
      else (case open_frame P s frame of Inl e \<Rightarrow> Inl e | Inr body \<Rightarrow> accept_body s body))"

definition process_next :: "room_platform \<Rightarrow> SecureRoomChannel \<Rightarrow> write_answer \<Rightarrow> int \<Rightarrow> SecureRoomChannel" where
  \<comment> \<open>one link of \<^verbatim>\<open>this.processing\<close>, with its \<^verbatim>\<open>catch\<close> and \<^verbatim>\<open>finally\<close>\<close>
  "process_next P s answer now =
     (case incoming s of
        [] \<Rightarrow> s
      | (frame, bytes) # rest \<Rightarrow>
          let s1 = (case process_job P s frame bytes answer now of Inl _ \<Rightarrow> close_channel s | Inr s' \<Rightarrow> s') in
          s1\<lparr>incoming := rest, pendingFrames := pendingFrames s1 - 1, pendingBytes := pendingBytes s1 - bytes\<rparr>)"

section \<open>Sending\<close>

definition fragments_of :: "byte list \<Rightarrow> nat" where
  \<comment> \<open>\<^verbatim>\<open>Math.max(1, Math.ceil(data.length / CHUNK_BYTES))\<close>\<close>
  "fragments_of data = max 1 ((length data + CHUNK_BYTES - 1) div CHUNK_BYTES)"

definition trySend :: "SecureRoomChannel \<Rightarrow> byte list \<Rightarrow> send_result option \<times> SecureRoomChannel" where
  \<comment> \<open>\<open>None\<close>: the result comes when the job has run, in \<open>results\<close> under the message's number\<close>
  "trySend s data =
     (if \<not> channel_verified s then (Some Unsent, s)
      else
        let n = fragments_of data in
        if MAX_ROOM_MESSAGE < length data \<or> MAX_SAFE_INTEGER - int n < csequence s \<or>
           32 \<le> outgoingFrames s \<or> 4 * int MAX_ROOM_PLAINTEXT < outgoingBytes s + int (length data)
        then (Some Send_failed, s)
        else (None, s\<lparr>outgoingFrames := outgoingFrames s + 1, outgoingBytes := outgoingBytes s + int (length data),
                csequence := csequence s + int n,
                sends := sends s @ [\<lparr>jmessage = csequence s, jfragments = n, jcopy = data, jindex = 0,
                                     handedOver = False\<rparr>]\<rparr>))"

definition fragment_body :: "SecureRoomChannel \<Rightarrow> string \<Rightarrow> int \<Rightarrow> byte list \<Rightarrow> nat \<Rightarrow> js_value" where
  "fragment_body s bound message data index =
     JObj [(''room'', JStr (discoveryId (ckeys s))), (''sender'', JStr (clocal s)), (''recipient'', JStr (cremote s)),
       (''session'', JStr (csessionId s)), (''membership'', JStr bound),
       (''sequence'', JNum (JInt (message + int index))), (''message'', JNum (JInt message)),
       (''offset'', JNum (JInt (int (index * CHUNK_BYTES)))), (''total'', JNum (JInt (int (length data)))),
       (''data'', JStr (b64 (take CHUNK_BYTES (drop (index * CHUNK_BYTES) data))))]"

definition frame_of :: "RoomEnvelope \<Rightarrow> js_value" where
  "frame_of e = JObj [(''version'', eversion e), (''room'', eroom e), (''sender'', esender e), (''kind'', ekind e),
     (''salt'', esalt e), (''ciphertext'', eciphertext e)]"

definition finish_send :: "SecureRoomChannel \<Rightarrow> send_result \<Rightarrow> SecureRoomChannel" where
  \<comment> \<open>the job at the head is over: \<^verbatim>\<open>finally\<close>, and its result\<close>
  "finish_send s r =
     (case sends s of
        [] \<Rightarrow> s
      | j # rest \<Rightarrow> s\<lparr>sends := rest, outgoingFrames := outgoingFrames s - 1,
                       outgoingBytes := outgoingBytes s - int (length (jcopy j)),
                       results := results s @ [(jmessage j, r)]\<rparr>)"

definition send_next :: "room_platform \<Rightarrow> SecureRoomChannel \<Rightarrow> byte list \<Rightarrow> write_answer \<Rightarrow> SecureRoomChannel" where
  \<comment> \<open>the next fragment of the job at the head of \<^verbatim>\<open>this.outgoing\<close>\<close>
  "send_next P s random answer =
     (case sends s of
        [] \<Rightarrow> s
      | j # rest \<Rightarrow>
          let broken = (if handedOver j then Send_failed else Unsent) in
          if \<not> channel_verified s then close_channel (finish_send s broken)
          else (case binding (csession s) of
                  Inl _ \<Rightarrow> close_channel (finish_send s broken)
                | Inr bound \<Rightarrow>
                    (case sealRoomEnvelope (paead P) (ckeys s) (clocal s) ''direct'' random
                            (enc_body P (fragment_body s bound (jmessage j) (jcopy j) (jindex j))) of
                       Inl _ \<Rightarrow> close_channel (finish_send s broken)
                     | Inr e \<Rightarrow>
                         let s1 = s\<lparr>written := written s @ [frame_of e]\<rparr> in
                         if answer \<noteq> Write_ok then close_channel (finish_send s1 Send_failed)
                         else if jindex j + 1 = jfragments j then finish_send s1 Sent_ok
                         else s1\<lparr>sends := j\<lparr>jindex := jindex j + 1, handedOver := True\<rparr> # rest\<rparr>)))"


section \<open>Runs\<close>

datatype channel_event =
    Receive js_value int | Process write_answer int | Send "byte list" | Send_next "byte list" write_answer
  | Close_now

fun channel_step :: "room_platform \<Rightarrow> SecureRoomChannel \<Rightarrow> channel_event \<Rightarrow> SecureRoomChannel" where
  "channel_step P s (Receive f n) = receive_frame s f n"
| "channel_step P s (Process a now) = process_next P s a now"
| "channel_step P s (Send data) = snd (trySend s data)"
| "channel_step P s (Send_next r a) = send_next P s r a"
| "channel_step P s Close_now = close_channel s"

fun channel_run :: "room_platform \<Rightarrow> SecureRoomChannel \<Rightarrow> channel_event list \<Rightarrow> SecureRoomChannel" where
  "channel_run P s [] = s"
| "channel_run P s (e # es) = channel_run P (channel_step P s e) es"

definition just_established :: "SecureRoomChannel \<Rightarrow> string \<Rightarrow> bool" where
  "just_established s bound \<longleftrightarrow> cestablished s \<and> binding (csession s) = Inr bound \<and> creplay s = new_window \<and>
     cassembly s = None \<and> delivered s = [] \<and> incoming s = []"

definition genuine :: "SecureRoomChannel \<Rightarrow> string \<Rightarrow> (int \<times> byte list) list \<Rightarrow> js_value \<Rightarrow> bool" where
  \<comment> \<open>a body the peer's channel \<open>q\<close> made for one of its messages\<close>
  "genuine q bound ms body \<longleftrightarrow>
     list_ex (\<lambda>(m, d). list_ex (\<lambda>i. body = fragment_body q bound m d i) [0..<fragments_of d]) ms"

definition authentic :: "room_platform \<Rightarrow> SecureRoomChannel \<Rightarrow> SecureRoomChannel \<Rightarrow> string \<Rightarrow> (int \<times> byte list) list \<Rightarrow> js_value \<Rightarrow> bool" where
  \<comment> \<open>a frame that opens under the room's key, from this peer, with this session's binding, was made by
    the peer's channel\<close>
  "authentic P s q bound ms frame \<longleftrightarrow>
     (case open_frame P s frame of
        Inl _ \<Rightarrow> True
      | Inr body \<Rightarrow> js_prop body ''membership'' = JStr bound \<longrightarrow> genuine q bound ms body)"

fun authentic_event :: "room_platform \<Rightarrow> SecureRoomChannel \<Rightarrow> SecureRoomChannel \<Rightarrow> string \<Rightarrow> (int \<times> byte list) list \<Rightarrow> channel_event \<Rightarrow> bool" where
  "authentic_event P s q bound ms (Receive f n) \<longleftrightarrow> authentic P s q bound ms f"
| "authentic_event P s q bound ms _ \<longleftrightarrow> True"

definition partial_of :: "(int \<times> byte list) list \<Rightarrow> int set \<Rightarrow> (int \<times> byte list) list \<Rightarrow> Assembly \<Rightarrow> bool" where
  "partial_of ms seen ks a \<longleftrightarrow> (\<exists>d. (aid a, d) \<in> set ms \<and> (aid a, d) \<notin> set ks \<and> aid a \<in> seen \<and>
     atotal a = length d \<and> aoffset a \<le> length d \<and>
     abytes a = take (aoffset a) d @ replicate (length d - aoffset a) 0)"

definition delivery_ok :: "(int \<times> byte list) list \<Rightarrow> SecureRoomChannel \<Rightarrow> bool" where
  "delivery_ok ms s \<longleftrightarrow> (\<exists>seen ks. window_rel (creplay s) seen \<and> distinct ks \<and> set ks \<subseteq> set ms \<and>
     fst ` set ks \<subseteq> seen \<and> delivered s = map snd ks \<and>
     (case cassembly s of None \<Rightarrow> True | Some a \<Rightarrow> partial_of ms seen ks a))"

lemma patch_prefix:
  assumes "o' + length c \<le> length d" "c = take (length c) (drop o' d)"
  shows "patch (take o' d @ replicate (length d - o') 0) c o' =
    take (o' + length c) d @ replicate (length d - (o' + length c)) 0"
proof -
  have "take o' d @ c = take (o' + length c) d" using assms by (simp add: take_add)
  then show ?thesis using assms by (simp add: patch_def min_absorb2)
qed

lemma fragment_props [simp]:
  "js_prop (fragment_body q b m d i) ''room'' = JStr (discoveryId (ckeys q))"
  "js_prop (fragment_body q b m d i) ''sender'' = JStr (clocal q)"
  "js_prop (fragment_body q b m d i) ''recipient'' = JStr (cremote q)"
  "js_prop (fragment_body q b m d i) ''session'' = JStr (csessionId q)"
  "js_prop (fragment_body q b m d i) ''membership'' = JStr b"
  "js_prop (fragment_body q b m d i) ''sequence'' = JNum (JInt (m + int i))"
  "js_prop (fragment_body q b m d i) ''message'' = JNum (JInt m)"
  "js_prop (fragment_body q b m d i) ''offset'' = JNum (JInt (int (i * CHUNK_BYTES)))"
  "js_prop (fragment_body q b m d i) ''total'' = JNum (JInt (int (length d)))"
  "js_prop (fragment_body q b m d i) ''data'' = JStr (b64 (take CHUNK_BYTES (drop (i * CHUNK_BYTES) d)))"
  by (simp_all add: fragment_body_def)

abbreviation chunk_at :: "byte list \<Rightarrow> nat \<Rightarrow> byte list" where
  "chunk_at d i \<equiv> take CHUNK_BYTES (drop (i * CHUNK_BYTES) d)"

lemma assemble_fragment:
  "assemble s (fragment_body q b m d i) c =
     (case cassembly s of
        Some a \<Rightarrow> if aid a \<noteq> m \<or> atotal a \<noteq> length d \<or> aoffset a \<noteq> i * CHUNK_BYTES then Inl Out_of_order_room_fragment
                   else Inr (place_fragment s a c)
      | None \<Rightarrow> if i \<noteq> 0 then Inl Missing_room_fragment
                else Inr (place_fragment s \<lparr>aid = m, atotal = length d, aoffset = 0, abytes = replicate (length d) 0\<rparr> c))"
  unfolding assemble_def Let_def fragment_props as_int.simps nat_int
  by (simp add: CHUNK_BYTES_def split: option.splits)

text \<open>Putting one genuine fragment in its place.\<close>

lemma advance_partial:
  assumes a: "partial_of ms seen ks a" and ms: "distinct (map fst ms)" "(aid a, d) \<in> set ms"
    and c: "c = take (length c) (drop (aoffset a) d)" "aoffset a + length c \<le> length d"
  shows "partial_of ms seen ks (a\<lparr>abytes := patch (abytes a) c (aoffset a), aoffset := aoffset a + length c\<rparr>)"
proof -
  obtain d' where d': "(aid a, d') \<in> set ms" "(aid a, d') \<notin> set ks" "aid a \<in> seen" "atotal a = length d'"
      "abytes a = take (aoffset a) d' @ replicate (length d' - aoffset a) 0"
    using a unfolding partial_of_def by blast
  have "d' = d" using ms d'(1) by (metis eq_key_imp_eq_value)
  with d' c show ?thesis by (auto simp: partial_of_def patch_prefix)
qed

lemma complete_partial:
  assumes "partial_of ms seen ks a" and "aoffset a = atotal a"
  shows "(aid a, abytes a) \<in> set ms" "(aid a, abytes a) \<notin> set ks" "aid a \<in> seen"
  using assms by (auto simp: partial_of_def)

lemma partial_seen: "partial_of ms seen ks a \<Longrightarrow> seen \<subseteq> seen' \<Longrightarrow> partial_of ms seen' ks a"
  unfolding partial_of_def by blast

lemma assemble_ok:
  assumes w: "window_rel (creplay s) seen" "distinct ks" "set ks \<subseteq> set ms" "fst ` set ks \<subseteq> seen"
      "delivered s = map snd ks"
    and a: "case cassembly s of None \<Rightarrow> m + int i \<in> seen \<and> (m + int i, d) \<notin> set ks | Some a \<Rightarrow> partial_of ms seen ks a"
    and ms: "distinct (map fst ms)" "(m, d) \<in> set ms"
    and f: "fragment_ok (fragment_body q b m d i) (take CHUNK_BYTES (drop (i * CHUNK_BYTES) d))"
    and r: "assemble s (fragment_body q b m d i) (take CHUNK_BYTES (drop (i * CHUNK_BYTES) d)) = Inr s'"
  shows "delivery_ok ms s'"
proof -
  let ?c = "take CHUNK_BYTES (drop (i * CHUNK_BYTES) d)"
  have c: "?c = take (length ?c) (drop (i * CHUNK_BYTES) d)" by (simp add: min_def)
  have len: "i * CHUNK_BYTES + length ?c \<le> length d"
    using f unfolding fragment_ok_def fragment_props as_int.simps of_nat_add [symmetric] of_nat_le_iff by blast
  obtain x where x: "partial_of ms seen ks x" "aid x = m" "atotal x = length d" "aoffset x = i * CHUNK_BYTES"
    and s': "s' = place_fragment s x ?c"
  proof (cases "cassembly s")
    case None
    have i: "i = 0" using r None by (simp add: assemble_fragment split: if_splits)
    let ?x = "\<lparr>aid = m, atotal = length d, aoffset = 0, abytes = replicate (length d) 0\<rparr>"
    have "partial_of ms seen ks ?x" using a None ms i by (auto simp: partial_of_def)
    then show ?thesis using that [of ?x] r None i by (simp add: assemble_fragment)
  next
    case (Some y)
    then show ?thesis using that [of y] r a by (simp add: assemble_fragment split: if_splits)
  qed
  have p: "partial_of ms seen ks (x\<lparr>abytes := patch (abytes x) ?c (aoffset x), aoffset := aoffset x + length ?c\<rparr>)"
    (is "partial_of _ _ _ ?x'")
    by (rule advance_partial [OF x(1) ms(1), of d]) (use ms(2) x(2) c len in \<open>simp_all only: x(2,4)\<close>)
  show ?thesis
  proof (cases "aoffset ?x' = atotal ?x'")
    case True
    note q = complete_partial [OF p True]
    have s'': "s' = s\<lparr>cassembly := None, delivered := delivered s @ [abytes ?x']\<rparr>" using s' True by (simp add: place_fragment_def Let_def)
    show ?thesis unfolding delivery_ok_def s''
      by (rule exI [of _ seen], rule exI [of _ "ks @ [(aid ?x', abytes ?x')]"]) (use w q in auto)
  next
    case False
    have s'': "s' = s\<lparr>cassembly := Some ?x'\<rparr>" using s' False by (simp add: place_fragment_def Let_def)
    show ?thesis unfolding delivery_ok_def s''
      by (rule exI [of _ seen], rule exI [of _ ks]) (use w p in auto)
  qed
qed


lemma assemble_frame:
  assumes "assemble s body c = Inr s'"
  shows "creplay s' = creplay s \<and> csession s' = csession s \<and> ckeys s' = ckeys s \<and> cremote s' = cremote s \<and>
    cestablished s' = cestablished s \<and> incoming s' = incoming s"
  using assms by (auto simp: assemble_def place_fragment_def Let_def split: option.splits if_splits)

lemma accept_body_cases:
  assumes "accept_body s body = Inr s'"
  obtains sess data w b where "js_prop body ''session'' = JStr sess" "unb64 (b64 data) = Inr data"
    "js_prop body ''data'' = JStr (b64 data)" "binding (csession s) = Inr b" "js_prop body ''membership'' = JStr b"
    "accept (creplay s) (js_prop body ''sequence'') = (True, w)" "fragment_ok body data"
    "assemble (s\<lparr>creplay := w, receivedSession := Some sess\<rparr>) body data = Inr s'"
  using assms by (auto simp: accept_body_def split: js_value.splits if_splits prod.splits sum.splits)

lemma accept_body_ok:
  assumes r: "accept_body s body = Inr s'" and inv: "delivery_ok ms s" and ms: "distinct (map fst ms)"
    and bound: "binding (csession s) = Inr b"
    and g: "js_prop body ''membership'' = JStr b \<Longrightarrow> genuine q b ms body"
  shows "delivery_ok ms s'"
proof -
  obtain sess data w where data: "js_prop body ''data'' = JStr (b64 data)" "js_prop body ''membership'' = JStr b"
    and w: "accept (creplay s) (js_prop body ''sequence'') = (True, w)"
    and f: "fragment_ok body data" and a: "assemble (s\<lparr>creplay := w, receivedSession := Some sess\<rparr>) body data = Inr s'"
    using r bound by (elim accept_body_cases) simp
  obtain m d i where body: "body = fragment_body q b m d i" and md: "(m, d) \<in> set ms"
    using g [OF data(2)] by (auto simp: genuine_def list_ex_iff)
  have chunk: "data = chunk_at d i" using data(1) body by (metis fragment_props(10) js_value.inject(3) strings.enc_inject)
  obtain seen ks where inv': "window_rel (creplay s) seen" "distinct ks" "set ks \<subseteq> set ms" "fst ` set ks \<subseteq> seen"
      "delivered s = map snd ks" "case cassembly s of None \<Rightarrow> True | Some a \<Rightarrow> partial_of ms seen ks a"
    using inv unfolding delivery_ok_def by blast
  have acc: "fresh seen (m + int i)" "window_rel w (insert (m + int i) seen)"
    using accept_sound [OF inv'(1), of "JNum (JInt (m + int i))"] w by (simp_all add: body)
  show ?thesis
  proof (rule assemble_ok [of _ "insert (m + int i) seen"])
    show "assemble (s\<lparr>creplay := w, receivedSession := Some sess\<rparr>) (fragment_body q b m d i) (chunk_at d i) = Inr s'"
      using a body chunk by simp
    show "case cassembly (s\<lparr>creplay := w, receivedSession := Some sess\<rparr>) of
        None \<Rightarrow> m + int i \<in> insert (m + int i) seen \<and> (m + int i, d) \<notin> set ks
      | Some a \<Rightarrow> partial_of ms (insert (m + int i) seen) ks a"
      using inv' acc(1) by (auto simp: fresh_def split: option.splits intro: partial_seen)
  qed (use inv' acc ms md f body chunk in auto)
qed

text \<open>What a step of any other kind leaves alone.\<close>

definition same_delivery :: "SecureRoomChannel \<Rightarrow> SecureRoomChannel \<Rightarrow> bool" where
  "same_delivery s s' \<longleftrightarrow> creplay s' = creplay s \<and> delivered s' = delivered s \<and> (cassembly s' = cassembly s \<or> cassembly s' = None)"

lemma same_delivery_ok: "same_delivery s s' \<Longrightarrow> delivery_ok ms s \<Longrightarrow> delivery_ok ms s'"
  unfolding same_delivery_def delivery_ok_def by (elim conjE disjE; simp) (elim exE, intro exI, auto)+

definition run_ok :: "room_platform \<Rightarrow> SecureRoomChannel \<Rightarrow> SecureRoomChannel \<Rightarrow> string \<Rightarrow> (int \<times> byte list) list \<Rightarrow> SecureRoomChannel \<Rightarrow> bool" where
  "run_ok P s0 q b ms s \<longleftrightarrow> delivery_ok ms s \<and> cestablished s \<and> ckeys s = ckeys s0 \<and> cremote s = cremote s0 \<and>
     (cclosed s \<or> binding (csession s) = Inr b) \<and> list_all (\<lambda>(f, n). authentic P s0 q b ms f) (incoming s)"

lemma open_frame_cong: "ckeys s = ckeys s0 \<Longrightarrow> cremote s = cremote s0 \<Longrightarrow> open_frame P s f = open_frame P s0 f"
  unfolding open_frame_def by (simp only:)

lemma close_run_ok: "run_ok P s0 q b ms s \<Longrightarrow> run_ok P s0 q b ms (close_channel s)"
  by (auto simp: run_ok_def close_channel_def elim!: same_delivery_ok [rotated] simp: same_delivery_def)

lemma process_job_ok:
  assumes inv: "run_ok P s0 q b ms s" and ms: "distinct (map fst ms)" and f: "authentic P s0 q b ms frame"
    and r: "process_job P s frame bytes answer now = Inr s'"
  shows "run_ok P s0 q b ms s' \<and> incoming s' = incoming s"
proof (cases "cclosed s")
  case True
  then show ?thesis using r inv by (auto simp: process_job_def)
next
  case False
  obtain body where o: "open_frame P s frame = Inr body" and a: "accept_body s body = Inr s'"
    using r False inv by (auto simp: process_job_def run_ok_def split: sum.splits)
  have g: "js_prop body ''membership'' = JStr b \<Longrightarrow> genuine q b ms body"
    using f o inv open_frame_cong [of s s0] by (simp add: authentic_def run_ok_def)
  have "delivery_ok ms s'" using accept_body_ok [OF a _ ms _ g] inv False by (simp add: run_ok_def)
  moreover have "csession s' = csession s \<and> ckeys s' = ckeys s \<and> cremote s' = cremote s \<and>
      cestablished s' = cestablished s \<and> incoming s' = incoming s"
    using a by (elim accept_body_cases) (auto dest: assemble_frame)
  ultimately show ?thesis using inv False by (simp add: run_ok_def)
qed

lemma process_next_ok:
  assumes inv: "run_ok P s0 q b ms s" and ms: "distinct (map fst ms)"
  shows "run_ok P s0 q b ms (process_next P s answer now)"
proof (cases "incoming s")
  case Nil
  then show ?thesis using inv by (simp add: process_next_def)
next
  case (Cons x rest)
  obtain frame bytes where x: "x = (frame, bytes)" by force
  have "authentic P s0 q b ms frame" using inv Cons x by (simp add: run_ok_def)
  then have "run_ok P s0 q b ms s' \<and> incoming s' = incoming s"
    if "process_job P s frame bytes answer now = Inr s'" for s'
    using process_job_ok [OF inv ms _ that] by blast
  moreover have "run_ok P s0 q b ms (close_channel s) \<and> incoming (close_channel s) = incoming s"
    using close_run_ok [OF inv] by (simp add: close_channel_def)
  moreover have "run_ok P s0 q b ms (s'\<lparr>incoming := rest, pendingFrames := n, pendingBytes := k\<rparr>)"
    if "run_ok P s0 q b ms s'" "incoming s' = incoming s" for s' n k
    using that Cons by (auto simp: run_ok_def delivery_ok_def)
  ultimately show ?thesis by (auto simp: process_next_def Cons x Let_def split: sum.splits)
qed

lemma send_keeps:
  "run_ok P s0 q b ms s \<Longrightarrow> run_ok P s0 q b ms (snd (trySend s data))"
  "run_ok P s0 q b ms s \<Longrightarrow> run_ok P s0 q b ms (finish_send s r)"
  "run_ok P s0 q b ms s \<Longrightarrow> run_ok P s0 q b ms (s\<lparr>written := fs\<rparr>)"
  "run_ok P s0 q b ms s \<Longrightarrow> run_ok P s0 q b ms (s\<lparr>sends := js\<rparr>)"
  by (auto simp: run_ok_def delivery_ok_def trySend_def Let_def finish_send_def split: list.splits)

lemma send_next_ok: "run_ok P s0 q b ms s \<Longrightarrow> run_ok P s0 q b ms (send_next P s random answer)"
  by (auto simp: send_next_def Let_def split: list.splits sum.splits intro!: close_run_ok send_keeps)

lemma channel_step_ok:
  assumes "run_ok P s0 q b ms s" "distinct (map fst ms)" "authentic_event P s0 q b ms e"
  shows "run_ok P s0 q b ms (channel_step P s e)"
proof (cases e)
  case (Receive f n)
  have "run_ok P s0 q b ms (s\<lparr>pendingFrames := x, pendingBytes := y, incoming := incoming s @ [(f, n)]\<rparr>)" for x y
    using assms(1,3) Receive by (simp add: run_ok_def delivery_ok_def)
  then show ?thesis using assms(1) Receive by (simp add: receive_frame_def close_run_ok)
qed (use assms in \<open>simp_all add: process_next_ok send_keeps(1) send_next_ok close_run_ok\<close>)

lemma channel_run_ok:
  "run_ok P s0 q b ms s \<Longrightarrow> distinct (map fst ms) \<Longrightarrow> list_all (authentic_event P s0 q b ms) es \<Longrightarrow>
   run_ok P s0 q b ms (channel_run P s es)"
  by (induction es arbitrary: s) (simp_all add: channel_step_ok)

text \<open>C4: a room channel delivers the peer's messages whole and at most once: take a channel just after its
  handshake, and let frames arrive, jobs run, messages be sent and the channel close in any order.
  If every frame that opens under the room key with this session's binding is one the peer's channel
  made (frames recorded in other sessions may arrive freely), then what the channel has delivered is
  a list of the peer's messages, each complete, unaltered and delivered no more than once.\<close>

theorem channel_delivers_whole_once:
  assumes "just_established s bound" and "distinct (map fst ms)"
    and "list_all (authentic_event P s q bound ms) es"
  shows "\<exists>ks. distinct ks \<and> set ks \<subseteq> set ms \<and> delivered (channel_run P s es) = map snd ks"
proof -
  have "delivery_ok ms s" using assms(1) window_rel_new
    by (auto simp: delivery_ok_def just_established_def intro!: exI [of _ "{} :: int set"])
  then have "run_ok P s q bound ms s" using assms(1) by (simp add: run_ok_def just_established_def)
  from channel_run_ok [OF this assms(2,3)] show ?thesis unfolding run_ok_def delivery_ok_def by blast
qed


section \<open>Errors\<close>

lemma closed_stays:
  assumes "cclosed s"
  shows "cclosed (channel_step P s e) \<and> delivered (channel_step P s e) = delivered s \<and>
    written (channel_step P s e) = written s"
proof (cases e)
  case (Process a now)
  then show ?thesis using assms
    by (auto simp: process_next_def process_job_def Let_def split: list.splits)
next
  case (Send_next r a)
  then show ?thesis using assms
    by (auto simp: send_next_def Let_def channel_verified_def close_channel_def finish_send_def split: list.splits)
qed (use assms in \<open>auto simp: receive_frame_def trySend_def channel_verified_def close_channel_def\<close>)

lemma closed_run:
  "cclosed s \<Longrightarrow> cclosed (channel_run P s es) \<and> delivered (channel_run P s es) = delivered s \<and> written (channel_run P s es) = written s"
  by (induction es arbitrary: s) (auto simp: closed_stays)

text \<open>C30: an error ends the channel: when a received frame makes the handshake, the envelope, the body, the
  replay window, the encoding or the assembly throw, the channel is closed, with its half-received
  message dropped and its session closed, and from then on, whatever arrives or is asked of it, it hands
  over no message, writes no frame, and answers every send as not sent.\<close>

theorem error_ends_channel:
  assumes "incoming s = (frame, bytes) # rest" and "process_job P s frame bytes answer now = Inl e"
  shows "cclosed (process_next P s answer now) \<and> cassembly (process_next P s answer now) = None \<and>
     \<not> verified (csession (process_next P s answer now)) \<and>
     delivered (channel_run P (process_next P s answer now) es) = delivered s \<and>
     written (channel_run P (process_next P s answer now) es) = written s \<and>
     fst (trySend (channel_run P (process_next P s answer now) es) data) = Some Unsent"
proof -
  have open_s: "\<not> cclosed s" using assms(2) by (auto simp: process_job_def)
  let ?s = "process_next P s answer now"
  have s: "cclosed ?s" "cassembly ?s = None" "delivered ?s = delivered s" "written ?s = written s"
      "csession ?s = close_session (csession s)"
    using assms open_s by (simp_all add: process_next_def Let_def close_channel_def)
  have "\<not> verified (csession ?s)" unfolding s(5) by (simp add: verified_def close_session_def)
  moreover note closed_run [OF s(1), of P es]
  ultimately show ?thesis using s by (simp add: trySend_def channel_verified_def)
qed

end
