(* ===== verification/Room_Channel_Roundtrip.thy ===== *)
theory Room_Channel_Roundtrip
  imports Room_Channel
begin

text \<open>
  The two ends of a room channel together: messages that \<^verbatim>\<open>trySend\<close> takes at one end are cut
  into fragments, sealed and written, travel in order, and \<^verbatim>\<open>receive\<close> at the other end opens them and puts the
  messages together again. Sending, writing, arriving and handling interleave in any way. Also a concrete pair of channels, for the witnesses.
\<close>

section \<open>From one end to the other\<close>

definition carries :: "room_platform \<Rightarrow> SecureRoomChannel \<Rightarrow> string \<Rightarrow> int \<times> byte list \<Rightarrow> bool" where
  \<comment> \<open>the platform's JSON gives the bodies of this message back and keeps within the plaintext limit\<close>
  "carries P q bound msg \<longleftrightarrow>
     list_all (\<lambda>i. let body = fragment_body q bound (fst msg) (snd msg) i in
         dec_body P (enc_body P body) = Some body \<and> length (enc_body P body) \<le> MAX_ROOM_PLAINTEXT)
       [0..<fragments_of (snd msg)]"

definition paired :: "SecureRoomChannel \<Rightarrow> SecureRoomChannel \<Rightarrow> bool" where
  "paired q s \<longleftrightarrow> ckeys s = ckeys q \<and> clocal s = cremote q \<and> cremote s = clocal q \<and> token43 (csessionId q) \<and>
     validLabels (JStr (clocal q)) (JStr ''direct'')"

definition in_step :: "SecureRoomChannel \<Rightarrow> SecureRoomChannel \<Rightarrow> string \<Rightarrow> bool" where
  \<comment> \<open>the sending end \<open>q\<close> and the receiving end \<open>s\<close> of one session, both at rest\<close>
  "in_step q s bound \<longleftrightarrow> channel_verified q \<and> channel_verified s \<and>
     binding (csession q) = Inr bound \<and> binding (csession s) = Inr bound \<and> paired q s \<and>
     (receivedSession s = None \<or> receivedSession s = Some (csessionId q)) \<and>
     cassembly s = None \<and> highest (creplay s) < csequence q \<and> 0 \<le> csequence q \<and> csequence q \<le> MAX_SAFE_INTEGER \<and>
     sends q = [] \<and> outgoingFrames q = 0 \<and> outgoingBytes q = 0 \<and>
     incoming s = [] \<and> pendingFrames s = 0 \<and> pendingBytes s = 0"

record link =
  lq :: SecureRoomChannel
  ls :: SecureRoomChannel
  flight :: "js_value list" \<comment> \<open>written and not yet arrived\<close>
  taken :: "(int \<times> byte list) list" \<comment> \<open>the messages \<^verbatim>\<open>trySend\<close> took, with their numbers\<close>

datatype link_event = Offer "byte list" | Pump "byte list" write_answer | Arrive int | Handle int | Hang_up bool

fun link_step :: "room_platform \<Rightarrow> link_event \<Rightarrow> link \<Rightarrow> link" where
  "link_step P (Offer d) l =
     (case trySend (lq l) d of (r, q) \<Rightarrow> l\<lparr>lq := q, taken := (if r = None then taken l @ [(csequence (lq l), d)] else taken l)\<rparr>)"
| "link_step P (Pump random answer) l =
     (let q = send_next P (lq l) random answer in l\<lparr>lq := q, flight := flight l @ drop (length (written (lq l))) (written q)\<rparr>)"
| "link_step P (Arrive n) l =
     (case flight l of [] \<Rightarrow> l | f # fs \<Rightarrow> l\<lparr>ls := receive_frame (ls l) f n, flight := fs\<rparr>)"
| "link_step P (Handle now) l = l\<lparr>ls := process_next P (ls l) Write_ok now\<rparr>"
| "link_step P (Hang_up sender) l = (if sender then l\<lparr>lq := close_channel (lq l)\<rparr> else l\<lparr>ls := close_channel (ls l)\<rparr>)"

fun link_run :: "room_platform \<Rightarrow> link \<Rightarrow> link_event list \<Rightarrow> link" where
  "link_run P l [] = l"
| "link_run P l (e # es) = link_run P (link_step P e l) es"

fun smooth_event :: "link_event \<Rightarrow> link \<Rightarrow> bool" where
  \<comment> \<open>nobody hangs up, every write succeeds, and the receiving end is not overrun\<close>
  "smooth_event (Offer d) l = True"
| "smooth_event (Pump random answer) l = (answer = Write_ok)"
| "smooth_event (Arrive n) l \<longleftrightarrow> 0 \<le> n \<and> n \<le> 2 * int MAX_ROOM_PLAINTEXT \<and> pendingFrames (ls l) < 32 \<and>
     pendingBytes (ls l) + n \<le> 4 * int MAX_ROOM_PLAINTEXT"
| "smooth_event (Handle now) l = True"
| "smooth_event (Hang_up sender) l = False"

fun smooth :: "room_platform \<Rightarrow> link \<Rightarrow> link_event list \<Rightarrow> bool" where
  "smooth P l [] = True"
| "smooth P l (e # es) \<longleftrightarrow> smooth_event e l \<and> smooth P (link_step P e l) es"

fun drawn :: "link_event \<Rightarrow> bool" where
  \<comment> \<open>the random bytes of an envelope\<close>
  "drawn (Pump random answer) \<longleftrightarrow> length random = 32"
| "drawn _ = True"

section \<open>One fragment\<close>

definition half_filled :: "int \<Rightarrow> byte list \<Rightarrow> nat \<Rightarrow> Assembly" where
  "half_filled m d i = \<lparr>aid = m, atotal = length d, aoffset = i * CHUNK_BYTES,
     abytes = take (i * CHUNK_BYTES) d @ replicate (length d - i * CHUNK_BYTES) 0\<rparr>"

definition awaits :: "SecureRoomChannel \<Rightarrow> SecureRoomChannel \<Rightarrow> string \<Rightarrow> int \<Rightarrow> byte list \<Rightarrow> nat \<Rightarrow> bool" where
  \<comment> \<open>the end \<open>s\<close> has \<open>i\<close> fragments of message \<open>m\<close> of \<open>q\<close>\<close>
  "awaits q s bound m d i \<longleftrightarrow> channel_verified s \<and> binding (csession s) = Inr bound \<and> paired q s \<and>
     (receivedSession s = None \<or> receivedSession s = Some (csessionId q)) \<and>
     (if i = 0 then cassembly s = None else cassembly s = Some (half_filled m d i)) \<and>
     highest (creplay s) < m + int i \<and> 0 \<le> m \<and> m + int (fragments_of d) \<le> MAX_SAFE_INTEGER \<and>
     length d \<le> MAX_ROOM_MESSAGE \<and> i < fragments_of d"

lemma accept_higher:
  assumes "0 \<le> x" "x \<le> MAX_SAFE_INTEGER" "highest w < x"
  shows "\<exists>w'. accept w (JNum (JInt x)) = (True, w') \<and> highest w' = x"
  using assms by (simp add: accept_def Let_def)

lemma index_inside: "i < fragments_of d \<Longrightarrow> d \<noteq> [] \<Longrightarrow> i * CHUNK_BYTES < length d"
  by (cases d) (auto simp: fragments_of_def CHUNK_BYTES_def)

lemma fragments_cover: "length d \<le> fragments_of d * CHUNK_BYTES"
  by (simp add: fragments_of_def CHUNK_BYTES_def)

lemma chunk_prefix: "chunk_at d i = take (length (chunk_at d i)) (drop (i * CHUNK_BYTES) d)"
  by (simp add: min_def)

lemma last_fragment:
  assumes "i + 1 = fragments_of d"
  shows "i * CHUNK_BYTES + length (chunk_at d i) = length d"
proof (cases "d = []")
  case True
  then show ?thesis using assms by (simp add: fragments_of_def CHUNK_BYTES_def)
next
  case False
  then have "i * CHUNK_BYTES < length d" using index_inside assms by simp
  moreover have "length d \<le> i * CHUNK_BYTES + CHUNK_BYTES" using fragments_cover [of d] unfolding assms [symmetric] by simp
  ultimately show ?thesis by simp
qed

lemma inner_fragment: "i + 1 < fragments_of d \<Longrightarrow> length (chunk_at d i) = CHUNK_BYTES \<and> (i + 1) * CHUNK_BYTES < length d"
  using index_inside [of "i + 1" d] by (cases d) (auto simp: min_def fragments_of_def CHUNK_BYTES_def)

lemma fragment_fits:
  assumes "i < fragments_of d" "length d \<le> MAX_ROOM_MESSAGE" "0 \<le> m" "m + int (fragments_of d) \<le> MAX_SAFE_INTEGER"
  shows "fragment_ok (fragment_body q b m d i) (chunk_at d i)"
proof -
  have off: "i * CHUNK_BYTES \<le> length d" "d \<noteq> [] \<Longrightarrow> i * CHUNK_BYTES < length d"
    using index_inside [OF assms(1)] assms(1) by (cases d; simp add: fragments_of_def CHUNK_BYTES_def)+
  then have len: "i * CHUNK_BYTES + length (chunk_at d i) \<le> length d" by simp
  have total: "\<bar>int (length d)\<bar> \<le> MAX_SAFE_INTEGER" "int (length d) \<le> int MAX_ROOM_MESSAGE"
    using assms(2) by (simp_all add: MAX_ROOM_MESSAGE_def)
  have "int (i * CHUNK_BYTES) \<le> int (length d)" using off(1) by (simp only: of_nat_le_iff)
  then have offset: "\<bar>int (i * CHUNK_BYTES)\<bar> \<le> MAX_SAFE_INTEGER" using total(1) by linarith
  have empty: "\<not> (length (chunk_at d i) = 0 \<and> int (length d) \<noteq> 0)"
    using off(2) by (cases "d = []") (auto simp: CHUNK_BYTES_def min_def split: if_splits)
  have m: "\<bar>m\<bar> \<le> MAX_SAFE_INTEGER" using assms(3,4) by linarith
  have sum: "int (i * CHUNK_BYTES) + int (length (chunk_at d i)) \<le> int (length d)"
    using len by (simp only: of_nat_add [symmetric] of_nat_le_iff)
  have small: "length (chunk_at d i) \<le> CHUNK_BYTES" by simp
  show ?thesis
    unfolding fragment_ok_def fragment_props as_int.simps isSafeInteger.simps
    by (intro conjI m assms(3) offset of_nat_0_le_iff total small sum empty)
qed

lemma place_last:
  assumes "i + 1 = fragments_of d" "d = [] \<longrightarrow> i = 0"
  shows "place_fragment s (half_filled m d i) (chunk_at d i) = s\<lparr>cassembly := None, delivered := delivered s @ [d]\<rparr>"
proof -
  note l = last_fragment [OF assms(1)]
  have "patch (take (i * CHUNK_BYTES) d @ replicate (length d - i * CHUNK_BYTES) 0) (chunk_at d i) (i * CHUNK_BYTES) = d"
    using patch_prefix [OF _ chunk_prefix [of i d]] unfolding l by simp
  with l show ?thesis by (simp add: place_fragment_def half_filled_def)
qed

lemma place_inner:
  assumes "i + 1 < fragments_of d"
  shows "place_fragment s (half_filled m d i) (chunk_at d i) = s\<lparr>cassembly := Some (half_filled m d (i + 1))\<rparr>"
proof -
  note l = inner_fragment [OF assms]
  have "patch (take (i * CHUNK_BYTES) d @ replicate (length d - i * CHUNK_BYTES) 0) (chunk_at d i) (i * CHUNK_BYTES) =
      take ((i + 1) * CHUNK_BYTES) d @ replicate (length d - (i + 1) * CHUNK_BYTES) 0"
    using patch_prefix [OF _ chunk_prefix [of i d]] l unfolding conjunct1 [OF l] by (simp add: add.commute)
  with l show ?thesis by (simp add: place_fragment_def half_filled_def add.commute)
qed


text \<open>Sealing a fragment and opening it at the other end.\<close>

lemma carriesD:
  assumes "carries P q bound (m, d)" "i < fragments_of d"
  shows "dec_body P (enc_body P (fragment_body q bound m d i)) = Some (fragment_body q bound m d i)"
    "length (enc_body P (fragment_body q bound m d i)) \<le> MAX_ROOM_PLAINTEXT"
  using assms by (auto simp: carries_def list_all_iff Let_def)

lemma frame_opens:
  assumes a: "aead_lawful (paead P)" and "paired q s" and "length random = 32" and "carries P q bound (m, d)" and i: "i < fragments_of d"
  obtains e where "sealRoomEnvelope (paead P) (ckeys q) (clocal q) ''direct'' random
      (enc_body P (fragment_body q bound m d i)) = Inr e"
    "open_frame P s (frame_of e) = Inr (fragment_body q bound m d i)"
proof -
  note c = carriesD [OF assms(4) i]
  obtain e where e: "sealRoomEnvelope (paead P) (ckeys q) (clocal q) ''direct'' random
      (enc_body P (fragment_body q bound m d i)) = Inr e"
    using assms(2) c(2) by (simp add: sealRoomEnvelope_def paired_def)
  have o: "openRoomEnvelope (paead P) (ckeys s) e = Inr (enc_body P (fragment_body q bound m d i))"
    using open_sealed [OF a assms(3) e] assms(2) by (simp add: paired_def)
  have "envelope_of (frame_of e) = e" by (simp add: envelope_of_def frame_of_def)
  moreover have "js_prop (frame_of e) ''sender'' = JStr (cremote s)" "js_prop (frame_of e) ''kind'' = JStr ''direct''"
    using assms(2) e by (auto simp: paired_def sealRoomEnvelope_def frame_of_def split: if_splits)
  ultimately show ?thesis
    using that [OF e] o c(1) by (simp add: open_frame_def frame_of_def)
qed

lemma accept_fragment:
  assumes "awaits q s bound m d i"
  obtains w where "highest w = m + int i"
    "accept_body s (fragment_body q bound m d i) =
       Inr (place_fragment (s\<lparr>creplay := w, receivedSession := Some (csessionId q)\<rparr>) (half_filled m d i) (chunk_at d i))"
proof -
  obtain w where w: "accept (creplay s) (JNum (JInt (m + int i))) = (True, w)" "highest w = m + int i"
    using accept_higher [of "m + int i" "creplay s"] assms by (auto simp: awaits_def)
  have f: "fragment_ok (fragment_body q bound m d i) (chunk_at d i)"
    using fragment_fits assms by (simp add: awaits_def)
  have "assemble (s\<lparr>creplay := w, receivedSession := Some (csessionId q)\<rparr>) (fragment_body q bound m d i) (chunk_at d i) =
      Inr (place_fragment (s\<lparr>creplay := w, receivedSession := Some (csessionId q)\<rparr>) (half_filled m d i) (chunk_at d i))"
    using assms by (auto simp: assemble_fragment awaits_def half_filled_def split: if_splits)
  then show ?thesis using that w f assms
    by (auto simp: accept_body_def awaits_def paired_def strings.dec_enc)
qed

lemma handle_fragment:
  assumes "awaits q s bound m d i" and "incoming s = (f, n) # rest" and "open_frame P s f = Inr (fragment_body q bound m d i)"
  obtains w where "highest w = m + int i"
    "process_next P s Write_ok now =
       (if i + 1 = fragments_of d then s\<lparr>cassembly := None, delivered := delivered s @ [d]\<rparr> else s\<lparr>cassembly := Some (half_filled m d (i + 1))\<rparr>)
         \<lparr>creplay := w, receivedSession := Some (csessionId q), incoming := rest, pendingFrames := pendingFrames s - 1, pendingBytes := pendingBytes s - n\<rparr>"
proof -
  obtain w where w: "highest w = m + int i"
    "accept_body s (fragment_body q bound m d i) =
       Inr (place_fragment (s\<lparr>creplay := w, receivedSession := Some (csessionId q)\<rparr>) (half_filled m d i) (chunk_at d i))"
    by (rule accept_fragment [OF assms(1)])
  have i: "i < fragments_of d" using assms(1) by (simp add: awaits_def)
  have p: "place_fragment (s\<lparr>creplay := w, receivedSession := Some (csessionId q)\<rparr>) (half_filled m d i) (chunk_at d i) =
      (if i + 1 = fragments_of d then s\<lparr>creplay := w, receivedSession := Some (csessionId q), cassembly := None, delivered := delivered s @ [d]\<rparr>
       else s\<lparr>creplay := w, receivedSession := Some (csessionId q), cassembly := Some (half_filled m d (i + 1))\<rparr>)"
  proof (cases "i + 1 = fragments_of d")
    case True
    have "d = [] \<longrightarrow> i = 0" using True by (auto simp: fragments_of_def CHUNK_BYTES_def)
    then show ?thesis using True by (simp add: place_last)
  next
    case False
    then show ?thesis using i by (simp add: place_inner)
  qed
  have "process_job P s f n Write_ok now = accept_body s (fragment_body q bound m d i)"
    using assms(1,3) by (simp add: process_job_def awaits_def channel_verified_def)
  then have "process_next P s Write_ok now =
       (if i + 1 = fragments_of d then s\<lparr>cassembly := None, delivered := delivered s @ [d]\<rparr> else s\<lparr>cassembly := Some (half_filled m d (i + 1))\<rparr>)
         \<lparr>creplay := w, receivedSession := Some (csessionId q), incoming := rest, pendingFrames := pendingFrames s - 1, pendingBytes := pendingBytes s - n\<rparr>"
    using assms(2) w(2) unfolding p by (simp add: process_next_def)
  with w(1) show ?thesis by (rule that)
qed

section \<open>The fragments of a run\<close>

text \<open>The fragments of the messages taken so far, in order, are those handled by the receiving end, those
  that wait there, those in flight and those the sender has still to write.\<close>

type_synonym frag = "int \<times> byte list \<times> nat"

definition frags :: "(int \<times> byte list) list \<Rightarrow> frag list" where
  "frags ms = concat (map (\<lambda>(m, d). map (\<lambda>i. (m, d, i)) [0..<fragments_of d]) ms)"

fun final :: "frag \<Rightarrow> bool" where
  "final (m, d, i) \<longleftrightarrow> i + 1 = fragments_of d"

fun follows :: "frag \<Rightarrow> frag \<Rightarrow> bool" where
  "follows (m, d, i) (m', d', i') \<longleftrightarrow>
     (if i + 1 = fragments_of d then m' = m + int (fragments_of d) \<and> i' = 0 else m' = m \<and> d' = d \<and> i' = i + 1)"

fun in_sequence :: "int \<Rightarrow> (int \<times> byte list) list \<Rightarrow> bool" where
  "in_sequence n [] = True"
| "in_sequence n ((m, d) # ms) \<longleftrightarrow> m = n \<and> in_sequence (n + int (fragments_of d)) ms"

fun next_number :: "int \<Rightarrow> (int \<times> byte list) list \<Rightarrow> int" where
  "next_number n [] = n"
| "next_number n ((m, d) # ms) = next_number (n + int (fragments_of d)) ms"

fun leads :: "int \<Rightarrow> frag list \<Rightarrow> frag \<Rightarrow> bool" where
  "leads n A x \<longleftrightarrow> (if A = [] then fst x = n \<and> snd (snd x) = 0 else follows (last A) x)"

lemma fragments_pos [simp]: "0 < fragments_of d" "fragments_of d \<noteq> 0"
  by (simp_all add: fragments_of_def)

lemma frags_simps [simp]:
  "frags [] = []" "frags ((m, d) # ms) = map (\<lambda>i. (m, d, i)) [0..<fragments_of d] @ frags ms"
  "frags (ms @ ns) = frags ms @ frags ns"
  by (simp_all add: frags_def)

lemma in_frags: "(m, d, i) \<in> set (frags ms) \<longleftrightarrow> (m, d) \<in> set ms \<and> i < fragments_of d"
  by (induction ms) auto

lemma in_sequence_snoc [simp]: "in_sequence n (ms @ [(m, d)]) \<longleftrightarrow> in_sequence n ms \<and> m = next_number n ms"
  by (induction n ms rule: in_sequence.induct) auto

lemma next_number_snoc [simp]: "next_number n (ms @ [(m, d)]) = next_number n ms + int (fragments_of d)"
  by (induction n ms rule: next_number.induct) auto

lemma final_frags: "map (\<lambda>(m, d, i). (m, d)) (filter final (frags ms)) = ms"
proof (induction ms)
  case (Cons x ms)
  obtain m d where x: "x = (m, d)" by force
  obtain k where k: "fragments_of d = Suc k" using fragments_pos(1) [of d] gr0_implies_Suc by blast
  have "filter final (map (\<lambda>i. (m, d, i)) [0..<k]) = []" using k by (auto simp: filter_empty_conv)
  then show ?case using Cons k x by simp
qed simp

lemma frags_chain:
  assumes "in_sequence n ms"
  shows "successively follows (frags ms) \<and> (frags ms \<noteq> [] \<longrightarrow> fst (hd (frags ms)) = n \<and> snd (snd (hd (frags ms))) = 0)"
  using assms
proof (induction n ms rule: in_sequence.induct)
  case (2 n m d ms)
  have "successively follows (map (\<lambda>i. (m, d, i)) [0..<k])" if "k \<le> fragments_of d" for k
    using that
  proof (induction k)
    case (Suc k)
    then show ?case by (cases k) (auto simp: successively_append_iff)
  qed simp
  moreover obtain k where k: "fragments_of d = Suc k" using fragments_pos(1) [of d] gr0_implies_Suc by blast
  ultimately show ?case using 2 k
    by (cases "frags ms") (auto simp: successively_append_iff last_map hd_append hd_map)
qed simp

lemma chain_leads:
  assumes "in_sequence n ms" "frags ms = A @ x # R"
  shows "leads n A x"
  using frags_chain [OF assms(1)] unfolding assms(2) by (cases "A = []") (auto simp: successively_append_iff)

definition opened :: "SecureRoomChannel \<Rightarrow> string \<Rightarrow> frag \<Rightarrow> channel_error + js_value" where
  "opened q bound x = (case x of (m, d, i) \<Rightarrow> Inr (fragment_body q bound m d i))"

definition half :: "frag list \<Rightarrow> Assembly option" where
  "half A = (if A = [] \<or> final (last A) then None else case last A of (m, d, i) \<Rightarrow> Some (half_filled m d (i + 1)))"

definition top :: "int \<Rightarrow> frag list \<Rightarrow> int" where
  "top n A = (if A = [] then n - 1 else case last A of (m, d, i) \<Rightarrow> m + int i)"

definition recv_ok :: "room_platform \<Rightarrow> SecureRoomChannel \<Rightarrow> SecureRoomChannel \<Rightarrow> string \<Rightarrow> frag list \<Rightarrow> frag list \<Rightarrow> SecureRoomChannel \<Rightarrow> bool" where
  "recv_ok P q s bound A I r \<longleftrightarrow> cestablished r \<and> binding (csession r) = Inr bound \<and> paired q r \<and>
     (receivedSession r = None \<or> receivedSession r = Some (csessionId q)) \<and> cassembly r = half A \<and>
     highest (creplay r) \<le> top (csequence q) A \<and> map (open_frame P s \<circ> fst) (incoming r) = map (opened q bound) I \<and>
     pendingFrames r = int (length (incoming r)) \<and> pendingBytes r = sum_list (map snd (incoming r))"

definition job_frags :: "send_job list \<Rightarrow> frag list" where
  "job_frags js = concat (map (\<lambda>j. map (\<lambda>i. (jmessage j, jcopy j, i)) [jindex j..<jfragments j]) js)"

definition send_ok :: "SecureRoomChannel \<Rightarrow> string \<Rightarrow> (int \<times> byte list) list \<Rightarrow> frag list \<Rightarrow> frag list \<Rightarrow> SecureRoomChannel \<Rightarrow> bool" where
  "send_ok q bound ms S U p \<longleftrightarrow> cestablished p \<and> binding (csession p) = Inr bound \<and>
     ckeys p = ckeys q \<and> clocal p = clocal q \<and> cremote p = cremote q \<and> csessionId p = csessionId q \<and>
     list_all (\<lambda>j. jfragments j = fragments_of (jcopy j) \<and> jindex j < jfragments j) (sends p) \<and> job_frags (sends p) = U \<and>
     csequence p = next_number (csequence q) ms \<and> csequence q \<le> csequence p \<and> csequence p \<le> MAX_SAFE_INTEGER \<and>
     results p = results q @ map (\<lambda>(m, d, i). (m, Sent_ok)) (filter final S) \<and>
     outgoingFrames p = int (length (sends p)) \<and> outgoingBytes p = sum_list (map (int \<circ> length \<circ> jcopy) (sends p))"

definition sendable_frag :: "int \<times> byte list \<Rightarrow> bool" where
  "sendable_frag x \<longleftrightarrow> 0 \<le> fst x \<and> fst x + int (fragments_of (snd x)) \<le> MAX_SAFE_INTEGER \<and> length (snd x) \<le> MAX_ROOM_MESSAGE"

definition linked :: "room_platform \<Rightarrow> SecureRoomChannel \<Rightarrow> SecureRoomChannel \<Rightarrow> string \<Rightarrow> frag list \<Rightarrow> frag list \<Rightarrow> frag list \<Rightarrow> frag list \<Rightarrow> link \<Rightarrow> bool" where
  "linked P q s bound A I L U l \<longleftrightarrow> frags (taken l) = A @ I @ L @ U \<and> in_sequence (csequence q) (taken l) \<and>
     list_all sendable_frag (taken l) \<and>
     delivered (ls l) = delivered s @ map (\<lambda>(m, d, i). d) (filter final A) \<and>
     map (open_frame P s) (flight l) = map (opened q bound) L \<and>
     (cclosed (ls l) \<or> recv_ok P q s bound A I (ls l)) \<and>
     (cclosed (lq l) \<or> send_ok q bound (taken l) (A @ I @ L) U (lq l))"

lemma leads_awaits:
  assumes "recv_ok P q s bound A I r" "\<not> cclosed r" "leads (csequence q) A (m, d, i)" "i < fragments_of d" "sendable_frag (m, d)"
    and "\<And>m d i. (m, d, i) \<in> set A \<Longrightarrow> i < fragments_of d"
  shows "awaits q r bound m d i"
proof (cases "A = []")
  case True
  then show ?thesis using assms(1-5)
    by (simp add: awaits_def recv_ok_def channel_verified_def sendable_frag_def half_def top_def)
next
  case False
  obtain m0 d0 i0 where l: "last A = (m0, d0, i0)" by (cases "last A")
  have "i0 < fragments_of d0" using last_in_set [OF False] assms(6) l by metis
  then show ?thesis using assms(1-5) False l
    by (auto simp: awaits_def recv_ok_def channel_verified_def sendable_frag_def half_def top_def split: if_splits)
qed

section \<open>The steps\<close>

lemma frag_ok:
  assumes "linked P q s bound A I L U l" "(m, d, i) \<in> set (A @ I @ L @ U)"
  shows "i < fragments_of d" "(m, d) \<in> set (taken l)" "sendable_frag (m, d)"
proof -
  have "(m, d, i) \<in> set (frags (taken l))" using assms by (simp add: linked_def)
  then show f: "i < fragments_of d" "(m, d) \<in> set (taken l)" by (simp_all add: in_frags)
  then show "sendable_frag (m, d)" using assms(1) by (simp add: linked_def list_all_iff)
qed

lemma close_linked:
  assumes "linked P q s bound A I L U l"
  shows "linked P q s bound A I L U (l\<lparr>lq := close_channel p\<rparr>)" "linked P q s bound A I L U (l\<lparr>ls := close_channel (ls l)\<rparr>)"
  using assms by (simp_all add: linked_def close_channel_def)

lemma trySend_cases:
  obtains r where "trySend p d = (Some r, p)"
  | "trySend p d = (None, p\<lparr>outgoingFrames := outgoingFrames p + 1, outgoingBytes := outgoingBytes p + int (length d),
      csequence := csequence p + int (fragments_of d), sends := sends p @
        [\<lparr>jmessage = csequence p, jfragments = fragments_of d, jcopy = d, jindex = 0, handedOver = False\<rparr>]\<rparr>)"
    "channel_verified p" "length d \<le> MAX_ROOM_MESSAGE" "csequence p \<le> MAX_SAFE_INTEGER - int (fragments_of d)"
proof (cases "channel_verified p \<and> \<not> (MAX_ROOM_MESSAGE < length d \<or> MAX_SAFE_INTEGER - int (fragments_of d) < csequence p \<or>
           32 \<le> outgoingFrames p \<or> 4 * int MAX_ROOM_PLAINTEXT < outgoingBytes p + int (length d))")
  case True
  then show ?thesis using that(2) unfolding trySend_def Let_def by simp
next
  case False
  then show ?thesis using that(1) unfolding trySend_def Let_def by (cases "channel_verified p") simp_all
qed

lemma offer_linked:
  assumes "linked P q s bound A I L U l" "0 \<le> csequence q"
  shows "\<exists>U'. linked P q s bound A I L U' (link_step P (Offer d) l) \<and> ls (link_step P (Offer d) l) = ls l \<and>
    cclosed (lq (link_step P (Offer d) l)) = cclosed (lq l)"
proof (cases rule: trySend_cases [of "lq l" d])
  case (1 r)
  then show ?thesis using assms(1) by auto
next
  case 2
  note t = 2(2-4)
  let ?m = "csequence (lq l)"
  define p where "p = (lq l)\<lparr>outgoingFrames := outgoingFrames (lq l) + 1, outgoingBytes := outgoingBytes (lq l) + int (length d),
      csequence := ?m + int (fragments_of d), sends := sends (lq l) @
        [\<lparr>jmessage = ?m, jfragments = fragments_of d, jcopy = d, jindex = 0, handedOver = False\<rparr>]\<rparr>"
  have o: "\<not> cclosed (lq l)" using t(1) by (simp add: channel_verified_def)
  have so: "send_ok q bound (taken l) (A @ I @ L) U (lq l)" using assms(1) o by (simp add: linked_def)
  have step: "link_step P (Offer d) l = l\<lparr>lq := p, taken := taken l @ [(?m, d)]\<rparr>" using 2(1) by (simp add: p_def)
  have seq: "?m = next_number (csequence q) (taken l)" "csequence q \<le> ?m" using so by (simp_all add: send_ok_def)
  have "send_ok q bound (taken l @ [(?m, d)]) (A @ I @ L) (U @ frags [(?m, d)]) p"
    using so t(3) unfolding send_ok_def p_def by (simp add: job_frags_def)
  moreover have "sendable_frag (?m, d)" using t assms(2) seq(2) by (simp add: sendable_frag_def)
  ultimately have "linked P q s bound A I L (U @ frags [(?m, d)]) (link_step P (Offer d) l)"
    using assms(1) unfolding linked_def step seq(1) by simp
  moreover have "ls (link_step P (Offer d) l) = ls l" "cclosed (lq (link_step P (Offer d) l)) = cclosed (lq l)"
    unfolding step by (simp_all add: p_def)
  ultimately show ?thesis by blast
qed

lemma arrive_linked:
  assumes "linked P q s bound A I L U l" "flight l = f # fs"
  obtains x L' where "L = x # L'" "linked P q s bound A (I @ [x]) L' U (link_step P (Arrive n) l)"
proof -
  obtain x L' where L: "L = x # L'" "open_frame P s f = opened q bound x" "map (open_frame P s) fs = map (opened q bound) L'"
    using assms by (auto simp: linked_def)
  have "linked P q s bound A (I @ [x]) L' U (link_step P (Arrive n) l)"
    using assms L by (auto simp: linked_def receive_frame_def close_channel_def recv_ok_def paired_def)
  with L(1) show ?thesis by (rule that)
qed

lemma arrive_open: "smooth_event (Arrive n) l \<Longrightarrow> \<not> cclosed (ls l) \<Longrightarrow> \<not> cclosed (ls (link_step P (Arrive n) l))"
  by (auto simp: receive_frame_def MAX_ROOM_PLAINTEXT_def split: list.split)

lemma handle_linked:
  assumes "linked P q s bound A I L U l" "paired q s" "incoming (ls l) = (f, n) # rest" "\<not> cclosed (ls l)"
  obtains x I' where "I = x # I'" "linked P q s bound (A @ [x]) I' L U (link_step P (Handle now) l)"
    "\<not> cclosed (ls (link_step P (Handle now) l))"
proof -
  have r: "recv_ok P q s bound A I (ls l)" using assms(1,4) by (simp add: linked_def)
  then obtain x I' where I: "I = x # I'" "open_frame P s f = opened q bound x" "map (open_frame P s \<circ> fst) rest = map (opened q bound) I'"
    using assms(3) by (auto simp: recv_ok_def)
  obtain m d i where x: "x = (m, d, i)" by (cases x)
  have F: "frags (taken l) = A @ x # I' @ L @ U" "in_sequence (csequence q) (taken l)" using assms(1) I(1) by (auto simp: linked_def)
  have a: "awaits q (ls l) bound m d i"
  proof (rule leads_awaits [OF r assms(4)])
    show "leads (csequence q) A (m, d, i)" using chain_leads [OF F(2,1)] x by simp
    show "i < fragments_of d" "sendable_frag (m, d)" using frag_ok [OF assms(1), of m d i] I(1) x by auto
    show "i < fragments_of d" if "(m, d, i) \<in> set A" for m d i using frag_ok(1) [OF assms(1), of m d i] that by auto
  qed
  have "ckeys (ls l) = ckeys s \<and> cremote (ls l) = cremote s" using assms(2) r by (simp add: recv_ok_def paired_def)
  then have "open_frame P (ls l) f = Inr (fragment_body q bound m d i)"
    using open_frame_cong [of "ls l" s P f] I(2) x by (simp add: opened_def)
  from handle_fragment [OF a assms(3) this, of now] obtain w where w: "highest w = m + int i"
    "ls (link_step P (Handle now) l) =
       (if i + 1 = fragments_of d then (ls l)\<lparr>cassembly := None, delivered := delivered (ls l) @ [d]\<rparr> else (ls l)\<lparr>cassembly := Some (half_filled m d (i + 1))\<rparr>)
         \<lparr>creplay := w, receivedSession := Some (csessionId q), incoming := rest, pendingFrames := pendingFrames (ls l) - 1, pendingBytes := pendingBytes (ls l) - n\<rparr>"
    by auto
  have k: "lq (link_step P (Handle now) l) = lq l" "flight (link_step P (Handle now) l) = flight l"
    "taken (link_step P (Handle now) l) = taken l" by simp_all
  have r': "recv_ok P q s bound (A @ [x]) I' (ls (link_step P (Handle now) l))"
    using r assms(3) I(3) w(1) unfolding w(2) recv_ok_def x by (simp add: half_def top_def paired_def)
  have d: "delivered (ls (link_step P (Handle now) l)) = delivered s @ map (\<lambda>(m, d, i). d) (filter final (A @ [x]))"
    using assms(1) unfolding w(2) x linked_def by simp
  have "linked P q s bound (A @ [x]) I' L U (link_step P (Handle now) l)"
    using assms(1) r' d I(1) unfolding linked_def k by simp
  moreover have "\<not> cclosed (ls (link_step P (Handle now) l))" using assms(4) unfolding w(2) by simp
  ultimately show ?thesis using that I(1) by blast
qed

lemma handle_nothing:
  assumes "linked P q s bound A I L U l" "incoming (ls l) = [] \<or> cclosed (ls l)"
  shows "linked P q s bound A I L U (link_step P (Handle now) l) \<and> cclosed (ls (link_step P (Handle now) l)) = cclosed (ls l)"
  using assms by (auto simp: linked_def process_next_def process_job_def Let_def split: list.splits)

lemma pump_nothing:
  assumes "linked P q s bound A I L U l" "sends (lq l) = [] \<or> cclosed (lq l)"
  shows "linked P q s bound A I L U (link_step P (Pump random answer) l) \<and> ls (link_step P (Pump random answer) l) = ls l \<and>
    cclosed (lq (link_step P (Pump random answer) l)) = cclosed (lq l)"
proof (cases "sends (lq l)")
  case Nil
  then show ?thesis using assms(1) by (simp add: send_next_def)
next
  case (Cons j rest)
  then have c: "cclosed (lq l)" using assms(2) by simp
  define b where "b = (if handedOver j then Send_failed else Unsent)"
  have n: "send_next P (lq l) random answer = finish_send (lq l) b"
    using c Cons by (simp add: send_next_def Let_def channel_verified_def close_channel_def finish_send_def b_def)
  have f: "cclosed (finish_send (lq l) b)" "written (finish_send (lq l) b) = written (lq l)" using c Cons by (simp_all add: finish_send_def)
  show ?thesis using assms(1) c f unfolding linked_def link_step.simps n Let_def by simp
qed

lemma job_frags_Cons: "job_frags (j # js) = map (\<lambda>i. (jmessage j, jcopy j, i)) [jindex j..<jfragments j] @ job_frags js"
  by (simp add: job_frags_def)

lemma send_ok_written: "send_ok q bound ms S U (p\<lparr>written := w\<rparr>) = send_ok q bound ms S U p"
  by (simp add: send_ok_def)

lemma job_done:
  assumes "send_ok q bound ms S U p" "sends p = j # rest" "jindex j + 1 = jfragments j"
  shows "\<exists>U'. U = (jmessage j, jcopy j, jindex j) # U' \<and>
    send_ok q bound ms (S @ [(jmessage j, jcopy j, jindex j)]) U' (finish_send p Sent_ok)"
proof -
  have "U = (jmessage j, jcopy j, jindex j) # job_frags rest"
    using assms by (auto simp: send_ok_def job_frags_Cons upt_conv_Cons simp flip: assms(3))
  moreover have "send_ok q bound ms (S @ [(jmessage j, jcopy j, jindex j)]) (job_frags rest) (finish_send p Sent_ok)"
    using assms unfolding send_ok_def finish_send_def assms(2) by simp
  ultimately show ?thesis by blast
qed

lemma job_goes_on:
  assumes "send_ok q bound ms S U p" "sends p = j # rest" "jindex j + 1 \<noteq> jfragments j"
  shows "\<exists>U'. U = (jmessage j, jcopy j, jindex j) # U' \<and>
    send_ok q bound ms (S @ [(jmessage j, jcopy j, jindex j)]) U' (p\<lparr>sends := j\<lparr>jindex := jindex j + 1, handedOver := True\<rparr> # rest\<rparr>)"
proof -
  have j: "jindex j + 1 < jfragments j" "jfragments j = fragments_of (jcopy j)" using assms by (simp_all add: send_ok_def)
  have "U = (jmessage j, jcopy j, jindex j) # job_frags (j\<lparr>jindex := jindex j + 1, handedOver := True\<rparr> # rest)"
    using assms(1,2) j(1) by (auto simp: send_ok_def job_frags_Cons upt_conv_Cons)
  moreover have "send_ok q bound ms (S @ [(jmessage j, jcopy j, jindex j)]) (job_frags (j\<lparr>jindex := jindex j + 1, handedOver := True\<rparr> # rest))
      (p\<lparr>sends := j\<lparr>jindex := jindex j + 1, handedOver := True\<rparr> # rest\<rparr>)"
    using assms(1,2) j unfolding send_ok_def by simp
  ultimately show ?thesis by blast
qed

lemma pump_linked:
  assumes "aead_lawful (paead P)" "paired q s" and l: "linked P q s bound A I L U l" and "list_all (carries P q bound) (taken l)"
    and "sends (lq l) = j # rest" "\<not> cclosed (lq l)" "length random = 32"
  obtains x U' where "U = x # U'" "linked P q s bound A I (L @ [x]) U' (link_step P (Pump random answer) l)"
    "answer = Write_ok \<Longrightarrow> \<not> cclosed (lq (link_step P (Pump random answer) l))"
proof -
  let ?p = "lq l" and ?x = "(jmessage j, jcopy j, jindex j)"
  have so: "send_ok q bound (taken l) (A @ I @ L) U ?p" using l assms(6) by (simp add: linked_def)
  note f = so [unfolded send_ok_def]
  obtain U' where U: "U = ?x # U'" using job_done [OF so assms(5)] job_goes_on [OF so assms(5)] by blast
  note x = frag_ok [OF l, of "jmessage j" "jcopy j" "jindex j"]
  have c: "carries P q bound (jmessage j, jcopy j)" using x(2) U assms(4) by (simp add: list_all_iff)
  have i: "jindex j < fragments_of (jcopy j)" using x(1) U by simp
  obtain e where e: "sealRoomEnvelope (paead P) (ckeys q) (clocal q) ''direct'' random
      (enc_body P (fragment_body q bound (jmessage j) (jcopy j) (jindex j))) = Inr e"
    "open_frame P s (frame_of e) = Inr (fragment_body q bound (jmessage j) (jcopy j) (jindex j))"
    by (rule frame_opens [OF assms(1,2,7) c i])
  have b: "fragment_body ?p bound = fragment_body q bound" using f unfolding fragment_body_def fun_eq_iff by simp
  let ?w = "?p\<lparr>written := written ?p @ [frame_of e]\<rparr>"
  define p' where "p' = (if answer \<noteq> Write_ok then close_channel (finish_send ?w Send_failed)
      else if jindex j + 1 = jfragments j then finish_send ?w Sent_ok
      else ?w\<lparr>sends := j\<lparr>jindex := jindex j + 1, handedOver := True\<rparr> # rest\<rparr>)"
  have p': "send_next P ?p random answer = p'"
    using e(1) f assms(5,6) b by (simp add: send_next_def Let_def channel_verified_def p'_def)
  have w: "written p' = written ?p @ [frame_of e]" using assms(5) by (simp add: p'_def close_channel_def finish_send_def)
  have step: "link_step P (Pump random answer) l = l\<lparr>lq := p', flight := flight l @ [frame_of e]\<rparr>"
    unfolding link_step.simps p' Let_def w by simp
  have sw: "send_ok q bound (taken l) (A @ I @ L) U ?w" "sends ?w = j # rest" using so assms(5) by (simp_all add: send_ok_written)
  have "answer = Write_ok \<Longrightarrow> send_ok q bound (taken l) ((A @ I @ L) @ [?x]) U' p'"
    using job_done [OF sw] job_goes_on [OF sw] U unfolding p'_def by auto
  moreover have "answer \<noteq> Write_ok \<Longrightarrow> cclosed p'" by (simp add: p'_def close_channel_def)
  ultimately have k: "linked P q s bound A I (L @ [?x]) U' (link_step P (Pump random answer) l)"
    using l e(2) U unfolding step linked_def by (cases "answer = Write_ok") (simp_all add: opened_def)
  have "\<not> cclosed (lq (link_step P (Pump random answer) l))" if "answer = Write_ok"
    using that assms(6) sw(2) unfolding step by (simp add: p'_def finish_send_def)
  with U k show ?thesis by (rule that)
qed

section \<open>Runs of the link\<close>

abbreviation open_ends :: "link \<Rightarrow> bool" where
  "open_ends l \<equiv> \<not> cclosed (lq l) \<and> \<not> cclosed (ls l)"

definition drained :: "link \<Rightarrow> bool" where
  "drained l \<longleftrightarrow> sends (lq l) = [] \<and> flight l = [] \<and> incoming (ls l) = []"

lemma step_linked:
  assumes "aead_lawful (paead P)" "paired q s" "0 \<le> csequence q" and l: "linked P q s bound A I L U l"
    and "list_all (carries P q bound) (taken l)" "drawn e"
  shows "(\<exists>A I L U. linked P q s bound A I L U (link_step P e l)) \<and>
    (open_ends l \<longrightarrow> smooth_event e l \<longrightarrow> open_ends (link_step P e l))"
proof (cases e)
  case (Offer d)
  then show ?thesis using offer_linked [OF l assms(3), of d] by (auto simp del: link_step.simps)
next
  case (Pump random answer)
  show ?thesis
  proof (cases "sends (lq l) = [] \<or> cclosed (lq l)")
    case True
    from pump_nothing [OF l this, of random answer] Pump show ?thesis by (auto simp del: link_step.simps)
  next
    case False
    then obtain j rest where j: "sends (lq l) = j # rest" by (cases "sends (lq l)") auto
    have r: "length random = 32" using assms(6) Pump by simp
    from pump_linked [OF assms(1,2) l assms(5) j _ r, of answer] False Pump
    obtain A' I' L' U' where "linked P q s bound A' I' L' U' (link_step P e l)" "answer = Write_ok \<Longrightarrow> \<not> cclosed (lq (link_step P e l))"
      by metis
    moreover have "ls (link_step P e l) = ls l" by (simp add: Pump Let_def)
    ultimately show ?thesis using Pump by (auto simp del: link_step.simps)
  qed
next
  case (Arrive n)
  have q: "lq (link_step P e l) = lq l" by (simp add: Arrive split: list.split)
  show ?thesis
  proof (cases "flight l")
    case Nil
    then show ?thesis using l Arrive by auto
  next
    case (Cons f fs)
    from arrive_linked [OF l Cons, of n] arrive_open [of n l P] q Arrive show ?thesis by metis
  qed
next
  case (Handle now)
  have q: "lq (link_step P e l) = lq l" by (simp add: Handle)
  show ?thesis
  proof (cases "incoming (ls l) = [] \<or> cclosed (ls l)")
    case True
    from handle_nothing [OF l this, of now] q Handle show ?thesis by metis
  next
    case False
    then obtain f n rest where "incoming (ls l) = (f, n) # rest" by (cases "incoming (ls l)") auto
    from handle_linked [OF l assms(2) this, of now] False q Handle show ?thesis by metis
  qed
next
  case (Hang_up sender)
  then show ?thesis using close_linked(1) [OF l, of "lq l"] close_linked(2) [OF l] by (cases sender) auto
qed

lemma taken_grows: "\<exists>ms. taken (link_run P l es) = taken l @ ms"
proof (induction es arbitrary: l)
  case (Cons e es)
  have "\<exists>ms. taken (link_step P e l) = taken l @ ms"
    by (cases e) (auto simp: Let_def split: prod.splits list.splits)
  then show ?case using Cons [of "link_step P e l"] by auto
qed simp

lemma run_linked:
  assumes "aead_lawful (paead P)" "paired q s" "0 \<le> csequence q" "linked P q s bound A I L U l"
    and "list_all (carries P q bound) (taken (link_run P l es))" "list_all drawn es"
  shows "(\<exists>A I L U. linked P q s bound A I L U (link_run P l es)) \<and>
    (open_ends l \<longrightarrow> smooth P l es \<longrightarrow> open_ends (link_run P l es))"
  using assms(4-6)
proof (induction es arbitrary: l A I L U)
  case (Cons e es)
  have c: "list_all (carries P q bound) (taken l)" using taken_grows [of P l "e # es"] Cons.prems(2) by auto
  have e: "drawn e" using Cons.prems(3) by simp
  note st = step_linked [OF assms(1-3) Cons.prems(1) c e]
  then obtain A' I' L' U' where "linked P q s bound A' I' L' U' (link_step P e l)" by blast
  from Cons.IH [OF this] Cons.prems(2,3) st show ?case by simp
qed auto

lemma next_event:
  assumes "aead_lawful (paead P)" "paired q s" and l: "linked P q s bound A I L U l" and c: "list_all (carries P q bound) (taken l)"
    and o: "open_ends l" and "\<not> drained l" "length random = 32" "0 \<le> n" "n \<le> 2 * int MAX_ROOM_PLAINTEXT"
  obtains e A' I' L' U' where "e = Handle now \<or> e = Arrive n \<or> e = Pump random Write_ok" "smooth_event e l"
    "linked P q s bound A' I' L' U' (link_step P e l)" "open_ends (link_step P e l)" "taken (link_step P e l) = taken l"
    "length I' + 2 * length L' + 3 * length U' < length I + 2 * length L + 3 * length U"
proof -
  consider (handle) f b rest where "incoming (ls l) = (f, b) # rest"
    | (arrive) f fs where "incoming (ls l) = []" "flight l = f # fs"
    | (pump) j rest where "sends (lq l) = j # rest"
    using assms(6) by (cases "incoming (ls l)"; cases "flight l"; cases "sends (lq l)") (auto simp: drained_def)
  then show ?thesis
  proof cases
    case handle
    from handle_linked [OF l assms(2) this, of now] o obtain x I' where h: "I = x # I'"
      "linked P q s bound (A @ [x]) I' L U (link_step P (Handle now) l)" "\<not> cclosed (ls (link_step P (Handle now) l))" by metis
    show ?thesis by (rule that [OF _ _ h(2)]) (use h(1,3) o in simp_all)
  next
    case arrive
    obtain x L' where a: "L = x # L'" "linked P q s bound A (I @ [x]) L' U (link_step P (Arrive n) l)"
      by (rule arrive_linked [OF l arrive(2)])
    have "pendingFrames (ls l) = 0 \<and> pendingBytes (ls l) = 0" using l o arrive(1) by (simp add: linked_def recv_ok_def)
    then have s: "smooth_event (Arrive n) l" using assms(8,9) by simp
    from arrive_open [OF s] o have "\<not> cclosed (ls (link_step P (Arrive n) l))" by blast
    then show ?thesis by (intro that [OF _ s a(2)]) (use a(1) o arrive(2) in simp_all)
  next
    case pump
    from pump_linked [OF assms(1,2) l c this _ assms(7), of Write_ok] o obtain x U' where p: "U = x # U'"
      "linked P q s bound A I (L @ [x]) U' (link_step P (Pump random Write_ok) l)"
      "\<not> cclosed (lq (link_step P (Pump random Write_ok) l))" by metis
    show ?thesis by (rule that [OF _ _ p(2)]) (use p(1,3) o in \<open>simp_all add: Let_def\<close>)
  qed
qed

lemma drains:
  assumes "aead_lawful (paead P)" "paired q s" "linked P q s bound A I L U l" "list_all (carries P q bound) (taken l)"
    and "open_ends l" "length random = 32" "0 \<le> n" "n \<le> 2 * int MAX_ROOM_PLAINTEXT"
  shows "\<exists>es. set es \<subseteq> {Handle now, Arrive n, Pump random Write_ok} \<and> smooth P l es \<and> drained (link_run P l es) \<and>
    taken (link_run P l es) = taken l"
  using assms(3-5)
proof (induction "length I + 2 * length L + 3 * length U" arbitrary: l A I L U rule: less_induct)
  case less
  show ?case
  proof (cases "drained l")
    case True
    then show ?thesis by (intro exI [of _ "[]"]) simp
  next
    case False
    obtain e A' I' L' U' where e: "e = Handle now \<or> e = Arrive n \<or> e = Pump random Write_ok" "smooth_event e l"
      and k: "linked P q s bound A' I' L' U' (link_step P e l)" "open_ends (link_step P e l)" "taken (link_step P e l) = taken l"
      and m: "length I' + 2 * length L' + 3 * length U' < length I + 2 * length L + 3 * length U"
      by (rule next_event [OF assms(1,2) less.prems False assms(6-8)])
    obtain es where es: "set es \<subseteq> {Handle now, Arrive n, Pump random Write_ok}" "smooth P (link_step P e l) es"
      "drained (link_run P (link_step P e l) es)" "taken (link_run P (link_step P e l) es) = taken l"
      using less.hyps [OF m k(1) _ k(2)] less.prems(2) k(3) by auto
    show ?thesis by (rule exI [of _ "e # es"]) (use e es in auto)
  qed
qed

definition fresh_link :: "SecureRoomChannel \<Rightarrow> SecureRoomChannel \<Rightarrow> link" where
  "fresh_link q s = \<lparr>lq = q, ls = s, flight = [], taken = []\<rparr>"

lemma fresh_linked: "in_step q s bound \<Longrightarrow> linked P q s bound [] [] [] [] (fresh_link q s)"
  by (simp add: fresh_link_def linked_def in_step_def recv_ok_def send_ok_def half_def top_def job_frags_def channel_verified_def)

lemma linked_prefix:
  assumes "linked P q s bound A I L U l"
  shows "\<exists>k. delivered (ls l) = delivered s @ map snd (take k (taken l))"
proof -
  have "taken l = map (\<lambda>(m, d, i). (m, d)) (filter final A) @ map (\<lambda>(m, d, i). (m, d)) (filter final (I @ L @ U))"
    using final_frags [of "taken l"] assms by (simp add: linked_def)
  then have t: "take (length (filter final A)) (taken l) = map (\<lambda>(m, d, i). (m, d)) (filter final A)" by simp
  have "delivered (ls l) = delivered s @ map snd (take (length (filter final A)) (taken l))"
    using assms unfolding t linked_def by (simp add: case_prod_unfold)
  then show ?thesis by (rule exI)
qed

lemma drained_all:
  assumes "linked P q s bound A I L U l" "open_ends l" "drained l"
  shows "delivered (ls l) = delivered s @ map snd (taken l)" "results (lq l) = results q @ map (\<lambda>(m, d). (m, Sent_ok)) (taken l)"
proof -
  have e: "I = [] \<and> L = [] \<and> U = []" using assms by (auto simp: linked_def drained_def recv_ok_def send_ok_def job_frags_def)
  then have t: "taken l = map (\<lambda>(m, d, i). (m, d)) (filter final A)" using final_frags [of "taken l"] assms(1) by (simp add: linked_def)
  show "delivered (ls l) = delivered s @ map snd (taken l)" "results (lq l) = results q @ map (\<lambda>(m, d). (m, Sent_ok)) (taken l)"
    using assms(1,2) e unfolding t by (simp_all add: linked_def send_ok_def case_prod_unfold)
qed

lemma takes_within_limits:
  assumes "linked P q s bound A I L U l" "open_ends l"
  shows "fst (trySend (lq l) d) = None \<longleftrightarrow> length d \<le> MAX_ROOM_MESSAGE \<and> csequence (lq l) + int (fragments_of d) \<le> MAX_SAFE_INTEGER \<and>
    length (sends (lq l)) < 32 \<and> sum_list (map (int \<circ> length \<circ> jcopy) (sends (lq l))) + int (length d) \<le> 4 * int MAX_ROOM_PLAINTEXT"
proof -
  have "send_ok q bound (taken l) (A @ I @ L) U (lq l)" using assms by (simp add: linked_def)
  then have f: "channel_verified (lq l)" "outgoingFrames (lq l) = int (length (sends (lq l)))"
    "outgoingBytes (lq l) = sum_list (map (int \<circ> length \<circ> jcopy) (sends (lq l)))"
    using assms(2) by (simp_all add: send_ok_def channel_verified_def)
  have "fst (trySend (lq l) d) = None \<longleftrightarrow> \<not> (MAX_ROOM_MESSAGE < length d \<or> MAX_SAFE_INTEGER - int (fragments_of d) < csequence (lq l) \<or>
      32 \<le> outgoingFrames (lq l) \<or> 4 * int MAX_ROOM_PLAINTEXT < outgoingBytes (lq l) + int (length d))"
    unfolding trySend_def Let_def using f(1) by simp
  then show ?thesis unfolding f(2,3) by linarith
qed

text \<open>C5: what a room channel takes it carries over whole, once and in the order sent. Take the two verified
  ends of a session at rest, on a platform whose JSON gives the fragment bodies back, and let messages be
  offered to \<^verbatim>\<open>trySend\<close>, fragments be written, frames arrive in the order written, received frames be handled and the ends be
  closed, interleaved in any way, with any number of messages queued at once. At every moment the receiving
  end has handed over, after what it had before, exactly a prefix of the taken messages, in the
  order taken. If nobody closes, every write succeeds and the receiver is not overrun (a frame of more than
  2 MiB, 32 frames or 4 MiB waiting), then neither end closes; \<^verbatim>\<open>trySend\<close> takes a message just when it has at most 4
  MiB, sequence numbers are left, fewer than 32 messages wait and the waiting bytes stay
  within the limit, and refuses it otherwise; and writing, arriving and handling alone lead to a
  state with nothing left, in which all the taken messages have been handed over and every
  \<^verbatim>\<open>trySend\<close> that took one has answered that it was sent.\<close>

theorem channel_roundtrip:
  assumes "aead_lawful (paead P)" and "in_step q s bound" and "list_all drawn es"
    and "l = link_run P (fresh_link q s) es" and "list_all (carries P q bound) (taken l)"
    and "length random = 32" and "0 \<le> n" and "n \<le> 2 * int MAX_ROOM_PLAINTEXT"
  shows "(\<exists>k. delivered (ls l) = delivered s @ map snd (take k (taken l))) \<and>
    (smooth P (fresh_link q s) es \<longrightarrow> open_ends l \<and>
      (fst (trySend (lq l) d) = None \<longleftrightarrow> length d \<le> MAX_ROOM_MESSAGE \<and> csequence (lq l) + int (fragments_of d) \<le> MAX_SAFE_INTEGER \<and>
        length (sends (lq l)) < 32 \<and> sum_list (map (int \<circ> length \<circ> jcopy) (sends (lq l))) + int (length d) \<le> 4 * int MAX_ROOM_PLAINTEXT) \<and>
      (\<exists>es'. set es' \<subseteq> {Handle now, Arrive n, Pump random Write_ok} \<and> smooth P l es' \<and> drained (link_run P l es') \<and>
        delivered (ls (link_run P l es')) = delivered s @ map snd (taken l) \<and>
        results (lq (link_run P l es')) = results q @ map (\<lambda>(m, d). (m, Sent_ok)) (taken l)))"
proof -
  have p: "paired q s" "0 \<le> csequence q" "open_ends (fresh_link q s)"
    using assms(2) by (simp_all add: in_step_def fresh_link_def channel_verified_def)
  note run = run_linked [OF assms(1) p(1,2)]
  obtain A I L U where k: "linked P q s bound A I L U l" and o: "smooth P (fresh_link q s) es \<Longrightarrow> open_ends l"
    using run [OF fresh_linked [OF assms(2)] _ assms(3)] assms(4,5) p(3) by blast
  have c: "\<exists>es'. set es' \<subseteq> {Handle now, Arrive n, Pump random Write_ok} \<and> smooth P l es' \<and> drained (link_run P l es') \<and>
        delivered (ls (link_run P l es')) = delivered s @ map snd (taken l) \<and>
        results (lq (link_run P l es')) = results q @ map (\<lambda>(m, d). (m, Sent_ok)) (taken l)" if ends: "open_ends l"
  proof -
    obtain es' where es': "set es' \<subseteq> {Handle now, Arrive n, Pump random Write_ok}" "smooth P l es'" "drained (link_run P l es')"
      "taken (link_run P l es') = taken l" using drains [OF assms(1) p(1) k assms(5) ends assms(6-8)] by blast
    have "list_all drawn es'" using es'(1) assms(6) by (auto simp: list_all_iff)
    then obtain A' I' L' U' where "linked P q s bound A' I' L' U' (link_run P l es')" "open_ends (link_run P l es')"
      using run [OF k] assms(5) es'(2,4) ends by metis
    from drained_all [OF this es'(3)] es' show ?thesis by auto
  qed
  show ?thesis using linked_prefix [OF k] takes_within_limits [OF k] o c by blast
qed

section \<open>An instance\<close>

definition demo_end :: "string \<Rightarrow> string \<Rightarrow> role \<Rightarrow> SecureRoomChannel" where
  "demo_end me peer r = \<lparr>ckeys = demo_envelope_keys, clocal = me, cremote = peer,
     csession = \<lparr>skeys = RoomKeys.truncate demo_envelope_keys, srole = r, sstate = Verified,
       transcript = \<lparr>troom = ''rd2_x'', initiator = ''alice'', responder = ''bob'', initiatorChallenge = ''1'',
         responderChallenge = ''2''\<rparr>, sdeadline = 10000\<rparr>,
     creplay = new_window, csessionId = replicate 43 CHR ''A'', csequence = 0, cclosed = False,
     cestablished = True, receivedSession = None, incoming = [], pendingBytes = 0,
     pendingFrames = 0, sends = [], outgoingBytes = 0, outgoingFrames = 0, cassembly = None,
     cready = Ready_resolved, written = [], delivered = [], results = []\<rparr>"

abbreviation demo_alice :: SecureRoomChannel where "demo_alice \<equiv> demo_end ''alice'' ''bob'' Initiator"
abbreviation demo_bob :: SecureRoomChannel where "demo_bob \<equiv> demo_end ''bob'' ''alice'' Responder"

definition demo_body :: js_value where
  "demo_body = fragment_body demo_alice ''1.2'' 0 [7, 8] 0"

definition demo_platform :: room_platform where
  "demo_platform = \<lparr>pcrypto = demo_crypto, paead = demo_aead, enc_body = \<lambda>_. [1], dec_body = \<lambda>_. Some demo_body\<rparr>"

definition demo_frame :: js_value where
  "demo_frame = frame_of (projr (sealRoomEnvelope demo_aead demo_envelope_keys ''alice'' ''direct'' (replicate 32 9) [1]))"

lemma demo_bindings: "binding (csession demo_alice) = Inr ''1.2''" "binding (csession demo_bob) = Inr ''1.2''"
  by (simp_all add: demo_end_def binding_def verified_def)

lemma demo_authentic: "authentic demo_platform demo_bob demo_alice ''1.2'' [(0, [7, 8])] f"
proof -
  have "body = demo_body" if "open_frame demo_platform demo_bob f = Inr body" for body
    using that by (auto simp: open_frame_def demo_platform_def split: sum.splits if_splits)
  moreover have "genuine demo_alice ''1.2'' [(0, [7, 8])] demo_body"
    by (simp add: genuine_def demo_body_def fragments_of_def CHUNK_BYTES_def)
  ultimately show ?thesis by (auto simp: authentic_def split: sum.splits)
qed

theorem channel_delivers_whole_once_witness:
  "\<exists>ks. distinct ks \<and> set ks \<subseteq> set [(0 :: int, [7, 8])] \<and>
     delivered (channel_run demo_platform demo_bob
       [Receive demo_frame 400, Process Write_ok 1, Receive demo_frame 400, Process Write_ok 2]) = map snd ks"
proof (rule channel_delivers_whole_once [where bound = "''1.2''" and q = demo_alice])
  show "just_established demo_bob ''1.2''"
    using demo_bindings by (simp add: just_established_def demo_end_def)
qed (simp_all add: demo_authentic)

definition demo_events :: "link_event list" where
  "demo_events = [Offer [7, 8], Pump (replicate 32 9) Write_ok, Arrive 400]"

lemma demo_link: "taken (link_run demo_platform (fresh_link demo_alice demo_bob) demo_events) = [(0, [7, 8])]"
  by (simp add: demo_events_def fresh_link_def trySend_def channel_verified_def demo_end_def Let_def fragments_of_def CHUNK_BYTES_def
      MAX_ROOM_MESSAGE_def MAX_ROOM_PLAINTEXT_def split: list.split)

theorem channel_roundtrip_witness:
  "\<exists>es'. set es' \<subseteq> {Handle 1, Arrive 400, Pump (replicate 32 9) Write_ok} \<and>
     delivered (ls (link_run demo_platform (link_run demo_platform (fresh_link demo_alice demo_bob) demo_events) es')) = [[7, 8]]"
proof -
  let ?l = "link_run demo_platform (fresh_link demo_alice demo_bob) demo_events"
  have a: "aead_lawful (paead demo_platform)" using demo_aead_lawful by (simp add: demo_platform_def)
  have i: "in_step demo_alice demo_bob ''1.2''"
    using demo_bindings
    by (simp add: in_step_def demo_end_def channel_verified_def paired_def token43_def in_shape_def list_all_iff kind_ok_def new_window_def)
  have d: "list_all drawn demo_events" by (simp add: demo_events_def)
  have c: "list_all (carries demo_platform demo_alice ''1.2'') (taken ?l)"
    unfolding demo_link by (simp add: carries_def demo_platform_def demo_body_def fragments_of_def CHUNK_BYTES_def MAX_ROOM_PLAINTEXT_def)
  have s: "smooth demo_platform (fresh_link demo_alice demo_bob) demo_events"
    by (simp add: demo_events_def fresh_link_def trySend_def channel_verified_def demo_end_def Let_def
        MAX_ROOM_MESSAGE_def MAX_ROOM_PLAINTEXT_def)
  have r: "length (replicate 32 (9 :: byte)) = 32" "(0 :: int) \<le> 400" "400 \<le> 2 * int MAX_ROOM_PLAINTEXT"
    by (simp_all add: MAX_ROOM_PLAINTEXT_def)
  have b: "delivered demo_bob = []" by (simp add: demo_end_def)
  from channel_roundtrip [OF a i d refl c r, where now = 1] s show ?thesis unfolding demo_link b by auto
qed

theorem error_ends_channel_witness:
  "cclosed (process_next demo_platform (receive_frame demo_bob JNull 4) Write_ok 1) \<and>
   cassembly (process_next demo_platform (receive_frame demo_bob JNull 4) Write_ok 1) = None \<and>
   \<not> verified (csession (process_next demo_platform (receive_frame demo_bob JNull 4) Write_ok 1)) \<and>
   delivered (channel_run demo_platform (process_next demo_platform (receive_frame demo_bob JNull 4) Write_ok 1) [Send [1]]) =
     delivered (receive_frame demo_bob JNull 4) \<and>
   written (channel_run demo_platform (process_next demo_platform (receive_frame demo_bob JNull 4) Write_ok 1) [Send [1]]) =
     written (receive_frame demo_bob JNull 4) \<and>
   fst (trySend (channel_run demo_platform (process_next demo_platform (receive_frame demo_bob JNull 4) Write_ok 1) [Send [1]]) [2]) =
     Some Unsent"
proof (rule error_ends_channel)
  show "incoming (receive_frame demo_bob JNull 4) = (JNull, 4) # []"
    by (simp add: receive_frame_def demo_end_def MAX_ROOM_PLAINTEXT_def)
  show "process_job demo_platform (receive_frame demo_bob JNull 4) JNull 4 Write_ok 1 = Inl Not_opened"
    by (simp add: process_job_def open_frame_def receive_frame_def demo_end_def MAX_ROOM_PLAINTEXT_def)
qed

end
