(* ===== verification/Room_Openings.thy ===== *)
theory Room_Openings
  imports Prelude "HOL-Library.Multiset"
begin

text \<open>
  Turns at opening room channels, \<^verbatim>\<open>frontend/src/lib/transport/libp2p/room-openings.ts\<close>.

  A caller of \<^verbatim>\<open>enter\<close> is a number; what its promise resolves to is entered in \<open>answers\<close>: a turn,
  or \<^verbatim>\<open>null\<close>. The release function a turn carries closes over the generation it was handed out
  in and over \<^verbatim>\<open>ended\<close>: it is a \<open>turn\<close>, named by its place in the list of all turns handed out.
\<close>

record turn =
  tgeneration :: nat
  ended :: bool

record RoomOpenings =
  active :: int
  queue :: "nat list"
  generation :: nat
  turns :: "turn list"
  answers :: "(nat \<times> nat option) list"
  entered :: nat

definition new_openings :: RoomOpenings where
  "new_openings = \<lparr>active = 0, queue = [], generation = 0, turns = [], answers = [], entered = 0\<rparr>"

definition take_turn :: "RoomOpenings \<Rightarrow> nat \<times> RoomOpenings" where
  "take_turn r = (length (turns r), r\<lparr>active := active r + 1,
     turns := turns r @ [\<lparr>tgeneration = generation r, ended = False\<rparr>]\<rparr>)"

definition tryEnter :: "nat \<Rightarrow> RoomOpenings \<Rightarrow> nat option \<times> RoomOpenings" where
  "tryEnter concurrent r =
     (if active r < int concurrent then (let (t, r') = take_turn r in (Some t, r')) else (None, r))"

definition answer_to :: "nat \<Rightarrow> nat option \<Rightarrow> RoomOpenings \<Rightarrow> RoomOpenings" where
  "answer_to c a r = r\<lparr>answers := answers r @ [(c, a)]\<rparr>"

definition enter :: "nat \<Rightarrow> nat \<Rightarrow> RoomOpenings \<Rightarrow> RoomOpenings" where
  \<comment> \<open>the caller is the number \<open>entered r\<close>\<close>
  "enter concurrent queued r =
     (let c = entered r; r0 = r\<lparr>entered := c + 1\<rparr> in
      case tryEnter concurrent r0 of
        (Some t, r1) \<Rightarrow> answer_to c (Some t) r1
      | (None, r1) \<Rightarrow>
          if queued \<le> length (queue r1) then answer_to c None r1 else r1\<lparr>queue := queue r1 @ [c]\<rparr>)"

definition clear_openings :: "RoomOpenings \<Rightarrow> RoomOpenings" where
  "clear_openings r = r\<lparr>generation := generation r + 1, active := 0, queue := [],
     answers := answers r @ map (\<lambda>c. (c, None)) (queue r)\<rparr>"

definition waiting :: "RoomOpenings \<Rightarrow> nat" where
  "waiting r = length (queue r)"

definition full :: "nat \<Rightarrow> nat \<Rightarrow> RoomOpenings \<Rightarrow> bool" where
  "full concurrent queued r \<longleftrightarrow> int concurrent \<le> active r \<and> queued \<le> length (queue r)"

definition end_turn :: "nat \<Rightarrow> RoomOpenings \<Rightarrow> RoomOpenings" where
  \<comment> \<open>a call of the release function of turn \<open>t\<close>\<close>
  "end_turn t r =
     (if length (turns r) \<le> t \<or> ended (turns r ! t) then r
      else
        let r1 = r\<lparr>turns := (turns r)[t := (turns r ! t)\<lparr>ended := True\<rparr>]\<rparr> in
        if tgeneration (turns r ! t) \<noteq> generation r then r1
        else
          let r2 = r1\<lparr>active := active r1 - 1\<rparr> in
          (case queue r2 of
             [] \<Rightarrow> r2
           | c # rest \<Rightarrow> (let (t', r3) = take_turn (r2\<lparr>queue := rest\<rparr>) in answer_to c (Some t') r3)))"

section \<open>Runs\<close>

datatype opening_event = Enter | Try | End_turn nat | Clear

fun opening_step :: "nat \<Rightarrow> nat \<Rightarrow> RoomOpenings \<Rightarrow> opening_event \<Rightarrow> RoomOpenings" where
  "opening_step concurrent queued r Enter = enter concurrent queued r"
| "opening_step concurrent queued r Try = snd (tryEnter concurrent r)"
| "opening_step concurrent queued r (End_turn t) = end_turn t r"
| "opening_step concurrent queued r Clear = clear_openings r"

abbreviation opening_run :: "nat \<Rightarrow> nat \<Rightarrow> RoomOpenings \<Rightarrow> opening_event list \<Rightarrow> RoomOpenings" where
  "opening_run concurrent queued \<equiv> foldl (opening_step concurrent queued)"

definition live_turns :: "RoomOpenings \<Rightarrow> nat" where
  \<comment> \<open>turns of this generation whose holder has not ended them\<close>
  "live_turns r = length (filter (\<lambda>t. tgeneration t = generation r \<and> \<not> ended t) (turns r))"

definition openings_ok :: "nat \<Rightarrow> nat \<Rightarrow> RoomOpenings \<Rightarrow> bool" where
  "openings_ok concurrent queued r \<longleftrightarrow>
     active r = int (live_turns r) \<and> live_turns r \<le> concurrent \<and> length (queue r) \<le> queued \<and>
     (queue r \<noteq> [] \<longrightarrow> live_turns r = concurrent) \<and>
     list_all (\<lambda>t. tgeneration t \<le> generation r) (turns r) \<and>
     mset (map fst (answers r) @ queue r) = mset [0..<entered r] \<and> sorted (queue r) \<and>
     (\<forall>c \<in> set (queue r). \<forall>d t. (d, Some t) \<in> set (answers r) \<longrightarrow> d < c)"


lemma new_openings_ok: "openings_ok concurrent queued new_openings"
  by (simp add: openings_ok_def new_openings_def live_turns_def)

lemma live_take: "live_turns (snd (take_turn r)) = live_turns r + 1"
  by (simp add: live_turns_def take_turn_def)

lemma live_turns_cong [simp]:
  "live_turns (r\<lparr>active := a\<rparr>) = live_turns r" "live_turns (r\<lparr>queue := q\<rparr>) = live_turns r"
  "live_turns (r\<lparr>answers := b\<rparr>) = live_turns r" "live_turns (r\<lparr>entered := n\<rparr>) = live_turns r"
  by (simp_all add: live_turns_def)

lemma queue_entered: "openings_ok concurrent queued r \<Longrightarrow> c \<in> set (queue r) \<or> c \<in> fst ` set (answers r) \<Longrightarrow> c < entered r"
  unfolding openings_ok_def by (elim conjE, drule mset_eq_setD) (auto simp: set_eq_iff)

lemma try_ok: "openings_ok concurrent queued r \<Longrightarrow> openings_ok concurrent queued (snd (tryEnter concurrent r))"
  by (auto simp: openings_ok_def tryEnter_def take_turn_def live_turns_def Let_def)

lemma enter_ok:
  assumes ok: "openings_ok concurrent queued r"
  shows "openings_ok concurrent queued (enter concurrent queued r)"
proof (cases "active r < int concurrent")
  case True
  then have q: "queue r = []" using ok by (auto simp: openings_ok_def)
  have "enter concurrent queued r = (snd (take_turn r))\<lparr>entered := entered r + 1,
      answers := answers r @ [(entered r, Some (length (turns r)))]\<rparr>"
    using True by (simp add: enter_def tryEnter_def take_turn_def answer_to_def Let_def)
  then show ?thesis using ok True q live_take [of r]
    by (simp add: openings_ok_def take_turn_def)
next
  case False
  have e: "enter concurrent queued r =
      (if queued \<le> length (queue r) then r\<lparr>entered := entered r + 1, answers := answers r @ [(entered r, None)]\<rparr>
       else r\<lparr>entered := entered r + 1, queue := queue r @ [entered r]\<rparr>)"
    using False by (simp add: enter_def tryEnter_def answer_to_def Let_def)
  have "\<forall>c \<in> set (queue r). c < entered r" "\<forall>x \<in> set (answers r). fst x < entered r"
    using queue_entered [OF ok] by auto
  then have lt: "c < entered r" if "c \<in> set (queue r) \<or> (c, a) \<in> set (answers r)" for c a
    using that by fastforce
  have l: "live_turns r = concurrent" using ok False by (auto simp: openings_ok_def)
  show ?thesis
  proof (cases "queued \<le> length (queue r)")
    case True
    then show ?thesis using ok unfolding e by (auto simp: openings_ok_def)
  next
    case False
    then show ?thesis using ok l lt unfolding e
      by (auto simp: openings_ok_def sorted_append less_imp_le)
  qed
qed

lemma end_turn_ok:
  assumes ok: "openings_ok concurrent queued r"
  shows "openings_ok concurrent queued (end_turn t r)"
proof (cases "length (turns r) \<le> t \<or> ended (turns r ! t)")
  case True
  then show ?thesis using ok by (simp add: end_turn_def)
next
  case False
  let ?ts = "(turns r)[t := (turns r ! t)\<lparr>ended := True\<rparr>]"
  let ?P = "\<lambda>x. tgeneration x = generation r \<and> \<not> ended x"
  have gens: "list_all (\<lambda>x. tgeneration x \<le> generation r) ?ts"
    using ok False by (auto simp: openings_ok_def list_all_iff dest!: set_update_subset_insert [THEN subsetD])
  show ?thesis
  proof (cases "tgeneration (turns r ! t) = generation r")
    case old: False
    then have "length (filter ?P ?ts) = length (filter ?P (turns r))"
      using False by (intro filter_update_other) auto
    then have "live_turns (r\<lparr>turns := ?ts\<rparr>) = live_turns r" by (simp add: live_turns_def)
    then show ?thesis using ok False old gens by (simp add: end_turn_def openings_ok_def)
  next
    case True
    have "Suc (length (filter ?P ?ts)) = length (filter ?P (turns r))"
      using False True by (intro filter_update) auto
    then have live: "Suc (live_turns (r\<lparr>turns := ?ts\<rparr>)) = live_turns r" by (simp add: live_turns_def)
    show ?thesis
    proof (cases "queue r")
      case Nil
      then show ?thesis using ok False True gens live by (simp add: end_turn_def openings_ok_def)
    next
      case (Cons c rest)
      have e: "end_turn t r = r\<lparr>turns := ?ts @ [\<lparr>tgeneration = generation r, ended = False\<rparr>], queue := rest,
          answers := answers r @ [(c, Some (length (turns r)))]\<rparr>"
        using False True Cons by (simp add: end_turn_def take_turn_def answer_to_def)
      have l: "live_turns (end_turn t r) = live_turns r" using live by (simp add: e live_turns_def)
      have d: "distinct (queue r)"
        using ok unfolding openings_ok_def by (metis distinct_append distinct_upt mset_eq_imp_distinct_iff)
      have "sorted (queue r)" using ok by (simp add: openings_ok_def)
      with d Cons have "\<forall>x \<in> set rest. c < x" by (auto simp: order_less_le)
      then show ?thesis using ok l gens Cons unfolding openings_ok_def e by auto
    qed
  qed
qed

lemma clear_ok: "openings_ok concurrent queued r \<Longrightarrow> openings_ok concurrent queued (clear_openings r)"
proof -
  assume ok: "openings_ok concurrent queued r"
  have "filter (\<lambda>t. tgeneration t = Suc (generation r) \<and> \<not> ended t) (turns r) = []"
    using ok by (auto simp: openings_ok_def list_all_iff filter_empty_conv)
  then have "live_turns (clear_openings r) = 0" by (simp add: live_turns_def clear_openings_def)
  with ok show ?thesis by (auto simp: openings_ok_def clear_openings_def list_all_iff comp_def intro: le_SucI)
qed

lemma openings_run_ok:
  "openings_ok concurrent queued r \<Longrightarrow> openings_ok concurrent queued (opening_run concurrent queued r es)"
proof (induction es arbitrary: r)
  case (Cons e es)
  have "openings_ok concurrent queued (opening_step concurrent queued r e)"
    using Cons.prems by (cases e) (simp_all add: enter_ok try_ok end_turn_ok clear_ok)
  with Cons.IH show ?case by simp
qed simp


text \<open>The turns are counted right and handed out in order: in every run of entries, attempts, releases
  (repeated, or of turns from before a clear) and clears, the count is the number of turns
  still held, never above the limit; no place is left empty while someone waits; every caller is either
  answered once or waiting once; and a waiting caller is never passed over for a later one.\<close>

theorem openings_fair:
  "openings_ok concurrent queued (opening_run concurrent queued new_openings es)"
  by (rule openings_run_ok [OF new_openings_ok])

end
