(* ===== verification/Diag_Ring.thy ===== *)
theory Diag_Ring
  imports Prelude "HOL-Library.Sublist"
begin

text \<open>
  The flight recorder: the event builder of \<^verbatim>\<open>frontend/src/lib/telemetry/event.ts\<close> and the
  bounded ring of \<^verbatim>\<open>frontend/src/lib/telemetry/ring.ts\<close>.

  The ring is refined by a log of everything it was given to write: what a snapshot shows is the end
  of that log, and nothing that was pushed goes uncounted. The table of severities and the
  budgets are arguments; times are whole milliseconds.
\<close>

definition MAX_DETAIL_KEYS :: nat where "MAX_DETAIL_KEYS = 12"
definition MAX_DETAIL_STRING :: nat where "MAX_DETAIL_STRING = 200"

record diag_body =
  kind :: string
  sev :: string
  peer :: "string option"
  droom :: "string option"
  detail :: "(string, js_value) jsmap option"

record DiagEvent = diag_body +
  seq :: nat
  at_ms :: int

fun coerce :: "js_value \<Rightarrow> js_value option" where
  "coerce JNull = Some JNull"
| "coerce JUndefined = None"
| "coerce (JStr s) = Some (JStr (take MAX_DETAIL_STRING s))"
| "coerce (JNum (JInt i)) = Some (JNum (JInt i))"
| "coerce (JNum (JNonInt t)) = Some (if not_finite t then JNull else JNum (JNonInt t))"
| "coerce (JBool b) = Some (JBool b)"
| "coerce (JArr _) = Some (JStr ''[object Array]'')"
| "coerce (JObj _) = Some (JStr ''[object Object]'')"

fun detail_loop :: "nat \<Rightarrow> (string, js_value) jsmap \<Rightarrow> (string \<times> js_value) list \<Rightarrow> nat \<times> (string, js_value) jsmap" where
  "detail_loop n out [] = (n, out)"
| "detail_loop n out ((k, raw) # d) =
     (if MAX_DETAIL_KEYS \<le> n then (n, out)
      else case coerce raw of
             None \<Rightarrow> detail_loop n out d
           | Some v \<Rightarrow> detail_loop (n + 1) (js_set out (take MAX_DETAIL_STRING k) v) d)"

definition ev ::
  "(string \<Rightarrow> string option) \<Rightarrow> string \<Rightarrow> js_value \<Rightarrow> js_value \<Rightarrow> string option \<Rightarrow> (string \<times> js_value) list option \<Rightarrow> diag_body"
where
  "ev kind_sev k p r s d =
     \<lparr>kind = k,
      sev = (case s of Some x \<Rightarrow> if x \<noteq> [] then x else (case kind_sev k of None \<Rightarrow> ''info'' | Some y \<Rightarrow> y)
             | None \<Rightarrow> (case kind_sev k of None \<Rightarrow> ''info'' | Some y \<Rightarrow> y)),
      peer = (case p of JStr x \<Rightarrow> Some x | _ \<Rightarrow> None),
      droom = (case r of JStr x \<Rightarrow> Some x | _ \<Rightarrow> None),
      detail = (case d of
                  None \<Rightarrow> None
                | Some m \<Rightarrow> (let (n, out) = detail_loop 0 [] m in if 0 < n then Some out else None))\<rparr>"

section \<open>The ring\<close>

definition RING_CAPACITY :: nat where "RING_CAPACITY = 4096"
definition WINDOW_MS :: int where "WINDOW_MS = 1000"
definition DEFAULT_BUDGET :: nat where "DEFAULT_BUDGET = 20"
definition ERROR_BUDGET :: nat where "ERROR_BUDGET = 60"

definition KIND_BUDGET :: "(string, nat) jsmap" where
  "KIND_BUDGET = [(''app.msg.in'', 5), (''app.msg.out'', 5), (''file.progress'', 2), (''voice.ice.state'', 5),
     (''peer.rtt'', 2), (''voice.media.sample'', 4), (''runtime.error'', 5), (''runtime.resources'', 2)]"

record DiagRing =
  capacity :: nat
  buf :: "DiagEvent option list"
  rhead :: nat
  rcount :: nat
  dropped :: nat
  nextSeq :: nat
  suppressed :: "(string, nat) jsmap"
  rpending :: "(string, nat) jsmap option"
  pendingWindow :: int
  windows :: "(string, int \<times> nat) jsmap"
  budgets :: "(string, nat) jsmap"

record RingSnapshot =
  events :: "DiagEvent list"
  sdropped :: nat
  ssuppressed :: "(string, nat) jsmap"
  snextSeq :: nat

definition new_ring :: "int \<Rightarrow> (string, nat) jsmap \<Rightarrow> DiagRing" where
  \<comment> \<open>\<^verbatim>\<open>Math.max(1, Math.floor(capacity))\<close>, of a whole number\<close>
  "new_ring cap bud =
     (let c = nat (max 1 cap) in
      \<lparr>capacity = c, buf = replicate c None, rhead = 0, rcount = 0, dropped = 0, nextSeq = 1,
       suppressed = [], rpending = None, pendingWindow = -1, windows = [], budgets = bud\<rparr>)"

definition write_event :: "DiagRing \<Rightarrow> diag_body \<Rightarrow> int \<Rightarrow> DiagRing" where
  "write_event r body t =
     (let full = (rcount r = capacity r) in
      r\<lparr>dropped := (if full then dropped r + 1 else dropped r),
        buf := (buf r)[rhead r := Some (diag_body.extend body (DiagEvent.fields (nextSeq r) t))],
        nextSeq := nextSeq r + 1,
        rhead := (rhead r + 1) mod capacity r,
        rcount := (if full then rcount r else rcount r + 1)\<rparr>)"

definition budget_of :: "DiagRing \<Rightarrow> diag_body \<Rightarrow> nat" where
  "budget_of r e = (case js_get (budgets r) (kind e) of
       Some b \<Rightarrow> b
     | None \<Rightarrow> if sev e = ''error'' then ERROR_BUDGET else DEFAULT_BUDGET)"

definition window_of :: "DiagRing \<Rightarrow> string \<Rightarrow> int \<Rightarrow> int \<times> nat" where
  "window_of r k now = (case js_get (windows r) k of
       None \<Rightarrow> (now, 0)
     | Some (start, n) \<Rightarrow> if WINDOW_MS \<le> now - start then (now, 0) else (start, n))"

definition bump :: "(string, nat) jsmap \<Rightarrow> string \<Rightarrow> (string, nat) jsmap" where
  "bump m k = js_set m k (js_get_or 0 m k + 1)"

definition announce :: "(string \<Rightarrow> string option) \<Rightarrow> DiagRing \<Rightarrow> int \<Rightarrow> int \<Rightarrow> DiagRing" where
  "announce kind_sev r t now =
     (case rpending r of
        Some counts \<Rightarrow>
          if WINDOW_MS \<le> now - pendingWindow r
          then write_event (r\<lparr>rpending := None, pendingWindow := -1\<rparr>)
                 (ev kind_sev ''meta.suppressed'' JUndefined JUndefined None
                    (Some (map (\<lambda>(k, n). (k, JNum (JInt (int n)))) counts))) t
          else r
      | None \<Rightarrow> r)"

definition push_event :: "(string \<Rightarrow> string option) \<Rightarrow> DiagRing \<Rightarrow> diag_body \<Rightarrow> int \<Rightarrow> int \<Rightarrow> bool \<times> DiagRing" where
  "push_event kind_sev r e t now =
     (let w = window_of r (kind e) now in
      if budget_of r e \<le> snd w then
        (False, r\<lparr>windows := js_set (windows r) (kind e) w,
                  suppressed := bump (suppressed r) (kind e),
                  rpending := Some (bump (case rpending r of None \<Rightarrow> [] | Some p \<Rightarrow> p) (kind e)),
                  pendingWindow := fst w\<rparr>)
      else
        (True, write_event (announce kind_sev (r\<lparr>windows := js_set (windows r) (kind e) (fst w, snd w + 1)\<rparr>) t now) e t))"

definition snapshot :: "DiagRing \<Rightarrow> RingSnapshot" where
  "snapshot r =
     (let start = (if rcount r < capacity r then 0 else rhead r) in
      \<lparr>events = concat (map (\<lambda>i. case buf r ! ((start + i) mod capacity r) of None \<Rightarrow> [] | Some e \<Rightarrow> [e]) [0..<rcount r]),
       sdropped = dropped r, ssuppressed = suppressed r, snextSeq = nextSeq r\<rparr>)"

definition reset_ring :: "DiagRing \<Rightarrow> DiagRing" where
  "reset_ring r = r\<lparr>buf := replicate (capacity r) None, rhead := 0, rcount := 0, dropped := 0, nextSeq := 1,
     suppressed := [], rpending := None, pendingWindow := -1, windows := []\<rparr>"

section \<open>The log it stands for\<close>

definition ring_rel :: "DiagRing \<Rightarrow> DiagEvent list \<Rightarrow> bool" where
  "ring_rel r log \<longleftrightarrow> 0 < capacity r \<and> length (buf r) = capacity r \<and> map seq log = [1..<length log + 1] \<and>
     nextSeq r = length log + 1 \<and> rhead r = length log mod capacity r \<and>
     rcount r = min (length log) (capacity r) \<and> dropped r = length log - capacity r \<and>
     (\<forall>j < length log. length log \<le> j + capacity r \<longrightarrow> buf r ! (j mod capacity r) = Some (log ! j))"

lemma new_ring_rel: "ring_rel (new_ring cap bud) []"
  by (simp add: ring_rel_def new_ring_def Let_def)

lemma reset_ring_rel: "ring_rel r log \<Longrightarrow> ring_rel (reset_ring r) []"
  by (simp add: ring_rel_def reset_ring_def)

lemma mod_distinct:
  assumes "(j :: nat) < n" "n < j + c" shows "j mod c \<noteq> n mod c"
proof
  assume "j mod c = n mod c"
  then have "c dvd n - j" using assms(1) by (metis less_imp_le mod_eq_dvd_iff_nat)
  then have "c \<le> n - j" using assms(1) by (simp add: dvd_imp_le)
  then show False using assms by simp
qed

lemma write_event_rel:
  assumes "ring_rel r log"
  shows "ring_rel (write_event r body t) (log @ [diag_body.extend body (DiagEvent.fields (length log + 1) t)])"
proof -
  let ?e = "diag_body.extend body (DiagEvent.fields (length log + 1) t)"
  have s: "seq ?e = length log + 1" by (simp add: diag_body.extend_def DiagEvent.fields_def)
  have b: "(buf r)[length log mod capacity r := Some ?e] ! (j mod capacity r) = Some ((log @ [?e]) ! j)"
    if "j < length log + 1" "length log + 1 \<le> j + capacity r" for j
    using assms that mod_distinct [of j "length log" "capacity r"]
    by (cases "j = length log") (auto simp: ring_rel_def nth_append)
  show ?thesis using assms b s
    by (auto simp: ring_rel_def write_event_def Let_def mod_Suc_eq min_def)
qed

lemma snapshot_log:
  assumes "ring_rel r log"
  shows "snapshot r = \<lparr>events = drop (length log - capacity r) log, sdropped = length log - capacity r,
    ssuppressed = suppressed r, snextSeq = length log + 1\<rparr>"
proof -
  let ?n = "length log" and ?c = "capacity r"
  let ?start = "if rcount r < ?c then 0 else rhead r"
  have start: "(?start + i) mod ?c = (?n - ?c + i) mod ?c" for i
  proof (cases "?n < ?c")
    case False
    then have "?n mod ?c = (?n - ?c) mod ?c" by (simp add: le_mod_geq)
    then show ?thesis using assms False by (simp add: ring_rel_def mod_add_left_eq)
  qed (use assms in \<open>simp add: ring_rel_def\<close>)
  have "concat (map (\<lambda>i. case buf r ! ((?start + i) mod ?c) of None \<Rightarrow> [] | Some e \<Rightarrow> [e]) [0..<rcount r]) =
      concat (map (\<lambda>i. [log ! (?n - ?c + i)]) [0..<min ?n ?c])"
    using assms unfolding start by (intro arg_cong [of _ _ concat] map_cong) (auto simp: ring_rel_def)
  also have "\<dots> = drop (?n - ?c) log" by (intro nth_equalityI) (auto simp: concat_map_singleton)
  finally show ?thesis using assms by (simp add: snapshot_def Let_def ring_rel_def)
qed


section \<open>Runs\<close>

type_synonym push_call = "diag_body \<times> int \<times> int"

fun ring_run :: "(string \<Rightarrow> string option) \<Rightarrow> DiagRing \<Rightarrow> push_call list \<Rightarrow> diag_body list \<times> DiagRing" where
  \<comment> \<open>the events let through, and the ring after the calls\<close>
  "ring_run kind_sev r [] = ([], r)"
| "ring_run kind_sev r ((e, t, now) # ps) =
     (let (ok, r1) = push_event kind_sev r e t now; (es, r2) = ring_run kind_sev r1 ps in
      (if ok then e # es else es, r2))"

definition of_kind :: "string \<Rightarrow> diag_body list \<Rightarrow> nat" where
  "of_kind k es = length (filter (\<lambda>e. kind e = k) es)"

abbreviation own_events :: "DiagEvent list \<Rightarrow> diag_body list" where
  \<comment> \<open>the log without the ring's own announcements\<close>
  "own_events log \<equiv> filter (\<lambda>e. kind e \<noteq> ''meta.suppressed'') (map diag_body.truncate log)"

lemma truncate_extend [simp]: "diag_body.truncate (diag_body.extend b (DiagEvent.fields n t)) = b"
  by (simp add: diag_body.truncate_def diag_body.extend_def)

lemma ring_rel_cong:
  "ring_rel (r\<lparr>windows := w\<rparr>) log = ring_rel r log" "ring_rel (r\<lparr>suppressed := s\<rparr>) log = ring_rel r log"
  "ring_rel (r\<lparr>rpending := p\<rparr>) log = ring_rel r log" "ring_rel (r\<lparr>pendingWindow := q\<rparr>) log = ring_rel r log"
  by (simp_all add: ring_rel_def)

lemma write_event_rest [simp]:
  "suppressed (write_event r b t) = suppressed r" "capacity (write_event r b t) = capacity r"
  by (simp_all add: write_event_def Let_def)

lemma announce_rest [simp]:
  "suppressed (announce ks r t now) = suppressed r" "capacity (announce ks r t now) = capacity r"
  by (simp_all add: announce_def split: option.split)

lemma announce_rel:
  assumes "ring_rel r log"
  shows "\<exists>log'. ring_rel (announce ks r t now) (log @ log') \<and> own_events log' = []"
proof -
  let ?b = "\<lambda>c. ev ks ''meta.suppressed'' JUndefined JUndefined None (Some (map (\<lambda>(k, n). (k, JNum (JInt (int n)))) c))"
  have "ring_rel (announce ks r t now) (log @ [diag_body.extend (?b c) (DiagEvent.fields (length log + 1) t)])"
    if "rpending r = Some c" "WINDOW_MS \<le> now - pendingWindow r" for c
    using that assms write_event_rel [of "r\<lparr>rpending := None, pendingWindow := -1\<rparr>" log "?b c" t]
    by (simp add: announce_def ring_rel_cong)
  moreover have "own_events [diag_body.extend (?b c) (DiagEvent.fields (length log + 1) t)] = []" for c
    by (simp add: ev_def)
  moreover have "ring_rel (announce ks r t now) (log @ [])"
    if "rpending r = None \<or> \<not> WINDOW_MS \<le> now - pendingWindow r"
    using that assms by (auto simp: announce_def split: option.splits)
  ultimately show ?thesis
    by (cases "rpending r"; cases "WINDOW_MS \<le> now - pendingWindow r") (blast | (rule exI [of _ "[]"], simp))+
qed

lemma push_event_rel:
  assumes r: "ring_rel r log" and e: "kind e \<noteq> ''meta.suppressed''" and p: "push_event ks r e t now = (ok, r')"
  shows "\<exists>log'. ring_rel r' (log @ log') \<and> own_events log' = (if ok then [e] else []) \<and> capacity r' = capacity r \<and>
    suppressed r' = (if ok then suppressed r else bump (suppressed r) (kind e))"
proof (cases ok)
  case True
  let ?r = "r\<lparr>windows := js_set (windows r) (kind e) (fst (window_of r (kind e) now), snd (window_of r (kind e) now) + 1)\<rparr>"
  have r': "r' = write_event (announce ks ?r t now) e t"
    using p True by (simp add: push_event_def Let_def split: if_splits)
  obtain l where l: "ring_rel (announce ks ?r t now) (log @ l)" "own_events l = []"
    using announce_rel [of ?r log ks t now] r by (auto simp: ring_rel_cong)
  let ?l = "l @ [diag_body.extend e (DiagEvent.fields (length (log @ l) + 1) t)]"
  have "own_events ?l = [e]" using l(2) e by simp
  moreover have "ring_rel r' (log @ ?l)" using write_event_rel [OF l(1), of e t] unfolding r' by simp
  ultimately show ?thesis using True r' by (intro exI [of _ ?l]) simp
next
  case False
  then show ?thesis using p r by (intro exI [of _ "[]"]) (auto simp: push_event_def Let_def ring_rel_cong split: if_splits)
qed

lemma ring_run_rel:
  assumes "ring_rel r log" and "list_all (\<lambda>(e, t, now). kind e \<noteq> ''meta.suppressed'') ps"
    and "ring_run ks r ps = (es, r')"
  shows "\<exists>log'. ring_rel r' (log @ log') \<and> own_events log' = es \<and> capacity r' = capacity r \<and>
    (\<forall>k. js_get_or 0 (suppressed r') k + of_kind k es = js_get_or 0 (suppressed r) k + of_kind k (map fst ps))"
  using assms
proof (induction ps arbitrary: r log es)
  case Nil
  then show ?case by (intro exI [of _ "[]"]) auto
next
  case (Cons p ps)
  obtain e t now where p: "p = (e, t, now)" by (metis prod_cases3)
  obtain ok r1 where p1: "push_event ks r e t now = (ok, r1)" by force
  obtain es1 where e1: "ring_run ks r1 ps = (es1, r')" "es = (if ok then e # es1 else es1)"
    using Cons.prems(3) by (auto simp: p p1 split: prod.splits)
  obtain l1 where l1: "ring_rel r1 (log @ l1)" "own_events l1 = (if ok then [e] else [])" "capacity r1 = capacity r"
      "suppressed r1 = (if ok then suppressed r else bump (suppressed r) (kind e))"
    using push_event_rel [OF Cons.prems(1) _ p1] Cons.prems(2) p by auto
  obtain l2 where l2: "ring_rel r' ((log @ l1) @ l2)" "own_events l2 = es1" "capacity r' = capacity r1"
      "\<forall>k. js_get_or 0 (suppressed r') k + of_kind k es1 = js_get_or 0 (suppressed r1) k + of_kind k (map fst ps)"
    using Cons.IH [OF l1(1) _ e1(1)] Cons.prems(2) by auto
  have step: "js_get_or 0 (suppressed r1) k + (if ok \<and> kind e = k then 1 else 0) =
      js_get_or 0 (suppressed r) k + (if kind e = k then 1 else 0)" for k
    by (simp add: l1(4) bump_def js_get_or_def)
  have "js_get_or 0 (suppressed r') k + of_kind k es = js_get_or 0 (suppressed r) k + of_kind k (map fst (p # ps))" for k
    using l2(4) [THEN spec, of k] step [of k] by (cases ok; cases "kind e = k") (simp_all add: e1(2) p of_kind_def)
  then show ?case using l1 l2 e1(2) by (intro exI [of _ "l1 @ l2"]) auto
qed

text \<open>The recorder loses nothing silently: after any pushes, a snapshot holds the newest events of a log
  that numbers everything written from 1 on, oldest first, as many as the ring has room for, and says
  how many older ones it dropped; that log without the ring's own announcements is exactly the events
  that were let through, in order; and of each kind, the events let through and the ones counted as
  suppressed add up to the events pushed.\<close>

theorem recorder_accounts_for_everything:
  assumes "list_all (\<lambda>(e, t, now). kind e \<noteq> ''meta.suppressed'') ps"
    and "ring_run ks (new_ring cap bud) ps = (es, r)"
  shows "\<exists>log. map seq log = [1..<length log + 1] \<and> own_events log = es \<and>
     snapshot r = \<lparr>events = drop (length log - nat (max 1 cap)) log, sdropped = length log - nat (max 1 cap),
       ssuppressed = suppressed r, snextSeq = length log + 1\<rparr> \<and>
     (\<forall>k. js_get_or 0 (suppressed r) k + of_kind k es = of_kind k (map fst ps))"
proof -
  obtain log where log: "ring_rel r log" "own_events log = es" "capacity r = capacity (new_ring cap bud)"
    "\<forall>k. js_get_or 0 (suppressed r) k + of_kind k es =
         js_get_or 0 (suppressed (new_ring cap bud)) k + of_kind k (map fst ps)"
    using ring_run_rel [OF new_ring_rel assms] by auto
  then show ?thesis using snapshot_log [OF log(1)]
    by (intro exI [of _ log]) (simp add: ring_rel_def new_ring_def Let_def js_get_or_def)
qed

definition demo_event :: diag_body where
  "demo_event = \<lparr>kind = ''peer.rtt'', sev = ''info'', peer = None, droom = None, detail = None\<rparr>"

theorem recorder_accounts_for_everything_witness:
  "\<exists>log. map seq log = [1..<length log + 1] \<and>
     own_events log = fst (ring_run (\<lambda>_. None) (new_ring 2 KIND_BUDGET) (map (\<lambda>i. (demo_event, i, i)) [0, 1, 2, 2000])) \<and>
     snapshot (snd (ring_run (\<lambda>_. None) (new_ring 2 KIND_BUDGET) (map (\<lambda>i. (demo_event, i, i)) [0, 1, 2, 2000]))) =
       \<lparr>events = drop (length log - nat (max 1 2)) log, sdropped = length log - nat (max 1 2),
        ssuppressed = suppressed (snd (ring_run (\<lambda>_. None) (new_ring 2 KIND_BUDGET) (map (\<lambda>i. (demo_event, i, i)) [0, 1, 2, 2000]))),
        snextSeq = length log + 1\<rparr> \<and>
     (\<forall>k. js_get_or 0 (suppressed (snd (ring_run (\<lambda>_. None) (new_ring 2 KIND_BUDGET) (map (\<lambda>i. (demo_event, i, i)) [0, 1, 2, 2000])))) k +
          of_kind k (fst (ring_run (\<lambda>_. None) (new_ring 2 KIND_BUDGET) (map (\<lambda>i. (demo_event, i, i)) [0, 1, 2, 2000]))) =
        of_kind k (map fst (map (\<lambda>i. (demo_event, i, i)) [0, 1, 2, 2000 :: int])))"
  by (rule recorder_accounts_for_everything [OF _ prod.collapse [symmetric]]) (simp add: demo_event_def)

end
