(* ===== verification/Typing.thy ===== *)
theory Typing
  imports Js_Strings
begin

text \<open>
  Typing indicators, \<^verbatim>\<open>frontend/src/lib/typing.ts\<close>: the timing of the sender, the
  composer's announcer, the table of typers on the receiving side, and the line that is shown.
  Frames handed to the transport are a log. The ellipsis of the line, U+2026, is outside the model's
  strings and an argument.
\<close>

definition TYPING_SEND_INTERVAL_MS :: int where "TYPING_SEND_INTERVAL_MS = 3000"
definition TYPING_TTL_MS :: int where "TYPING_TTL_MS = 6000"
definition TYPING_MAX_NAMES :: nat where "TYPING_MAX_NAMES = 3"
definition MAX_TYPERS_PER_ROOM :: nat where "MAX_TYPERS_PER_ROOM = 64"

section \<open>Sending\<close>

datatype TypingAction = Start | Stop | Nothing

record TypingSender =
  active :: bool
  lastSent :: int

definition new_sender :: TypingSender where
  "new_sender = \<lparr>active = False, lastSent = 0\<rparr>"

definition sender_reset :: "TypingSender \<Rightarrow> bool \<times> TypingSender" where
  "sender_reset s = (active s, \<lparr>active = False, lastSent = 0\<rparr>)"

definition sender_input :: "TypingSender \<Rightarrow> bool \<Rightarrow> int \<Rightarrow> TypingAction \<times> TypingSender" where
  "sender_input s hasText now =
     (if \<not> hasText then (let (was, s') = sender_reset s in (if was then Stop else Nothing, s'))
      else if active s \<and> now - lastSent s < TYPING_SEND_INTERVAL_MS then (Nothing, s)
      else (Start, s\<lparr>active := True, lastSent := now\<rparr>))"

record 't TypingAnnouncer =
  sender :: TypingSender
  target :: "'t option"
  frames :: "('t \<times> bool) list"

definition new_announcer :: "'t TypingAnnouncer" where
  "new_announcer = \<lparr>sender = new_sender, target = None, frames = []\<rparr>"

definition announcer_stop :: "'t TypingAnnouncer \<Rightarrow> 't TypingAnnouncer" where
  "announcer_stop a = a\<lparr>sender := snd (sender_reset (sender a)),
     frames := (case target a of None \<Rightarrow> frames a | Some t \<Rightarrow> frames a @ [(t, False)]),
     target := None\<rparr>"

definition announcer_input :: "'t TypingAnnouncer \<Rightarrow> bool \<Rightarrow> int \<Rightarrow> 't option \<Rightarrow> 't TypingAnnouncer" where
  \<comment> \<open>the last argument is what \<^verbatim>\<open>resolve()\<close> says when it is asked\<close>
  "announcer_input a hasText now to =
     (let (action, s) = sender_input (sender a) hasText now; a1 = a\<lparr>sender := s\<rparr> in
      case action of
        Stop \<Rightarrow> announcer_stop a1
      | Nothing \<Rightarrow> a1
      | Start \<Rightarrow> (case to of
            None \<Rightarrow> a1\<lparr>sender := snd (sender_reset s)\<rparr>
          | Some t \<Rightarrow> a1\<lparr>target := Some t, frames := frames a1 @ [(t, True)]\<rparr>))"

section \<open>Receiving\<close>

type_synonym TypingTracker = "(string, (string, int) jsmap) jsmap"

definition tracker_clear :: "TypingTracker \<Rightarrow> string \<Rightarrow> string \<Rightarrow> bool \<times> TypingTracker" where
  "tracker_clear rooms room did =
     (case js_get rooms room of
        None \<Rightarrow> (False, rooms)
      | Some typers \<Rightarrow>
          if js_get typers did = None then (False, rooms)
          else (let typers' = js_delete typers did in
                (True, if typers' = [] then js_delete rooms room else js_set rooms room typers')))"

definition note_typing :: "TypingTracker \<Rightarrow> string \<Rightarrow> string \<Rightarrow> bool \<Rightarrow> int \<Rightarrow> bool \<times> TypingTracker" where
  "note_typing rooms room did typing now =
     (if \<not> typing then tracker_clear rooms room did
      else
        let typers = (case js_get rooms room of None \<Rightarrow> [] | Some ts \<Rightarrow> ts) in
        if js_get typers did \<noteq> None then (False, js_set rooms room (js_set typers did (now + TYPING_TTL_MS)))
        else if MAX_TYPERS_PER_ROOM \<le> length typers then (False, js_set rooms room typers)
        else (True, js_set rooms room (js_set typers did (now + TYPING_TTL_MS))))"

definition prune :: "TypingTracker \<Rightarrow> int \<Rightarrow> bool \<times> TypingTracker" where
  "prune rooms now =
     (list_ex (\<lambda>(room, typers). list_ex (\<lambda>(did, expires). expires \<le> now) typers) rooms,
      filter (\<lambda>(room, typers). typers \<noteq> [])
        (map (\<lambda>(room, typers). (room, filter (\<lambda>(did, expires). now < expires) typers)) rooms))"

definition typers :: "TypingTracker \<Rightarrow> string \<Rightarrow> int \<Rightarrow> string list" where
  "typers rooms room now =
     (case js_get rooms room of
        None \<Rightarrow> []
      | Some ts \<Rightarrow> map fst (filter (\<lambda>(did, expires). now < expires) ts))"

definition nextExpiry :: "TypingTracker \<Rightarrow> int option" where
  "nextExpiry rooms =
     fold (\<lambda>expires next. case next of None \<Rightarrow> Some expires | Some n \<Rightarrow> if expires < n then Some expires else Some n)
       (concat (map (map snd \<circ> snd) rooms)) None"

definition clearAll :: "TypingTracker \<Rightarrow> bool \<times> TypingTracker" where
  "clearAll rooms = (rooms \<noteq> [], [])"

definition typingLine :: "string \<Rightarrow> string list \<Rightarrow> string option" where
  "typingLine ellipsis names =
     (let n = length names in
      if n = 0 then None
      else if n = 1 then Some (hd names @ '' is typing'' @ ellipsis)
      else if TYPING_MAX_NAMES < n then Some (show_nat n @ '' people are typing'' @ ellipsis)
      else Some (js_join '', '' (butlast names) @ '' and '' @ last names @ '' are typing'' @ ellipsis))"

section \<open>The table\<close>

definition tracker_ok :: "TypingTracker \<Rightarrow> bool" where
  "tracker_ok rooms \<longleftrightarrow> js_wf rooms \<and>
     list_all (\<lambda>(room, ts). js_wf ts \<and> ts \<noteq> [] \<and> length ts \<le> MAX_TYPERS_PER_ROOM) rooms"

datatype typing_event = Note string string bool int | Clear string string | Prune int | Clear_all

fun typing_step :: "TypingTracker \<Rightarrow> typing_event \<Rightarrow> TypingTracker" where
  "typing_step r (Note room did typing now) = snd (note_typing r room did typing now)"
| "typing_step r (Clear room did) = snd (tracker_clear r room did)"
| "typing_step r (Prune now) = snd (prune r now)"
| "typing_step r Clear_all = snd (clearAll r)"

lemma tracker_ok_set:
  "tracker_ok r \<Longrightarrow> js_wf ts \<Longrightarrow> ts \<noteq> [] \<Longrightarrow> length ts \<le> MAX_TYPERS_PER_ROOM \<Longrightarrow> tracker_ok (js_set r room ts)"
  unfolding tracker_ok_def by (auto simp: list_all_iff js_wf_set dest!: set_js_set [THEN subsetD])

lemma tracker_ok_get:
  "tracker_ok r \<Longrightarrow> js_get r room = Some ts \<Longrightarrow> js_wf ts \<and> ts \<noteq> [] \<and> length ts \<le> MAX_TYPERS_PER_ROOM"
  unfolding tracker_ok_def by (auto simp: list_all_iff dest!: map_of_SomeD)

lemma tracker_ok_delete: "tracker_ok r \<Longrightarrow> tracker_ok (js_delete r room)"
  by (auto simp: tracker_ok_def list_all_iff AList.delete_eq)


lemma note_ok: "tracker_ok r \<Longrightarrow> tracker_ok (snd (note_typing r room did typing now))"
proof (cases "js_get r room")
  case None
  assume "tracker_ok r"
  with None show ?thesis
    by (auto simp: note_typing_def tracker_clear_def Let_def MAX_TYPERS_PER_ROOM_def js_wf_def intro!: tracker_ok_set)
next
  case (Some ts)
  assume ok: "tracker_ok r"
  note get = tracker_ok_get [OF ok Some]
  have del: "length (js_delete ts did) \<le> MAX_TYPERS_PER_ROOM"
    using get by (auto simp: length_js_delete)
  have "js_set ts did x \<noteq> []" for x by (cases ts) auto
  with get del ok Some show ?thesis
    by (auto simp: note_typing_def tracker_clear_def Let_def intro!: tracker_ok_set tracker_ok_delete)
qed

lemma tracker_clear_ok: "tracker_ok r \<Longrightarrow> tracker_ok (snd (tracker_clear r room did))"
  using note_ok [of r room did False 0] by (simp add: note_typing_def)

lemma prune_ok: "tracker_ok r \<Longrightarrow> tracker_ok (snd (prune r now))"
proof -
  assume ok: "tracker_ok r"
  have "js_wf (map (\<lambda>(room, ts). (room, filter (\<lambda>(did, x). now < x) ts)) r)"
    using ok by (simp add: tracker_ok_def js_wf_def comp_def case_prod_unfold)
  moreover have "length ts \<le> MAX_TYPERS_PER_ROOM \<and> js_wf ts" if "(room, ts) \<in> set r" for room ts
    using that ok by (auto simp: tracker_ok_def list_all_iff)
  ultimately show ?thesis
    by (auto simp: prune_def tracker_ok_def list_all_iff intro!: js_wf_filter intro: le_trans [OF length_filter_le])
qed

lemma typing_run_ok: "tracker_ok r \<Longrightarrow> tracker_ok (foldl typing_step r es)"
proof (induction es arbitrary: r)
  case (Cons e es)
  have "tracker_ok []" by (simp add: tracker_ok_def)
  then have "tracker_ok (typing_step r e)"
    using Cons.prems by (cases e) (simp_all add: note_ok tracker_clear_ok prune_ok clearAll_def)
  with Cons.IH show ?case by simp
qed simp

lemma prune_shows_the_same: "tracker_ok r \<Longrightarrow> typers (snd (prune r now)) room now = typers r room now"
proof -
  assume ok: "tracker_ok r"
  let ?f = "\<lambda>ts :: (string, int) jsmap. filter (\<lambda>(did, x). now < x) ts"
  have wf: "js_wf (map (\<lambda>(room, ts). (room, ?f ts)) r)"
    using ok by (simp add: tracker_ok_def js_wf_def comp_def case_prod_unfold)
  have "js_get (map (\<lambda>(room, ts). (room, ?f ts)) r) room = map_option ?f (js_get r room)"
    by (simp add: map_of_map)
  then show ?thesis
    unfolding typers_def prune_def snd_conv js_get_filter [OF wf]
    by (cases "js_get r room") auto
qed

section \<open>From the keyboard to the line\<close>

fun burst :: "TypingSender \<Rightarrow> int list \<Rightarrow> int list" where
  \<comment> \<open>the times of the \<^verbatim>\<open>start\<close> frames while text is typed at these times\<close>
  "burst s [] = []"
| "burst s (t # ts) = (let (a, s') = sender_input s True t in (if a = Start then [t] else []) @ burst s' ts)"

fun paced :: "int \<Rightarrow> int list \<Rightarrow> bool" where
  "paced g (t # u # ts) \<longleftrightarrow> t \<le> u \<and> u \<le> t + g \<and> paced g (u # ts)"
| "paced g _ \<longleftrightarrow> True"

lemma burst_active:
  assumes "active s" "lastSent s = l"
  shows "burst s (t # ts) = (if t < l + TYPING_SEND_INTERVAL_MS then burst s ts else t # burst (s\<lparr>lastSent := t\<rparr>) ts)"
  using assms by (cases s) (auto simp: sender_input_def)

lemma burst_spaced:
  "active s \<Longrightarrow> sorted_wrt (\<lambda>a b. a + TYPING_SEND_INTERVAL_MS \<le> b) (burst s ts) \<and>
     list_all (\<lambda>f. lastSent s + TYPING_SEND_INTERVAL_MS \<le> f) (burst s ts)"
proof (induction ts arbitrary: s)
  case (Cons t ts)
  let ?s = "s\<lparr>lastSent := t\<rparr>"
  show ?case
  proof (cases "t < lastSent s + TYPING_SEND_INTERVAL_MS")
    case True
    then show ?thesis using Cons by (simp add: burst_active del: burst.simps(2))
  next
    case False
    then show ?thesis using Cons.IH [of ?s] Cons.prems
      by (auto simp: burst_active list_all_iff TYPING_SEND_INTERVAL_MS_def simp del: burst.simps(2))
  qed
qed simp

lemma burst_dense:
  assumes "active s" "lastSent s \<le> p" "p < lastSent s + TYPING_SEND_INTERVAL_MS"
    and "paced TYPING_SEND_INTERVAL_MS (p # ts)"
    and "lastSent s \<le> x" "x < last (p # ts) + TYPING_SEND_INTERVAL_MS"
  shows "\<exists>f \<in> insert (lastSent s) (set (burst s ts)). f \<le> x \<and> x < f + TYPING_TTL_MS"
  using assms
proof (induction ts arbitrary: s p)
  case Nil
  then show ?case by (auto simp: TYPING_TTL_MS_def TYPING_SEND_INTERVAL_MS_def)
next
  case (Cons t ts)
  have t: "p \<le> t" "t \<le> p + TYPING_SEND_INTERVAL_MS" "paced TYPING_SEND_INTERVAL_MS (t # ts)" using Cons.prems(4) by auto
  have x: "x < last (t # ts) + TYPING_SEND_INTERVAL_MS" using Cons.prems(6) by simp
  let ?s = "s\<lparr>lastSent := t\<rparr>"
  show ?case
  proof (cases "t < lastSent s + TYPING_SEND_INTERVAL_MS")
    case True
    have "lastSent s \<le> t" using Cons.prems(2) t(1) by linarith
    from Cons.IH [OF Cons.prems(1) this True t(3) Cons.prems(5) x] show ?thesis
      using True Cons.prems(1) by (simp add: burst_active del: burst.simps(2))
  next
    case False
    show ?thesis
    proof (cases "t \<le> x")
      case late: True
      have "\<exists>f \<in> insert t (set (burst ?s ts)). f \<le> x \<and> x < f + TYPING_TTL_MS"
        using Cons.IH [of ?s t, OF _ _ _ t(3) _ x] late Cons.prems(1) by (simp add: TYPING_SEND_INTERVAL_MS_def)
      then show ?thesis using False Cons.prems(1) by (auto simp: burst_active simp del: burst.simps(2))
    next
      case early: False
      then show ?thesis using Cons.prems(3,5) t(2) by (auto simp: TYPING_TTL_MS_def TYPING_SEND_INTERVAL_MS_def)
    qed
  qed
qed

abbreviation hear :: "string \<Rightarrow> string \<Rightarrow> TypingTracker \<Rightarrow> int list \<Rightarrow> TypingTracker" where
  "hear room did \<equiv> foldl (\<lambda>r a. snd (note_typing r room did True a))"

definition expiry_of :: "TypingTracker \<Rightarrow> string \<Rightarrow> string \<Rightarrow> int option" where
  "expiry_of r room did = (case js_get r room of None \<Rightarrow> None | Some ts \<Rightarrow> js_get ts did)"

lemma note_expiry:
  assumes "expiry_of r room did \<noteq> None \<or> length (js_get_or [] r room) < MAX_TYPERS_PER_ROOM"
  shows "expiry_of (snd (note_typing r room did True a)) room did = Some (a + TYPING_TTL_MS)"
  using assms by (auto simp: note_typing_def expiry_of_def js_get_or_def Let_def split: option.splits)

lemma hear_expiry:
  assumes "as \<noteq> []" "expiry_of r room did \<noteq> None \<or> length (js_get_or [] r room) < MAX_TYPERS_PER_ROOM"
  shows "expiry_of (hear room did r as) room did = Some (last as + TYPING_TTL_MS)"
  using assms
proof (induction as arbitrary: r)
  case (Cons a as)
  note n = note_expiry [OF Cons.prems(2), of a]
  show ?case
  proof (cases as)
    case Nil
    then show ?thesis using n by simp
  next
    case (Cons b bs)
    then show ?thesis using Cons.IH [of "snd (note_typing r room did True a)"] n by simp
  qed
qed simp

lemma in_typers: "expiry_of r room did = Some x \<Longrightarrow> now < x \<Longrightarrow> did \<in> set (typers r room now)"
  by (force simp: expiry_of_def typers_def dest: map_of_SomeD split: option.splits)

lemma not_in_typers: "tracker_ok r \<Longrightarrow> expiry_of r room did = Some x \<Longrightarrow> x \<le> now \<Longrightarrow> did \<notin> set (typers r room now)"
  by (auto simp: expiry_of_def typers_def js_wf_def dest!: tracker_ok_get split: option.splits)

lemma burst_first: "burst new_sender (t # ts) = t # burst \<lparr>active = True, lastSent = t\<rparr> ts"
  by (simp add: new_sender_def sender_input_def)

lemma last_filter_ge:
  fixes x :: int
  assumes "sorted_wrt (<) fs" "f \<in> set fs" "f \<le> x"
  shows "f \<le> last (filter (\<lambda>y. y \<le> x) fs)"
  using assms
proof (induction fs rule: rev_induct)
  case (snoc y ys)
  then show ?case by (cases "y \<le> x") (auto simp: sorted_wrt_append less_imp_le)
qed simp

text \<open>Someone who keeps typing stays listed: when no pause between keystrokes is longer than the send
  interval and the frames take a constant time to arrive, the typist is in the receiver's list from the
  first frame's arrival until three seconds after the last keystroke's, provided the room's
  table had a place for them; the sender sends few enough frames and the receiver waits long enough
  for each other.\<close>

theorem typist_stays_listed:
  assumes "paced TYPING_SEND_INTERVAL_MS (t # ts)" and "length (js_get_or [] rooms room) < MAX_TYPERS_PER_ROOM"
    and "t + delay \<le> now" and "now < last (t # ts) + delay + TYPING_SEND_INTERVAL_MS"
  shows "did \<in> set (typers (hear room did rooms
           (map (\<lambda>f. f + delay) (filter (\<lambda>f. f + delay \<le> now) (burst new_sender (t # ts))))) room now)"
proof -
  let ?fs = "burst new_sender (t # ts)" and ?x = "now - delay"
  let ?arrived = "filter (\<lambda>f. f + delay \<le> now) ?fs"
  have eq: "?arrived = filter (\<lambda>f. f \<le> ?x) ?fs" by (intro filter_cong) auto
  have "sorted_wrt (\<lambda>a b. a + TYPING_SEND_INTERVAL_MS \<le> b) ?fs"
    using burst_spaced [of "\<lparr>active = True, lastSent = t\<rparr>" ts] by (simp add: burst_first list_all_iff del: burst.simps)
  then have sorted: "sorted_wrt (<) ?fs"
    by (rule sorted_wrt_mono_rel [rotated]) (simp add: TYPING_SEND_INTERVAL_MS_def)
  obtain f where f: "f \<in> set ?fs" "f \<le> ?x" "?x < f + TYPING_TTL_MS"
  proof -
    have "?x < last (t # ts) + TYPING_SEND_INTERVAL_MS" "t \<le> ?x" "t < t + TYPING_SEND_INTERVAL_MS"
      using assms(3,4) by (simp_all add: TYPING_SEND_INTERVAL_MS_def)
    then show ?thesis
      using burst_dense [of "\<lparr>active = True, lastSent = t\<rparr>" t ts ?x] assms(1) that by (auto simp: burst_first simp del: burst.simps)
  qed
  have ne: "?arrived \<noteq> []" unfolding filter_empty_conv using f(1,2) by force
  have "f \<le> last ?arrived" unfolding eq by (rule last_filter_ge [OF sorted f(1,2)])
  moreover have "expiry_of (hear room did rooms (map (\<lambda>f. f + delay) ?arrived)) room did = Some (last ?arrived + delay + TYPING_TTL_MS)"
    using hear_expiry [of "map (\<lambda>f. f + delay) ?arrived" rooms room did] ne assms(2) by (simp add: last_map)
  ultimately show ?thesis using f(3) by (intro in_typers) auto
qed

theorem typist_stays_listed_witness:
  "''did:a'' \<in> set (typers (hear ''r'' ''did:a'' []
     (map (\<lambda>f. f + 40) (filter (\<lambda>f. f + 40 \<le> 7000) (burst new_sender [0, 2500, 4000, 6500])))) ''r'' 7000)"
  by (rule typist_stays_listed)
    (simp_all add: TYPING_SEND_INTERVAL_MS_def MAX_TYPERS_PER_ROOM_def js_get_or_def)

text \<open>A lost frame does blink the line off: by the time the frame after a lost one arrives, the frame
  before it has expired.\<close>

theorem lost_frame_blinks:
  assumes "tracker_ok rooms" and "length (js_get_or [] rooms room) < MAX_TYPERS_PER_ROOM"
    and "burst new_sender ts = xs @ a # lost # c # ys"
  shows "did \<notin> set (typers (hear room did rooms [a + delay]) room (c + delay))"
proof -
  obtain t us where ts: "ts = t # us" using assms(3) by (cases ts) auto
  have "sorted_wrt (\<lambda>a b. a + TYPING_SEND_INTERVAL_MS \<le> b) (xs @ a # lost # c # ys)"
    using burst_spaced [of "\<lparr>active = True, lastSent = t\<rparr>" us] unfolding assms(3) [symmetric] ts
    by (simp add: burst_first list_all_iff del: burst.simps)
  then have "a + TYPING_TTL_MS \<le> c"
    by (simp add: sorted_wrt_append TYPING_SEND_INTERVAL_MS_def TYPING_TTL_MS_def)
  moreover have "expiry_of (hear room did rooms [a + delay]) room did = Some (a + delay + TYPING_TTL_MS)"
    using hear_expiry [of "[a + delay]" rooms room did] assms(2) by simp
  ultimately show ?thesis
    by (intro not_in_typers) (auto simp: note_ok assms(1))
qed

theorem lost_frame_blinks_witness:
  "''did:a'' \<notin> set (typers (hear ''room'' ''did:a'' [] [1000 + 50]) ''room'' (7000 + 50))"
proof -
  have b: "burst new_sender [1000, 4000, 7000] = [] @ 1000 # 4000 # 7000 # []" by code_simp
  show ?thesis
    by (rule lost_frame_blinks [OF _ _ b]) (simp_all add: tracker_ok_def MAX_TYPERS_PER_ROOM_def js_get_or_def)
qed

end
