(* ===== verification/Chat_Window.thy ===== *)
theory Chat_Window
  imports Message_Order
begin

text \<open>
  Which messages of a conversation are mounted, \<^verbatim>\<open>frontend/src/lib/chat-window.ts\<close>: a window over
  the sorted list of rows in memory, held still by cursors while rows arrive at both ends underneath it.
\<close>

definition FOLLOW_ROWS :: nat where "FOLLOW_ROWS = 100"
definition MAX_ROWS :: nat where "MAX_ROWS = 200"
definition STEP_ROWS :: nat where "STEP_ROWS = 50"
definition TRIM_AT :: nat where "TRIM_AT = 400"
definition HOLD_ROWS :: nat where "HOLD_ROWS = 200"

record held_window =
  wstart :: cursor
  wend :: "cursor option"

type_synonym ChatWindow = "held_window option"

record WindowRange =
  from_row :: nat
  to_row :: nat

abbreviation cursorOf :: "'a cursor_scheme \<Rightarrow> cursor" where
  "cursorOf row \<equiv> cursor.truncate row"

fun findIndex :: "('a \<Rightarrow> bool) \<Rightarrow> 'a list \<Rightarrow> nat option" where
  "findIndex P [] = None"
| "findIndex P (x # xs) = (if P x then Some 0 else map_option Suc (findIndex P xs))"

function search :: "'a cursor_scheme list \<Rightarrow> cursor \<Rightarrow> nat \<Rightarrow> nat \<Rightarrow> nat" where
  \<comment> \<open>the loop of \<^verbatim>\<open>indexOf\<close>; \<^verbatim>\<open>(lo + hi) >> 1\<close> of list indexes\<close>
  "search list c lo hi =
     (if lo < hi then
        (let m = (lo + hi) div 2 in
         if compareMessages (cursorOf (list ! m)) c < 0 then search list c (m + 1) hi else search list c lo m)
      else lo)"
  by pat_completeness auto

termination
  by (relation "measure (\<lambda>(list, c, lo, hi). hi - lo)") auto

definition indexOf :: "'a cursor_scheme list \<Rightarrow> cursor \<Rightarrow> nat" where
  "indexOf list c = (case findIndex (\<lambda>row. mid row = mid c) list of
       Some at \<Rightarrow> at
     | None \<Rightarrow> search list c 0 (length list))"

definition windowRange :: "'a cursor_scheme list \<Rightarrow> ChatWindow \<Rightarrow> WindowRange" where
  "windowRange list window =
     (let len = length list; follow = \<lparr>from_row = len - FOLLOW_ROWS, to_row = len\<rparr> in
      case window of
        None \<Rightarrow> follow
      | Some w \<Rightarrow>
          let from' = indexOf list (wstart w);
              to0 = (case wend w of
                  None \<Rightarrow> len
                | Some c \<Rightarrow> let e = indexOf list c in if e < len \<and> mid (list ! e) = mid c then e + 1 else e);
              to1 = max from' (min to0 (from' + MAX_ROWS)) in
          if to1 = from' \<and> 0 < len then follow else \<lparr>from_row = from', to_row = to1\<rparr>)"

definition held :: "'a cursor_scheme list \<Rightarrow> nat \<Rightarrow> nat \<Rightarrow> ChatWindow" where
  "held list from' to' =
     (if length list \<le> from' then None
      else Some \<lparr>wstart = cursorOf (list ! from'),
                 wend = (if length list \<le> to' then None else Some (cursorOf (list ! max from' (to' - 1))))\<rparr>)"

definition hold :: "'a cursor_scheme list \<Rightarrow> WindowRange \<Rightarrow> ChatWindow" where
  "hold list rng = held list (from_row rng) (to_row rng)"

definition showOlder :: "'a cursor_scheme list \<Rightarrow> WindowRange \<Rightarrow> ChatWindow" where
  "showOlder list rng = (let from' = from_row rng - STEP_ROWS in held list from' (min (to_row rng) (from' + MAX_ROWS)))"

definition showNewer :: "'a cursor_scheme list \<Rightarrow> WindowRange \<Rightarrow> ChatWindow" where
  "showNewer list rng = (let to' = min (length list) (to_row rng + STEP_ROWS) in held list (max (from_row rng) (to' - MAX_ROWS)) to')"

definition around :: "'a cursor_scheme list \<Rightarrow> nat \<Rightarrow> ChatWindow" where
  \<comment> \<open>\<^verbatim>\<open>Math.max(0, Math.min(..., ...))\<close> of two differences: each cut off at 0\<close>
  "around list index = (let from' = min (index - FOLLOW_ROWS div 2) (length list - FOLLOW_ROWS) in
     held list from' (min (length list) (from' + FOLLOW_ROWS)))"

datatype JumpPlan = Show nat bool | Reveal | No_jump

definition planJump :: "'a cursor_scheme list \<Rightarrow> WindowRange \<Rightarrow> string \<Rightarrow> bool \<Rightarrow> JumpPlan" where
  "planJump list rng i revealed =
     (case findIndex (\<lambda>row. mid row = i) list of
        None \<Rightarrow> if revealed then No_jump else Reveal
      | Some index \<Rightarrow> Show index (from_row rng \<le> index \<and> index < to_row rng))"

definition trimPoint :: "'a cursor_scheme list \<Rightarrow> cursor option \<Rightarrow> cursor option" where
  "trimPoint list keep =
     (if length list \<le> TRIM_AT then None
      else
        let cut0 = cursorOf (list ! (length list - HOLD_ROWS));
            cut = (case keep of Some k \<Rightarrow> if compareMessages k cut0 < 0 then k else cut0 | None \<Rightarrow> cut0) in
        if compareMessages cut (cursorOf (hd list)) \<le> 0 then None else Some cut)"

section \<open>Where a cursor sits\<close>

declare search.simps [simp del]

lemma mid_truncate [simp]: "mid (cursorOf r) = mid r" "lamport (cursorOf r) = lamport r"
  by (simp_all add: cursor.truncate_def)

lemma findIndex_Some: "findIndex P xs = Some i \<Longrightarrow> i < length xs \<and> P (xs ! i)"
  by (induction xs arbitrary: i) (auto split: if_splits)

lemma findIndex_None: "findIndex P xs = None \<longleftrightarrow> (\<forall>x \<in> set xs. \<not> P x)"
  by (induction xs) auto

lemma findIndex_id:
  assumes "distinct (map mid xs)" "i < length xs" "mid (xs ! i) = k"
  shows "findIndex (\<lambda>row. mid row = k) xs = Some i"
  using assms
proof (induction xs arbitrary: i)
  case (Cons x xs)
  show ?case
  proof (cases i)
    case (Suc j)
    then have "mid x \<noteq> k" using Cons.prems by auto
    then show ?thesis using Cons Suc by auto
  qed (use Cons.prems in auto)
qed simp

lemma search_le: "lo \<le> hi \<Longrightarrow> search list c lo hi \<le> hi"
proof (induction list c lo hi rule: search.induct)
  case (1 list c lo hi)
  have "(lo + hi) div 2 \<le> hi" "lo < hi \<Longrightarrow> lo \<le> (lo + hi) div 2" "lo < hi \<Longrightarrow> (lo + hi) div 2 + 1 \<le> hi"
    using "1.prems" by simp_all
  with "1.prems" "1.IH"(1) [OF _ refl] "1.IH"(2) [OF _ refl] show ?case
    by (subst search.simps) (force simp: Let_def)
qed

lemma indexOf_le: "indexOf list c \<le> length list"
  using search_le [of 0 "length list" list c] findIndex_Some [of "\<lambda>row. mid row = mid c" list]
  by (auto simp: indexOf_def split: option.splits intro: less_imp_le)

lemma indexOf_id: "distinct (map mid xs) \<Longrightarrow> i < length xs \<Longrightarrow> indexOf xs (cursorOf (xs ! i)) = i"
  by (simp add: indexOf_def findIndex_id)

text \<open>The binary search is correct: for a cursor that has left the sorted list, every row before the
  answer is before the cursor and every row from it on is not.\<close>

lemma ordered_before:
  assumes "ordered_by compareMessages (map cursorOf list)" "i \<le> j" "j < length list" "compareMessages (cursorOf (list ! j)) c < 0"
  shows "compareMessages (cursorOf (list ! i)) c < 0"
proof (cases "i = j")
  case False
  then have "compareMessages (cursorOf (list ! i)) (cursorOf (list ! j)) \<le> 0"
    using assms(1-3) unfolding ordered_by_def sorted_wrt_iff_nth_less by auto
  with assms(4) show ?thesis by (auto simp: compareMessages_def split: if_splits)
qed (use assms in simp)

lemma search_splits:
  assumes "ordered_by compareMessages (map cursorOf list)" "lo \<le> hi" "hi \<le> length list"
    and "\<forall>i < lo. compareMessages (cursorOf (list ! i)) c < 0"
    and "\<forall>i < length list. hi \<le> i \<longrightarrow> \<not> compareMessages (cursorOf (list ! i)) c < 0"
  shows "\<forall>i < length list. compareMessages (cursorOf (list ! i)) c < 0 \<longleftrightarrow> i < search list c lo hi"
  using assms
proof (induction list c lo hi rule: search.induct)
  case (1 list c lo hi)
  let ?m = "(lo + hi) div 2"
  show ?case
  proof (cases "lo < hi")
    case False
    then have "lo = hi" using "1.prems"(2) by simp
    then show ?thesis using "1.prems"(4,5) by (subst search.simps) (auto simp: not_less)
  next
    case True
    have m: "?m < hi" "lo \<le> ?m" "?m < length list" using True "1.prems"(3) by auto
    show ?thesis
    proof (cases "compareMessages (cursorOf (list ! ?m)) c < 0")
      case before: True
      have "\<forall>i < ?m + 1. compareMessages (cursorOf (list ! i)) c < 0"
        using ordered_before [OF "1.prems"(1) _ m(3) before] by auto
      then show ?thesis using "1.IH"(1) [OF True refl before "1.prems"(1) _ "1.prems"(3) _ "1.prems"(5)] m True before
        by (subst search.simps) simp
    next
      case after: False
      have "\<forall>i < length list. ?m \<le> i \<longrightarrow> \<not> compareMessages (cursorOf (list ! i)) c < 0"
        using ordered_before [OF "1.prems"(1), of ?m] after by blast
      then show ?thesis using "1.IH"(2) [OF True refl after "1.prems"(1) m(2) _ "1.prems"(4)] m True after
        by (subst search.simps) simp
    qed
  qed
qed

section \<open>The window\<close>

lemma windowRange_bounds:
  "from_row (windowRange list w) \<le> to_row (windowRange list w) \<and> to_row (windowRange list w) \<le> length list \<and>
   to_row (windowRange list w) - from_row (windowRange list w) \<le> MAX_ROWS \<and>
   (list \<noteq> [] \<longrightarrow> from_row (windowRange list w) < to_row (windowRange list w))"
proof (cases w)
  case None
  then show ?thesis by (auto simp: windowRange_def Let_def FOLLOW_ROWS_def MAX_ROWS_def)
next
  case (Some h)
  note s = indexOf_le [of list "wstart h"]
  show ?thesis
  proof (cases "wend h")
    case None
    then show ?thesis using Some s by (auto simp: windowRange_def Let_def FOLLOW_ROWS_def MAX_ROWS_def max_def min_def)
  next
    case e: (Some c)
    show ?thesis using Some e s indexOf_le [of list c]
      by (auto simp: windowRange_def Let_def FOLLOW_ROWS_def MAX_ROWS_def max_def min_def)
  qed
qed


lemma held_rows_index:
  assumes "distinct (map mid (pre @ list @ post))" "i < length list"
  shows "indexOf (pre @ list @ post) (cursorOf (list ! i)) = length pre + i"
  using indexOf_id [OF assms(1), of "length pre + i"] assms(2) by (simp add: nth_append)

lemma windowRange_hold:
  assumes "distinct (map mid (pre @ list @ post))" and "from_row rng < to_row rng" "to_row rng \<le> length list"
    and "to_row rng \<le> from_row rng + MAX_ROWS"
  shows "windowRange (pre @ list @ post) (hold list rng) =
     \<lparr>from_row = length pre + from_row rng,
      to_row = (if to_row rng < length list then length pre + to_row rng
                else min (length (pre @ list @ post)) (length pre + from_row rng + MAX_ROWS))\<rparr>"
proof -
  note i = held_rows_index [OF assms(1)]
  have f: "from_row rng < length list" using assms(2,3) by simp
  show ?thesis
  proof (cases "to_row rng < length list")
    case True
    obtain k where k: "to_row rng = Suc k" using assms(2) by (cases "to_row rng") auto
    have l: "(pre @ list @ post) ! (length pre + k) = list ! k" "(list @ post) ! k = list ! k"
      using True k by (simp_all add: nth_append)
    show ?thesis using True assms(2,4) f k
      by (simp add: windowRange_def hold_def held_def Let_def i l max_def min_def)
  next
    case False
    then show ?thesis using f
      by (auto simp: windowRange_def hold_def held_def Let_def i max_def min_def MAX_ROWS_def)
  qed
qed

text \<open>A held window does not move: hold the rows \<open>from\<close> up to \<open>to\<close> of a list with distinct ids, let any
  rows arrive before and after it, and the window over the longer list starts at the same row and
  ends at the same row; one held through the newest row takes in what arrives below, up to 200 rows
  from its start.\<close>

theorem held_window_still:
  assumes "distinct (map mid (pre @ list @ post))" and "from_row rng < to_row rng" "to_row rng \<le> length list"
    and "to_row rng \<le> from_row rng + MAX_ROWS"
  shows "windowRange (pre @ list @ post) (hold list rng) =
     \<lparr>from_row = length pre + from_row rng,
      to_row = (if to_row rng < length list then length pre + to_row rng
                else min (length (pre @ list @ post)) (length pre + from_row rng + MAX_ROWS))\<rparr>"
  using assms by (rule windowRange_hold)

definition demo_rows :: "cursor list" where
  "demo_rows = [\<lparr>lamport = 3, mid = ''c''\<rparr>, \<lparr>lamport = 4, mid = ''d''\<rparr>, \<lparr>lamport = 5, mid = ''e''\<rparr>]"

theorem held_window_still_witness:
  "windowRange ([\<lparr>lamport = 1, mid = ''a''\<rparr>] @ demo_rows @ [\<lparr>lamport = 9, mid = ''z''\<rparr>])
     (hold demo_rows \<lparr>from_row = 1, to_row = 2\<rparr>) =
   \<lparr>from_row = length [\<lparr>lamport = 1, mid = ''a''\<rparr>] + from_row \<lparr>from_row = 1, to_row = 2\<rparr>,
    to_row = (if to_row \<lparr>from_row = 1, to_row = 2\<rparr> < length demo_rows
              then length [\<lparr>lamport = 1, mid = ''a''\<rparr>] + to_row \<lparr>from_row = 1, to_row = 2\<rparr>
              else min (length ([\<lparr>lamport = 1, mid = ''a''\<rparr>] @ demo_rows @ [\<lparr>lamport = 9, mid = ''z''\<rparr>]))
                     (length [\<lparr>lamport = 1, mid = ''a''\<rparr>] + from_row \<lparr>from_row = 1, to_row = 2\<rparr> + MAX_ROWS))\<rparr>"
  by (rule held_window_still) (simp_all add: demo_rows_def MAX_ROWS_def)

text \<open>Scrolling: the reader always gets older rows until the list's start, and newer ones until its end.\<close>

lemma showOlder_range:
  assumes "distinct (map mid list)" "from_row rng < to_row rng" "to_row rng \<le> length list"
    "to_row rng \<le> from_row rng + MAX_ROWS"
  shows "from_row (windowRange list (showOlder list rng)) = from_row rng - STEP_ROWS \<and>
     from_row rng < to_row (windowRange list (showOlder list rng))"
proof -
  define r where "r = \<lparr>from_row = from_row rng - STEP_ROWS, to_row = min (to_row rng) (from_row rng - STEP_ROWS + MAX_ROWS)\<rparr>"
  have "showOlder list rng = hold list r" by (simp add: showOlder_def hold_def Let_def r_def)
  moreover have "from_row r < to_row r" "to_row r \<le> length list" "to_row r \<le> from_row r + MAX_ROWS"
    using assms by (auto simp: r_def STEP_ROWS_def MAX_ROWS_def)
  moreover have "from_row r = from_row rng - STEP_ROWS" "from_row rng < to_row r" "from_row rng < from_row r + MAX_ROWS"
    using assms by (auto simp: r_def STEP_ROWS_def MAX_ROWS_def)
  ultimately show ?thesis using windowRange_hold [of "[]" list "[]" r] assms(1,2,3) by auto
qed

end
