(* ===== verification/Spotlight.thy ===== *)
theory Spotlight
  imports Complex_Main Stable_Sort
begin

text \<open>
  Which tile of a call is shown in the panel: the tile builder and the wanted cameras of
  \<^verbatim>\<open>frontend/src/lib/call-tiles.ts\<close> and the rule of
  \<^verbatim>\<open>frontend/src/lib/spotlight.ts\<close>.

  A media track is a number, a time a rational number of milliseconds (the clock has fractions). The
  clock a tile is dated with is a function, one reading for each tile.
\<close>

datatype tile_kind = Camera | Screen | Transmission | Plugin

record SpotlightTile =
  tid :: string
  tkind :: tile_kind
  isLocal :: bool
  tpeer :: string
  videoTrack :: "nat option"
  startedAt :: "rat option"

record SpeakerState =
  speaking :: "string list"
  speakingSince :: "(string, rat) jsmap"
  lastSpokeAt :: "(string, rat) jsmap"

definition SPEAKER_TAKEOVER_MS :: rat where "SPEAKER_TAKEOVER_MS = 1500"
definition SPEAKER_HOLD_MS :: rat where "SPEAKER_HOLD_MS = 2000"

section \<open>The rule\<close>

definition newest_first :: "SpotlightTile \<Rightarrow> SpotlightTile \<Rightarrow> int" where
  \<comment> \<open>the sign of \<^verbatim>\<open>(b.startedAt ?? 0) - (a.startedAt ?? 0)\<close>, all a sort looks at\<close>
  "newest_first a b =
     (let d = (case startedAt b of None \<Rightarrow> 0 | Some t \<Rightarrow> t) - (case startedAt a of None \<Rightarrow> 0 | Some t \<Rightarrow> t) in
      if d < 0 then -1 else if d = 0 then 0 else 1)"

definition rule1 :: "SpotlightTile list \<Rightarrow> string option \<Rightarrow> string option" where
  "rule1 tiles pin = (case pin of
       Some p \<Rightarrow> if p \<noteq> [] \<and> find (\<lambda>t. tid t = p) tiles \<noteq> None then Some p else None
     | None \<Rightarrow> None)"

definition or_else :: "'a option \<Rightarrow> 'a option \<Rightarrow> 'a option" where
  "or_else x y = (case x of None \<Rightarrow> y | Some _ \<Rightarrow> x)"

definition watched_screen :: "SpotlightTile list \<Rightarrow> string option \<Rightarrow> SpotlightTile option" where
  "watched_screen tiles watching = (case watching of
       Some w \<Rightarrow> if w \<noteq> [] then find (\<lambda>t. tpeer t = w \<and> tkind t = Screen \<and> \<not> isLocal t) tiles else None
     | None \<Rightarrow> None)"

definition remote_screens :: "SpotlightTile list \<Rightarrow> string option \<Rightarrow> SpotlightTile list" where
  "remote_screens tiles watching = js_sort newest_first
     (filter (\<lambda>t. tkind t = Screen \<and> \<not> isLocal t \<and> Some (tpeer t) \<noteq> watching) tiles)"

definition rule2 :: "SpotlightTile list \<Rightarrow> string option \<Rightarrow> string option" where
  "rule2 tiles watching =
     or_else (map_option tid (watched_screen tiles watching))
       (case remote_screens tiles watching of [] \<Rightarrow> None | t # _ \<Rightarrow> Some (tid t))"

definition incumbent :: "SpotlightTile list \<Rightarrow> SpeakerState \<Rightarrow> string option \<Rightarrow> rat \<Rightarrow> string option" where
  "incumbent tiles speakers previous now = (case previous of
       None \<Rightarrow> None
     | Some p \<Rightarrow>
         if p = [] then None
         else (case find (\<lambda>t. tid t = p \<and> \<not> isLocal t) tiles of
                 None \<Rightarrow> None
               | Some prevTile \<Rightarrow>
                   if tpeer prevTile \<in> set (speaking speakers) \<or>
                      (case js_get (lastSpokeAt speakers) (tpeer prevTile) of
                         None \<Rightarrow> False
                       | Some lastSpoke \<Rightarrow> now - lastSpoke < SPEAKER_HOLD_MS)
                   then Some p else None))"

record challenger =
  cid :: string
  since :: rat
  hasCamera :: bool

fun challenge :: "SpotlightTile list \<Rightarrow> SpeakerState \<Rightarrow> rat \<Rightarrow> challenger option \<Rightarrow> string list \<Rightarrow> challenger option" where
  \<comment> \<open>the loop over the peers speaking now\<close>
  "challenge tiles speakers now best [] = best"
| "challenge tiles speakers now best (p # ps) =
     (case js_get (speakingSince speakers) p of
        None \<Rightarrow> challenge tiles speakers now best ps
      | Some s \<Rightarrow>
          if now - s < SPEAKER_TAKEOVER_MS then challenge tiles speakers now best ps
          else (case find (\<lambda>t. tpeer t = p \<and> \<not> isLocal t) tiles of
                  None \<Rightarrow> challenge tiles speakers now best ps
                | Some tile \<Rightarrow>
                    let c = \<lparr>cid = tid tile, since = s, hasCamera = (videoTrack tile \<noteq> None)\<rparr> in
                    challenge tiles speakers now
                      (case best of
                         None \<Rightarrow> Some c
                       | Some b \<Rightarrow> if s < since b \<or> s = since b \<and> hasCamera c \<and> \<not> hasCamera b then Some c else Some b) ps))"

definition rule4 :: "SpotlightTile list \<Rightarrow> string option \<Rightarrow> string option" where
  "rule4 tiles previous =
     (case (case previous of
              Some p \<Rightarrow> if p \<noteq> [] then find (\<lambda>t. tid t = p) tiles else None
            | None \<Rightarrow> None) of
        Some prev \<Rightarrow> if \<not> isLocal prev then Some (tid prev) else None
      | None \<Rightarrow> None)"

definition rule5 :: "SpotlightTile list \<Rightarrow> string option" where
  \<comment> \<open>from the first remote with a camera down to any local tile\<close>
  "rule5 tiles =
     (case find (\<lambda>t. \<not> isLocal t \<and> videoTrack t \<noteq> None) tiles of
        Some t \<Rightarrow> Some (tid t)
      | None \<Rightarrow>
     (case find (\<lambda>t. \<not> isLocal t) tiles of
        Some t \<Rightarrow> Some (tid t)
      | None \<Rightarrow>
     (case find (\<lambda>t. isLocal t \<and> tkind t = Camera \<and> videoTrack t \<noteq> None) tiles of
        Some t \<Rightarrow> Some (tid t)
      | None \<Rightarrow> map_option tid (find isLocal tiles))))"

definition spotlight ::
  "SpotlightTile list \<Rightarrow> string option \<Rightarrow> string option \<Rightarrow> SpeakerState \<Rightarrow> string option \<Rightarrow> rat \<Rightarrow> string option"
where
  "spotlight tiles pin watching speakers previous now =
     or_else (rule1 tiles pin) (or_else (rule2 tiles watching) (or_else (incumbent tiles speakers previous now)
       (or_else (map_option cid (challenge tiles speakers now None (speaking speakers)))
         (or_else (rule4 tiles previous) (rule5 tiles)))))"

section \<open>The tiles\<close>

record participant =
  pvideo :: "nat option"
  pscreen :: "nat option"

record CallState =
  participants :: "(string, participant) jsmap"
  localCamera :: "nat option"
  localScreen :: "nat option"
  watchingTransmissions :: "(string, string) jsmap"
  selfId :: string
  trackStartTimes :: "(string, rat) jsmap"

definition REMOTE_CAMERA :: string where "REMOTE_CAMERA = ''remote-camera-''"

definition remoteCameraTileId :: "string \<Rightarrow> string" where
  "remoteCameraTileId peerId = REMOTE_CAMERA @ peerId"

definition started :: "CallState \<Rightarrow> (string \<Rightarrow> rat) \<Rightarrow> string \<Rightarrow> rat option" where
  "started state clock i = Some (case js_get (trackStartTimes state) i of Some t \<Rightarrow> t | None \<Rightarrow> clock i)"

definition buildCallTiles :: "CallState \<Rightarrow> (string \<Rightarrow> rat) \<Rightarrow> SpotlightTile list" where
  "buildCallTiles state clock =
     [\<lparr>tid = ''local-camera'', tkind = Camera, isLocal = True, tpeer = selfId state,
       videoTrack = localCamera state, startedAt = None\<rparr>] @
     map (\<lambda>(p, x). \<lparr>tid = remoteCameraTileId p, tkind = Camera, isLocal = False, tpeer = p,
            videoTrack = pvideo x, startedAt = None\<rparr>) (participants state) @
     (case localScreen state of
        None \<Rightarrow> []
      | Some track \<Rightarrow> [\<lparr>tid = ''local-screen'', tkind = Screen, isLocal = True, tpeer = selfId state,
            videoTrack = Some track, startedAt = started state clock ''local-screen''\<rparr>]) @
     concat (map (\<lambda>(p, x). case pscreen x of
            None \<Rightarrow> []
          | Some track \<Rightarrow> [\<lparr>tid = ''remote-screen-'' @ p, tkind = Screen, isLocal = False, tpeer = p,
              videoTrack = Some track, startedAt = started state clock (''remote-screen-'' @ p)\<rparr>]) (participants state)) @
     concat (map (\<lambda>(w, _).
          if (case js_get (participants state) w of Some x \<Rightarrow> pscreen x \<noteq> None | None \<Rightarrow> False) then []
          else [\<lparr>tid = ''pending-tx-'' @ w, tkind = Transmission, isLocal = False, tpeer = w,
              videoTrack = None, startedAt = started state clock (''pending-tx-'' @ w)\<rparr>]) (watchingTransmissions state))"

record CameraSurfaces =
  stage :: "string list"
  sspotlight :: "SpotlightTile option"
  pinnedTileId :: "string option"
  poppedOut :: "string list"
  sspeaking :: "string list"
  sselfId :: string

definition spotlight_held :: "CameraSurfaces \<Rightarrow> bool" where
  "spotlight_held shown = (case sspotlight shown of
       None \<Rightarrow> True
     | Some t \<Rightarrow> Some (tid t) = pinnedTileId shown \<or> tkind t = Screen \<and> \<not> isLocal t)"

abbreviation add_peer :: "string \<Rightarrow> string list \<Rightarrow> string list" where
  "add_peer p ps \<equiv> set_add ps p"

definition wantedCameras :: "CameraSurfaces \<Rightarrow> string list" where
  "wantedCameras shown =
     (let w0 = fold add_peer (stage shown) [];
          w1 = (case sspotlight shown of
                  Some t \<Rightarrow> if tkind t = Camera \<and> \<not> isLocal t then add_peer (tpeer t) w0 else w0
                | None \<Rightarrow> w0);
          w2 = (if spotlight_held shown then w1
                else fold (\<lambda>p w. if p \<noteq> sselfId shown then add_peer p w else w) (sspeaking shown) w1) in
      fold (\<lambda>i w. if take (length REMOTE_CAMERA) i = REMOTE_CAMERA then add_peer (drop (length REMOTE_CAMERA) i) w else w)
        (poppedOut shown) w2)"

section \<open>What it picks\<close>

lemma or_else_cases: "or_else x y = Some z \<Longrightarrow> x = Some z \<or> x = None \<and> y = Some z"
  by (cases x) (auto simp: or_else_def)

lemma or_else_None [simp]: "or_else x y = None \<longleftrightarrow> x = None \<and> y = None"
  by (cases x) (auto simp: or_else_def)

lemma find_in: "find P xs = Some x \<Longrightarrow> x \<in> set xs \<and> P x"
  by (auto simp: find_Some_iff in_set_conv_nth)

lemma find_out: "find P xs = None \<longleftrightarrow> (\<forall>x \<in> set xs. \<not> P x)"
  by (auto simp: find_None_iff)

definition names_tile :: "SpotlightTile list \<Rightarrow> string \<Rightarrow> bool" where
  "names_tile tiles i \<longleftrightarrow> (\<exists>t \<in> set tiles. tid t = i)"

definition names_remote :: "SpotlightTile list \<Rightarrow> string \<Rightarrow> bool" where
  "names_remote tiles i \<longleftrightarrow> (\<exists>t \<in> set tiles. tid t = i \<and> \<not> isLocal t)"

lemma rule1_names: "rule1 tiles pin = Some i \<Longrightarrow> pin = Some i \<and> names_tile tiles i"
  by (auto simp: rule1_def names_tile_def dest: find_in split: option.splits if_splits)

lemma rule2_names: "rule2 tiles watching = Some i \<Longrightarrow> names_remote tiles i"
proof -
  have w: "names_remote tiles (tid t)" if "watched_screen tiles watching = Some t" for t
    using that by (auto simp: watched_screen_def names_remote_def dest!: find_in split: option.splits if_splits)
  have "set (remote_screens tiles watching) \<subseteq> {t \<in> set tiles. \<not> isLocal t}" by (auto simp: remote_screens_def)
  then have n: "names_remote tiles (tid t)" if "remote_screens tiles watching = t # ts" for t ts
    using that by (auto simp: names_remote_def)
  assume "rule2 tiles watching = Some i"
  then show ?thesis using w n unfolding rule2_def
    by (elim or_else_cases [elim_format]) (auto split: list.splits)
qed

lemma incumbent_names: "incumbent tiles speakers previous now = Some i \<Longrightarrow> names_remote tiles i"
  by (auto simp: incumbent_def names_remote_def dest!: find_in split: option.splits if_splits)

lemma challenge_names:
  "challenge tiles speakers now best ps = Some c \<Longrightarrow> (\<forall>b. best = Some b \<longrightarrow> names_remote tiles (cid b)) \<Longrightarrow> names_remote tiles (cid c)"
proof (induction ps arbitrary: best)
  case (Cons p ps)
  have "names_remote tiles (tid t)" if "find (\<lambda>t. tpeer t = p \<and> \<not> isLocal t) tiles = Some t" for t
    using find_in [OF that] by (auto simp: names_remote_def)
  then show ?case using Cons.prems Cons.IH
    by (auto simp: Let_def split: option.splits if_splits)
qed simp

lemma rule4_names: "rule4 tiles previous = Some i \<Longrightarrow> names_remote tiles i"
  by (auto simp: rule4_def names_remote_def dest!: find_in split: option.splits if_splits)

lemma rule5_names:
  "rule5 tiles = Some i \<Longrightarrow> names_tile tiles i \<and> ((\<exists>t \<in> set tiles. \<not> isLocal t) \<longrightarrow> names_remote tiles i)"
  by (auto simp: rule5_def names_tile_def names_remote_def find_out dest!: find_in split: option.splits)

lemma rule5_shows: "tiles \<noteq> [] \<Longrightarrow> rule5 tiles \<noteq> None"
proof
  assume t: "tiles \<noteq> []" and n: "rule5 tiles = None"
  have "find (\<lambda>t. \<not> isLocal t) tiles = None" "find isLocal tiles = None"
    using n by (auto simp: rule5_def split: option.splits)
  with t show False by (auto simp: find_out neq_Nil_conv)
qed

lemma remote_is_tile: "names_remote tiles i \<Longrightarrow> names_tile tiles i"
  by (auto simp: names_remote_def names_tile_def)


lemma spotlight_names:
  assumes "spotlight tiles pin watching speakers previous now = Some i"
  shows "names_tile tiles i \<and> (pin \<noteq> Some i \<longrightarrow> (\<exists>t \<in> set tiles. \<not> isLocal t) \<longrightarrow> names_remote tiles i)"
  using assms unfolding spotlight_def
  by (auto dest!: or_else_cases rule1_names rule2_names incumbent_names challenge_names rule4_names rule5_names
      intro: remote_is_tile)

section \<open>Tiles and rule together\<close>

lemma set_fold_add [simp]: "set (fold add_peer ps w) = set ps \<union> set w"
  by (induction ps arbitrary: w) auto

lemma set_fold_add_if: "set (fold (\<lambda>p w. if P p then add_peer (f p) w else w) ps w) = f ` {p \<in> set ps. P p} \<union> set w"
  by (induction ps arbitrary: w) auto

lemma wanted_iff:
  "p \<in> set (wantedCameras shown) \<longleftrightarrow> p \<in> set (stage shown) \<or>
     (\<exists>t. sspotlight shown = Some t \<and> tkind t = Camera \<and> \<not> isLocal t \<and> tpeer t = p) \<or>
     \<not> spotlight_held shown \<and> p \<in> set (sspeaking shown) \<and> p \<noteq> sselfId shown \<or>
     remoteCameraTileId p \<in> set (poppedOut shown)"
proof -
  have id: "(\<exists>i. i \<in> set is \<and> take (length REMOTE_CAMERA) i = REMOTE_CAMERA \<and> drop (length REMOTE_CAMERA) i = p) \<longleftrightarrow>
      remoteCameraTileId p \<in> set is" for "is"
    unfolding remoteCameraTileId_def by (metis append_take_drop_id append_eq_conv_conj)
  have pop: "p \<in> drop (length REMOTE_CAMERA) ` {i \<in> set is. take (length REMOTE_CAMERA) i = REMOTE_CAMERA} \<longleftrightarrow>
      remoteCameraTileId p \<in> set is" for "is"
    using id [of "is"] by blast
  show ?thesis
    unfolding wantedCameras_def Let_def set_fold_add_if Un_iff pop
    by (auto simp: set_fold_add_if [of "\<lambda>p. p \<noteq> sselfId shown" "\<lambda>p. p", simplified] split: option.splits)
qed

lemma tagged_ids:
  assumes "js_wf m"
  shows "distinct (concat (map (\<lambda>(p, x). if P p x then [k @ p] else []) m))"
    "set (concat (map (\<lambda>(p, x). if P p x then [k @ p] else []) m)) \<subseteq> (@) k ` fst ` set m"
  using assms by (induction m) (auto simp: js_wf_def image_iff)

lemma tiles_ids_distinct:
  assumes "js_wf (participants state)" "js_wf (watchingTransmissions state)"
  shows "distinct (map tid (buildCallTiles state clock))"
proof -
  have c: "distinct (map (\<lambda>(p, x). remoteCameraTileId p) (participants state))"
    using assms(1) by (auto simp: js_wf_def remoteCameraTileId_def distinct_map inj_on_def case_prod_unfold)
  have screens: "map tid (concat (map (\<lambda>(p, x). case pscreen x of None \<Rightarrow> []
      | Some track \<Rightarrow> [\<lparr>tid = ''remote-screen-'' @ p, tkind = Screen, isLocal = False, tpeer = p,
          videoTrack = Some track, startedAt = started state clock (''remote-screen-'' @ p)\<rparr>]) m)) =
      concat (map (\<lambda>(p, x). if pscreen x \<noteq> None then [''remote-screen-'' @ p] else []) m)" for m
    by (induction m) (auto split: option.splits)
  have pending: "map tid (concat (map (\<lambda>(w, _). if Q w then []
          else [\<lparr>tid = ''pending-tx-'' @ w, tkind = Transmission, isLocal = False, tpeer = w,
              videoTrack = None, startedAt = started state clock (''pending-tx-'' @ w)\<rparr>]) m)) =
      concat (map (\<lambda>(w, x). if \<not> Q w then [''pending-tx-'' @ w] else []) m)" for Q and m :: "(string, string) jsmap"
    by (induction m) auto
  note s1 = tagged_ids [OF assms(1), of "\<lambda>p x. pscreen x \<noteq> None" "''remote-screen-''"]
  note s2 = tagged_ids [OF assms(2), of _ "''pending-tx-''"]
  show ?thesis
    unfolding buildCallTiles_def map_append screens pending distinct_append
    using c s1 s2 by (auto simp: comp_def case_prod_unfold remoteCameraTileId_def REMOTE_CAMERA_def split: option.splits)
qed

text \<open>The panel always has the right tile to show: over the tiles built for a call, whose ids are all
  different, the rule names one that exists, whatever is pinned, watched, said and shown before; as
  soon as anyone else is in the call and the choice is not the user's own pin, it is
  someone else's tile, never the user's own camera or screen.\<close>

theorem spotlight_shows_a_tile:
  assumes "js_wf (participants state)" "js_wf (watchingTransmissions state)"
  shows "distinct (map tid (buildCallTiles state clock)) \<and>
     (\<exists>t \<in> set (buildCallTiles state clock).
        spotlight (buildCallTiles state clock) pin watching speakers previous now = Some (tid t) \<and>
        (participants state \<noteq> [] \<longrightarrow> pin \<noteq> Some (tid t) \<longrightarrow> \<not> isLocal t))"
proof -
  let ?tiles = "buildCallTiles state clock"
  have d: "distinct (map tid ?tiles)" by (rule tiles_ids_distinct [OF assms])
  have "?tiles \<noteq> []" by (simp add: buildCallTiles_def)
  then obtain i where i: "spotlight ?tiles pin watching speakers previous now = Some i"
    using rule5_shows [of ?tiles] unfolding spotlight_def by (meson not_None_eq or_else_None)
  have remote: "\<exists>t \<in> set ?tiles. \<not> isLocal t" if "participants state \<noteq> []"
    using that by (cases "participants state") (auto simp: buildCallTiles_def)
  note n = spotlight_names [OF i]
  show ?thesis
  proof (cases "participants state \<noteq> [] \<and> pin \<noteq> Some i")
    case True
    then obtain t where "t \<in> set ?tiles" "tid t = i" "\<not> isLocal t" using n remote by (auto simp: names_remote_def)
    with d i show ?thesis by auto
  next
    case False
    obtain t where "t \<in> set ?tiles" "tid t = i" using n by (auto simp: names_tile_def)
    with d i False show ?thesis by auto
  qed
qed

definition demo_call :: CallState where
  "demo_call = \<lparr>participants = [(''bob'', \<lparr>pvideo = None, pscreen = Some 3\<rparr>)], localCamera = Some 1, localScreen = None,
     watchingTransmissions = [], selfId = ''me'', trackStartTimes = []\<rparr>"

theorem spotlight_shows_a_tile_witness:
  "distinct (map tid (buildCallTiles demo_call (\<lambda>_. 0))) \<and>
     (\<exists>t \<in> set (buildCallTiles demo_call (\<lambda>_. 0)).
        spotlight (buildCallTiles demo_call (\<lambda>_. 0)) None None \<lparr>speaking = [], speakingSince = [], lastSpokeAt = []\<rparr> None 0 = Some (tid t) \<and>
        \<not> isLocal t)"
proof -
  have wf: "js_wf (participants demo_call)" "js_wf (watchingTransmissions demo_call)" and p: "participants demo_call \<noteq> []"
    by (simp_all add: demo_call_def js_wf_def)
  have n: "None \<noteq> Some i" for i :: string by simp
  show ?thesis
    using spotlight_shows_a_tile [OF wf, of "\<lambda>_. 0" None None "\<lparr>speaking = [], speakingSince = [], lastSpokeAt = []\<rparr>" None 0] p
    by (simp only: simp_thms n)
qed

text \<open>Whoever can take the spotlight by speaking is already being received: a peer that the challenger
  loop looks at is among the wanted cameras while no pin or share holds the spotlight.\<close>

lemma speaker_is_wanted:
  "\<not> spotlight_held shown \<Longrightarrow> p \<in> set (sspeaking shown) \<Longrightarrow> p \<noteq> sselfId shown \<Longrightarrow> p \<in> set (wantedCameras shown)"
  by (simp add: wanted_iff)

end
