(* ===== verification/Room_Name.thy ===== *)
theory Room_Name
  imports Complex_Main Js_Strings
begin

text \<open>
  Room names, \<^verbatim>\<open>frontend/src/lib/room-name.ts\<close>, with the handler that applies an announced name
  (\<^verbatim>\<open>_handleRoomName\<close> and \<^verbatim>\<open>_applyRoomName\<close> of
  \<^verbatim>\<open>transport/transport.svelte.ts\<close>) and the rename of \<^verbatim>\<open>renameRoomEverywhere\<close>.
  A time stamp off the wire is a finite number or not one.
\<close>

datatype stamp = Finite rat | Not_finite

record NamedRoom =
  nroomCode :: string
  rname :: string
  nameAt :: "rat option"

definition PLACEHOLDER_NAME_AT :: rat where "PLACEHOLDER_NAME_AT = 0"
definition LEGACY_NAME_AT :: rat where "LEGACY_NAME_AT = 1"
definition MAX_FUTURE_MS :: rat where "MAX_FUTURE_MS = 60 * 60 * 1000"

definition isChosenName :: "NamedRoom \<Rightarrow> bool" where
  "isChosenName room \<longleftrightarrow> nameAt room \<noteq> Some PLACEHOLDER_NAME_AT \<and> rname room \<noteq> [] \<and> rname room \<noteq> nroomCode room"

definition nameStamp :: "NamedRoom \<Rightarrow> rat" where
  "nameStamp room = (if isChosenName room then (case nameAt room of None \<Rightarrow> LEGACY_NAME_AT | Some t \<Rightarrow> t) else PLACEHOLDER_NAME_AT)"

datatype verdict = Take | Keep | Answer

definition judgeRoomName :: "NamedRoom \<Rightarrow> string \<Rightarrow> stamp option \<Rightarrow> rat \<Rightarrow> verdict" where
  "judgeRoomName stored name stamped now =
     (case (case stamped of None \<Rightarrow> Finite LEGACY_NAME_AT | Some t \<Rightarrow> t) of
        Not_finite \<Rightarrow> Keep
      | Finite theirs \<Rightarrow>
          if theirs < LEGACY_NAME_AT \<or> now + MAX_FUTURE_MS < theirs then Keep
          else if \<not> isChosenName stored then Take
          else
            let ours = nameStamp stored in
            if ours < theirs then Take
            else if theirs < ours then Answer
            else if name = rname stored then Keep
            else if rname stored < name then Take else Answer)"

definition nextNameStamp :: "NamedRoom option \<Rightarrow> rat \<Rightarrow> rat" where
  "nextNameStamp room now = max now ((case room of None \<Rightarrow> 0 | Some r \<Rightarrow> nameStamp r) + 1)"

definition wire_trim :: "string \<Rightarrow> string" where
  \<comment> \<open>\<^verbatim>\<open>name.trim().slice(0, 64)\<close>\<close>
  "wire_trim name = take 64 (js_trim name)"

definition renameRoom :: "NamedRoom \<Rightarrow> string \<Rightarrow> rat \<Rightarrow> NamedRoom" where
  "renameRoom room name stamped = room\<lparr>rname := name, nameAt := Some stamped\<rparr>"

definition applyRoomName :: "NamedRoom \<Rightarrow> string \<Rightarrow> stamp option \<Rightarrow> rat \<Rightarrow> verdict \<times> NamedRoom" where
  "applyRoomName stored name stamped now =
     (case judgeRoomName stored name stamped now of
        Take \<Rightarrow> (Take, renameRoom stored name (case stamped of Some (Finite t) \<Rightarrow> t | _ \<Rightarrow> LEGACY_NAME_AT))
      | v \<Rightarrow> (v, stored))"

definition handleRoomName :: "NamedRoom \<Rightarrow> string \<Rightarrow> stamp option \<Rightarrow> rat \<Rightarrow> verdict \<times> NamedRoom" where
  \<comment> \<open>the announcement is for this room: its topic, or a joined room it names\<close>
  "handleRoomName stored name stamped now =
     (let trimmed = wire_trim name in
      if trimmed = [] \<or> trimmed = nroomCode stored then (Keep, stored)
      else applyRoomName stored trimmed stamped now)"

definition renameRoomEverywhere :: "NamedRoom \<Rightarrow> string \<Rightarrow> rat \<Rightarrow> NamedRoom" where
  "renameRoomEverywhere room name now =
     (let trimmed = wire_trim name in
      if trimmed = [] then room else renameRoom room trimmed (nextNameStamp (Some room) now))"

definition sendRoomName :: "NamedRoom \<Rightarrow> (string \<times> rat) option" where
  \<comment> \<open>what \<^verbatim>\<open>_sendRoomName\<close> announces: the name and its stamp\<close>
  "sendRoomName room =
     (if \<not> isChosenName room then None
      else let name = wire_trim (rname room) in if name = [] then None else Some (name, nameStamp room))"

section \<open>One order on names\<close>

type_synonym claim = "string \<times> rat"

definition older_eq :: "claim \<Rightarrow> claim \<Rightarrow> bool" where
  "older_eq a b \<longleftrightarrow> snd a < snd b \<or> snd a = snd b \<and> fst a \<le> fst b"

lemma older_eq_refl [simp]: "older_eq a a" by (simp add: older_eq_def)

lemma older_eq_trans: "older_eq a b \<Longrightarrow> older_eq b c \<Longrightarrow> older_eq a c"
  by (auto simp: older_eq_def)

lemma older_eq_antisym: "older_eq a b \<Longrightarrow> older_eq b a \<Longrightarrow> a = b"
  by (auto simp: older_eq_def prod_eq_iff)

lemma older_eq_total: "older_eq a b \<or> older_eq b a"
  by (auto simp: older_eq_def)

definition claim_of :: "NamedRoom \<Rightarrow> claim" where
  "claim_of room = (rname room, nameStamp room)"

definition sound_claim :: "NamedRoom \<Rightarrow> rat \<Rightarrow> claim \<Rightarrow> bool" where
  \<comment> \<open>an announcement an up-to-date client makes, no further ahead than the clocks allow\<close>
  "sound_claim room now c \<longleftrightarrow> fst c \<noteq> [] \<and> fst c \<noteq> nroomCode room \<and> wire_trim (fst c) = fst c \<and>
     LEGACY_NAME_AT \<le> snd c \<and> snd c \<le> now + MAX_FUTURE_MS"

abbreviation hear_name :: "NamedRoom \<Rightarrow> claim \<times> rat \<Rightarrow> NamedRoom" where
  \<comment> \<open>a claim, and the receiver's clock when it comes\<close>
  "hear_name room x \<equiv> snd (handleRoomName room (fst (fst x)) (Some (Finite (snd (fst x)))) (snd x))"

lemma take_claim:
  assumes "sound_claim room now c" "isChosenName room"
  shows "(if older_eq c (claim_of room) then snd (handleRoomName room (fst c) (Some (Finite (snd c))) now) = room
     else claim_of (snd (handleRoomName room (fst c) (Some (Finite (snd c))) now)) = c) \<and>
     isChosenName (snd (handleRoomName room (fst c) (Some (Finite (snd c))) now)) \<and>
     nroomCode (snd (handleRoomName room (fst c) (Some (Finite (snd c))) now)) = nroomCode room"
  using assms
  by (cases c) (auto simp: handleRoomName_def applyRoomName_def judgeRoomName_def renameRoom_def sound_claim_def
      claim_of_def older_eq_def isChosenName_def nameStamp_def Let_def LEGACY_NAME_AT_def PLACEHOLDER_NAME_AT_def
      split: verdict.splits)

lemma hear_names_newest:
  assumes "isChosenName room" "list_all (\<lambda>(c, now). sound_claim room now c) xs"
  shows "claim_of (foldl hear_name room xs) \<in> insert (claim_of room) (fst ` set xs) \<and>
     (\<forall>c \<in> insert (claim_of room) (fst ` set xs). older_eq c (claim_of (foldl hear_name room xs)))"
  using assms
proof (induction xs arbitrary: room)
  case (Cons x xs)
  obtain c now where x: "x = (c, now)" by (cases x)
  let ?r = "hear_name room x"
  have s: "sound_claim room now c" using Cons.prems(2) x by simp
  note t = take_claim [OF s Cons.prems(1)]
  have chosen: "isChosenName ?r" and code: "nroomCode ?r = nroomCode room" using t x by auto
  have "list_all (\<lambda>(c, now). sound_claim ?r now c) xs"
    using Cons.prems(2) code by (auto simp: sound_claim_def list_all_iff)
  note ih = Cons.IH [OF chosen this]
  have r: "claim_of ?r = (if older_eq c (claim_of room) then claim_of room else c)"
    using t x by (auto split: if_splits)
  have up: "older_eq c (claim_of ?r)" "older_eq (claim_of room) (claim_of ?r)"
    using r older_eq_total [of c "claim_of room"] by auto
  have "claim_of ?r = claim_of room \<or> claim_of ?r = c" using r by auto
  then show ?case using ih up x by (auto intro: older_eq_trans)
qed simp

text \<open>C27: members agree on a room's name: take two members whose rooms have chosen names and who hear
  announcements in any order, with repetitions and at different times, each within the clock
  tolerance. If the names either of them started with or heard are the same, both end on the same
  name with the same stamp, and it is the newest of them.\<close>

theorem room_names_converge:
  assumes "isChosenName r1" "isChosenName r2"
    and "list_all (\<lambda>(c, now). sound_claim r1 now c) xs" and "list_all (\<lambda>(c, now). sound_claim r2 now c) ys"
    and "insert (claim_of r1) (fst ` set xs) = insert (claim_of r2) (fst ` set ys)"
  shows "claim_of (foldl hear_name r1 xs) = claim_of (foldl hear_name r2 ys) \<and>
     list_all (\<lambda>(c, now). older_eq c (claim_of (foldl hear_name r1 xs))) xs"
proof -
  note a = hear_names_newest [OF assms(1,3)] and b = hear_names_newest [OF assms(2,4)]
  have "older_eq (claim_of (foldl hear_name r1 xs)) (claim_of (foldl hear_name r2 ys))"
    "older_eq (claim_of (foldl hear_name r2 ys)) (claim_of (foldl hear_name r1 xs))"
    using a b assms(5) by blast+
  then show ?thesis using a by (auto simp: list_all_iff intro: older_eq_antisym)
qed

definition demo_room :: NamedRoom where
  "demo_room = \<lparr>nroomCode = ''rd2_x'', rname = ''old'', nameAt = None\<rparr>"

theorem room_names_converge_witness:
  "claim_of (foldl hear_name demo_room [((''new'', 5), 10), ((''b'', 5), 11)]) =
     claim_of (foldl hear_name demo_room [((''b'', 5), 20), ((''new'', 5), 21), ((''b'', 5), 22)]) \<and>
   list_all (\<lambda>(c, now). older_eq c (claim_of (foldl hear_name demo_room [((''new'', 5), 10), ((''b'', 5), 11)])))
     [((''new'', 5), 10), ((''b'', 5), 11 :: rat)]"
  by (rule room_names_converge)
    (auto simp: demo_room_def isChosenName_def sound_claim_def wire_trim_def js_trim_def is_space_def
      LEGACY_NAME_AT_def MAX_FUTURE_MS_def PLACEHOLDER_NAME_AT_def)

text \<open>A rename made here wins over the name it replaces, on this device and on every other.\<close>

lemma rename_wins:
  assumes "wire_trim name \<noteq> []" "wire_trim name \<noteq> nroomCode room" "0 < now"
  shows "isChosenName (renameRoomEverywhere room name now) \<and>
     nameStamp room < nameStamp (renameRoomEverywhere room name now)"
proof -
  have "nameStamp room < nextNameStamp (Some room) now" "0 < nextNameStamp (Some room) now"
    using assms(3) by (auto simp: nextNameStamp_def max_def)
  then show ?thesis using assms
    by (auto simp: renameRoomEverywhere_def renameRoom_def Let_def isChosenName_def nameStamp_def PLACEHOLDER_NAME_AT_def
        split: option.splits if_splits)
qed

end
