(* ===== verification/Sfu_Pool.thy ===== *)
theory Sfu_Pool
  imports Prelude "HOL-Library.Word"
begin

unbundle bit_operations_syntax

text \<open>
  Which SFU serves a room, \<^verbatim>\<open>frontend/src/lib/transport/sfu-pool.ts\<close>: highest-random-weight
  placement over FNV-1a. \<^verbatim>\<open>Math.imul\<close> and \<^verbatim>\<open>>>> 0\<close> work modulo 2 to the 32:
  the hash is a 32-bit word. The configured pool is an argument.
\<close>

definition FNV_OFFSET :: "32 word" where "FNV_OFFSET = 0x811c9dc5"
definition FNV_PRIME :: "32 word" where "FNV_PRIME = 0x01000193"

definition fnv_step :: "32 word \<Rightarrow> nat \<Rightarrow> 32 word" where
  "fnv_step h c = (h XOR of_nat c) * FNV_PRIME"

definition hash32 :: "string \<Rightarrow> nat" where
  "hash32 s = unat (foldl (\<lambda>h c. fnv_step h (of_char c)) FNV_OFFSET s)"

definition weight :: "string \<Rightarrow> string \<Rightarrow> nat" where
  "weight roomCode url = hash32 (roomCode @ [CHR 0x00] @ url)"

fun pick :: "string \<Rightarrow> string \<times> int \<Rightarrow> string list \<Rightarrow> string \<times> int" where
  "pick roomCode b [] = b"
| "pick roomCode (best, bestWeight) (url # pool) =
     (let w = int (weight roomCode url) in
      if bestWeight < w \<or> w = bestWeight \<and> url < best then pick roomCode (url, w) pool
      else pick roomCode (best, bestWeight) pool)"

definition sfuForRoom :: "string \<Rightarrow> string list \<Rightarrow> string option" where
  "sfuForRoom roomCode pool =
     (case pool of
        [] \<Rightarrow> None
      | [u] \<Rightarrow> Some u
      | u # _ \<Rightarrow> Some (fst (pick roomCode (u, -1) pool)))"

section \<open>The choice\<close>

definition beats :: "string \<Rightarrow> string \<Rightarrow> string \<Rightarrow> bool" where
  \<comment> \<open>a total order on servers, one for each room\<close>
  "beats roomCode u v \<longleftrightarrow> weight roomCode v < weight roomCode u \<or> weight roomCode v = weight roomCode u \<and> u \<le> v"

lemma beats_refl [simp]: "beats r u u" by (simp add: beats_def)

lemma beats_trans: "beats r u v \<Longrightarrow> beats r v w \<Longrightarrow> beats r u w"
  by (auto simp: beats_def)

lemma beats_antisym: "beats r u v \<Longrightarrow> beats r v u \<Longrightarrow> u = v"
  by (auto simp: beats_def)

lemma pick_best:
  "u = fst (pick r (b, int (weight r b)) pool) \<Longrightarrow> u \<in> insert b (set pool) \<and> (\<forall>v \<in> insert b (set pool). beats r u v)"
proof (induction pool arbitrary: b)
  case (Cons v pool)
  show ?case
  proof (cases "weight r b < weight r v \<or> weight r v = weight r b \<and> v < b")
    case True
    then have "beats r v b" by (auto simp: beats_def)
    then show ?thesis using Cons True by (auto simp: Let_def intro: beats_trans)
  next
    case False
    then have "beats r b v" by (auto simp: beats_def)
    then show ?thesis using Cons False by (auto simp: Let_def intro: beats_trans)
  qed
qed simp

lemma sfuForRoom_best:
  assumes "sfuForRoom r pool = Some u"
  shows "u \<in> set pool \<and> (\<forall>v \<in> set pool. beats r u v)"
proof (cases pool rule: list.exhaust)
  case (Cons x xs)
  show ?thesis
  proof (cases xs)
    case Nil
    then show ?thesis using Cons assms by (simp add: sfuForRoom_def)
  next
    case (Cons y ys)
    have "u = fst (pick r (x, int (weight r x)) xs)"
      using assms \<open>pool = x # xs\<close> Cons by (simp add: sfuForRoom_def Let_def)
    from pick_best [OF this] show ?thesis using \<open>pool = x # xs\<close> by simp
  qed
qed (use assms in \<open>simp add: sfuForRoom_def\<close>)

lemma sfuForRoom_defined: "pool \<noteq> [] \<Longrightarrow> \<exists>u. sfuForRoom r pool = Some u"
  by (auto simp: sfuForRoom_def split: list.splits)

lemma sfuForRoom_unique:
  assumes "sfuForRoom r pool = Some u" "w \<in> set pool" "\<forall>v \<in> set pool. beats r w v"
  shows "u = w"
  using sfuForRoom_best [OF assms(1)] assms(2,3) by (blast intro: beats_antisym)

text \<open>C28: every device picks the same server, and a new server moves only the rooms it takes: for every
  room code and every pool of servers some server of the pool is chosen; two lists with the same
  servers, in whatever order and however often they name them, give the same choice; and when a server
  is added, a room either stays where it was or goes to the new one.\<close>

theorem sfu_placement_stable:
  assumes "pool \<noteq> []"
  shows "(\<exists>u \<in> set pool. sfuForRoom roomCode pool = Some u) \<and>
     (set pool' = set pool \<longrightarrow> sfuForRoom roomCode pool' = sfuForRoom roomCode pool) \<and>
     (set pool' = insert new (set pool) \<longrightarrow>
        sfuForRoom roomCode pool' = sfuForRoom roomCode pool \<or> sfuForRoom roomCode pool' = Some new)"
proof -
  obtain u where u: "sfuForRoom roomCode pool = Some u" using sfuForRoom_defined [OF assms] by blast
  note b = sfuForRoom_best [OF u]
  have other: "\<exists>v. sfuForRoom roomCode pool' = Some v" if "set pool \<subseteq> set pool'"
    using that assms by (intro sfuForRoom_defined) auto
  have same: "sfuForRoom roomCode pool' = Some u" if "set pool' = set pool"
    using other that sfuForRoom_unique [of roomCode pool' _ u] b by auto
  moreover have "v = u" if "set pool' = insert new (set pool)" "sfuForRoom roomCode pool' = Some v" "v \<noteq> new" for v
    using that sfuForRoom_best [OF that(2)] b by (blast intro: beats_antisym)
  ultimately show ?thesis using u b other by (cases "sfuForRoom roomCode pool'") auto
qed

theorem sfu_placement_stable_witness:
  "(\<exists>u \<in> set [''wss://a'', ''wss://b'']. sfuForRoom ''room'' [''wss://a'', ''wss://b''] = Some u) \<and>
   sfuForRoom ''room'' [''wss://b'', ''wss://a''] = sfuForRoom ''room'' [''wss://a'', ''wss://b''] \<and>
   (sfuForRoom ''room'' [''wss://b'', ''wss://a'', ''wss://c''] = sfuForRoom ''room'' [''wss://a'', ''wss://b''] \<or>
    sfuForRoom ''room'' [''wss://b'', ''wss://a'', ''wss://c''] = Some ''wss://c'')"
proof -
  have p: "[''wss://a'', ''wss://b''] \<noteq> []" by simp
  have s: "set [''wss://b'', ''wss://a''] = set [''wss://a'', ''wss://b'']" by auto
  have n: "set [''wss://b'', ''wss://a'', ''wss://c''] = insert ''wss://c'' (set [''wss://a'', ''wss://b''])" by auto
  show ?thesis
    using sfu_placement_stable [OF p, of "''room''" "[''wss://b'', ''wss://a'']" "[]"]
      sfu_placement_stable [OF p, of "''room''" "[''wss://b'', ''wss://a'', ''wss://c'']" "''wss://c''"] s n
    by (simp only: simp_thms)
qed

end
