(* ===== verification/Js_Text.thy ===== *)
theory Js_Text
  imports Js_Json
begin

text \<open>
  \<^verbatim>\<open>JSON.stringify\<close> on arbitrary values. The texts that are signed are such texts, so what a
  signature says about its parts rests on \<open>json_text\<close> being injective: on the values that parsing
  JSON gives, two values with the same text are the same value, properties and their order included.
\<close>

fun json_text :: "js_value \<Rightarrow> string" where
  \<comment> \<open>as an element of an array; a property that is \<^verbatim>\<open>undefined\<close> is left out\<close>
  "json_text JUndefined = ''null''"
| "json_text JNull = ''null''"
| "json_text (JBool b) = (if b then ''true'' else ''false'')"
| "json_text (JNum (JInt i)) = show_int i"
| "json_text (JNum (JNonInt t)) = (if not_finite t then ''null'' else t)"
| "json_text (JStr s) = json_quote s"
| "json_text (JArr vs) = ''['' @ js_join '','' (map json_text vs) @ '']''"
| "json_text (JObj ps) =
     ''{'' @ js_join '','' (map (\<lambda>(k, v). json_quote k @ '':'' @ json_text v)
       (filter (\<lambda>(k, v). v \<noteq> JUndefined) ps)) @ ''}''"

definition num_char :: "char \<Rightarrow> bool" where
  "num_char c \<longleftrightarrow> is_digit c \<or> c \<in> set ''-+.e''"

definition fraction_text :: "string \<Rightarrow> bool" where
  "fraction_text t \<longleftrightarrow> list_all num_char t \<and> (CHR ''.'' \<in> set t \<or> CHR ''e'' \<in> set t) \<and> hd t \<noteq> CHR ''e''"

fun json_value :: "js_value \<Rightarrow> bool" where
  \<comment> \<open>what \<^verbatim>\<open>JSON.parse\<close> returns, with its integers safe and its other numbers finite\<close>
  "json_value JUndefined \<longleftrightarrow> False"
| "json_value JNull \<longleftrightarrow> True"
| "json_value (JBool b) \<longleftrightarrow> True"
| "json_value (JNum (JInt i)) \<longleftrightarrow> \<bar>i\<bar> \<le> MAX_SAFE_INTEGER"
| "json_value (JNum (JNonInt t)) \<longleftrightarrow> fraction_text t"
| "json_value (JStr s) \<longleftrightarrow> True"
| "json_value (JArr vs) \<longleftrightarrow> list_all json_value vs"
| "json_value (JObj ps) \<longleftrightarrow> list_all (\<lambda>(k, v). json_value v) ps"

section \<open>Injectivity\<close>

definition stops :: "string \<Rightarrow> bool" where
  "stops r \<longleftrightarrow> (case r of [] \<Rightarrow> True | c # _ \<Rightarrow> c \<in> set '',]}'')"

definition readable :: "('a \<Rightarrow> string) \<Rightarrow> 'a \<Rightarrow> 'a \<Rightarrow> bool" where
  \<comment> \<open>the texts of the two values, read up to a stop, tell them apart\<close>
  "readable f x y \<longleftrightarrow> (\<forall>r s. stops r \<longrightarrow> stops s \<longrightarrow> f x @ r = f y @ s \<longrightarrow> x = y \<and> r = s)"

lemma readableD: "readable f x y \<Longrightarrow> f x @ r = f y @ s \<Longrightarrow> stops r \<Longrightarrow> stops s \<Longrightarrow> x = y \<and> r = s"
  by (auto simp: readable_def)

lemma js_join_Cons: "js_join '','' (x # xs) @ c # r = x @ (if xs = [] then c # r else CHR '','' # js_join '','' xs @ c # r)"
  by (cases xs) auto

lemma join_readable:
  assumes "c \<in> set '']}''"
  shows "(\<And>x y. x \<in> set xs \<Longrightarrow> y \<in> set ys \<Longrightarrow> readable f x y) \<Longrightarrow> (\<And>x. x \<in> set xs \<union> set ys \<Longrightarrow> \<not> stops (f x)) \<Longrightarrow>
    js_join '','' (map f xs) @ c # r = js_join '','' (map f ys) @ c # s \<Longrightarrow> xs = ys \<and> r = s"
proof (induction xs arbitrary: ys)
  case Nil
  show ?case
  proof (cases ys)
    case (Cons y ys')
    then have "\<not> stops (f y)" using Nil.prems(2) by simp
    then obtain d t where "f y = d # t" "d \<noteq> c" using assms by (cases "f y") (auto simp: stops_def)
    then show ?thesis using Nil.prems(3) Cons by (simp only: list.map js_join_Cons) simp
  qed (use Nil.prems(3) in simp)
next
  case (Cons x xs)
  show ?case
  proof (cases ys)
    case Nil
    have "\<not> stops (f x)" using Cons.prems(2) by simp
    then obtain d t where "f x = d # t" "d \<noteq> c" using assms by (cases "f x") (auto simp: stops_def)
    then show ?thesis using Cons.prems(3) Nil by (simp only: list.map js_join_Cons) simp
  next
    case ys: (Cons y ys')
    let ?rest = "\<lambda>zs r. if zs = [] then c # r else CHR '','' # js_join '','' (map f zs) @ c # r"
    have eq: "f x @ ?rest xs r = f y @ ?rest ys' s"
      using Cons.prems(3) unfolding ys list.map js_join_Cons by simp
    have st: "stops (?rest zs q)" for zs q using assms by (auto simp: stops_def)
    have "readable f x y" using Cons.prems(1) ys by simp
    from readableD [OF this eq st st] have xy: "x = y" "?rest xs r = ?rest ys' s" by auto
    show ?thesis
    proof (cases "xs = [] \<or> ys' = []")
      case True
      then have "xs = [] \<and> ys' = []" using xy(2) assms by (auto split: if_splits)
      then show ?thesis using xy ys by simp
    next
      case False
      then have "js_join '','' (map f xs) @ c # r = js_join '','' (map f ys') @ c # s" using xy(2) by simp
      then have "xs = ys' \<and> r = s" by (intro Cons.IH) (use Cons.prems(1,2) ys in auto)
      then show ?thesis using xy(1) ys by simp
    qed
  qed
qed

text \<open>Numbers: their text ends where the characters of numbers do.\<close>

lemma num_stop: "stops (c # r) \<Longrightarrow> \<not> num_char c"
  by (auto simp: stops_def num_char_def is_digit_def)

lemma num_text_append:
  assumes "list_all num_char a" "list_all num_char b" "a @ r = b @ s" "stops r" "stops s"
  shows "a = b \<and> r = s"
proof -
  have tw: "takeWhile num_char (x @ q) = x" if "list_all num_char x" "stops q" for x q
    using that num_stop by (cases q) (auto simp: takeWhile_append list_all_iff)
  have "a = b" using tw [OF assms(1,4)] tw [OF assms(2,5)] assms(3) by metis
  with assms(3) show ?thesis by simp
qed

lemma digits_num: "list_all is_digit s \<Longrightarrow> list_all num_char s"
  by (auto simp: list_all_iff num_char_def)

lemma show_int_num: "list_all num_char (show_int i)"
  using digits_num [OF show_nat_digits] by (simp add: show_int_def num_char_def)

lemma show_int_plain: "CHR ''.'' \<notin> set (show_int i)" "CHR ''e'' \<notin> set (show_int i)"
  using show_nat_digits [of "nat i"] show_nat_digits [of "nat (- i)"]
  by (auto simp: show_int_def list_all_iff is_digit_def)

lemma show_nat_not_Nil [simp]: "show_nat n \<noteq> []"
  by (subst show_nat.simps) simp

lemma show_int_inject [simp]: "show_int i = show_int j \<longleftrightarrow> i = j"
proof
  have neg: "hd (show_nat n) \<noteq> CHR ''-''" for n
    using show_nat_digits [of n] by (cases "show_nat n") (auto simp: is_digit_def)
  assume "show_int i = show_int j"
  then show "i = j" using neg [of "nat i"] neg [of "nat j"] by (auto simp: show_int_def split: if_splits) (metis list.sel(1))+
qed simp

lemma hd_show_int: "is_digit (hd (show_int i)) \<or> hd (show_int i) = CHR ''-''"
  using show_nat_digits [of "nat i"] by (cases "show_nat (nat i)") (auto simp: show_int_def)

lemma fraction_finite: "fraction_text t \<Longrightarrow> \<not> not_finite t"
proof -
  have "list_all (\<lambda>t. \<not> fraction_text t) [''NaN'', ''Infinity'', ''-Infinity'']" by code_simp
  then show "fraction_text t \<Longrightarrow> \<not> not_finite t" unfolding not_finite_def list_all_iff by blast
qed

lemma hd_fraction: "fraction_text t \<Longrightarrow> t \<noteq> [] \<and> num_char (hd t) \<and> hd t \<noteq> CHR ''e''"
  by (cases t) (auto simp: fraction_text_def)

definition text_class :: "js_value \<Rightarrow> nat" where
  \<comment> \<open>what the first character of a value's text tells\<close>
  "text_class v = (case v of JUndefined \<Rightarrow> 0 | JNull \<Rightarrow> 0 | JBool b \<Rightarrow> if b then 1 else 2 | JNum _ \<Rightarrow> 3
     | JStr _ \<Rightarrow> 4 | JArr _ \<Rightarrow> 5 | JObj _ \<Rightarrow> 6)"

definition char_class :: "char \<Rightarrow> nat" where
  "char_class c = (if c = CHR ''n'' then 0 else if c = CHR ''t'' then 1 else if c = CHR ''f'' then 2
     else if c = CHR 0x22 then 4 else if c = CHR ''['' then 5 else if c = CHR ''{'' then 6 else 3)"

lemma num_class: "num_char c \<Longrightarrow> char_class c = 3 \<and> c \<notin> set '',]}''" (is "_ \<Longrightarrow> ?concl")
proof -
  have "list_all (\<lambda>d. \<not> num_char d) (CHR 0x22 # ''ntf[{,]}'')" by code_simp
  then show "num_char c \<Longrightarrow> ?concl" unfolding list.pred_inject char_class_def by auto
qed

lemma text_starts:
  assumes "json_value v"
  shows "json_text v \<noteq> [] \<and> char_class (hd (json_text v)) = text_class v \<and> hd (json_text v) \<notin> set '',]}''"
proof (cases v rule: json_text.cases)
  case (4 i)
  have "num_char (hd (show_int i))" "show_int i \<noteq> []"
    using hd_show_int [of i] by (auto simp: num_char_def show_int_def)
  then show ?thesis using num_class [of "hd (show_int i)"] by (simp add: 4 text_class_def)
next
  case (5 t)
  then show ?thesis using assms hd_fraction [of t] num_class [of "hd t"] by (simp add: text_class_def fraction_finite)
qed (use assms in \<open>simp_all add: text_class_def char_class_def json_quote_def\<close>)

lemma text_not_stops: "json_value v \<Longrightarrow> \<not> stops (json_text v)"
  using text_starts [of v] by (cases "json_text v") (auto simp: stops_def)

lemma same_class:
  assumes "json_value v" "json_value w" "json_text v @ r = json_text w @ s"
  shows "text_class v = text_class w"
  using text_starts [OF assms(1)] text_starts [OF assms(2)] assms(3) by (metis hd_append2)

lemma number_readable:
  assumes "json_value (JNum m)" "json_value (JNum n)" "json_text (JNum m) @ r = json_text (JNum n) @ s" "stops r" "stops s"
  shows "m = n \<and> r = s"
proof -
  have num: "list_all num_char (json_text (JNum k))" if "json_value (JNum k)" for k
    using that show_int_num by (cases k) (auto simp: fraction_finite, simp add: fraction_text_def)
  from num_text_append [OF num [OF assms(1)] num [OF assms(2)] assms(3-5)]
  have "json_text (JNum m) = json_text (JNum n)" "r = s" by auto
  moreover from this(1) have "m = n"
    using assms(1,2) show_int_plain by (cases m; cases n) (auto simp: fraction_finite, auto simp: fraction_text_def)
  ultimately show ?thesis by simp
qed

lemma json_text_readable: "json_value v \<Longrightarrow> json_value w \<Longrightarrow> readable json_text v w"
proof (induction v arbitrary: w)
  case (JArr vs)
  show ?case unfolding readable_def
  proof (intro allI impI)
    fix r s assume st: "stops r" "stops s" and eq: "json_text (JArr vs) @ r = json_text w @ s"
    have "text_class w = 5" using same_class [OF JArr.prems eq] by (simp add: text_class_def)
    then obtain ws where w: "w = JArr ws" by (cases w) (auto simp: text_class_def split: if_splits)
    have "vs = ws \<and> r = s"
      by (rule join_readable [of "CHR '']''" vs ws json_text])
        (use JArr eq w text_not_stops in \<open>auto simp: list_all_iff\<close>)
    with w show "JArr vs = w \<and> r = s" by simp
  qed
next
  case (JObj ps)
  let ?g = "\<lambda>(k, v). json_quote k @ '':'' @ json_text v"
  have full: "filter (\<lambda>(k, v). v \<noteq> JUndefined) qs = qs" if "json_value (JObj qs)" for qs
    using that by (auto simp: filter_id_conv list_all_iff)
  have g: "readable ?g p q" if "p \<in> set ps" "json_value (snd q)" for p q
  proof -
    obtain k v l u where p: "p = (k, v)" and q: "q = (l, u)" by (metis prod.exhaust)
    have "readable json_text v u" using JObj.IH [of p v u] JObj.prems that p q by (auto simp: list_all_iff)
    then show ?thesis unfolding readable_def p q by (auto dest!: json_quote_append)
  qed
  show ?case unfolding readable_def
  proof (intro allI impI)
    fix r s assume st: "stops r" "stops s" and eq: "json_text (JObj ps) @ r = json_text w @ s"
    have "text_class w = 6" using same_class [OF JObj.prems eq] by (simp add: text_class_def)
    then obtain qs where w: "w = JObj qs" by (cases w) (auto simp: text_class_def split: if_splits)
    have "js_join '','' (map ?g ps) @ CHR ''}'' # r = js_join '','' (map ?g qs) @ CHR ''}'' # s"
      using eq full [OF JObj.prems(1)] full JObj.prems(2) unfolding w by simp
    moreover have "readable ?g p q" if "p \<in> set ps" "q \<in> set qs" for p q
      by (rule g [OF that(1)]) (use that(2) JObj.prems(2) w in \<open>auto simp: list_all_iff case_prod_unfold\<close>)
    moreover have "\<not> stops (?g p)" for p by (cases p) (simp add: json_quote_def stops_def)
    ultimately have "ps = qs \<and> r = s" by (intro join_readable [of "CHR ''}''" ps qs ?g]) auto
    with w show "JObj ps = w \<and> r = s" by simp
  qed
next
  case (JStr x)
  show ?case unfolding readable_def
  proof (intro allI impI)
    fix r s assume eq: "json_text (JStr x) @ r = json_text w @ s"
    have "text_class w = 4" using same_class [OF JStr.prems eq] by (simp add: text_class_def)
    then obtain y where "w = JStr y" by (cases w) (auto simp: text_class_def split: if_splits)
    with eq show "JStr x = w \<and> r = s" by (auto dest: json_quote_append)
  qed
next
  case (JNum n)
  show ?case unfolding readable_def
  proof (intro allI impI)
    fix r s assume st: "stops r" "stops s" and eq: "json_text (JNum n) @ r = json_text w @ s"
    have "text_class w = 3" using same_class [OF JNum.prems eq] by (simp add: text_class_def)
    then obtain m where w: "w = JNum m" by (cases w) (auto simp: text_class_def split: if_splits)
    with number_readable [of n m r s] JNum.prems eq st show "JNum n = w \<and> r = s" by simp
  qed
next
  case (JBool b)
  show ?case unfolding readable_def
  proof (intro allI impI)
    fix r s assume eq: "json_text (JBool b) @ r = json_text w @ s"
    have "text_class w = (if b then 1 else 2)" using same_class [OF JBool.prems eq] by (simp add: text_class_def)
    then have "w = JBool b" by (cases w) (auto simp: text_class_def split: if_splits)
    with eq show "JBool b = w \<and> r = s" by auto
  qed
next
  case JNull
  show ?case unfolding readable_def
  proof (intro allI impI)
    fix r s assume eq: "json_text JNull @ r = json_text w @ s"
    have "text_class w = 0" using same_class [OF JNull.prems eq] by (simp add: text_class_def)
    then have "w = JNull" using JNull.prems by (cases w) (auto simp: text_class_def split: if_splits)
    with eq show "JNull = w \<and> r = s" by auto
  qed
qed simp

theorem json_text_inject: "json_value v \<Longrightarrow> json_value w \<Longrightarrow> json_text v = json_text w \<longleftrightarrow> v = w"
  using readableD [OF json_text_readable, of v w "[]" "[]"] by (auto simp: stops_def)

end
