(* ===== verification/Message_Id.thy ===== *)
theory Message_Id
  imports Js_Json
begin

text \<open>
  Message ids bound to their sender, \<^verbatim>\<open>frontend/src/lib/message-id.ts\<close>. SHA-256 is a package:
  it is the argument \<open>sha\<close>, a function on bytes of which only the length of its result matters. The random
  UUID is an argument. \<^verbatim>\<open>prefixCache\<close> is passed through.
\<close>

type_synonym prefix_cache = "(string, string) jsmap"

definition hex_byte :: "8 word \<Rightarrow> string" where
  \<comment> \<open>\<^verbatim>\<open>b.toString(16).padStart(2, "0")\<close>\<close>
  "hex_byte b = [hex_digit (unat b div 16), hex_digit (unat b mod 16)]"

definition digest_prefix :: "(8 word list \<Rightarrow> 8 word list) \<Rightarrow> string \<Rightarrow> string" where
  "digest_prefix sha senderId = concat (map hex_byte (take 12 (sha (utf8 senderId))))"

definition senderPrefix :: "(8 word list \<Rightarrow> 8 word list) \<Rightarrow> prefix_cache \<Rightarrow> string \<Rightarrow> string \<times> prefix_cache" where
  "senderPrefix sha cache senderId =
     (case js_get cache senderId of
        Some prefix \<Rightarrow> (prefix, cache)
      | None \<Rightarrow>
          let prefix = digest_prefix sha senderId in
          (prefix, js_set (if 1024 < length cache then [] else cache) senderId prefix))"

definition newMessageId :: "(8 word list \<Rightarrow> 8 word list) \<Rightarrow> prefix_cache \<Rightarrow> string \<Rightarrow> string \<Rightarrow> string \<times> prefix_cache" where
  "newMessageId sha cache uuid senderId =
     (let (prefix, cache') = senderPrefix sha cache senderId in (''m'' @ prefix @ ''-'' @ uuid, cache'))"

definition is_hex :: "char \<Rightarrow> bool" where
  "is_hex c \<longleftrightarrow> (let n = of_char c :: nat in 48 \<le> n \<and> n \<le> 57 \<or> 97 \<le> n \<and> n \<le> 102)"

definition bound_id :: "string \<Rightarrow> string option" where
  \<comment> \<open>\<^verbatim>\<open>/^m([0-9a-f]{24})-/\<close>, its group\<close>
  "bound_id i =
     (if take 1 i = ''m'' \<and> length (take 24 (drop 1 i)) = 24 \<and> list_all is_hex (take 24 (drop 1 i)) \<and>
         take 1 (drop 25 i) = ''-''
      then Some (take 24 (drop 1 i)) else None)"

definition messageIdAllowedFor ::
  "(8 word list \<Rightarrow> 8 word list) \<Rightarrow> prefix_cache \<Rightarrow> js_value \<Rightarrow> js_value \<Rightarrow> bool \<times> prefix_cache"
where
  "messageIdAllowedFor sha cache i senderId =
     (case (i, senderId) of
        (JStr x, JStr s) \<Rightarrow>
          if x = [] then (False, cache)
          else (case bound_id x of
                  None \<Rightarrow> (True, cache)
                | Some b \<Rightarrow> let (prefix, cache') = senderPrefix sha cache s in (b = prefix, cache'))
      | _ \<Rightarrow> (False, cache))"

section \<open>Whom an id names\<close>

definition cache_ok :: "(8 word list \<Rightarrow> 8 word list) \<Rightarrow> prefix_cache \<Rightarrow> bool" where
  "cache_ok sha cache \<longleftrightarrow> list_all (\<lambda>(s, p). p = digest_prefix sha s) cache \<and> length cache \<le> 1025"

lemma senderPrefix_ok:
  assumes "cache_ok sha cache"
  shows "fst (senderPrefix sha cache s) = digest_prefix sha s \<and> cache_ok sha (snd (senderPrefix sha cache s))"
proof (cases "js_get cache s")
  case None
  have "set (js_set cache s (digest_prefix sha s)) \<subseteq> insert (s, digest_prefix sha s) (set cache)" by (rule set_js_set)
  with assms None show ?thesis
    by (auto simp: senderPrefix_def cache_ok_def list_all_iff Let_def)
next
  case (Some p)
  have "(s, p) \<in> set cache" using Some by (rule map_of_SomeD)
  with assms Some show ?thesis by (auto simp: senderPrefix_def cache_ok_def list_all_iff)
qed

lemma hex_digit_hex: "n < 16 \<Longrightarrow> is_hex (hex_digit n)"
  by (auto simp: is_hex_def hex_digit_def Let_def of_char_of take_bit_eq_mod)

lemma hex_digit_inject: "m < 16 \<Longrightarrow> n < 16 \<Longrightarrow> hex_digit m = hex_digit n \<longleftrightarrow> m = n"
  using hex_value_digit by metis

lemma hex_byte_inject: "hex_byte a = hex_byte b \<longleftrightarrow> a = b"
proof
  assume e: "hex_byte a = hex_byte b"
  have a: "unat a < 256" "unat b < 256" using unsigned_less [of a, where ?'a = nat] unsigned_less [of b, where ?'a = nat] by simp_all
  then have "unat a div 16 < 16" "unat b div 16 < 16" by auto
  with e have "unat a div 16 = unat b div 16" "unat a mod 16 = unat b mod 16"
    by (simp_all add: hex_byte_def hex_digit_inject)
  then have "unat a = unat b" by (metis mult_div_mod_eq)
  then show "a = b" by (simp add: word_unat_eq_iff)
qed simp

lemma hex_bytes_inject:
  "length xs = length ys \<Longrightarrow> concat (map hex_byte xs) = concat (map hex_byte ys) \<longleftrightarrow> xs = ys"
proof (induction xs ys rule: list_induct2)
  case (Cons x xs y ys)
  have "hex_byte x @ concat (map hex_byte xs) = hex_byte y @ concat (map hex_byte ys) \<longleftrightarrow>
      hex_byte x = hex_byte y \<and> concat (map hex_byte xs) = concat (map hex_byte ys)"
    by (rule append_eq_append_conv) (simp add: hex_byte_def)
  with Cons show ?case by (simp add: hex_byte_inject)
qed simp

lemma digest_prefix_shape:
  assumes "length (sha (utf8 s)) = 32"
  shows "length (digest_prefix sha s) = 24 \<and> list_all is_hex (digest_prefix sha s)"
proof -
  have "length (concat (map hex_byte xs)) = 2 * length xs" for xs by (induction xs) (simp_all add: hex_byte_def)
  moreover have "list_all is_hex (concat (map hex_byte xs))" for xs
  proof (induction xs)
    case (Cons x xs)
    have "unat x < 256" using unsigned_less [of x, where ?'a = nat] by simp
    then have "unat x div 16 < 16" by auto
    with Cons show ?case by (simp add: hex_byte_def hex_digit_hex)
  qed simp
  ultimately show ?thesis using assms by (simp add: digest_prefix_def)
qed

lemma bound_id_new:
  "length p = 24 \<Longrightarrow> list_all is_hex p \<Longrightarrow> bound_id (''m'' @ p @ ''-'' @ uuid) = Some p"
  by (simp add: bound_id_def)

lemma new_id_verdict:
  assumes "cache_ok sha c1" "cache_ok sha c2" and "length (sha (utf8 s)) = 32"
  shows "fst (messageIdAllowedFor sha c2 (JStr (fst (newMessageId sha c1 uuid s))) (JStr t)) \<longleftrightarrow>
     digest_prefix sha s = digest_prefix sha t"
proof -
  have i: "fst (newMessageId sha c1 uuid s) = ''m'' @ digest_prefix sha s @ ''-'' @ uuid"
    using senderPrefix_ok [OF assms(1), of s] by (simp add: newMessageId_def case_prod_unfold)
  have "bound_id (fst (newMessageId sha c1 uuid s)) = Some (digest_prefix sha s)"
    unfolding i using digest_prefix_shape [of sha s] assms(3) by (intro bound_id_new) auto
  then show ?thesis
    using senderPrefix_ok [OF assms(2), of t] i by (simp add: messageIdAllowedFor_def case_prod_unfold)
qed

text \<open>An id names its sender: whatever the prefix cache has collected, an id made for one
  sender is allowed for that sender, and allowed for another only if the first 96 bits of the two
  senders' digests are the same; so a row under somebody else's id is refused.\<close>

theorem message_id_names_sender:
  assumes "cache_ok sha c1" "cache_ok sha c2" and "length (sha (utf8 s)) = 32" "length (sha (utf8 t)) = 32"
  shows "fst (messageIdAllowedFor sha c2 (JStr (fst (newMessageId sha c1 uuid s))) (JStr t)) \<longleftrightarrow>
     take 12 (sha (utf8 s)) = take 12 (sha (utf8 t))"
  unfolding new_id_verdict [OF assms(1-3)] digest_prefix_def using assms(3,4) by (intro hex_bytes_inject) simp

definition demo_sha :: "8 word list \<Rightarrow> 8 word list" where
  "demo_sha bs = take 32 (bs @ replicate 32 0)"

theorem message_id_names_sender_witness:
  "fst (messageIdAllowedFor demo_sha [] (JStr (fst (newMessageId demo_sha [] ''u'' ''did:a''))) (JStr ''did:b'')) \<longleftrightarrow>
     take 12 (demo_sha (utf8 ''did:a'')) = take 12 (demo_sha (utf8 ''did:b''))"
  by (rule message_id_names_sender) (simp_all add: cache_ok_def demo_sha_def)

end
