(* ===== verification/Message_Signing.thy ===== *)
theory Message_Signing
  imports Js_Text Message_Id Logical_Clock Base64url
begin

text \<open>
  Who wrote a message: the canonical text and the signatures of
  \<^verbatim>\<open>frontend/src/lib/messaging.ts\<close>, the did:key codec of \<^verbatim>\<open>identity/identity.ts\<close>, the hex codec of
  \<^verbatim>\<open>utils.ts\<close>, the file part of the text (\<^verbatim>\<open>room-security/file-descriptor.ts\<close> and the descriptor check
  of \<^verbatim>\<open>file-crypto.ts\<close>) and the gate every message from the network passes,
  \<^verbatim>\<open>transport/verify-incoming.ts\<close>.

  A message off the wire is an arbitrary value. The packages are the fields of \<open>sig_lib\<close>: ed25519,
  base58, base64url and SHA-256. What throws is \<open>Inl\<close>; a throw inside ed25519 is \<open>None\<close>.
\<close>

record sig_lib =
  ed_sign :: "byte list \<Rightarrow> byte list \<Rightarrow> byte list"
  ed_verify :: "byte list \<Rightarrow> byte list \<Rightarrow> byte list \<Rightarrow> bool option"
  base58_encode :: "byte list \<Rightarrow> string"
  base58_decode :: "string \<Rightarrow> byte list option"
  scure_encode :: "byte list \<Rightarrow> string"
  scure_decode :: "string \<Rightarrow> byte list option"
  sha :: "byte list \<Rightarrow> byte list"

datatype sign_error = TypeError | Invalid_descriptor | Size_mismatch | Invalid_did | Bad_hex | Locked

section \<open>Hex\<close>

definition hex :: "byte list \<Rightarrow> string" where
  "hex bytes = concat (map hex_byte bytes)"

definition any_hex :: "char \<Rightarrow> bool" where
  "any_hex c \<longleftrightarrow> is_hex (hd (to_lower [c]))"

definition parse_hex :: "string \<Rightarrow> int" where
  \<comment> \<open>\<^verbatim>\<open>parseInt(s, 16)\<close>, with \<^verbatim>\<open>NaN\<close> already the 0 that a byte array stores for it\<close>
  "parse_hex s =
     (let s1 = dropWhile is_space s;
          neg = (take 1 s1 = ''-'');
          s2 = (if take 1 s1 = ''-'' \<or> take 1 s1 = ''+'' then drop 1 s1 else s1);
          s3 = (if to_lower (take 2 s2) = ''0x'' then drop 2 s2 else s2);
          v = foldl (\<lambda>n c. 16 * n + int (hex_value c)) 0 (to_lower (takeWhile any_hex s3)) in
      if neg then - v else v)"

fun unhex_pairs :: "string \<Rightarrow> byte list" where
  "unhex_pairs (a # b # r) = word_of_int (parse_hex [a, b]) # unhex_pairs r"
| "unhex_pairs _ = []"

definition unhex :: "string \<Rightarrow> sign_error + byte list" where
  "unhex h = (if length h mod 2 \<noteq> 0 then Inl Bad_hex else Inr (unhex_pairs h))"

section \<open>Identities\<close>

definition ED25519_MULTICODEC :: "byte list" where "ED25519_MULTICODEC = [0xed, 0x01]"

definition publicKeyToDid :: "sig_lib \<Rightarrow> byte list \<Rightarrow> string" where
  "publicKeyToDid lib publicKey = ''did:key:'' @ base58_encode lib (ED25519_MULTICODEC @ publicKey)"

definition didToPublicKey :: "sig_lib \<Rightarrow> string \<Rightarrow> sign_error + byte list" where
  "didToPublicKey lib did =
     (if take 8 did \<noteq> ''did:key:'' then Inl Invalid_did
      else case base58_decode lib (drop 8 did) of
             None \<Rightarrow> Inl Invalid_did
           | Some prefixed \<Rightarrow>
               let key = drop (length ED25519_MULTICODEC) prefixed in
               if length key \<noteq> 32 \<or> publicKeyToDid lib key \<noteq> did then Inl Invalid_did else Inr key)"

section \<open>File descriptors\<close>

definition CHUNK :: int where "CHUNK = 1024 * 1024"
definition MAX_SIZE :: int where "MAX_SIZE = 1024 ^ 4"

definition url64 :: "char \<Rightarrow> bool" where
  "url64 c \<longleftrightarrow> c \<in> set ''ABCDEFGHIJKLMNOPQRSTUVWXYZabcdefghijklmnopqrstuvwxyz0123456789_-''"

definition canonical64 :: "sig_lib \<Rightarrow> nat \<Rightarrow> js_value \<Rightarrow> bool" where
  \<comment> \<open>the pattern of that length and the re-encoding test; only a string passes the latter\<close>
  "canonical64 lib n v = (case v of
       JStr s \<Rightarrow> length s = n \<and> list_all url64 s \<and> map_option (scure_encode lib) (scure_decode lib s) = Some s
     | _ \<Rightarrow> False)"

definition validateFileEncryption :: "sig_lib \<Rightarrow> js_value \<Rightarrow> sign_error + unit" where
  "validateFileEncryption lib d =
     (if \<not> (case d of JObj _ \<Rightarrow> True | JArr _ \<Rightarrow> True | _ \<Rightarrow> False) then Inl Invalid_descriptor
      else if js_prop d ''version'' \<noteq> JNum (JInt 2) \<or> js_prop d ''chunkSize'' \<noteq> JNum (JInt CHUNK) \<or>
              \<not> isSafeInteger (js_prop d ''size'') \<or> as_int (js_prop d ''size'') < 0 \<or> MAX_SIZE < as_int (js_prop d ''size'') \<or>
              \<not> canonical64 lib 43 (js_prop d ''key'') \<or> \<not> canonical64 lib 22 (js_prop d ''id'')
      then Inl Invalid_descriptor
      else Inr ())"

definition encryptedFileSize :: "sig_lib \<Rightarrow> js_value \<Rightarrow> sign_error + js_value" where
  "encryptedFileSize lib file =
     (let e = js_prop file ''encryption'' in
      if \<not> js_truthy e then Inr (js_prop file ''size'')
      else case validateFileEncryption lib e of
             Inl x \<Rightarrow> Inl x
           | Inr _ \<Rightarrow>
               if js_prop file ''size'' \<noteq> js_prop e ''size'' then Inl Size_mismatch
               else let size = as_int (js_prop file ''size''); chunk = as_int (js_prop e ''chunkSize'') in
                 Inr (JNum (JInt (size + max 1 ((size + chunk - 1) div chunk) * 16))))"

definition acceptsFileDescriptors :: "sig_lib \<Rightarrow> string option \<Rightarrow> js_value \<Rightarrow> bool" where
  "acceptsFileDescriptors lib room files =
     (if \<not> (case room of None \<Rightarrow> False | Some r \<Rightarrow> take 4 r = ''rd2_'' \<or> take 3 r = ''dm-'') then True
      else case files of
             JArr fs \<Rightarrow> fs \<noteq> [] \<and> list_all (\<lambda>file. js_truthy (js_prop file ''encryption'') \<and>
               (case encryptedFileSize lib file of Inr (JNum (JInt _)) \<Rightarrow> True | _ \<Rightarrow> False)) fs
           | _ \<Rightarrow> False)"

fun js_to_string :: "js_value \<Rightarrow> string option" where
  \<comment> \<open>a value in a template string; an object of JSON with a \<^verbatim>\<open>toString\<close> of its own cannot be converted\<close>
  "js_to_string JUndefined = Some ''undefined''"
| "js_to_string JNull = Some ''null''"
| "js_to_string (JBool b) = Some (if b then ''true'' else ''false'')"
| "js_to_string (JNum (JInt i)) = Some (show_int i)"
| "js_to_string (JNum (JNonInt t)) = Some t"
| "js_to_string (JStr s) = Some s"
| "js_to_string (JArr vs) =
     map_option (js_join '','') (those (map (\<lambda>v. if v = JUndefined \<or> v = JNull then Some [] else js_to_string v) vs))"
| "js_to_string (JObj ps) = (if map_of ps ''toString'' \<noteq> None then None else Some ''[object Object]'')"

definition nullish :: "js_value \<Rightarrow> js_value" where
  \<comment> \<open>\<^verbatim>\<open>v ?? null\<close>\<close>
  "nullish v = (if v = JUndefined then JNull else v)"

definition descriptor_fields :: "js_value \<Rightarrow> js_value list" where
  "descriptor_fields file =
     (let e = js_prop file ''encryption'' in
      [JStr ''awful:file-descriptor:v2'', js_prop file ''infoHash'', js_prop file ''size'', js_prop file ''mimeType'',
       js_prop file ''filename'', js_prop e ''version'', js_prop e ''key'', js_prop e ''id'', js_prop e ''size'',
       js_prop e ''chunkSize'', nullish (js_prop file ''width''), nullish (js_prop file ''height'')])"

definition fileSignatureBinding :: "sig_lib \<Rightarrow> js_value \<Rightarrow> sign_error + string" where
  "fileSignatureBinding lib file =
     (if file = JUndefined \<or> file = JNull then Inl TypeError
      else case those (map js_to_string [js_prop file ''infoHash'', js_prop file ''size'', js_prop file ''mimeType'', js_prop file ''filename'']) of
             None \<Rightarrow> Inl TypeError
           | Some parts \<Rightarrow>
               if \<not> js_truthy (js_prop file ''encryption'') then Inr (js_join '':'' parts)
               else case encryptedFileSize lib file of
                      Inl x \<Rightarrow> Inl x
                    | Inr _ \<Rightarrow> Inr (json_text (JArr (descriptor_fields file))))"

section \<open>The canonical text\<close>

fun bind_all :: "('a \<Rightarrow> sign_error + 'b) \<Rightarrow> 'a list \<Rightarrow> sign_error + 'b list" where
  "bind_all f [] = Inr []"
| "bind_all f (x # xs) =
     (case f x of Inl e \<Rightarrow> Inl e | Inr y \<Rightarrow> (case bind_all f xs of Inl e \<Rightarrow> Inl e | Inr ys \<Rightarrow> Inr (y # ys)))"

definition optional :: "js_value \<Rightarrow> string \<Rightarrow> js_value" where
  \<comment> \<open>\<^verbatim>\<open>v?.k\<close>\<close>
  "optional v k = (if v = JUndefined \<or> v = JNull then JUndefined else js_prop v k)"

definition file_bindings :: "sig_lib \<Rightarrow> js_value \<Rightarrow> sign_error + js_value" where
  \<comment> \<open>\<^verbatim>\<open>msg.meta?.files?.map(fileSignatureBinding) ?? null\<close>\<close>
  "file_bindings lib msg =
     (case optional (js_prop msg ''meta'') ''files'' of
        JUndefined \<Rightarrow> Inr JNull
      | JNull \<Rightarrow> Inr JNull
      | JArr fs \<Rightarrow> (case bind_all (fileSignatureBinding lib) fs of Inl e \<Rightarrow> Inl e | Inr bs \<Rightarrow> Inr (JArr (map JStr bs)))
      | _ \<Rightarrow> Inl TypeError)"

definition common_fields :: "js_value \<Rightarrow> js_value list" where
  "common_fields msg =
     [js_prop msg ''id'', js_prop msg ''senderId'', js_prop msg ''lamport'', js_prop msg ''content'',
      nullish (js_prop msg ''reactionTo''), nullish (js_prop msg ''reactionEmoji''), nullish (js_prop msg ''reactionOp''),
      nullish (optional (js_prop msg ''replyTo'') ''id'')]"

definition canonicalContent :: "js_value \<Rightarrow> sign_error + string" where
  "canonicalContent msg =
     (case those (map js_to_string [js_prop msg ''id'', js_prop msg ''senderId'', js_prop msg ''lamport'', js_prop msg ''content'']) of
        None \<Rightarrow> Inl TypeError
      | Some parts \<Rightarrow> Inr (js_join '':'' parts))"

definition canonicalContentV2 :: "sig_lib \<Rightarrow> js_value \<Rightarrow> sign_error + string" where
  "canonicalContentV2 lib msg =
     (case file_bindings lib msg of Inl e \<Rightarrow> Inl e | Inr fs \<Rightarrow> Inr (json_text (JArr (common_fields msg @ [fs]))))"

definition freshness :: "js_value \<Rightarrow> js_value list" where
  "freshness msg = (if js_prop msg ''type'' = JStr ''plugin_ephemeral'' then [nullish (js_prop msg ''timestamp'')] else [])"

definition canonicalContentV3 :: "sig_lib \<Rightarrow> js_value \<Rightarrow> sign_error + string" where
  "canonicalContentV3 lib msg =
     (case file_bindings lib msg of
        Inl e \<Rightarrow> Inl e
      | Inr fs \<Rightarrow> Inr (json_text (JArr ([JNum (JInt 3), nullish (js_prop msg ''type''), nullish (js_prop msg ''roomCode'')] @
                   common_fields msg @ [fs] @ freshness msg))))"

definition canonicalFor :: "sig_lib \<Rightarrow> js_value \<Rightarrow> sign_error + string" where
  "canonicalFor lib msg =
     (if js_prop msg ''sigV'' = JNum (JInt 3) then canonicalContentV3 lib msg
      else if js_prop msg ''sigV'' = JNum (JInt 2) then canonicalContentV2 lib msg
      else canonicalContent msg)"

record UnlockedSession =
  privateKey :: "byte list"
  spublicKey :: "byte list"
  sdid :: string

definition set_prop :: "js_value \<Rightarrow> string \<Rightarrow> js_value \<Rightarrow> js_value" where
  "set_prop msg k v = (case msg of JObj ps \<Rightarrow> JObj (js_set ps k v) | _ \<Rightarrow> msg)"

definition signMessage :: "sig_lib \<Rightarrow> UnlockedSession option \<Rightarrow> js_value \<Rightarrow> sign_error + js_value" where
  "signMessage lib session message =
     (case session of
        None \<Rightarrow> Inl Locked
      | Some s \<Rightarrow>
          (case canonicalContentV3 lib message of
             Inl e \<Rightarrow> Inl e
           | Inr text \<Rightarrow>
               Inr (set_prop (set_prop (set_prop message ''senderDid'' (JStr (sdid s)))
                      ''sig'' (JStr (hex (ed_sign lib (utf8 text) (privateKey s))))) ''sigV'' (JNum (JInt 3)))))"

fun unhex_array :: "js_value list \<Rightarrow> sign_error + byte list" where
  \<comment> \<open>\<^verbatim>\<open>unhex\<close> handed an array: pairs of elements are converted to a string together\<close>
  "unhex_array (a # b # r) =
     (case js_to_string (JArr [a, b]) of
        None \<Rightarrow> Inl TypeError
      | Some s \<Rightarrow> (case unhex_array r of Inl e \<Rightarrow> Inl e | Inr bs \<Rightarrow> Inr (word_of_int (parse_hex s) # bs)))"
| "unhex_array [] = Inr []"
| "unhex_array [_] = Inl Bad_hex"

definition unhex_value :: "js_value \<Rightarrow> sign_error + byte list" where
  "unhex_value v = (case v of JStr h \<Rightarrow> unhex h | JArr vs \<Rightarrow> unhex_array vs | _ \<Rightarrow> Inl Bad_hex)"

definition verifySignature :: "sig_lib \<Rightarrow> string \<Rightarrow> js_value \<Rightarrow> string \<Rightarrow> bool" where
  "verifySignature lib senderDid sig content =
     (case didToPublicKey lib senderDid of
        Inl _ \<Rightarrow> False
      | Inr publicKey \<Rightarrow>
          (case unhex_value sig of
             Inl _ \<Rightarrow> False
           | Inr s \<Rightarrow> ed_verify lib s (utf8 content) publicKey = Some True))"

definition verifyMessage :: "sig_lib \<Rightarrow> js_value \<Rightarrow> bool" where
  "verifyMessage lib message =
     (if \<not> js_truthy (js_prop message ''senderDid'') \<or> \<not> js_truthy (js_prop message ''sig'') then False
      else case (canonicalFor lib message, js_prop message ''senderDid'') of
             (Inr text, JStr did) \<Rightarrow> verifySignature lib did (js_prop message ''sig'') text
           | _ \<Rightarrow> False)"

definition peerBindingContent :: "string \<Rightarrow> string \<Rightarrow> string" where
  "peerBindingContent did peerId = ''awful:peer-binding:v1:'' @ did @ '':'' @ peerId"

definition signPeerBinding :: "sig_lib \<Rightarrow> UnlockedSession option \<Rightarrow> string \<Rightarrow> sign_error + string \<times> string" where
  "signPeerBinding lib session peerId =
     (case session of
        None \<Rightarrow> Inl Locked
      | Some s \<Rightarrow> Inr (sdid s, hex (ed_sign lib (utf8 (peerBindingContent (sdid s) peerId)) (privateKey s))))"

definition verifyPeerBinding :: "sig_lib \<Rightarrow> string \<Rightarrow> string \<Rightarrow> string \<Rightarrow> bool" where
  "verifyPeerBinding lib did peerId bindingSig =
     (if did = [] \<or> peerId = [] \<or> bindingSig = [] then False
      else verifySignature lib did (JStr bindingSig) (peerBindingContent did peerId))"

section \<open>The gate\<close>

definition MAX_CHAT_CONTENT_LENGTH :: nat where "MAX_CHAT_CONTENT_LENGTH = 16384"
definition MAX_MESSAGE_FILES :: nat where "MAX_MESSAGE_FILES = 16"
definition VERIFIED_MAX :: nat where "VERIFIED_MAX = 512"
definition VERIFIED_KEY_MAX :: nat where "VERIFIED_KEY_MAX = 4096"

record VerifyOpts =
  vroom :: "string option"
  allowUnsigned :: bool

datatype VerifyReason =
  Invalid_lamport | Content_type | Content_oversize | Too_many_files | Unsigned | Sig_version
  | No_did | Did_mismatch | No_room | Id_sender | Bad_signature

datatype VerifyVerdict = Ok | Refused VerifyReason

definition rememberVerified :: "string list \<Rightarrow> string \<Rightarrow> string list" where
  "rememberVerified verified key =
     (if VERIFIED_KEY_MAX < length key then verified
      else let v = set_add (set_remove verified key) key in
        if VERIFIED_MAX < length v then set_remove v (hd v) else v)"

definition verified_key :: "string \<Rightarrow> js_value \<Rightarrow> string \<Rightarrow> string" where
  "verified_key did sig canonical = json_text (JArr [JStr did, sig, JStr canonical])"

definition check_signature :: "sig_lib \<Rightarrow> string list \<Rightarrow> string \<Rightarrow> js_value \<Rightarrow> string \<Rightarrow> VerifyVerdict \<times> string list" where
  "check_signature lib verified did sig canonical =
     (let key = verified_key did sig canonical in
      if key \<in> set verified then (Ok, verified)
      else if verifySignature lib did sig canonical then (Ok, rememberVerified verified key)
      else (Refused Bad_signature, verified))"

definition verify_signed ::
  "sig_lib \<Rightarrow> string list \<Rightarrow> js_value \<Rightarrow> string option \<Rightarrow> (sign_error + VerifyVerdict) \<times> string list"
where
  \<comment> \<open>from the test of the signature's version on\<close>
  "verify_signed lib verified wire room =
     (if js_prop wire ''sigV'' \<noteq> JNum (JInt 3) then (Inr (Refused Sig_version), verified)
      else if \<not> js_truthy (js_prop wire ''senderDid'') then (Inr (Refused No_did), verified)
      else case js_prop wire ''senderDid'' of
             JStr did \<Rightarrow>
               if js_prop wire ''senderId'' \<noteq> JStr did then (Inr (Refused Did_mismatch), verified)
               else if room = None \<or> room = Some [] then (Inr (Refused No_room), verified)
               else (case canonicalContentV3 lib (set_prop wire ''roomCode'' (JStr (the room))) of
                       Inl e \<Rightarrow> (Inl e, verified)
                     | Inr canonical \<Rightarrow>
                         let (v, verified') = check_signature lib verified did (js_prop wire ''sig'') canonical in (Inr v, verified'))
           | _ \<Rightarrow> (Inr (Refused Did_mismatch), verified))"

definition verifyIncoming ::
  "sig_lib \<Rightarrow> clocks \<Rightarrow> prefix_cache \<times> string list \<Rightarrow> js_value \<Rightarrow> VerifyOpts \<Rightarrow>
     (sign_error + VerifyVerdict) \<times> prefix_cache \<times> string list"
where
  "verifyIncoming lib clocks memo wire opts =
     (let (cache, verified) = memo; refuse = \<lambda>r. (Inr (Refused r), cache, verified) in
      if \<not> remoteLamportAllowed clocks (case vroom opts of None \<Rightarrow> [] | Some r \<Rightarrow> r) (js_prop wire ''lamport'') then refuse Invalid_lamport
      else case js_prop wire ''content'' of
             JStr content \<Rightarrow>
               if MAX_CHAT_CONTENT_LENGTH < length content then refuse Content_oversize
               else if (case optional (js_prop wire ''meta'') ''files'' of JArr fs \<Rightarrow> MAX_MESSAGE_FILES < length fs | _ \<Rightarrow> False)
               then refuse Too_many_files
               else
                 let (mine, cache') = messageIdAllowedFor (sha lib) cache (js_prop wire ''id'') (js_prop wire ''senderId'') in
                 if \<not> mine then (Inr (Refused Id_sender), cache', verified)
                 else if \<not> js_truthy (js_prop wire ''sig'')
                 then (Inr (if allowUnsigned opts then Ok else Refused Unsigned), cache', verified)
                 else (let (v, verified') = verify_signed lib verified wire (vroom opts) in (v, cache', verified'))
           | _ \<Rightarrow> refuse Content_type)"

section \<open>Reading and writing properties\<close>

lemma js_prop_set_prop [simp]:
  "js_prop (set_prop (JObj ps) k v) k' = (if k' = k then v else js_prop (JObj ps) k')"
  by (simp add: set_prop_def)

lemma set_prop_obj: "\<exists>qs. set_prop (JObj ps) k v = JObj qs"
  by (simp add: set_prop_def)

lemma json_prop: "json_value v \<Longrightarrow> js_prop v k = JUndefined \<or> json_value (js_prop v k)"
  by (cases v) (auto simp: list_all_iff split: option.split dest!: map_of_SomeD)

lemma json_nullish: "json_value v \<Longrightarrow> json_value (nullish (js_prop v k))"
  using json_prop [of v k] by (auto simp: nullish_def)

lemma json_optional: "json_value v \<Longrightarrow> json_value (nullish (optional (js_prop v k) k'))"
  using json_prop [of v k] json_prop [of "js_prop v k" k'] by (auto simp: nullish_def optional_def)

lemma json_text_nullish: "json_text (JArr (map nullish vs)) = json_text (JArr vs)"
proof -
  have "json_text (nullish v) = json_text v" for v by (simp add: nullish_def)
  then show ?thesis by (simp add: comp_def)
qed

section \<open>Hex\<close>

lemma of_hex_digit: "d < 16 \<Longrightarrow> of_char (hex_digit d) = (if d < 10 then 48 + d else 87 + d)"
  by (simp add: hex_digit_def)

lemma hex_digit_facts:
  assumes "d < 16"
  shows "any_hex (hex_digit d)" "\<not> is_space (hex_digit d)" "hex_digit d \<noteq> CHR ''-''" "hex_digit d \<noteq> CHR ''+''"
    "lower_char (hex_digit d) = hex_digit d" "hex_digit d \<noteq> CHR ''x''"
proof -
  let ?n = "of_char (hex_digit d) :: nat"
  have n: "48 \<le> ?n \<and> ?n \<le> 57 \<or> 97 \<le> ?n \<and> ?n \<le> 102" using of_hex_digit [OF assms] assms by auto
  show l: "lower_char (hex_digit d) = hex_digit d" using n by (auto simp: lower_char_def Let_def)
  show "any_hex (hex_digit d)" using n l by (simp add: any_hex_def to_lower_def is_hex_def Let_def)
  show "\<not> is_space (hex_digit d)" using n by (auto simp: is_space_def Let_def)
  show "hex_digit d \<noteq> CHR ''-''" "hex_digit d \<noteq> CHR ''+''" "hex_digit d \<noteq> CHR ''x''" using n by auto
qed

lemma parse_hex_digits: "i < 16 \<Longrightarrow> j < 16 \<Longrightarrow> parse_hex [hex_digit i, hex_digit j] = int (16 * i + j)"
  by (simp add: parse_hex_def Let_def to_lower_def hex_digit_facts hex_value_digit)

lemma unhex_hex: "unhex (hex bs) = Inr bs"
proof -
  have one: "word_of_int (parse_hex (hex_byte b)) = b" for b
  proof -
    have u: "unat b < 256" using unsigned_less [of b, where ?'a = nat] by simp
    then have "parse_hex (hex_byte b) = int (16 * (unat b div 16) + unat b mod 16)"
      unfolding hex_byte_def by (intro parse_hex_digits) auto
    then show ?thesis by simp
  qed
  have "unhex_pairs (hex bs) = bs"
  proof (induction bs)
    case (Cons b bs)
    then show ?case using one [of b] by (simp add: hex_def hex_byte_def)
  qed (simp add: hex_def)
  moreover have "length (hex bs) = 2 * length bs" by (induction bs) (auto simp: hex_def hex_byte_def)
  ultimately show ?thesis by (simp add: unhex_def)
qed

section \<open>What a signature covers\<close>

definition v3_fields :: "js_value \<Rightarrow> js_value \<Rightarrow> js_value list" where
  "v3_fields msg fs = [JNum (JInt 3), nullish (js_prop msg ''type''), nullish (js_prop msg ''roomCode'')] @
     map nullish (common_fields msg) @ [fs] @ freshness msg"

lemma canonical_text:
  assumes "canonicalContentV3 lib msg = Inr text"
  obtains fs where "file_bindings lib msg = Inr fs" "text = json_text (JArr (v3_fields msg fs))"
proof -
  obtain fs where fs: "file_bindings lib msg = Inr fs" using assms by (auto simp: canonicalContentV3_def split: sum.splits)
  have n: "json_text (nullish v) = json_text v" for v by (simp add: nullish_def)
  have "text = json_text (JArr (v3_fields msg fs))"
    using assms fs by (simp add: canonicalContentV3_def v3_fields_def comp_def n del: js_join.simps)
  with fs that show thesis by blast
qed

lemma canonical_starts:
  assumes "canonicalContentV3 lib msg = Inr text"
  shows "take 3 text = ''[3,''"
proof -
  obtain fs where t: "text = json_text (JArr (v3_fields msg fs))" using canonical_text [OF assms] by blast
  have "show_int 3 = ''3''" by code_simp
  then show ?thesis unfolding t v3_fields_def by simp
qed

lemma file_bindings_json: "file_bindings lib msg = Inr fs \<Longrightarrow> json_value fs"
  by (auto simp: file_bindings_def list_all_iff split: js_value.splits sum.splits)

lemma nullish_nullish [simp]: "nullish (nullish v) = nullish v"
  by (simp add: nullish_def)

lemma v3_fields_json:
  assumes "json_value msg" "json_value fs"
  shows "json_value (JArr (v3_fields msg fs))"
  unfolding v3_fields_def common_fields_def freshness_def
  by (simp add: json_nullish [OF assms(1)] json_optional [OF assms(1)] assms(2))

definition same_message :: "sig_lib \<Rightarrow> js_value \<Rightarrow> js_value \<Rightarrow> bool" where
  "same_message lib m w \<longleftrightarrow>
     list_all (\<lambda>k. nullish (js_prop m k) = nullish (js_prop w k))
       [''type'', ''roomCode'', ''id'', ''senderId'', ''lamport'', ''content'', ''reactionTo'', ''reactionEmoji'', ''reactionOp''] \<and>
     nullish (optional (js_prop m ''replyTo'') ''id'') = nullish (optional (js_prop w ''replyTo'') ''id'') \<and>
     file_bindings lib m = file_bindings lib w \<and> freshness m = freshness w"

lemma canonical_inject:
  assumes "canonicalContentV3 lib m = Inr text" "canonicalContentV3 lib w = Inr text" "json_value m" "json_value w"
  shows "same_message lib m w"
proof -
  obtain fs gs where fs: "file_bindings lib m = Inr fs" "text = json_text (JArr (v3_fields m fs))"
    and gs: "file_bindings lib w = Inr gs" "text = json_text (JArr (v3_fields w gs))"
    using canonical_text [OF assms(1)] canonical_text [OF assms(2)] by metis
  have "json_text (JArr (v3_fields m fs)) = json_text (JArr (v3_fields w gs))" using fs(2) gs(2) by metis
  then have "v3_fields m fs = v3_fields w gs"
    using json_text_inject [OF v3_fields_json [OF assms(3) file_bindings_json [OF fs(1)]] v3_fields_json [OF assms(4) file_bindings_json [OF gs(1)]]]
    by blast
  then show ?thesis using fs(1) gs(1) by (simp add: same_message_def v3_fields_def common_fields_def)
qed

text \<open>With encryption descriptors, the binding fixes every field of the file.\<close>

definition files_of :: "js_value \<Rightarrow> js_value list" where
  "files_of msg = (case optional (js_prop msg ''meta'') ''files'' of JArr fs \<Rightarrow> fs | _ \<Rightarrow> [])"

definition all_encrypted :: "js_value \<Rightarrow> bool" where
  "all_encrypted msg \<longleftrightarrow> list_all (\<lambda>f. js_truthy (js_prop f ''encryption'')) (files_of msg)"

lemma binding_inject:
  assumes "json_value f" "json_value g" "js_truthy (js_prop f ''encryption'')" "js_truthy (js_prop g ''encryption'')"
    and "fileSignatureBinding lib f = Inr b" "fileSignatureBinding lib g = Inr b"
  shows "map nullish (descriptor_fields f) = map nullish (descriptor_fields g)"
proof -
  have b: "b = json_text (JArr (map nullish (descriptor_fields h)))"
    if "js_truthy (js_prop h ''encryption'')" "fileSignatureBinding lib h = Inr b" for h
    using that by (auto simp only: json_text_nullish) (auto simp: fileSignatureBinding_def split: if_splits option.splits sum.splits)
  have j: "json_value (JArr (map nullish (descriptor_fields h)))" if "json_value h" "js_truthy (js_prop h ''encryption'')" for h
  proof -
    have "json_value (js_prop h ''encryption'')" using json_prop [OF that(1), of "''encryption''"] that(2) by (cases "js_prop h ''encryption''") auto
    then show ?thesis unfolding descriptor_fields_def Let_def
      by (simp add: json_nullish json_nullish [OF that(1)] nullish_def [of "JStr _"])
  qed
  show ?thesis
    using json_text_inject [OF j [OF assms(1,3)] j [OF assms(2,4)]] b [OF assms(3,5)] b [OF assms(4,6)] by simp
qed

lemma bind_all_inject:
  assumes "bind_all f xs = Inr bs" "bind_all f ys = Inr bs"
    and "\<And>x y b. x \<in> set xs \<Longrightarrow> y \<in> set ys \<Longrightarrow> f x = Inr b \<Longrightarrow> f y = Inr b \<Longrightarrow> h x = h y"
  shows "map h xs = map h ys"
  using assms
proof (induction xs arbitrary: ys bs)
  case Nil
  then show ?case by (cases ys) (auto split: sum.splits)
next
  case (Cons x xs)
  from Cons.prems(1) obtain b bs' where b: "bs = b # bs'" "f x = Inr b" "bind_all f xs = Inr bs'"
    by (auto split: sum.splits)
  with Cons.prems(2) obtain y ys' where y: "ys = y # ys'" "f y = Inr b" "bind_all f ys' = Inr bs'"
    by (cases ys) (auto split: sum.splits)
  have "map h xs = map h ys'" by (rule Cons.IH [OF b(3) y(3)]) (use Cons.prems(3) y(1) in auto)
  then show ?case using Cons.prems(3) [of x y b] b y by simp
qed

lemma json_files:
  assumes "json_value m" "f \<in> set (files_of m)"
  shows "json_value f"
proof -
  obtain fs where fs: "optional (js_prop m ''meta'') ''files'' = JArr fs" "f \<in> set fs"
    using assms(2) by (cases "optional (js_prop m ''meta'') ''files''") (simp_all add: files_of_def)
  have "json_value (JArr fs)" using json_optional [OF assms(1), of "''meta''" "''files''"] by (simp add: nullish_def fs(1))
  with fs(2) show ?thesis by (simp add: list_all_iff)
qed

lemma same_files:
  assumes "same_message lib m w" "file_bindings lib w = Inr fs" "json_value m" "json_value w" "all_encrypted m" "all_encrypted w"
  shows "map (map nullish \<circ> descriptor_fields) (files_of m) = map (map nullish \<circ> descriptor_fields) (files_of w)"
proof -
  have eq: "file_bindings lib m = Inr fs" using assms(1,2) by (simp add: same_message_def)
  have inj: "map JStr xs = map JStr ys \<Longrightarrow> xs = ys" for xs ys by (simp add: inj_def inj_map_eq_map)
  have part: "(fs = JNull \<and> files_of x = []) \<or> (\<exists>bs. fs = JArr (map JStr bs) \<and> bind_all (fileSignatureBinding lib) (files_of x) = Inr bs)"
    if "file_bindings lib x = Inr fs" for x
    using that by (auto simp: file_bindings_def files_of_def split: js_value.splits sum.splits)
  show ?thesis
  proof (cases "fs = JNull")
    case True
    then show ?thesis using part [OF eq] part [OF assms(2)] by auto
  next
    case False
    then obtain bs bs' where "fs = JArr (map JStr bs)" "bind_all (fileSignatureBinding lib) (files_of m) = Inr bs"
        "fs = JArr (map JStr bs')" "bind_all (fileSignatureBinding lib) (files_of w) = Inr bs'"
      using part [OF eq] part [OF assms(2)] by blast
    then have b: "bind_all (fileSignatureBinding lib) (files_of m) = Inr bs" "bind_all (fileSignatureBinding lib) (files_of w) = Inr bs"
      using inj by auto
    show ?thesis unfolding comp_def
    proof (rule bind_all_inject [OF b])
      fix f g b assume "f \<in> set (files_of m)" "g \<in> set (files_of w)" "fileSignatureBinding lib f = Inr b" "fileSignatureBinding lib g = Inr b"
      then show "map nullish (descriptor_fields f) = map nullish (descriptor_fields g)"
        using assms(5,6) json_files [OF assms(3)] json_files [OF assms(4)]
        by (intro binding_inject) (auto simp: all_encrypted_def list_all_iff)
    qed
  qed
qed

text \<open>Without one it does not: the parts are joined by colons that they may contain themselves.\<close>

lemma legacy_binding_ambiguous:
  "fileSignatureBinding lib (JObj [(''infoHash'', JStr ''h''), (''size'', JNum (JInt 1)), (''mimeType'', JStr ''text/html''), (''filename'', JStr ''a:b'')]) =
   fileSignatureBinding lib (JObj [(''infoHash'', JStr ''h''), (''size'', JNum (JInt 1)), (''mimeType'', JStr ''text/html:a''), (''filename'', JStr ''b'')])"
  by (simp add: fileSignatureBinding_def)

section \<open>The memory of verified signatures\<close>

definition memo_ok :: "sig_lib \<Rightarrow> string list \<Rightarrow> bool" where
  "memo_ok lib verified \<longleftrightarrow> distinct verified \<and> length verified \<le> VERIFIED_MAX \<and>
     (\<forall>key \<in> set verified. \<exists>did sig text. key = verified_key did sig text \<and> json_value sig \<and> verifySignature lib did sig text)"

lemma verified_key_inject:
  "json_value sig \<Longrightarrow> json_value sig' \<Longrightarrow>
     verified_key did sig text = verified_key did' sig' text' \<longleftrightarrow> did = did' \<and> sig = sig' \<and> text = text'"
  unfolding verified_key_def by (subst json_text_inject) auto

lemma length_set_remove_hd: "v \<noteq> [] \<Longrightarrow> distinct v \<Longrightarrow> length (set_remove v (hd v)) = length v - 1"
proof (cases v)
  case (Cons a u)
  moreover assume "distinct v"
  ultimately have "filter (\<lambda>y. y \<noteq> a) u = u" by (auto simp: filter_id_conv)
  with Cons show ?thesis by (simp add: set_remove_def)
qed simp

lemma remember_ok:
  assumes "memo_ok lib verified" "json_value sig" "verifySignature lib did sig text"
  shows "memo_ok lib (rememberVerified verified (verified_key did sig text))"
proof -
  let ?k = "verified_key did sig text"
  let ?v = "set_add (set_remove verified ?k) ?k"
  have d: "distinct ?v" "set ?v = insert ?k (set verified)" using assms(1) by (auto simp: memo_ok_def)
  have "length ?v = card (insert ?k (set verified))" using distinct_card [OF d(1)] d(2) by simp
  also have "\<dots> \<le> Suc (length verified)" using card_insert_le_m1 card_length [of verified] by (simp add: card_insert_if)
  finally have l: "length ?v \<le> Suc VERIFIED_MAX" using assms(1) by (simp add: memo_ok_def)
  have ne: "?v \<noteq> []" using d(2) by (metis empty_iff empty_set insertI1)
  then have drop: "length (set_remove ?v (hd ?v)) = length ?v - 1" using d(1) by (rule length_set_remove_hd)
  have all: "\<forall>key \<in> set ?v. \<exists>did sig text. key = verified_key did sig text \<and> json_value sig \<and> verifySignature lib did sig text"
    unfolding d(2) using assms by (auto simp: memo_ok_def)
  show ?thesis
    using assms(1) d(1) l drop all by (auto simp: rememberVerified_def Let_def memo_ok_def)
qed

lemma check_signature_verdict:
  assumes "memo_ok lib verified" "json_value sig"
  shows "fst (check_signature lib verified did sig text) = (if verifySignature lib did sig text then Ok else Refused Bad_signature)"
    and "memo_ok lib (snd (check_signature lib verified did sig text))"
proof -
  have hit: "verifySignature lib did sig text" if "verified_key did sig text \<in> set verified"
    using assms that verified_key_inject unfolding memo_ok_def by metis
  show "fst (check_signature lib verified did sig text) = (if verifySignature lib did sig text then Ok else Refused Bad_signature)"
    using hit by (auto simp: check_signature_def Let_def)
  show "memo_ok lib (snd (check_signature lib verified did sig text))"
    using assms remember_ok by (auto simp: check_signature_def Let_def)
qed

end
