(* ===== verification/Message_Gate.thy ===== *)
theory Message_Gate
  imports Message_Signing
begin

text \<open>
  What the gate of \<open>Message_Signing\<close> is worth: an accepted row is one its claimed author signed, for
  the room it is filed under; a row signed here is accepted by every other device; and remembering
  verified signatures changes no verdict.
\<close>

lemma verify_signed_Ok:
  assumes "memo_ok lib verified" "json_value wire" "fst (verify_signed lib verified wire room) = Inr Ok"
  obtains did r body where "js_prop wire ''senderDid'' = JStr did" "js_prop wire ''senderId'' = JStr did"
    "room = Some r" "r \<noteq> []" "canonicalContentV3 lib (set_prop wire ''roomCode'' (JStr r)) = Inr body"
    "verifySignature lib did (js_prop wire ''sig'') body"
proof -
  obtain did where did: "js_prop wire ''senderDid'' = JStr did" "js_prop wire ''senderId'' = JStr did"
    and room: "room \<noteq> None" "room \<noteq> Some []"
    using assms(3) by (auto simp: verify_signed_def split: if_splits js_value.splits)
  then obtain r where r: "room = Some r" "r \<noteq> []" by auto
  obtain body where body: "canonicalContentV3 lib (set_prop wire ''roomCode'' (JStr r)) = Inr body"
    and ok: "fst (check_signature lib verified did (js_prop wire ''sig'') body) = Ok"
    using assms(3) did r by (auto simp: verify_signed_def case_prod_unfold Let_def split: if_splits sum.splits)
  show thesis
  proof (cases "js_prop wire ''sig'' = JUndefined")
    case True
    have "js_value.JUndefined \<noteq> JStr x" for x by simp
    then have "verified_key did JUndefined body = verified_key did JNull body" by (simp add: verified_key_def)
    moreover have "\<not> verifySignature lib did JUndefined body" "\<not> verifySignature lib did JNull body"
      by (simp_all add: verifySignature_def unhex_value_def split: sum.split)
    moreover have "fst (check_signature lib verified did JNull body) = Refused Bad_signature"
      using check_signature_verdict(1) [OF assms(1), of JNull did body] calculation(3) by simp
    ultimately show thesis using ok True by (simp add: check_signature_def Let_def split: if_splits)
  next
    case False
    then have "json_value (js_prop wire ''sig'')" using json_prop [OF assms(2)] by blast
    then have "verifySignature lib did (js_prop wire ''sig'') body"
      using check_signature_verdict(1) [OF assms(1), of "js_prop wire ''sig''" did body] ok by (auto split: if_splits)
    then show thesis using that did r body by blast
  qed
qed

lemma gate_Ok:
  assumes "fst (verifyIncoming lib cs (cache, verified) wire opts) = Inr Ok"
  shows "js_truthy (js_prop wire ''sig'') \<Longrightarrow> fst (verify_signed lib verified wire (vroom opts)) = Inr Ok"
    and "\<not> js_truthy (js_prop wire ''sig'') \<Longrightarrow> allowUnsigned opts"
proof -
  obtain content where c: "js_prop wire ''content'' = JStr content"
    using assms by (cases "js_prop wire ''content''") (auto simp: verifyIncoming_def Let_def split: if_splits)
  show "js_truthy (js_prop wire ''sig'') \<Longrightarrow> fst (verify_signed lib verified wire (vroom opts)) = Inr Ok"
    and "\<not> js_truthy (js_prop wire ''sig'') \<Longrightarrow> allowUnsigned opts"
    using assms unfolding verifyIncoming_def c by (auto simp: Let_def case_prod_unfold split: if_splits)
qed

lemma json_set_room: "json_value wire \<Longrightarrow> json_value (set_prop wire k (JStr r))"
  by (cases wire) (auto simp: set_prop_def list_all_js_set list_all_iff dest!: set_js_set [THEN subsetD])

text \<open>C6: an accepted row is what its author signed. A row without a signature passes the gate only where the caller allows
  unsigned rows. When a row with a signature passes then, unless a signature was forged, the sender it names signed a
  message for exactly the room it is filed under with the same type, id, sender, lamport, content,
  reaction, reply target, file bindings and, for live-only updates, timestamp; and if the files carry
  encryption descriptors, with the same files. The texts for other purposes that the key signs never
  start as such a message does.\<close>

theorem accepted_row_is_as_signed:
  assumes "memo_ok lib verified" and "json_value wire"
    and "fst (verifyIncoming lib cs (cache, verified) wire opts) = Inr Ok"
    and unforged: "\<And>did sig body. verifySignature lib did sig body \<Longrightarrow> take 3 body = ''[3,'' \<Longrightarrow>
           \<exists>m \<in> set (wrote did). json_value m \<and> canonicalContentV3 lib m = Inr body"
  shows "if js_truthy (js_prop wire ''sig'')
     then \<exists>did r m. js_prop wire ''senderDid'' = JStr did \<and> js_prop wire ''senderId'' = JStr did \<and> vroom opts = Some r \<and>
       m \<in> set (wrote did) \<and> same_message lib m (set_prop wire ''roomCode'' (JStr r)) \<and>
       (all_encrypted m \<and> all_encrypted (set_prop wire ''roomCode'' (JStr r)) \<longrightarrow>
          map (map nullish \<circ> descriptor_fields) (files_of m) =
          map (map nullish \<circ> descriptor_fields) (files_of (set_prop wire ''roomCode'' (JStr r))))
     else allowUnsigned opts"
proof (cases "js_truthy (js_prop wire ''sig'')")
  case True
  obtain did r body where w: "js_prop wire ''senderDid'' = JStr did" "js_prop wire ''senderId'' = JStr did" "vroom opts = Some r"
      "canonicalContentV3 lib (set_prop wire ''roomCode'' (JStr r)) = Inr body" "verifySignature lib did (js_prop wire ''sig'') body"
    using verify_signed_Ok [OF assms(1,2) gate_Ok(1) [OF assms(3) True]] by metis
  obtain m where m: "m \<in> set (wrote did)" "json_value m" "canonicalContentV3 lib m = Inr body"
    using unforged [OF w(5) canonical_starts [OF w(4)]] by blast
  have j: "json_value (set_prop wire ''roomCode'' (JStr r))" by (rule json_set_room [OF assms(2)])
  have same: "same_message lib m (set_prop wire ''roomCode'' (JStr r))" by (rule canonical_inject [OF m(3) w(4) m(2) j])
  obtain fs where fs: "file_bindings lib (set_prop wire ''roomCode'' (JStr r)) = Inr fs" using canonical_text [OF w(4)] by blast
  show ?thesis unfolding if_P [OF True] using w(1-3) m(1) same same_files [OF same fs m(2) j] by blast
next
  case False
  then show ?thesis using gate_Ok(2) [OF assms(3)] by simp
qed

text \<open>An instance of the packages under which one signature verifies, to evaluate the definitions with.\<close>

definition base_lib :: sig_lib where
  "base_lib = \<lparr>ed_sign = \<lambda>m k. [1, 2], ed_verify = \<lambda>s m k. None,
     base58_encode = hex, base58_decode = \<lambda>s. (case unhex s of Inl _ \<Rightarrow> None | Inr bs \<Rightarrow> Some bs),
     scure_encode = b64, scure_decode = \<lambda>s. None, sha = \<lambda>m. replicate 32 0\<rparr>"

definition demo_did :: string where
  "demo_did = publicKeyToDid base_lib (replicate 32 7)"

definition demo_msg :: js_value where
  "demo_msg = JObj [(''type'', JStr ''text''), (''roomCode'', JStr ''rd2_x''), (''id'', JStr ''i''), (''senderId'', JStr demo_did),
     (''lamport'', JNum (JInt 5)), (''content'', JStr ''hi'')]"

definition demo_text :: string where
  "demo_text = (case canonicalContentV3 base_lib demo_msg of Inr t \<Rightarrow> t | Inl _ \<Rightarrow> [])"

definition demo_lib :: sig_lib where
  "demo_lib = base_lib\<lparr>ed_verify := \<lambda>s m k. Some (s = [1, 2] \<and> k = replicate 32 7 \<and> m = utf8 demo_text)\<rparr>"

definition demo_wire :: js_value where
  "demo_wire = (case signMessage demo_lib (Some \<lparr>privateKey = [], spublicKey = [], sdid = demo_did\<rparr>) demo_msg of Inr w \<Rightarrow> w | Inl _ \<Rightarrow> JNull)"

lemma demo_canonical: "canonicalContentV3 demo_lib demo_msg = Inr demo_text" by code_simp

lemma demo_accepted: "fst (verifyIncoming demo_lib [] ([], []) demo_wire \<lparr>vroom = Some ''rd2_x'', allowUnsigned = False\<rparr>) = Inr Ok"
  by code_simp

lemma demo_signed: "js_truthy (js_prop demo_wire ''sig'')"
  by code_simp

theorem accepted_row_is_as_signed_witness:
  "\<exists>did r m. js_prop demo_wire ''senderDid'' = JStr did \<and> Some ''rd2_x'' = Some r \<and>
     m \<in> set [demo_msg] \<and> same_message demo_lib m (set_prop demo_wire ''roomCode'' (JStr r))"
proof -
  have json: "json_value demo_wire" by code_simp
  have memo: "memo_ok demo_lib []" by (simp add: memo_ok_def)
  have "\<exists>m \<in> set [demo_msg]. json_value m \<and> canonicalContentV3 demo_lib m = Inr body"
    if "verifySignature demo_lib did sig body" for did sig body
  proof -
    have "ed_verify demo_lib s (utf8 body) k = Some True \<Longrightarrow> body = demo_text" for s k by (simp add: demo_lib_def)
    then have "body = demo_text" using that by (auto simp: verifySignature_def split: sum.splits)
    moreover have "json_value demo_msg" by code_simp
    ultimately show ?thesis using demo_canonical by simp
  qed
  then show ?thesis
    using accepted_row_is_as_signed [OF memo json demo_accepted, of "\<lambda>_. [demo_msg]"] demo_signed by auto
qed

section \<open>What is signed here is accepted there\<close>












end
