(* ===== verification/Profile_Echo.thy ===== *)
theory Profile_Echo
  imports Sfu_Pool
begin

text \<open>
  Which peers have our profile, and the encoded frames kept of it:
  \<^verbatim>\<open>frontend/src/lib/transport/profile-echo.ts\<close>. Images are byte strings (\<^verbatim>\<open>ArrayBuffer\<close>
  contents, not identities, decide \<^verbatim>\<open>sameBytes\<close>); the encoder \<^verbatim>\<open>build\<close> of the caller is an argument.
\<close>

definition PROFILE_ECHO_WINDOW_MS :: int where "PROFILE_ECHO_WINDOW_MS = 5000"

definition frameHash :: "8 word list \<Rightarrow> nat" where
  "frameHash bytes = unat (foldl (\<lambda>h b. fnv_step h (unat b)) FNV_OFFSET bytes)"

record sent_frame =
  shash :: nat
  sat :: int

record ProfileEcho =
  sent :: "(string, (string, sent_frame) jsmap) jsmap"
  holding :: "(string, (string, nat) jsmap) jsmap"

definition new_echo :: ProfileEcho where
  "new_echo = \<lparr>sent = [], holding = []\<rparr>"

definition shouldSend :: "int \<Rightarrow> ProfileEcho \<Rightarrow> string \<Rightarrow> nat \<Rightarrow> int \<Rightarrow> string \<Rightarrow> bool \<times> ProfileEcho" where
  "shouldSend windowMs e peerId hash now scope =
     (let scopes = js_get_or [] (sent e) peerId in
      if (case js_get scopes scope of
            None \<Rightarrow> False
          | Some last' \<Rightarrow> shash last' = hash \<and> now - sat last' < windowMs) then (False, e)
      else (True, e\<lparr>sent := js_set (sent e) peerId (js_set scopes scope \<lparr>shash = hash, sat = now\<rparr>)\<rparr>))"

definition delivered_profile :: "ProfileEcho \<Rightarrow> string \<Rightarrow> nat \<Rightarrow> string \<Rightarrow> ProfileEcho" where
  "delivered_profile e peerId hash scope =
     e\<lparr>holding := js_set (holding e) peerId (js_set (js_get_or [] (holding e) peerId) scope hash)\<rparr>"

definition holds_profile :: "ProfileEcho \<Rightarrow> string \<Rightarrow> nat \<Rightarrow> string \<Rightarrow> bool" where
  "holds_profile e peerId hash scope \<longleftrightarrow>
     (case js_get (holding e) peerId of None \<Rightarrow> False | Some scopes \<Rightarrow> js_get scopes scope = Some hash)"

definition delete_inner :: "(string, (string, 'v) jsmap) jsmap \<Rightarrow> string \<Rightarrow> string \<Rightarrow> (string, (string, 'v) jsmap) jsmap" where
  \<comment> \<open>\<^verbatim>\<open>m.get(peerId)?.delete(scope)\<close>\<close>
  "delete_inner m peerId scope =
     (case js_get m peerId of None \<Rightarrow> m | Some scopes \<Rightarrow> js_set m peerId (js_delete scopes scope))"

definition forget_profile :: "ProfileEcho \<Rightarrow> string \<Rightarrow> string option \<Rightarrow> ProfileEcho" where
  "forget_profile e peerId scope =
     (case scope of
        None \<Rightarrow> e\<lparr>sent := js_delete (sent e) peerId, holding := js_delete (holding e) peerId\<rparr>
      | Some s \<Rightarrow> e\<lparr>sent := delete_inner (sent e) peerId s, holding := delete_inner (holding e) peerId s\<rparr>)"

definition clear_echo :: "ProfileEcho \<Rightarrow> ProfileEcho" where
  "clear_echo e = \<lparr>sent = [], holding = []\<rparr>"

section \<open>Frames\<close>

type_synonym image = "8 word list option"

record cached_frame =
  fkey :: string
  images :: "image list"
  frame :: "8 word list"
  fhash :: nat

record ProfileFrames =
  pframes :: "(string, (bool, cached_frame) jsmap) jsmap"
  pgeneration :: nat

definition new_frames :: ProfileFrames where
  "new_frames = \<lparr>pframes = [], pgeneration = 0\<rparr>"

fun sameBytes :: "image \<Rightarrow> image \<Rightarrow> bool" where
  "sameBytes None None \<longleftrightarrow> True"
| "sameBytes (Some x) (Some y) \<longleftrightarrow> length x = length y \<and> list_all2 (=) x y"
| "sameBytes _ _ \<longleftrightarrow> False"

definition last_frame :: "ProfileFrames \<Rightarrow> string \<Rightarrow> bool \<Rightarrow> cached_frame option" where
  "last_frame p scope reply =
     (case js_get (pframes p) scope of None \<Rightarrow> None | Some forms \<Rightarrow> js_get forms reply)"

definition still_good :: "cached_frame \<Rightarrow> string \<Rightarrow> image list \<Rightarrow> bool" where
  "still_good l key imgs \<longleftrightarrow> fkey l = key \<and> length (images l) = length imgs \<and>
     list_all (\<lambda>(a, b). sameBytes a b) (zip (images l) imgs)"

definition keep_frame :: "ProfileFrames \<Rightarrow> string \<Rightarrow> bool \<Rightarrow> cached_frame \<Rightarrow> nat \<Rightarrow> ProfileFrames" where
  "keep_frame p scope reply built gen =
     (if gen = pgeneration p
      then p\<lparr>pframes := js_set (pframes p) scope (js_set (js_get_or [] (pframes p) scope) reply built)\<rparr>
      else p)"

definition get_frame ::
  "ProfileFrames \<Rightarrow> string \<Rightarrow> bool \<Rightarrow> string \<Rightarrow> image list \<Rightarrow> 8 word list \<Rightarrow> nat \<Rightarrow> cached_frame \<times> ProfileFrames"
where
  \<comment> \<open>\<open>built\<close> is what \<^verbatim>\<open>build()\<close> returns if it is called\<close>
  "get_frame p scope reply key imgs built gen =
     (case last_frame p scope reply of
        Some l \<Rightarrow>
          if still_good l key imgs then (l, p)
          else (let b = \<lparr>fkey = key, images = imgs, frame = built, fhash = frameHash built\<rparr> in
                (b, keep_frame p scope reply b gen))
      | None \<Rightarrow>
          (let b = \<lparr>fkey = key, images = imgs, frame = built, fhash = frameHash built\<rparr> in
           (b, keep_frame p scope reply b gen)))"

definition retain :: "ProfileFrames \<Rightarrow> string list \<Rightarrow> ProfileFrames" where
  "retain p scopes = p\<lparr>pframes := filter (\<lambda>(scope, _). scope \<in> set scopes) (pframes p)\<rparr>"

definition clear_frames :: "ProfileFrames \<Rightarrow> ProfileFrames" where
  "clear_frames p = \<lparr>pframes = [], pgeneration = pgeneration p + 1\<rparr>"

section \<open>What is sent and to whom\<close>

lemma holds_delivered:
  "holds_profile (delivered_profile e p h s) p' h' s' \<longleftrightarrow>
     (if p' = p \<and> s' = s then h' = h else holds_profile e p' h' s')"
  by (auto simp: holds_profile_def delivered_profile_def js_get_or_def split: option.splits)

lemma holds_forget:
  "holds_profile (forget_profile e p sc) p' h' s' \<longleftrightarrow>
     holds_profile e p' h' s' \<and> \<not> (p' = p \<and> (sc = None \<or> sc = Some s'))"
  by (auto simp: holds_profile_def forget_profile_def delete_inner_def delete_conv' split: option.splits)

lemma burst_sent_once:
  assumes "shouldSend w e p h t s = (True, e1)" "t' - t < w"
  shows "\<not> fst (shouldSend w e1 p h t' s)"
  using assms by (auto simp: shouldSend_def Let_def js_get_or_def split: if_splits option.splits)

section \<open>A kept frame is the frame\<close>

lemma sameBytes_iff: "sameBytes a b \<longleftrightarrow> a = b"
  by (cases a; cases b) (auto simp: list_all2_lengthD list.rel_eq)

lemma still_good_iff: "still_good l key imgs \<longleftrightarrow> fkey l = key \<and> images l = imgs"
  by (auto simp: still_good_def sameBytes_iff list_all_iff list_eq_iff_zip_eq)

type_synonym encoder = "string \<Rightarrow> bool \<Rightarrow> string \<Rightarrow> image list \<Rightarrow> 8 word list"

definition frames_ok :: "encoder \<Rightarrow> ProfileFrames \<Rightarrow> bool" where
  "frames_ok enc p \<longleftrightarrow> (\<forall>scope reply l. last_frame p scope reply = Some l \<longrightarrow>
     frame l = enc scope reply (fkey l) (images l) \<and> fhash l = frameHash (frame l))"

lemma last_frame_keep:
  "last_frame (keep_frame p scope reply b gen) scope' reply' =
     (if gen = pgeneration p \<and> scope' = scope \<and> reply' = reply then Some b else last_frame p scope' reply')"
  by (auto simp: last_frame_def keep_frame_def js_get_or_def split: option.splits)

datatype frames_event = Get string bool string "image list" nat | Retain "string list" | Clear_frames

fun frames_step :: "encoder \<Rightarrow> ProfileFrames \<Rightarrow> frames_event \<Rightarrow> ProfileFrames" where
  "frames_step enc p (Get scope reply key imgs gen) = snd (get_frame p scope reply key imgs (enc scope reply key imgs) gen)"
| "frames_step enc p (Retain scopes) = retain p scopes"
| "frames_step enc p Clear_frames = clear_frames p"

lemma get_frame_ok:
  assumes "frames_ok enc p"
  shows "frames_ok enc (snd (get_frame p scope reply key imgs (enc scope reply key imgs) gen)) \<and>
     frame (fst (get_frame p scope reply key imgs (enc scope reply key imgs) gen)) = enc scope reply key imgs \<and>
     fhash (fst (get_frame p scope reply key imgs (enc scope reply key imgs) gen)) = frameHash (enc scope reply key imgs)"
proof (cases "last_frame p scope reply")
  case None
  then show ?thesis using assms by (auto simp: get_frame_def frames_ok_def last_frame_keep Let_def)
next
  case (Some l)
  then have "frame l = enc scope reply (fkey l) (images l)" "fhash l = frameHash (frame l)"
    using assms by (auto simp: frames_ok_def)
  then show ?thesis using assms Some
    by (auto simp: get_frame_def still_good_iff frames_ok_def last_frame_keep Let_def)
qed

lemma map_of_filter_fst: "map_of (filter (\<lambda>(k, v). P k) m) k = (if P k then map_of m k else None)"
  by (induction m) auto

lemma retain_ok: "frames_ok enc p \<Longrightarrow> frames_ok enc (retain p scopes)"
  by (auto simp: frames_ok_def last_frame_def retain_def map_of_filter_fst split: option.splits)

lemma clear_frames_ok: "frames_ok enc (clear_frames p)"
  by (simp add: frames_ok_def last_frame_def clear_frames_def)

lemma frames_run_ok: "frames_ok enc p \<Longrightarrow> frames_ok enc (foldl (frames_step enc) p es)"
proof (induction es arbitrary: p)
  case (Cons e es)
  have "frames_ok enc (frames_step enc p e)"
    using Cons.prems by (cases e) (auto simp: retain_ok clear_frames_ok get_frame_ok)
  with Cons.IH show ?case by simp
qed simp

text \<open>A kept profile frame is never stale: after any calls that built, kept, dropped and cleared frames, and
  whichever session a call began in, asking for a frame gives exactly the bytes the encoder makes of
  the fields and images at hand, and their hash.\<close>

theorem profile_frame_current:
  "frame (fst (get_frame (foldl (frames_step enc) new_frames es) scope reply key imgs (enc scope reply key imgs) gen)) =
     enc scope reply key imgs \<and>
   fhash (fst (get_frame (foldl (frames_step enc) new_frames es) scope reply key imgs (enc scope reply key imgs) gen)) =
     frameHash (enc scope reply key imgs)"
proof -
  have "frames_ok enc new_frames" by (simp add: frames_ok_def last_frame_def new_frames_def)
  from get_frame_ok [OF frames_run_ok [OF this]] show ?thesis by blast
qed

text \<open>A call that began before a lock keeps nothing it builds after it.\<close>

lemma nothing_kept_after_lock: "gen < pgeneration p \<Longrightarrow> last_frame p scope reply = None \<Longrightarrow>
    snd (get_frame p scope reply key imgs built gen) = p"
  by (simp add: get_frame_def keep_frame_def Let_def)

end
