(* ===== verification/Plugin_Reducers.thy ===== *)
theory Plugin_Reducers
  imports Js_Strings Stable_Sort "HOL-Library.Word"
begin

unbundle bit_operations_syntax

text \<open>
  The reducers of the plugin cards: \<^verbatim>\<open>frontend/plugins/poll/logic.ts\<close>,
  \<^verbatim>\<open>frontend/plugins/wheel/logic.ts\<close> and \<^verbatim>\<open>frontend/plugins/app/logic.ts\<close>. Every peer
  folds the same updates into a card's state, so what a reducer makes of hostile or repeated updates
  is what everyone sees. Updates are arbitrary values; sender, name and id come from the host.

  For the app card the platform's URL parser, the label cleaner (Unicode categories and grapheme
  segmentation) and the clock are arguments.
\<close>

record UpdateCtx =
  senderDid :: string
  senderName :: string
  updateId :: string
  ephemeral :: bool

abbreviation is_object :: "js_value \<Rightarrow> bool" where
  "is_object v \<equiv> (case v of JObj _ \<Rightarrow> True | JArr _ \<Rightarrow> True | _ \<Rightarrow> False)"

fun index_of_char :: "char \<Rightarrow> string \<Rightarrow> nat option" where
  "index_of_char c [] = None"
| "index_of_char c (x # xs) = (if x = c then Some 0 else map_option Suc (index_of_char c xs))"

definition option_list :: "string \<Rightarrow> string list" where
  \<comment> \<open>\<^verbatim>\<open>.split(",").map((s) => s.trim()).filter(Boolean)\<close>\<close>
  "option_list s = filter (\<lambda>x. x \<noteq> []) (map js_trim (split_on CHR '','' s))"

definition MAX_OPTIONS :: nat where "MAX_OPTIONS = 32"

definition card_question :: "js_value \<Rightarrow> string" where
  "card_question data = (case js_prop data ''question'' of JStr q \<Rightarrow> take 200 q | _ \<Rightarrow> [])"

fun strings_of :: "js_value list \<Rightarrow> string list" where
  "strings_of [] = []"
| "strings_of (JStr s # vs) = s # strings_of vs"
| "strings_of (_ # vs) = strings_of vs"

definition card_options :: "js_value \<Rightarrow> string list" where
  "card_options data = (case js_prop data ''options'' of JArr os \<Rightarrow> take MAX_OPTIONS (strings_of os) | _ \<Rightarrow> [])"

section \<open>Polls\<close>

record poll_vote =
  did :: string
  vname :: string
  choice :: nat

record PollState =
  pquestion :: string
  poptions :: "string list"
  votes :: "(string, poll_vote) jsmap"

definition parsePollArgs :: "string \<Rightarrow> (string \<times> string list) option" where
  "parsePollArgs args =
     (case index_of_char CHR ''?'' args of
        None \<Rightarrow> None
      | Some q \<Rightarrow>
          let options = option_list (drop (q + 1) args) in
          if length options < 2 then None else Some (js_trim (take q args), options))"

definition poll_initial :: "js_value \<Rightarrow> PollState" where
  "poll_initial cardData = \<lparr>pquestion = card_question cardData, poptions = card_options cardData, votes = []\<rparr>"

definition poll_choice :: "PollState \<Rightarrow> js_value \<Rightarrow> nat option" where
  \<comment> \<open>the checks of the reducer: which option an update votes for, if it is a vote at all\<close>
  "poll_choice s data =
     (if \<not> is_object data then None
      else if js_prop data ''action'' \<noteq> JStr ''vote'' then None
      else case js_prop data ''vote'' of
             JNum (JInt v) \<Rightarrow> if v < 0 \<or> int (length (poptions s)) \<le> v then None else Some (nat v)
           | _ \<Rightarrow> None)"

definition poll_reduce :: "PollState \<Rightarrow> js_value \<times> UpdateCtx \<Rightarrow> PollState" where
  "poll_reduce s u =
     (case poll_choice s (fst u) of
        None \<Rightarrow> s
      | Some v \<Rightarrow> s\<lparr>votes := js_set (votes s) (senderDid (snd u))
                    \<lparr>did = senderDid (snd u), vname = senderName (snd u), choice = v\<rparr>\<rparr>)"

lemma poll_options_kept: "poptions (poll_reduce s u) = poptions s"
  by (simp add: poll_reduce_def split: option.split)

lemma poll_choice_cong: "poptions s = poptions s' \<Longrightarrow> poll_choice s d = poll_choice s' d"
  unfolding poll_choice_def by (simp only:)

definition ballots :: "PollState \<Rightarrow> string \<Rightarrow> (js_value \<times> UpdateCtx) list \<Rightarrow> nat list" where
  \<comment> \<open>the valid votes of one person, in order\<close>
  "ballots s who us = concat (map (\<lambda>(d, ctx). if senderDid ctx = who then
      (case poll_choice s d of None \<Rightarrow> [] | Some v \<Rightarrow> [v]) else []) us)"

lemma poll_last_vote:
  "map_option choice (js_get (votes (foldl poll_reduce s us)) who) =
     (if ballots s who us = [] then map_option choice (js_get (votes s) who) else Some (last (ballots s who us)))"
proof (induction us arbitrary: s)
  case Nil
  then show ?case by (simp add: ballots_def)
next
  case (Cons u us)
  obtain d ctx where u: "u = (d, ctx)" by force
  have b: "ballots (poll_reduce s u) who us = ballots s who us"
    unfolding ballots_def poll_choice_cong [OF poll_options_kept [of s u]] ..
  have step: "map_option choice (js_get (votes (poll_reduce s u)) who) =
      (if senderDid ctx = who \<and> poll_choice s d \<noteq> None then poll_choice s d else map_option choice (js_get (votes s) who))"
    by (auto simp: u poll_reduce_def split: option.splits)
  have "ballots s who (u # us) =
      (if senderDid ctx = who then (case poll_choice s d of None \<Rightarrow> [] | Some v \<Rightarrow> [v]) else []) @ ballots s who us"
    by (simp add: ballots_def u)
  then show ?case using Cons.IH [of "poll_reduce s u"] step unfolding b foldl_Cons
    by (auto split: option.splits if_splits)
qed

lemma poll_votes_valid:
  assumes "js_wf (votes s)" "list_all (\<lambda>(k, v). did v = k \<and> choice v < length (poptions s)) (votes s)"
  shows "js_wf (votes (poll_reduce s u)) \<and>
    list_all (\<lambda>(k, v). did v = k \<and> choice v < length (poptions (poll_reduce s u))) (votes (poll_reduce s u))"
proof (cases "poll_choice s (fst u)")
  case None
  then show ?thesis using assms by (simp add: poll_reduce_def)
next
  case (Some v)
  then have "v < length (poptions s)"
    by (auto simp: poll_choice_def split: if_splits js_value.splits js_number.splits)
  then show ?thesis using assms Some by (simp add: poll_reduce_def list_all_js_set)
qed

section \<open>Wheels\<close>

record WheelState =
  wquestion :: string
  woptions :: "string list"
  spun :: bool
  winner :: "nat option"
  spinnerName :: string

definition parseWheelArgs :: "string \<Rightarrow> (string \<times> string list) option" where
  "parseWheelArgs args =
     (let q = index_of_char CHR ''?'' args;
          question = (case q of Some i \<Rightarrow> js_trim (take (i + 1) args) | None \<Rightarrow> []);
          options = option_list (case q of Some i \<Rightarrow> drop (i + 1) args | None \<Rightarrow> args) in
      if length options < 2 then None else Some (question, options))"

definition hash_step :: "32 word \<Rightarrow> char \<Rightarrow> 32 word" where
  \<comment> \<open>\<^verbatim>\<open>((hash << 5) - hash) + char\<close> and \<^verbatim>\<open>hash & hash\<close>, which wraps it to 32 bits\<close>
  "hash_step h c = (push_bit 5 h - h) + of_nat (of_char c)"

definition hashSeed :: "string \<Rightarrow> nat" where
  "hashSeed seed = unat (foldl hash_step 0 seed)"

definition wheel_initial :: "js_value \<Rightarrow> WheelState" where
  "wheel_initial cardData = \<lparr>wquestion = card_question cardData, woptions = card_options cardData, spun = False,
     winner = None, spinnerName = []\<rparr>"

definition wheel_reduce :: "WheelState \<Rightarrow> js_value \<times> UpdateCtx \<Rightarrow> WheelState" where
  "wheel_reduce s u =
     (let data = fst u; ctx = snd u in
      if \<not> is_object data then s
      else if js_prop data ''action'' \<noteq> JStr ''spin'' then s
      else if spun s then s
      else
        let hash = hashSeed (updateId ctx @ ''|'' @ senderDid ctx) in
        if length (woptions s) = 0 then s
        else s\<lparr>spun := True, winner := Some (hash mod length (woptions s)), spinnerName := senderName ctx\<rparr>)"

definition is_spin :: "js_value \<Rightarrow> bool" where
  "is_spin data \<longleftrightarrow> is_object data \<and> js_prop data ''action'' = JStr ''spin''"

lemma wheel_spun_stays: "spun s \<Longrightarrow> foldl wheel_reduce s us = s"
  by (induction us) (simp_all add: wheel_reduce_def Let_def)

lemma wheel_first_spin:
  assumes "\<not> spun s" "woptions s \<noteq> []"
  shows "foldl wheel_reduce s us =
     (case find (\<lambda>(d, ctx). is_spin d) us of
        None \<Rightarrow> s
      | Some (d, ctx) \<Rightarrow> s\<lparr>spun := True, winner := Some (hashSeed (updateId ctx @ ''|'' @ senderDid ctx) mod length (woptions s)),
                            spinnerName := senderName ctx\<rparr>)"
  using assms
proof (induction us)
  case (Cons u us)
  obtain d ctx where u: "u = (d, ctx)" by force
  show ?case
  proof (cases "is_spin d")
    case True
    then have "wheel_reduce s u = s\<lparr>spun := True,
        winner := Some (hashSeed (updateId ctx @ ''|'' @ senderDid ctx) mod length (woptions s)), spinnerName := senderName ctx\<rparr>"
      using Cons.prems by (simp add: u wheel_reduce_def is_spin_def Let_def)
    then show ?thesis using True by (simp add: u wheel_spun_stays)
  next
    case False
    then have "wheel_reduce s u = s" by (auto simp: u wheel_reduce_def is_spin_def Let_def)
    then show ?thesis using False Cons by (simp add: u)
  qed
qed simp


section \<open>Apps\<close>

record url =
  protocol :: string
  username :: string
  password :: string
  hostname :: string
  href :: string
  origin :: string

definition MAX_ARGS :: nat where "MAX_ARGS = 256"
definition MAX_URL :: nat where "MAX_URL = 2048"
definition MAX_HOST :: nat where "MAX_HOST = 64"
definition PRESENCE_TTL_MS :: int where "PRESENCE_TTL_MS = 45000"
definition MAX_GAME :: nat where "MAX_GAME = 32"

definition is_alpha :: "char \<Rightarrow> bool" where
  "is_alpha c \<longleftrightarrow> (let n = of_char c :: nat in 97 \<le> n \<and> n \<le> 122 \<or> 65 \<le> n \<and> n \<le> 90)"

definition has_scheme :: "string \<Rightarrow> bool" where
  \<comment> \<open>\<^verbatim>\<open>/^[a-z][a-z0-9+.-]*:/i\<close>\<close>
  "has_scheme s \<longleftrightarrow> (case s of
       [] \<Rightarrow> False
     | c # cs \<Rightarrow> is_alpha c \<and>
         (case dropWhile (\<lambda>x. is_alpha x \<or> is_digit x \<or> x \<in> set ''+.-'') cs of d # _ \<Rightarrow> d = CHR '':'' | [] \<Rightarrow> False))"

definition readUrl :: "(string \<Rightarrow> url option) \<Rightarrow> string \<Rightarrow> url option" where
  "readUrl parse input =
     (let raw = js_trim input in
      if raw = [] \<or> MAX_URL < length raw then None
      else case parse (if has_scheme raw then raw else ''https://'' @ raw) of
             None \<Rightarrow> None
           | Some u \<Rightarrow>
               if protocol u \<noteq> ''https:'' \<or> username u \<noteq> [] \<or> password u \<noteq> [] \<or> CHR ''.'' \<notin> set (hostname u)
               then None else Some u)"

definition strip_www :: "string \<Rightarrow> string" where
  "strip_www h = (if take 4 h = ''www.'' then drop 4 h else h)"

definition strip_dot :: "string \<Rightarrow> string" where
  "strip_dot h = (if h \<noteq> [] \<and> last h = CHR ''.'' then butlast h else h)"

datatype host_problem = Too_long | Own_name string

definition passes_for :: "string \<Rightarrow> string \<Rightarrow> bool" where
  "passes_for bare name \<longleftrightarrow> bare = name \<or> take (length name + 1) bare = name @ ''.''"

definition hostProblem :: "string \<Rightarrow> string option \<Rightarrow> host_problem option" where
  "hostProblem host instance' =
     (if MAX_HOST < length host then Some Too_long
      else case instance' of
             None \<Rightarrow> None
           | Some i \<Rightarrow>
               let own = strip_dot (to_lower i) in
               if own = [] then None
               else map_option Own_name (find (passes_for (strip_www host)) [own, strip_www own]))"

definition parseAppUrl :: "(string \<Rightarrow> url option) \<Rightarrow> string \<Rightarrow> string option \<Rightarrow> url option" where
  "parseAppUrl parse input instance' =
     (case readUrl parse input of
        None \<Rightarrow> None
      | Some u \<Rightarrow> if hostProblem (hostname u) instance' = None then Some u else None)"

definition appUrlProblem :: "(string \<Rightarrow> url option) \<Rightarrow> string \<Rightarrow> string option \<Rightarrow> host_problem option" where
  "appUrlProblem parse input instance' =
     (case readUrl parse input of None \<Rightarrow> None | Some u \<Rightarrow> hostProblem (hostname u) instance')"

definition parseAppCommand :: "(string \<Rightarrow> url option) \<Rightarrow> string \<Rightarrow> string option \<Rightarrow> (url \<times> string) option" where
  "parseAppCommand parse input instance' =
     (let trimmed = js_trim input;
          urlPart = takeWhile (\<lambda>c. \<not> is_space c) trimmed;
          args = js_trim (dropWhile (\<lambda>c. \<not> is_space c) trimmed) in
      case parseAppUrl parse urlPart instance' of
        None \<Rightarrow> None
      | Some u \<Rightarrow> if MAX_ARGS < length args then None else Some (u, args))"

definition token :: "string \<Rightarrow> bool" where
  \<comment> \<open>\<^verbatim>\<open>/^[A-Za-z0-9_-]{8,64}$/\<close>\<close>
  "token s \<longleftrightarrow> 8 \<le> length s \<and> length s \<le> 64 \<and> list_all (\<lambda>c. is_alpha c \<or> is_digit c \<or> c \<in> set ''_-'') s"

record player =
  plname :: string
  seenAt :: int
  game :: "string option"

record AppState =
  aurl :: string
  sessionId :: string
  salt :: string
  appargs :: string
  aorigin :: string
  starter :: string
  app_ended :: bool
  present :: "(string, player) jsmap"

definition token_field :: "js_value \<Rightarrow> string \<Rightarrow> string" where
  "token_field d k = (case js_prop d k of JStr s \<Rightarrow> if token s then s else [] | _ \<Rightarrow> [])"

definition app_initial :: "(string \<Rightarrow> url option) \<Rightarrow> string option \<Rightarrow> js_value \<Rightarrow> string \<Rightarrow> AppState" where
  "app_initial parse instance' cardData sender =
     (let u = (case js_prop cardData ''url'' of JStr s \<Rightarrow> parseAppUrl parse s instance' | _ \<Rightarrow> None);
          sid = token_field cardData ''sessionId''; sl = token_field cardData ''salt'';
          usable = (u \<noteq> None \<and> sid \<noteq> [] \<and> sl \<noteq> []) in
      \<lparr>aurl = (if usable then href (the u) else []), sessionId = sid, salt = sl,
       appargs = (case js_prop cardData ''args'' of JStr a \<Rightarrow> take MAX_ARGS a | _ \<Rightarrow> []),
       aorigin = (if usable then origin (the u) else []), starter = sender, app_ended = \<not> usable, present = []\<rparr>)"

definition app_reduce ::
  "(js_value \<Rightarrow> nat \<Rightarrow> string option) \<Rightarrow> AppState \<Rightarrow> js_value \<Rightarrow> UpdateCtx \<Rightarrow> int \<Rightarrow> AppState"
where
  "app_reduce cleanActivity s data ctx now =
     (if \<not> is_object data then s
      else
        let t = js_prop data ''t'' in
        if t = JStr ''end'' then
          (if ephemeral ctx \<or> senderDid ctx \<noteq> starter s \<or> app_ended s then s else s\<lparr>app_ended := True, present := []\<rparr>)
        else if \<not> ephemeral ctx \<or> app_ended s then s
        else if t = JStr ''join'' \<or> t = JStr ''here'' then
          (let n = take 64 (js_trim (senderName ctx)) in
           s\<lparr>present := js_set (present s) (senderDid ctx)
              \<lparr>plname = (if n = [] then ''Someone'' else n), seenAt = now, game = cleanActivity (js_prop data ''g'') MAX_GAME\<rparr>\<rparr>)
        else if t = JStr ''leave'' then
          (if js_get (present s) (senderDid ctx) = None then s
           else s\<lparr>present := js_delete (present s) (senderDid ctx)\<rparr>)
        else s)"

definition presentPlayers :: "AppState \<Rightarrow> int \<Rightarrow> (string \<times> string \<times> string option) list" where
  "presentPlayers s now = map (\<lambda>(d, p). (d, plname p, game p))
     (js_sort (\<lambda>a b. seenAt (snd a) - seenAt (snd b)) (filter (\<lambda>(d, p). now - seenAt p < PRESENCE_TTL_MS) (present s)))"

text \<open>Only the starter ends a card, only with a stored update, and an ended card never comes back and
  shows nobody.\<close>

type_synonym app_update = "js_value \<times> UpdateCtx \<times> int"

abbreviation app_run :: "(js_value \<Rightarrow> nat \<Rightarrow> string option) \<Rightarrow> AppState \<Rightarrow> app_update list \<Rightarrow> AppState" where
  "app_run clean \<equiv> foldl (\<lambda>s (d, ctx, now). app_reduce clean s d ctx now)"

definition ends_card :: "AppState \<Rightarrow> app_update \<Rightarrow> bool" where
  "ends_card s u \<longleftrightarrow> (case u of (d, ctx, now) \<Rightarrow>
     is_object d \<and> js_prop d ''t'' = JStr ''end'' \<and> \<not> ephemeral ctx \<and> senderDid ctx = starter s)"

lemma app_reduce_starter: "starter (app_reduce clean s d ctx now) = starter s"
  by (simp add: app_reduce_def Let_def)

lemma app_reduce_ended:
  "app_ended (app_reduce clean s d ctx now) \<longleftrightarrow> app_ended s \<or> ends_card s (d, ctx, now)"
  by (auto simp: app_reduce_def Let_def ends_card_def)

lemma app_reduce_empty:
  "app_ended s \<longrightarrow> present s = [] \<Longrightarrow> app_ended (app_reduce clean s d ctx now) \<longrightarrow> present (app_reduce clean s d ctx now) = []"
  by (auto simp: app_reduce_def Let_def)

lemma app_ended_iff:
  assumes "app_ended s \<longrightarrow> present s = []"
  shows "(app_ended (app_run clean s us) \<longleftrightarrow> app_ended s \<or> list_ex (ends_card s) us) \<and>
     (app_ended (app_run clean s us) \<longrightarrow> present (app_run clean s us) = [])"
  using assms
proof (induction us arbitrary: s)
  case (Cons u us)
  obtain d ctx now where u: "u = (d, ctx, now)" by (metis prod_cases3)
  let ?s = "app_reduce clean s d ctx now"
  have e: "ends_card ?s = ends_card s" by (intro ext) (simp add: ends_card_def app_reduce_starter)
  note ih = Cons.IH [of ?s, OF app_reduce_empty [OF Cons.prems]]
  show ?case using ih e app_reduce_ended [of clean s d ctx now] by (auto simp: u)
qed simp

lemma app_initial_empty: "present (app_initial parse i d sender) = []"
  by (simp add: app_initial_def Let_def)

text \<open>An app's address can not pass for the instance's own.\<close>

lemma app_url_not_own:
  assumes "parseAppUrl parse input (Some i) = Some u" "strip_dot (to_lower i) \<noteq> []"
  shows "protocol u = ''https:'' \<and> username u = [] \<and> password u = [] \<and> length (hostname u) \<le> MAX_HOST \<and>
    \<not> passes_for (strip_www (hostname u)) (strip_dot (to_lower i)) \<and>
    \<not> passes_for (strip_www (hostname u)) (strip_www (strip_dot (to_lower i)))"
  using assms by (auto simp: parseAppUrl_def readUrl_def hostProblem_def Let_def find_None_iff split: option.splits if_splits)

text \<open>A card's history means the same to everyone: a poll counts for each person exactly their last
  valid vote; a wheel with options is decided by the first spin and by nothing after it; an app card
  is over exactly when it was unusable or its starter ended it with a stored update, and then shows
  nobody: whatever else peers put in their updates changes none of this.\<close>

theorem card_histories:
  shows "(\<forall>who. map_option choice (js_get (votes (foldl poll_reduce (poll_initial cardData) us)) who) =
       (if ballots (poll_initial cardData) who us = [] then None else Some (last (ballots (poll_initial cardData) who us)))) \<and>
     foldl wheel_reduce (wheel_initial cardData) us =
       (case find (\<lambda>(d, ctx). is_spin d) us of
          Some (d, ctx) \<Rightarrow>
            if card_options cardData = [] then wheel_initial cardData
            else (wheel_initial cardData)\<lparr>spun := True, winner := Some (hashSeed (updateId ctx @ ''|'' @ senderDid ctx) mod length (card_options cardData)),
                   spinnerName := senderName ctx\<rparr>
        | None \<Rightarrow> wheel_initial cardData) \<and>
     (app_ended (app_run clean (app_initial parse i cardData sender) aus) \<longleftrightarrow>
        app_ended (app_initial parse i cardData sender) \<or> list_ex (ends_card (app_initial parse i cardData sender)) aus)"
proof (intro conjI allI)
  show "map_option choice (js_get (votes (foldl poll_reduce (poll_initial cardData) us)) who) =
      (if ballots (poll_initial cardData) who us = [] then None else Some (last (ballots (poll_initial cardData) who us)))" for who
    by (simp add: poll_last_vote) (simp add: poll_initial_def)
  show "foldl wheel_reduce (wheel_initial cardData) us =
       (case find (\<lambda>(d, ctx). is_spin d) us of
          Some (d, ctx) \<Rightarrow>
            if card_options cardData = [] then wheel_initial cardData
            else (wheel_initial cardData)\<lparr>spun := True, winner := Some (hashSeed (updateId ctx @ ''|'' @ senderDid ctx) mod length (card_options cardData)),
                   spinnerName := senderName ctx\<rparr>
        | None \<Rightarrow> wheel_initial cardData)"
  proof (cases "card_options cardData = []")
    case True
    have "foldl wheel_reduce (wheel_initial cardData) us = wheel_initial cardData"
      by (induction us) (simp_all add: wheel_reduce_def wheel_initial_def True Let_def)
    with True show ?thesis by (auto split: option.splits)
  next
    case False
    have "woptions (wheel_initial cardData) = card_options cardData" "\<not> spun (wheel_initial cardData)"
      by (simp_all add: wheel_initial_def)
    with False show ?thesis using wheel_first_spin [of "wheel_initial cardData" us] by (auto split: option.splits)
  qed
  show "app_ended (app_run clean (app_initial parse i cardData sender) aus) \<longleftrightarrow>
      app_ended (app_initial parse i cardData sender) \<or> list_ex (ends_card (app_initial parse i cardData sender)) aus"
    using app_ended_iff [of "app_initial parse i cardData sender" clean aus] by (simp add: app_initial_empty)
qed

end
