(* ===== verification/Room_Lists.thy ===== *)
theory Room_Lists
  imports Complex_Main Js_Strings Stable_Sort Message_Types
begin

text \<open>
  Small lists of the sidebar and the conversation: the room order and its drag and drop
  (\<^verbatim>\<open>frontend/src/lib/room-order.ts\<close>), the reactions under a message
  (\<^verbatim>\<open>reaction-tally.ts\<close>), names off the wire (\<^verbatim>\<open>wire-name.ts\<close>) and when a message is
  announced (\<^verbatim>\<open>notify-rules.ts\<close>). Positions and boxes on the page are rational numbers.
\<close>

section \<open>Room order\<close>

record sidebar_room =
  code :: string
  pinnedAt :: "int option"
  position :: "rat option"

definition by_pin :: "sidebar_room \<Rightarrow> sidebar_room \<Rightarrow> int" where
  "by_pin a b = the (pinnedAt a) - the (pinnedAt b)"

definition by_position :: "sidebar_room \<Rightarrow> sidebar_room \<Rightarrow> int" where
  \<comment> \<open>the sign of the difference, all a sort looks at\<close>
  "by_position a b = (if the (position a) < the (position b) then -1 else if the (position a) = the (position b) then 0 else 1)"

definition sortRooms :: "sidebar_room list \<Rightarrow> sidebar_room list" where
  "sortRooms rooms =
     js_sort by_pin (filter (\<lambda>r. pinnedAt r \<noteq> None) rooms) @
     js_sort by_position (filter (\<lambda>r. pinnedAt r = None \<and> position r \<noteq> None) rooms) @
     filter (\<lambda>r. pinnedAt r = None \<and> position r = None) rooms"

definition splice_out :: "'a list \<Rightarrow> nat \<Rightarrow> 'a list" where
  "splice_out xs i = take i xs @ drop (i + 1) xs"

definition moveItem :: "'a list \<Rightarrow> nat \<Rightarrow> nat \<Rightarrow> 'a list" where
  \<comment> \<open>for an index in the list; outside it the source would insert \<^verbatim>\<open>undefined\<close>\<close>
  "moveItem list from' to' =
     (if length list \<le> from' then list
      else let next' = splice_out list from' in take to' next' @ [list ! from'] @ drop to' next')"

record RowBox =
  top :: rat
  height :: rat

fun drop_loop :: "nat \<Rightarrow> rat \<Rightarrow> nat \<Rightarrow> nat \<Rightarrow> RowBox list \<Rightarrow> nat" where
  "drop_loop from' center i index [] = index"
| "drop_loop from' center i index (r # rows) =
     drop_loop from' center (i + 1) (if i \<noteq> from' \<and> top r + height r / 2 < center then index + 1 else index) rows"

definition dropIndex :: "RowBox list \<Rightarrow> nat \<Rightarrow> rat \<Rightarrow> nat" where
  "dropIndex rows from' center = drop_loop from' center 0 0 rows"

definition slotTop :: "RowBox list \<Rightarrow> nat \<Rightarrow> nat \<Rightarrow> rat" where
  \<comment> \<open>for slots of the list; outside it the source throws\<close>
  "slotTop rows from' to' =
     (if to' \<le> from' then top (rows ! to') else top (rows ! to') + height (rows ! to') - height (rows ! from'))"

lemma mset_sortRooms: "mset (sortRooms rooms) = mset rooms"
proof -
  have "filter_mset (\<lambda>r. pinnedAt r \<noteq> None) M +
      (filter_mset (\<lambda>r. pinnedAt r = None \<and> position r \<noteq> None) M + filter_mset (\<lambda>r. pinnedAt r = None \<and> position r = None) M) = M" for M
    by (induction M) auto
  from this [of "mset rooms"] show ?thesis by (simp add: sortRooms_def)
qed

lemma moveItem_perm: "mset (moveItem xs i j) = mset xs"
proof (cases "i < length xs")
  case True
  have "mset xs = mset (take i xs @ xs ! i # drop (i + 1) xs)" using id_take_nth_drop [OF True] by simp
  moreover have "mset (take j ys) + mset (drop j ys) = mset ys" for ys :: "'a list"
    by (metis append_take_drop_id mset_append)
  from this [of "splice_out xs i"] have "mset (moveItem xs i j) = add_mset (xs ! i) (mset (splice_out xs i))"
    using True by (simp add: moveItem_def Let_def)
  ultimately show ?thesis by (simp add: splice_out_def)
qed (simp add: moveItem_def)

lemma splice_insert: "j \<le> length r \<Longrightarrow> splice_out (take j r @ x # drop j r) j = r"
  by (simp add: splice_out_def)

lemma insert_at: "j \<le> length r \<Longrightarrow> (take j r @ x # drop j r) ! j = x"
  by (simp add: nth_append)

lemma moveItem_back:
  assumes "i < length xs" "j < length xs"
  shows "moveItem (moveItem xs i j) j i = xs"
proof -
  let ?r = "splice_out xs i"
  have l: "j \<le> length ?r" using assms by (simp add: splice_out_def)
  have m: "moveItem xs i j = take j ?r @ xs ! i # drop j ?r" using assms by (simp add: moveItem_def Let_def)
  have "moveItem (take j ?r @ xs ! i # drop j ?r) j i = take i ?r @ [xs ! i] @ drop i ?r"
    using l by (subst moveItem_def) (simp add: Let_def splice_insert insert_at)
  then have "moveItem (moveItem xs i j) j i = take i ?r @ [xs ! i] @ drop i ?r" by (simp only: m)
  also have "\<dots> = xs" using id_take_nth_drop [OF assms(1)] assms(1) by (simp add: splice_out_def)
  finally show ?thesis .
qed

lemma drop_loop_count:
  "drop_loop f c i n rows = n + length (filter (\<lambda>j. i + j \<noteq> f \<and> top (rows ! j) + height (rows ! j) / 2 < c) [0..<length rows])"
proof (induction rows arbitrary: i n)
  case (Cons r rows)
  have "[0..<length (r # rows)] = 0 # map Suc [0..<length rows]" by (simp add: upt_conv_Cons map_Suc_upt del: upt_Suc)
  then show ?case using Cons by (simp add: filter_map comp_def del: upt_Suc)
qed simp

text \<open>A row let go over its own place stays there, whatever the heights of the rows.\<close>

lemma drop_in_place:
  assumes "sorted_wrt (\<lambda>a b. top a + height a / 2 < top b + height b / 2) rows" "i < length rows"
  shows "dropIndex rows i (top (rows ! i) + height (rows ! i) / 2) = i"
proof -
  let ?m = "\<lambda>j. top (rows ! j) + height (rows ! j) / 2"
  have "0 + j \<noteq> i \<and> ?m j < ?m i \<longleftrightarrow> j < i" if "j < length rows" for j
  proof -
    have "j < i \<Longrightarrow> ?m j < ?m i" "i < j \<Longrightarrow> ?m i < ?m j"
      using assms that by (auto simp: sorted_wrt_iff_nth_less)
    then show ?thesis by (cases j i rule: linorder_cases) auto
  qed
  then have "filter (\<lambda>j. 0 + j \<noteq> i \<and> ?m j < ?m i) [0..<length rows] = filter (\<lambda>j. j < i) [0..<length rows]"
    by (intro filter_cong) auto
  also have "\<dots> = [0..<i]"
    using assms(2) upt_add_eq_append [of 0 i "length rows - i"] by (simp add: filter_empty_conv)
  finally show ?thesis by (simp add: dropIndex_def drop_loop_count)
qed

section \<open>Reactions\<close>

record reaction_row =
  rtype :: MessageType
  rsender :: string
  reactionTo :: "string option"
  reactionEmoji :: "string option"
  reactionOp :: "string option"

type_synonym EmojiTally = "(string, string list) jsmap"
type_synonym ReactionTally = "(string, EmojiTally) jsmap"

definition tally_row :: "(string \<Rightarrow> string) \<Rightarrow> ReactionTally \<Rightarrow> reaction_row \<Rightarrow> ReactionTally" where
  "tally_row reactorOf byMessage m =
     (case (reactionTo m, reactionEmoji m) of
        (Some i, Some e) \<Rightarrow>
          if rtype m \<noteq> Reaction \<or> i = [] \<or> e = [] then byMessage
          else
            let byEmoji = js_get_or [] byMessage i; users = js_get_or [] byEmoji e; reactor = reactorOf (rsender m) in
            js_set byMessage i (js_set byEmoji e
              (if reactionOp m = Some ''remove'' then set_remove users reactor else set_add users reactor))
      | _ \<Rightarrow> byMessage)"

fun same_users :: "string list \<Rightarrow> string list \<Rightarrow> bool" where
  "same_users [] [] \<longleftrightarrow> True"
| "same_users (a # as) (b # bs) \<longleftrightarrow> a = b \<and> same_users as bs"
| "same_users _ _ \<longleftrightarrow> False"

definition sameTally :: "EmojiTally \<Rightarrow> EmojiTally \<Rightarrow> bool" where
  "sameTally a b \<longleftrightarrow> length a = length b \<and>
     list_all (\<lambda>((ea, ua), (eb, ub)). ea = eb \<and> length ua = length ub \<and> same_users ua ub) (zip a b)"

definition tallyReactions :: "reaction_row list \<Rightarrow> (string \<Rightarrow> string) \<Rightarrow> ReactionTally option \<Rightarrow> ReactionTally" where
  "tallyReactions messages reactorOf previous =
     (let byMessage = foldl (tally_row reactorOf) [] messages in
      case previous of
        None \<Rightarrow> byMessage
      | Some prev \<Rightarrow> map (\<lambda>(i, tally). (i, case js_get prev i of
            Some before \<Rightarrow> if sameTally before tally then before else tally
          | None \<Rightarrow> tally)) byMessage)"

lemma same_users_iff: "same_users a b \<longleftrightarrow> a = b"
  by (induction a b rule: same_users.induct) auto

lemma sameTally_iff: "sameTally a b \<longleftrightarrow> a = b"
proof
  assume "sameTally a b"
  then have "length a = length b" "\<forall>(x, y) \<in> set (zip a b). x = y"
    by (auto simp: sameTally_def same_users_iff list_all_iff)
  then show "a = b" by (auto simp: list_eq_iff_zip_eq)
qed (auto simp: sameTally_def same_users_iff list_all_iff zip_same)

text \<open>Reusing the previous tally changes nothing that is shown.\<close>

lemma tally_memo_invisible: "tallyReactions messages reactorOf previous = tallyReactions messages reactorOf None"
proof (cases previous)
  case (Some prev)
  have "(case js_get prev i of Some before \<Rightarrow> if sameTally before tally then before else tally | None \<Rightarrow> tally) = tally" for i tally
    by (simp add: sameTally_iff split: option.split)
  then show ?thesis by (simp add: tallyReactions_def Some Let_def)
qed simp

definition reacted :: "ReactionTally \<Rightarrow> string \<Rightarrow> string \<Rightarrow> string \<Rightarrow> bool" where
  "reacted t i e who \<longleftrightarrow> who \<in> set (js_get_or [] (js_get_or [] t i) e)"

definition about :: "(string \<Rightarrow> string) \<Rightarrow> string \<Rightarrow> string \<Rightarrow> string \<Rightarrow> reaction_row \<Rightarrow> bool" where
  "about reactorOf i e who m \<longleftrightarrow> rtype m = Reaction \<and> i \<noteq> [] \<and> e \<noteq> [] \<and> reactionTo m = Some i \<and>
     reactionEmoji m = Some e \<and> reactorOf (rsender m) = who"

lemma tally_row_reacted:
  "reacted (tally_row reactorOf t m) i e who \<longleftrightarrow>
     (if about reactorOf i e who m then reactionOp m \<noteq> Some ''remove'' else reacted t i e who)"
  by (auto simp: tally_row_def reacted_def about_def js_get_or_def Let_def split: option.splits if_splits)

text \<open>A person shows under an emoji exactly when the last row about it, under whichever of their ids, did
  not take it back.\<close>

theorem tally_last_wins:
  "reacted (tallyReactions messages reactorOf previous) i e who \<longleftrightarrow>
     (case filter (about reactorOf i e who) messages of
        [] \<Rightarrow> False
      | rows \<Rightarrow> reactionOp (last rows) \<noteq> Some ''remove'')"
proof -
  have "reacted (foldl (tally_row reactorOf) [] messages) i e who \<longleftrightarrow>
     (case filter (about reactorOf i e who) messages of
        [] \<Rightarrow> False
      | rows \<Rightarrow> reactionOp (last rows) \<noteq> Some ''remove'')"
  proof (induction messages rule: rev_induct)
    case Nil
    then show ?case by (simp add: reacted_def js_get_or_def)
  next
    case (snoc m ms)
    then show ?case by (auto simp: tally_row_reacted split: list.splits)
  qed
  then show ?thesis unfolding tally_memo_invisible [of messages reactorOf previous] by (simp add: tallyReactions_def)
qed

section \<open>Names off the wire\<close>

definition MAX_WIRE_NAME_LENGTH :: nat where "MAX_WIRE_NAME_LENGTH = 64"

definition wire_control :: "char \<Rightarrow> bool" where
  \<comment> \<open>the C0 and C1 controls; the bidirectional controls are outside the model's characters\<close>
  "wire_control c \<longleftrightarrow> (let n = of_char c :: nat in n \<le> 31 \<or> 127 \<le> n \<and> n \<le> 159)"

definition stripWireControls :: "string \<Rightarrow> string" where
  "stripWireControls value = filter (\<lambda>c. \<not> wire_control c) value"

definition normalizeWireName :: "js_value \<Rightarrow> string" where
  "normalizeWireName name = (case name of JStr s \<Rightarrow> take MAX_WIRE_NAME_LENGTH (js_trim (stripWireControls s)) | _ \<Rightarrow> [])"

lemma set_js_trim: "set (js_trim s) \<subseteq> set s"
  unfolding js_trim_def by (metis order_trans set_dropWhileD set_rev subsetI)

lemma wire_name_clean:
  "length (normalizeWireName v) \<le> MAX_WIRE_NAME_LENGTH \<and> list_all (\<lambda>c. \<not> wire_control c) (normalizeWireName v)"
  using set_js_trim by (fastforce simp: normalizeWireName_def stripWireControls_def list_all_iff
      split: js_value.splits dest: in_set_takeD)

section \<open>Announcing\<close>

definition shouldPlayMessageSound :: "bool \<Rightarrow> bool \<Rightarrow> bool \<Rightarrow> bool" where
  "shouldPlayMessageSound enabled viewingConversation focused =
     (if \<not> enabled then False else \<not> (viewingConversation \<and> focused))"

definition shouldShowNotification :: "bool \<Rightarrow> bool \<Rightarrow> bool \<Rightarrow> bool" where
  "shouldShowNotification viewingConversation focused hidden =
     (if hidden then True else \<not> (viewingConversation \<and> focused))"

end
