(* ===== verification/Palette_Mru.thy ===== *)
theory Palette_Mru
  imports Complex_Main Stable_Sort
begin

text \<open>
  The command palette's memory of recent commands, the class \<open>Mru\<close> of
  \<^verbatim>\<open>frontend/src/lib/palette/mru.ts\<close>, as a refinement of the obvious specification: a list of ids,
  most recent first, cut at fifty. Ranks are rational numbers. What is persisted is read back from an
  arbitrary value: \<open>persisted\<close> holds what the validation sees of it.
\<close>

definition MRU_LIMIT :: nat where "MRU_LIMIT = 50"

record Mru =
  ranks :: "(string, rat) jsmap"
  counter :: rat

definition new_mru :: Mru where "new_mru = \<lparr>ranks = [], counter = 1\<rparr>"

definition rank :: "Mru \<Rightarrow> string \<Rightarrow> rat option" where
  "rank m i = js_get (ranks m) i"

definition by_recency :: "string \<times> rat \<Rightarrow> string \<times> rat \<Rightarrow> int" where
  \<comment> \<open>the sign of \<^verbatim>\<open>b[1] - a[1]\<close>\<close>
  "by_recency a b = (if snd b < snd a then -1 else if snd a = snd b then 0 else 1)"

definition recent :: "Mru \<Rightarrow> nat \<Rightarrow> string list" where
  "recent m limit = map fst (take limit (js_sort by_recency (ranks m)))"

fun oldest :: "(string \<times> rat) option \<Rightarrow> (string, rat) jsmap \<Rightarrow> (string \<times> rat) option" where
  "oldest best [] = best"
| "oldest best ((i, r) # es) =
     oldest (case best of None \<Rightarrow> Some (i, r) | Some (j, q) \<Rightarrow> if r < q then Some (i, r) else best) es"

definition evictOldest :: "(string, rat) jsmap \<Rightarrow> (string, rat) jsmap" where
  "evictOldest rs = (case oldest None rs of None \<Rightarrow> rs | Some (i, _) \<Rightarrow> js_delete rs i)"

definition touch :: "Mru \<Rightarrow> string \<Rightarrow> Mru" where
  "touch m i =
     (let rs = js_set (ranks m) i (counter m) in
      \<lparr>ranks = (if MRU_LIMIT < length rs then evictOldest rs else rs), counter = counter m + 1\<rparr>)"

definition forget :: "Mru \<Rightarrow> string \<Rightarrow> bool \<times> Mru" where
  "forget m i = (js_get (ranks m) i \<noteq> None, m\<lparr>ranks := js_delete (ranks m) i\<rparr>)"

definition mru_size :: "Mru \<Rightarrow> nat" where "mru_size m = length (ranks m)"

record persisted =
  pcounter :: "rat option"
  pentries :: "(string option \<times> rat option) option list"
  \<comment> \<open>per entry: whether it is a pair, its id if that is a string, its rank if that is a finite number\<close>

definition toJSON :: "Mru \<Rightarrow> persisted" where
  "toJSON m = \<lparr>pcounter = Some (counter m), pentries = map (\<lambda>(i, r). Some (Some i, Some r)) (ranks m)\<rparr>"

fun valid_entries :: "(string option \<times> rat option) option list \<Rightarrow> (string \<times> rat) list" where
  "valid_entries [] = []"
| "valid_entries (e # es) =
     (case e of Some (Some i, Some r) \<Rightarrow> if i = [] then valid_entries es else (i, r) # valid_entries es
      | _ \<Rightarrow> valid_entries es)"

definition new_map :: "(string \<times> rat) list \<Rightarrow> (string, rat) jsmap" where
  \<comment> \<open>\<^verbatim>\<open>new Map(entries)\<close>\<close>
  "new_map es = foldl (\<lambda>m (i, r). js_set m i r) [] es"

definition fromJSON :: "persisted option \<Rightarrow> Mru" where
  \<comment> \<open>no value stands for one that is no object, or has no array of entries\<close>
  "fromJSON value =
     (case value of
        None \<Rightarrow> new_mru
      | Some raw \<Rightarrow>
          let es = valid_entries (pentries raw);
              highest = foldl (\<lambda>h (i, r). max h r) 0 es;
              c = (case pcounter raw of Some c \<Rightarrow> max c (highest + 1) | None \<Rightarrow> highest + 1) in
          \<lparr>ranks = new_map (take MRU_LIMIT (js_sort by_recency es)), counter = c\<rparr>)"

section \<open>The order of recency\<close>

interpretation rec: comparator by_recency
  by unfold_locales (auto simp: by_recency_def split: if_splits)

definition mru_ok :: "Mru \<Rightarrow> bool" where
  "mru_ok m \<longleftrightarrow> js_wf (ranks m) \<and> length (ranks m) \<le> MRU_LIMIT \<and> inj_on snd (set (ranks m)) \<and>
     list_all (\<lambda>(i, r). r < counter m \<and> i \<noteq> []) (ranks m)"

lemma apart_ranks: "inj_on snd (set rs) \<Longrightarrow> apart by_recency rs"
  by (auto simp: apart_def by_recency_def inj_on_def split: if_splits)

lemma recent_all: "length (ranks m) \<le> n \<Longrightarrow> recent m n = map fst (js_sort by_recency (ranks m))"
  by (simp add: recent_def)

lemma sorted_as:
  assumes "ordered_by by_recency ys" "distinct ys" "distinct rs" "set ys = set rs" "inj_on snd (set rs)"
  shows "js_sort by_recency rs = ys"
  using assms by (intro rec.sort_unique apart_ranks) (simp_all add: set_eq_iff_mset_eq_distinct [symmetric])

lemma wf_distinct: "js_wf rs \<Longrightarrow> distinct rs"
  by (simp add: js_wf_def distinct_map)

lemma set_js_set_wf: "js_wf rs \<Longrightarrow> set (js_set rs i c) = insert (i, c) {e \<in> set rs. fst e \<noteq> i}"
proof -
  assume wf: "js_wf rs"
  have mem: "e \<in> set m \<longleftrightarrow> js_get m (fst e) = Some (snd e)" if "js_wf m" for e :: "'a \<times> 'b" and m
    using that by (cases e) (simp add: js_wf_def)
  have "e \<in> set (js_set rs i c) \<longleftrightarrow> e = (i, c) \<or> e \<in> set rs \<and> fst e \<noteq> i" for e
    unfolding mem [OF js_wf_set [OF wf, of i c]] mem [OF wf] by (cases e) auto
  then show ?thesis by blast
qed

lemma set_js_delete_wf: "js_wf rs \<Longrightarrow> set (js_delete rs i) = {e \<in> set rs. fst e \<noteq> i}"
  by (auto simp: AList.delete_eq)

lemma oldest_least:
  "\<exists>e. oldest (Some b) es = Some e \<and> e \<in> insert b (set es) \<and> (\<forall>x \<in> insert b (set es). snd e \<le> snd x)"
proof (induction es arbitrary: b)
  case (Cons x es)
  obtain i r where x: "x = (i, r)" by force
  obtain j q where b: "b = (j, q)" by force
  obtain e where "oldest (Some (if r < q then (i, r) else (j, q))) es = Some e"
      "e \<in> insert (if r < q then (i, r) else (j, q)) (set es)"
      "\<forall>y \<in> insert (if r < q then (i, r) else (j, q)) (set es). snd e \<le> snd y"
    using Cons.IH by blast
  then show ?case unfolding x b by (cases "r < q") force+
qed simp

lemma evict_sorted:
  assumes "js_wf rs" "inj_on snd (set rs)" "js_sort by_recency rs = ys" "ys \<noteq> []"
  shows "js_sort by_recency (evictOldest rs) = butlast ys" and "\<exists>e. evictOldest rs = js_delete rs (fst e) \<and> e \<in> set rs"
proof -
  have sy: "set ys = set rs" "distinct ys" "ordered_by by_recency ys"
    using assms(3) wf_distinct [OF assms(1)] rec.ordered_sort [of rs] by auto
  have "rs \<noteq> []" using sy(1) assms(4) by auto
  then obtain b es where rs: "rs = b # es" by (cases rs) auto
  obtain e where e: "oldest None rs = Some e" "e \<in> set rs" "\<forall>x \<in> set rs. snd e \<le> snd x"
    using oldest_least [of b es] unfolding rs by (cases b) auto
  have ev: "evictOldest rs = js_delete rs (fst e)" using e(1) by (simp add: evictOldest_def case_prod_unfold)
  have "by_recency e (last ys) \<le> 0"
  proof -
    have "e \<in> set ys" using e(2) sy(1) by simp
    then have "e = last ys \<or> e \<in> set (butlast ys)" using assms(4) by (metis append_butlast_last_id in_set_conv_decomp set_ConsD set_append UnE list.set(1) empty_iff)
    moreover have "ordered_by by_recency (butlast ys @ [last ys])" using sy(3) assms(4) by simp
    ultimately show ?thesis using rec.refl_zero [of "last ys"] by (auto simp: ordered_by_append)
  qed
  moreover have "snd e \<le> snd (last ys)" using e(3) assms(4) sy(1) last_in_set by blast
  ultimately have "snd e = snd (last ys)" by (auto simp: by_recency_def split: if_splits)
  then have last: "last ys = e" using assms(2,4) e(2) sy(1) by (metis inj_on_def last_in_set)
  have "set (butlast ys) = set rs - {e}"
    using sy(1,2) assms(4) last by (metis append_butlast_last_id distinct_append distinct_butlast Diff_insert_absorb
        insert_is_Un list.simps(15) rotate1.simps(2) set_append set_rotate1 not_distinct_conv_prefix)
  moreover have "set (js_delete rs (fst e)) = set rs - {e}"
    using assms(1) e(2) set_js_delete_wf [OF assms(1)] by (auto simp: js_wf_def) (metis eq_key_imp_eq_value prod.collapse)
  ultimately show "js_sort by_recency (evictOldest rs) = butlast ys" unfolding ev
    using sy assms(1,2,4) by (intro sorted_as)
      (auto simp: distinct_butlast wf_distinct inj_on_def ordered_by_def sorted_wrt_append [of _ "butlast ys" "[last ys]"] intro: wf_distinct,
       metis append_butlast_last_id sorted_wrt_append)
  show "\<exists>e. evictOldest rs = js_delete rs (fst e) \<and> e \<in> set rs" using ev e(2) by blast
qed

section \<open>Least recently used\<close>

definition lru_touch :: "string list \<Rightarrow> string \<Rightarrow> string list" where
  "lru_touch ids i = take MRU_LIMIT (i # filter (\<lambda>j. j \<noteq> i) ids)"

lemma touch_sorted:
  fixes m :: Mru and i :: string
  assumes "mru_ok m"
  defines "S \<equiv> js_sort by_recency (ranks m)" and "rs \<equiv> js_set (ranks m) i (counter m)"
  shows "js_sort by_recency rs = (i, counter m) # filter (\<lambda>e. fst e \<noteq> i) S" and "js_wf rs" and "inj_on snd (set rs)"
proof -
  have wf: "js_wf (ranks m)" and inj: "inj_on snd (set (ranks m))" and lt: "\<And>e. e \<in> set (ranks m) \<Longrightarrow> snd e < counter m"
    using assms(1) by (auto simp: mru_ok_def list_all_iff)
  show wf': "js_wf rs" using js_wf_set [OF wf] by (simp add: rs_def)
  have set: "set rs = insert (i, counter m) {e \<in> set (ranks m). fst e \<noteq> i}" unfolding rs_def by (rule set_js_set_wf [OF wf])
  show inj': "inj_on snd (set rs)" unfolding set using inj lt by (auto simp: inj_on_def) (metis less_irrefl snd_conv)+
  have "ordered_by by_recency (filter (\<lambda>e. fst e \<noteq> i) S)"
    using rec.ordered_sort unfolding S_def ordered_by_def by (rule sorted_wrt_filter)
  moreover have "by_recency (i, counter m) e \<le> 0" if "e \<in> set (ranks m)" for e
    using lt [OF that] by (simp add: by_recency_def)
  ultimately have "ordered_by by_recency ((i, counter m) # filter (\<lambda>e. fst e \<noteq> i) S)" by (simp add: S_def)
  then show "js_sort by_recency rs = (i, counter m) # filter (\<lambda>e. fst e \<noteq> i) S"
    using wf_distinct [OF wf] wf_distinct [OF wf'] inj' set by (intro sorted_as) (auto simp: S_def)
qed

lemma touch_lru:
  assumes "mru_ok m" "i \<noteq> []"
  shows "mru_ok (touch m i)" and "recent (touch m i) MRU_LIMIT = lru_touch (recent m MRU_LIMIT) i"
proof -
  let ?rs = "js_set (ranks m) i (counter m)" and ?S = "js_sort by_recency (ranks m)"
  let ?ys = "(i, counter m) # filter (\<lambda>e. fst e \<noteq> i) ?S"
  note t = touch_sorted [OF assms(1), of i]
  note ev = evict_sorted [OF t(2,3,1)]
  have wf: "js_wf (ranks m)" and len: "length (ranks m) \<le> MRU_LIMIT" using assms(1) by (auto simp: mru_ok_def)
  have "length ?rs = length ?ys" using t(1) length_js_sort by metis
  have l: "length ?rs \<le> Suc MRU_LIMIT" using length_js_set len by (auto split: if_splits)
  have all: "list_all (\<lambda>(j, r). r < counter m + 1 \<and> j \<noteq> []) ?rs"
    using assms set_js_set_wf [OF wf, of i "counter m"] by (fastforce simp: mru_ok_def list_all_iff)
  obtain e where e: "evictOldest ?rs = js_delete ?rs (fst e)" "e \<in> set ?rs" using ev(2) by auto
  have "js_get ?rs (fst e) = Some (snd e)" using map_of_is_SomeI [of ?rs "fst e" "snd e"] t(2) e(2) by (simp add: js_wf_def)
  then have "length (js_delete ?rs (fst e)) = length ?rs - 1"
    unfolding length_js_delete [OF t(2), of "fst e"] by (simp only: option.distinct if_False)
  then have small: "length (evictOldest ?rs) \<le> MRU_LIMIT" if "MRU_LIMIT < length ?rs" using that l e(1) by simp
  have sub: "set (evictOldest ?rs) \<subseteq> set ?rs" unfolding e(1) by (auto simp: set_js_delete_wf [OF t(2)])
  have "js_wf (evictOldest ?rs)" unfolding e(1) by (rule js_wf_delete [OF t(2)])
  then have kept: "js_wf (ranks (touch m i))" "length (ranks (touch m i)) \<le> MRU_LIMIT" "set (ranks (touch m i)) \<subseteq> set ?rs"
      "counter (touch m i) = counter m + 1"
    using t(2) small sub unfolding touch_def Let_def by (auto simp del: length_js_set)
  show "mru_ok (touch m i)"
    unfolding mru_ok_def kept(4) using kept(1,2) inj_on_subset [OF t(3) kept(3)] all kept(3) by (auto simp: list_all_iff)
  have "recent (touch m i) MRU_LIMIT = map fst (take MRU_LIMIT ?ys)"
  proof (cases "MRU_LIMIT < length ?rs")
    case True
    then have n: "length ?ys = Suc MRU_LIMIT" using l \<open>length ?rs = length ?ys\<close> by simp
    then have "butlast ?ys = take MRU_LIMIT ?ys" by (simp add: butlast_conv_take)
    then show ?thesis using True ev(1) n unfolding recent_def touch_def by (simp only: Let_def if_True Mru.select_convs) simp
  next
    case False
    then show ?thesis using t(1) unfolding recent_def touch_def by (simp only: Let_def if_False Mru.select_convs)
  qed
  moreover have "map fst (filter (\<lambda>e. fst e \<noteq> i) ?S) = filter (\<lambda>j. j \<noteq> i) (map fst ?S)" by (simp add: filter_map comp_def)
  ultimately show "recent (touch m i) MRU_LIMIT = lru_touch (recent m MRU_LIMIT) i"
    using len by (simp add: lru_touch_def recent_all take_map [symmetric])
qed

lemma forget_lru:
  assumes "mru_ok m"
  shows "mru_ok (snd (forget m i))" and "recent (snd (forget m i)) MRU_LIMIT = filter (\<lambda>j. j \<noteq> i) (recent m MRU_LIMIT)"
proof -
  have wf: "js_wf (ranks m)" and inj: "inj_on snd (set (ranks m))" and len: "length (ranks m) \<le> MRU_LIMIT"
    using assms by (auto simp: mru_ok_def)
  let ?rs = "js_delete (ranks m) i"
  have set: "set ?rs = {e \<in> set (ranks m). fst e \<noteq> i}" by (rule set_js_delete_wf [OF wf])
  have le: "length ?rs \<le> MRU_LIMIT" using len length_delete_le [of i "ranks m"] by simp
  show "mru_ok (snd (forget m i))"
    using assms le js_wf_delete [OF wf] by (auto simp: mru_ok_def forget_def list_all_iff set inj_on_def)
  have "js_sort by_recency ?rs = filter (\<lambda>e. fst e \<noteq> i) (js_sort by_recency (ranks m))"
    using wf_distinct [OF wf] wf_distinct [OF js_wf_delete [OF wf]] inj set rec.ordered_sort
    by (intro sorted_as) (auto simp: ordered_by_def sorted_wrt_filter inj_on_def)
  then show "recent (snd (forget m i)) MRU_LIMIT = filter (\<lambda>j. j \<noteq> i) (recent m MRU_LIMIT)"
    using len le by (simp add: forget_def recent_all filter_map comp_def)
qed

text \<open>Through storage and back.\<close>

lemma js_set_absent: "i \<notin> fst ` set m \<Longrightarrow> js_set m i r = m @ [(i, r)]"
  by (induction m) auto

lemma new_map_wf: "js_wf es \<Longrightarrow> new_map es = es"
proof -
  have "js_wf (acc @ es) \<Longrightarrow> foldl (\<lambda>m (i, r). js_set m i r) acc es = acc @ es" for acc
    by (induction es arbitrary: acc) (auto simp: js_wf_def js_set_absent)
  from this [of "[]"] show "js_wf es \<Longrightarrow> new_map es = es" by (simp add: new_map_def)
qed

lemma valid_entries_saved: "list_all (\<lambda>(i, r). i \<noteq> []) rs \<Longrightarrow> valid_entries (map (\<lambda>(i, r). Some (Some i, Some r)) rs) = rs"
  by (induction rs) auto

lemma highest_ge: "e \<in> set es \<Longrightarrow> snd e \<le> foldl (\<lambda>h (i, r). max h r) (a :: rat) es"
proof -
  have "a \<le> foldl (\<lambda>h (i, r). max h r) a es \<and> (\<forall>e \<in> set es. snd e \<le> foldl (\<lambda>h (i, r). max h r) a es)"
  proof (induction es arbitrary: a)
    case (Cons x es)
    obtain i r where x: "x = (i, r)" by force
    show ?case using Cons.IH [of "max a r"] by (auto simp: x)
  qed simp
  then show "e \<in> set es \<Longrightarrow> snd e \<le> foldl (\<lambda>h (i, r). max h r) a es" by blast
qed

lemma reload_lru:
  assumes "mru_ok m"
  shows "mru_ok (fromJSON (Some (toJSON m)))" and "recent (fromJSON (Some (toJSON m))) MRU_LIMIT = recent m MRU_LIMIT"
proof -
  let ?S = "js_sort by_recency (ranks m)"
  have wf: "js_wf (ranks m)" and inj: "inj_on snd (set (ranks m))" and len: "length (ranks m) \<le> MRU_LIMIT"
    and ids: "list_all (\<lambda>(i, r). i \<noteq> []) (ranks m)" and lt: "list_all (\<lambda>(i, r). r < counter m) (ranks m)"
    using assms by (auto simp: mru_ok_def list_all_iff)
  have "mset (map fst ?S) = mset (map fst (ranks m))" by simp
  then have wfS: "js_wf ?S" using wf unfolding js_wf_def by (metis mset_eq_imp_distinct_iff)
  have r: "ranks (fromJSON (Some (toJSON m))) = ?S"
    using len by (simp add: fromJSON_def toJSON_def valid_entries_saved [OF ids] new_map_wf [OF wfS] Let_def)
  have c: "counter m \<le> counter (fromJSON (Some (toJSON m)))" by (simp add: fromJSON_def toJSON_def Let_def)
  show "mru_ok (fromJSON (Some (toJSON m)))"
    unfolding mru_ok_def r using wfS inj len ids lt c by (fastforce simp: list_all_iff)
  have "js_sort by_recency ?S = ?S"
    using wf_distinct [OF wfS] inj by (intro sorted_as) (auto simp: rec.ordered_sort)
  then show "recent (fromJSON (Some (toJSON m))) MRU_LIMIT = recent m MRU_LIMIT" by (simp add: recent_def r)
qed

datatype mru_op = Touch string | Forget string | Reload

fun mru_step :: "Mru \<Rightarrow> mru_op \<Rightarrow> Mru" where
  "mru_step m (Touch i) = touch m i"
| "mru_step m (Forget i) = snd (forget m i)"
| "mru_step m Reload = fromJSON (Some (toJSON m))"

fun lru_step :: "string list \<Rightarrow> mru_op \<Rightarrow> string list" where
  "lru_step ids (Touch i) = lru_touch ids i"
| "lru_step ids (Forget i) = filter (\<lambda>j. j \<noteq> i) ids"
| "lru_step ids Reload = ids"

text \<open>The palette remembers the last fifty commands, most recent first: through any uses, forgets and
  reloads from storage, the list it shows is the one kept by moving the used id to the front and
  cutting at fifty; the ranks behind it never collide.\<close>

theorem mru_is_lru:
  assumes "list_all (\<lambda>op. op \<noteq> Touch []) ops"
  shows "mru_ok (foldl mru_step new_mru ops) \<and> recent (foldl mru_step new_mru ops) MRU_LIMIT = foldl lru_step [] ops"
  using assms
proof (induction ops rule: rev_induct)
  case Nil
  then show ?case by (simp add: mru_ok_def new_mru_def recent_def js_wf_def)
next
  case (snoc op ops)
  then show ?case using touch_lru forget_lru reload_lru by (cases op) auto
qed

theorem mru_is_lru_witness:
  "mru_ok (foldl mru_step new_mru [Touch ''a'', Touch ''b'', Reload, Touch ''a'']) \<and>
   recent (foldl mru_step new_mru [Touch ''a'', Touch ''b'', Reload, Touch ''a'']) MRU_LIMIT =
   foldl lru_step [] [Touch ''a'', Touch ''b'', Reload, Touch ''a'']"
  by (rule mru_is_lru) simp

end
