(* ===== verification/Ping_Stats.thy ===== *)
theory Ping_Stats
  imports Complex_Main Js_Strings Stable_Sort
begin

text \<open>
  The sampling rules of the ping plugin, \<^verbatim>\<open>frontend/plugins/ping/logic.ts\<close>: cadence, statistics, the
  chart's scale and the packing of a run for publication. Times and round trips are rational
  numbers; a packed run off the wire is an arbitrary value.
\<close>

definition PING_WINDOW_MS :: rat where "PING_WINDOW_MS = 30000"
definition BASE_INTERVAL_MS :: int where "BASE_INTERVAL_MS = 500"
definition PROBE_TIMEOUT_MS :: int where "PROBE_TIMEOUT_MS = 2000"
definition MAX_TARGETS :: nat where "MAX_TARGETS = 3"
definition MAX_PUBLISHED_POINTS :: nat where "MAX_PUBLISHED_POINTS = 60"

definition js_round :: "rat \<Rightarrow> int" where
  \<comment> \<open>\<^verbatim>\<open>Math.round\<close>: halves go up\<close>
  "js_round x = \<lfloor>x + 1 / 2\<rfloor>"

definition nextInterval :: "rat option \<Rightarrow> int" where
  "nextInterval rtt = (case rtt of
       None \<Rightarrow> min (BASE_INTERVAL_MS * 4) PROBE_TIMEOUT_MS
     | Some r \<Rightarrow> max BASE_INTERVAL_MS (js_round (2 * r)))"

record Sample =
  at_time :: rat
  rtt :: "rat option"

record Stats =
  smin :: "rat option"
  median :: "rat option"
  smax :: "rat option"
  loss :: rat
  sent :: nat

definition by_value :: "rat \<Rightarrow> rat \<Rightarrow> int" where
  "by_value a b = (if a < b then -1 else if a = b then 0 else 1)"

definition answered_of :: "Sample list \<Rightarrow> rat list" where
  "answered_of samples = js_sort by_value (map the (filter (\<lambda>r. r \<noteq> None) (map rtt samples)))"

definition summarize :: "Sample list \<Rightarrow> Stats" where
  "summarize samples =
     (let answered = answered_of samples;
          n = length samples;
          l = (if n = 0 then 0 else (of_nat n - of_nat (length answered)) / of_nat n) in
      if answered = [] then \<lparr>smin = None, median = None, smax = None, loss = l, sent = n\<rparr>
      else
        let mid = length answered div 2;
            med = (if length answered mod 2 = 0 then (answered ! (mid - 1) + answered ! mid) / 2 else answered ! mid) in
        \<lparr>smin = Some (answered ! 0), median = Some med, smax = Some (answered ! (length answered - 1)), loss = l, sent = n\<rparr>)"

fun separators :: "string \<Rightarrow> string list" where
  \<comment> \<open>\<^verbatim>\<open>split(/[,\s]+/)\<close>, up to empty parts, which the caller drops\<close>
  "separators [] = [[]]"
| "separators (c # cs) =
     (if c = CHR '','' \<or> is_space c then [] # separators cs
      else case separators cs of [] \<Rightarrow> [[c]] | p # ps \<Rightarrow> (c # p) # ps)"

definition target_name :: "string \<Rightarrow> string" where
  "target_name t = (let s = js_trim t in if take 1 s = ''@'' then drop 1 s else s)"

definition parsePingArgs :: "string \<Rightarrow> nat \<Rightarrow> string list" where
  "parsePingArgs args limit =
     take limit (foldl set_add [] (filter (\<lambda>s. s \<noteq> []) (map target_name (separators args))))"

definition worst_of :: "Sample list \<Rightarrow> rat" where
  "worst_of samples = foldl max 0 (filter (\<lambda>v. 0 < v) (map (\<lambda>s. case rtt s of None \<Rightarrow> 0 | Some r \<Rightarrow> r) samples))"

definition chartCeiling :: "Sample list \<Rightarrow> rat" where
  "chartCeiling samples =
     (let worst = worst_of samples in
      if worst \<le> 0 then 50
      else let step = (if worst \<le> 100 then 25 else if worst \<le> 500 then 50 else 250) in of_int \<lceil>worst / step\<rceil> * step)"

type_synonym PackedSample = "int \<times> int option"

definition pack :: "Sample \<Rightarrow> PackedSample" where
  "pack s = (js_round (at_time s), map_option js_round (rtt s))"

definition packSeries :: "Sample list \<Rightarrow> nat \<Rightarrow> PackedSample list" where
  "packSeries samples maxPoints =
     (if length samples \<le> maxPoints then map pack samples
      else map (\<lambda>k. pack (samples ! (k * length samples div maxPoints))) [0..<maxPoints])"

definition packed_value :: "PackedSample \<Rightarrow> js_value" where
  "packed_value p = JArr [JNum (JInt (fst p)), (case snd p of None \<Rightarrow> JNull | Some r \<Rightarrow> JNum (JInt r))]"

definition neg_number :: "js_number \<Rightarrow> bool" where
  "neg_number n = (case n of JInt i \<Rightarrow> i < 0 | JNonInt t \<Rightarrow> take 1 t = ''-'')"

definition finite_number :: "js_number \<Rightarrow> bool" where
  "finite_number n = (case n of JInt i \<Rightarrow> True | JNonInt t \<Rightarrow> \<not> not_finite t)"

fun unpack_one :: "js_value \<Rightarrow> (js_number \<times> js_number option) option" where
  "unpack_one (JArr [JNum a, JNull]) = (if finite_number a \<and> \<not> neg_number a then Some (a, None) else None)"
| "unpack_one (JArr [JNum a, JNum r]) =
     (if finite_number a \<and> \<not> neg_number a \<and> finite_number r then Some (a, Some r) else None)"
| "unpack_one _ = None"

definition unpackSeries :: "js_value \<Rightarrow> (js_number \<times> js_number option) list" where
  "unpackSeries packed = (case packed of JArr ps \<Rightarrow> map the (filter (\<lambda>x. x \<noteq> None) (map unpack_one ps)) | _ \<Rightarrow> [])"

section \<open>Statistics\<close>

interpretation val: comparator by_value
  by unfold_locales (auto simp: by_value_def split: if_splits)

lemma answered_sorted: "sorted (answered_of samples)"
proof -
  have "ordered_by by_value (answered_of samples)" unfolding answered_of_def by (rule val.ordered_sort)
  then show ?thesis unfolding ordered_by_def
    by (rule sorted_wrt_mono_rel [rotated]) (auto simp: by_value_def split: if_splits)
qed

lemma set_answered: "set (answered_of samples) = {r. \<exists>s \<in> set samples. rtt s = Some r}"
  by (force simp: answered_of_def image_iff)

lemma answered_le: "length (answered_of samples) \<le> length samples"
  using length_filter_le [of "\<lambda>r. r \<noteq> None" "map rtt samples"] by (simp add: answered_of_def)

text \<open>What is published about a link is about its answers: minimum, median and maximum are in order and
  bound every answer, and the loss is the share of the probes that got none.\<close>

lemma summarize_honest:
  assumes "rtt s = Some r" "s \<in> set samples"
  obtains a m b where "smin (summarize samples) = Some a" "median (summarize samples) = Some m" "smax (summarize samples) = Some b"
    "a \<le> m" "m \<le> b" "a \<le> r" "r \<le> b"
proof -
  let ?A = "answered_of samples" let ?n = "length ?A" let ?mid = "?n div 2"
  have r: "r \<in> set ?A" using assms set_answered by auto
  then have ne: "?A \<noteq> []" by auto
  then have n: "0 < ?n" by simp
  have mono: "?A ! i \<le> ?A ! j" if "i \<le> j" "j < ?n" for i j using answered_sorted that by (rule sorted_nth_mono)
  obtain k where k: "k < ?n" "?A ! k = r" using r by (auto simp: in_set_conv_nth)
  let ?m = "if ?n mod 2 = 0 then (?A ! (?mid - 1) + ?A ! ?mid) / 2 else ?A ! ?mid"
  have mid: "?mid < ?n" using n by simp
  have "?A ! 0 \<le> ?A ! (?mid - 1)" "?A ! 0 \<le> ?A ! ?mid" "?A ! (?mid - 1) \<le> ?A ! (?n - 1)" "?A ! ?mid \<le> ?A ! (?n - 1)"
    by (rule mono, use mid n in linarith, use mid n in linarith)+
  then have "?A ! 0 \<le> ?m" "?m \<le> ?A ! (?n - 1)" by (simp_all add: field_simps)
  moreover have "?A ! 0 \<le> r" "r \<le> ?A ! (?n - 1)" using k n by (auto intro!: mono simp flip: k(2))
  moreover have "smin (summarize samples) = Some (?A ! 0)" "median (summarize samples) = Some ?m" "smax (summarize samples) = Some (?A ! (?n - 1))"
    using ne by (simp_all add: summarize_def Let_def)
  ultimately show thesis using that by blast
qed

lemma loss_share: "0 \<le> loss (summarize samples) \<and> loss (summarize samples) \<le> 1"
  using answered_le [of samples] by (auto simp: summarize_def Let_def field_simps of_nat_diff)

lemma chart_holds_answers:
  assumes "s \<in> set samples" "rtt s = Some r"
  shows "r \<le> chartCeiling samples \<and> 0 < chartCeiling samples"
proof -
  let ?vs = "filter (\<lambda>v. 0 < v) (map (\<lambda>s. case rtt s of None \<Rightarrow> 0 | Some r \<Rightarrow> r) samples)"
  have m: "a \<le> foldl max a xs \<and> (\<forall>x \<in> set xs. x \<le> foldl max a xs)" for a :: rat and xs
  proof (induction xs arbitrary: a)
    case (Cons x xs)
    have "max a x \<le> foldl max (max a x) xs" "\<forall>y \<in> set xs. y \<le> foldl max (max a x) xs" using Cons.IH [of "max a x"] by auto
    then show ?case by auto
  qed simp
  have "r \<le> worst_of samples"
  proof (cases "0 < r")
    case True
    then have "r \<in> set ?vs" using assms by force
    then show ?thesis using m unfolding worst_of_def by blast
  qed (use m [of 0 ?vs] in \<open>auto simp: worst_of_def\<close>)
  moreover have up: "w \<le> of_int \<lceil>w / q\<rceil> * q \<and> 0 < of_int \<lceil>w / q\<rceil> * q" if "0 < w" "0 < q" for w q :: rat
  proof -
    have "w / q \<le> of_int \<lceil>w / q\<rceil>" by simp
    then have "w / q * q \<le> of_int \<lceil>w / q\<rceil> * q" using that(2) by (intro mult_right_mono) auto
    then have "w \<le> of_int \<lceil>w / q\<rceil> * q" using that(2) by simp
    with that show ?thesis by linarith
  qed
  moreover have "worst_of samples \<le> chartCeiling samples \<and> 0 < chartCeiling samples"
  proof (cases "worst_of samples \<le> 0")
    case False
    then have "chartCeiling samples = of_int \<lceil>worst_of samples / (if worst_of samples \<le> 100 then 25 else if worst_of samples \<le> 500 then 50 else 250)\<rceil> *
        (if worst_of samples \<le> 100 then 25 else if worst_of samples \<le> 500 then 50 else 250)"
      by (simp only: chartCeiling_def Let_def if_False)
    then show ?thesis using False by (simp only:) (rule up, auto)
  qed (simp add: chartCeiling_def)
  ultimately show ?thesis by linarith
qed

section \<open>Publishing a run\<close>

lemma packSeries_bound: "length (packSeries samples n) \<le> n"
  by (simp add: packSeries_def)

lemma pack_in_range: "n \<le> length samples \<Longrightarrow> k < n \<Longrightarrow> k * length samples div n < length samples"
proof -
  assume "n \<le> length samples" "k < n"
  then have "k * length samples < length samples * n" using mult_strict_right_mono [of k n "length samples"] by (cases samples) (auto simp: mult.commute)
  then show "k * length samples div n < length samples" using \<open>k < n\<close> by (subst div_less_iff_less_mult) auto
qed

lemma packSeries_samples: "set (packSeries samples n) \<subseteq> pack ` set samples"
  using pack_in_range [of n samples] by (auto simp: packSeries_def simp del: length_0_conv intro!: imageI nth_mem)

text \<open>A run that is published arrives as it was packed.\<close>

lemma unpack_pack:
  assumes "list_all (\<lambda>s. 0 \<le> at_time s) samples"
  shows "unpackSeries (JArr (map packed_value (packSeries samples n))) =
     map (\<lambda>(a, r). (JInt a, map_option JInt r)) (packSeries samples n)"
proof -
  have one: "unpack_one (packed_value p) = Some (JInt (fst p), map_option JInt (snd p))" if p: "p \<in> set (packSeries samples n)" for p
  proof -
    obtain s where "s \<in> set samples" "p = pack s" using p packSeries_samples [of samples n] by blast
    then have "0 \<le> fst p" using assms by (auto simp: pack_def js_round_def list_all_iff)
    then show ?thesis by (cases "snd p") (simp_all add: packed_value_def finite_number_def neg_number_def)
  qed
  then have "map unpack_one (map packed_value (packSeries samples n)) =
      map Some (map (\<lambda>(a, r). (JInt a, map_option JInt r)) (packSeries samples n))"
    by (auto simp: case_prod_unfold)
  then show ?thesis by (simp only: unpackSeries_def js_value.case) (simp add: comp_def)
qed

text \<open>The cadence never starts a probe while the last one may still be answered: the interval is at
  least twice the round trip, up to the rounding, and at least half a second.\<close>

lemma nextInterval_bounds:
  "BASE_INTERVAL_MS \<le> nextInterval r \<and> (\<forall>x. r = Some x \<longrightarrow> 2 * x - 1 / 2 \<le> of_int (nextInterval r))"
proof -
  have "2 * x - 1 / 2 \<le> of_int (js_round (2 * x))" for x
    using floor_correct [of "2 * x + 1 / 2"] by (simp add: js_round_def)
  then show ?thesis
    by (auto simp: nextInterval_def BASE_INTERVAL_MS_def PROBE_TIMEOUT_MS_def split: option.split) (metis max.coboundedI2 of_int_max)
qed

end
