(* ===== verification/Image_Header.thy ===== *)
theory Image_Header
  imports Complex_Main Prelude "HOL-Library.Word" "HOL-Library.Monad_Syntax"
begin

unbundle bit_operations_syntax

text \<open>
  The size an image declares in its header, \<^verbatim>\<open>frontend/src/lib/image-size.ts\<close>: the walks over GIF, PNG,
  WebP and JPEG headers, reading a file byte by byte, and the limits put on what they find. The bytes
  come from peers, so the loops are \<open>partial_function\<close>s, for which not returning is \<open>None\<close>, and that they
  return on every input is a theorem. A reader \<^verbatim>\<open>byteAt\<close> gives -1 past the end.

  Measuring a local file with the browser's decoders is not modelled.
\<close>

type_synonym ByteAt = "nat \<Rightarrow> int"

record Size =
  width :: int
  height :: int

section \<open>Sane dimensions\<close>

definition MAX_DIMENSION :: int where "MAX_DIMENSION = 20000"
definition MAX_W_REM :: rat where "MAX_W_REM = 20"
definition MAX_H_REM :: rat where "MAX_H_REM = 14"
definition MAX_RATIO :: rat where "MAX_RATIO = 20"

definition isSaneDimension :: "js_value \<Rightarrow> bool" where
  "isSaneDimension v = (case v of JNum (JInt i) \<Rightarrow> 0 < i \<and> i \<le> MAX_DIMENSION | _ \<Rightarrow> False)"

definition media_box :: "js_value \<Rightarrow> js_value \<Rightarrow> (rat \<times> int \<times> int) option" where
  \<comment> \<open>\<^verbatim>\<open>mediaBoxStyle\<close>: the width in rem and the aspect ratio that the style is printed from\<close>
  "media_box w h =
     (if \<not> isSaneDimension w \<or> \<not> isSaneDimension h then None
      else
        let ratio = of_int (as_int w) / of_int (as_int h) in
        if MAX_RATIO < ratio \<or> ratio < 1 / MAX_RATIO then None
        else Some (min MAX_W_REM (min (MAX_H_REM * ratio) (of_int (as_int w) / 16)), as_int w, as_int h))"

section \<open>Headers\<close>

fun bytesAt :: "ByteAt \<Rightarrow> nat \<Rightarrow> nat \<Rightarrow> int list option" where
  "bytesAt byteAt i 0 = Some []"
| "bytesAt byteAt i (Suc n) =
     (if byteAt i < 0 then None else map_option (Cons (byteAt i)) (bytesAt byteAt (i + 1) n))"

definition ascii :: "int list \<Rightarrow> nat \<Rightarrow> nat \<Rightarrow> string" where
  "ascii b i n = map char_of (take n (drop i b))"

definition u16le :: "int list \<Rightarrow> nat \<Rightarrow> int" where
  "u16le b k = b ! k OR push_bit 8 (b ! (k + 1))"

partial_function (option) skip_blocks :: "ByteAt \<Rightarrow> nat \<Rightarrow> nat option" where
  \<comment> \<open>the sub-blocks of one extension\<close>
  "skip_blocks byteAt i = (if 0 < byteAt i then skip_blocks byteAt (i + nat (byteAt i) + 1) else Some i)"

partial_function (option) skip_extensions :: "ByteAt \<Rightarrow> nat \<Rightarrow> nat option" where
  "skip_extensions byteAt i =
     (if byteAt i = 0x21 then Option.bind (skip_blocks byteAt (i + 2)) (\<lambda>j. skip_extensions byteAt (j + 1)) else Some i)"

definition gifSize :: "ByteAt \<Rightarrow> Size option option" where
  "gifSize byteAt =
     (case bytesAt byteAt 0 13 of
        None \<Rightarrow> Some None
      | Some head \<Rightarrow>
          if ascii head 0 3 \<noteq> ''GIF'' then Some None
          else
            let w = u16le head 6; h = u16le head 8;
                i = 13 + (if head ! 10 AND 0x80 \<noteq> 0 then nat (push_bit (nat ((head ! 10 AND 7) + 1)) 3) else 0) in
            Option.bind (skip_extensions byteAt i) (\<lambda>i.
              case (if byteAt i = 0x2c then bytesAt byteAt (i + 1) 8 else None) of
                None \<Rightarrow> Some (Some \<lparr>width = w, height = h\<rparr>)
              | Some frame \<Rightarrow> Some (Some \<lparr>width = max w (u16le frame 0 + u16le frame 4), height = max h (u16le frame 2 + u16le frame 6)\<rparr>)))"

definition u32 :: "int list \<Rightarrow> nat \<Rightarrow> int" where
  "u32 b i = b ! i * 0x1000000 + ((push_bit 16 (b ! (i + 1)) OR push_bit 8 (b ! (i + 2))) OR b ! (i + 3))"

definition pngSize :: "ByteAt \<Rightarrow> Size option" where
  "pngSize byteAt =
     (case bytesAt byteAt 0 24 of
        None \<Rightarrow> None
      | Some head \<Rightarrow>
          if head ! 0 \<noteq> 0x89 \<or> ascii head 1 3 \<noteq> ''PNG'' then None
          else if ascii head 12 4 \<noteq> ''IHDR'' then None
          else Some \<lparr>width = u32 head 16, height = u32 head 20\<rparr>)"

definition u24le :: "int list \<Rightarrow> nat \<Rightarrow> int" where
  "u24le b k = (b ! k OR push_bit 8 (b ! (k + 1))) OR push_bit 16 (b ! (k + 2))"

definition vp8l_bits :: "int list \<Rightarrow> 32 word" where
  "vp8l_bits head = ((word_of_int (head ! 21) OR push_bit 8 (word_of_int (head ! 22))) OR push_bit 16 (word_of_int (head ! 23)))
     OR push_bit 24 (word_of_int (head ! 24))"

definition webpSize :: "ByteAt \<Rightarrow> Size option" where
  "webpSize byteAt =
     (case bytesAt byteAt 0 30 of
        None \<Rightarrow> None
      | Some head \<Rightarrow>
          if ascii head 0 4 \<noteq> ''RIFF'' \<or> ascii head 8 4 \<noteq> ''WEBP'' then None
          else if ascii head 12 4 = ''VP8X'' then Some \<lparr>width = 1 + u24le head 24, height = 1 + u24le head 27\<rparr>
          else if ascii head 12 4 = ''VP8 '' then Some \<lparr>width = u16le head 26 AND 0x3fff, height = u16le head 28 AND 0x3fff\<rparr>
          else if ascii head 12 4 = ''VP8L'' then
            (let bits = vp8l_bits head in
             Some \<lparr>width = 1 + uint (bits AND 0x3fff), height = 1 + uint (drop_bit 14 bits AND 0x3fff)\<rparr>)
          else None)"

partial_function (option) jpeg_fill :: "ByteAt \<Rightarrow> nat \<Rightarrow> nat option" where
  "jpeg_fill byteAt i = (if byteAt (i + 1) = 0xff then jpeg_fill byteAt (i + 1) else Some i)"

definition u16be :: "int list \<Rightarrow> nat \<Rightarrow> int" where
  "u16be b k = push_bit 8 (b ! k) OR b ! (k + 1)"

partial_function (option) jpeg_segments :: "ByteAt \<Rightarrow> nat \<Rightarrow> Size option option" where
  "jpeg_segments byteAt i =
     (if byteAt i \<noteq> 0xff then Some None
      else Option.bind (jpeg_fill byteAt i) (\<lambda>j.
        let marker = byteAt (j + 1); k = j + 2 in
        if marker = 0x01 \<or> 0xd0 \<le> marker \<and> marker \<le> 0xd8 then jpeg_segments byteAt k
        else case bytesAt byteAt k 2 of
               None \<Rightarrow> Some None
             | Some l \<Rightarrow>
                 if marker = 0xd9 \<or> marker = 0xda then Some None
                 else if 0xc0 \<le> marker \<and> marker \<le> 0xcf \<and> marker \<noteq> 0xc4 \<and> marker \<noteq> 0xc8 \<and> marker \<noteq> 0xcc then
                   Some (map_option (\<lambda>sof. \<lparr>width = u16be sof 3, height = u16be sof 1\<rparr>) (bytesAt byteAt (k + 2) 5))
                 else if u16be l 0 < 2 then Some None
                 else jpeg_segments byteAt (k + nat (u16be l 0))))"

definition jpegSize :: "ByteAt \<Rightarrow> Size option option" where
  "jpegSize byteAt = (if byteAt 0 \<noteq> 0xff \<or> byteAt 1 \<noteq> 0xd8 then Some None else jpeg_segments byteAt 2)"

definition declaredImageSize :: "ByteAt \<Rightarrow> Size option option" where
  "declaredImageSize byteAt =
     Option.bind (gifSize byteAt) (\<lambda>g.
       if g \<noteq> None then Some g
       else if pngSize byteAt \<noteq> None then Some (pngSize byteAt)
       else if webpSize byteAt \<noteq> None then Some (webpSize byteAt)
       else jpegSize byteAt)"

section \<open>Images in data URLs\<close>

fun b64_value :: "char \<Rightarrow> nat option" where
  "b64_value c = (let n = of_char c in
     if 65 \<le> n \<and> n \<le> 90 then Some (n - 65) else if 97 \<le> n \<and> n \<le> 122 then Some (n - 71)
     else if 48 \<le> n \<and> n \<le> 57 then Some (n + 4) else if n = 43 then Some 62 else if n = 47 then Some 63 else None)"

fun b64_groups :: "nat list \<Rightarrow> nat list" where
  "b64_groups (a # b # c # d # r) = (a * 4 + b div 16) # (b mod 16 * 16 + c div 4) # (c mod 4 * 64 + d) # b64_groups r"
| "b64_groups [a, b, c] = [a * 4 + b div 16, b mod 16 * 16 + c div 4]"
| "b64_groups [a, b] = [a * 4 + b div 16]"
| "b64_groups _ = []"

definition strip_pad :: "string \<Rightarrow> string" where
  "strip_pad s =
     (if length s mod 4 \<noteq> 0 then s
      else if take 2 (rev s) = ''=='' then take (length s - 2) s
      else if take 1 (rev s) = ''='' then take (length s - 1) s else s)"

definition atob :: "string \<Rightarrow> nat list option" where
  \<comment> \<open>the forgiving decoder of the platform: white space goes, then at most two pads\<close>
  "atob data =
     (let s = strip_pad (filter (\<lambda>c. of_char c \<notin> set [9, 10, 12, 13, 32 :: nat]) data) in
      if length s mod 4 = 1 then None else map_option b64_groups (those (map b64_value s)))"

definition WINDOW :: nat where "WINDOW = 3072"

definition pad4 :: "string \<Rightarrow> string" where
  \<comment> \<open>\<^verbatim>\<open>chars.padEnd(Math.ceil(chars.length / 4) * 4, "=")\<close>\<close>
  "pad4 s = s @ replicate ((length s + 3) div 4 * 4 - length s) CHR ''=''"

definition url_window :: "string \<Rightarrow> nat \<Rightarrow> nat list" where
  "url_window b64 start =
     (let chars = take (WINDOW div 3 * 4) (drop (start div 3 * 4) b64) in
      case atob (pad4 chars) of None \<Rightarrow> [] | Some bytes \<Rightarrow> bytes)"

definition url_byte :: "string \<Rightarrow> ByteAt" where
  \<comment> \<open>the window around a byte is decoded afresh; the source keeps the last one, which is the same\<close>
  "url_byte b64 i =
     (let start = i - i mod WINDOW; chunk = url_window b64 start in
      if i - start < length chunk then int (chunk ! (i - start)) else -1)"

definition after_comma :: "string \<Rightarrow> string" where
  \<comment> \<open>\<^verbatim>\<open>url.slice(url.indexOf(",") + 1)\<close>\<close>
  "after_comma url = (if CHR '','' \<in> set url then tl (dropWhile (\<lambda>c. c \<noteq> CHR '','') url) else url)"

definition dataUrlImageSize :: "string \<Rightarrow> Size option option" where
  "dataUrlImageSize url = declaredImageSize (url_byte (after_comma url))"

definition MAX_PROFILE_IMAGE_SIDE :: int where "MAX_PROFILE_IMAGE_SIDE = 4096"

definition profileImageFits :: "string \<Rightarrow> bool option" where
  "profileImageFits dataUrl = map_option (\<lambda>s. case s of
      None \<Rightarrow> True
    | Some z \<Rightarrow> width z \<le> MAX_PROFILE_IMAGE_SIDE \<and> height z \<le> MAX_PROFILE_IMAGE_SIDE) (dataUrlImageSize dataUrl)"

section \<open>Still frames\<close>

definition MAX_FRAME_SIDE :: rat where "MAX_FRAME_SIDE = 1024"
definition MAX_FRAME_PIXELS :: int where "MAX_FRAME_PIXELS = 4096 * 4096"

definition canDecodeStillFrame :: "int \<Rightarrow> int \<Rightarrow> bool" where
  "canDecodeStillFrame w h \<longleftrightarrow> 0 < w \<and> 0 < h \<and> w * h \<le> MAX_FRAME_PIXELS"

datatype view = Loading | Shown | Too_large | Failed

definition animatedView :: "Size option option \<Rightarrow> view" where
  \<comment> \<open>no value while the copy loads, no size when that failed\<close>
  "animatedView sz = (case sz of
       None \<Rightarrow> Loading
     | Some None \<Rightarrow> Failed
     | Some (Some z) \<Rightarrow> if MAX_FRAME_PIXELS < width z * height z then Too_large else Shown)"

definition round_half_up :: "rat \<Rightarrow> int" where "round_half_up x = \<lfloor>x + 1 / 2\<rfloor>"

definition stillFrameSize :: "int \<Rightarrow> int \<Rightarrow> rat \<Rightarrow> rat \<Rightarrow> rat \<Rightarrow> Size option" where
  \<comment> \<open>a pixel ratio of 0 stands for an unknown one\<close>
  "stillFrameSize naturalWidth naturalHeight shownWidth shownHeight pixelRatio =
     (if \<not> canDecodeStillFrame naturalWidth naturalHeight then None
      else
        let scale0 = min 1 (MAX_FRAME_SIDE / of_int (max naturalWidth naturalHeight));
            ratio = max 1 (if pixelRatio = 0 then 1 else pixelRatio);
            cover = max (shownWidth * ratio / of_int naturalWidth) (shownHeight * ratio / of_int naturalHeight);
            scale = (if 0 < shownWidth \<and> 0 < shownHeight then min scale0 cover else scale0) in
        Some \<lparr>width = max 1 (round_half_up (of_int naturalWidth * scale)), height = max 1 (round_half_up (of_int naturalHeight * scale))\<rparr>)"

definition stillFrameGrows :: "Size option \<Rightarrow> Size \<Rightarrow> bool" where
  "stillFrameGrows drawn needed = (case drawn of None \<Rightarrow> True | Some d \<Rightarrow> width d < width needed \<or> height d < height needed)"

definition stillFrameRedraw :: "Size option \<Rightarrow> int \<Rightarrow> int \<Rightarrow> rat \<Rightarrow> rat \<Rightarrow> rat \<Rightarrow> Size option" where
  "stillFrameRedraw drawn naturalWidth naturalHeight shownWidth shownHeight pixelRatio =
     (if drawn \<noteq> None \<and> \<not> (0 < shownWidth \<and> 0 < shownHeight) then None
      else case stillFrameSize naturalWidth naturalHeight shownWidth shownHeight pixelRatio of
             None \<Rightarrow> None
           | Some sz \<Rightarrow> if stillFrameGrows drawn sz then Some sz else None)"

section \<open>The walks end\<close>

definition finite_file :: "ByteAt \<Rightarrow> nat \<Rightarrow> bool" where
  \<comment> \<open>there is no byte from \<open>n\<close> on\<close>
  "finite_file byteAt n \<longleftrightarrow> (\<forall>i \<ge> n. byteAt i < 0)"

lemma finite_fileD: "finite_file byteAt n \<Longrightarrow> 0 \<le> byteAt i \<Longrightarrow> i < n"
  unfolding finite_file_def by (metis linorder_not_less)

lemma skip_blocks_ends:
  assumes "finite_file byteAt n"
  shows "\<exists>j \<ge> i. skip_blocks byteAt i = Some j"
proof (induction "n - i" arbitrary: i rule: less_induct)
  case less
  show ?case
  proof (cases "0 < byteAt i")
    case True
    then have "i < n" using finite_fileD [OF assms, of i] by simp
    then have "n - (i + nat (byteAt i) + 1) < n - i" by linarith
    from less [OF this] obtain j where "j \<ge> i + nat (byteAt i) + 1" "skip_blocks byteAt (i + nat (byteAt i) + 1) = Some j"
      by blast
    then show ?thesis using True by (intro exI [of _ j]) (subst skip_blocks.simps, simp)
  qed (subst skip_blocks.simps, simp)
qed

lemma skip_extensions_ends:
  assumes "finite_file byteAt n"
  shows "\<exists>j. skip_extensions byteAt i = Some j"
proof (induction "n - i" arbitrary: i rule: less_induct)
  case less
  show ?case
  proof (cases "byteAt i = 0x21")
    case True
    then have "i < n" using finite_fileD [OF assms, of i] by simp
    obtain j where j: "j \<ge> i + 2" "skip_blocks byteAt (i + 2) = Some j" using skip_blocks_ends [OF assms] by blast
    have "n - (j + 1) < n - i" using j(1) \<open>i < n\<close> by linarith
    from less [OF this] obtain k where "skip_extensions byteAt (j + 1) = Some k" by blast
    then show ?thesis using True j(2) by (intro exI [of _ k]) (subst skip_extensions.simps, simp)
  qed (subst skip_extensions.simps, simp)
qed

lemma jpeg_fill_ends:
  assumes "finite_file byteAt n"
  shows "\<exists>j \<ge> i. jpeg_fill byteAt i = Some j"
proof (induction "n - i" arbitrary: i rule: less_induct)
  case less
  show ?case
  proof (cases "byteAt (i + 1) = 0xff")
    case True
    then have "i + 1 < n" using finite_fileD [OF assms, of "i + 1"] by simp
    then have "n - (i + 1) < n - i" by linarith
    from less [OF this] obtain j where "j \<ge> i + 1" "jpeg_fill byteAt (i + 1) = Some j" by blast
    then show ?thesis using True by (intro exI [of _ j]) (subst jpeg_fill.simps, simp)
  qed (subst jpeg_fill.simps, simp)
qed

lemma jpeg_segments_ends:
  assumes "finite_file byteAt n"
  shows "\<exists>s. jpeg_segments byteAt i = Some s"
proof (induction "n - i" arbitrary: i rule: less_induct)
  case less
  show ?case
  proof (cases "byteAt i = 0xff")
    case True
    then have "i < n" using finite_fileD [OF assms, of i] by simp
    obtain j where j: "j \<ge> i" "jpeg_fill byteAt i = Some j" using jpeg_fill_ends [OF assms] by blast
    have rest: "\<exists>s. jpeg_segments byteAt (j + 2 + d) = Some s" for d
    proof (rule less)
      show "n - (j + 2 + d) < n - i" using j(1) \<open>i < n\<close> by linarith
    qed
    from rest [of 0] have "\<exists>s. jpeg_segments byteAt (j + 2) = Some s" by simp
    with rest True j(2) show ?thesis
      by (subst jpeg_segments.simps) (simp add: Let_def split: option.split del: add_2_eq_Suc')
  qed (subst jpeg_segments.simps, simp)
qed

lemma gifSize_ends:
  assumes "finite_file byteAt n"
  shows "\<exists>g. gifSize byteAt = Some g"
proof (cases "bytesAt byteAt 0 13")
  case (Some head)
  obtain j where "skip_extensions byteAt (13 + (if head ! 10 AND 0x80 \<noteq> 0 then nat (push_bit (nat ((head ! 10 AND 7) + 1)) 3) else 0)) = Some j"
    using skip_extensions_ends [OF assms] by blast
  then show ?thesis unfolding gifSize_def Some Let_def option.case
    by (cases "if byteAt j = 0x2c then bytesAt byteAt (j + 1) 8 else None") (simp_all only: Option.bind.simps option.case if_split, simp_all)
qed (simp add: gifSize_def)

lemma declaredImageSize_ends:
  assumes "finite_file byteAt n"
  shows "\<exists>s. declaredImageSize byteAt = Some s"
proof -
  obtain g where "gifSize byteAt = Some g" using gifSize_ends [OF assms] by blast
  moreover have "\<exists>s. jpegSize byteAt = Some s"
    using jpeg_segments_ends [OF assms, of 2] by (simp add: jpegSize_def)
  ultimately show ?thesis by (auto simp: declaredImageSize_def)
qed

lemma window_div [simp]: "(i - i mod WINDOW) div 3 * 4 = i div WINDOW * 4096"
proof -
  have "i - i mod WINDOW = i div WINDOW * WINDOW" by (simp add: minus_mod_eq_div_mult)
  then show ?thesis by (simp add: WINDOW_def)
qed

lemma pad4_Nil: "pad4 [] = []" by (simp add: pad4_def)

lemma atob_Nil: "atob [] = Some []" by (simp add: atob_def strip_pad_def)

lemma url_byte_finite: "finite_file (url_byte b64) (length b64 + WINDOW)"
  unfolding finite_file_def
proof (intro allI impI)
  fix i assume i: "length b64 + WINDOW \<le> i"
  have "i = i div WINDOW * WINDOW + i mod WINDOW" by simp
  moreover have "i mod WINDOW < WINDOW" by (simp add: WINDOW_def)
  ultimately have "length b64 \<le> i div WINDOW * WINDOW" using i by linarith
  also have "\<dots> \<le> i div WINDOW * 4096" by (simp add: WINDOW_def)
  finally have "drop (i div WINDOW * 4096) b64 = []" by simp
  then have "url_window b64 (i - i mod WINDOW) = []"
    unfolding url_window_def Let_def window_div by (simp only: take_Nil pad4_Nil atob_Nil option.case)
  then show "url_byte b64 i < 0" by (simp add: url_byte_def Let_def)
qed

section \<open>Reading through a window\<close>

definition whole_byte :: "nat list \<Rightarrow> ByteAt" where
  \<comment> \<open>the reader over a file decoded at once\<close>
  "whole_byte bytes i = (if i < length bytes then int (bytes ! i) else -1)"

definition plain_b64 :: "string \<Rightarrow> bool" where
  \<comment> \<open>\<^verbatim>\<open>[A-Za-z0-9+/]+=*\<close>\<close>
  "plain_b64 s = (let d = takeWhile (\<lambda>c. b64_value c \<noteq> None) s in
     d \<noteq> [] \<and> list_all (\<lambda>c. c = CHR ''='') (dropWhile (\<lambda>c. b64_value c \<noteq> None) s))"

lemma those_map_Some_iff: "those xs = Some ys \<longleftrightarrow> xs = map Some ys"
proof (induction xs arbitrary: ys)
  case (Cons x xs)
  then show ?case by (cases ys) (auto split: option.splits)
qed auto

lemma four_three: "4 * Suc m = Suc (Suc (Suc (Suc (4 * m))))" "3 * Suc m = Suc (Suc (Suc (3 * m)))" by simp_all

lemma b64_groups_drop: "b64_groups (drop (4 * m) vs) = drop (3 * m) (b64_groups vs)"
proof (induction m arbitrary: vs)
  case (Suc m)
  show ?case unfolding four_three by (cases vs rule: b64_groups.cases) (simp_all add: Suc)
qed simp

lemma b64_groups_take: "b64_groups (take (4 * m) vs) = take (3 * m) (b64_groups vs)"
proof (induction m arbitrary: vs)
  case (Suc m)
  show ?case unfolding four_three by (cases vs rule: b64_groups.cases) (simp_all add: Suc)
qed simp

lemma b64_value_pad [simp]: "b64_value CHR ''='' = None" by simp

lemma not_white:
  assumes "b64_value c \<noteq> None \<or> c = CHR ''=''"
  shows "of_char c \<notin> set [9, 10, 12, 13, 32 :: nat]"
  using assms by (auto simp: Let_def split: if_splits)

lemma plain_b64_char: "plain_b64 s \<Longrightarrow> c \<in> set s \<Longrightarrow> b64_value c \<noteq> None \<or> c = CHR ''=''"
proof -
  assume *: "plain_b64 s" "c \<in> set s"
  have "set s = set (takeWhile (\<lambda>c. b64_value c \<noteq> None) s) \<union> set (dropWhile (\<lambda>c. b64_value c \<noteq> None) s)"
    by (metis set_append takeWhile_dropWhile_id)
  with * show ?thesis by (auto simp: plain_b64_def Let_def list_all_iff dest: set_takeWhileD simp del: b64_value.simps)
qed

declare b64_value.simps [simp del]

lemma atob_plain:
  assumes "\<And>c. c \<in> set s \<Longrightarrow> b64_value c \<noteq> None \<or> c = CHR ''=''"
  shows "atob s = (if length (strip_pad s) mod 4 = 1 then None else map_option b64_groups (those (map b64_value (strip_pad s))))"
proof -
  have "filter (\<lambda>c. of_char c \<notin> set [9, 10, 12, 13, 32 :: nat]) s = s"
    by (rule filter_True) (use assms not_white in blast)
  then show ?thesis unfolding atob_def Let_def by simp
qed

definition b64_data :: "string \<Rightarrow> bool" where
  "b64_data e \<longleftrightarrow> length e mod 4 \<noteq> 1 \<and> (\<forall>c \<in> set e. b64_value c \<noteq> None)"

definition pads :: "string \<Rightarrow> nat" where
  \<comment> \<open>how many pads complete the last group\<close>
  "pads e = (4 - length e mod 4) mod 4"

lemma b64_data_last:
  assumes "b64_data e"
  shows "take 1 (rev e) \<noteq> ''=''" "take 2 (rev e) \<noteq> ''==''"
proof -
  have "CHR ''='' \<notin> set e" using assms by (auto simp: b64_data_def)
  then have "CHR ''='' \<notin> set (take n (rev e))" for n using in_set_takeD [of _ n "rev e"] by auto
  then show "take 1 (rev e) \<noteq> ''=''" "take 2 (rev e) \<noteq> ''==''" by (metis list.set_intros(1))+
qed

lemma strip_pad_complete:
  assumes "b64_data e"
  shows "strip_pad (e @ replicate (pads e) CHR ''='') = e"
proof -
  consider "length e mod 4 = 0" | "length e mod 4 = 2" | "length e mod 4 = 3"
    using assms by (simp add: b64_data_def) linarith
  then show ?thesis
  proof cases
    case 1
    then show ?thesis using b64_data_last [OF assms] by (simp add: strip_pad_def pads_def)
  next
    case 2
    then have p: "replicate (pads e) CHR ''='' = ''==''" by (simp add: pads_def numeral_2_eq_2)
    have "length (e @ ''=='') mod 4 = 0" using 2 by (simp add: mod_simps) presburger
    then show ?thesis unfolding p by (simp add: strip_pad_def numeral_2_eq_2)
  next
    case 3
    then have p: "replicate (pads e) CHR ''='' = ''=''" by (simp add: pads_def)
    have "length (e @ ''='') mod 4 = 0" using 3 by (simp add: mod_simps) presburger
    moreover have "take 2 (rev (e @ ''='')) \<noteq> ''==''" using b64_data_last(1) [OF assms] by (simp add: numeral_2_eq_2)
    ultimately show ?thesis unfolding p by (simp add: strip_pad_def)
  qed
qed

lemma pads_groups:
  obtains a where "length e + pads e = 4 * a" "pads e < 4"
proof -
  define a r where "a = length e div 4" and "r = length e mod 4"
  have e: "length e = 4 * a + r" "r < 4" by (simp_all add: a_def r_def)
  have p: "pads e = (if r = 0 then 0 else 4 - r)" unfolding pads_def r_def by auto
  show ?thesis
  proof (cases "r = 0")
    case True
    then show ?thesis using that [of a] e p by simp
  next
    case False
    then show ?thesis using that [of "Suc a"] e p by simp
  qed
qed

lemma pads_unique:
  assumes "(length e + n) mod 4 = 0" "n < 4"
  shows "pads e = n"
proof -
  obtain a where a: "length e + pads e = 4 * a" "pads e < 4" by (rule pads_groups)
  obtain b where "length e + n = 4 * b" using assms(1) by (auto elim: dvdE simp: mod_0_imp_dvd)
  with a assms(2) have "a = b" by linarith
  with a \<open>length e + n = 4 * b\<close> show ?thesis by linarith
qed

lemma pad4_data:
  assumes "q = 0 \<or> q = pads e"
  shows "pad4 (e @ replicate q CHR ''='') = e @ replicate (pads e) CHR ''=''"
proof -
  obtain a where a: "length e + pads e = 4 * a" "pads e < 4" by (rule pads_groups)
  have "(length e + q + 3) div 4 = a" using assms a by (intro div_nat_eqI) auto
  then have "(length (e @ replicate q CHR ''='') + 3) div 4 * 4 - length (e @ replicate q CHR ''='') + q = pads e"
    using assms a by auto
  then show ?thesis unfolding pad4_def append_assoc replicate_add [symmetric] by (simp add: add.commute)
qed

lemma strip_pad_split:
  assumes "b64_data (strip_pad s)"
  obtains q where "q = 0 \<or> q = pads (strip_pad s)" "s = strip_pad s @ replicate q CHR ''=''"
proof -
  have tail: "s = take (length s - length t) s @ t" if "take (length t) (rev s) = rev t" for t
    using that by (metis append_take_drop_id length_rev rev_rev_ident rev_take take_rev)
  have "strip_pad s = s \<or> length s mod 4 = 0 \<and> s = strip_pad s @ replicate 2 CHR ''='' \<or> length s mod 4 = 0 \<and> s = strip_pad s @ replicate 1 CHR ''=''"
    using tail [of "''==''"] tail [of "''=''"] by (simp add: strip_pad_def numeral_2_eq_2)
  then consider "strip_pad s = s" | "length s mod 4 = 0" "s = strip_pad s @ replicate 2 CHR ''=''" | "length s mod 4 = 0" "s = strip_pad s @ replicate 1 CHR ''=''"
    by (elim disjE conjE)
  then show ?thesis
  proof cases
    case 1
    then show ?thesis using that [of 0] by simp
  next
    case 2
    from 2(2) have "length s = length (strip_pad s) + 2" by (metis length_append length_replicate)
    then have "pads (strip_pad s) = 2" using 2(1) by (intro pads_unique) simp_all
    then show ?thesis using that [of 2] 2(2) by simp
  next
    case 3
    from 3(2) have "length s = length (strip_pad s) + 1" by (metis length_append length_replicate)
    then have "pads (strip_pad s) = 1" using 3(1) by (intro pads_unique) simp_all
    then show ?thesis using that [of 1] 3(2) by simp
  qed
qed

lemma b64_data_window:
  assumes "b64_data d" "4 dvd k" "4 dvd m"
  shows "b64_data (take m (drop k d))"
proof -
  have "length (take m (drop k d)) mod 4 \<in> {0, length d mod 4}"
  proof (cases "length d - k \<le> m")
    case True
    obtain j where k: "k = 4 * j" using assms(2) by blast
    have "(length d - k) mod 4 = length d mod 4" if "k \<le> length d"
      using mod_mult_self2 [of "length d - k" 4 j] that k by (simp del: mod_mult_self2 mod_mult_self1 mod_mult_self3 mod_mult_self4)
    then show ?thesis using True by (cases "k \<le> length d") simp_all
  next
    case False
    then show ?thesis using assms(3) by (auto elim!: dvdE)
  qed
  then have "length (take m (drop k d)) mod 4 \<noteq> 1" using assms(1) unfolding b64_data_def by auto
  moreover have "set (take m (drop k d)) \<subseteq> set d" by (meson order_trans set_drop_subset set_take_subset)
  ultimately show ?thesis using assms(1) unfolding b64_data_def by blast
qed

lemma pad4_window:
  assumes d: "b64_data d" and q: "q = 0 \<or> q = pads d" and "4 dvd k" "4 dvd m"
  defines "e \<equiv> take m (drop k d)"
  shows "pad4 (take m (drop k (d @ replicate q CHR ''=''))) = e @ replicate (pads e) CHR ''=''"
proof -
  have up: "length d + q \<le> n" if "4 dvd n" "length d \<le> n" for n
  proof -
    obtain a where a: "length d + pads d = 4 * a" "pads d < 4" by (rule pads_groups)
    obtain b where "n = 4 * b" using \<open>4 dvd n\<close> by blast
    then show ?thesis using a q \<open>length d \<le> n\<close> by (cases "a \<le> b") auto
  qed
  consider "k + m \<le> length d" | "length d \<le> k" | "k < length d" "length d < k + m" by linarith
  then show ?thesis
  proof cases
    case 1
    then have "take m (drop k (d @ replicate q CHR ''='')) = e" by (simp add: e_def)
    then show ?thesis using pad4_data [of 0 e] by simp
  next
    case 2
    then have "take m (drop k (d @ replicate q CHR ''='')) = []" "e = []" using up [OF assms(3) 2] by (simp_all add: e_def)
    then show ?thesis by (simp only: pad4_Nil) (simp add: pads_def)
  next
    case 3
    have "4 dvd k + m" using assms(3,4) by (rule dvd_add)
    then have "length d + q \<le> k + m" using up 3 by simp
    then have c: "take m (drop k (d @ replicate q CHR ''='')) = e @ replicate q CHR ''=''" using 3 by (simp add: e_def)
    have "length e = length d - k" using 3 by (simp add: e_def)
    moreover obtain a where "length d + pads d = 4 * a" "pads d < 4" by (rule pads_groups)
    ultimately have "pads e = pads d" using 3 assms(3) by (intro pads_unique) (auto elim!: dvdE)
    then show ?thesis unfolding c using q by (intro pad4_data) simp
  qed
qed

lemma url_byte_whole:
  assumes plain: "plain_b64 s" and bytes: "atob s = Some bytes"
  shows "url_byte s i = whole_byte bytes i"
proof -
  have at: "atob t = (if length (strip_pad t) mod 4 = 1 then None else map_option b64_groups (those (map b64_value (strip_pad t))))"
    if "set t \<subseteq> set s \<union> {CHR ''=''}" for t
    by (rule atob_plain) (use that plain_b64_char [OF plain] in blast)
  from bytes have "length (strip_pad s) mod 4 \<noteq> 1" using at [OF Un_upper1] by (auto split: if_splits)
  moreover from bytes obtain vs where vs: "map b64_value (strip_pad s) = map Some vs" "bytes = b64_groups vs"
    using at [OF Un_upper1] by (auto split: if_splits simp: those_map_Some_iff)
  moreover have "b64_value c \<noteq> None" if "c \<in> set (strip_pad s)" for c
    using arg_cong [OF vs(1), of set] that by (force simp: image_iff)
  ultimately have d: "b64_data (strip_pad s)" by (simp add: b64_data_def)
  obtain q where q: "q = 0 \<or> q = pads (strip_pad s)" "s = strip_pad s @ replicate q CHR ''=''"
    using strip_pad_split [OF d] .
  define n where "n = i div WINDOW"
  define e where "e = take (4 * 1024) (drop (4 * (1024 * n)) (strip_pad s))"
  have e: "b64_data e" unfolding e_def by (rule b64_data_window [OF d]) simp_all
  have pad: "pad4 (take (4 * 1024) (drop (4 * (1024 * n)) s)) = e @ replicate (pads e) CHR ''=''"
    unfolding e_def by (subst q(2)) (rule pad4_window [OF d q(1)], simp_all)
  have "set (e @ replicate (pads e) CHR ''='') \<subseteq> set s \<union> {CHR ''=''}"
  proof -
    have "set e \<subseteq> set (strip_pad s)" unfolding e_def by (meson order_trans set_drop_subset set_take_subset)
    also have "\<dots> \<subseteq> set s" by (subst (2) q(2)) simp
    finally show ?thesis by (auto simp: set_replicate_conv_if)
  qed
  from at [OF this] have "atob (e @ replicate (pads e) CHR ''='') = map_option b64_groups (those (map b64_value e))"
    using e strip_pad_complete [OF e] by (simp add: b64_data_def)
  moreover have "those (map b64_value e) = Some (take (4 * 1024) (drop (4 * (1024 * n)) vs))"
    unfolding those_map_Some_iff e_def take_map [symmetric] drop_map [symmetric] vs(1) by (rule refl)
  ultimately have "atob (e @ replicate (pads e) CHR ''='') = Some (take (3 * 1024) (drop (3 * (1024 * n)) bytes))"
    by (simp only: vs(2) option.map b64_groups_take b64_groups_drop)
  moreover have "WINDOW div 3 * 4 = 4 * 1024" "i div WINDOW * 4096 = 4 * (1024 * n)" by (simp_all add: WINDOW_def n_def)
  ultimately have w: "url_window s (i - i mod WINDOW) = take (3 * 1024) (drop (3 * (1024 * n)) bytes)"
    unfolding url_window_def Let_def window_div by (simp only: pad option.case)
  have "i = 3 * (1024 * n) + i mod WINDOW" unfolding n_def WINDOW_def by simp
  moreover have m: "i mod WINDOW < 3 * 1024" by (simp add: WINDOW_def)
  ultimately have i: "i - (i - i mod WINDOW) = i mod WINDOW" "i - 3 * (1024 * n) = i mod WINDOW" "3 * (1024 * n) + i mod WINDOW = i" by linarith+
  have "i mod WINDOW < length (take (3 * 1024) (drop (3 * (1024 * n)) bytes)) \<longleftrightarrow> i < length bytes"
    using m i(3) unfolding length_take length_drop by linarith
  moreover have "take (3 * 1024) (drop (3 * (1024 * n)) bytes) ! (i mod WINDOW) = bytes ! i" if "i < length bytes"
    using m i(3) that by (subst nth_take, simp) (subst nth_drop, linarith, simp only: i(3))
  ultimately show ?thesis unfolding url_byte_def Let_def w whole_byte_def i(1) by simp
qed

section \<open>Redraws\<close>

definition frame_at :: "int \<Rightarrow> int \<Rightarrow> rat \<Rightarrow> Size" where
  "frame_at w h scale = \<lparr>width = max 1 (round_half_up (of_int w * scale)), height = max 1 (round_half_up (of_int h * scale))\<rparr>"

definition drawn_frame :: "int \<Rightarrow> int \<Rightarrow> Size \<Rightarrow> bool" where
  "drawn_frame w h z \<longleftrightarrow> (\<exists>scale \<le> min 1 (MAX_FRAME_SIDE / of_int (max w h)). z = frame_at w h scale)"

fun redraws :: "int \<Rightarrow> int \<Rightarrow> Size option \<Rightarrow> (rat \<times> rat \<times> rat) list \<Rightarrow> Size list" where
  \<comment> \<open>the frames drawn of one image as its box changes\<close>
  "redraws w h drawn [] = []"
| "redraws w h drawn ((sw, sh, pr) # boxes) =
     (case stillFrameRedraw drawn w h sw sh pr of
        None \<Rightarrow> redraws w h drawn boxes
      | Some z \<Rightarrow> z # redraws w h (Some z) boxes)"

lemma round_half_up_mono: "x \<le> y \<Longrightarrow> round_half_up x \<le> round_half_up y"
  by (simp add: round_half_up_def floor_mono)

lemma frame_at_mono:
  assumes "0 < w" "0 < h" "a \<le> b"
  shows "width (frame_at w h a) \<le> width (frame_at w h b)" "height (frame_at w h a) \<le> height (frame_at w h b)"
proof -
  have "max 1 (round_half_up (of_int x * a)) \<le> max 1 (round_half_up (of_int x * b))" if "0 < x" for x :: int
    using that assms(3) by (intro max.mono round_half_up_mono mult_left_mono) simp_all
  then show "width (frame_at w h a) \<le> width (frame_at w h b)" "height (frame_at w h a) \<le> height (frame_at w h b)"
    using assms(1,2) by (simp_all add: frame_at_def)
qed

lemma round_half_up_le: "x \<le> of_int n \<Longrightarrow> round_half_up x \<le> n"
  unfolding round_half_up_def by linarith

lemma stillFrameSize_drawn:
  assumes "stillFrameSize w h sw sh pr = Some z"
  shows "drawn_frame w h z" "0 < w" "0 < h"
proof -
  have can: "canDecodeStillFrame w h" using assms by (simp add: stillFrameSize_def split: if_splits)
  then show "0 < w" "0 < h" by (simp_all add: canDecodeStillFrame_def)
  define scale0 where "scale0 = min 1 (MAX_FRAME_SIDE / of_int (max w h))"
  define cover where "cover = (let ratio = max 1 (if pr = 0 then 1 else pr) in max (sw * ratio / of_int w) (sh * ratio / of_int h))"
  have "stillFrameSize w h sw sh pr = Some (frame_at w h (if 0 < sw \<and> 0 < sh then min scale0 cover else scale0))"
    unfolding stillFrameSize_def frame_at_def cover_def scale0_def Let_def using can by simp
  then have "z = frame_at w h (if 0 < sw \<and> 0 < sh then min scale0 cover else scale0)" using assms by simp
  moreover have "(if 0 < sw \<and> 0 < sh then min scale0 cover else scale0) \<le> scale0" by simp
  ultimately show "drawn_frame w h z" unfolding drawn_frame_def scale0_def by blast
qed

lemma drawn_frame_bounds:
  assumes "drawn_frame w h z" "0 < w" "0 < h"
  shows "1 \<le> width z" "width z \<le> min w 1024" "1 \<le> height z" "height z \<le> min h 1024"
proof -
  obtain c where c: "c \<le> 1" "c \<le> 1024 / of_int (max w h)" "z = frame_at w h c"
    using assms(1) by (auto simp: drawn_frame_def MAX_FRAME_SIDE_def)
  have side: "of_int x * c \<le> of_int (min x 1024)" if "0 < x" "x \<le> max w h" for x :: int
  proof -
    have "of_int x * c \<le> of_int x * 1" using c(1) that(1) by (intro mult_left_mono) simp_all
    moreover have "of_int x * c \<le> of_int (max w h) * (1024 / of_int (max w h))" if "0 \<le> c"
      using c(2) that \<open>0 < x\<close> \<open>x \<le> max w h\<close> assms(2) by (intro mult_mono) (simp_all add: le_max_iff_disj)
    moreover have "of_int (max w h) * (1024 / of_int (max w h)) = (1024 :: rat)" using assms(2) by (auto simp: max_def)
    moreover have "of_int x * c \<le> 0" if "c < 0" using that \<open>0 < x\<close> by (simp add: mult_le_0_iff)
    ultimately show ?thesis by (cases "0 \<le> c") (auto simp: min_def)
  qed
  show "1 \<le> width z" "1 \<le> height z" by (simp_all add: c(3) frame_at_def)
  show "width z \<le> min w 1024" using round_half_up_le [OF side [of w]] assms(2,3) by (simp add: c(3) frame_at_def)
  show "height z \<le> min h 1024" using round_half_up_le [OF side [of h]] assms(2,3) by (simp add: c(3) frame_at_def)
qed

lemma drawn_frame_grows:
  assumes "drawn_frame w h d" "drawn_frame w h z" "stillFrameGrows (Some d) z" "0 < w" "0 < h"
  shows "width d \<le> width z" "height d \<le> height z" "width d + height d < width z + height z"
proof -
  obtain a b where ab: "d = frame_at w h a" "z = frame_at w h b" using assms(1,2) by (auto simp: drawn_frame_def)
  have "a \<le> b"
  proof (rule ccontr)
    assume "\<not> a \<le> b"
    then show False using frame_at_mono [OF assms(4,5), of b a] assms(3) by (simp add: ab stillFrameGrows_def)
  qed
  from frame_at_mono [OF assms(4,5) this] assms(3)
  show "width d \<le> width z" "height d \<le> height z" "width d + height d < width z + height z"
    by (auto simp: ab stillFrameGrows_def)
qed

lemma stillFrameRedraw_size:
  "stillFrameRedraw drawn w h sw sh pr = Some z \<Longrightarrow> stillFrameSize w h sw sh pr = Some z \<and> stillFrameGrows drawn z"
  by (auto simp: stillFrameRedraw_def split: if_splits option.splits)

lemma redraws_after:
  assumes "drawn_frame w h d" "0 < w" "0 < h"
  shows "int (length (redraws w h (Some d) boxes)) \<le> 2048 - (width d + height d)"
  using assms(1)
proof (induction boxes arbitrary: d)
  case Nil
  then show ?case using drawn_frame_bounds [OF Nil assms(2,3)] by simp
next
  case (Cons b boxes)
  obtain sw sh pr where b: "b = (sw, sh, pr)" by (rule prod_cases3)
  show ?case
  proof (cases "stillFrameRedraw (Some d) w h sw sh pr")
    case (Some z)
    then have z: "drawn_frame w h z" "stillFrameGrows (Some d) z" using stillFrameRedraw_size stillFrameSize_drawn(1) by blast+
    show ?thesis using Cons.IH [OF z(1)] drawn_frame_grows(3) [OF Cons.prems z(1,2) assms(2,3)] Some by (simp add: b)
  qed (use Cons in \<open>simp add: b\<close>)
qed

lemma redraws_bounded: "length (redraws w h None boxes) \<le> 2047"
proof (induction boxes)
  case (Cons b boxes)
  obtain sw sh pr where b: "b = (sw, sh, pr)" by (rule prod_cases3)
  show ?case
  proof (cases "stillFrameRedraw None w h sw sh pr")
    case (Some z)
    then have "stillFrameSize w h sw sh pr = Some z" using stillFrameRedraw_size by blast
    note z = stillFrameSize_drawn [OF this]
    show ?thesis using redraws_after [OF z, of boxes] drawn_frame_bounds [OF z] Some by (simp add: b)
  qed (use Cons in \<open>simp add: b\<close>)
qed simp

lemma redraws_sizes:
  assumes "z \<in> set (redraws w h drawn boxes)"
  shows "1 \<le> width z \<and> width z \<le> min w 1024 \<and> 1 \<le> height z \<and> height z \<le> min h 1024"
  using assms
proof (induction boxes arbitrary: drawn)
  case (Cons b boxes)
  obtain sw sh pr where b: "b = (sw, sh, pr)" by (rule prod_cases3)
  show ?case
  proof (cases "stillFrameRedraw drawn w h sw sh pr")
    case (Some y)
    then have "stillFrameSize w h sw sh pr = Some y" using stillFrameRedraw_size by blast
    note y = stillFrameSize_drawn [OF this]
    show ?thesis using Cons Some drawn_frame_bounds [OF y] by (auto simp: b)
  qed (use Cons in \<open>simp add: b\<close>)
qed simp

section \<open>Properties\<close>

text \<open>C36: reading the size of an inline image ends on every URL a peer can send, however the sub-blocks of its
  extensions and the lengths of its segments are made up, and so the check of an avatar or a banner gives a verdict.\<close>
theorem image_walk_ends: "\<exists>b. profileImageFits url = Some b"
  using declaredImageSize_ends [OF url_byte_finite] by (auto simp: profileImageFits_def dataUrlImageSize_def)

text \<open>C37: on the base64 that the patterns of avatars and banners admit, walking the header through windows of three kibibytes
  finds the size that the fully decoded file declares, and no other.\<close>
theorem windowed_size_is_whole:
  assumes "plain_b64 (after_comma url)" "atob (after_comma url) = Some bytes"
  shows "dataUrlImageSize url = declaredImageSize (whole_byte bytes)"
proof -
  have "url_byte (after_comma url) = whole_byte bytes" by (rule ext) (rule url_byte_whole [OF assms])
  then show ?thesis by (simp add: dataUrlImageSize_def)
qed

text \<open>An image's still frames stay within 1024 a side and within the image's own size, and however its box changes it is
  drawn at most 2047 times, since every redraw is larger than the frame before it.\<close>
theorem redraws_end:
  "length (redraws w h None boxes) \<le> 2047 \<and>
   list_all (\<lambda>z. 1 \<le> width z \<and> width z \<le> min w 1024 \<and> 1 \<le> height z \<and> height z \<le> min h 1024) (redraws w h None boxes)"
  using redraws_bounded redraws_sizes by (simp add: list_all_iff)

theorem windowed_size_is_whole_witness:
  "dataUrlImageSize ''data:image/gif;base64,R0lGODlhAQABAAAAACw='' =
   declaredImageSize (whole_byte [71, 73, 70, 56, 57, 97, 1, 0, 1, 0, 0, 0, 0, 44])"
  by (rule windowed_size_is_whole; code_simp)

end
