(* ===== verification/Node_Lock.thy ===== *)
theory Node_Lock
  imports Prelude
begin

text \<open>
  The node lock, \<^verbatim>\<open>frontend/src/lib/transport/node-lock.ts\<close>: of the tabs of one browser profile, the one that
  holds a named Web Lock runs the network node. The model has every tab's module state, the
  browser's Lock Manager (one exclusive lock: a holder and a line behind it) and what is under way
  between them: the manager's callbacks and settled promises, which reach a tab in order, broadcast
  messages and timers, which reach it at any time. An event lets one of these happen, so a list of
  events is one interleaving of the tabs.

  \<^verbatim>\<open>_stepDown\<close> of \<^verbatim>\<open>transport.svelte.ts\<close> is the handler \<^verbatim>\<open>onRelease\<close>: it tears the node down and asks for the
  seat again, unless a connect is already under way, all before it returns.
\<close>

datatype kind = Avail | Queued | Steal

record req =
  owner :: nat
  kind :: kind
  serial :: nat

datatype task =
    Granted req   \<comment> \<open>the callback, with the lock\<close>
  | Refused req   \<comment> \<open>the callback, with null\<close>
  | Resolved req
  | Aborted req   \<comment> \<open>the request's promise rejects with an AbortError\<close>
  | Failed req    \<comment> \<open>it rejects with another error\<close>

datatype call = OnWaiting bool | OnRelease | Acquired

datatype support = Absent | Refusing | Working

record tab =
  held :: bool
  acquiring :: bool
  resolveAcquired :: bool
  releaseHold :: "req option"
  queuedAbort :: "req option"
  dropQueued :: bool
  channel :: bool
  events :: bool
  flags :: "req list" \<comment> \<open>the acquire calls whose local \<^verbatim>\<open>queued\<close> is set\<close>
  tasks :: "task list"
  inbox :: nat
  timers :: nat
  calls :: "call list"

record world =
  tabs :: "nat \<Rightarrow> tab"
  holder :: "req option"
  line :: "req list"
  next_serial :: nat
  locks :: support

definition new_tab :: tab where
  "new_tab = \<lparr>held = False, acquiring = False, resolveAcquired = False, releaseHold = None, queuedAbort = None, dropQueued = False,
     channel = False, events = False, flags = [], tasks = [], inbox = 0, timers = 0, calls = []\<rparr>"

definition new_world :: "support \<Rightarrow> world" where
  "new_world s = \<lparr>tabs = (\<lambda>_. new_tab), holder = None, line = [], next_serial = 0, locks = s\<rparr>"

definition in_tab :: "nat \<Rightarrow> (tab \<Rightarrow> tab) \<Rightarrow> world \<Rightarrow> world" where
  "in_tab t f w = w\<lparr>tabs := (tabs w)(t := f (tabs w t))\<rparr>"

definition note_call :: "call \<Rightarrow> tab \<Rightarrow> tab" where "note_call c s = s\<lparr>calls := calls s @ [c]\<rparr>"
definition push :: "task \<Rightarrow> tab \<Rightarrow> tab" where "push k s = s\<lparr>tasks := tasks s @ [k]\<rparr>"

section \<open>The Lock Manager\<close>

definition give :: "req \<Rightarrow> world \<Rightarrow> world" where
  "give r w = in_tab (owner r) (push (Granted r)) (w\<lparr>holder := Some r\<rparr>)"

definition hand_on :: "world \<Rightarrow> world" where
  \<comment> \<open>the lock is free: the first in line has it\<close>
  "hand_on w = (case line w of [] \<Rightarrow> w\<lparr>holder := None\<rparr> | q # qs \<Rightarrow> give q (w\<lparr>line := qs\<rparr>))"

definition let_go :: "req \<Rightarrow> world \<Rightarrow> world" where
  \<comment> \<open>the promise a callback returned settles; a stolen lock's does nothing\<close>
  "let_go r w = (if holder w = Some r then in_tab (owner r) (push (Resolved r)) (hand_on w) else w)"

definition request :: "nat \<Rightarrow> kind \<Rightarrow> world \<Rightarrow> world" where
  "request t k w =
     (let r = \<lparr>owner = t, kind = k, serial = next_serial w\<rparr>; w = w\<lparr>next_serial := next_serial w + 1\<rparr> in
      if locks w \<noteq> Working then in_tab t (push (Failed r)) w
      else case k of
        Avail \<Rightarrow> if holder w = None \<and> line w = [] then give r w else in_tab t (push (Refused r)) w
      | Queued \<Rightarrow> if holder w = None \<and> line w = [] then give r w else w\<lparr>line := line w @ [r]\<rparr>
      | Steal \<Rightarrow> give r (case holder w of None \<Rightarrow> w | Some h \<Rightarrow> in_tab (owner h) (push (Aborted h)) w))"

definition signal_abort :: "req \<Rightarrow> world \<Rightarrow> world" where
  \<comment> \<open>only a request still in line heeds its signal\<close>
  "signal_abort q w = (if q \<in> set (line w) then in_tab (owner q) (push (Aborted q)) (w\<lparr>line := removeAll q (line w)\<rparr>) else w)"

section \<open>The module\<close>

definition resolve_acquired :: "tab \<Rightarrow> tab" where
  "resolve_acquired s = (if resolveAcquired s then note_call Acquired s else s)\<lparr>resolveAcquired := False\<rparr>"

definition grant :: "req \<Rightarrow> tab \<Rightarrow> tab" where
  "grant r s = (resolve_acquired (s\<lparr>held := True, acquiring := False\<rparr>))\<lparr>releaseHold := Some r\<rparr>"

definition grant_call :: "req \<Rightarrow> tab \<Rightarrow> tab" where
  "grant_call r s = (if events s then note_call (OnWaiting False) (grant r s) else grant r s)"

definition acquireNodeLock :: "nat \<Rightarrow> world \<Rightarrow> world" where
  "acquireNodeLock t w =
     (let w = in_tab t (\<lambda>s. s\<lparr>events := True\<rparr>) w; s = tabs w t in
      if held s then in_tab t (note_call Acquired) w
      else if acquiring s then w
      else if locks w = Absent then in_tab t (\<lambda>s. note_call Acquired (s\<lparr>held := True\<rparr>)) w
      else request t Avail (in_tab t (\<lambda>s. s\<lparr>channel := True, acquiring := True, resolveAcquired := True\<rparr>) w))"

definition release_hold :: "nat \<Rightarrow> world \<Rightarrow> world" where
  \<comment> \<open>\<^verbatim>\<open>releaseHold?.(); releaseHold = null\<close>\<close>
  "release_hold t w = in_tab t (\<lambda>s. s\<lparr>releaseHold := None\<rparr>) (case releaseHold (tabs w t) of None \<Rightarrow> w | Some r \<Rightarrow> let_go r w)"

definition releaseNodeLock :: "nat \<Rightarrow> world \<Rightarrow> world" where
  "releaseNodeLock t w = release_hold t (in_tab t (\<lambda>s. s\<lparr>held := False\<rparr>) w)"

definition stepDown :: "bool \<Rightarrow> nat \<Rightarrow> world \<Rightarrow> world" where
  "stepDown reconnect t w = (let w = in_tab t (note_call OnRelease) w in if reconnect then acquireNodeLock t w else w)"

definition lost_seat :: "bool \<Rightarrow> nat \<Rightarrow> world \<Rightarrow> world" where
  "lost_seat reconnect t w =
     (if held (tabs w t) then stepDown reconnect t (in_tab t (\<lambda>s. s\<lparr>held := False, releaseHold := None\<rparr>) w) else w)"

definition acquire_granted :: "req \<Rightarrow> nat \<Rightarrow> world \<Rightarrow> world" where
  "acquire_granted r t w = in_tab t (grant_call r) w"

definition acquire_refused :: "req \<Rightarrow> nat \<Rightarrow> world \<Rightarrow> world" where
  "acquire_refused r t w = in_tab t (\<lambda>s. push (Resolved r) (note_call (OnWaiting True) (s\<lparr>flags := r # flags s\<rparr>))) w"

definition acquire_then :: "req \<Rightarrow> nat \<Rightarrow> world \<Rightarrow> world" where
  "acquire_then r t w =
     (if r \<notin> set (flags (tabs w t)) then w
      else
        let q = \<lparr>owner = t, kind = Queued, serial = next_serial w\<rparr> in
        request t Queued (in_tab t (\<lambda>s. s\<lparr>flags := removeAll r (flags s), queuedAbort := Some q\<rparr>) w))"

definition acquire_aborted :: "bool \<Rightarrow> nat \<Rightarrow> world \<Rightarrow> world" where
  "acquire_aborted reconnect t w =
     (if dropQueued (tabs w t) then in_tab t (\<lambda>s. s\<lparr>dropQueued := False\<rparr>) w else lost_seat reconnect t w)"

definition acquire_failed :: "nat \<Rightarrow> world \<Rightarrow> world" where
  "acquire_failed t w = in_tab t (\<lambda>s. note_call (OnWaiting False) (resolve_acquired (s\<lparr>held := True, acquiring := False\<rparr>))) w"

definition claimNodeLock :: "nat \<Rightarrow> world \<Rightarrow> world" where
  "claimNodeLock t w =
     (if held (tabs w t) \<or> locks w = Absent then w
      else
        let w = (if channel (tabs w t)
                 then w\<lparr>tabs := (\<lambda>u. if u \<noteq> t \<and> channel (tabs w u) then (tabs w u)\<lparr>inbox := inbox (tabs w u) + 1\<rparr> else tabs w u)\<rparr>
                 else w) in
        in_tab t (\<lambda>s. s\<lparr>timers := timers s + 1\<rparr>) w)"

definition claim_timer :: "nat \<Rightarrow> world \<Rightarrow> world" where
  "claim_timer t w = (if held (tabs w t) then w else request t Steal w)"

definition steal_granted :: "req \<Rightarrow> nat \<Rightarrow> world \<Rightarrow> world" where
  "steal_granted r t w =
     in_tab t (grant_call r)
       (case queuedAbort (tabs w t) of
          None \<Rightarrow> w
        | Some q \<Rightarrow> in_tab t (\<lambda>s. s\<lparr>queuedAbort := None\<rparr>) (signal_abort q (in_tab t (\<lambda>s. s\<lparr>dropQueued := True\<rparr>) w)))"

definition release_message :: "bool \<Rightarrow> nat \<Rightarrow> world \<Rightarrow> world" where
  "release_message reconnect t w =
     (if \<not> held (tabs w t) \<or> \<not> events (tabs w t) then w
      else release_hold t (stepDown reconnect t (in_tab t (\<lambda>s. s\<lparr>held := False\<rparr>) w)))"

fun run_task :: "bool \<Rightarrow> nat \<Rightarrow> task \<Rightarrow> world \<Rightarrow> world" where
  "run_task b t (Granted r) w = (if kind r = Steal then steal_granted r t w else acquire_granted r t w)"
| "run_task b t (Refused r) w = acquire_refused r t w"
| "run_task b t (Resolved r) w = (if kind r = Avail then acquire_then r t w else w)"
| "run_task b t (Aborted r) w = (if kind r = Steal then lost_seat b t w else acquire_aborted b t w)"
| "run_task b t (Failed r) w = (if kind r = Steal then w else acquire_failed t w)"

section \<open>Interleavings\<close>

definition close_tab :: "nat \<Rightarrow> world \<Rightarrow> world" where
  \<comment> \<open>a closed or crashed tab: the manager drops its requests and takes its lock\<close>
  "close_tab t w =
     (let w = w\<lparr>tabs := (tabs w)(t := new_tab), line := filter (\<lambda>r. owner r \<noteq> t) (line w)\<rparr> in
      case holder w of None \<Rightarrow> w | Some h \<Rightarrow> if owner h = t then hand_on w else w)"

datatype event = Acquire nat | Release nat | Claim nat | Task bool nat | Message bool nat | Timer nat | Close nat

fun step :: "event \<Rightarrow> world \<Rightarrow> world" where
  "step (Acquire t) w = acquireNodeLock t w"
| "step (Release t) w = releaseNodeLock t w"
| "step (Claim t) w = claimNodeLock t w"
| "step (Task b t) w = (case tasks (tabs w t) of [] \<Rightarrow> w | k # ks \<Rightarrow> run_task b t k (in_tab t (\<lambda>s. s\<lparr>tasks := ks\<rparr>) w))"
| "step (Message b t) w =
     (if inbox (tabs w t) = 0 then w else release_message b t (in_tab t (\<lambda>s. s\<lparr>inbox := inbox s - 1\<rparr>) w))"
| "step (Timer t) w = (if timers (tabs w t) = 0 then w else claim_timer t (in_tab t (\<lambda>s. s\<lparr>timers := timers s - 1\<rparr>) w))"
| "step (Close t) w = close_tab t w"

fun first_drop :: "task list \<Rightarrow> req option" where
  \<comment> \<open>the first rejection that an acquire's handler will see\<close>
  "first_drop [] = None"
| "first_drop (Aborted r # ks) = (if kind r \<noteq> Steal then Some r else first_drop ks)"
| "first_drop (_ # ks) = first_drop ks"

definition clean :: "event \<Rightarrow> world \<Rightarrow> bool" where
  \<comment> \<open>a steal that drops a wait finds it still in line, and no other rejection unanswered\<close>
  "clean e w = (case e of
     Task b t \<Rightarrow> (case tasks (tabs w t) of
        Granted r # ks \<Rightarrow> kind r = Steal \<longrightarrow> (case queuedAbort (tabs w t) of
            None \<Rightarrow> True | Some q \<Rightarrow> q \<in> set (line w) \<and> first_drop ks = None)
      | _ \<Rightarrow> True)
   | _ \<Rightarrow> True)"

fun run :: "event list \<Rightarrow> world \<Rightarrow> world" where
  "run [] w = w"
| "run (e # es) w = run es (step e w)"

definition marks :: "event \<Rightarrow> world \<Rightarrow> nat set \<Rightarrow> nat set" where
  \<comment> \<open>the tabs that took the seat with a spent abort controller, before and after an event\<close>
  "marks e w M = (case e of Close t \<Rightarrow> M - {t} | Task b t \<Rightarrow> if clean e w then M else insert t M | _ \<Rightarrow> M)"

fun spent :: "event list \<Rightarrow> world \<Rightarrow> nat set \<Rightarrow> nat set" where
  "spent [] w M = M"
| "spent (e # es) w M = spent es (step e w) (marks e w M)"

section \<open>One tab against the manager\<close>

fun sound :: "req option \<Rightarrow> task list \<Rightarrow> bool" where
  \<comment> \<open>a callback on its way still has the lock, or the news of its loss is behind it\<close>
  "sound h [] = True"
| "sound h (Granted r # ks) \<longleftrightarrow> Granted r \<notin> set ks \<and> (h = Some r \<or> Aborted r \<in> set ks) \<and> sound h ks"
| "sound h (_ # ks) = sound h ks"

definition seat_ok :: "req option \<Rightarrow> tab \<Rightarrow> bool" where
  "seat_ok h s \<longleftrightarrow> (held s \<longrightarrow> (\<exists>r. releaseHold s = Some r \<and> (h = Some r \<or> Aborted r \<in> set (tasks s))))"

definition known :: "req list \<Rightarrow> nat \<Rightarrow> req \<Rightarrow> bool" where
  "known l n r \<longleftrightarrow> serial r < n \<and> r \<notin> set l"

definition drop_ok :: "req list \<Rightarrow> nat \<Rightarrow> tab \<Rightarrow> bool" where
  "drop_ok l n s \<longleftrightarrow> (dropQueued s \<longrightarrow> (\<exists>q. first_drop (tasks s) = Some q \<and> known l n q \<and> releaseHold s \<noteq> Some q \<and> Granted q \<notin> set (tasks s)))"

definition own_ok :: "req list \<Rightarrow> nat \<Rightarrow> nat \<Rightarrow> tab \<Rightarrow> bool" where
  "own_ok l n t s \<longleftrightarrow>
     (\<forall>r. Failed r \<notin> set (tasks s)) \<and>
     (\<forall>r. Granted r \<in> set (tasks s) \<longrightarrow> owner r = t \<and> known l n r) \<and>
     (\<forall>r. releaseHold s = Some r \<longrightarrow> owner r = t \<and> known l n r \<and> Granted r \<notin> set (tasks s))"

definition tab_ok :: "nat set \<Rightarrow> req option \<Rightarrow> req list \<Rightarrow> nat \<Rightarrow> nat \<Rightarrow> tab \<Rightarrow> bool" where
  "tab_ok M h l n t s \<longleftrightarrow> sound h (tasks s) \<and> own_ok l n t s \<and> (t \<notin> M \<longrightarrow> seat_ok h s \<and> drop_ok l n s)"

lemma sound_snoc: "sound h ks \<Longrightarrow> (\<And>r. k \<noteq> Granted r) \<Longrightarrow> sound h (ks @ [k])"
proof (induction h ks rule: sound.induct)
  case (1 h)
  then show ?case by (cases k) (simp_all, blast)
qed auto

lemma first_drop_snoc: "first_drop ks = Some q \<Longrightarrow> first_drop (ks @ [k]) = Some q"
  by (induction ks rule: first_drop.induct) auto

lemma first_drop_new: "first_drop ks = None \<Longrightarrow> kind q \<noteq> Steal \<Longrightarrow> first_drop (ks @ [Aborted q]) = Some q"
  by (induction ks rule: first_drop.induct) (auto split: if_splits)

lemma sound_other: "sound h ks \<Longrightarrow> (\<And>r. Granted r \<in> set ks \<Longrightarrow> h \<noteq> Some r) \<Longrightarrow> sound h' ks"
  by (induction h ks rule: sound.induct) auto

lemma sound_stolen: "sound (Some r) ks \<Longrightarrow> sound h' (ks @ [Aborted r])"
  by (induction "Some r" ks rule: sound.induct) auto

lemma sound_given: "sound (Some r) ks \<Longrightarrow> Granted r \<notin> set ks \<Longrightarrow> sound (Some r) (ks @ [Granted r])"
  by (induction "Some r" ks rule: sound.induct) auto

lemma known_mono: "known l n r \<Longrightarrow> set l' \<subseteq> set l \<Longrightarrow> n \<le> n' \<Longrightarrow> known l' n' r"
  by (auto simp: known_def)

lemma known_new: "known l n r \<Longrightarrow> serial q = n \<Longrightarrow> known (l @ [q]) (Suc n) r"
  by (auto simp: known_def)

lemma drop_ok_push: "drop_ok l n s \<Longrightarrow> (\<And>r. k = Granted r \<Longrightarrow> \<not> known l n r) \<Longrightarrow> drop_ok l n (push k s)"
  unfolding drop_ok_def push_def by (auto dest: first_drop_snoc)

lemma drop_ok_known: "drop_ok l n s \<Longrightarrow> (\<And>r. known l n r \<Longrightarrow> known l' n' r) \<Longrightarrow> drop_ok l' n' s"
  unfolding drop_ok_def by blast

lemma own_ok_known: "own_ok l n t s \<Longrightarrow> (\<And>r. known l n r \<Longrightarrow> known l' n' r) \<Longrightarrow> own_ok l' n' t s"
  unfolding own_ok_def by blast

lemma tab_ok_known:
  assumes "tab_ok M h l n t s" "\<And>r. known l n r \<Longrightarrow> known l' n' r"
  shows "tab_ok M h l' n' t s"
  using assms own_ok_known drop_ok_known unfolding tab_ok_def by metis

lemma tab_ok_new: "tab_ok M h l n t new_tab"
  by (simp add: tab_ok_def new_tab_def seat_ok_def own_ok_def drop_ok_def)

lemma seat_ok_push: "seat_ok h s \<Longrightarrow> seat_ok h (push k s)"
  unfolding seat_ok_def push_def by auto

lemma tab_ok_push: 
  assumes "tab_ok M h l n t s" "\<And>r. k \<noteq> Granted r \<and> k \<noteq> Failed r"
  shows "tab_ok M h l n t (push k s)"
  unfolding tab_ok_def
proof (intro conjI)
  show "sound h (tasks (push k s))" using assms by (simp add: tab_ok_def push_def sound_snoc)
  show "own_ok l n t (push k s)" using assms by (auto simp: tab_ok_def own_ok_def push_def)
qed (use assms in \<open>auto simp: tab_ok_def intro: seat_ok_push drop_ok_push\<close>)

lemma tab_ok_holder:
  assumes "tab_ok M h l n t s" "t \<notin> M \<Longrightarrow> seat_ok h' s" "\<And>r. Granted r \<in> set (tasks s) \<Longrightarrow> h \<noteq> Some r"
  shows "tab_ok M h' l n t s"
  using assms sound_other [of h "tasks s" h'] unfolding tab_ok_def by blast

lemma tab_ok_other:
  assumes "tab_ok M h l n t s" "\<And>r. h = Some r \<Longrightarrow> owner r \<noteq> t"
  shows "tab_ok M h' l n t s"
proof (rule tab_ok_holder [OF assms(1)])
  show "t \<notin> M \<Longrightarrow> seat_ok h' s" using assms unfolding tab_ok_def seat_ok_def own_ok_def by blast
  show "h \<noteq> Some r" if "Granted r \<in> set (tasks s)" for r using assms that unfolding tab_ok_def own_ok_def by blast
qed

lemma tab_ok_let_go:
  assumes "tab_ok M (Some r) l n t s" "releaseHold s = Some r" "\<not> held s"
  shows "tab_ok M h' l n t s"
proof (rule tab_ok_holder [OF assms(1)])
  show "seat_ok h' s" using assms(3) by (simp add: seat_ok_def)
  show "Some r \<noteq> Some x" if "Granted x \<in> set (tasks s)" for x using assms that unfolding tab_ok_def own_ok_def by blast
qed

lemma tab_ok_stolen:
  assumes "tab_ok M (Some r) l n t s"
  shows "tab_ok M h' l n t (push (Aborted r) s)"
  unfolding tab_ok_def
proof (intro conjI impI)
  show "sound h' (tasks (push (Aborted r) s))" using assms by (simp add: tab_ok_def push_def sound_stolen)
  show "own_ok l n t (push (Aborted r) s)" using assms by (auto simp: tab_ok_def own_ok_def push_def)
  show "seat_ok h' (push (Aborted r) s)" if "t \<notin> M" using assms that by (auto simp: tab_ok_def seat_ok_def push_def)
qed (use assms in \<open>auto simp: tab_ok_def intro: drop_ok_push\<close>)

lemma tab_ok_given:
  assumes "tab_ok M (Some r) l n t s" "\<not> known l n r" "owner r = t" "known l' n' r" "\<And>q. known l n q \<Longrightarrow> known l' n' q"
  shows "tab_ok M (Some r) l' n' t (push (Granted r) s)"
  unfolding tab_ok_def
proof (intro conjI impI)
  have "Granted r \<notin> set (tasks s)" using assms(1,2) by (auto simp: tab_ok_def own_ok_def)
  then show "sound (Some r) (tasks (push (Granted r) s))" using assms(1) by (simp add: tab_ok_def push_def sound_given)
  show "own_ok l' n' t (push (Granted r) s)" using assms by (auto simp: tab_ok_def own_ok_def push_def)
  show "seat_ok (Some r) (push (Granted r) s)" if "t \<notin> M" using assms(1) that by (auto simp: tab_ok_def intro: seat_ok_push)
  have "drop_ok l n (push (Granted r) s)" if "t \<notin> M" using assms(1,2) that by (auto simp: tab_ok_def intro: drop_ok_push)
  then show "drop_ok l' n' (push (Granted r) s)" if "t \<notin> M" using assms(5) that by (metis drop_ok_known)
qed

section \<open>All tabs\<close>

definition line_ok :: "world \<Rightarrow> bool" where
  "line_ok w \<longleftrightarrow> distinct (line w) \<and> (\<forall>r \<in> set (line w). serial r < next_serial w \<and> kind r = Queued)"

definition tabs_ok :: "nat set \<Rightarrow> req option \<Rightarrow> world \<Rightarrow> bool" where
  "tabs_ok M h w \<longleftrightarrow> (\<forall>t. tab_ok M h (line w) (next_serial w) t (tabs w t))"

definition inv :: "nat set \<Rightarrow> world \<Rightarrow> bool" where
  "inv M w \<longleftrightarrow> line_ok w \<and> tabs_ok M (holder w) w \<and> (holder w = None \<longrightarrow> line w = []) \<and> locks w = Working"

definition vacant :: "nat set \<Rightarrow> world \<Rightarrow> bool" where
  \<comment> \<open>no tab relies on the lock: it may go to anyone\<close>
  "vacant M w \<longleftrightarrow> line_ok w \<and> (\<forall>h. tabs_ok M h w) \<and> locks w = Working"

lemma in_tab_simps [simp]:
  "tabs (in_tab t f w) = (tabs w)(t := f (tabs w t))" "holder (in_tab t f w) = holder w" "line (in_tab t f w) = line w"
  "next_serial (in_tab t f w) = next_serial w" "locks (in_tab t f w) = locks w"
  by (simp_all add: in_tab_def)

lemma give_simps [simp]:
  "tabs (give r w) = (tabs w)(owner r := push (Granted r) (tabs w (owner r)))" "holder (give r w) = Some r" "line (give r w) = line w"
  "next_serial (give r w) = next_serial w" "locks (give r w) = locks w"
  by (simp_all add: give_def)

lemma inv_in_tab:
  assumes "inv M w" "tab_ok M (holder w) (line w) (next_serial w) t (f (tabs w t))"
  shows "inv M (in_tab t f w)"
  using assms by (auto simp: inv_def tabs_ok_def line_ok_def)

lemma tabs_ok_known:
  assumes "tabs_ok M h w" "tabs w' = tabs w" "\<And>r. known (line w) (next_serial w) r \<Longrightarrow> known (line w') (next_serial w') r"
  shows "tabs_ok M h w'"
  using assms tab_ok_known unfolding tabs_ok_def by metis

lemma inv_give:
  assumes "vacant M w" "line_ok w'" "locks w' = Working" "tabs w' = tabs w" "\<not> known (line w) (next_serial w) r"
    "known (line w') (next_serial w') r" "\<And>q. known (line w) (next_serial w) q \<Longrightarrow> known (line w') (next_serial w') q"
  shows "inv M (give r w')"
proof -
  have ok: "tab_ok M (Some r) (line w) (next_serial w) t (tabs w t)" for t using assms(1) by (simp add: vacant_def tabs_ok_def)
  have "tabs_ok M (Some r) (give r w')" unfolding tabs_ok_def
  proof
    fix t
    show "tab_ok M (Some r) (line (give r w')) (next_serial (give r w')) t (tabs (give r w') t)"
      using tab_ok_given [OF ok assms(5) refl assms(6,7)] tab_ok_known [OF ok assms(7)] assms(4) by simp
  qed
  then show ?thesis using assms(2,3) by (simp add: inv_def line_ok_def)
qed

lemma inv_hand_on:
  assumes "vacant M w"
  shows "inv M (hand_on w)"
proof (cases "line w")
  case Nil
  then show ?thesis using assms by (simp add: hand_on_def inv_def vacant_def line_ok_def tabs_ok_def)
next
  case (Cons q qs)
  have "inv M (give q (w\<lparr>line := qs\<rparr>))"
    by (rule inv_give [OF assms]) (use assms Cons in \<open>auto simp: vacant_def line_ok_def known_def\<close>)
  then show ?thesis by (simp add: hand_on_def Cons)
qed

lemma inv_let_go:
  assumes "inv M w" "releaseHold (tabs w t) = Some r" "\<not> held (tabs w t)"
  shows "inv M (let_go r w)"
proof (cases "holder w = Some r")
  case True
  have ok: "tab_ok M (Some r) (line w) (next_serial w) u (tabs w u)" for u using assms(1) True by (simp add: inv_def tabs_ok_def)
  have o: "owner r = t" using ok [of t] assms(2) by (simp add: tab_ok_def own_ok_def)
  have "tab_ok M h (line w) (next_serial w) u (tabs w u)" for h u
    using tab_ok_let_go [OF ok assms(2,3)] tab_ok_other [OF ok [of u]] o by (cases "u = t") auto
  then have "inv M (hand_on w)" using assms(1) by (intro inv_hand_on) (simp add: vacant_def inv_def tabs_ok_def)
  then have "inv M (in_tab (owner r) (push (Resolved r)) (hand_on w))"
    by (intro inv_in_tab) (auto simp: inv_def tabs_ok_def intro: tab_ok_push)
  then show ?thesis using True by (simp add: let_go_def)
qed (use assms in \<open>simp add: let_go_def\<close>)

lemma vacant_stolen:
  assumes "inv M w"
  shows "vacant M (case holder w of None \<Rightarrow> w | Some h \<Rightarrow> in_tab (owner h) (push (Aborted h)) w)"
proof (cases "holder w")
  case None
  then show ?thesis using assms tab_ok_other by (fastforce simp: vacant_def inv_def tabs_ok_def)
next
  case (Some h)
  have ok: "tab_ok M (Some h) (line w) (next_serial w) u (tabs w u)" for u using assms Some by (simp add: inv_def tabs_ok_def)
  show ?thesis using assms Some tab_ok_stolen [OF ok] tab_ok_other [OF ok] by (auto simp: vacant_def inv_def tabs_ok_def line_ok_def)
qed

lemma vacant_free: "inv M w \<Longrightarrow> holder w = None \<Longrightarrow> vacant M w"
  using vacant_stolen [of M w] by simp

lemma in_tab_serial: "in_tab t f (w\<lparr>next_serial := n\<rparr>) = (in_tab t f w)\<lparr>next_serial := n\<rparr>"
  by (simp add: in_tab_def)

lemma inv_serial: "inv M w \<Longrightarrow> inv M (w\<lparr>next_serial := Suc (next_serial w)\<rparr>)"
proof -
  assume w: "inv M w"
  have "tabs_ok M (holder w) (w\<lparr>next_serial := Suc (next_serial w)\<rparr>)"
    by (rule tabs_ok_known [of _ _ w]) (use w in \<open>auto simp: inv_def known_def\<close>)
  then show ?thesis using w by (auto simp: inv_def line_ok_def less_SucI)
qed

lemma inv_new_give:
  assumes "vacant M w" "serial r = next_serial w"
  shows "inv M (give r (w\<lparr>next_serial := Suc (next_serial w)\<rparr>))"
  by (rule inv_give [OF assms(1)]) (use assms in \<open>auto simp: vacant_def line_ok_def known_def less_SucI\<close>)

lemma inv_request:
  assumes "inv M w"
  shows "inv M (request t k w)"
proof -
  let ?r = "\<lparr>owner = t, kind = k, serial = next_serial w\<rparr>"
  let ?w = "w\<lparr>next_serial := Suc (next_serial w)\<rparr>"
  note inv' = inv_serial [OF assms]
  have working: "locks w = Working" using assms by (simp add: inv_def)
  have free: "inv M (give ?r ?w)" if "holder w = None" using inv_new_give [OF vacant_free [OF assms that], of ?r] by simp
  show ?thesis
  proof (cases k)
    case Avail
    have "inv M (in_tab t (push (Refused ?r)) ?w)"
      by (intro inv_in_tab inv' tab_ok_push) (use inv' in \<open>auto simp: inv_def tabs_ok_def\<close>)
    then show ?thesis using working free Avail by (simp add: request_def Let_def)
  next
    case Queued
    have "inv M (?w\<lparr>line := line w @ [?r]\<rparr>)" if "holder w \<noteq> None"
    proof -
      have "tabs_ok M (holder w) (?w\<lparr>line := line w @ [?r]\<rparr>)"
        by (rule tabs_ok_known [of _ _ w]) (use assms in \<open>auto simp: inv_def intro: known_new\<close>)
      then show ?thesis using assms that Queued by (auto simp: inv_def line_ok_def less_SucI tabs_ok_def)
    qed
    then show ?thesis using working free Queued assms by (auto simp: request_def Let_def inv_def)
  next
    case Steal
    then show ?thesis using working inv_new_give [OF vacant_stolen [OF assms], of ?r]
      by (auto simp: request_def Let_def in_tab_serial split: option.splits)
  qed
qed

lemma request_held [simp]: "held (tabs (request t k w) u) = held (tabs w u)" "releaseHold (tabs (request t k w) u) = releaseHold (tabs w u)"
  by (auto simp: request_def Let_def push_def split: kind.splits option.splits)

lemma inv_ok: "inv M w \<Longrightarrow> tab_ok M (holder w) (line w) (next_serial w) t (tabs w t)"
  by (simp add: inv_def tabs_ok_def)

lemma tab_ok_cong:
  assumes "tab_ok M h l n t s" "held s' = held s" "releaseHold s' = releaseHold s" "dropQueued s' = dropQueued s" "tasks s' = tasks s"
  shows "tab_ok M h l n t s'"
  using assms by (simp add: tab_ok_def seat_ok_def own_ok_def drop_ok_def)

lemma inv_keep:
  assumes "inv M w" "\<And>s. held (f s) = held s" "\<And>s. releaseHold (f s) = releaseHold s" "\<And>s. dropQueued (f s) = dropQueued s"
    "\<And>s. tasks (f s) = tasks s"
  shows "inv M (in_tab t f w)"
  by (intro inv_in_tab assms(1) tab_ok_cong [OF inv_ok [OF assms(1)]] assms)

lemma note_call_simps [simp]:
  "held (note_call c s) = held s" "releaseHold (note_call c s) = releaseHold s" "dropQueued (note_call c s) = dropQueued s"
  "tasks (note_call c s) = tasks s" "acquiring (note_call c s) = acquiring s" "flags (note_call c s) = flags s" "events (note_call c s) = events s"
  by (simp_all add: note_call_def)

lemma push_simps [simp]:
  "held (push k s) = held s" "releaseHold (push k s) = releaseHold s" "dropQueued (push k s) = dropQueued s"
  "tasks (push k s) = tasks s @ [k]" "acquiring (push k s) = acquiring s" "flags (push k s) = flags s" "queuedAbort (push k s) = queuedAbort s"
  by (simp_all add: push_def)

lemma grant_call_simps [simp]:
  "held (grant_call r s)" "releaseHold (grant_call r s) = Some r" "dropQueued (grant_call r s) = dropQueued s" "tasks (grant_call r s) = tasks s"
  "\<not> acquiring (grant_call r s)" "flags (grant_call r s) = flags s"
  by (simp_all add: grant_call_def grant_def resolve_acquired_def)

lemma inv_push: "inv M w \<Longrightarrow> (\<And>r. k \<noteq> Granted r \<and> k \<noteq> Failed r) \<Longrightarrow> inv M (in_tab t (push k) w)"
  by (rule inv_in_tab, assumption, rule tab_ok_push, rule inv_ok)

lemma tab_ok_inbox [simp]: "tab_ok M h l n t (s\<lparr>inbox := x\<rparr>) = tab_ok M h l n t s"
  by (simp add: tab_ok_def seat_ok_def own_ok_def drop_ok_def)

lemma inv_acquire: "inv M w \<Longrightarrow> inv M (acquireNodeLock t w)"
  unfolding acquireNodeLock_def Let_def by (auto simp: inv_def [THEN iffD1] intro!: inv_request inv_keep)

lemma acquire_held:
  assumes "locks w = Working"
  shows "held (tabs (acquireNodeLock t w) t) = held (tabs w t)"
  using assms by (auto simp: acquireNodeLock_def Let_def)

lemma inv_step_down: "inv M w \<Longrightarrow> inv M (stepDown b t w)"
  by (auto simp: stepDown_def Let_def intro!: inv_acquire inv_keep)

lemma tab_ok_unheld: "tab_ok M h l n t s \<Longrightarrow> tab_ok M h l n t (s\<lparr>held := False\<rparr>)"
  by (simp add: tab_ok_def seat_ok_def own_ok_def drop_ok_def)

lemma tab_ok_forget: "tab_ok M h l n t s \<Longrightarrow> \<not> held s \<Longrightarrow> tab_ok M h l n t (s\<lparr>releaseHold := None\<rparr>)"
  by (auto simp: tab_ok_def seat_ok_def own_ok_def drop_ok_def)

lemma let_go_held [simp]: "held (tabs (let_go r w) t) = held (tabs w t)"
  by (auto simp: let_go_def hand_on_def split: list.splits)

lemma inv_release_hold:
  assumes "inv M w" "\<not> held (tabs w t)"
  shows "inv M (release_hold t w)"
proof -
  have "inv M (case releaseHold (tabs w t) of None \<Rightarrow> w | Some r \<Rightarrow> let_go r w)"
    using assms inv_let_go by (cases "releaseHold (tabs w t)") auto
  then show ?thesis unfolding release_hold_def using assms(2)
    by (intro inv_in_tab tab_ok_forget inv_ok) (auto split: option.split)
qed

lemma inv_release: "inv M w \<Longrightarrow> inv M (releaseNodeLock t w)"
  unfolding releaseNodeLock_def by (intro inv_release_hold inv_in_tab tab_ok_unheld inv_ok) simp_all

lemma inv_message: "inv M w \<Longrightarrow> inv M (release_message b t w)"
proof -
  assume w: "inv M w"
  let ?w = "in_tab t (\<lambda>s. s\<lparr>held := False\<rparr>) w"
  have "inv M ?w" by (intro inv_in_tab tab_ok_unheld inv_ok w)
  moreover have "locks w = Working" using w by (simp add: inv_def)
  moreover have "\<not> held (tabs (stepDown b t ?w) t)" using \<open>locks w = Working\<close> by (simp add: stepDown_def Let_def acquire_held)
  ultimately show ?thesis unfolding release_message_def using w by (auto intro: inv_release_hold inv_step_down)
qed

section \<open>Tasks\<close>

definition popped :: "nat \<Rightarrow> task list \<Rightarrow> world \<Rightarrow> world" where
  "popped t ks w = in_tab t (\<lambda>s. s\<lparr>tasks := ks\<rparr>) w"

lemma tab_ok_pop:
  assumes "tab_ok M h l n t s" "tasks s = k # ks" "\<And>r. k \<noteq> Aborted r"
  shows "tab_ok M h l n t (s\<lparr>tasks := ks\<rparr>)"
  using assms by (cases k) (auto simp: tab_ok_def seat_ok_def own_ok_def drop_ok_def)

lemma tab_ok_grant:
  assumes "tab_ok M h l n t s" "tasks s = Granted r # ks" "tasks s' = ks" "held s'" "releaseHold s' = Some r" "dropQueued s' = dropQueued s"
  shows "tab_ok M h l n t s'"
  using assms by (auto simp: tab_ok_def seat_ok_def own_ok_def drop_ok_def)

lemma tab_ok_drop:
  assumes "tab_ok M h l n t s" "tasks s = Granted r # ks" "tasks s' = ks @ [Aborted q]" "held s'" "releaseHold s' = Some r"
    "q \<in> set l" "serial q < n" "kind q = Queued" "first_drop ks = None"
  shows "tab_ok M h (removeAll q l) n t s'"
  unfolding tab_ok_def
proof (intro conjI impI)
  have r: "h = Some r \<or> Aborted r \<in> set ks" "Granted r \<notin> set ks" "sound h ks" "owner r = t" "known l n r"
    using assms(1,2) by (auto simp: tab_ok_def own_ok_def)
  have g: "owner x = t \<and> known l n x" if "Granted x \<in> set ks" for x using assms(1,2) that by (auto simp: tab_ok_def own_ok_def)
  have k: "known (removeAll q l) n x" if "known l n x" for x using that by (auto simp: known_def)
  have q: "known (removeAll q l) n q" "\<not> known l n q" using assms(6,7) by (auto simp: known_def)
  show "seat_ok h s'" using assms(3-5) r(1) by (auto simp: seat_ok_def)
  show "sound h (tasks s')" using assms(3) r(3) by (simp add: sound_snoc)
  have "Failed x \<notin> set ks" for x using assms(1,2) by (auto simp: tab_ok_def own_ok_def)
  then show "own_ok (removeAll q l) n t s'" using assms(3,5) r g k by (auto simp: own_ok_def)
  have "first_drop (tasks s') = Some q" using assms(3,8,9) first_drop_new by simp
  moreover have "q \<noteq> r" "Granted q \<notin> set (tasks s')" using r(5) g q(2) assms(3) by auto
  ultimately show "drop_ok (removeAll q l) n s'" using q(1) assms(5) by (simp add: drop_ok_def)
qed

lemma tab_ok_spent:
  assumes "tab_ok M h l n t s" "tasks s = Granted r # ks" "tasks s' = ks \<or> tasks s' = ks @ [Aborted q]" "releaseHold s' = Some r"
    "\<And>x. known l n x \<Longrightarrow> known l' n x"
  shows "tab_ok (insert t M) h l' n t s'"
proof -
  have o: "sound h ks" "Granted r \<notin> set ks" "owner r = t" "known l n r" "\<And>x. Failed x \<notin> set ks"
    "\<And>x. Granted x \<in> set ks \<Longrightarrow> owner x = t \<and> known l n x"
    using assms(1,2) by (auto simp: tab_ok_def own_ok_def)
  have t: "Granted x \<in> set (tasks s') \<Longrightarrow> Granted x \<in> set ks" "Failed x \<notin> set (tasks s')" for x
    using assms(3) o(5) by auto
  have "sound h (tasks s')" using assms(3) o(1) sound_snoc [of h ks "Aborted q"] by auto
  moreover have "own_ok l' n t s'" unfolding own_ok_def assms(4) using t o(2,3,4,6) assms(5) by blast
  ultimately show ?thesis by (simp add: tab_ok_def)
qed

lemma tab_ok_mono: "tab_ok M h l n t s \<Longrightarrow> M \<subseteq> M' \<Longrightarrow> tab_ok M' h l n t s"
  by (auto simp: tab_ok_def)

lemma tab_ok_lost:
  assumes "tab_ok M h l n t s" "tasks s = Aborted r # ks" "\<not> held s'" "releaseHold s' = releaseHold s \<or> releaseHold s' = None" "tasks s' = ks"
    "dropQueued s' = (dropQueued s \<and> kind r = Steal)"
  shows "tab_ok M h l n t s'"
  using assms by (auto simp: tab_ok_def seat_ok_def own_ok_def drop_ok_def)

lemma tab_ok_dropped:
  assumes "tab_ok M h l n t s" "tasks s = Aborted r # ks" "kind r \<noteq> Steal" "dropQueued s" "tasks s' = ks" "held s' = held s"
    "releaseHold s' = releaseHold s" "\<not> dropQueued s'"
  shows "tab_ok M h l n t s'"
  using assms by (auto simp: tab_ok_def seat_ok_def own_ok_def drop_ok_def)

lemma in_tab_in_tab [simp]: "in_tab t f (in_tab t g w) = in_tab t (\<lambda>s. f (g s)) w"
  by (simp add: in_tab_def)

lemma inv_pop: "inv M w \<Longrightarrow> tasks (tabs w t) = k # ks \<Longrightarrow> (\<And>r. k \<noteq> Aborted r) \<Longrightarrow> inv M (popped t ks w)"
  unfolding popped_def by (intro inv_in_tab tab_ok_pop [OF inv_ok]) simp_all

lemma popped_simps [simp]:
  "tabs (popped t ks w) = (tabs w)(t := (tabs w t)\<lparr>tasks := ks\<rparr>)" "holder (popped t ks w) = holder w" "line (popped t ks w) = line w"
  "next_serial (popped t ks w) = next_serial w" "locks (popped t ks w) = locks w"
  by (simp_all add: popped_def)

lemma inv_lost_seat:
  assumes "inv M w" "tasks (tabs w t) = Aborted r # ks" "kind r = Steal \<or> \<not> dropQueued (tabs w t)"
  shows "inv M (lost_seat b t (popped t ks w))"
proof -
  have "inv M (popped t ks w)" if "\<not> held (tabs w t)" unfolding popped_def
    by (intro inv_in_tab assms(1) tab_ok_lost [OF inv_ok [OF assms(1)] assms(2)]) (use that assms(3) in auto)
  moreover have "inv M (in_tab t (\<lambda>s. s\<lparr>held := False, releaseHold := None\<rparr>) (popped t ks w))" unfolding popped_def in_tab_in_tab
    by (intro inv_in_tab assms(1) tab_ok_lost [OF inv_ok [OF assms(1)] assms(2)]) (use assms(3) in auto)
  ultimately show ?thesis by (auto simp: lost_seat_def intro: inv_step_down)
qed

lemma inv_steal_granted:
  assumes w: "inv M w" and ks: "tasks (tabs w t) = Granted r # ks"
    and clean: "\<And>q. queuedAbort (tabs w t) = Some q \<Longrightarrow> q \<in> set (line w) \<and> owner q = t \<and> first_drop ks = None"
  shows "inv M (steal_granted r t (popped t ks w))"
proof (cases "queuedAbort (tabs w t)")
  case None
  have "inv M (in_tab t (grant_call r) (popped t ks w))" unfolding popped_def in_tab_in_tab
    by (intro inv_in_tab w tab_ok_grant [OF inv_ok [OF w] ks]) simp_all
  then show ?thesis by (simp add: steal_granted_def None)
next
  case (Some q)
  note q = clean [OF Some]
  let ?v = "steal_granted r t (popped t ks w)"
  have v: "holder ?v = holder w" "line ?v = removeAll q (line w)" "next_serial ?v = next_serial w" "locks ?v = locks w"
    "tabs ?v u = tabs w u \<or> u = t" "tasks (tabs ?v t) = ks @ [Aborted q]" "held (tabs ?v t)" "releaseHold (tabs ?v t) = Some r" for u
    using q by (auto simp: steal_granted_def Some signal_abort_def)
  have "tab_ok M (holder ?v) (line ?v) (next_serial ?v) u (tabs ?v u)" for u
  proof (cases "u = t")
    case True
    show ?thesis unfolding v True
      by (rule tab_ok_drop [OF inv_ok [OF w] ks v(6-8)]) (use w q in \<open>auto simp: inv_def line_ok_def\<close>)
  next
    case False
    then show ?thesis using v(5) [of u] unfolding v(1-3)
      by (auto intro!: tab_ok_known [OF inv_ok [OF w]] simp: known_def)
  qed
  moreover have "holder ?v = None \<longrightarrow> line ?v = []" "line_ok ?v" "locks ?v = Working"
    using w unfolding v line_ok_def inv_def by (auto simp: distinct_removeAll)
  ultimately show ?thesis by (simp add: inv_def tabs_ok_def)
qed

lemma inv_steal_spent:
  assumes w: "inv M w" and ks: "tasks (tabs w t) = Granted r # ks" and q: "queuedAbort (tabs w t) = Some q" "owner q = t"
  shows "inv (insert t M) (steal_granted r t (popped t ks w))"
proof -
  let ?v = "steal_granted r t (popped t ks w)"
  have v: "holder ?v = holder w" "line ?v = removeAll q (line w)" "next_serial ?v = next_serial w" "locks ?v = locks w"
    "tabs ?v u = tabs w u \<or> u = t" "tasks (tabs ?v t) = ks \<or> tasks (tabs ?v t) = ks @ [Aborted q]" "releaseHold (tabs ?v t) = Some r" for u
    using q by (auto simp: steal_granted_def signal_abort_def)
  have "tab_ok (insert t M) (holder ?v) (line ?v) (next_serial ?v) u (tabs ?v u)" for u
  proof (cases "u = t")
    case True
    show ?thesis unfolding v(1-3) True
      by (rule tab_ok_spent [OF inv_ok [OF w] ks v(6,7)]) (auto simp: known_def)
  next
    case False
    then show ?thesis using v(5) [of u] unfolding v(1-3)
      by (auto intro!: tab_ok_known [OF tab_ok_mono [OF inv_ok [OF w]]] simp: known_def)
  qed
  moreover have "holder ?v = None \<longrightarrow> line ?v = []" "line_ok ?v" "locks ?v = Working"
    using w unfolding v line_ok_def inv_def by (auto simp: distinct_removeAll)
  ultimately show ?thesis by (simp add: inv_def tabs_ok_def)
qed

lemma inv_mono: "inv M w \<Longrightarrow> M \<subseteq> M' \<Longrightarrow> inv M' w"
  by (auto simp: inv_def tabs_ok_def intro: tab_ok_mono)

section \<open>Waiters\<close>

definition coming :: "tab \<Rightarrow> bool" where
  "coming s \<longleftrightarrow> (\<exists>r. Granted r \<in> set (tasks s) \<or> Refused r \<in> set (tasks s) \<and> kind r = Avail \<or>
     Resolved r \<in> set (tasks s) \<and> kind r = Avail \<and> r \<in> set (flags s))"

definition wait_ok :: "req list \<Rightarrow> nat \<Rightarrow> tab \<Rightarrow> bool" where
  "wait_ok l t s \<longleftrightarrow> (acquiring s \<longrightarrow> coming s \<or> (\<exists>q \<in> set l. owner q = t))"

definition abort_ok :: "nat \<Rightarrow> tab \<Rightarrow> bool" where
  "abort_ok t s \<longleftrightarrow> (\<forall>q. queuedAbort s = Some q \<longrightarrow> owner q = t)"

definition waiting_ok :: "world \<Rightarrow> bool" where
  "waiting_ok w \<longleftrightarrow> locks w = Working \<and> (\<forall>t. wait_ok (line w) t (tabs w t) \<and> abort_ok t (tabs w t))"

lemma waiting_in_tab:
  assumes "waiting_ok w" "wait_ok (line w) t (f (tabs w t))" "abort_ok t (f (tabs w t))"
  shows "waiting_ok (in_tab t f w)"
  using assms by (auto simp: waiting_ok_def)

lemma wait_ok_push: "wait_ok l t s \<Longrightarrow> wait_ok l t (push k s)"
  by (auto simp: wait_ok_def coming_def)

lemma abort_ok_push [simp]: "abort_ok t (push k s) = abort_ok t s"
  by (simp add: abort_ok_def)

lemma waiting_push: "waiting_ok w \<Longrightarrow> waiting_ok (in_tab t (push k) w)"
  by (rule waiting_in_tab) (auto simp: waiting_ok_def intro: wait_ok_push)

lemma waiting_keep:
  assumes "waiting_ok w" "\<And>s. acquiring (f s) = acquiring s" "\<And>s. flags (f s) = flags s" "\<And>s. tasks (f s) = tasks s"
    "\<And>s. queuedAbort (f s) = queuedAbort s"
  shows "waiting_ok (in_tab t f w)"
  using assms by (intro waiting_in_tab) (auto simp: waiting_ok_def wait_ok_def coming_def abort_ok_def)

lemma coming_push_granted [simp]: "coming (push (Granted r) s)"
  by (auto simp: coming_def)

lemma coming_push_refused [simp]: "kind r = Avail \<Longrightarrow> coming (push (Refused r) s)"
  by (auto simp: coming_def)

lemma waiting_hand_on:
  assumes "waiting_ok w"
  shows "waiting_ok (hand_on w)"
proof (cases "line w")
  case (Cons q qs)
  have "wait_ok qs t (tabs w t)" if "t \<noteq> owner q" for t using assms Cons that by (auto simp: waiting_ok_def wait_ok_def)
  moreover have "wait_ok qs (owner q) (push (Granted q) (tabs w (owner q)))" by (simp add: wait_ok_def)
  ultimately have "wait_ok qs t (tabs (give q (w\<lparr>line := qs\<rparr>)) t)" for t by simp
  then show ?thesis using assms Cons by (simp add: hand_on_def waiting_ok_def)
qed (use assms in \<open>simp add: hand_on_def waiting_ok_def wait_ok_def\<close>)

lemma waiting_let_go: "waiting_ok w \<Longrightarrow> waiting_ok (let_go r w)"
  by (auto simp: let_go_def intro: waiting_push waiting_hand_on)

lemma waiting_request:
  assumes "locks w = Working" "\<And>u. u \<noteq> t \<Longrightarrow> wait_ok (line w) u (tabs w u)" "\<And>u. abort_ok u (tabs w u)"
  shows "waiting_ok (request t k w)"
proof -
  let ?v = "request t k w"
  have "coming (tabs ?v t) \<or> (\<exists>q \<in> set (line ?v). owner q = t)"
    using assms(1) by (auto simp: request_def Let_def split: kind.splits option.splits)
  moreover have "wait_ok (line ?v) u (tabs ?v u)" if "u \<noteq> t" for u
    using assms(1) assms(2) [OF that] that
    by (auto simp: request_def Let_def wait_ok_def split: kind.splits option.splits; auto simp: coming_def)
  moreover have "locks ?v = Working" using assms(1) by (auto simp: request_def Let_def split: kind.splits option.splits)
  moreover have "abort_ok u (tabs ?v u)" for u
    using assms(1,3) by (auto simp: request_def Let_def split: kind.splits option.splits)
  ultimately show ?thesis unfolding waiting_ok_def by (metis wait_ok_def)
qed

lemma note_call_more [simp]: "queuedAbort (note_call c s) = queuedAbort s" by (simp add: note_call_def)

lemma waiting_acquire:
  assumes "waiting_ok w"
  shows "waiting_ok (acquireNodeLock t w)"
proof -
  let ?w = "in_tab t (\<lambda>s. s\<lparr>events := True\<rparr>) w"
  have w: "waiting_ok ?w" by (rule waiting_keep [OF assms]) simp_all
  moreover have "waiting_ok (in_tab t (note_call Acquired) ?w)" by (rule waiting_keep [OF w]) simp_all
  moreover have "waiting_ok (request t Avail (in_tab t (\<lambda>s. s\<lparr>channel := True, acquiring := True, resolveAcquired := True\<rparr>) ?w))"
    by (rule waiting_request) (use assms in \<open>auto simp: waiting_ok_def abort_ok_def\<close>)
  ultimately show ?thesis using assms unfolding acquireNodeLock_def Let_def by (auto simp: waiting_ok_def)
qed

lemma waiting_step_down: "waiting_ok w \<Longrightarrow> waiting_ok (stepDown b t w)"
  unfolding stepDown_def Let_def by (auto intro!: waiting_acquire waiting_keep)

lemma waiting_release_hold: "waiting_ok w \<Longrightarrow> waiting_ok (release_hold t w)"
  unfolding release_hold_def by (intro waiting_keep) (auto intro: waiting_let_go split: option.split)

lemma waiting_lost_seat: "waiting_ok w \<Longrightarrow> waiting_ok (lost_seat b t w)"
  unfolding lost_seat_def by (auto intro!: waiting_step_down waiting_keep)

lemma waiting_granted:
  assumes "waiting_ok w"
  shows "waiting_ok (in_tab t (grant_call r) (popped t ks w))"
  unfolding popped_def in_tab_in_tab using assms
  by (intro waiting_in_tab)
    (auto simp: waiting_ok_def wait_ok_def abort_ok_def grant_call_def grant_def resolve_acquired_def)

lemma waiting_steal_granted:
  assumes "waiting_ok w"
  shows "waiting_ok (steal_granted r t (popped t ks w))"
proof -
  let ?v = "steal_granted r t (popped t ks w)"
  have "\<not> acquiring (tabs ?v t)" by (simp add: steal_granted_def)
  moreover have "tabs ?v u = tabs w u \<and> {q \<in> set (line w). owner q \<noteq> t} = {q \<in> set (line ?v). owner q \<noteq> t}" if "u \<noteq> t" for u
    using assms that by (auto simp: steal_granted_def signal_abort_def waiting_ok_def abort_ok_def split: option.splits)
  moreover have "abort_ok t (tabs ?v t)"
    using assms by (auto simp: steal_granted_def signal_abort_def waiting_ok_def abort_ok_def grant_call_def grant_def resolve_acquired_def split: option.splits)
  moreover have "locks ?v = Working" using assms by (auto simp: steal_granted_def signal_abort_def waiting_ok_def split: option.splits)
  ultimately show ?thesis using assms unfolding waiting_ok_def wait_ok_def by (smt (verit) mem_Collect_eq)
qed

section \<open>Every event\<close>

lemma waiting_pop:
  assumes "waiting_ok w" "tasks (tabs w t) = k # ks" "\<And>r. k \<noteq> Granted r" "\<And>r. k \<noteq> Refused r"
    "\<And>r. k = Resolved r \<Longrightarrow> kind r = Avail \<Longrightarrow> r \<notin> set (flags (tabs w t))"
  shows "waiting_ok (popped t ks w)"
proof -
  have "coming (tabs w t) \<Longrightarrow> coming ((tabs w t)\<lparr>tasks := ks\<rparr>)" using assms(2-5) by (auto simp: coming_def)
  then show ?thesis unfolding popped_def using assms(1)
    by (intro waiting_in_tab) (auto simp: waiting_ok_def wait_ok_def abort_ok_def)
qed

lemma waiting_acquire_then:
  assumes "waiting_ok w" "tasks (tabs w t) = Resolved r # ks" "kind r = Avail"
  shows "waiting_ok (acquire_then r t (popped t ks w))"
proof (cases "r \<in> set (flags (tabs w t))")
  case True
  have "waiting_ok (request t Queued (in_tab t (\<lambda>s. s\<lparr>flags := removeAll r (flags s), queuedAbort := Some \<lparr>owner = t, kind = Queued, serial = next_serial w\<rparr>\<rparr>) (popped t ks w)))"
    by (rule waiting_request) (use assms(1) in \<open>auto simp: waiting_ok_def abort_ok_def\<close>)
  then show ?thesis using True by (simp add: acquire_then_def Let_def)
next
  case False
  then show ?thesis using waiting_pop [OF assms(1,2)] by (simp add: acquire_then_def)
qed

lemma waiting_refused:
  assumes "waiting_ok w" "tasks (tabs w t) = Refused r # ks"
  shows "waiting_ok (acquire_refused r t (popped t ks w))"
proof -
  let ?s = "push (Resolved r) (note_call (OnWaiting True) ((tabs w t)\<lparr>tasks := ks, flags := r # flags (tabs w t)\<rparr>))"
  have "coming (tabs w t) \<Longrightarrow> coming ?s" using assms(2) by (auto simp: coming_def)
  then have "waiting_ok (in_tab t (\<lambda>s. push (Resolved r) (note_call (OnWaiting True) (s\<lparr>tasks := ks, flags := r # flags s\<rparr>))) w)"
    using assms(1) by (intro waiting_in_tab) (auto simp: waiting_ok_def wait_ok_def abort_ok_def)
  then show ?thesis by (simp add: acquire_refused_def popped_def)
qed

definition good :: "nat set \<Rightarrow> world \<Rightarrow> bool" where "good M w \<longleftrightarrow> inv M w \<and> waiting_ok w"

lemma inv_run_task:
  assumes w: "inv M w" and ks: "tasks (tabs w t) = k # ks" and own: "abort_ok t (tabs w t)" and clean: "clean (Task b t) w"
  shows "inv M (run_task b t k (popped t ks w))"
proof (cases k)
  case (Granted r)
  note ks = ks [unfolded Granted]
  have "inv M (in_tab t (grant_call r) (popped t ks w))" unfolding popped_def in_tab_in_tab
    by (intro inv_in_tab w tab_ok_grant [OF inv_ok [OF w] ks]) simp_all
  moreover have "inv M (steal_granted r t (popped t ks w))" if "kind r = Steal"
    by (rule inv_steal_granted [OF w ks]) (use clean ks own that in \<open>auto simp: clean_def abort_ok_def\<close>)
  ultimately show ?thesis using Granted by (simp add: acquire_granted_def)
next
  case (Refused r)
  have p: "inv M (popped t ks w)" by (rule inv_pop [OF w ks]) (simp add: Refused)
  have "inv M (in_tab t (\<lambda>s. note_call (OnWaiting True) (s\<lparr>flags := r # flags s\<rparr>)) (popped t ks w))" (is "inv M ?v")
    by (rule inv_keep [OF p]) simp_all
  then have "inv M (in_tab t (push (Resolved r)) ?v)" by (rule inv_push) simp
  then show ?thesis using Refused by (simp add: acquire_refused_def)
next
  case (Resolved r)
  have p: "inv M (popped t ks w)" by (rule inv_pop [OF w ks]) (simp add: Resolved)
  then show ?thesis using Resolved by (auto simp: acquire_then_def Let_def intro!: inv_request inv_keep)
next
  case (Aborted r)
  note ks = ks [unfolded Aborted]
  have "inv M (in_tab t (\<lambda>s. s\<lparr>dropQueued := False\<rparr>) (popped t ks w))" if "dropQueued (tabs w t)" "kind r \<noteq> Steal"
    unfolding popped_def in_tab_in_tab by (intro inv_in_tab w tab_ok_dropped [OF inv_ok [OF w] ks]) (use that in simp_all)
  then show ?thesis using Aborted inv_lost_seat [OF w ks, of b] by (auto simp: acquire_aborted_def)
next
  case (Failed r)
  then show ?thesis using inv_ok [OF w, of t] ks by (auto simp: tab_ok_def own_ok_def)
qed

lemma inv_run_marked:
  assumes w: "inv M w" and ks: "tasks (tabs w t) = k # ks" and own: "abort_ok t (tabs w t)"
  shows "inv (marks (Task b t) w M) (run_task b t k (popped t ks w))"
proof (cases "clean (Task b t) w")
  case True
  then show ?thesis using inv_run_task [OF w ks own True] by (simp add: marks_def)
next
  case False
  then obtain r q where "k = Granted r" "kind r = Steal" "queuedAbort (tabs w t) = Some q"
    using ks by (auto simp: clean_def split: task.splits option.splits)
  then show ?thesis using inv_steal_spent [OF w] ks own False by (simp add: marks_def abort_ok_def)
qed

lemma waiting_run_task:
  assumes w: "waiting_ok w" and ks: "tasks (tabs w t) = k # ks" and "\<And>r. k \<noteq> Failed r"
  shows "waiting_ok (run_task b t k (popped t ks w))"
proof (cases k)
  case (Granted r)
  then show ?thesis using waiting_granted [OF w] waiting_steal_granted [OF w] by (simp add: acquire_granted_def)
next
  case (Refused r)
  then show ?thesis using waiting_refused [OF w] ks by simp
next
  case (Resolved r)
  then show ?thesis using waiting_acquire_then [OF w] waiting_pop [OF w ks] ks by auto
next
  case (Aborted r)
  have p: "waiting_ok (popped t ks w)" by (rule waiting_pop [OF w ks]) (simp_all add: Aborted)
  then have "waiting_ok (in_tab t (\<lambda>s. s\<lparr>dropQueued := False\<rparr>) (popped t ks w))" by (rule waiting_keep) simp_all
  then show ?thesis using Aborted waiting_lost_seat [OF p] by (simp add: acquire_aborted_def)
qed (use assms(3) in simp)

lemma inv_close:
  assumes "inv M w"
  shows "inv (M - {t}) (close_tab t w)"
proof -
  let ?w = "w\<lparr>tabs := (tabs w)(t := new_tab), line := filter (\<lambda>r. owner r \<noteq> t) (line w)\<rparr>"
  have other: "tab_ok (M - {t}) h l n u s" if "tab_ok M h l n u s" "u \<noteq> t" for h l n u s using that by (auto simp: tab_ok_def)
  have ok: "tab_ok (M - {t}) (holder w) (line ?w) (next_serial ?w) u (tabs ?w u)" for u
    using other [OF tab_ok_known [OF inv_ok [OF assms]]] by (auto simp: tab_ok_new known_def)
  have l: "line_ok ?w" "locks ?w = Working" "holder ?w = None \<longrightarrow> line ?w = []" using assms by (auto simp: inv_def line_ok_def)
  have "inv (M - {t}) ?w" using ok l by (simp add: inv_def tabs_ok_def)
  moreover have "inv (M - {t}) (hand_on ?w)" if h: "holder w = Some h" "owner h = t" for h
  proof (rule inv_hand_on)
    have "tab_ok (M - {t}) h' (line ?w) (next_serial ?w) u (tabs ?w u)" for h' u
      using tab_ok_other [OF ok [of u]] h by (cases "u = t") (auto simp: tab_ok_new)
    then show "vacant (M - {t}) ?w" using l by (simp add: vacant_def tabs_ok_def)
  qed
  ultimately show ?thesis by (auto simp: close_tab_def Let_def split: option.split)
qed

lemma waiting_close:
  assumes "waiting_ok w"
  shows "waiting_ok (close_tab t w)"
proof -
  let ?w = "w\<lparr>tabs := (tabs w)(t := new_tab), line := filter (\<lambda>r. owner r \<noteq> t) (line w)\<rparr>"
  have "waiting_ok ?w" using assms by (auto simp: waiting_ok_def wait_ok_def abort_ok_def new_tab_def)
  then show ?thesis using waiting_hand_on by (auto simp: close_tab_def Let_def split: option.split)
qed

lemma good_claim:
  assumes "good M w"
  shows "good M (claimNodeLock t w)"
proof -
  define v where "v = (if channel (tabs w t)
     then w\<lparr>tabs := (\<lambda>u. if u \<noteq> t \<and> channel (tabs w u) then (tabs w u)\<lparr>inbox := inbox (tabs w u) + 1\<rparr> else tabs w u)\<rparr> else w)"
  have "inv M v" using assms
    by (auto simp: v_def good_def inv_def tabs_ok_def line_ok_def)
  then have "inv M (in_tab t (\<lambda>s. s\<lparr>timers := timers s + 1\<rparr>) v)" by (rule inv_keep) simp_all
  moreover have "waiting_ok v" using assms by (auto simp: v_def good_def waiting_ok_def wait_ok_def coming_def abort_ok_def)
  then have "waiting_ok (in_tab t (\<lambda>s. s\<lparr>timers := timers s + 1\<rparr>) v)" by (rule waiting_keep) simp_all
  ultimately show ?thesis using assms by (auto simp: claimNodeLock_def good_def v_def [symmetric] Let_def)
qed

lemma good_step:
  assumes "good M w"
  shows "good (marks e w M) (step e w)"
proof (cases e)
  case (Task b t)
  show ?thesis
  proof (cases "tasks (tabs w t)")
    case (Cons k ks)
    have "abort_ok t (tabs w t)" using assms by (simp add: good_def waiting_ok_def)
    moreover have "k \<noteq> Failed r" for r using assms Cons inv_ok [of M w t] by (auto simp: good_def tab_ok_def own_ok_def)
    ultimately show ?thesis using assms Cons inv_run_marked waiting_run_task
      by (simp add: Task good_def popped_def [symmetric])
  qed (use assms Task in \<open>simp add: marks_def clean_def\<close>)
next
  case (Message b t)
  have "good M (in_tab t (\<lambda>s. s\<lparr>inbox := inbox s - 1\<rparr>) w)" (is "good M ?v")
    using assms by (auto simp: good_def intro: inv_keep waiting_keep)
  moreover have "waiting_ok (release_message b t w)" if "waiting_ok w" for w
    using that unfolding release_message_def by (auto intro!: waiting_release_hold waiting_step_down waiting_keep)
  ultimately show ?thesis using assms Message inv_message by (auto simp: good_def marks_def)
next
  case (Timer t)
  have "good M (in_tab t (\<lambda>s. s\<lparr>timers := timers s - 1\<rparr>) w)" (is "good M ?v")
    using assms by (auto simp: good_def intro: inv_keep waiting_keep)
  moreover have "waiting_ok (request t Steal w)" if "waiting_ok w" for w
    using that by (intro waiting_request) (auto simp: waiting_ok_def)
  ultimately show ?thesis using assms Timer inv_request by (auto simp: good_def claim_timer_def marks_def)
next
  case (Release t)
  have "waiting_ok (releaseNodeLock t w)" using assms unfolding releaseNodeLock_def good_def
    by (intro waiting_release_hold waiting_keep) simp_all
  then show ?thesis using assms Release inv_release by (simp add: good_def marks_def)
qed (use assms good_claim in \<open>auto simp: good_def marks_def intro: inv_acquire waiting_acquire inv_close waiting_close\<close>)

lemma good_start: "good {} (new_world Working)"
  by (simp add: good_def inv_def waiting_ok_def new_world_def line_ok_def tabs_ok_def tab_ok_new wait_ok_def abort_ok_def)
     (simp add: new_tab_def)

lemma good_events: "good M w \<Longrightarrow> good (spent es w M) (run es w)"
  by (induction es arbitrary: w M) (auto intro: good_step)

section \<open>Properties\<close>

text \<open>C33: whatever the tabs of a profile do, and however callbacks, messages, timers and crashes interleave: a tab that takes
  itself for the node's holder has the lock, or the rejection that tells it otherwise is on its way, unless that tab stole the seat while
  its abort controller was spent (its wait no longer in line, or another rejection of it unanswered); nobody waits for a free lock; and a
  tab that waits is in line or has its answer coming.\<close>
theorem node_seat:
  fixes es :: "event list" and t :: nat
  defines "w \<equiv> run es (new_world Working)"
  shows "(held (tabs w t) \<longrightarrow> (\<exists>r. owner r = t \<and> (holder w = Some r \<or> Aborted r \<in> set (tasks (tabs w t)))) \<or> t \<in> spent es (new_world Working) {}) \<and>
         (holder w = None \<longrightarrow> line w = []) \<and>
         (acquiring (tabs w t) \<and> tasks (tabs w t) = [] \<longrightarrow> (\<exists>q \<in> set (line w). owner q = t))"
proof -
  have good: "inv (spent es (new_world Working) {}) w" "waiting_ok w"
    using good_events [OF good_start, of es] by (simp_all add: good_def w_def)
  note ok = inv_ok [OF good(1), of t]
  show ?thesis
  proof (intro conjI impI)
    assume "held (tabs w t)"
    then show "(\<exists>r. owner r = t \<and> (holder w = Some r \<or> Aborted r \<in> set (tasks (tabs w t)))) \<or> t \<in> spent es (new_world Working) {}"
      using ok unfolding tab_ok_def seat_ok_def own_ok_def by blast
  next
    assume "acquiring (tabs w t) \<and> tasks (tabs w t) = []"
    then show "\<exists>q \<in> set (line w). owner q = t" using good(2) by (auto simp: waiting_ok_def wait_ok_def coming_def)
  qed (use good(1) in \<open>simp add: inv_def\<close>)
qed

definition handover :: "event list" where
  \<comment> \<open>tab 0 runs the node, tab 1 waits and asks for it; tab 0 steps down and waits in turn\<close>
  "handover = [Acquire 0, Task False 0, Acquire 1, Task False 1, Task False 1, Claim 1, Message True 0, Task False 1, Task False 0, Task False 0, Task False 0]"

theorem node_seat_witness:
  "held (tabs (run handover (new_world Working)) 1) \<and> 1 \<notin> spent handover (new_world Working) {} \<and>
   map owner (line (run handover (new_world Working))) = [0] \<and> acquiring (tabs (run handover (new_world Working)) 0) \<and>
   tasks (tabs (run handover (new_world Working)) 0) = [] \<and>
   (\<exists>q \<in> set (line (run handover (new_world Working))). owner q = 0)"
proof -
  have s: "acquiring (tabs (run handover (new_world Working)) 0)" "tasks (tabs (run handover (new_world Working)) 0) = []"
    "held (tabs (run handover (new_world Working)) 1)" "map owner (line (run handover (new_world Working))) = [0]"
    "1 \<notin> spent handover (new_world Working) {}"
    by code_simp+
  then show ?thesis using node_seat [of handover 0] by simp
qed

section \<open>A spent abort controller\<close>

definition spent_controller :: "event list" where
  \<comment> \<open>tab 0 is handed the seat from the line, gives it back while its first claim's timer still runs, and steals: the
    controller it aborts is that of the wait that was already granted\<close>
  "spent_controller =
     [Acquire 1, Task False 1, Acquire 0, Task False 0, Task False 0, Claim 0, Message True 1, Task False 0,
      Task False 1, Task False 1, Task False 1, Claim 1, Message False 0, Task False 0, Timer 0, Task False 0, Task False 0,
      Task False 1, Task True 1, Task True 1, Task True 1, Timer 1, Task True 0, Task False 0, Task False 0,
      Acquire 2, Task False 2, Task False 2, Claim 2, Message False 0, Close 1, Task False 0,
      Timer 2, Task False 2, Task False 2, Task False 0]"

lemma two_nodes_at_once:
  "let w = run spent_controller (new_world Working) in
   held (tabs w 0) \<and> held (tabs w 2) \<and> map_option owner (holder w) = Some 2 \<and>
   tasks (tabs w 0) = [] \<and> inbox (tabs w 0) = 0 \<and> tasks (tabs w 2) = [] \<and> spent spent_controller (new_world Working) {} = {0}"
  by code_simp

end
