(* ===== verification/Room_Stream.thy ===== *)
theory Room_Stream
  imports Room_Channel_Roundtrip Frame_Assembler
begin

text \<open>
  A room channel on one libp2p stream, \<^verbatim>\<open>frontend/src/lib/room-security/stream.ts\<close>: the framing of the
  channel's JSON frames, the gate in front of the first one (a hello for a room this device is in and
  will admit), the time limit and the lifetime. The closure's variables are the record \<open>RoomStream\<close>; the
  calls it makes on its stream and its options are logs. Whether the connection is open is an
  argument of each step, as are what a backpressured \<^verbatim>\<open>send\<close> comes to and the random bytes of a new channel.
\<close>

definition ROOM_PROTOCOL :: string where "ROOM_PROTOCOL = ''/awful/room/2.0.0''"
definition LIMIT :: nat where "LIMIT = 2 * 1024 * 1024"

record stream_options =
  olocal :: string
  oremote :: string
  orooms :: "string \<Rightarrow> EnvelopeKeys option"
  oadmit :: "(string \<Rightarrow> bool) option"

record RoomStream =
  schannel :: "SecureRoomChannel option"
  sbuf :: octets
  sclosed :: bool
  stimer :: bool
  sready :: "string list" \<comment> \<open>calls of \<^verbatim>\<open>onReady\<close>\<close>
  ssent :: "octets list" \<comment> \<open>frames given to \<^verbatim>\<open>stream.send\<close>\<close>
  saborts :: nat
  scloses :: nat \<comment> \<open>calls of \<^verbatim>\<open>onClose\<close>\<close>

datatype stream_error =
    Unavailable | Oversized_frame | Write_stopped | Closed_during_write
  | Expected_hello | Unknown_room | Refused_room | Bad_channel

record draws =
  challenge :: "byte list"
  session_random :: "byte list"
  clock :: int

section \<open>Closing and writing\<close>

definition close_stream :: "RoomStream \<Rightarrow> RoomStream" where
  "close_stream s =
     (if sclosed s then s
      else s\<lparr>sclosed := True, stimer := False, schannel := map_option close_channel (schannel s), sbuf := [],
             saborts := saborts s + 1, scloses := scloses s + 1\<rparr>)"

definition follow_channel :: "RoomStream \<Rightarrow> RoomStream" where
  \<comment> \<open>the channel's \<^verbatim>\<open>abort\<close> is the stream's \<^verbatim>\<open>close\<close>\<close>
  "follow_channel s = (case schannel s of None \<Rightarrow> s | Some c \<Rightarrow> if cclosed c then close_stream s else s)"

datatype send_outcome = Accepted | Drained | Stopped

definition write_stream :: "room_platform \<Rightarrow> RoomStream \<Rightarrow> js_value \<Rightarrow> bool \<Rightarrow> send_outcome \<Rightarrow> bool \<Rightarrow> stream_error option \<times> RoomStream" where
  \<comment> \<open>\<open>up\<close> and \<open>up'\<close>: the connection is open before and after the frame was sent\<close>
  "write_stream P s v up outcome up' =
     (if sclosed s \<or> \<not> up then (Some Unavailable, s)
      else
        let bytes = enc_body P v in
        if LIMIT < length bytes then (Some Oversized_frame, s)
        else
          let s = s\<lparr>ssent := ssent s @ [encodeFrame bytes]\<rparr> in
          if outcome = Stopped then (Some Write_stopped, s)
          else if \<not> up' then (Some Closed_during_write, s) else (None, s))"

definition create :: "room_platform \<Rightarrow> stream_options \<Rightarrow> RoomStream \<Rightarrow> EnvelopeKeys \<Rightarrow> role \<Rightarrow> draws \<Rightarrow> bool \<Rightarrow> send_outcome \<Rightarrow> bool \<Rightarrow> stream_error + RoomStream" where
  "create P opt s keys r d up outcome up' =
     (case new_channel P keys (olocal opt) (oremote opt) r (challenge d) (session_random d) (clock d) of
        Inl _ \<Rightarrow> Inl Bad_channel
      | Inr c \<Rightarrow>
          (case written c of
             [] \<Rightarrow> Inr (s\<lparr>schannel := Some c\<rparr>)
           | hello # _ \<Rightarrow>
               (case write_stream P s hello up outcome up' of
                  (None, s') \<Rightarrow> Inr (s'\<lparr>schannel := Some c\<rparr>)
                | (Some _, s') \<Rightarrow> Inr (follow_channel (s'\<lparr>schannel := Some (close_channel c)\<rparr>)))))"

definition channel_ready :: "RoomStream \<Rightarrow> bool \<Rightarrow> RoomStream" where
  \<comment> \<open>what waits for \<^verbatim>\<open>current.ready\<close>, when it has settled\<close>
  "channel_ready s up =
     (case schannel s of
        None \<Rightarrow> s
      | Some c \<Rightarrow>
          (case cready c of
             Ready_pending \<Rightarrow> s
           | Ready_rejected \<Rightarrow> close_stream s
           | Ready_resolved \<Rightarrow>
               if sclosed s \<or> \<not> up then close_stream s
               else s\<lparr>stimer := False, sready := sready s @ [discoveryId (ckeys c)]\<rparr>))"

definition stream_timeout :: "RoomStream \<Rightarrow> RoomStream" where
  "stream_timeout s = (if stimer s then close_stream s else s)"

definition attachRoomStream :: "room_platform \<Rightarrow> stream_options \<Rightarrow> EnvelopeKeys option \<Rightarrow> draws \<Rightarrow> bool \<Rightarrow> send_outcome \<Rightarrow> bool \<Rightarrow> stream_error + RoomStream" where
  "attachRoomStream P opt initiate d up outcome up' =
     (let s = \<lparr>schannel = None, sbuf = [], sclosed = False, stimer = True, sready = [], ssent = [], saborts = 0, scloses = 0\<rparr> in
      case initiate of None \<Rightarrow> Inr s | Some keys \<Rightarrow> create P opt s keys Initiator d up outcome up')"

section \<open>Receiving\<close>

definition open_room :: "room_platform \<Rightarrow> stream_options \<Rightarrow> RoomStream \<Rightarrow> js_value \<Rightarrow> draws \<Rightarrow> stream_error + RoomStream" where
  \<comment> \<open>the first frame: nothing is written, a responder waits for the initiator\<close>
  "open_room P opt s frame d =
     (if schannel s \<noteq> None then Inr s
      else if \<not> isMembershipHello frame then Inl Expected_hello
      else case js_prop frame ''room'' of
             JStr r \<Rightarrow>
               (case orooms opt r of
                  None \<Rightarrow> Inl Unknown_room
                | Some keys \<Rightarrow>
                    if (case oadmit opt of None \<Rightarrow> False | Some admit \<Rightarrow> \<not> admit (discoveryId keys)) then Inl Refused_room
                    else create P opt s keys Responder d True Accepted True)
           | _ \<Rightarrow> Inl Unknown_room)"

definition hand_frame :: "RoomStream \<Rightarrow> js_value \<Rightarrow> nat \<Rightarrow> RoomStream" where
  "hand_frame s frame n = follow_channel (s\<lparr>schannel := map_option (\<lambda>c. receive_frame c frame (int n)) (schannel s)\<rparr>)"

definition pass_frame :: "room_platform \<Rightarrow> stream_options \<Rightarrow> draws \<Rightarrow> RoomStream \<Rightarrow> octets \<Rightarrow> RoomStream" where
  \<comment> \<open>one pass of the loop over a frame that is whole\<close>
  "pass_frame P opt d s bytes =
     (case dec_body P bytes of
        None \<Rightarrow> close_stream s
      | Some frame \<Rightarrow>
          (case open_room P opt s frame d of
             Inl _ \<Rightarrow> close_stream s
           | Inr s' \<Rightarrow> hand_frame s' frame (length bytes)))"

lemma close_stream_buf [simp]: "sbuf (close_stream s) = (if sclosed s then sbuf s else [])"
  by (simp add: close_stream_def)

lemma create_buf:
  assumes "create P opt s keys r d up oc up' = Inr s'"
  shows "length (sbuf s') \<le> length (sbuf s)"
  using assms by (auto simp: create_def write_stream_def Let_def follow_channel_def split: sum.splits list.splits if_splits)

lemma pass_frame_buf: "length (sbuf (pass_frame P opt d s bytes)) \<le> length (sbuf s)"
  using create_buf
  by (fastforce simp: pass_frame_def open_room_def hand_frame_def follow_channel_def split: option.splits sum.splits js_value.splits if_splits)

function receive_loop :: "room_platform \<Rightarrow> stream_options \<Rightarrow> draws \<Rightarrow> RoomStream \<Rightarrow> RoomStream" where
  "receive_loop P opt d s =
     (if length (sbuf s) < 4 then s
      else
        let l = getUint32 (take 4 (sbuf s)) in
        if LIMIT < l \<or> schannel s = None \<and> 2048 < l then close_stream s
        else if length (sbuf s) < l + 4 then s
        else receive_loop P opt d (pass_frame P opt d (s\<lparr>sbuf := drop (l + 4) (sbuf s)\<rparr>) (take l (drop 4 (sbuf s)))))"
  by pat_completeness auto
termination
proof (relation "measure (\<lambda>(_, _, _, s). length (sbuf s))", simp)
  fix P :: room_platform and opt :: stream_options and d :: draws and s :: RoomStream and l
  assume "\<not> length (sbuf s) < 4"
  then have "length (drop (l + 4) (sbuf s)) < length (sbuf s)" by simp
  with pass_frame_buf [of P opt d "s\<lparr>sbuf := drop (l + 4) (sbuf s)\<rparr>" "take l (drop 4 (sbuf s))"]
  show "((P, opt, d, pass_frame P opt d (s\<lparr>sbuf := drop (l + 4) (sbuf s)\<rparr>) (take l (drop 4 (sbuf s)))), (P, opt, d, s)) \<in> measure (\<lambda>(_, _, _, s). length (sbuf s))"
    by simp
qed

declare receive_loop.simps [simp del]

definition receive_chunk :: "room_platform \<Rightarrow> stream_options \<Rightarrow> draws \<Rightarrow> bool \<Rightarrow> RoomStream \<Rightarrow> octets \<Rightarrow> RoomStream" where
  "receive_chunk P opt d up s chunk =
     (if sclosed s \<or> \<not> up then close_stream s
      else if LIMIT + 4 < length (sbuf s) + length chunk then close_stream s
      else receive_loop P opt d (s\<lparr>sbuf := sbuf s @ chunk\<rparr>))"

section \<open>The channel's jobs\<close>

definition channel_job :: "room_platform \<Rightarrow> RoomStream \<Rightarrow> (write_answer \<Rightarrow> SecureRoomChannel \<Rightarrow> SecureRoomChannel) \<Rightarrow> bool \<Rightarrow> send_outcome \<Rightarrow> bool \<Rightarrow> RoomStream" where
  \<comment> \<open>a job of the channel that may write one frame: the answer it gets is what the stream made of it\<close>
  "channel_job P s job up outcome up' =
     (case schannel s of
        None \<Rightarrow> s
      | Some c \<Rightarrow>
          (case drop (length (written c)) (written (job Write_ok c)) of
             [] \<Rightarrow> follow_channel (s\<lparr>schannel := Some (job Write_ok c)\<rparr>)
           | f # _ \<Rightarrow>
               (case write_stream P s f up outcome up' of
                  (None, s') \<Rightarrow> follow_channel (s'\<lparr>schannel := Some (job Write_ok c)\<rparr>)
                | (Some _, s') \<Rightarrow> follow_channel (s'\<lparr>schannel := Some (job Write_refused c)\<rparr>))))"

datatype stream_event =
    Chunk draws bool octets | Job bool send_outcome bool int | Out "byte list" bool send_outcome bool
  | Post "byte list" | Settled bool | Timeout | Shut

fun stream_step :: "room_platform \<Rightarrow> stream_options \<Rightarrow> RoomStream \<Rightarrow> stream_event \<Rightarrow> RoomStream" where
  "stream_step P opt s (Chunk d up b) = receive_chunk P opt d up s b"
| "stream_step P opt s (Job up oc up' now) = channel_job P s (\<lambda>a c. process_next P c a now) up oc up'"
| "stream_step P opt s (Out r up oc up') = channel_job P s (\<lambda>a c. send_next P c r a) up oc up'"
| "stream_step P opt s (Post b) = s\<lparr>schannel := map_option (\<lambda>c. snd (trySend c b)) (schannel s)\<rparr>"
| "stream_step P opt s (Settled up) = channel_ready s up"
| "stream_step P opt s Timeout = stream_timeout s"
| "stream_step P opt s Shut = close_stream s"

section \<open>Frame by frame\<close>

definition gate_frame :: "room_platform \<Rightarrow> stream_options \<Rightarrow> draws \<Rightarrow> RoomStream \<Rightarrow> octets \<Rightarrow> RoomStream" where
  "gate_frame P opt d s f =
     (if sclosed s then s
      else if LIMIT < length f \<or> schannel s = None \<and> 2048 < length f then close_stream s
      else pass_frame P opt d s f)"

definition frames_run :: "room_platform \<Rightarrow> stream_options \<Rightarrow> draws \<Rightarrow> RoomStream \<Rightarrow> octets list \<Rightarrow> RoomStream" where
  \<comment> \<open>the reference: a stream that hands over whole frames\<close>
  "frames_run P opt d = foldl (gate_frame P opt d)"

lemma frames_run_Cons [simp]: "frames_run P opt d s (f # fs) = frames_run P opt d (gate_frame P opt d s f) fs"
  by (simp add: frames_run_def)

lemma frames_run_Nil [simp]: "frames_run P opt d s [] = s"
  by (simp add: frames_run_def)

lemma frames_run_closed: "sclosed s \<Longrightarrow> frames_run P opt d s fs = s"
  by (induction fs) (simp_all add: gate_frame_def)

lemma close_stream_any_buf: "\<not> sclosed s \<Longrightarrow> close_stream (s\<lparr>sbuf := b\<rparr>) = close_stream s"
  by (simp add: close_stream_def)

lemma closed_close [simp]: "sclosed (close_stream s)"
  by (simp add: close_stream_def)

lemma responder_silent: "new_channel P keys l r Responder ch rnd now = Inr c \<Longrightarrow> written c = []"
  by (auto simp: new_channel_def Let_def split: sum.splits)

lemma create_responder:
  "create P opt s keys Responder d up oc up' =
     (case new_channel P keys (olocal opt) (oremote opt) Responder (challenge d) (session_random d) (clock d) of
        Inl _ \<Rightarrow> Inl Bad_channel | Inr c \<Rightarrow> Inr (s\<lparr>schannel := Some c\<rparr>))"
  by (auto simp: create_def responder_silent split: sum.splits)

lemma open_room_buf:
  "open_room P opt (s\<lparr>sbuf := b\<rparr>) frame d = map_sum id (\<lambda>r. r\<lparr>sbuf := b\<rparr>) (open_room P opt s frame d)"
  by (auto simp: open_room_def create_responder split: js_value.splits option.splits sum.splits)

lemma open_room_closed: "open_room P opt s frame d = Inr s' \<Longrightarrow> sclosed s' = sclosed s"
  by (auto simp: open_room_def create_responder split: js_value.splits option.splits sum.splits if_splits)

lemma hand_frame_buf:
  assumes "\<not> sclosed s"
  shows "hand_frame (s\<lparr>sbuf := b\<rparr>) f n = (if sclosed (hand_frame s f n) then hand_frame s f n else (hand_frame s f n)\<lparr>sbuf := b\<rparr>)"
  using assms by (auto simp: hand_frame_def follow_channel_def close_stream_def split: option.splits)

lemma pass_frame_any_buf:
  assumes "\<not> sclosed s"
  shows "pass_frame P opt d (s\<lparr>sbuf := b\<rparr>) f =
    (if sclosed (pass_frame P opt d s f) then pass_frame P opt d s f else (pass_frame P opt d s f)\<lparr>sbuf := b\<rparr>)"
proof (cases "dec_body P f")
  case None
  then show ?thesis using assms by (simp add: pass_frame_def close_stream_any_buf)
next
  case (Some frame)
  show ?thesis
  proof (cases "open_room P opt s frame d")
    case (Inl e)
    then show ?thesis using assms Some by (simp add: pass_frame_def open_room_buf close_stream_any_buf)
  next
    case (Inr s')
    then have "\<not> sclosed s'" using open_room_closed assms by blast
    then show ?thesis using Some Inr hand_frame_buf by (simp add: pass_frame_def open_room_buf)
  qed
qed

lemma pass_frame_closed_buf:
  assumes "\<not> sclosed s" "sclosed (pass_frame P opt d s f)"
  shows "sbuf (pass_frame P opt d s f) = []"
  using assms open_room_closed [of P opt s _ d]
  by (auto simp: pass_frame_def hand_frame_def follow_channel_def split: option.splits sum.splits if_splits)

lemma same_buf: "sbuf s = b \<Longrightarrow> s\<lparr>sbuf := b\<rparr> = s"
  by (cases s) simp

lemma receive_loop_short: "length (sbuf s) < 4 \<Longrightarrow> receive_loop P opt d s = s"
  by (simp add: receive_loop.simps)

definition split_at :: "octets \<Rightarrow> octets list \<Rightarrow> bool" where
  \<comment> \<open>the bytes held are less than the next frame\<close>
  "split_at b fs \<longleftrightarrow> (case fs of [] \<Rightarrow> b = [] | f # _ \<Rightarrow> length b < 4 + length f)"

definition stands :: "room_platform \<Rightarrow> stream_options \<Rightarrow> draws \<Rightarrow> RoomStream \<Rightarrow> octets \<Rightarrow> octets list \<Rightarrow> RoomStream \<Rightarrow> bool" where
  \<comment> \<open>\<open>s\<close>, with the bytes \<open>later\<close> still to come, is on its way to \<open>t\<close>\<close>
  "stands P opt d s later all t \<longleftrightarrow>
     sclosed s \<and> s = t \<or>
     \<not> sclosed s \<and> (\<exists>fs. sbuf s @ later = concat (map encodeFrame fs) \<and> set fs \<subseteq> set all \<and> split_at (sbuf s) fs \<and>
        frames_run P opt d (s\<lparr>sbuf := []\<rparr>) fs = t)"

lemma frame_prefix: "length (encodeFrame f) = 4 + length f"
  by (simp add: encodeFrame_def length_prefix_def)

lemma header_of_frame:
  assumes "b @ later = encodeFrame f @ x" "4 \<le> length b" "length f < 2 ^ 32"
  shows "getUint32 (take 4 b) = length f"
proof -
  have "take 4 b = take 4 (b @ later)" using assms(2) by simp
  also have "\<dots> = length_prefix (length f)" unfolding assms(1) by (simp add: encodeFrame_def length_prefix_def)
  finally show ?thesis using getUint32_prefix [OF assms(3)] by simp
qed

lemma receive_loop_stands:
  assumes "\<not> sclosed s" "sbuf s @ later = concat (map encodeFrame fs)" "list_all (\<lambda>f. length f < 2 ^ 32) fs" "set fs \<subseteq> set all"
    "frames_run P opt d (s\<lparr>sbuf := []\<rparr>) fs = t"
  shows "stands P opt d (receive_loop P opt d s) later all t"
  using assms
proof (induction fs arbitrary: s)
  case Nil
  then have "sbuf s = []" "later = []" by simp_all
  moreover from this Nil have "t = s" using same_buf [of s "[]"] by simp
  ultimately show ?case using Nil.prems(1) unfolding stands_def
    by (simp add: receive_loop_short) (intro exI [of _ "[]"], simp add: split_at_def)
next
  case (Cons f fs)
  let ?l = "length f"
  have here: "stands P opt d s later all t" if "length (sbuf s) < 4 + ?l"
    unfolding stands_def using Cons.prems that by (intro disjI2 conjI exI [of _ "f # fs"]) (simp_all add: split_at_def)
  show ?case
  proof (cases "length (sbuf s) < 4")
    case True
    then show ?thesis using here by (simp add: receive_loop_short)
  next
    case False
    then have l: "getUint32 (take 4 (sbuf s)) = ?l" using header_of_frame [of "sbuf s" later f] Cons.prems(2,3) by simp
    show ?thesis
    proof (cases "LIMIT < ?l \<or> schannel s = None \<and> 2048 < ?l")
      case True
      then have "receive_loop P opt d s = close_stream s" using False l by (simp add: receive_loop.simps)
      moreover have "t = close_stream s" using Cons.prems(1,5) True by (simp add: gate_frame_def close_stream_any_buf frames_run_closed)
      ultimately show ?thesis by (simp add: stands_def)
    next
      case fits: False
      show ?thesis
      proof (cases "length (sbuf s) < ?l + 4")
        case True
        then have "receive_loop P opt d s = s" using False l fits by (subst receive_loop.simps) (auto simp: Let_def)
        then show ?thesis using here True by simp
      next
        case whole: False
        define b where "b = drop (?l + 4) (sbuf s)"
        have "sbuf s = take (4 + ?l) (sbuf s @ later) @ b" using whole by (simp add: b_def add.commute)
        then have buf: "sbuf s = encodeFrame f @ b" using Cons.prems(2) by (simp add: frame_prefix)
        have t1: "take ?l (drop 4 (sbuf s)) = f" unfolding buf by (simp add: encodeFrame_def length_prefix_def)
        let ?s = "pass_frame P opt d (s\<lparr>sbuf := b\<rparr>) f"
        let ?r = "pass_frame P opt d (s\<lparr>sbuf := []\<rparr>) f"
        have loop: "receive_loop P opt d s = receive_loop P opt d ?s"
          using False whole fits l t1 by (subst receive_loop.simps) (auto simp: b_def Let_def)
        have r: "frames_run P opt d ?r fs = t" using Cons.prems(1,5) fits by (simp add: gate_frame_def)
        have any: "?s = (if sclosed ?r then ?r else ?r\<lparr>sbuf := b\<rparr>)"
          using pass_frame_any_buf [of "s\<lparr>sbuf := []\<rparr>" P opt d b f] Cons.prems(1) by simp
        show ?thesis
        proof (cases "sclosed ?r")
          case True
          then have "sbuf ?r = []" using pass_frame_closed_buf Cons.prems(1) by simp
          then show ?thesis using loop any True r by (simp add: receive_loop_short frames_run_closed stands_def)
        next
          case False
          have "b @ later = concat (map encodeFrame fs)" using Cons.prems(2) buf by simp
          moreover have "?r\<lparr>sbuf := []\<rparr> = ?r"
            using pass_frame_any_buf [of "s\<lparr>sbuf := []\<rparr>" P opt d "[]" f] Cons.prems(1) False by simp
          ultimately show ?thesis using loop any False r Cons.prems(3,4) by (simp, intro Cons.IH) auto
        qed
      qed
    qed
  qed
qed

lemma receive_chunk_stands:
  assumes "stands P opt d s (c @ later) all t" "list_all (\<lambda>f. length f \<le> F) all" "length c \<le> C" "F + C \<le> LIMIT"
  shows "stands P opt d (receive_chunk P opt d True s c) later all t"
proof (cases "sclosed s")
  case True
  then show ?thesis using assms(1) by (simp add: stands_def receive_chunk_def close_stream_def)
next
  case False
  then obtain fs where fs: "sbuf s @ c @ later = concat (map encodeFrame fs)" "set fs \<subseteq> set all" "split_at (sbuf s) fs"
      "frames_run P opt d (s\<lparr>sbuf := []\<rparr>) fs = t"
    using assms(1) by (auto simp: stands_def)
  have "length (sbuf s) < 4 + F \<or> sbuf s = []" using fs(2,3) assms(2) by (cases fs) (auto simp: split_at_def list_all_iff)
  then have fits: "\<not> LIMIT + 4 < length (sbuf s) + length c" using assms(3,4) by auto
  have "list_all (\<lambda>f. length f < 2 ^ 32) fs" using fs(2) assms(2,4) by (fastforce simp: list_all_iff LIMIT_def)
  then show ?thesis using receive_loop_stands [of "s\<lparr>sbuf := sbuf s @ c\<rparr>" later fs all P opt d t] fs False fits
    by (simp add: receive_chunk_def)
qed

lemma stream_is_frames:
  assumes "\<not> sclosed s" "sbuf s = []" "concat cs = concat (map encodeFrame fs)" "list_all (\<lambda>f. length f \<le> F) fs"
    "list_all (\<lambda>c. length c \<le> C) cs" "F + C \<le> LIMIT"
  shows "foldl (receive_chunk P opt d True) s cs = frames_run P opt d s fs"
proof -
  let ?t = "frames_run P opt d s fs"
  have all: "stands P opt d (foldl (receive_chunk P opt d True) u xs) [] fs ?t" if "stands P opt d u (concat xs) fs ?t" "set xs \<subseteq> set cs" for u xs
    using that
  proof (induction xs arbitrary: u)
    case (Cons x xs)
    then show ?case using receive_chunk_stands [of P opt d u x "concat xs" fs ?t F C] assms(4,5,6) by (auto simp: list_all_iff)
  qed simp
  have "s\<lparr>sbuf := []\<rparr> = s" using assms(2) by simp
  then have "frames_run P opt d (s\<lparr>sbuf := []\<rparr>) fs = ?t" by simp
  then have "stands P opt d s (concat cs) fs ?t"
    unfolding stands_def using assms(1,2,3) by (intro disjI2 conjI exI [of _ fs]) (auto simp: split_at_def split: list.split)
  from all [OF this] have "stands P opt d (foldl (receive_chunk P opt d True) s cs) [] fs ?t" (is "stands _ _ _ ?r _ _ _") by simp
  then show ?thesis unfolding stands_def
  proof (elim disjE conjE exE)
    fix gs assume "sbuf ?r @ [] = concat (map encodeFrame gs)" "split_at (sbuf ?r) gs" "frames_run P opt d (?r\<lparr>sbuf := []\<rparr>) gs = ?t"
    moreover from this(1,2) have "gs = []" by (cases gs) (auto simp: split_at_def frame_prefix)
    ultimately show ?thesis using same_buf [of ?r "[]"] by simp
  qed
qed

section \<open>What a stream promises\<close>

definition carried :: "room_platform \<Rightarrow> js_value \<Rightarrow> bool" where
  \<comment> \<open>the platform's JSON gives this frame back\<close>
  "carried P v \<longleftrightarrow> dec_body P (enc_body P v) = Some v"

lemma receive_closed [simp]: "cclosed c \<Longrightarrow> receive_frame c v n = c"
  by (simp add: receive_frame_def)

lemma close_channel_closed [simp]: "cclosed c \<Longrightarrow> close_channel c = c"
  by (simp add: close_channel_def)

lemma frames_to_channel:
  assumes "schannel s = Some c" "sclosed s \<longrightarrow> cclosed c" "list_all (carried P) vs" "list_all (\<lambda>v. length (enc_body P v) \<le> LIMIT) vs"
  shows "schannel (frames_run P opt d s (map (enc_body P) vs)) =
     Some (foldl (\<lambda>c v. receive_frame c v (int (length (enc_body P v)))) c vs)"
  using assms
proof (induction vs arbitrary: s c)
  case (Cons v vs)
  have "schannel (gate_frame P opt d s (enc_body P v)) = Some (receive_frame c v (int (length (enc_body P v)))) \<and>
    (sclosed (gate_frame P opt d s (enc_body P v)) \<longrightarrow> cclosed (receive_frame c v (int (length (enc_body P v)))))"
  proof (cases "sclosed s")
    case False
    then have "gate_frame P opt d s (enc_body P v) = hand_frame s v (length (enc_body P v))"
      using Cons.prems by (simp add: gate_frame_def pass_frame_def carried_def open_room_def)
    then show ?thesis using False Cons.prems(1) by (simp add: hand_frame_def follow_channel_def close_stream_def)
  qed (use Cons.prems in \<open>simp add: gate_frame_def\<close>)
  then show ?case using Cons by simp
qed simp

text \<open>C31: a room stream carries its channel's frames: the frames one end writes, however the network cuts the bytes into
  pieces, reach the other end's channel whole and in order, each with its size, as if they had been handed over directly.
  Frames and pieces may be of any size that together stay within the two mebibytes of the buffer.\<close>
theorem stream_carries_frames:
  assumes "schannel s = Some c" "\<not> sclosed s" "sbuf s = []"
    and "list_all (carried P) vs" "list_all (\<lambda>v. length (enc_body P v) \<le> F) vs"
    and "concat cs = concat (map (\<lambda>v. encodeFrame (enc_body P v)) vs)" "list_all (\<lambda>b. length b \<le> C) cs" "F + C \<le> LIMIT"
  shows "schannel (foldl (receive_chunk P opt d True) s cs) =
     Some (foldl (\<lambda>c v. receive_frame c v (int (length (enc_body P v)))) c vs)"
proof -
  have "concat cs = concat (map encodeFrame (map (enc_body P) vs))" using assms(6) by (simp add: comp_def)
  moreover have "list_all (\<lambda>f. length f \<le> F) (map (enc_body P) vs)" using assms(5) by (simp add: list_all_iff)
  ultimately have "foldl (receive_chunk P opt d True) s cs = frames_run P opt d s (map (enc_body P) vs)"
    using stream_is_frames [OF assms(2,3) _ _ assms(7,8)] by blast
  moreover have "list_all (\<lambda>v. length (enc_body P v) \<le> LIMIT) vs" using assms(5,8) by (auto simp: list_all_iff)
  ultimately show ?thesis using frames_to_channel [OF assms(1) _ assms(4)] assms(2) by simp
qed

definition demo_options :: stream_options where
  "demo_options = \<lparr>olocal = ''bob'', oremote = ''alice'', orooms = (\<lambda>_. None), oadmit = None\<rparr>"

definition demo_draws :: draws where
  "demo_draws = \<lparr>challenge = [], session_random = [], clock = 0\<rparr>"

definition demo_stream :: RoomStream where
  "demo_stream = \<lparr>schannel = Some demo_bob, sbuf = [], sclosed = False, stimer = False, sready = [], ssent = [], saborts = 0, scloses = 0\<rparr>"

theorem stream_carries_frames_witness:
  "schannel (foldl (receive_chunk demo_platform demo_options demo_draws True) demo_stream [[0, 0], [0, 1, 1, 0, 0], [0, 1, 1]]) =
     Some (foldl (\<lambda>c v. receive_frame c v (int (length (enc_body demo_platform v)))) demo_bob [demo_body, demo_body])"
  by (rule stream_carries_frames [where F = 1 and C = 5])
    (simp_all add: demo_stream_def carried_def demo_platform_def encodeFrame_def length_prefix_def LIMIT_def)

section \<open>The gate\<close>

definition admitted :: "stream_options \<Rightarrow> EnvelopeKeys \<Rightarrow> bool" where
  "admitted opt keys \<longleftrightarrow> (\<exists>r. orooms opt r = Some keys) \<and> (case oadmit opt of None \<Rightarrow> True | Some admit \<Rightarrow> admit (discoveryId keys))"

definition guarded :: "stream_options \<Rightarrow> octets list \<Rightarrow> RoomStream \<Rightarrow> bool" where
  "guarded opt out s \<longleftrightarrow> ssent s = out \<and> (\<forall>c. schannel s = Some c \<longrightarrow> admitted opt (ckeys c)) \<and> length (sbuf s) \<le> LIMIT + 4"

lemma channel_keys [simp]: "ckeys (close_channel c) = ckeys c" "ckeys (receive_frame c v n) = ckeys c"
  by (simp_all add: close_channel_def receive_frame_def)

lemma new_channel_keys: "new_channel P keys l r ro ch rnd now = Inr c \<Longrightarrow> ckeys c = keys"
  by (auto simp: new_channel_def Let_def split: sum.splits prod.splits if_splits)

lemma guarded_close: "guarded opt out s \<Longrightarrow> guarded opt out (close_stream s)"
  by (auto simp: guarded_def close_stream_def)

lemma guarded_open:
  assumes "guarded opt out s" "open_room P opt s frame d = Inr s'"
  shows "guarded opt out s'"
  using assms new_channel_keys
  by (fastforce simp: open_room_def create_responder guarded_def admitted_def split: js_value.splits option.splits sum.splits if_splits)

lemma guarded_hand: "guarded opt out s \<Longrightarrow> guarded opt out (hand_frame s frame n)"
  unfolding hand_frame_def follow_channel_def
  by (auto split: option.splits intro!: guarded_close) (auto simp: guarded_def)

lemma guarded_take: "guarded opt out s \<Longrightarrow> guarded opt out (pass_frame P opt d s f)"
  by (auto simp: pass_frame_def split: option.splits sum.splits intro: guarded_close guarded_hand guarded_open)

lemma guarded_loop: "guarded opt out s \<Longrightarrow> guarded opt out (receive_loop P opt d s)"
proof (induction P opt d s rule: receive_loop.induct)
  case (1 P opt d s)
  have "guarded opt out (s\<lparr>sbuf := drop n (sbuf s)\<rparr>)" for n using "1.prems" by (auto simp: guarded_def)
  with 1 show ?case by (subst receive_loop.simps) (auto simp: Let_def intro: guarded_close guarded_take)
qed

lemma guarded_chunk: "guarded opt out s \<Longrightarrow> guarded opt out (receive_chunk P opt d up s c)"
  unfolding receive_chunk_def by (auto intro!: guarded_close guarded_loop) (auto simp: guarded_def)

text \<open>C32: a stream that a peer opened is silent and bounded until it has shown a room of ours: whatever bytes arrive, in whatever
  pieces, nothing is written in answer, no more than a frame and its header is kept, and a channel exists only for a room
  this device holds the keys of and was willing to admit.\<close>
theorem room_gate:
  assumes "schannel s = None" "length (sbuf s) \<le> LIMIT + 4"
  shows "let r = foldl (\<lambda>s (d, up, c). receive_chunk P opt d up s c) s es in
    ssent r = ssent s \<and> length (sbuf r) \<le> LIMIT + 4 \<and> (schannel r = None \<or> admitted opt (ckeys (the (schannel r))))"
proof -
  have run: "guarded opt (ssent s) u \<Longrightarrow> guarded opt (ssent s) (foldl (\<lambda>s (d, up, c). receive_chunk P opt d up s c) u es)" for u
    by (induction es arbitrary: u) (auto intro: guarded_chunk)
  have "guarded opt (ssent s) s" using assms by (simp add: guarded_def)
  from run [OF this] show ?thesis unfolding Let_def guarded_def
    by (cases "schannel (foldl (\<lambda>s (d, up, c). receive_chunk P opt d up s c) s es)") auto
qed

theorem room_gate_witness:
  "let r = foldl (\<lambda>s (d, up, c). receive_chunk demo_platform demo_options d up s c) (demo_stream\<lparr>schannel := None\<rparr>) [(demo_draws, True, [0, 0, 0, 1, 1])] in
    ssent r = [] \<and> length (sbuf r) \<le> LIMIT + 4 \<and> (schannel r = None \<or> admitted demo_options (ckeys (the (schannel r))))"
  using room_gate [of "demo_stream\<lparr>schannel := None\<rparr>" demo_platform demo_options "[(demo_draws, True, [0, 0, 0, 1, 1])]"]
  by (simp add: demo_stream_def)

section \<open>Lifetime\<close>

definition ended :: "RoomStream \<Rightarrow> bool" where
  "ended s \<longleftrightarrow> scloses s = (if sclosed s then 1 else 0) \<and> saborts s = scloses s \<and>
     (sclosed s \<longrightarrow> \<not> stimer s \<and> sbuf s = [] \<and> (\<forall>c. schannel s = Some c \<longrightarrow> cclosed c)) \<and>
     (\<not> sclosed s \<longrightarrow> (\<forall>c. schannel s = Some c \<longrightarrow> \<not> cclosed c))"

definition running :: "RoomStream \<Rightarrow> bool" where
  "running s \<longleftrightarrow> \<not> sclosed s \<and> scloses s = 0 \<and> saborts s = 0"

lemma close_channel_closes [simp]: "cclosed (close_channel c)"
  by (simp add: close_channel_def)

lemma ended_close: "ended s \<Longrightarrow> ended (close_stream s)"
  by (auto simp: ended_def close_stream_def)

lemma ended_follow: "running s \<Longrightarrow> ended (follow_channel s)"
  by (auto simp: running_def ended_def follow_channel_def close_stream_def split: option.split)

lemma ended_run: "ended s \<Longrightarrow> \<not> sclosed s \<Longrightarrow> running s"
  by (simp add: ended_def running_def)

lemma new_channel_open: "new_channel P keys l r ro ch rnd now = Inr c \<Longrightarrow> \<not> cclosed c"
  by (auto simp: new_channel_def Let_def split: sum.splits prod.splits if_splits)

lemma ended_open: "ended s \<Longrightarrow> \<not> sclosed s \<Longrightarrow> open_room P opt s frame d = Inr s' \<Longrightarrow> ended s' \<and> \<not> sclosed s'"
  using new_channel_open
  by (fastforce simp: open_room_def create_responder ended_def split: js_value.splits option.splits sum.splits if_splits)

lemma ended_hand: "ended s \<Longrightarrow> \<not> sclosed s \<Longrightarrow> ended (hand_frame s frame n)"
  unfolding hand_frame_def by (intro ended_follow) (simp add: ended_def running_def)

lemma ended_take: "ended s \<Longrightarrow> \<not> sclosed s \<Longrightarrow> ended (pass_frame P opt d s f)"
  unfolding pass_frame_def
  by (cases "dec_body P f"; cases "open_room P opt s (the (dec_body P f)) d") (auto intro: ended_close ended_hand dest: ended_open)

lemma ended_buf: "ended s \<Longrightarrow> \<not> sclosed s \<Longrightarrow> ended (s\<lparr>sbuf := b\<rparr>)"
  by (simp add: ended_def)

lemma ended_loop: "ended s \<Longrightarrow> ended (receive_loop P opt d s)"
proof (induction P opt d s rule: receive_loop.induct)
  case (1 P opt d s)
  show ?case
  proof (cases "sclosed s")
    case True
    then show ?thesis using "1.prems" by (simp add: ended_def receive_loop_short)
  next
    case False
    then have "ended (pass_frame P opt d (s\<lparr>sbuf := b\<rparr>) f)" for b f using "1.prems" by (intro ended_take ended_buf) simp_all
    with 1 False show ?thesis by (subst receive_loop.simps) (auto simp: Let_def intro: ended_close)
  qed
qed

lemma process_closed: "cclosed c \<Longrightarrow> cclosed (process_next P c a now) \<and> written (process_next P c a now) = written c \<and> delivered (process_next P c a now) = delivered c"
  using closed_stays [of c P "Process a now"] by simp

lemma send_closed: "cclosed c \<Longrightarrow> cclosed (send_next P c r a) \<and> written (send_next P c r a) = written c \<and> delivered (send_next P c r a) = delivered c"
  using closed_stays [of c P "Send_next r a"] by simp

lemma post_closed: "cclosed (snd (trySend c b)) = cclosed c \<and> (cclosed c \<longrightarrow> snd (trySend c b) = c)"
  by (simp add: trySend_def Let_def channel_verified_def)

lemma write_fields:
  "(e, s') = write_stream P s v up oc up' \<Longrightarrow> sclosed s' = sclosed s \<and> scloses s' = scloses s \<and> saborts s' = saborts s \<and>
     schannel s' = schannel s \<and> (sclosed s \<longrightarrow> s' = s)"
  by (auto simp: write_stream_def Let_def split: if_splits)

lemma ended_job:
  assumes "ended s" "\<And>a c. cclosed c \<Longrightarrow> cclosed (job a c) \<and> written (job a c) = written c"
  shows "ended (channel_job P s job up oc up')"
proof (cases "schannel s")
  case (Some c)
  show ?thesis
  proof (cases "sclosed s")
    case True
    then have "cclosed c" using assms(1) Some by (simp add: ended_def)
    then show ?thesis using True assms Some by (auto simp: channel_job_def follow_channel_def ended_def close_stream_def)
  next
    case False
    then have r: "running s" using assms(1) ended_run by blast
    show ?thesis
    proof (cases "drop (length (written c)) (written (job Write_ok c))")
      case Nil
      then show ?thesis using r Some by (simp add: channel_job_def ended_follow running_def)
    next
      case (Cons f fs)
      obtain e s' where w: "write_stream P s f up oc up' = (e, s')" by (rule prod.exhaust)
      then have "running (s'\<lparr>schannel := x\<rparr>)" for x using write_fields [OF w [symmetric]] r by (simp add: running_def)
      then show ?thesis using Some Cons w by (auto simp: channel_job_def ended_follow split: option.split)
    qed
  qed
qed (use assms in \<open>simp add: channel_job_def\<close>)

lemma ended_step: "ended s \<Longrightarrow> ended (stream_step P opt s e)"
proof (cases e)
  case (Chunk d up b)
  assume "ended s"
  then show ?thesis using Chunk by (auto simp: receive_chunk_def intro: ended_close ended_loop ended_buf)
next
  case (Job up oc up' now)
  assume "ended s"
  then show ?thesis unfolding Job stream_step.simps by (rule ended_job) (simp add: process_closed)
next
  case (Out r up oc up')
  assume "ended s"
  then show ?thesis unfolding Out stream_step.simps by (rule ended_job) (simp add: send_closed)
next
  case (Post b)
  assume "ended s"
  then show ?thesis using Post post_closed by (cases "schannel s") (auto simp: ended_def)
next
  case (Settled up)
  assume "ended s"
  then show ?thesis using Settled by (auto simp: channel_ready_def intro: ended_close split: option.split ready_state.split) (auto simp: ended_def)
qed (auto simp: stream_timeout_def intro: ended_close)

lemma attach_ended:
  assumes "attachRoomStream P opt initiate d up oc up' = Inr s"
  shows "ended s"
proof (cases initiate)
  case None
  then show ?thesis using assms by (auto simp: attachRoomStream_def Let_def ended_def)
next
  case (Some keys)
  let ?s = "\<lparr>schannel = None, sbuf = [], sclosed = False, stimer = True, sready = [], ssent = [], saborts = 0, scloses = 0\<rparr> :: RoomStream"
  from assms Some obtain c where c: "new_channel P keys (olocal opt) (oremote opt) Initiator (challenge d) (session_random d) (clock d) = Inr c"
    by (auto simp: attachRoomStream_def Let_def create_def split: sum.splits)
  show ?thesis
  proof (cases "written c")
    case Nil
    then show ?thesis using assms Some c new_channel_open [OF c] by (auto simp: attachRoomStream_def Let_def create_def ended_def)
  next
    case (Cons hello hs)
    obtain e s' where w: "write_stream P ?s hello up oc up' = (e, s')" by (rule prod.exhaust)
    then have r: "running (s'\<lparr>schannel := x\<rparr>)" for x using write_fields [OF w [symmetric]] by (simp add: running_def)
    show ?thesis
    proof (cases e)
      case None
      then have "s = s'\<lparr>schannel := Some c\<rparr>" using assms Some c Cons w by (simp add: attachRoomStream_def Let_def create_def)
      then show ?thesis using r [of "Some c"] new_channel_open [OF c] by (simp add: running_def ended_def)
    next
      case e: (Some x)
      then have "s = follow_channel (s'\<lparr>schannel := Some (close_channel c)\<rparr>)"
        using assms Some c Cons w by (simp add: attachRoomStream_def Let_def create_def)
      then show ?thesis using r ended_follow by simp
    qed
  qed
qed

definition said :: "RoomStream \<Rightarrow> octets list \<times> string list \<times> byte list list option" where
  \<comment> \<open>what has been sent, announced and delivered\<close>
  "said s = (ssent s, sready s, map_option delivered (schannel s))"

lemma close_again [simp]: "sclosed s \<Longrightarrow> close_stream s = s"
  by (simp add: close_stream_def)

lemma job_frozen:
  assumes "ended s" "sclosed s" "\<And>a c. cclosed c \<Longrightarrow> cclosed (job a c) \<and> written (job a c) = written c \<and> delivered (job a c) = delivered c"
  shows "said (channel_job P s job up oc up') = said s"
proof (cases "schannel s")
  case (Some c)
  then have "cclosed c" using assms(1,2) by (simp add: ended_def)
  then show ?thesis using assms Some by (simp add: channel_job_def follow_channel_def said_def)
qed (simp add: channel_job_def)

lemma follow_closed: "sclosed s \<Longrightarrow> sclosed (follow_channel s)"
  by (simp add: follow_channel_def split: option.split)

lemma closed_frozen:
  assumes "ended s" "sclosed s"
  shows "said (stream_step P opt s e) = said s \<and> sclosed (stream_step P opt s e)"
proof -
  have c: "cclosed c" if "schannel s = Some c" for c using assms that by (simp add: ended_def)
  have "sclosed (channel_job P s job up oc up')" for job up oc up'
    using assms(2) by (simp add: channel_job_def write_stream_def follow_closed split: option.split list.split)
  note jobs = this
  show ?thesis
  proof (cases e)
    case (Job up oc up' now)
    then show ?thesis using jobs job_frozen [OF assms] process_closed by simp
  next
    case (Out r up oc up')
    then show ?thesis using jobs job_frozen [OF assms] send_closed by simp
  next
    case (Post b)
    then show ?thesis using assms(2) c post_closed by (cases "schannel s") (simp_all add: said_def)
  next
    case (Settled up)
    then show ?thesis using assms(2) by (simp add: channel_ready_def split: option.split ready_state.split)
  qed (use assms(2) in \<open>simp_all add: receive_chunk_def stream_timeout_def\<close>)
qed

text \<open>A room stream ends once and for good: whatever arrives, is sent, settles or times out on it, its owner is told of its
  close exactly once, when it closes, and after that it sends no frame, announces no channel and delivers no message.\<close>
theorem stream_ends_once:
  assumes "attachRoomStream P opt initiate d up oc up' = Inr s0"
  shows "let s = foldl (stream_step P opt) s0 es in
    scloses s = (if sclosed s then 1 else 0) \<and> (sclosed s \<longrightarrow> said (foldl (stream_step P opt) s es') = said s)"
proof -
  have run: "ended u \<Longrightarrow> ended (foldl (stream_step P opt) u xs)" for u xs by (induction xs arbitrary: u) (simp_all add: ended_step)
  have frozen: "ended u \<Longrightarrow> sclosed u \<Longrightarrow> said (foldl (stream_step P opt) u xs) = said u" for u xs
    by (induction xs arbitrary: u) (simp_all add: ended_step closed_frozen)
  have "ended (foldl (stream_step P opt) s0 es)" by (rule run [OF attach_ended [OF assms]])
  then show ?thesis using frozen unfolding Let_def ended_def by blast
qed

theorem stream_ends_once_witness:
  "let s = foldl (stream_step demo_platform demo_options)
       (demo_stream\<lparr>schannel := None, stimer := True\<rparr>) [Chunk demo_draws True [0, 0], Timeout] in
    scloses s = (if sclosed s then 1 else 0) \<and>
    (\<not> sclosed s \<or> said (foldl (stream_step demo_platform demo_options) s [Shut, Chunk demo_draws True [0]]) = said s)"
proof -
  have "attachRoomStream demo_platform demo_options None demo_draws True Accepted True = Inr (demo_stream\<lparr>schannel := None, stimer := True\<rparr>)"
    by (simp add: attachRoomStream_def Let_def demo_stream_def)
  from stream_ends_once [OF this, of "[Chunk demo_draws True [0, 0], Timeout]" "[Shut, Chunk demo_draws True [0]]"]
  show ?thesis unfolding Let_def by blast
qed

end
