(* ===== verification/Js_Parse.thy ===== *)
theory Js_Parse
  imports Js_Text
begin

text \<open>
  Reading a JSON text back. \<open>json_read\<close> is a reader for the texts that \<^verbatim>\<open>JSON.stringify\<close> gives; it is a concrete
  function that has what the components rely on of \<^verbatim>\<open>JSON.parse\<close> and \<^verbatim>\<open>TextDecoder\<close>: the locale \<open>text_reader\<close>
  states it, and is interpreted here.
\<close>

fun read_string :: "nat \<Rightarrow> string \<Rightarrow> (string \<times> string) option" where
  \<comment> \<open>the rest of a string, after its opening quote\<close>
  "read_string 0 s = None"
| "read_string (Suc n) s =
     (if s = [] then None else if hd s = CHR 0x22 then Some ([], tl s)
      else map_option (\<lambda>(t, r). (fst (quote_read s) # t, r)) (read_string n (snd (quote_read s))))"

definition read_int :: "string \<Rightarrow> int" where
  "read_int t = (if hd t = CHR ''-'' then - int (parse_digits (tl t)) else int (parse_digits t))"

definition read_number :: "string \<Rightarrow> (js_value \<times> string) option" where
  "read_number s =
     (let t = takeWhile num_char s in
      if t = [] then None
      else Some (JNum (if CHR ''.'' \<in> set t \<or> CHR ''e'' \<in> set t then JNonInt t else JInt (read_int t)), dropWhile num_char s))"

fun json_read :: "nat \<Rightarrow> string \<Rightarrow> (js_value \<times> string) option"
  and read_items :: "nat \<Rightarrow> string \<Rightarrow> (js_value list \<times> string) option"
  and read_props :: "nat \<Rightarrow> string \<Rightarrow> ((string \<times> js_value) list \<times> string) option" where
  "json_read 0 s = None"
| "json_read (Suc n) s =
     (if s = [] then None
      else if hd s = CHR 0x22 then map_option (\<lambda>(t, r). (JStr t, r)) (read_string n (tl s))
      else if hd s = CHR ''['' then
        (if take 1 (tl s) = '']'' then Some (JArr [], drop 2 s) else map_option (\<lambda>(vs, r). (JArr vs, r)) (read_items n (tl s)))
      else if hd s = CHR ''{'' then
        (if take 1 (tl s) = ''}'' then Some (JObj [], drop 2 s) else map_option (\<lambda>(ps, r). (JObj ps, r)) (read_props n (tl s)))
      else if hd s = CHR ''n'' then Some (JNull, drop 4 s)
      else if hd s = CHR ''t'' then Some (JBool True, drop 4 s)
      else if hd s = CHR ''f'' then Some (JBool False, drop 5 s)
      else read_number s)"
| "read_items 0 s = None"
| "read_items (Suc n) s =
     (case json_read n s of
        None \<Rightarrow> None
      | Some (v, r) \<Rightarrow>
          if take 1 r = '','' then map_option (\<lambda>(vs, r). (v # vs, r)) (read_items n (tl r))
          else if take 1 r = '']'' then Some ([v], tl r) else None)"
| "read_props 0 s = None"
| "read_props (Suc n) s =
     (case (if take 1 s = [CHR 0x22] then read_string n (tl s) else None) of
        None \<Rightarrow> None
      | Some (k, r) \<Rightarrow>
          (case (if take 1 r = '':'' then json_read n (tl r) else None) of
             None \<Rightarrow> None
           | Some (v, r) \<Rightarrow>
               if take 1 r = '','' then map_option (\<lambda>(ps, r). ((k, v) # ps, r)) (read_props n (tl r))
               else if take 1 r = ''}'' then Some ([(k, v)], tl r) else None))"

definition json_parse :: "string \<Rightarrow> js_value option" where
  "json_parse s = (case json_read (length s) s of Some (v, []) \<Rightarrow> Some v | _ \<Rightarrow> None)"

fun utf8_decode :: "nat \<Rightarrow> 8 word list \<Rightarrow> string" where
  "utf8_decode 0 ws = []"
| "utf8_decode (Suc n) ws = (if ws = [] then [] else fst (utf8_read ws) # utf8_decode n (snd (utf8_read ws)))"

section \<open>Reading what was written\<close>

lemma quote_char_length: "quote_char c \<noteq> []"
  by (simp add: quote_char_def Let_def)

lemma read_string_quote:
  "length (concat (map quote_char s)) < n \<Longrightarrow> read_string n (concat (map quote_char s) @ CHR 0x22 # r) = Some (s, r)"
proof (induction s arbitrary: n)
  case Nil
  then show ?case by (cases n) simp_all
next
  case (Cons c s)
  obtain m where n: "n = Suc m" using Cons.prems by (cases n) simp_all
  let ?x = "concat (map quote_char s) @ CHR 0x22 # r"
  have "length (concat (map quote_char s)) < m" using Cons.prems n quote_char_length [of c] by (cases "quote_char c") simp_all
  moreover have "quote_char c @ ?x \<noteq> []" "hd (quote_char c @ ?x) \<noteq> CHR 0x22" using quote_hd quote_char_length by simp_all
  ultimately show ?case using Cons.IH [of m] by (simp add: n quote_read_char del: read_string.simps(2)) (subst read_string.simps(2), simp add: quote_read_char)
qed

lemma read_json_quote:
  "length (json_quote s) \<le> n \<Longrightarrow> read_string n (tl (json_quote s @ r)) = Some (s, r)"
  using read_string_quote [of s n r] by (simp add: json_quote_def)

lemma read_int_show: "read_int (show_int i) = i"
proof (cases "i < 0")
  case True
  then show ?thesis by (simp add: read_int_def show_int_def)
next
  case False
  have "hd (show_nat (nat i)) \<noteq> CHR ''-''" using show_nat_digits [of "nat i"] by (cases "show_nat (nat i)") (auto simp: is_digit_def)
  then show ?thesis using False by (simp add: read_int_def show_int_def)
qed

lemma read_number_text:
  assumes "json_value (JNum m)" "stops r"
  shows "read_number (json_text (JNum m) @ r) = Some (JNum m, r)"
proof -
  let ?t = "json_text (JNum m)"
  have num: "list_all num_char ?t"
    using assms(1) show_int_num by (cases m) (auto simp: fraction_finite, simp add: fraction_text_def)
  have w: "takeWhile num_char (?t @ r) = ?t" "dropWhile num_char (?t @ r) = r"
    using num assms(2) num_stop by (cases r; auto simp: takeWhile_append dropWhile_append list_all_iff)+
  have ne: "?t \<noteq> []" using text_starts [OF assms(1)] by simp
  show ?thesis
  proof (cases m)
    case (JInt i)
    then show ?thesis unfolding read_number_def w Let_def using ne show_int_plain [of i] by (simp add: read_int_show)
  next
    case (JNonInt t)
    then have "fraction_text t" "?t = t" using assms(1) by (simp_all add: fraction_finite)
    then show ?thesis unfolding read_number_def w Let_def using ne JNonInt by (auto simp: fraction_text_def)
  qed
qed

lemma js_join_ne: "xs \<noteq> [] \<Longrightarrow> js_join '','' (x # xs) = x @ '','' @ js_join '','' xs"
  by (cases xs) simp_all

lemma take1: "take 1 (a @ b) = (if a = [] then take 1 b else [hd a])"
  by (cases a) auto

definition reads_back :: "js_value \<Rightarrow> bool" where
  "reads_back v \<longleftrightarrow> (\<forall>n r. length (json_text v) \<le> n \<longrightarrow> stops r \<longrightarrow> json_read n (json_text v @ r) = Some (v, r))"

lemma read_items_text:
  assumes "list_all reads_back vs" "vs \<noteq> []" "length (js_join '','' (map json_text vs)) < n"
  shows "read_items n (js_join '','' (map json_text vs) @ CHR '']'' # r) = Some (vs, r)"
  using assms
proof (induction vs arbitrary: n)
  case (Cons v vs)
  obtain m where n: "n = Suc m" using Cons.prems by (cases n) simp_all
  show ?case
  proof (cases "vs = []")
    case True
    then have "json_read m (json_text v @ CHR '']'' # r) = Some (v, CHR '']'' # r)"
      using Cons.prems n by (simp add: reads_back_def stops_def)
    then show ?thesis using True n by simp
  next
    case False
    let ?x = "js_join '','' (map json_text vs) @ CHR '']'' # r"
    have "json_read m (json_text v @ CHR '','' # ?x) = Some (v, CHR '','' # ?x)"
      using Cons.prems n False by (simp add: reads_back_def stops_def js_join_ne)
    moreover have "read_items m ?x = Some (vs, r)" using Cons.IH [of m] Cons.prems n False by (simp add: js_join_ne)
    ultimately show ?thesis using False n by (simp add: js_join_ne)
  qed
qed simp

lemma read_props_text:
  assumes "list_all (\<lambda>(k, v). reads_back v) ps" "ps \<noteq> []" "length (js_join '','' (map (\<lambda>(k, v). json_quote k @ '':'' @ json_text v) ps)) < n"
  shows "read_props n (js_join '','' (map (\<lambda>(k, v). json_quote k @ '':'' @ json_text v) ps) @ CHR ''}'' # r) = Some (ps, r)"
  using assms
proof (induction ps arbitrary: n)
  case (Cons p ps)
  obtain m where n: "n = Suc m" using Cons.prems by (cases n) simp_all
  obtain k v where p: "p = (k, v)" by (rule prod.exhaust)
  have one: "read_props (Suc m) (json_quote k @ CHR '':'' # json_text v @ c # x) =
      (if c = CHR '','' then map_option (\<lambda>(ps, r). ((k, v) # ps, r)) (read_props m x) else if c = CHR ''}'' then Some ([(k, v)], x) else None)"
    if "length (json_quote k) \<le> m" "length (json_text v) \<le> m" "c \<in> set '',}''" for c x
  proof -
    have "take 1 (json_quote k @ y) = [CHR 0x22]" for y by (simp add: json_quote_def)
    moreover have "json_read m (json_text v @ c # x) = Some (v, c # x)"
    proof -
      have "stops (c # x)" using that(3) by (auto simp: stops_def)
      moreover have "reads_back v" using Cons.prems(1) p by simp
      ultimately show ?thesis using that(2) unfolding reads_back_def by blast
    qed
    ultimately show ?thesis using read_json_quote [OF that(1)] by simp
  qed
  show ?case
  proof (cases "ps = []")
    case True
    then show ?thesis using one [of "CHR ''}''" r] Cons.prems(3) n p by simp
  next
    case False
    let ?j = "js_join '','' (map (\<lambda>(k, v). json_quote k @ '':'' @ json_text v) ps)"
    have "read_props m (?j @ CHR ''}'' # r) = Some (ps, r)" using Cons.IH [of m] Cons.prems n False by (simp add: js_join_ne)
    then show ?thesis using one [of "CHR '',''" "?j @ CHR ''}'' # r"] Cons.prems(3) n p False by (simp add: js_join_ne)
  qed
qed simp

lemma join_hd: "xs \<noteq> [] \<Longrightarrow> hd xs \<noteq> [] \<Longrightarrow> take 1 (js_join '','' xs @ y) = [hd (hd xs)]"
proof (cases xs)
  case (Cons x ys)
  assume "hd xs \<noteq> []"
  then obtain c z where "x = c # z" using Cons by (cases x) simp_all
  then show ?thesis using Cons by (cases ys) simp_all
qed simp

lemma json_reads_back: "json_value v \<Longrightarrow> reads_back v"
proof (induction v)
  case (JNum m)
  show ?case unfolding reads_back_def
  proof (intro allI impI)
    fix n r assume "length (json_text (JNum m)) \<le> n" "stops r"
    moreover note t = text_starts [OF JNum]
    ultimately obtain k where k: "n = Suc k" by (cases n) auto
    have "hd (json_text (JNum m)) \<notin> set (CHR 0x22 # ''[{ntf'')"
      using t by (auto simp: text_class_def char_class_def split: if_splits)
    then show "json_read n (json_text (JNum m) @ r) = Some (JNum m, r)"
      using read_number_text [OF JNum \<open>stops r\<close>] t by (simp add: k del: json_text.simps)
  qed
next
  case (JStr s)
  show ?case unfolding reads_back_def
  proof (intro allI impI)
    fix n r assume n: "length (json_text (JStr s)) \<le> n" "stops r"
    then obtain k where k: "n = Suc k" by (cases n) (auto simp: json_quote_def)
    then have "length (concat (map quote_char s)) < k" using n by (simp add: json_quote_def)
    from read_string_quote [OF this, of r] show "json_read n (json_text (JStr s) @ r) = Some (JStr s, r)" by (simp add: k json_quote_def)
  qed
next
  case (JArr vs)
  show ?case unfolding reads_back_def
  proof (intro allI impI)
    fix n r assume n: "length (json_text (JArr vs)) \<le> n" "stops r"
    then obtain k where k: "n = Suc k" by (cases n) auto
    show "json_read n (json_text (JArr vs) @ r) = Some (JArr vs, r)"
    proof (cases "vs = []")
      case False
      have all: "list_all reads_back vs" using JArr by (simp add: list_all_iff)
      have t: "json_text (hd vs) \<noteq> []" "hd (json_text (hd vs)) \<noteq> CHR '']''"
        using False JArr.prems text_starts [of "hd vs"] by (auto simp: list_all_iff)
      have "take 1 (js_join '','' (map json_text vs) @ CHR '']'' # r) = [hd (json_text (hd vs))]"
        using join_hd [of "map json_text vs"] False t(1) by (simp add: list.map_sel)
      moreover have "read_items k (js_join '','' (map json_text vs) @ CHR '']'' # r) = Some (vs, r)"
        using read_items_text [OF all False] n k by simp
      ultimately show ?thesis using t(2) by (simp add: k)
    qed (simp add: k)
  qed
next
  case (JObj ps)
  show ?case unfolding reads_back_def
  proof (intro allI impI)
    fix n r assume n: "length (json_text (JObj ps)) \<le> n" "stops r"
    then obtain k where k: "n = Suc k" by (cases n) auto
    have "filter (\<lambda>(k, v). v \<noteq> JUndefined) ps = ps" using JObj.prems by (auto simp: list_all_iff filter_id_conv)
    then have tx: "json_text (JObj ps) = ''{'' @ js_join '','' (map (\<lambda>(k, v). json_quote k @ '':'' @ json_text v) ps) @ ''}''" by simp
    show "json_read n (json_text (JObj ps) @ r) = Some (JObj ps, r)"
    proof (cases "ps = []")
      case False
      have all: "list_all (\<lambda>(k, v). reads_back v) ps" using JObj by (fastforce simp: list_all_iff)
      have "take 1 (js_join '','' (map (\<lambda>(k, v). json_quote k @ '':'' @ json_text v) ps) @ CHR ''}'' # r) = [CHR 0x22]"
        using join_hd [of "map (\<lambda>(k, v). json_quote k @ '':'' @ json_text v) ps"] False
        by (simp add: list.map_sel json_quote_def split: prod.split)
      moreover have "read_props k (js_join '','' (map (\<lambda>(k, v). json_quote k @ '':'' @ json_text v) ps) @ CHR ''}'' # r) = Some (ps, r)"
        using read_props_text [OF all False] n k tx by simp
      ultimately show ?thesis unfolding tx by (simp add: k)
    qed (simp add: k)
  qed
next
  case JNull
  show ?case unfolding reads_back_def by (intro allI impI) (case_tac n; simp)
next
  case (JBool b)
  show ?case unfolding reads_back_def by (cases b) (simp; intro allI impI; case_tac n; simp)+
qed simp

lemma json_parse_text: "json_value v \<Longrightarrow> json_parse (json_text v) = Some v"
proof -
  assume "json_value v"
  then have "json_read (length (json_text v)) (json_text v @ []) = Some (v, [])"
    using json_reads_back unfolding reads_back_def by (metis order_refl stops_def list.simps(4))
  then show ?thesis by (simp add: json_parse_def)
qed

lemma utf8_decode_encode: "length (utf8 s) \<le> n \<Longrightarrow> utf8_decode n (utf8 s) = s"
proof (induction s arbitrary: n)
  case Nil
  then show ?case by (cases n) (simp_all add: utf8_def)
next
  case (Cons c s)
  have "utf8_char c \<noteq> []" by (simp add: utf8_char_def Let_def)
  then obtain k where k: "n = Suc k" "length (utf8 s) \<le> k" using Cons.prems by (cases n; cases "utf8_char c") (auto simp: utf8_def)
  then show ?case using Cons.IH [OF k(2)] \<open>utf8_char c \<noteq> []\<close> utf8_read_char [of c "utf8 s"] by (simp add: utf8_def)
qed

section \<open>What is relied on\<close>

fun plain_json :: "js_value \<Rightarrow> bool" where
  \<comment> \<open>a value that \<^verbatim>\<open>JSON.parse\<close> gives back as it was: numbers are safe integers, and no object has two properties of one name
    or a name made of digits, which an object would move to the front\<close>
  "plain_json JUndefined \<longleftrightarrow> False"
| "plain_json JNull \<longleftrightarrow> True"
| "plain_json (JBool b) \<longleftrightarrow> True"
| "plain_json (JNum (JInt i)) \<longleftrightarrow> \<bar>i\<bar> \<le> MAX_SAFE_INTEGER"
| "plain_json (JNum (JNonInt t)) \<longleftrightarrow> False"
| "plain_json (JStr s) \<longleftrightarrow> True"
| "plain_json (JArr vs) \<longleftrightarrow> list_all plain_json vs"
| "plain_json (JObj ps) \<longleftrightarrow> distinct (map fst ps) \<and> list_all (\<lambda>(k, v). k \<noteq> [] \<and> \<not> list_all is_digit k \<and> plain_json v) ps"

lemma plain_json_value: "plain_json v \<Longrightarrow> json_value v"
  by (induction v rule: plain_json.induct) (auto simp: list_all_iff)

locale text_reader =
  fixes decode :: "8 word list \<Rightarrow> string"
    and parse :: "string \<Rightarrow> js_value option"
  assumes decode_encode: "decode (utf8 s) = s"
    and parse_text: "plain_json v \<Longrightarrow> parse (json_text v) = Some v"
begin

lemma read_back: "plain_json v \<Longrightarrow> parse (decode (utf8 (json_text v))) = Some v"
  by (simp add: decode_encode parse_text)

end

definition decode_all :: "8 word list \<Rightarrow> string" where
  "decode_all ws = utf8_decode (length ws) ws"

interpretation model_reader: text_reader decode_all json_parse
  by unfold_locales (simp_all add: decode_all_def utf8_decode_encode json_parse_text plain_json_value)

end
