(* ===== verification/Dm_Codec.thy ===== *)
theory Dm_Codec
  imports Js_Parse Message_Id
begin

text \<open>
  Direct messages on the wire, \<^verbatim>\<open>frontend/src/lib/transport/dm-codec.ts\<close>: envelopes of one tag byte and a payload (a
  chat line, a delivery receipt, a read receipt), their checks on arrival, and the room code of a pair
  of identities. \<open>JSON.parse\<close> and \<open>TextDecoder\<close> are the operations of \<open>text_reader\<close>; SHA-256 is an argument.
\<close>

definition MAX_DM_TEXT_LENGTH :: nat where "MAX_DM_TEXT_LENGTH = 16384"
definition MAX_DM_READ_IDS :: nat where "MAX_DM_READ_IDS = 200"
definition DM_CHAT_TAG :: "8 word" where "DM_CHAT_TAG = 0x01"
definition DM_ACK_TAG :: "8 word" where "DM_ACK_TAG = 0x02"
definition DM_READ_TAG :: "8 word" where "DM_READ_TAG = 0x03"
definition DM_ROOM_PREFIX :: string where "DM_ROOM_PREFIX = ''dm-''"

section \<open>The room of a pair\<close>

type_synonym code_cache = "(string, string) jsmap"

fun str_less :: "string \<Rightarrow> string \<Rightarrow> bool" where
  \<comment> \<open>the order of \<^verbatim>\<open>Array.prototype.sort\<close> on strings, by code units\<close>
  "str_less a [] = False"
| "str_less [] (d # b) = True"
| "str_less (c # a) (d # b) = ((of_char c :: nat) < of_char d \<or> c = d \<and> str_less a b)"

definition pair_input :: "string \<Rightarrow> string \<Rightarrow> string" where
  "pair_input did1 did2 = js_join ''|'' (if str_less did2 did1 then [did2, did1] else [did1, did2])"

definition dm_code :: "(8 word list \<Rightarrow> 8 word list) \<Rightarrow> string \<Rightarrow> string" where
  "dm_code sha input = DM_ROOM_PREFIX @ concat (map hex_byte (take 20 (sha (utf8 input))))"

definition hashDmRoomCode :: "(8 word list \<Rightarrow> 8 word list) \<Rightarrow> code_cache \<Rightarrow> string \<Rightarrow> string \<Rightarrow> string \<times> code_cache" where
  "hashDmRoomCode sha cache did1 did2 =
     (let input = pair_input did1 did2; cached = js_get cache input in
      if cached \<noteq> None \<and> cached \<noteq> Some [] then (the cached, cache)
      else (dm_code sha input, js_set cache input (dm_code sha input)))"

section \<open>Envelopes\<close>

definition tagged :: "8 word \<Rightarrow> 8 word list \<Rightarrow> 8 word list" where
  "tagged tag body = tag # body"

definition encodeDmChatEnvelope :: "js_value \<Rightarrow> 8 word list" where
  "encodeDmChatEnvelope payload = tagged DM_CHAT_TAG (utf8 (json_text payload))"

definition encodeDmAckEnvelope :: "string \<Rightarrow> 8 word list" where
  "encodeDmAckEnvelope messageId = tagged DM_ACK_TAG (utf8 messageId)"

definition encodeDmReadEnvelope :: "string list \<Rightarrow> 8 word list" where
  "encodeDmReadEnvelope messageIds = tagged DM_READ_TAG (utf8 (json_text (JArr (map JStr messageIds))))"

datatype dm_envelope = Chat js_value | Ack string | Read "js_value list"

definition delete_prop :: "js_value \<Rightarrow> string \<Rightarrow> js_value" where
  "delete_prop v k = (case v of JObj ps \<Rightarrow> JObj (filter (\<lambda>p. fst p \<noteq> k) ps) | _ \<Rightarrow> v)"

definition is_js_number :: "js_value \<Rightarrow> bool" where
  "is_js_number v = (case v of JNum _ \<Rightarrow> True | _ \<Rightarrow> False)"

definition string_length :: "js_value \<Rightarrow> nat" where
  "string_length v = (case v of JStr s \<Rightarrow> length s | _ \<Rightarrow> 0)"

definition reply_ok :: "js_value \<Rightarrow> bool" where
  "reply_ok r \<longleftrightarrow> is_js_string (js_prop r ''id'') \<and> is_js_string (js_prop r ''senderName'') \<and> is_js_string (js_prop r ''content'')"

definition reaction_ok :: "js_value \<Rightarrow> bool" where
  "reaction_ok r \<longleftrightarrow> is_js_string (js_prop r ''to'') \<and> is_js_string (js_prop r ''emoji'') \<and>
     (js_prop r ''op'' = JStr ''add'' \<or> js_prop r ''op'' = JStr ''remove'')"

definition lamport_ok :: "js_value \<Rightarrow> bool" where
  "lamport_ok l \<longleftrightarrow> l = JUndefined \<or> isSafeInteger l \<and> 0 \<le> as_int l \<and> as_int l < MAX_SAFE_INTEGER"

definition strip_unless :: "(js_value \<Rightarrow> bool) \<Rightarrow> string \<Rightarrow> js_value \<Rightarrow> js_value" where
  "strip_unless ok k v = (if js_truthy (js_prop v k) \<and> \<not> ok (js_prop v k) then delete_prop v k else v)"

definition parse_chat :: "js_value \<Rightarrow> dm_envelope option" where
  "parse_chat parsed =
     (if \<not> is_js_string (js_prop parsed ''id'') \<or> \<not> is_js_string (js_prop parsed ''text'') \<or>
         MAX_DM_TEXT_LENGTH < string_length (js_prop parsed ''text'') \<or> \<not> is_js_number (js_prop parsed ''ts'')
      then None
      else if \<not> lamport_ok (js_prop parsed ''lamport'') then None
      else Some (Chat (strip_unless reaction_ok ''reaction'' (strip_unless reply_ok ''replyTo'' parsed))))"

definition parse_read :: "js_value \<Rightarrow> dm_envelope option" where
  "parse_read ids = (case ids of
     JArr vs \<Rightarrow> if MAX_DM_READ_IDS < length vs \<or> list_ex (\<lambda>v. \<not> is_js_string v) vs then None
               else Some (Read vs)
   | _ \<Rightarrow> None)"

definition parseDmEnvelope :: "(8 word list \<Rightarrow> string) \<Rightarrow> (string \<Rightarrow> js_value option) \<Rightarrow> 8 word list \<Rightarrow> dm_envelope option" where
  "parseDmEnvelope decode parse data =
     (case data of
        [] \<Rightarrow> None
      | tag # payload \<Rightarrow>
          if tag = DM_CHAT_TAG then Option.bind (parse (decode payload)) parse_chat
          else if tag = DM_ACK_TAG then Some (Ack (decode payload))
          else if tag = DM_READ_TAG then Option.bind (parse (decode payload)) parse_read
          else None)"

section \<open>What comes out\<close>

definition strings_at :: "js_value \<Rightarrow> string list \<Rightarrow> bool" where
  "strings_at v ks \<longleftrightarrow> (\<forall>k \<in> set ks. \<exists>s. js_prop v k = JStr s)"

definition chat_ok :: "js_value \<Rightarrow> bool" where
  \<comment> \<open>the interface \<^verbatim>\<open>DmPayload\<close> with its bounds, except that an optional \<^verbatim>\<open>replyTo\<close> or \<^verbatim>\<open>reaction\<close> may also be null, false, zero or empty\<close>
  "chat_ok v \<longleftrightarrow> strings_at v [''id'', ''text''] \<and> (\<forall>t. js_prop v ''text'' = JStr t \<longrightarrow> length t \<le> 16384) \<and>
     (\<exists>n. js_prop v ''ts'' = JNum n) \<and>
     (js_prop v ''lamport'' = JUndefined \<or> (\<exists>l. js_prop v ''lamport'' = JNum (JInt l) \<and> 0 \<le> l \<and> l < 2 ^ 53 - 1)) \<and>
     (js_truthy (js_prop v ''replyTo'') \<longrightarrow> strings_at (js_prop v ''replyTo'') [''id'', ''senderName'', ''content'']) \<and>
     (js_truthy (js_prop v ''reaction'') \<longrightarrow> strings_at (js_prop v ''reaction'') [''to'', ''emoji'', ''op''] \<and>
        js_prop (js_prop v ''reaction'') ''op'' \<in> {JStr ''add'', JStr ''remove''})"

fun envelope_ok :: "dm_envelope \<Rightarrow> bool" where
  "envelope_ok (Chat v) = chat_ok v"
| "envelope_ok (Ack i) = True"
| "envelope_ok (Read ids) = (length ids \<le> 200 \<and> list_all (\<lambda>v. \<exists>s. v = JStr s) ids)"

lemma delete_prop_prop [simp]: "js_prop (delete_prop v k) k' = (if k = k' then JUndefined else js_prop v k')"
proof (cases v)
  case (JObj ps)
  have "map_of (filter (\<lambda>p. fst p \<noteq> k) ps) k' = (if k = k' then None else map_of ps k')" by (induction ps) auto
  then show ?thesis using JObj by (simp add: delete_prop_def)
qed (simp_all add: delete_prop_def)

lemma strip_unless_prop:
  "js_prop (strip_unless ok k v) k' = (if k = k' \<and> js_truthy (js_prop v k) \<and> \<not> ok (js_prop v k) then JUndefined else js_prop v k')"
  by (auto simp: strip_unless_def)

lemma strip_unless_ok: "(js_truthy (js_prop v k) \<longrightarrow> ok (js_prop v k)) \<Longrightarrow> strip_unless ok k v = v"
  by (auto simp: strip_unless_def)

lemma is_js_string_iff: "is_js_string v \<longleftrightarrow> (\<exists>s. v = JStr s)"
  by (cases v) simp_all

lemma reply_ok_iff: "reply_ok r \<longleftrightarrow> strings_at r [''id'', ''senderName'', ''content'']"
  by (simp add: reply_ok_def strings_at_def is_js_string_iff)

lemma reaction_ok_iff:
  "reaction_ok r \<longleftrightarrow> strings_at r [''to'', ''emoji'', ''op''] \<and> js_prop r ''op'' \<in> {JStr ''add'', JStr ''remove''}"
  by (auto simp: reaction_ok_def strings_at_def is_js_string_iff)

lemma lamport_ok_iff: "lamport_ok l \<longleftrightarrow> l = JUndefined \<or> (\<exists>i. l = JNum (JInt i) \<and> 0 \<le> i \<and> i < 2 ^ 53 - 1)"
  by (auto simp: lamport_ok_def isSafeInteger_iff)

lemma is_js_number_iff: "is_js_number v \<longleftrightarrow> (\<exists>n. v = JNum n)"
  by (cases v) (simp_all add: is_js_number_def)

lemma chat_ok_iff:
  "chat_ok v \<longleftrightarrow> is_js_string (js_prop v ''id'') \<and> is_js_string (js_prop v ''text'') \<and>
     string_length (js_prop v ''text'') \<le> MAX_DM_TEXT_LENGTH \<and> is_js_number (js_prop v ''ts'') \<and> lamport_ok (js_prop v ''lamport'') \<and>
     (js_truthy (js_prop v ''replyTo'') \<longrightarrow> reply_ok (js_prop v ''replyTo'')) \<and>
     (js_truthy (js_prop v ''reaction'') \<longrightarrow> reaction_ok (js_prop v ''reaction''))"
  unfolding chat_ok_def lamport_ok_iff reply_ok_iff reaction_ok_iff is_js_number_iff
  by (auto simp: strings_at_def is_js_string_iff string_length_def MAX_DM_TEXT_LENGTH_def)

lemma parse_chat_ok: "parse_chat v = Some (Chat w) \<Longrightarrow> chat_ok w"
  unfolding chat_ok_iff parse_chat_def by (auto simp: strip_unless_prop split: if_splits)

lemma parse_chat_Chat: "parse_chat v = Some e \<Longrightarrow> \<exists>w. e = Chat w"
  by (auto simp: parse_chat_def split: if_splits)

lemma parse_chat_id: "chat_ok v \<Longrightarrow> parse_chat v = Some (Chat v)"
  unfolding chat_ok_iff parse_chat_def by (simp add: strip_unless_ok)

lemma parse_read_id: "length ids \<le> MAX_DM_READ_IDS \<Longrightarrow> parse_read (JArr (map JStr ids)) = Some (Read (map JStr ids))"
  by (simp add: parse_read_def list_ex_iff)

text \<open>C34: whatever bytes a peer sends and however they decode, what the parser of direct messages lets through can be handled: a chat
  line has a string for its id, a string of at most 16384 characters for its text and a number for its time, its lamport is absent or
  a safe integer that is not negative and not the largest, and its quote and its reaction are complete or falsy (absent, null,
  false, zero or empty: the parser tests them for truth only); a read receipt holds at most 200 values, all of them strings.\<close>
theorem dm_envelope_typed: "pred_option envelope_ok (parseDmEnvelope decode parse data)"
proof -
  have chat: "pred_option envelope_ok (parse_chat v)" for v
    using parse_chat_Chat [of v] parse_chat_ok [of v] by (cases "parse_chat v") auto
  have read: "pred_option envelope_ok (parse_read v)" for v
    by (auto simp: parse_read_def MAX_DM_READ_IDS_def list_ex_iff list_all_iff is_js_string_iff split: js_value.split)
  show ?thesis unfolding parseDmEnvelope_def using chat read by (auto split: list.split simp: bind_eq_Some_conv pred_option_def)
qed

text \<open>C35: what is sent in a direct message within the limits is what is received. On any reader that gives encoded text back, a chat line
  whose text has at most 16384 characters, whose lamport is in range, whose optional parts are complete and whose numbers are safe integers
  comes out of the parser as it went into the encoder; so does every delivery receipt, and every read receipt of at most 200 ids.\<close>
theorem dm_roundtrip:
  assumes "text_reader decode parse"
  shows "(plain_json v \<and> chat_ok v \<longrightarrow> parseDmEnvelope decode parse (encodeDmChatEnvelope v) = Some (Chat v)) \<and>
         parseDmEnvelope decode parse (encodeDmAckEnvelope i) = Some (Ack i) \<and>
         (length ids \<le> MAX_DM_READ_IDS \<longrightarrow> parseDmEnvelope decode parse (encodeDmReadEnvelope ids) = Some (Read (map JStr ids)))"
proof -
  have ids: "plain_json (JArr (map JStr ids))" by (simp add: list_all_iff)
  have chat: "parse (decode (utf8 (json_text w))) = Some w" if "plain_json w" for w
    by (rule text_reader.read_back [OF assms that])
  have dec: "decode (utf8 i) = i" by (rule text_reader.decode_encode [OF assms])
  show ?thesis
    unfolding parseDmEnvelope_def encodeDmChatEnvelope_def encodeDmAckEnvelope_def encodeDmReadEnvelope_def tagged_def list.case
      DM_CHAT_TAG_def DM_ACK_TAG_def DM_READ_TAG_def dec chat [OF ids]
    by (simp add: chat parse_chat_id parse_read_id)
qed

definition demo_chat :: js_value where
  "demo_chat = JObj [(''id'', JStr ''1''), (''text'', JStr ''hi''), (''ts'', JNum (JInt 5)), (''lamport'', JNum (JInt 2)),
     (''reaction'', JObj [(''to'', JStr ''0''), (''emoji'', JStr ''!''), (''op'', JStr ''add'')])]"

theorem dm_roundtrip_witness:
  "parseDmEnvelope decode_all json_parse (encodeDmChatEnvelope demo_chat) = Some (Chat demo_chat) \<and>
   parseDmEnvelope decode_all json_parse (encodeDmAckEnvelope ''1'') = Some (Ack ''1'') \<and>
   parseDmEnvelope decode_all json_parse (encodeDmReadEnvelope [''1'', ''2'']) = Some (Read [JStr ''1'', JStr ''2''])"
proof -
  have "plain_json demo_chat \<and> chat_ok demo_chat"
    by (simp add: demo_chat_def is_digit_def chat_ok_iff reaction_ok_def lamport_ok_def is_js_number_def string_length_def MAX_DM_TEXT_LENGTH_def)
  then show ?thesis
    using dm_roundtrip [OF model_reader.text_reader_axioms, of demo_chat "''1''" "[''1'', ''2'']"] by (simp add: MAX_DM_READ_IDS_def)
qed

section \<open>One room for two\<close>

definition codes_ok :: "(8 word list \<Rightarrow> 8 word list) \<Rightarrow> code_cache \<Rightarrow> bool" where
  "codes_ok sha cache \<longleftrightarrow> (\<forall>i c. js_get cache i = Some c \<longrightarrow> c = dm_code sha i)"

lemma str_less_asym: "str_less a b \<Longrightarrow> \<not> str_less b a"
  by (induction a b rule: str_less.induct) auto

lemma str_less_total: "a \<noteq> b \<Longrightarrow> str_less a b \<or> str_less b a"
proof (induction a b rule: str_less.induct)
  case (3 c a d b)
  then show ?case using of_char_eq_iff [of c d, where 'a = nat] by (cases "c = d") (auto simp: neq_iff)
qed (auto simp: neq_Nil_conv)

lemma pair_input_sym: "pair_input a b = pair_input b a"
  using str_less_asym [of a b] str_less_total [of a b] by (auto simp: pair_input_def)

lemma pair_input_inject:
  assumes "CHR ''|'' \<notin> set a \<union> set b \<union> set c \<union> set d" "pair_input a b = pair_input c d"
  shows "{a, b} = {c, d}"
proof -
  have split: "split_on (CHR ''|'') (x @ CHR ''|'' # y) = [x, y]" if "CHR ''|'' \<notin> set x \<union> set y" for x y
    using that by (simp add: split_on_append split_on_plain)
  have "set (split_on (CHR ''|'') (pair_input x y)) = {x, y}" if "CHR ''|'' \<notin> set x \<union> set y" for x y
    using split [of x y] split [of y x] that by (simp add: pair_input_def insert_commute)
  from this [of a b] this [of c d] show ?thesis using assms by simp
qed

lemma hashDmRoomCode_pure:
  "codes_ok sha cache \<Longrightarrow> fst (hashDmRoomCode sha cache a b) = dm_code sha (pair_input a b) \<and> codes_ok sha (snd (hashDmRoomCode sha cache a b))"
  by (auto simp: hashDmRoomCode_def codes_ok_def Let_def)

text \<open>Two people share one direct-message room and nobody else is in it: both sides compute the same code, in either order of
  the two identities and whatever codes are remembered, and another pair gets another code, if the first twenty bytes
  of the digests differ and identities hold no bar.\<close>
theorem dm_room_of_pair:
  assumes "codes_ok sha cache" "codes_ok sha cache'"
    and "CHR ''|'' \<notin> set a \<union> set b \<union> set c \<union> set d"
    and "pair_input a b \<noteq> pair_input c d \<longrightarrow> take 20 (sha (utf8 (pair_input a b))) \<noteq> take 20 (sha (utf8 (pair_input c d)))"
    and "length (sha (utf8 (pair_input a b))) = length (sha (utf8 (pair_input c d)))"
  shows "fst (hashDmRoomCode sha cache a b) = fst (hashDmRoomCode sha cache' b a) \<and>
     (fst (hashDmRoomCode sha cache a b) = fst (hashDmRoomCode sha cache' c d) \<longleftrightarrow> {a, b} = {c, d})"
proof -
  have "dm_code sha (pair_input a b) = dm_code sha (pair_input c d) \<longleftrightarrow> pair_input a b = pair_input c d"
    using hex_bytes_inject [of "take 20 (sha (utf8 (pair_input a b)))" "take 20 (sha (utf8 (pair_input c d)))"] assms(4,5)
    by (auto simp: dm_code_def)
  moreover have "pair_input a b = pair_input c d \<longleftrightarrow> {a, b} = {c, d}"
    using pair_input_inject [OF assms(3)] pair_input_sym by (auto simp: doubleton_eq_iff)
  ultimately show ?thesis using hashDmRoomCode_pure [OF assms(1)] hashDmRoomCode_pure [OF assms(2)] pair_input_sym [of a b] by simp
qed

theorem dm_room_of_pair_witness:
  "fst (hashDmRoomCode demo_sha [] ''did:a'' ''did:b'') = fst (hashDmRoomCode demo_sha [] ''did:b'' ''did:a'') \<and>
   (fst (hashDmRoomCode demo_sha [] ''did:a'' ''did:b'') = fst (hashDmRoomCode demo_sha [] ''did:a'' ''did:c'') \<longleftrightarrow>
     {''did:a'', ''did:b''} = {''did:a'', ''did:c''})"
proof (rule dm_room_of_pair)
  have "take 20 (demo_sha (utf8 (pair_input ''did:a'' ''did:b''))) \<noteq> take 20 (demo_sha (utf8 (pair_input ''did:a'' ''did:c'')))" by code_simp
  then show "pair_input ''did:a'' ''did:b'' \<noteq> pair_input ''did:a'' ''did:c'' \<longrightarrow>
    take 20 (demo_sha (utf8 (pair_input ''did:a'' ''did:b''))) \<noteq> take 20 (demo_sha (utf8 (pair_input ''did:a'' ''did:c'')))" by blast
qed (simp_all add: codes_ok_def demo_sha_def)

end
