(* ===== verification/Device_Sync.thy ===== *)
theory Device_Sync
  imports Complex_Main Js_Text
begin

text \<open>
  Copying an account to another device, \<^verbatim>\<open>frontend/src/lib/transport/sync.svelte.ts\<close>: the pairing codes, the
  packing of the database into frames, and the two ends of the transfer as state machines. The
  source shows a code with a fresh token; the target, which read the code, connects to that very peer,
  proves it holds the token, receives the sections of the database in batches and imports them.

  Module variables and the reactive state of the dialog are the records \<open>source\<close> and \<open>target\<close>; an awaited
  call ends a step and its answer is an event. Messages are decoded (a frame that does not decode sets
  the error of the target and nothing else). Reading and writing the database (\<^verbatim>\<open>exportDatabase\<close>,
  \<^verbatim>\<open>importDatabase\<close>), QR codes and the transport itself are outside; so is a second session started in the
  same page.
\<close>

section \<open>Codes and tokens\<close>

datatype mode = Add | Replace

record SyncPayload =
  \<comment> \<open>without \<^verbatim>\<open>password\<close>, which is never read\<close>
  roomSecret :: "string option"
  roomCode :: string
  ptoken :: string
  expires :: "int option" \<comment> \<open>nothing for what is no finite number\<close>
  pmode :: "mode option"
  peerId :: "string option"
  peerPrefix :: "string option"

definition SYNC_ROOM_PREFIX :: string where "SYNC_ROOM_PREFIX = ''__sync_''"
definition SYNC_TIMEOUT :: int where "SYNC_TIMEOUT = 5 * 60 * 1000"
definition BATCH_SIZE :: nat where "BATCH_SIZE = 50"
definition MAX_BATCH_BYTES :: nat where "MAX_BATCH_BYTES = 2500000"

definition tokenPrefix :: "string \<Rightarrow> string" where
  "tokenPrefix t = take 8 t"

definition tokenAccepted :: "string option \<Rightarrow> string option \<Rightarrow> bool \<Rightarrow> bool" where
  "tokenAccepted received expected shortCodeInPlay =
     (case (received, expected) of
        (Some r, Some e) \<Rightarrow>
          if r = [] \<or> e = [] then False
          else if r = e then True
          else if \<not> shortCodeInPlay then False
          else (length r = 8 \<or> length e = 8) \<and> tokenPrefix r = tokenPrefix e
      | _ \<Rightarrow> False)"

definition present :: "string option \<Rightarrow> bool" where
  "present s \<longleftrightarrow> s \<noteq> None \<and> s \<noteq> Some []"

definition peerIdShortPrefix :: "string \<Rightarrow> string" where
  "peerIdShortPrefix p = take 8 (drop 8 p)"

definition matchesSourcePeer :: "SyncPayload \<Rightarrow> string \<Rightarrow> bool" where
  "matchesSourcePeer payload p =
     (if present (peerId payload) then Some p = peerId payload
      else if present (peerPrefix payload) then to_lower (take 8 (drop 8 p)) = to_lower (the (peerPrefix payload))
      else False)"

definition generateShortCode :: "string \<Rightarrow> string \<Rightarrow> string \<Rightarrow> string" where
  "generateShortCode room token p =
     js_join ''-'' [take 8 (drop (length SYNC_ROOM_PREFIX) room), take 8 token, peerIdShortPrefix p]"

definition parseShortCode :: "string \<Rightarrow> (string \<times> string \<times> string) option" where
  "parseShortCode shortCode =
     (case split_on (CHR ''-'') (to_lower (js_trim shortCode)) of
        [roomPart, tokenPart, peerPart] \<Rightarrow>
          if length roomPart \<noteq> 8 \<or> length tokenPart \<noteq> 8 \<or> length peerPart \<noteq> 8 then None
          else Some (SYNC_ROOM_PREFIX @ roomPart, tokenPart, peerPart)
      | _ \<Rightarrow> None)"

definition contains :: "string \<Rightarrow> string \<Rightarrow> bool" where
  "contains s t \<longleftrightarrow> list_ex (\<lambda>i. take (length t) (drop i s) = t) [0..<Suc (length s)]"

definition starts_with :: "string \<Rightarrow> string \<Rightarrow> bool" where
  "starts_with s t \<longleftrightarrow> take (length t) s = t"

definition hex_lower :: "char \<Rightarrow> bool" where
  "hex_lower c \<longleftrightarrow> is_digit c \<or> c \<in> set ''abcdef''"

definition base58_char :: "char \<Rightarrow> bool" where
  "base58_char c \<longleftrightarrow> c \<in> set ''123456789ABCDEFGHJKLMNPQRSTUVWXYZabcdefghijkmnopqrstuvwxyz''"

definition full_token :: "string \<Rightarrow> bool" where
  "full_token t \<longleftrightarrow> length t = 32 \<and> list_all hex_lower t"

definition ed25519_peer :: "string \<Rightarrow> bool" where
  "ed25519_peer p \<longleftrightarrow> starts_with p ''12D3KooW'' \<and> length p = 52 \<and> list_all base58_char (drop 8 p)"

definition sync_code :: "string \<Rightarrow> string \<Rightarrow> string \<Rightarrow> string" where
  \<comment> \<open>the text of the QR code and of the code to copy\<close>
  "sync_code secret token selfId = secret @ '':'' @ token @ '':'' @ selfId"

datatype code_error = Older_version | Bad_secret

record secret_lib =
  parseRoomSecret :: "string \<Rightarrow> string option" \<comment> \<open>\<open>None\<close> when it throws\<close>
  discovery :: "string \<Rightarrow> string" \<comment> \<open>\<^verbatim>\<open>deriveRoomKeys(secret).discoveryId\<close>\<close>

definition parsePlaintextToken :: "secret_lib \<Rightarrow> int \<Rightarrow> string \<Rightarrow> code_error + SyncPayload option" where
  "parsePlaintextToken lib now plaintext =
     (if starts_with (js_trim plaintext) ''r2_'' then
        (case split_on (CHR '':'') (js_trim plaintext) of
           [s, t, p] \<Rightarrow>
             if \<not> full_token t \<or> \<not> ed25519_peer p then Inr None
             else (case parseRoomSecret lib s of
                     None \<Rightarrow> Inl Bad_secret
                   | Some sec \<Rightarrow> Inr (Some \<lparr>roomSecret = Some sec, roomCode = discovery lib sec, ptoken = t, expires = Some (now + SYNC_TIMEOUT),
                       pmode = None, peerId = Some p, peerPrefix = None\<rparr>))
         | _ \<Rightarrow> Inr None)
      else
        let hyphen = contains plaintext ''-'' \<and> \<not> contains plaintext SYNC_ROOM_PREFIX;
            full = (if contains plaintext SYNC_ROOM_PREFIX \<and> contains plaintext '':'' then
               (case split_on (CHR '':'') plaintext of
                  room # t # rest \<Rightarrow>
                    if \<not> starts_with room SYNC_ROOM_PREFIX \<or> t = [] then Inr None
                    else (case rest of
                            p # _ \<Rightarrow> if p = [] then Inl Older_version
                              else Inr (Some \<lparr>roomSecret = None, roomCode = room, ptoken = t, expires = Some (now + SYNC_TIMEOUT),
                                pmode = None, peerId = Some p, peerPrefix = None\<rparr>)
                          | [] \<Rightarrow> Inl Older_version)
                | _ \<Rightarrow> Inr None)
             else Inr None) in
        if hyphen \<and> length (split_on (CHR ''-'') plaintext) = 2 then Inl Older_version
        else if hyphen then
          (case parseShortCode plaintext of
             Some (room, t, p) \<Rightarrow> Inr (Some \<lparr>roomSecret = None, roomCode = room, ptoken = t, expires = Some (now + SYNC_TIMEOUT),
               pmode = None, peerId = None, peerPrefix = Some p\<rparr>)
           | None \<Rightarrow> full)
        else full)"

section \<open>Sizes and batches\<close>

fun utf8Length :: "nat list \<Rightarrow> nat" where
  \<comment> \<open>on the 16-bit code units of a string\<close>
  "utf8Length [] = 0"
| "utf8Length (c # s) =
     (if c < 0x80 then 1 + utf8Length s
      else if c < 0x800 then 2 + utf8Length s
      else if 0xd800 \<le> c \<and> c \<le> 0xdbff \<and> s \<noteq> [] \<and> 0xdc00 \<le> hd s \<and> hd s \<le> 0xdfff then 4 + utf8Length (tl s)
      else 3 + utf8Length s)"

record 'r row_ops =
  row_text :: "'r \<Rightarrow> nat list option" \<comment> \<open>\<^verbatim>\<open>JSON.stringify\<close> of a row, in 16-bit code units; nothing for undefined\<close>
  bare :: "'r \<Rightarrow> 'r" \<comment> \<open>the row without its \<^verbatim>\<open>data\<close>\<close>

definition item_size :: "'r row_ops \<Rightarrow> 'r \<Rightarrow> nat" where
  "item_size R v = utf8Length (case row_text R v of None \<Rightarrow> [] | Some u \<Rightarrow> u)"

definition fit_item :: "'r row_ops \<Rightarrow> 'r \<Rightarrow> 'r" where
  "fit_item R v = (if MAX_BATCH_BYTES < item_size R v then bare R v else v)"

fun batch_loop :: "'r row_ops \<Rightarrow> 'r list list \<Rightarrow> 'r list \<Rightarrow> nat \<Rightarrow> 'r list \<Rightarrow> 'r list list" where
  "batch_loop R out cur curBytes [] = (if cur \<noteq> [] then out @ [cur] else out)"
| "batch_loop R out cur curBytes (v # vs) =
     (let e = fit_item R v; sz = item_size R e in
      if cur \<noteq> [] \<and> (BATCH_SIZE \<le> length cur \<or> MAX_BATCH_BYTES < curBytes + sz)
      then batch_loop R (out @ [cur]) [e] sz vs
      else batch_loop R out (cur @ [e]) (curBytes + sz) vs)"

definition batches_of :: "'r row_ops \<Rightarrow> 'r list \<Rightarrow> 'r list list" where
  "batches_of R vs = batch_loop R [] [] 0 vs"

text \<open>The rows of the sessions below are the values of the model, whose strings have 8-bit code units.\<close>

definition without_data :: "js_value \<Rightarrow> js_value" where
  "without_data v = (case v of JObj ps \<Rightarrow> JObj (filter (\<lambda>p. fst p \<noteq> ''data'') ps) | _ \<Rightarrow> v)"

definition js_rows :: "js_value row_ops" where
  "js_rows = \<lparr>row_text = \<lambda>v. if v = JUndefined then None else Some (map of_char (json_text v)), bare = without_data\<rparr>"

definition EXPORT_SECTIONS :: "string list" where
  "EXPORT_SECTIONS = [''messages'', ''attachments'', ''rooms'', ''profiles'', ''roomProfiles'', ''roomDeletions'', ''watermarks'',
     ''yjsDocs'', ''savedGifs'', ''pending'']"

record DatabaseExport =
  identity :: "js_value option"
  sections :: "(string, js_value list) jsmap"

datatype SyncMessage =
    ExportRequest "mode option" "string option" "js_value list option" \<comment> \<open>mode, token, roomDeletions\<close>
  | ExportData string js_value "nat option" "nat option" "string option"
      \<comment> \<open>section, data, batchIndex, totalBatches, token; the numbers as the source counts them\<close>
  | ExportAck
  | ExportComplete
  | SyncError string
  | ImportProgress "rat option"

section \<open>The source\<close>

datatype phase = Transfer | Importing | Importing_remote

datatype plan_item = Frame SyncMessage | Show int | Delay

datatype source_job =
    Marking mode \<comment> \<open>\<^verbatim>\<open>applyRoomDeletionMarkers\<close> is under way\<close>
  | Exporting mode \<comment> \<open>\<^verbatim>\<open>exportDatabase\<close> is under way\<close>
  | Sending "plan_item list" \<comment> \<open>a frame is under way; what follows it\<close>
  | Waiting "plan_item list" \<comment> \<open>between two batches\<close>

record source =
  s_live :: bool \<comment> \<open>the transport, its room and token are those of this session\<close>
  s_token :: "string option"
  authorized :: "string option"
  s_job :: "(string \<times> source_job) option"
  s_syncing :: bool
  s_connecting :: bool
  s_progress :: int
  s_phase :: phase
  s_error :: "string option"
  s_complete :: bool
  ackTimer :: bool
  markers :: "js_value list" \<comment> \<open>handed to \<^verbatim>\<open>applyRoomDeletionMarkers\<close>\<close>
  s_sent :: "(string \<times> SyncMessage) list"

definition new_source :: "string \<Rightarrow> source" where
  "new_source token = \<lparr>s_live = True, s_token = Some token, authorized = None, s_job = None, s_syncing = False, s_connecting = True,
     s_progress = 0, s_phase = Transfer, s_error = None, s_complete = False, ackTimer = False, markers = [], s_sent = []\<rparr>"

definition cleanup_source :: "source \<Rightarrow> source" where
  "cleanup_source s = s\<lparr>s_live := False, s_token := None, authorized := None, ackTimer := False\<rparr>"

definition post :: "string \<Rightarrow> SyncMessage \<Rightarrow> source \<Rightarrow> source" where
  "post p m s = s\<lparr>s_sent := s_sent s @ [(p, m)]\<rparr>"

fun batch_frames :: "string \<Rightarrow> string option \<Rightarrow> nat \<Rightarrow> nat \<Rightarrow> js_value list list \<Rightarrow> plan_item list" where
  "batch_frames name token i tot [] = []"
| "batch_frames name token i tot (b # bs) =
     Frame (ExportData name (JArr b) (Some i) (Some tot) token) #
     (if bs \<noteq> [] then Delay # batch_frames name token (i + 1) tot bs else [])"

definition section_frames :: "string option \<Rightarrow> string \<Rightarrow> js_value list \<Rightarrow> plan_item list" where
  "section_frames token name vs = batch_frames name token 0 (length (batches_of js_rows vs)) (batches_of js_rows vs)"

fun plan_sections :: "string option \<Rightarrow> nat \<Rightarrow> (string \<times> js_value list) list \<Rightarrow> plan_item list" where
  \<comment> \<open>the loop over the sections\<close>
  "plan_sections token processed [] = []"
| "plan_sections token processed ((name, vs) # rest) =
     section_frames token name vs @
     Show (10 + \<lfloor>of_nat (processed + 1) / of_nat (length EXPORT_SECTIONS) * (80 :: rat)\<rfloor>) # plan_sections token (processed + 1) rest"

definition export_plan :: "string option \<Rightarrow> DatabaseExport \<Rightarrow> plan_item list" where
  "export_plan token e =
     [Frame (ExportData ''identity'' (case identity e of None \<Rightarrow> JUndefined | Some i \<Rightarrow> i) None None token), Show 10] @
     plan_sections token 0 (map (\<lambda>n. (n, js_get_or [] (sections e) n)) EXPORT_SECTIONS) @ [Frame ExportComplete]"

definition source_message :: "string \<Rightarrow> SyncMessage \<Rightarrow> source \<Rightarrow> source" where
  \<comment> \<open>a message in the session's room\<close>
  "source_message p m s =
     (if \<not> s_live s then s
      else case m of
        ExportRequest md token deletions \<Rightarrow>
          if authorized s \<noteq> None then s
          else if \<not> tokenAccepted token (s_token s) False then post p (SyncError ''token'') s
          else
            let s = s\<lparr>authorized := Some p, s_connecting := False, s_syncing := True\<rparr>;
                requestMode = (case md of None \<Rightarrow> Replace | Some x \<Rightarrow> x) in
            (case deletions of
               Some ds \<Rightarrow> if requestMode = Add then s\<lparr>markers := ds, s_job := Some (p, Marking requestMode)\<rparr>
                 else s\<lparr>s_job := Some (p, Exporting requestMode)\<rparr>
             | None \<Rightarrow> s\<lparr>s_job := Some (p, Exporting requestMode)\<rparr>)
      | _ \<Rightarrow>
          if Some p \<noteq> authorized s then s
          else case m of
            ImportProgress percent \<Rightarrow>
              (let s = s\<lparr>s_phase := Importing_remote\<rparr> in
               case percent of
                 None \<Rightarrow> s
               | Some x \<Rightarrow> if of_int (s_progress s) < x then s\<lparr>s_progress := min 99 \<lfloor>x\<rfloor>\<rparr> else s)
          | ExportComplete \<Rightarrow> cleanup_source (s\<lparr>ackTimer := False, s_syncing := False, s_complete := True, s_progress := 100\<rparr>)
          | SyncError err \<Rightarrow> cleanup_source (s\<lparr>ackTimer := False, s_error := Some err\<rparr>)
          | _ \<Rightarrow> s)"

fun next_send :: "string \<Rightarrow> plan_item list \<Rightarrow> source \<Rightarrow> source" where
  \<comment> \<open>the body of \<^verbatim>\<open>sendExportData\<close> from one \<^verbatim>\<open>await\<close> to the next\<close>
  "next_send p [] s = s\<lparr>s_job := None, s_progress := 90, s_phase := Importing_remote, ackTimer := True\<rparr>"
| "next_send p (Show x # r) s = next_send p r (s\<lparr>s_progress := x\<rparr>)"
| "next_send p (Frame m # r) s = post p m (s\<lparr>s_job := Some (p, Sending r)\<rparr>)"
| "next_send p (Delay # r) s = s\<lparr>s_job := Some (p, Waiting r)\<rparr>"

definition export_failed :: "string \<Rightarrow> source \<Rightarrow> source" where
  \<comment> \<open>the \<^verbatim>\<open>catch\<close> of \<^verbatim>\<open>sendExportData\<close>\<close>
  "export_failed p s = cleanup_source (post p (SyncError ''lost'') (s\<lparr>s_job := None, s_error := Some ''lost'', s_syncing := False\<rparr>))"

definition source_marked :: "bool \<Rightarrow> source \<Rightarrow> source" where
  \<comment> \<open>\<^verbatim>\<open>applyRoomDeletionMarkers\<close> resolved, or threw\<close>
  "source_marked ok s =
     (case s_job s of
        Some (p, Marking md) \<Rightarrow> if ok \<and> s_live s then s\<lparr>s_job := Some (p, Exporting md)\<rparr> else s\<lparr>s_job := None\<rparr>
      | _ \<Rightarrow> s)"

definition source_exported :: "DatabaseExport option \<Rightarrow> source \<Rightarrow> source" where
  \<comment> \<open>\<^verbatim>\<open>exportDatabase(mode === "add")\<close> resolved, or threw\<close>
  "source_exported db s =
     (case s_job s of
        Some (p, Exporting md) \<Rightarrow>
          if \<not> s_live s then s\<lparr>s_job := None\<rparr>
          else (case db of
                  None \<Rightarrow> export_failed p s
                | Some e \<Rightarrow> next_send p (export_plan (s_token s) (if md = Add then e\<lparr>identity := None\<rparr> else e)) s)
      | _ \<Rightarrow> s)"

definition source_sent :: "bool \<Rightarrow> source \<Rightarrow> source" where
  \<comment> \<open>the \<^verbatim>\<open>send\<close> under way resolved\<close>
  "source_sent ok s =
     (case s_job s of
        Some (p, Sending rest) \<Rightarrow>
          if \<not> s_live s then s\<lparr>s_job := None\<rparr> else if \<not> ok then export_failed p s else next_send p rest s
      | _ \<Rightarrow> s)"

definition source_waited :: "source \<Rightarrow> source" where
  "source_waited s =
     (case s_job s of
        Some (p, Waiting rest) \<Rightarrow> if \<not> s_live s then s\<lparr>s_job := None\<rparr> else next_send p rest s
      | _ \<Rightarrow> s)"

definition ack_timeout :: "source \<Rightarrow> source" where
  "ack_timeout s = (if ackTimer s then cleanup_source (s\<lparr>s_error := Some ''never confirmed'', s_syncing := False\<rparr>) else s)"

definition source_disconnect :: "string \<Rightarrow> source \<Rightarrow> source" where
  "source_disconnect p s = (if Some p \<noteq> authorized s then s else if \<not> s_complete s then s\<lparr>s_error := Some ''Connection lost''\<rparr> else s)"

definition code_expired :: "source \<Rightarrow> source" where
  "code_expired s = (if s_live s \<and> \<not> s_syncing s \<and> \<not> s_complete s then cleanup_source (s\<lparr>s_error := Some ''expired''\<rparr>) else s)"

section \<open>The target\<close>

datatype request_job =
    Reading_markers string
  | Requesting string "js_value list" nat \<comment> \<open>an attempt of \<^verbatim>\<open>requestExport\<close> is under way\<close>

record target =
  t_live :: bool
  payload :: SyncPayload
  t_mode :: mode
  pinned :: "string option" \<comment> \<open>\<^verbatim>\<open>_targetSourcePeerId\<close>\<close>
  requested :: bool
  receivedIdentity :: "js_value option"
  receivedData :: "(string, js_value list) jsmap"
  seenBatches :: "(string, nat list) jsmap"
  expectedBatches :: "(string, nat) jsmap"
  t_syncing :: bool
  t_connecting :: bool
  t_progress :: int
  t_phase :: phase
  t_error :: "string option"
  t_complete :: bool
  stallTimer :: bool
  peerWaitTimer :: bool
  importing :: "string option" \<comment> \<open>\<^verbatim>\<open>importDatabase\<close> is under way, for this peer\<close>
  t_imports :: "(DatabaseExport \<times> mode) list" \<comment> \<open>the calls of \<^verbatim>\<open>importDatabase\<close>\<close>
  lastReport :: int
  t_job :: "request_job option"
  t_sent :: "(string \<times> SyncMessage) list"

datatype connect_error = Not_a_secure_code | Invalid_expiry | Capability_mismatch | Expired

definition connectAsTarget :: "secret_lib \<Rightarrow> SyncPayload \<Rightarrow> int \<Rightarrow> connect_error + target" where
  "connectAsTarget lib pl now =
     (if \<not> present (roomSecret pl) \<or> \<not> present (peerId pl) \<or> \<not> full_token (to_lower (ptoken pl)) then Inl Not_a_secure_code
      else if expires pl = None then Inl Invalid_expiry
      else case parseRoomSecret lib (the (roomSecret pl)) of
        None \<Rightarrow> Inl Capability_mismatch
      | Some sec \<Rightarrow>
          if discovery lib sec \<noteq> roomCode pl then Inl Capability_mismatch
          else if the (expires pl) < now then Inl Expired
          else Inr \<lparr>t_live = True, payload = pl, t_mode = (case pmode pl of None \<Rightarrow> Replace | Some m \<Rightarrow> m), pinned = None, requested = False,
            receivedIdentity = None, receivedData = [], seenBatches = [], expectedBatches = [], t_syncing = False, t_connecting = True,
            t_progress = 0, t_phase = Transfer, t_error = None, t_complete = False, stallTimer = False, peerWaitTimer = True,
            importing = None, t_imports = [], lastReport = 0, t_job = None, t_sent = []\<rparr>)"

definition cleanup_target :: "target \<Rightarrow> target" where
  "cleanup_target t = t\<lparr>t_live := False, pinned := None, requested := False, stallTimer := False, peerWaitTimer := False\<rparr>"

definition t_post :: "string \<Rightarrow> SyncMessage \<Rightarrow> target \<Rightarrow> target" where
  "t_post p m t = t\<lparr>t_sent := t_sent t @ [(p, m)]\<rparr>"

definition attempt_request :: "string \<Rightarrow> js_value list \<Rightarrow> nat \<Rightarrow> target \<Rightarrow> target" where
  \<comment> \<open>one turn of the loop in \<^verbatim>\<open>requestExport\<close>, or what follows the third\<close>
  "attempt_request p ds n t =
     (if n < 3 then
        if \<not> t_live t \<or> \<not> t_syncing t \<or> t_complete t then t\<lparr>t_job := None\<rparr>
        else t_post p (ExportRequest (Some (t_mode t)) (Some (ptoken (payload t))) (Some ds)) (t\<lparr>t_job := Some (Requesting p ds n)\<rparr>)
      else cleanup_target (t\<lparr>t_job := None, t_syncing := False, t_error := Some ''request''\<rparr>))"

definition target_connect :: "string \<Rightarrow> target \<Rightarrow> target" where
  "target_connect p t =
     (if \<not> matchesSourcePeer (payload t) p then t
      else if present (pinned t) \<and> pinned t \<noteq> Some p then t
      else if requested t then t
      else
        let t = t\<lparr>requested := True, pinned := Some p, peerWaitTimer := False, t_connecting := False, t_syncing := True, stallTimer := True\<rparr> in
        if t_mode t = Add then t\<lparr>t_job := Some (Reading_markers p)\<rparr> else attempt_request p [] 0 t)"

definition markers_read :: "js_value list \<Rightarrow> target \<Rightarrow> target" where
  \<comment> \<open>\<^verbatim>\<open>getAllRoomDeletionMarkers\<close> resolved\<close>
  "markers_read ds t = (case t_job t of Some (Reading_markers p) \<Rightarrow> attempt_request p ds 0 t | _ \<Rightarrow> t)"

definition request_answered :: "bool \<Rightarrow> target \<Rightarrow> target" where
  \<comment> \<open>the \<^verbatim>\<open>send\<close> of a request resolved, and two seconds passed if it failed\<close>
  "request_answered ok t =
     (case t_job t of
        Some (Requesting p ds n) \<Rightarrow> if ok then t\<lparr>t_job := None\<rparr> else attempt_request p ds (n + 1) t
      | _ \<Rightarrow> t)"

definition section_progress :: "string \<Rightarrow> nat \<Rightarrow> nat \<Rightarrow> target \<Rightarrow> target" where
  \<comment> \<open>totals are at least one: a section without batches sends no frame\<close>
  "section_progress sec i tot t =
     (if sec \<in> set EXPORT_SECTIONS then
        t\<lparr>t_progress := 10 + \<lfloor>(of_nat (length (takeWhile (\<lambda>x. x \<noteq> sec) EXPORT_SECTIONS)) + of_nat (i + 1) / of_nat tot)
            / of_nat (length EXPORT_SECTIONS) * (80 :: rat)\<rfloor>\<rparr>
      else t)"

definition take_section :: "string \<Rightarrow> js_value \<Rightarrow> nat option \<Rightarrow> nat option \<Rightarrow> target \<Rightarrow> target" where
  "take_section sec data batchIndex totalBatches t =
     (let t = t\<lparr>receivedData := js_set (receivedData t) sec
                 (js_get_or [] (receivedData t) sec @ (case data of JArr vs \<Rightarrow> vs | _ \<Rightarrow> []))\<rparr> in
      case (batchIndex, totalBatches) of
        (Some i, Some tot) \<Rightarrow>
          section_progress sec i tot
            (t\<lparr>expectedBatches := js_set (expectedBatches t) sec tot,
               seenBatches := js_set (seenBatches t) sec (set_add (js_get_or [] (seenBatches t) sec) i)\<rparr>)
      | _ \<Rightarrow> t)"

definition missing_sections :: "target \<Rightarrow> string list" where
  "missing_sections t = map fst (filter (\<lambda>(sec, tot). length (js_get_or [] (seenBatches t) sec) < tot) (expectedBatches t))"

definition to_import :: "target \<Rightarrow> DatabaseExport" where
  \<comment> \<open>the object handed to \<^verbatim>\<open>importDatabase\<close>\<close>
  "to_import t =
     \<lparr>identity = (case receivedIdentity t of Some i \<Rightarrow> if js_truthy i then Some i else None | None \<Rightarrow> None),
      sections = map (\<lambda>n. (n, js_get_or [] (receivedData t) n)) EXPORT_SECTIONS\<rparr>"

definition import_progress :: "nat \<Rightarrow> nat \<Rightarrow> int \<Rightarrow> target \<Rightarrow> target" where
  \<comment> \<open>\<^verbatim>\<open>onProgress\<close>, called by the import while it writes\<close>
  "import_progress dn tot now t =
     (case importing t of
        None \<Rightarrow> t
      | Some p \<Rightarrow>
          if \<not> t_live t then t
          else
            let percent = (if 0 < tot then 90 + \<lfloor>of_nat dn / of_nat tot * (9 :: rat)\<rfloor> else 99);
                t = (if t_progress t < percent then t\<lparr>t_progress := percent\<rparr> else t) in
            if now - lastReport t < 2000 then t
            else t_post p (ImportProgress (Some (of_int (t_progress t)))) (t\<lparr>lastReport := now\<rparr>))"

definition target_message :: "string \<Rightarrow> SyncMessage \<Rightarrow> target \<Rightarrow> target" where
  "target_message p m t =
     (if \<not> t_live t then t
      else if \<not> matchesSourcePeer (payload t) p then t
      else if present (pinned t) \<and> pinned t \<noteq> Some p then t
      else case m of
        ExportData sec data batchIndex totalBatches token \<Rightarrow>
          (let t = t\<lparr>stallTimer := True\<rparr> in
           if \<not> tokenAccepted token (Some (ptoken (payload t))) (\<not> present (peerId (payload t))) then t
           else t_post p ExportAck
             (if sec = ''identity'' then
                (if t_mode t = Add then t else t\<lparr>receivedIdentity := Some data\<rparr>)\<lparr>t_progress := 10\<rparr>
              else take_section sec data batchIndex totalBatches t))
      | ExportComplete \<Rightarrow>
          (let t = t\<lparr>stallTimer := False\<rparr> in
           if missing_sections t \<noteq> [] then cleanup_target (t\<lparr>t_syncing := False, t_error := Some ''incomplete''\<rparr>)
           else
             let t = t\<lparr>t_phase := Importing, t_progress := max (t_progress t) 90\<rparr> in
             if (case receivedIdentity t of None \<Rightarrow> False | Some i \<Rightarrow> js_truthy i) \<or> t_mode t = Add
             then t\<lparr>importing := Some p, lastReport := 0, t_imports := t_imports t @ [(to_import t, t_mode t)]\<rparr>
             else t\<lparr>t_error := Some ''No identity data received''\<rparr>)
      | SyncError err \<Rightarrow> cleanup_target (t\<lparr>t_error := Some err\<rparr>)
      | _ \<Rightarrow> t)"

definition import_done :: "string option \<Rightarrow> target \<Rightarrow> target" where
  \<comment> \<open>\<^verbatim>\<open>importDatabase\<close> resolved, or threw; the confirmation is awaited before the end\<close>
  "import_done failure t =
     (case importing t of
        None \<Rightarrow> t
      | Some p \<Rightarrow>
          let t = t\<lparr>importing := None\<rparr> in
          if \<not> t_live t then t
          else case failure of
            None \<Rightarrow> cleanup_target ((t_post p ExportComplete t)\<lparr>t_syncing := False, t_complete := True, t_progress := 100, stallTimer := False\<rparr>)
          | Some err \<Rightarrow> t_post p (SyncError err) (t\<lparr>t_error := Some err\<rparr>))"

definition target_stalled :: "target \<Rightarrow> target" where
  "target_stalled t =
     (if \<not> stallTimer t then t
      else let t = t\<lparr>stallTimer := False\<rparr> in
        if \<not> t_syncing t \<or> t_complete t then t
        else cleanup_target (t\<lparr>t_syncing := False, t_error := Some ''stopped sending''\<rparr>))"

definition peer_wait_timeout :: "target \<Rightarrow> target" where
  "peer_wait_timeout t =
     (if \<not> peerWaitTimer t then t
      else let t = t\<lparr>peerWaitTimer := False\<rparr> in
        if present (pinned t) \<or> t_syncing t \<or> t_complete t then t
        else cleanup_target (t\<lparr>t_connecting := False, t_error := Some ''not reached''\<rparr>))"

definition target_disconnect :: "target \<Rightarrow> target" where
  "target_disconnect t = (if t_complete t then t else t\<lparr>t_error := Some ''Connection lost''\<rparr>)"

section \<open>Sessions\<close>

datatype source_event =
    S_message string SyncMessage | S_marked bool | S_exported "DatabaseExport option" | S_sent bool | S_waited
  | S_ack_timeout | S_disconnect string | S_expired

fun source_step :: "source_event \<Rightarrow> source \<Rightarrow> source" where
  "source_step (S_message p m) s = source_message p m s"
| "source_step (S_marked ok) s = source_marked ok s"
| "source_step (S_exported db) s = source_exported db s"
| "source_step (S_sent ok) s = source_sent ok s"
| "source_step S_waited s = source_waited s"
| "source_step S_ack_timeout s = ack_timeout s"
| "source_step (S_disconnect p) s = source_disconnect p s"
| "source_step S_expired s = code_expired s"

definition source_run :: "string \<Rightarrow> source_event list \<Rightarrow> source" where
  "source_run token evs = fold source_step evs (new_source token)"

datatype target_event =
    T_connect string | T_markers "js_value list" | T_answered bool | T_message string SyncMessage | T_progress nat nat int
  | T_imported "string option" | T_stalled | T_peer_wait | T_disconnect

fun target_step :: "target_event \<Rightarrow> target \<Rightarrow> target" where
  "target_step (T_connect p) t = target_connect p t"
| "target_step (T_markers ds) t = markers_read ds t"
| "target_step (T_answered ok) t = request_answered ok t"
| "target_step (T_message p m) t = target_message p m t"
| "target_step (T_progress dn tot now) t = import_progress dn tot now t"
| "target_step (T_imported failure) t = import_done failure t"
| "target_step T_stalled t = target_stalled t"
| "target_step T_peer_wait t = peer_wait_timeout t"
| "target_step T_disconnect t = target_disconnect t"

definition target_run :: "target \<Rightarrow> target_event list \<Rightarrow> target" where
  "target_run t evs = fold target_step evs t"

section \<open>Lemmas: batches\<close>

lemma batch_loop_concat: "concat (batch_loop R out cur n vs) = concat out @ cur @ map (fit_item R) vs"
  by (induction vs arbitrary: out cur n) (simp_all add: Let_def)

lemma batches_of_concat: "concat (batches_of R vs) = map (fit_item R) vs"
  by (simp add: batches_of_def batch_loop_concat)

definition fits_frame :: "'r row_ops \<Rightarrow> 'r list \<Rightarrow> bool" where
  "fits_frame R b \<longleftrightarrow> b \<noteq> [] \<and> length b \<le> BATCH_SIZE \<and> (length b = 1 \<or> sum_list (map (item_size R) b) \<le> MAX_BATCH_BYTES)"

lemma batch_loop_fits:
  assumes "list_all (fits_frame R) out" "cur = [] \<or> fits_frame R cur" "n = sum_list (map (item_size R) cur)"
  shows "list_all (fits_frame R) (batch_loop R out cur n vs)"
  using assms
proof (induction vs arbitrary: out cur n)
  case Nil
  then show ?case by auto
next
  case (Cons v vs)
  let ?e = "fit_item R v"
  have one: "fits_frame R [?e]" by (simp add: fits_frame_def BATCH_SIZE_def)
  show ?case
  proof (cases "cur \<noteq> [] \<and> (BATCH_SIZE \<le> length cur \<or> MAX_BATCH_BYTES < n + item_size R ?e)")
    case True
    moreover have "list_all (fits_frame R) (batch_loop R (out @ [cur]) [?e] (item_size R ?e) vs)"
      using Cons.prems True one by (intro Cons.IH) auto
    ultimately show ?thesis by (simp add: Let_def)
  next
    case False
    then have "fits_frame R (cur @ [?e])" using Cons.prems(2,3) one by (auto simp: fits_frame_def)
    then have "list_all (fits_frame R) (batch_loop R out (cur @ [?e]) (n + item_size R ?e) vs)"
      using Cons.prems by (intro Cons.IH) auto
    then show ?thesis using False by (auto simp: Let_def)
  qed
qed

lemma batches_fit: "list_all (fits_frame R) (batches_of R vs)"
  by (simp add: batches_of_def batch_loop_fits)

section \<open>Lemmas: the source\<close>

definition is_data :: "SyncMessage \<Rightarrow> bool" where
  "is_data m \<longleftrightarrow> (case m of ExportData _ _ _ _ _ \<Rightarrow> True | _ \<Rightarrow> False)"

definition bears :: "string \<Rightarrow> SyncMessage \<Rightarrow> bool" where
  "bears token m \<longleftrightarrow> (case m of ExportData _ _ _ _ tk \<Rightarrow> tk = Some token | _ \<Rightarrow> True)"

definition plan_ok :: "string \<Rightarrow> plan_item list \<Rightarrow> bool" where
  "plan_ok token plan \<longleftrightarrow> (\<forall>m. Frame m \<in> set plan \<longrightarrow> bears token m)"

lemma plan_ok_simps [simp]:
  "plan_ok token []"
  "plan_ok token (Frame m # r) \<longleftrightarrow> bears token m \<and> plan_ok token r"
  "plan_ok token (Show x # r) \<longleftrightarrow> plan_ok token r"
  "plan_ok token (Delay # r) \<longleftrightarrow> plan_ok token r"
  "plan_ok token (a @ b) \<longleftrightarrow> plan_ok token a \<and> plan_ok token b"
  by (auto simp: plan_ok_def)

lemma batch_frames_ok: "plan_ok token (batch_frames name (Some token) i n bs)"
  by (induction bs arbitrary: i) (auto simp: bears_def)

lemma plan_sections_ok: "plan_ok token (plan_sections (Some token) k xs)"
  by (induction "Some token" k xs rule: plan_sections.induct) (auto simp: section_frames_def batch_frames_ok)

lemma export_plan_ok: "plan_ok token (export_plan (Some token) e)"
  by (simp add: export_plan_def plan_sections_ok bears_def del: plan_sections.simps)

text \<open>
  What holds of a session at every moment, with \<open>who\<close> the peer it serves: \<open>asked\<close> is what that peer has shown.
\<close>

definition serves :: "string \<Rightarrow> (string \<Rightarrow> bool) \<Rightarrow> string option \<Rightarrow> source \<Rightarrow> bool" where
  "serves token asked who s \<longleftrightarrow>
     (\<forall>p m. (p, m) \<in> set (s_sent s) \<and> is_data m \<longrightarrow> who = Some p \<and> bears token m) \<and>
     (s_live s \<longrightarrow> s_token s = Some token \<and> authorized s = who) \<and>
     (authorized s \<noteq> None \<longrightarrow> s_live s) \<and>
     (\<forall>p j. s_job s = Some (p, j) \<longrightarrow> who = Some p) \<and>
     (\<forall>p plan. s_job s = Some (p, Sending plan) \<or> s_job s = Some (p, Waiting plan) \<longrightarrow> plan_ok token plan) \<and>
     (\<forall>p. who = Some p \<longrightarrow> asked p)"

lemma serves_cleanup: "serves token asked who s \<Longrightarrow> serves token asked who (cleanup_source s)"
  by (auto simp: serves_def cleanup_source_def)

lemma serves_shown:
  assumes "serves token asked who s"
    and "s_sent s' = s_sent s" "s_live s' = s_live s" "s_token s' = s_token s" "authorized s' = authorized s"
    and "s_job s' = s_job s \<or> s_job s' = None"
  shows "serves token asked who s'"
  using assms(6)
proof
  assume j: "s_job s' = s_job s"
  show ?thesis using assms(1) unfolding serves_def assms(2-5) j .
next
  assume j: "s_job s' = None"
  show ?thesis using assms(1) unfolding serves_def assms(2-5) j by blast
qed

lemma serves_sent:
  "serves token asked who s \<Longrightarrow> (p, m) \<in> set (s_sent s) \<Longrightarrow> is_data m \<Longrightarrow> who = Some p \<and> bears token m \<and> asked p"
  unfolding serves_def by blast

lemma serves_next_send:
  "serves token asked who s \<Longrightarrow> who = Some p \<Longrightarrow> plan_ok token plan \<Longrightarrow> serves token asked who (next_send p plan s)"
proof (induction p plan s rule: next_send.induct)
  case (2 p x r s)
  have "serves token asked who (s\<lparr>s_progress := x\<rparr>)" by (rule serves_shown [OF 2(2)]) simp_all
  then show ?case using 2 by simp
qed (auto simp: serves_def post_def)

lemma serves_export_failed: "serves token asked who s \<Longrightarrow> serves token asked who (export_failed p s)"
  unfolding export_failed_def by (rule serves_cleanup) (auto simp: serves_def post_def is_data_def)

lemma serves_refused: "serves token asked who s \<Longrightarrow> serves token asked who (post p (SyncError err) s)"
  by (auto simp: serves_def post_def is_data_def)

lemma serves_mono: "serves token asked who s \<Longrightarrow> (\<And>p. asked p \<Longrightarrow> asked' p) \<Longrightarrow> serves token asked' who s"
  unfolding serves_def by blast

lemma tokenAccepted_full: "tokenAccepted r e False \<longleftrightarrow> r = e \<and> present e"
  by (auto simp: tokenAccepted_def present_def split: option.splits)


lemma serves_authorize:
  assumes "serves token asked None s" "s_live s" "asked p"
    and "s_sent s' = s_sent s" "s_live s' = s_live s" "s_token s' = s_token s" "authorized s' = Some p"
    and "s_job s' = Some (p, Marking md) \<or> s_job s' = Some (p, Exporting md)"
  shows "serves token asked (Some p) s'"
  using assms(1,2,3,8) unfolding serves_def assms(4-7) by auto

lemma serves_message:
  assumes "serves token asked who s"
    and "\<And>md ds. m = ExportRequest md (Some token) ds \<Longrightarrow> asked p"
  shows "\<exists>who'. serves token asked who' (source_message p m s)"
proof (cases "s_live s")
  case True
  then have tok: "s_token s = Some token" "authorized s = who" using assms(1) by (auto simp: serves_def)
  show ?thesis
  proof (cases m)
    case (ExportRequest md tk ds)
    show ?thesis
    proof (cases "who = None \<and> tokenAccepted tk (Some token) False")
      case ok: True
      then have "asked p" using assms(2) ExportRequest by (simp add: tokenAccepted_full)
      then have "serves token asked (Some p) (source_message p m s)"
        using assms(1) True ok ExportRequest tok
        by (intro serves_authorize [where s = s and md = "case md of None \<Rightarrow> Replace | Some x \<Rightarrow> x"])
          (auto simp: source_message_def Let_def split: option.splits)
      then show ?thesis by blast
    next
      case False
      then have "source_message p m s = s \<or> source_message p m s = post p (SyncError ''token'') s"
        using True ExportRequest tok by (auto simp: source_message_def)
      then show ?thesis using assms(1) serves_refused by metis
    qed
  next
    case (ImportProgress percent)
    have "serves token asked who (source_message p m s)"
      by (rule serves_shown [OF assms(1)]) (simp_all add: source_message_def ImportProgress Let_def split: option.splits)
    then show ?thesis by blast
  next
    case ExportComplete
    have "serves token asked who (s\<lparr>ackTimer := False, s_syncing := False, s_complete := True, s_progress := 100\<rparr>)"
      by (rule serves_shown [OF assms(1)]) simp_all
    then have "serves token asked who (source_message p m s)"
      using assms(1) serves_cleanup by (simp add: source_message_def ExportComplete)
    then show ?thesis by blast
  next
    case (SyncError err)
    have "serves token asked who (s\<lparr>ackTimer := False, s_error := Some err\<rparr>)"
      by (rule serves_shown [OF assms(1)]) simp_all
    then have "serves token asked who (source_message p m s)"
      using assms(1) serves_cleanup by (simp add: source_message_def SyncError)
    then show ?thesis by blast
  qed (use assms(1) in \<open>auto simp: source_message_def\<close>)
qed (use assms(1) in \<open>auto simp: source_message_def\<close>)

lemma serves_step:
  assumes s: "serves token asked who s"
    and "\<And>p md ds. ev = S_message p (ExportRequest md (Some token) ds) \<Longrightarrow> asked p"
  shows "\<exists>who'. serves token asked who' (source_step ev s)"
proof -
  have source_job: "who = Some p \<and> (\<forall>plan. j = Sending plan \<or> j = Waiting plan \<longrightarrow> plan_ok token plan)" if "s_job s = Some (p, j)" for p j
    using s that by (auto simp: serves_def)
  have tok: "s_token s = Some token" if "s_live s" using s that by (simp add: serves_def)
  have drop: "serves token asked who (s\<lparr>s_job := None\<rparr>)" by (rule serves_shown [OF s]) simp_all
  have "serves token asked who (source_step ev s)" if "\<nexists>p m. ev = S_message p m"
  proof (cases ev)
    case (S_marked ok)
    then show ?thesis using s drop source_job by (auto simp: source_marked_def serves_def split: option.splits source_job.splits)
  next
    case (S_exported db)
    then show ?thesis using s drop source_job tok serves_next_send [OF s] export_plan_ok serves_export_failed [OF s]
      by (auto simp: source_exported_def split: option.splits source_job.splits)
  next
    case (S_sent ok)
    then show ?thesis using s drop source_job serves_next_send [OF s] serves_export_failed [OF s]
      by (auto simp: source_sent_def split: option.splits source_job.splits)
  next
    case S_waited
    then show ?thesis using s drop source_job serves_next_send [OF s] by (auto simp: source_waited_def split: option.splits source_job.splits)
  next
    case S_ack_timeout
    then show ?thesis using s serves_cleanup [OF serves_shown [OF s, of "s\<lparr>s_error := Some ''never confirmed'', s_syncing := False\<rparr>"]]
      by (auto simp: ack_timeout_def)
  next
    case (S_disconnect p)
    show ?thesis by (rule serves_shown [OF s]) (simp_all add: S_disconnect source_disconnect_def)
  next
    case S_expired
    then show ?thesis using s serves_cleanup [OF serves_shown [OF s, of "s\<lparr>s_error := Some ''expired''\<rparr>"]]
      by (auto simp: code_expired_def)
  qed (use that in simp)
  then show ?thesis using serves_message [OF s] assms(2) by (cases ev) auto
qed

definition asked_in :: "string \<Rightarrow> source_event list \<Rightarrow> string \<Rightarrow> bool" where
  "asked_in token evs p \<longleftrightarrow> (\<exists>md ds. S_message p (ExportRequest md (Some token) ds) \<in> set evs)"

lemma source_run_snoc: "source_run token (evs @ [ev]) = source_step ev (source_run token evs)"
  by (simp add: source_run_def)

lemma serves_run: "\<exists>who. serves token (asked_in token evs) who (source_run token evs)"
proof (induction evs rule: rev_induct)
  case Nil
  show ?case by (rule exI [of _ None]) (simp add: serves_def source_run_def new_source_def)
next
  case (snoc ev evs)
  then obtain who where "serves token (asked_in token evs) who (source_run token evs)" by blast
  then have "serves token (asked_in token (evs @ [ev])) who (source_run token evs)"
    by (rule serves_mono) (auto simp: asked_in_def)
  then show ?case unfolding source_run_snoc by (rule serves_step) (auto simp: asked_in_def)
qed

definition demo_secrets :: secret_lib where
  "demo_secrets = \<lparr>parseRoomSecret = Some, discovery = (\<lambda>s. ''d'' @ s)\<rparr>"

definition demo_token :: string where
  "demo_token = replicate 32 (CHR ''7'')"

definition demo_payload :: SyncPayload where
  "demo_payload = \<lparr>roomSecret = Some ''r2_x'', roomCode = ''dr2_x'', ptoken = demo_token, expires = Some 5, pmode = None, peerId = Some ''12D3'', peerPrefix = None\<rparr>"

definition demo_target :: target where
  "demo_target = (case connectAsTarget demo_secrets demo_payload 0 of Inr t \<Rightarrow> t)"

definition demo_account :: DatabaseExport where
  "demo_account = \<lparr>identity = Some (JStr ''key''), sections = [(''messages'', [JStr ''hi'', JStr ''ho'']), (''rooms'', [JBool True])]\<rparr>"

lemma demo_connects: "connectAsTarget demo_secrets demo_payload 0 = Inr demo_target"
  by code_simp

definition demo_request :: source_event where
  "demo_request = S_message ''me'' (ExportRequest (Some Replace) (Some demo_token) (Some []))"

text \<open>C14: Whatever happens in a session, in whatever order: all frames with data of the account go to one and the same peer, which
  had asked for them with the whole token of this session, and every one of them bears that token.\<close>
theorem export_to_the_scanner:
  assumes "(p, ExportData sec d i n tk) \<in> set (s_sent (source_run token evs))"
    and "(q, ExportData sec' d' i' n' tk') \<in> set (s_sent (source_run token evs))"
  shows "q = p \<and> tk = Some token \<and> (\<exists>md ds. S_message p (ExportRequest md (Some token) ds) \<in> set evs)"
proof -
  obtain who where w: "serves token (asked_in token evs) who (source_run token evs)" using serves_run by blast
  have "is_data (ExportData sec d i n tk)" "is_data (ExportData sec' d' i' n' tk')" by (simp_all add: is_data_def)
  then show ?thesis using serves_sent [OF w assms(1)] serves_sent [OF w assms(2)] by (simp add: bears_def asked_in_def)
qed

theorem export_to_the_scanner_witness:
  "s_sent (source_run ''t'' [S_message ''p'' (ExportRequest None (Some ''t'') None), S_exported (Some demo_account)]) =
     [(''p'', ExportData ''identity'' (JStr ''key'') None None (Some ''t''))] \<and>
   (\<exists>md ds. S_message ''p'' (ExportRequest md (Some ''t'') ds) \<in>
     set [S_message ''p'' (ExportRequest None (Some ''t'') None), S_exported (Some demo_account)])"
proof -
  let ?evs = "[S_message ''p'' (ExportRequest None (Some ''t'') None), S_exported (Some demo_account)]"
  have e: "s_sent (source_run ''t'' ?evs) = [(''p'', ExportData ''identity'' (JStr ''key'') None None (Some ''t''))]"
    by (simp add: source_run_def new_source_def source_message_def tokenAccepted_def source_exported_def export_plan_def demo_account_def
      post_def Let_def del: plan_sections.simps)
  then have m: "(''p'', ExportData ''identity'' (JStr ''key'') None None (Some ''t'')) \<in> set (s_sent (source_run ''t'' ?evs))" by simp
  show ?thesis using e export_to_the_scanner [OF m m] by simp
qed

section \<open>Lemmas: the target\<close>

text \<open>
  The reference for what a target has: the frames with data that came from the peer of the code and carry its token, the
  rows and the identity they hold, and whether each announced section is there with as many batches as announced.
\<close>

type_synonym data_frame = "string \<times> js_value \<times> nat option \<times> nat option"

fun trusted_frame :: "SyncPayload \<Rightarrow> target_event \<Rightarrow> data_frame list" where
  "trusted_frame pl (T_message p (ExportData sec d i n tk)) =
     (if Some p = peerId pl \<and> tk = Some (ptoken pl) then [(sec, d, i, n)] else [])"
| "trusted_frame pl _ = []"

definition trusted :: "SyncPayload \<Rightarrow> target_event list \<Rightarrow> data_frame list" where
  "trusted pl evs = concat (map (trusted_frame pl) evs)"

definition array_of :: "js_value \<Rightarrow> js_value list" where
  "array_of d = (case d of JArr vs \<Rightarrow> vs | _ \<Rightarrow> [])"

definition rows_of :: "data_frame list \<Rightarrow> string \<Rightarrow> js_value list" where
  "rows_of fs sec = concat (map (\<lambda>(sc, d, i, n). if sc = sec then array_of d else []) fs)"

definition identity_of :: "data_frame list \<Rightarrow> js_value option" where
  "identity_of fs = fold (\<lambda>(sc, d, i, n) a. if sc = ''identity'' then Some d else a) fs None"

definition announced :: "data_frame list \<Rightarrow> string \<Rightarrow> nat option" where
  "announced fs sec = fold (\<lambda>(sc, d, i, n) a. if sc = sec \<and> i \<noteq> None \<and> n \<noteq> None then n else a) fs None"

definition indices_of :: "data_frame list \<Rightarrow> string \<Rightarrow> nat list" where
  "indices_of fs sec = fold (\<lambda>(sc, d, i, n) a. if sc = sec \<and> i \<noteq> None \<and> n \<noteq> None then set_add a (the i) else a) fs []"

definition truthy_identity :: "js_value option \<Rightarrow> js_value option" where
  "truthy_identity x = (case x of Some i \<Rightarrow> if js_truthy i then Some i else None | None \<Rightarrow> None)"

definition copy_of :: "mode \<Rightarrow> data_frame list \<Rightarrow> DatabaseExport" where
  "copy_of md fs =
     \<lparr>identity = (if md = Add then None else truthy_identity (identity_of fs)),
      sections = map (\<lambda>n. (n, rows_of fs n)) EXPORT_SECTIONS\<rparr>"

definition whole :: "data_frame list \<Rightarrow> bool" where
  "whole fs \<longleftrightarrow>
     list_all (\<lambda>f. fst f = ''identity'' \<or>
       (case announced fs (fst f) of None \<Rightarrow> True | Some n \<Rightarrow> n \<le> length (indices_of fs (fst f)))) fs"

lemma frames_snoc [simp]:
  "rows_of (fs @ [(sc, d, i, n)]) sec = rows_of fs sec @ (if sc = sec then array_of d else [])"
  "identity_of (fs @ [(sc, d, i, n)]) = (if sc = ''identity'' then Some d else identity_of fs)"
  "announced (fs @ [(sc, d, i, n)]) sec = (if sc = sec \<and> i \<noteq> None \<and> n \<noteq> None then n else announced fs sec)"
  "indices_of (fs @ [(sc, d, i, n)]) sec = (if sc = sec \<and> i \<noteq> None \<and> n \<noteq> None then set_add (indices_of fs sec) (the i) else indices_of fs sec)"
  by (auto simp: rows_of_def identity_of_def announced_def indices_of_def)

lemma frames_Nil [simp]: "rows_of [] sec = []" "identity_of [] = None" "announced [] sec = None" "indices_of [] sec = []"
  by (simp_all add: rows_of_def identity_of_def announced_def indices_of_def)

lemma trusted_snoc: "trusted pl (evs @ [ev]) = trusted pl evs @ trusted_frame pl ev"
  by (simp add: trusted_def)

lemma announced_sender: "announced fs sec \<noteq> None \<Longrightarrow> \<exists>f \<in> set fs. fst f = sec"
  by (induction fs rule: rev_induct) (auto split: if_splits)

definition holds :: "data_frame list \<Rightarrow> target \<Rightarrow> bool" where
  "holds fs t \<longleftrightarrow>
     receivedIdentity t = (if t_mode t = Add then None else identity_of fs) \<and>
     (\<forall>sec. sec \<noteq> ''identity'' \<longrightarrow> js_get_or [] (receivedData t) sec = rows_of fs sec) \<and>
     (\<forall>sec. sec \<noteq> ''identity'' \<longrightarrow> js_get (expectedBatches t) sec = announced fs sec) \<and>
     (\<forall>sec. sec \<noteq> ''identity'' \<longrightarrow> js_get_or [] (seenBatches t) sec = indices_of fs sec) \<and>
     js_get (expectedBatches t) ''identity'' = None \<and> js_wf (expectedBatches t)"

lemma section_progress_keeps [simp]:
  "receivedIdentity (section_progress sec i n t) = receivedIdentity t" "receivedData (section_progress sec i n t) = receivedData t"
  "expectedBatches (section_progress sec i n t) = expectedBatches t" "seenBatches (section_progress sec i n t) = seenBatches t"
  "t_mode (section_progress sec i n t) = t_mode t" "payload (section_progress sec i n t) = payload t"
  "pinned (section_progress sec i n t) = pinned t" "t_imports (section_progress sec i n t) = t_imports t"
  "t_live (section_progress sec i n t) = t_live t"
  by (simp_all add: section_progress_def)

lemma take_section_keeps [simp]:
  "receivedIdentity (take_section sec d i n t) = receivedIdentity t" "t_mode (take_section sec d i n t) = t_mode t"
  "payload (take_section sec d i n t) = payload t" "pinned (take_section sec d i n t) = pinned t"
  "t_imports (take_section sec d i n t) = t_imports t" "t_live (take_section sec d i n t) = t_live t"
  by (simp_all add: take_section_def Let_def split: option.splits)

lemma holds_section:
  assumes "holds fs t" "sec \<noteq> ''identity''"
  shows "holds (fs @ [(sec, d, i, n)]) (take_section sec d i n t)"
  using assms by (auto simp: holds_def take_section_def Let_def array_of_def split: option.splits)

lemma holds_identity:
  assumes "holds fs t"
  shows "holds (fs @ [(''identity'', d, i, n)]) (if t_mode t = Add then t else t\<lparr>receivedIdentity := Some d\<rparr>)"
  using assms by (auto simp: holds_def)

lemma holds_same:
  assumes "holds fs t" "receivedIdentity t' = receivedIdentity t" "receivedData t' = receivedData t"
    and "expectedBatches t' = expectedBatches t" "seenBatches t' = seenBatches t" "t_mode t' = t_mode t"
  shows "holds fs t'"
  using assms(1) unfolding holds_def assms(2-6) .

lemma holds_import: "holds fs t \<Longrightarrow> to_import t = copy_of (t_mode t) fs"
  by (auto simp: holds_def to_import_def copy_of_def truthy_identity_def EXPORT_SECTIONS_def)

lemma holds_missing:
  assumes "holds fs t"
  shows "missing_sections t = [] \<longleftrightarrow> whole fs"
proof -
  have e: "(sec, n) \<in> set (expectedBatches t) \<longleftrightarrow> sec \<noteq> ''identity'' \<and> announced fs sec = Some n" for sec n
    using assms by (cases "sec = ''identity''") (auto simp: holds_def js_wf_def simp flip: map_of_eq_Some_iff)
  have i: "js_get_or [] (seenBatches t) sec = indices_of fs sec" if "sec \<noteq> ''identity''" for sec
    using assms that by (simp add: holds_def)
  have "missing_sections t = [] \<longleftrightarrow>
      (\<forall>sec n. (sec, n) \<in> set (expectedBatches t) \<longrightarrow> n \<le> length (js_get_or [] (seenBatches t) sec))"
    by (fastforce simp: missing_sections_def filter_empty_conv)
  also have "\<dots> \<longleftrightarrow> (\<forall>sec n. sec \<noteq> ''identity'' \<longrightarrow> announced fs sec = Some n \<longrightarrow> n \<le> length (indices_of fs sec))"
    by (auto simp: e i)
  also have "\<dots> \<longleftrightarrow> whole fs"
    using announced_sender by (fastforce simp: whole_def list_all_iff split: option.splits)
  finally show ?thesis .
qed

definition rests_on :: "SyncPayload \<Rightarrow> target_event list \<Rightarrow> DatabaseExport \<times> mode \<Rightarrow> bool" where
  "rests_on pl evs im \<longleftrightarrow>
     (\<exists>before after. evs = before @ after \<and> fst im = copy_of (snd im) (trusted pl before) \<and> whole (trusted pl before)) \<and>
     (snd im = Replace \<longrightarrow> identity (fst im) \<noteq> None)"

lemma rests_on_snoc: "rests_on pl evs im \<Longrightarrow> rests_on pl (evs @ [ev]) im"
  by (force simp: rests_on_def)

definition listens :: "SyncPayload \<Rightarrow> mode \<Rightarrow> target_event list \<Rightarrow> target \<Rightarrow> bool" where
  "listens pl md evs t \<longleftrightarrow>
     payload t = pl \<and> t_mode t = md \<and> (pinned t = None \<or> pinned t = peerId pl) \<and>
     (t_live t \<longrightarrow> holds (trusted pl evs) t) \<and> (\<forall>im \<in> set (t_imports t). rests_on pl evs im \<and> snd im = md)"

definition quiet :: "target \<Rightarrow> target \<Rightarrow> bool" where
  \<comment> \<open>what was received and imported is untouched\<close>
  "quiet t t' \<longleftrightarrow>
     payload t' = payload t \<and> t_mode t' = t_mode t \<and> receivedIdentity t' = receivedIdentity t \<and> receivedData t' = receivedData t \<and>
     expectedBatches t' = expectedBatches t \<and> seenBatches t' = seenBatches t \<and> t_imports t' = t_imports t \<and>
     (t_live t' \<longrightarrow> t_live t) \<and> (pinned t' = pinned t \<or> pinned t' = None \<or> (\<exists>p. pinned t' = Some p \<and> matchesSourcePeer (payload t) p))"

lemma listens_quiet:
  assumes l: "listens pl md evs t" and q: "quiet t t'" and "trusted_frame pl ev = [] \<or> \<not> t_live t" "present (peerId pl)"
  shows "listens pl md (evs @ [ev]) t'"
proof -
  have same: "payload t' = pl" "t_mode t' = md" "t_imports t' = t_imports t" and live: "t_live t' \<Longrightarrow> t_live t"
    using l q by (simp_all add: listens_def quiet_def)
  have "pinned t' = None \<or> pinned t' = peerId pl"
    using l q assms(4) unfolding listens_def quiet_def matchesSourcePeer_def by metis
  moreover have "holds (trusted pl (evs @ [ev])) t'" if t': "t_live t'"
  proof (rule holds_same [of _ t])
    show "holds (trusted pl (evs @ [ev])) t" using l assms(3) live [OF t'] by (simp add: listens_def trusted_snoc)
  qed (use q in \<open>simp_all add: quiet_def\<close>)
  moreover have "\<forall>im \<in> set (t_imports t). rests_on pl (evs @ [ev]) im \<and> snd im = md"
    using l rests_on_snoc by (simp add: listens_def)
  ultimately show ?thesis unfolding listens_def same by simp
qed

lemma quiet_refl [simp]: "quiet t t"
  by (simp add: quiet_def)

lemma quiet_cleanup [simp]: "quiet t u \<Longrightarrow> quiet t (cleanup_target u)"
  by (simp add: quiet_def cleanup_target_def)

lemma quiet_post [simp]: "quiet t (t_post p m u) \<longleftrightarrow> quiet t u"
  by (simp add: quiet_def t_post_def)

lemma quiet_shown [simp]:
  "quiet t (t_job_update f1 u) \<longleftrightarrow> quiet t u" "quiet t (t_progress_update f2 u) \<longleftrightarrow> quiet t u"
  "quiet t (t_error_update f3 u) \<longleftrightarrow> quiet t u" "quiet t (stallTimer_update f4 u) \<longleftrightarrow> quiet t u"
  "quiet t (peerWaitTimer_update f5 u) \<longleftrightarrow> quiet t u" "quiet t (lastReport_update f6 u) \<longleftrightarrow> quiet t u"
  "quiet t (importing_update f7 u) \<longleftrightarrow> quiet t u" "quiet t (t_syncing_update f8 u) \<longleftrightarrow> quiet t u"
  "quiet t (t_connecting_update f9 u) \<longleftrightarrow> quiet t u" "quiet t (t_phase_update f10 u) \<longleftrightarrow> quiet t u"
  "quiet t (t_complete_update f11 u) \<longleftrightarrow> quiet t u" "quiet t (requested_update f12 u) \<longleftrightarrow> quiet t u"
  by (simp_all add: quiet_def)

lemma quiet_pinned [simp]: "quiet t u \<Longrightarrow> matchesSourcePeer (payload t) p \<Longrightarrow> quiet t (u\<lparr>pinned := Some p\<rparr>)"
  by (simp add: quiet_def)

lemma quiet_attempt [simp]: "quiet t u \<Longrightarrow> quiet t (attempt_request p ds n u)"
  by (simp add: attempt_request_def)

lemma quiet_connect: "quiet t (target_connect p t)"
  by (simp add: target_connect_def Let_def)

lemma quiet_progress: "quiet t (import_progress dn tot now t)"
  by (simp add: import_progress_def Let_def split: option.split)

lemma quiet_imported: "quiet t (import_done failure t)"
  by (simp add: import_done_def Let_def split: option.split)

lemma quiet_step: "\<forall>p m. ev \<noteq> T_message p m \<Longrightarrow> quiet t (target_step ev t)"
  by (cases ev)
    (simp_all add: quiet_connect quiet_progress quiet_imported markers_read_def request_answered_def target_stalled_def
      peer_wait_timeout_def target_disconnect_def Let_def split: option.split request_job.split)

lemma listens_data:
  assumes l: "listens pl md evs t" and pr: "present (peerId pl)" "ptoken pl \<noteq> []" and m: "m = ExportData sec d i n tk"
  shows "listens pl md (evs @ [T_message p m]) (target_message p m t)"
proof -
  let ?ok = "Some p = peerId pl \<and> tk = Some (ptoken pl)"
  let ?t = "t\<lparr>stallTimer := True\<rparr>"
  let ?t' = "if sec = ''identity'' then (if t_mode ?t = Add then ?t else ?t\<lparr>receivedIdentity := Some d\<rparr>)\<lparr>t_progress := 10\<rparr>
    else take_section sec d i n ?t"
  have pl: "payload t = pl" "pinned t = None \<or> pinned t = peerId pl" using l by (simp_all add: listens_def)
  have acc: "tokenAccepted tk (Some (ptoken pl)) (\<not> present (peerId pl)) \<longleftrightarrow> tk = Some (ptoken pl)"
    using pr by (simp add: tokenAccepted_full present_def)
  have src: "matchesSourcePeer pl p \<longleftrightarrow> Some p = peerId pl" using pr(1) by (simp add: matchesSourcePeer_def)
  have pin: "\<not> (present (pinned t) \<and> pinned t \<noteq> Some p)" if "Some p = peerId pl" using pl(2) that by (auto simp: present_def)
  show ?thesis
  proof (cases "t_live t \<and> ?ok")
    case True
    then have q: "peerId pl = Some p" "t_live t" "tk = Some (ptoken pl)" by simp_all
    have "(present (pinned t) \<and> pinned t \<noteq> Some p) = False" "matchesSourcePeer pl p" using pin src q(1) by auto
    moreover have "tokenAccepted (Some (ptoken pl)) (Some (ptoken pl)) (\<not> present (Some p))" using acc q by simp
    ultimately have eq: "target_message p m t = t_post p ExportAck ?t'"
      using q(2) unfolding target_message_def m q(3) by (simp add: pl q(1) Let_def cong: conj_cong)
    have h: "holds (trusted pl evs) ?t" by (rule holds_same [of _ t]) (use l True in \<open>simp_all add: listens_def\<close>)
    have h': "holds (trusted pl evs @ [(sec, d, i, n)]) ?t'"
    proof (cases "sec = ''identity''")
      case sec: True
      show ?thesis unfolding sec by (rule holds_same [OF holds_identity [OF h, of d i n]]) simp_all
    next
      case False
      then show ?thesis using holds_section [OF h False, of d i n] by simp
    qed
    have tr: "trusted pl (evs @ [T_message p m]) = trusted pl evs @ [(sec, d, i, n)]" using q m by (simp add: trusted_snoc)
    have "holds (trusted pl (evs @ [T_message p m])) (t_post p ExportAck ?t')"
      unfolding tr by (rule holds_same [OF h']) (simp_all add: t_post_def)
    moreover have "payload ?t' = payload t" "t_mode ?t' = t_mode t" "pinned ?t' = pinned t" "t_imports ?t' = t_imports t" by simp_all
    ultimately show ?thesis unfolding eq using l rests_on_snoc by (simp add: listens_def t_post_def)
  next
    case False
    then have "quiet t (target_message p m t)" using m by (auto simp: target_message_def pl acc src Let_def)
    moreover have "trusted_frame pl (T_message p m) = [] \<or> \<not> t_live t" using False m by auto
    ultimately show ?thesis using l pr(1) by (blast intro: listens_quiet)
  qed
qed

lemma listens_complete:
  assumes l: "listens pl md evs t" and pr: "present (peerId pl)"
  shows "listens pl md (evs @ [T_message p ExportComplete]) (target_message p ExportComplete t)"
proof -
  let ?ev = "T_message p ExportComplete"
  let ?t = "t\<lparr>stallTimer := False, t_phase := Importing, t_progress := max (t_progress t) 90\<rparr>"
  let ?t' = "?t\<lparr>importing := Some p, lastReport := 0, t_imports := t_imports t @ [(to_import ?t, t_mode t)]\<rparr>"
  consider (import) "t_live t" "missing_sections t = []" "target_message p ExportComplete t = ?t'"
      "truthy_identity (receivedIdentity t) \<noteq> None \<or> t_mode t = Add"
    | (other) "quiet t (target_message p ExportComplete t)"
  proof (cases "t_live t \<and> matchesSourcePeer (payload t) p \<and> \<not> (present (pinned t) \<and> pinned t \<noteq> Some p) \<and> missing_sections t = [] \<and>
      (truthy_identity (receivedIdentity t) \<noteq> None \<or> t_mode t = Add)")
    case True
    moreover have "missing_sections (t\<lparr>stallTimer := False\<rparr>) = missing_sections t" by (simp add: missing_sections_def)
    moreover have "(case receivedIdentity t of None \<Rightarrow> False | Some i \<Rightarrow> js_truthy i) \<longleftrightarrow> truthy_identity (receivedIdentity t) \<noteq> None"
      by (simp add: truthy_identity_def split: option.split)
    ultimately have "target_message p ExportComplete t = ?t'" unfolding target_message_def by (simp add: Let_def cong: conj_cong)
    then show ?thesis using True that(1) by blast
  next
    case False
    have "missing_sections (t\<lparr>stallTimer := False\<rparr>) = missing_sections t" by (simp add: missing_sections_def)
    moreover have "(case receivedIdentity t of None \<Rightarrow> False | Some i \<Rightarrow> js_truthy i) \<longleftrightarrow> truthy_identity (receivedIdentity t) \<noteq> None"
      by (simp add: truthy_identity_def split: option.split)
    ultimately have "quiet t (target_message p ExportComplete t)"
      using False unfolding target_message_def by (auto simp: Let_def)
    then show ?thesis using that(2) by blast
  qed
  then show ?thesis
  proof cases
    case import
    have md: "t_mode t = md" "holds (trusted pl evs) t" using l import(1) by (simp_all add: listens_def)
    have h: "holds (trusted pl evs) ?t" by (rule holds_same [OF md(2)]) simp_all
    have c: "to_import ?t = copy_of md (trusted pl evs)" using holds_import [OF h] md(1) by simp
    have "identity (copy_of md (trusted pl evs)) \<noteq> None" if "md = Replace"
      using md import(4) that by (simp add: copy_of_def holds_def)
    moreover have "whole (trusted pl evs)" using holds_missing [OF md(2)] import(2) by simp
    ultimately have "rests_on pl (evs @ [?ev]) (to_import ?t, md)" unfolding rests_on_def c fst_conv snd_conv by blast
    moreover have "holds (trusted pl (evs @ [?ev])) ?t'" by (rule holds_same [of _ t]) (use md in \<open>simp_all add: trusted_snoc\<close>)
    ultimately show ?thesis unfolding import(3) using l rests_on_snoc md(1) by (simp add: listens_def)
  next
    case other
    then show ?thesis by (rule listens_quiet [OF l _ _ pr]) simp
  qed
qed

lemma listens_step:
  assumes l: "listens pl md evs t" and pr: "present (peerId pl)" "ptoken pl \<noteq> []"
  shows "listens pl md (evs @ [ev]) (target_step ev t)"
proof (cases "\<exists>p m. ev = T_message p m")
  case True
  then obtain p m where ev: "ev = T_message p m" by blast
  show ?thesis
  proof (cases "m = ExportComplete \<or> is_data m")
    case True
    then show ?thesis using listens_complete [OF l pr(1)] listens_data [OF l pr] ev
      by (auto simp: is_data_def split: SyncMessage.splits)
  next
    case False
    then have "quiet t (target_message p m t)" "trusted_frame pl ev = []"
      using ev by (auto simp: target_message_def is_data_def Let_def split: SyncMessage.splits)
    then show ?thesis using listens_quiet [OF l] pr(1) ev by simp
  qed
next
  case False
  then have "quiet t (target_step ev t)" by (intro quiet_step) simp
  moreover have "trusted_frame pl ev = []" using False by (cases ev) auto
  ultimately show ?thesis using listens_quiet [OF l] pr(1) by blast
qed

lemma target_run_snoc: "target_run t (evs @ [ev]) = target_step ev (target_run t evs)"
  by (simp add: target_run_def)

lemma connectAsTarget_Inr:
  assumes "connectAsTarget lib pl now = Inr t"
  shows "present (roomSecret pl)" "present (peerId pl)" "full_token (to_lower (ptoken pl))" "\<exists>e. expires pl = Some e \<and> now \<le> e"
    and "t = \<lparr>t_live = True, payload = pl, t_mode = (case pmode pl of None \<Rightarrow> Replace | Some m \<Rightarrow> m), pinned = None, requested = False,
            receivedIdentity = None, receivedData = [], seenBatches = [], expectedBatches = [], t_syncing = False, t_connecting = True,
            t_progress = 0, t_phase = Transfer, t_error = None, t_complete = False, stallTimer = False, peerWaitTimer = True,
            importing = None, t_imports = [], lastReport = 0, t_job = None, t_sent = []\<rparr>"
  using assms by (auto simp: connectAsTarget_def split: if_splits option.splits)

lemma full_token_ne: "full_token (to_lower tok) \<Longrightarrow> tok \<noteq> []"
  by (auto simp: full_token_def to_lower_def)

lemma listens_run:
  assumes "connectAsTarget lib pl now = Inr t0"
  shows "listens pl (case pmode pl of None \<Rightarrow> Replace | Some m \<Rightarrow> m) evs (target_run t0 evs)"
proof (induction evs rule: rev_induct)
  case Nil
  show ?case unfolding connectAsTarget_Inr(5) [OF assms]
    by (simp add: target_run_def listens_def holds_def trusted_def js_get_or_def js_wf_def)
next
  case (snoc ev evs)
  then show ?case unfolding target_run_snoc
    using connectAsTarget_Inr(2) [OF assms] full_token_ne [OF connectAsTarget_Inr(3) [OF assms]] by (rule listens_step)
qed

text \<open>C15: Whatever happens to a target, in whatever order: what it hands to the import is made of nothing but the frames that, up to
  some moment, came from the very peer its code names with the whole token of the code - the rows of each section in the order
  they came, the identity only when the account is replaced and then always - and of every section that was announced there are as
  many different batches as announced.\<close>
theorem import_only_from_the_source:
  assumes "connectAsTarget lib pl now = Inr t0" "(e, md) \<in> set (t_imports (target_run t0 evs))"
  shows "md = (case pmode pl of None \<Rightarrow> Replace | Some m \<Rightarrow> m) \<and>
    (\<exists>before after. evs = before @ after \<and> e = copy_of md (trusted pl before) \<and> whole (trusted pl before)) \<and>
    (identity e = None \<longleftrightarrow> md = Add)"
proof -
  have "rests_on pl evs (e, md)" and md: "md = (case pmode pl of None \<Rightarrow> Replace | Some m \<Rightarrow> m)"
    using listens_run [OF assms(1), of evs] assms(2) by (fastforce simp: listens_def)+
  then show ?thesis by (cases md) (auto simp: rests_on_def copy_of_def)
qed

theorem import_only_from_the_source_witness:
  "connectAsTarget demo_secrets demo_payload 0 = Inr demo_target \<and>
   map snd (t_imports (target_run demo_target [T_message ''12D3'' (ExportData ''identity'' (JStr ''key'') None None (Some demo_token)),
     T_message ''12D3'' ExportComplete])) = [Replace] \<and>
   identity (fst (hd (t_imports (target_run demo_target [T_message ''12D3'' (ExportData ''identity'' (JStr ''key'') None None (Some demo_token)),
     T_message ''12D3'' ExportComplete])))) \<noteq> None"
proof -
  let ?evs = "[T_message ''12D3'' (ExportData ''identity'' (JStr ''key'') None None (Some demo_token)), T_message ''12D3'' ExportComplete]"
  have e: "map snd (t_imports (target_run demo_target ?evs)) = [Replace]" by code_simp
  then obtain x where x: "t_imports (target_run demo_target ?evs) = [(x, Replace)]" by (cases "t_imports (target_run demo_target ?evs)") auto
  have "identity x \<noteq> None" using import_only_from_the_source [OF demo_connects, of x Replace ?evs] unfolding x by simp
  then show ?thesis using demo_connects e x by simp
qed

end
