(* ===== verification/Device_Sync_Session.thy ===== *)
theory Device_Sync_Session
  imports Device_Sync
begin

text \<open>
  A pairing of two devices from the code to the end, on the two ends modelled in \<open>Device_Sync\<close>: the code that is shown is read back,
  the batches keep the budget of a frame as counted in bytes, and an undisturbed session copies the account.
\<close>

section \<open>Codes and frame sizes\<close>

lemma js_trim_id: "s \<noteq> [] \<Longrightarrow> \<not> is_space (hd s) \<Longrightarrow> \<not> is_space (last s) \<Longrightarrow> js_trim s = s"
  by (simp add: js_trim_def dropWhile_eq_self_iff [THEN iffD2] hd_rev)

lemma plain_parts:
  "full_token t \<Longrightarrow> CHR '':'' \<notin> set t" "ed25519_peer p \<Longrightarrow> CHR '':'' \<notin> set p" "ed25519_peer p \<Longrightarrow> \<not> is_space (last p) \<and> p \<noteq> []"
proof -
  show "CHR '':'' \<notin> set t" if "full_token t"
    using that by (auto simp: full_token_def list_all_iff hex_lower_def is_digit_def Let_def)
  have split: "\<exists>q. p = ''12D3KooW'' @ q \<and> list_all base58_char q \<and> q \<noteq> []" if "ed25519_peer p"
  proof -
    have "take 8 p = ''12D3KooW''" using that by (simp add: ed25519_peer_def starts_with_def numeral_eq_Suc)
    then have "p = ''12D3KooW'' @ drop 8 p" using append_take_drop_id [of 8 p] by simp
    moreover have "list_all base58_char (drop 8 p)" "drop 8 p \<noteq> []" using that by (simp_all add: ed25519_peer_def)
    ultimately show ?thesis by blast
  qed
  show "CHR '':'' \<notin> set p" if peer: "ed25519_peer p"
  proof -
    obtain q where q: "p = ''12D3KooW'' @ q" "list_all base58_char q" using split [OF peer] by blast
    moreover have "\<not> base58_char (CHR '':'')" by (simp add: base58_char_def)
    ultimately have "CHR '':'' \<notin> set q" unfolding list_all_iff by blast
    then show ?thesis using q(1) by simp
  qed
  show "\<not> is_space (last p) \<and> p \<noteq> []" if peer: "ed25519_peer p"
  proof -
    obtain q where q: "p = ''12D3KooW'' @ q" "list_all base58_char q" "q \<noteq> []" using split [OF peer] by blast
    then have "base58_char (last q)" using last_in_set [of q] by (simp add: list_all_iff)
    then have "\<not> is_space (last q)" by (auto simp: base58_char_def is_space_def Let_def)
    then show ?thesis using q by simp
  qed
qed

lemma hex_not_upper: "hex_lower c \<Longrightarrow> lower_char c = c"
  by (auto simp: hex_lower_def lower_char_def is_digit_def Let_def)

lemma to_lower_token: "full_token t \<Longrightarrow> to_lower t = t"
  by (simp add: full_token_def to_lower_def list_all_iff hex_not_upper map_idI)

text \<open>The code a source shows is read back as its room, token and peer, and lets a target connect for as long as it lasts.\<close>

lemma code_roundtrip:
  assumes s: "starts_with secret ''r2_''" "CHR '':'' \<notin> set secret" "parseRoomSecret lib secret = Some secret"
    and t: "full_token token" and p: "ed25519_peer selfId"
  shows "\<exists>pl. parsePlaintextToken lib now (sync_code secret token selfId) = Inr (Some pl) \<and> roomSecret pl = Some secret \<and>
    ptoken pl = token \<and> peerId pl = Some selfId \<and>
    (now' \<le> now + SYNC_TIMEOUT \<longrightarrow> (\<exists>t0. connectAsTarget lib (pl\<lparr>pmode := m\<rparr>) now' = Inr t0))"
proof -
  let ?code = "sync_code secret token selfId"
  obtain r where r: "secret = ''r2_'' @ r"
    using s(1) append_take_drop_id [of 3 secret] by (metis starts_with_def length_Cons list.size(3) numeral_3_eq_3)
  have sp: "split_on (CHR '':'') ?code = [secret, token, selfId]"
    using s(2) plain_parts(1) [OF t] plain_parts(2) [OF p] by (simp add: sync_code_def split_on_append split_on_plain)
  have "js_trim ?code = ?code"
    using plain_parts(3) [OF p] r by (intro js_trim_id) (auto simp: sync_code_def is_space_def Let_def)
  moreover have "starts_with ?code ''r2_''" using r by (simp add: starts_with_def sync_code_def)
  ultimately have "parsePlaintextToken lib now ?code =
      Inr (Some \<lparr>roomSecret = Some secret, roomCode = discovery lib secret, ptoken = token, expires = Some (now + SYNC_TIMEOUT),
        pmode = None, peerId = Some selfId, peerPrefix = None\<rparr>)"
    using sp t p s(3) by (simp add: parsePlaintextToken_def)
  then show ?thesis using s(3) t p r plain_parts(3) [OF p] to_lower_token [OF t] by (simp add: connectAsTarget_def present_def)
qed

text \<open>The codes of the older forms are still read, but no target connects with what they give.\<close>

lemma older_codes_refused:
  assumes "parsePlaintextToken lib now code = Inr (Some pl)" "\<not> starts_with (js_trim code) ''r2_''"
  shows "connectAsTarget lib (pl\<lparr>pmode := m\<rparr>) now' = Inl Not_a_secure_code"
proof -
  have "roomSecret pl = None" using assms by (auto simp: parsePlaintextToken_def Let_def split: if_splits option.splits list.splits)
  then show ?thesis by (simp add: connectAsTarget_def present_def)
qed

text \<open>The reference for sizes: the code points of a string of 16-bit units, with the replacement character for a lone surrogate, as UTF-8.\<close>

fun code_points :: "nat list \<Rightarrow> nat list" where
  "code_points (h # l # s) =
     (if 0xd800 \<le> h \<and> h \<le> 0xdbff \<and> 0xdc00 \<le> l \<and> l \<le> 0xdfff
      then (0x10000 + (h - 0xd800) * 0x400 + (l - 0xdc00)) # code_points s
      else (if 0xd800 \<le> h \<and> h \<le> 0xdfff then 0xfffd else h) # code_points (l # s))"
| "code_points [h] = [if 0xd800 \<le> h \<and> h \<le> 0xdfff then 0xfffd else h]"
| "code_points [] = []"

definition utf8_bytes :: "nat \<Rightarrow> nat list" where
  "utf8_bytes c =
     (if c < 0x80 then [c]
      else if c < 0x800 then [0xc0 + c div 64, 0x80 + c mod 64]
      else if c < 0x10000 then [0xe0 + c div 4096, 0x80 + c div 64 mod 64, 0x80 + c mod 64]
      else [0xf0 + c div 262144, 0x80 + c div 4096 mod 64, 0x80 + c div 64 mod 64, 0x80 + c mod 64])"

lemma utf8Length_counts_bytes:
  "list_all (\<lambda>c. c < 0x10000) s \<Longrightarrow> utf8Length s = length (concat (map utf8_bytes (code_points s)))"
  by (induction s rule: code_points.induct) (auto simp: utf8_bytes_def)

definition utf8_units :: "nat list \<Rightarrow> nat list" where
  "utf8_units u = concat (map utf8_bytes (code_points u))"

lemma utf8Length_snoc: "utf8Length (xs @ c # ys) = utf8Length xs + utf8Length (c # ys)" if "c < 0x80" for c
  by (induction xs rule: utf8Length.induct) (use that in \<open>auto simp: neq_Nil_conv hd_append\<close>)

definition row_units :: "'r row_ops \<Rightarrow> 'r \<Rightarrow> nat list" where
  "row_units R v = (case row_text R v of None \<Rightarrow> [] | Some u \<Rightarrow> u)"

fun joined :: "nat list list \<Rightarrow> nat list" where
  "joined [] = []"
| "joined [u] = u"
| "joined (u # us) = u @ 44 # joined us"

definition array_units :: "'r row_ops \<Rightarrow> 'r list \<Rightarrow> nat list" where
  \<comment> \<open>the text of an array of rows: brackets, and commas between\<close>
  "array_units R b = 91 # joined (map (row_units R) b) @ [93]"

lemma array_units_js: "JUndefined \<notin> set b \<Longrightarrow> array_units js_rows b = map of_char (json_text (JArr b))"
proof -
  assume b: "JUndefined \<notin> set b"
  have "joined (map (map of_char) ts) = map of_char (js_join '','' ts)" for ts :: "string list"
    by (induction "'','' :: string" ts rule: js_join.induct) simp_all
  moreover have "map (row_units js_rows) b = map (map of_char) (map json_text b)"
    using b by (auto simp: row_units_def js_rows_def)
  ultimately have "joined (map (row_units js_rows) b) = map of_char (js_join '','' (map json_text b))" by metis
  then show ?thesis by (simp add: array_units_def)
qed

lemma joined_all: "list_all (list_all P) us \<Longrightarrow> P 44 \<Longrightarrow> list_all P (joined us)"
  by (induction us rule: joined.induct) auto

lemma joined_size: "b \<noteq> [] \<Longrightarrow> utf8Length (joined (map (row_units R) b) @ [93]) = sum_list (map (item_size R) b) + length b"
proof (induction b)
  case (Cons v b)
  have v: "utf8Length (row_units R v @ c # ys) = item_size R v + utf8Length (c # ys)" if "c < 0x80" for c ys
    using utf8Length_snoc [OF that] by (simp add: row_units_def item_size_def)
  show ?case
  proof (cases b)
    case Nil
    then show ?thesis using v [of 93 "[]"] by simp
  next
    case (Cons w b')
    then show ?thesis using v [of 44] Cons.IH by simp
  qed
qed simp

text \<open>C38: The batches of a section, for rows with any text. They hold all rows in order, a row whose text takes more than 2500000 bytes in
  UTF-8 without its data; none is empty, none has more than fifty rows; and the text of a batch, brackets and commas included, takes
  at most 2500051 bytes in UTF-8, unless it is one single row that takes more than 2500000 bytes even without its data.\<close>
theorem batches_keep_the_budget:
  assumes "\<And>v. list_all (\<lambda>c. c < 0x10000) (row_units R v)"
  defines "bytes \<equiv> \<lambda>u. length (utf8_units u)"
  shows "concat (batches_of R vs) = map (\<lambda>v. if 2500000 < bytes (row_units R v) then bare R v else v) vs \<and>
    (\<forall>b \<in> set (batches_of R vs). b \<noteq> [] \<and> length b \<le> 50 \<and>
       (bytes (array_units R b) \<le> 2500051 \<or> (\<exists>v \<in> set vs. b = [bare R v] \<and> 2500000 < bytes (row_units R (bare R v)))))"
proof (intro conjI ballI)
  have size: "item_size R v = bytes (row_units R v)" for v
    using utf8Length_counts_bytes [OF assms(1)] by (simp add: bytes_def utf8_units_def item_size_def row_units_def)
  have fit: "fit_item R v = (if 2500000 < bytes (row_units R v) then bare R v else v)" for v
    by (simp add: fit_item_def size MAX_BATCH_BYTES_def)
  show "concat (batches_of R vs) = map (\<lambda>v. if 2500000 < bytes (row_units R v) then bare R v else v) vs"
    by (simp add: batches_of_concat fit)
  fix b
  assume b: "b \<in> set (batches_of R vs)"
  then have f: "fits_frame R b" using batches_fit by (auto simp: list_all_iff)
  then show "b \<noteq> []" "length b \<le> 50" by (simp_all add: fits_frame_def BATCH_SIZE_def)
  have sub: "set b \<subseteq> fit_item R ` set vs" using b batches_of_concat [of R vs] by (metis UN_upper list.set_map set_concat)
  have "list_all (\<lambda>c. c < 0x10000) (joined (map (row_units R) b))"
    using assms(1) by (intro joined_all) (simp_all add: list_all_iff)
  then have "bytes (array_units R b) = utf8Length (array_units R b)"
    using utf8Length_counts_bytes [of "array_units R b"] by (simp add: bytes_def utf8_units_def array_units_def)
  then have sz: "bytes (array_units R b) = sum_list (map (item_size R) b) + length b + 1"
    using f joined_size [of b R] by (simp add: array_units_def fits_frame_def)
  show "bytes (array_units R b) \<le> 2500051 \<or> (\<exists>v \<in> set vs. b = [bare R v] \<and> 2500000 < bytes (row_units R (bare R v)))"
  proof (cases "sum_list (map (item_size R) b) \<le> MAX_BATCH_BYTES")
    case True
    then show ?thesis using f sz by (simp add: fits_frame_def MAX_BATCH_BYTES_def BATCH_SIZE_def)
  next
    case False
    then obtain x where x: "b = [x]" using f by (auto simp: fits_frame_def length_Suc_conv)
    then obtain v where "v \<in> set vs" "x = fit_item R v" using sub by auto
    moreover have "fit_item R v = bare R v" using False x calculation by (auto simp: fit_item_def split: if_splits)
    ultimately show ?thesis using False x by (auto simp: MAX_BATCH_BYTES_def size)
  qed
qed

definition demo_row_ops :: "nat list row_ops" where
  "demo_row_ops = \<lparr>row_text = \<lambda>v. Some (map (\<lambda>c. c mod 0x10000) v), bare = \<lambda>v. []\<rparr>"

theorem batches_keep_the_budget_witness:
  \<comment> \<open>two rows, with a character of three bytes and one of four\<close>
  "batches_of demo_row_ops [[0x4e2d], [0xd83d, 0xde00]] = [[[0x4e2d], [0xd83d, 0xde00]]] \<and>
   length (utf8_units (array_units demo_row_ops [[0x4e2d], [0xd83d, 0xde00]])) = 10 \<and>
   concat (batches_of demo_row_ops [[0x4e2d], [0xd83d, 0xde00]]) = [[0x4e2d], [0xd83d, 0xde00]]"
proof -
  have units: "list_all (\<lambda>c. c < 0x10000) (row_units demo_row_ops v)" for v by (simp add: row_units_def demo_row_ops_def list_all_iff)
  have b: "batches_of demo_row_ops [[0x4e2d], [0xd83d, 0xde00]] = [[[0x4e2d], [0xd83d, 0xde00]]]"
    by (simp add: batches_of_def fit_item_def item_size_def demo_row_ops_def MAX_BATCH_BYTES_def BATCH_SIZE_def)
  have "length (utf8_units (row_units demo_row_ops [0x4e2d])) = 3" "length (utf8_units (row_units demo_row_ops [0xd83d, 0xde00])) = 4"
    "length (utf8_units (array_units demo_row_ops [[0x4e2d], [0xd83d, 0xde00]])) = 10"
    by (simp_all add: row_units_def array_units_def demo_row_ops_def utf8_units_def utf8_bytes_def)
  then show ?thesis using b batches_keep_the_budget [OF units, of "[[0x4e2d], [0xd83d, 0xde00]]"] by simp
qed


text \<open>
  The count of batches does not notice a section none of whose batches arrived: it was never announced.
\<close>

lemma lost_section_imported:
  "map snd (t_imports (target_run demo_target [T_connect ''12D3'',
     T_message ''12D3'' (ExportData ''identity'' (JStr ''key'') None None (Some demo_token)), T_message ''12D3'' ExportComplete])) = [Replace] \<and>
   js_get (sections (fst (hd (t_imports (target_run demo_target [T_connect ''12D3'',
     T_message ''12D3'' (ExportData ''identity'' (JStr ''key'') None None (Some demo_token)), T_message ''12D3'' ExportComplete]))))) ''messages'' = Some [] \<and>
   js_get (sections demo_account) ''messages'' = Some [JStr ''hi'', JStr ''ho'']"
  by code_simp

section \<open>A whole session\<close>

fun frames_in :: "plan_item list \<Rightarrow> SyncMessage list" where
  "frames_in [] = []"
| "frames_in (Frame m # r) = m # frames_in r"
| "frames_in (Show x # r) = frames_in r"
| "frames_in (Delay # r) = frames_in r"

lemma frames_in_append [simp]: "frames_in (a @ b) = frames_in a @ frames_in b"
  by (induction a rule: frames_in.induct) simp_all

definition same_session :: "source \<Rightarrow> source \<Rightarrow> bool" where
  "same_session s s' \<longleftrightarrow> s_live s' = s_live s \<and> s_sent s' = s_sent s \<and> authorized s' = authorized s \<and> s_error s' = s_error s"

definition all_sent :: "string \<Rightarrow> SyncMessage list \<Rightarrow> source \<Rightarrow> source \<Rightarrow> bool" where
  "all_sent p ms s s' \<longleftrightarrow>
     s_live s' \<and> s_job s' = None \<and> ackTimer s' \<and> authorized s' = authorized s \<and> s_error s' = s_error s \<and> s_sent s' = s_sent s @ map (Pair p) ms"

definition pump :: "nat \<Rightarrow> source_event list" where
  "pump k = concat (replicate k [S_sent True, S_waited])"

lemma pump_done: "s_job s = None \<Longrightarrow> fold source_step (pump k) s = s"
  by (induction k) (simp_all add: pump_def source_sent_def source_waited_def)

lemma pump_Suc: "fold source_step (pump (Suc k)) s = fold source_step (pump k) (source_waited (source_sent True s))"
  by (simp add: pump_def)

lemma waited_next_send:
  "s_live s \<Longrightarrow> \<exists>plan' s'. source_waited (next_send p plan s) = next_send p plan' s' \<and> length plan' \<le> length plan \<and>
     frames_in plan' = frames_in plan \<and> same_session s s'"
proof (induction p plan s rule: next_send.induct)
  case (1 p s)
  show ?case by (rule exI [of _ "[]"], rule exI [of _ s]) (simp add: source_waited_def same_session_def)
next
  case (2 p x r s)
  then obtain plan' s' where "source_waited (next_send p r (s\<lparr>s_progress := x\<rparr>)) = next_send p plan' s'" "length plan' \<le> length r"
      "frames_in plan' = frames_in r" "same_session s s'"
    by (auto simp: same_session_def)
  then show ?case by (intro exI [of _ plan'] exI [of _ s']) simp
next
  case (3 p m r s)
  show ?case by (rule exI [of _ "Frame m # r"], rule exI [of _ s]) (simp add: source_waited_def same_session_def post_def)
next
  case (4 p r s)
  then show ?case
    by (intro exI [of _ r] exI [of _ "s\<lparr>s_job := Some (p, Waiting r)\<rparr>"]) (simp add: source_waited_def same_session_def)
qed

lemma all_sent_same: "all_sent p ms s' u \<Longrightarrow> same_session s s' \<Longrightarrow> all_sent p ms s u"
  by (simp add: all_sent_def same_session_def)

lemma pump_sends:
  assumes "s_live s" "length plan \<le> k"
  shows "all_sent p (frames_in plan) s (fold source_step (pump k) (next_send p plan s))"
  using assms
proof (induction "length plan" arbitrary: plan s k rule: less_induct)
  case less
  show ?case
  proof (cases plan)
    case Nil
    then show ?thesis using less.prems by (simp add: pump_done all_sent_def)
  next
    case (Cons it r)
    then obtain j where k: "k = Suc j" and j: "length r \<le> j" using less.prems(2) by (cases k) auto
    show ?thesis
    proof (cases it)
      case (Show x)
      have "all_sent p (frames_in r) (s\<lparr>s_progress := x\<rparr>) (fold source_step (pump k) (next_send p r (s\<lparr>s_progress := x\<rparr>)))"
        using less.prems Cons by (intro less.hyps) simp_all
      then show ?thesis using Cons Show all_sent_same by (simp add: same_session_def all_sent_def)
    next
      case Delay
      let ?s = "s\<lparr>s_job := Some (p, Waiting r)\<rparr>"
      have "fold source_step (pump k) (next_send p plan s) = fold source_step (pump j) (next_send p r ?s)"
        using Cons Delay less.prems(1) unfolding k pump_Suc by (simp add: source_sent_def source_waited_def)
      moreover have "all_sent p (frames_in r) ?s (fold source_step (pump j) (next_send p r ?s))"
        using less.prems Cons j by (intro less.hyps) simp_all
      ultimately show ?thesis using Cons Delay by (simp add: all_sent_def)
    next
      case (Frame m)
      let ?s = "post p m (s\<lparr>s_job := Some (p, Sending r)\<rparr>)"
      have live: "s_live ?s" using less.prems by (simp add: post_def)
      then obtain plan' s' where n: "source_waited (next_send p r ?s) = next_send p plan' s'" "length plan' \<le> length r"
          "frames_in plan' = frames_in r" "same_session ?s s'"
        using waited_next_send by blast
      have "source_sent True ?s = next_send p r ?s" using live by (simp add: source_sent_def post_def)
      then have "fold source_step (pump k) (next_send p plan s) = fold source_step (pump j) (next_send p plan' s')"
        using Cons Frame n(1) unfolding k pump_Suc by simp
      moreover have "all_sent p (frames_in plan') s' (fold source_step (pump j) (next_send p plan' s'))"
        using less.prems Cons j n live by (intro less.hyps) (simp_all add: same_session_def)
      ultimately have "all_sent p (frames_in r) ?s (fold source_step (pump k) (next_send p plan s))"
        using all_sent_same [OF _ n(4)] n(3) by simp
      then show ?thesis using Cons Frame by (simp add: all_sent_def post_def)
    qed
  qed
qed

text \<open>The frames of a plan, as the target sees them.\<close>

fun data_of :: "SyncMessage \<Rightarrow> data_frame list" where
  "data_of (ExportData sec d i n tk) = [(sec, d, i, n)]"
| "data_of _ = []"

definition data_in :: "plan_item list \<Rightarrow> data_frame list" where
  "data_in plan = concat (map data_of (frames_in plan))"

lemma data_in_simps [simp]:
  "data_in [] = []" "data_in (Frame m # r) = data_of m @ data_in r" "data_in (Show x # r) = data_in r" "data_in (Delay # r) = data_in r"
  "data_in (a @ b) = data_in a @ data_in b"
  by (simp_all add: data_in_def)

definition numbered_batches :: "string \<Rightarrow> nat \<Rightarrow> nat \<Rightarrow> js_value list list \<Rightarrow> data_frame list" where
  "numbered_batches name i n bs = map (\<lambda>(j, b). (name, JArr b, Some j, Some n)) (enumerate i bs)"

lemma data_in_batches: "data_in (batch_frames name tk i n bs) = numbered_batches name i n bs"
  by (induction bs arbitrary: i) (auto simp: numbered_batches_def)

lemma data_in_sections:
  "data_in (plan_sections tk k xs) = concat (map (\<lambda>(name, vs). numbered_batches name 0 (length (batches_of js_rows vs)) (batches_of js_rows vs)) xs)"
  by (induction tk k xs rule: plan_sections.induct) (simp_all add: section_frames_def data_in_batches)

lemma frames_filter:
  "rows_of fs sec = rows_of (filter (\<lambda>f. fst f = sec) fs) sec"
  "announced fs sec = announced (filter (\<lambda>f. fst f = sec) fs) sec"
  "indices_of fs sec = indices_of (filter (\<lambda>f. fst f = sec) fs) sec"
  by (induction fs rule: rev_induct; auto)+

lemma numbered_snoc: "numbered_batches name i n (bs @ [b]) = numbered_batches name i n bs @ [(name, JArr b, Some (i + length bs), Some n)]"
  by (simp add: numbered_batches_def enumerate_append_eq)

lemma numbered_Nil [simp]: "numbered_batches name i n [] = []"
  by (simp add: numbered_batches_def)

lemma numbered_frames:
  "rows_of (numbered_batches name 0 n bs) name = concat bs"
  "announced (numbered_batches name 0 n bs) name = (if bs = [] then None else Some n)"
  "indices_of (numbered_batches name 0 n bs) name = [0..<length bs]"
  by (induction bs rule: rev_induct) (simp_all add: numbered_snoc array_of_def set_add_def)

lemma filter_numbered: "filter (\<lambda>f. fst f = sec) (numbered_batches name i n bs) = (if name = sec then numbered_batches name i n bs else [])"
  by (auto simp: numbered_batches_def filter_map comp_def case_prod_beta intro!: filter_True filter_False)

lemma filter_sections:
  "distinct (map fst xs) \<Longrightarrow> (name, vs) \<in> set xs \<Longrightarrow>
   filter (\<lambda>f. fst f = name) (concat (map (\<lambda>(name, vs). numbered_batches name 0 (length (batches_of js_rows vs)) (batches_of js_rows vs)) xs)) =
     numbered_batches name 0 (length (batches_of js_rows vs)) (batches_of js_rows vs)"
proof (induction xs)
  case (Cons x xs)
  have none: "filter (\<lambda>f. fst f = sec) (concat (map (\<lambda>(name, vs). numbered_batches name 0 (length (batches_of js_rows vs)) (batches_of js_rows vs)) ys)) = []"
    if "sec \<notin> fst ` set ys" for sec ys
    using that by (induction ys) (auto simp: filter_numbered)
  obtain n vs' where x: "x = (n, vs')" by (cases x)
  show ?case
  proof (cases "name = n")
    case True
    then have "vs = vs'" using Cons.prems x by force
    then show ?thesis using True x Cons.prems none [of n xs] by (simp add: filter_numbered)
  next
    case False
    then show ?thesis using Cons x by (simp add: filter_numbered)
  qed
qed simp

definition account_frames :: "js_value \<Rightarrow> (string \<times> js_value list) list \<Rightarrow> data_frame list" where
  "account_frames i xs =
     (''identity'', i, None, None) # concat (map (\<lambda>(name, vs). numbered_batches name 0 (length (batches_of js_rows vs)) (batches_of js_rows vs)) xs)"

lemma account_section:
  assumes "distinct (map fst xs)" "(name, vs) \<in> set xs" "name \<noteq> ''identity''"
  shows "rows_of (account_frames i xs) name = map (fit_item js_rows) vs"
    and "announced (account_frames i xs) name = (if batches_of js_rows vs = [] then None else Some (length (batches_of js_rows vs)))"
    and "indices_of (account_frames i xs) name = [0..<length (batches_of js_rows vs)]"
  unfolding frames_filter [of "account_frames i xs" name]
  using filter_sections [OF assms(1,2)] assms(3) by (simp_all add: account_frames_def numbered_frames batches_of_concat)

lemma identity_of_none: "list_all (\<lambda>f. fst f \<noteq> ''identity'') fs \<Longrightarrow> identity_of (f # fs) = identity_of [f]"
proof (induction fs rule: rev_induct)
  case (snoc g fs)
  then show ?case using frames_snoc(2) [of "f # fs"] by (cases g) simp
qed simp

lemma numbered_name: "g \<in> set (numbered_batches name i n bs) \<Longrightarrow> fst g = name"
  by (auto simp: numbered_batches_def)

lemma account_identity: "list_all (\<lambda>x. fst x \<noteq> ''identity'') xs \<Longrightarrow> identity_of (account_frames i xs) = Some i"
  unfolding account_frames_def
  by (subst identity_of_none) (auto simp: list_all_iff identity_of_def dest!: numbered_name)

lemma account_whole:
  assumes "distinct (map fst xs)" "list_all (\<lambda>x. fst x \<noteq> ''identity'') xs"
  shows "whole (account_frames i xs)"
proof -
  have "fst f = ''identity'' \<or> (case announced (account_frames i xs) (fst f) of None \<Rightarrow> True | Some n \<Rightarrow> n \<le> length (indices_of (account_frames i xs) (fst f)))"
    if f: "f \<in> set (account_frames i xs)" for f
  proof (cases "fst f = ''identity''")
    case False
    then obtain vs where "(fst f, vs) \<in> set xs" using f by (force simp: account_frames_def dest!: numbered_name)
    then show ?thesis using account_section [OF assms(1) _ False, of vs i] by simp
  qed simp
  then show ?thesis by (simp add: whole_def list_all_iff)
qed

definition receiving :: "SyncPayload \<Rightarrow> string \<Rightarrow> target \<Rightarrow> bool" where
  "receiving pl src t \<longleftrightarrow>
     payload t = pl \<and> peerId pl = Some src \<and> src \<noteq> [] \<and> ptoken pl \<noteq> [] \<and> pinned t = Some src \<and> t_live t \<and>
     t_imports t = [] \<and> t_error t = None"

lemma section_progress_quiet [simp]: "t_error (section_progress sec i n t) = t_error t"
  by (simp add: section_progress_def)

lemma take_section_quiet [simp]: "t_error (take_section sec d i n t) = t_error t"
  by (simp add: take_section_def Let_def split: option.splits)

lemma receiving_data:
  assumes "receiving pl src t" "m = ExportData sec d i n (Some (ptoken pl))"
  shows "receiving pl src (target_message src m t)"
proof -
  have "tokenAccepted (Some (ptoken pl)) (Some (ptoken pl)) False" "matchesSourcePeer pl src" "present (Some src)"
    using assms by (simp_all add: receiving_def tokenAccepted_full present_def matchesSourcePeer_def)
  then show ?thesis using assms by (simp add: receiving_def target_message_def Let_def t_post_def)
qed

lemma receiving_frames:
  assumes "receiving pl src t" "list_all (\<lambda>m. is_data m \<and> bears (ptoken pl) m) ms"
  shows "receiving pl src (fold target_step (map (T_message src) ms) t)"
  using assms
proof (induction ms arbitrary: t)
  case (Cons m ms)
  then obtain sec d i n where "m = ExportData sec d i n (Some (ptoken pl))"
    by (cases m) (auto simp: is_data_def bears_def)
  then show ?case using Cons receiving_data by simp
qed simp

lemma trusted_frames:
  assumes "peerId pl = Some src" "list_all (bears (ptoken pl)) ms"
  shows "trusted pl (map (T_message src) ms) = concat (map data_of ms)"
proof -
  have "trusted_frame pl (T_message src m) = data_of m" if "m \<in> set ms" for m
  proof -
    have "bears (ptoken pl) m" using that assms(2) by (simp add: list_all_iff)
    then show ?thesis by (cases m) (simp_all add: bears_def assms(1))
  qed
  then show ?thesis by (simp add: trusted_def comp_def cong: map_cong)
qed

definition account_plan :: "string \<Rightarrow> DatabaseExport \<Rightarrow> plan_item list" where
  \<comment> \<open>\<open>export_plan\<close> without the last frame\<close>
  "account_plan token e =
     [Frame (ExportData ''identity'' (case identity e of None \<Rightarrow> JUndefined | Some i \<Rightarrow> i) None None (Some token)), Show 10] @
     plan_sections (Some token) 0 (map (\<lambda>n. (n, js_get_or [] (sections e) n)) EXPORT_SECTIONS)"

lemma export_plan_split: "frames_in (export_plan (Some token) e) = frames_in (account_plan token e) @ [ExportComplete]"
  by (simp add: export_plan_def account_plan_def)

lemma batch_frames_data: "list_all is_data (frames_in (batch_frames name tk i n bs))"
  by (induction bs arbitrary: i) (auto simp: is_data_def)

lemma plan_sections_data: "list_all is_data (frames_in (plan_sections tk k xs))"
  by (induction tk k xs rule: plan_sections.induct) (simp_all add: section_frames_def batch_frames_data)

lemma frames_carry: "plan_ok token plan \<Longrightarrow> list_all (bears token) (frames_in plan)"
  by (induction plan rule: frames_in.induct) simp_all

lemma account_plan_data: "list_all (\<lambda>m. is_data m \<and> bears token m) (frames_in (account_plan token e))"
proof -
  have "list_all is_data (frames_in (account_plan token e))"
    by (simp add: account_plan_def plan_sections_data is_data_def del: plan_sections.simps)
  moreover have "list_all (bears token) (frames_in (account_plan token e))"
    by (rule frames_carry) (simp add: account_plan_def plan_sections_ok bears_def del: plan_sections.simps)
  ultimately show ?thesis by (simp add: list_all_iff)
qed

definition exported_sections :: "DatabaseExport \<Rightarrow> (string \<times> js_value list) list" where
  "exported_sections e = map (\<lambda>n. (n, js_get_or [] (sections e) n)) EXPORT_SECTIONS"

lemma account_plan_frames:
  "concat (map data_of (frames_in (account_plan token e))) =
     account_frames (case identity e of None \<Rightarrow> JUndefined | Some i \<Rightarrow> i) (exported_sections e)"
proof -
  have "data_in (account_plan token e) = account_frames (case identity e of None \<Rightarrow> JUndefined | Some i \<Rightarrow> i) (exported_sections e)"
    by (simp add: account_plan_def account_frames_def exported_sections_def data_in_sections del: plan_sections.simps)
  then show ?thesis by (simp add: data_in_def)
qed

lemma exported_sections_wf:
  "distinct (map fst (exported_sections e))" "list_all (\<lambda>x. fst x \<noteq> ''identity'') (exported_sections e)"
  by (simp_all add: exported_sections_def EXPORT_SECTIONS_def)

definition copied :: "mode \<Rightarrow> DatabaseExport \<Rightarrow> DatabaseExport" where
  \<comment> \<open>what of an account arrives: rows too large for a frame without their bytes\<close>
  "copied md e =
     \<lparr>identity = (if md = Add then None else identity e),
      sections = map (\<lambda>n. (n, map (fit_item js_rows) (js_get_or [] (sections e) n))) EXPORT_SECTIONS\<rparr>"

lemma copy_of_account:
  assumes "md = Add \<or> (\<exists>i. identity e = Some i \<and> js_truthy i)"
  shows "copy_of md (account_frames (case identity e of None \<Rightarrow> JUndefined | Some i \<Rightarrow> i) (exported_sections e)) = copied md e"
proof -
  have "rows_of (account_frames i (exported_sections e)) n = map (fit_item js_rows) (js_get_or [] (sections e) n)" if "n \<in> set EXPORT_SECTIONS" for n i
    using that by (intro account_section exported_sections_wf) (auto simp: exported_sections_def EXPORT_SECTIONS_def)
  then show ?thesis using assms account_identity [OF exported_sections_wf(2)]
    by (auto simp: copy_of_def copied_def truthy_identity_def)
qed

lemma source_serves:
  fixes me :: string and ds :: "js_value list"
  assumes "token \<noteq> []" and k: "length (export_plan (Some token) e') \<le> k" and e': "e' = (if md = Add then e\<lparr>identity := None\<rparr> else e)"
  defines "s \<equiv> source_run token ([S_message me (ExportRequest (Some md) (Some token) (Some ds)), S_marked True, S_exported (Some e)] @ pump k)"
  shows "s_sent s = map (Pair me) (frames_in (account_plan token e') @ [ExportComplete])"
    and "s_live s" "authorized s = Some me" "s_error s = None"
proof -
  let ?s = "fold source_step [S_message me (ExportRequest (Some md) (Some token) (Some ds)), S_marked True] (new_source token)"
  have j: "s_job ?s = Some (me, Exporting md)" "s_live ?s" "s_token ?s = Some token" "s_sent ?s = []" "authorized ?s = Some me" "s_error ?s = None"
    using assms(1) by (auto simp: new_source_def source_message_def source_marked_def tokenAccepted_full present_def Let_def)
  then have "source_step (S_exported (Some e)) ?s = next_send me (export_plan (Some token) e') ?s"
    by (simp add: source_exported_def e')
  then have "s = fold source_step (pump k) (next_send me (export_plan (Some token) e') ?s)"
    unfolding s_def source_run_def by simp
  then have "all_sent me (frames_in (export_plan (Some token) e')) ?s s" using pump_sends [OF j(2) k] by simp
  then show "s_sent s = map (Pair me) (frames_in (account_plan token e') @ [ExportComplete])" "s_live s" "authorized s = Some me" "s_error s = None"
    using j by (simp_all add: all_sent_def export_plan_split)
qed

lemma target_asks:
  fixes ds :: "js_value list"
  assumes conn: "connectAsTarget lib pl now = Inr t0" and src: "peerId pl = Some src"
    and md: "md = (case pmode pl of None \<Rightarrow> Replace | Some m \<Rightarrow> m)"
  defines "t \<equiv> target_run t0 [T_connect src, T_markers ds]"
  shows "receiving pl src t" "t_sent t = [(src, ExportRequest (Some md) (Some (ptoken pl)) (Some (if md = Add then ds else [])))]"
proof -
  have "src \<noteq> []" "ptoken pl \<noteq> []"
    using connectAsTarget_Inr(2) [OF conn] full_token_ne [OF connectAsTarget_Inr(3) [OF conn]] src by (auto simp: present_def)
  moreover from this have "matchesSourcePeer pl src" using src by (simp add: matchesSourcePeer_def present_def)
  ultimately show "receiving pl src t" "t_sent t = [(src, ExportRequest (Some md) (Some (ptoken pl)) (Some (if md = Add then ds else [])))]"
    unfolding t_def connectAsTarget_Inr(5) [OF conn] md [symmetric]
    by (auto simp: target_run_def target_connect_def markers_read_def attempt_request_def receiving_def src present_def t_post_def Let_def)
qed

lemma trusted_append: "trusted pl (a @ b) = trusted pl a @ trusted pl b"
  by (simp add: trusted_def)

lemma target_imports:
  fixes ds :: "js_value list"
  assumes conn: "connectAsTarget lib pl now = Inr t0" and src: "peerId pl = Some src"
    and md: "md = (case pmode pl of None \<Rightarrow> Replace | Some m \<Rightarrow> m)" and full: "md = Add \<or> (\<exists>i. identity e = Some i \<and> js_truthy i)"
  defines "t \<equiv> target_run t0 ([T_connect src, T_markers ds] @ map (T_message src) (frames_in (account_plan (ptoken pl) e) @ [ExportComplete]))"
  shows "t_imports t = [(copied md e, md)]" "t_live t" "t_error t = None" "importing t = Some src"
proof -
  let ?evs = "[T_connect src, T_markers ds] @ map (T_message src) (frames_in (account_plan (ptoken pl) e))"
  let ?t = "target_run t0 ?evs"
  have r: "receiving pl src ?t"
    using receiving_frames [OF target_asks(1) [OF conn src md] account_plan_data] by (simp add: target_run_def)
  have "list_all (bears (ptoken pl)) (frames_in (account_plan (ptoken pl) e))" using account_plan_data by (simp add: list_all_iff)
  then have "trusted pl ?evs = account_frames (case identity e of None \<Rightarrow> JUndefined | Some i \<Rightarrow> i) (exported_sections e)"
    using trusted_frames [OF src] account_plan_frames [of "ptoken pl" e] by (simp only: trusted_append) (simp add: trusted_def)
  then have h: "holds (account_frames (case identity e of None \<Rightarrow> JUndefined | Some i \<Rightarrow> i) (exported_sections e)) ?t" and m: "t_mode ?t = md"
    using listens_run [OF conn, of ?evs] r md by (simp_all add: listens_def receiving_def)
  let ?u = "?t\<lparr>stallTimer := False, t_phase := Importing, t_progress := max (t_progress ?t) 90\<rparr>"
  have miss: "missing_sections (?t\<lparr>stallTimer := False\<rparr>) = []"
    using holds_missing [OF h] account_whole [OF exported_sections_wf] by (simp add: missing_sections_def)
  have "holds (account_frames (case identity e of None \<Rightarrow> JUndefined | Some i \<Rightarrow> i) (exported_sections e)) ?u"
    by (rule holds_same [OF h]) simp_all
  then have imp: "to_import ?u = copied md e" using holds_import copy_of_account [OF full] m by simp
  have idn: "md = Add \<or> (case receivedIdentity ?t of None \<Rightarrow> False | Some i \<Rightarrow> js_truthy i)"
    using h m full account_identity [OF exported_sections_wf(2)] by (auto simp: holds_def)
  have "t = target_message src ExportComplete ?t" unfolding t_def by (simp add: target_run_def)
  moreover have "matchesSourcePeer (payload ?t) src" "pinned ?t = Some src" "t_live ?t"
    using r by (simp_all add: receiving_def matchesSourcePeer_def present_def)
  ultimately have "t = ?u\<lparr>importing := Some src, lastReport := 0, t_imports := t_imports ?t @ [(copied md e, md)]\<rparr>"
    using miss imp idn m by (auto simp: target_message_def Let_def)
  then show "t_imports t = [(copied md e, md)]" "t_live t" "t_error t = None" "importing t = Some src"
    using r by (simp_all add: receiving_def)
qed

lemma copied_add: "copied md (if md = Add then e\<lparr>identity := None\<rparr> else e) = copied md e"
  by (simp add: copied_def)

text \<open>C13: A pairing that is not disturbed copies the account. The target that holds the code asks the source with its token; when every send
  succeeds the source sends its frames to that target, which, on getting them, hands to the import one copy of the account: the rows of every
  section, all of them in order, except that a row whose JSON takes more than 2500000 bytes comes without its \<^verbatim>\<open>data\<close>, and the identity, except
  when the data is only to be added. When the import is done the target is complete and says so to the source, which is then complete too, and neither shows an error.\<close>
theorem pairing_copies_account:
  fixes me :: string and ds :: "js_value list"
  assumes conn: "connectAsTarget lib pl now = Inr t0" and src: "peerId pl = Some src"
    and md: "md = (case pmode pl of None \<Rightarrow> Replace | Some m \<Rightarrow> m)" and full: "md = Add \<or> (\<exists>i. identity e = Some i \<and> js_truthy i)"
    and k: "length (export_plan (Some (ptoken pl)) (if md = Add then e\<lparr>identity := None\<rparr> else e)) \<le> k"
  defines "request \<equiv> ExportRequest (Some md) (Some (ptoken pl)) (Some (if md = Add then ds else []))"
    and "s \<equiv> source_run (ptoken pl) ([S_message me (ExportRequest (Some md) (Some (ptoken pl)) (Some (if md = Add then ds else []))),
      S_marked True, S_exported (Some e)] @ pump k)"
  defines "t \<equiv> target_run t0 ([T_connect src, T_markers ds] @ map (\<lambda>(q, m). T_message src m) (s_sent s))"
  shows "t_sent (target_run t0 [T_connect src, T_markers ds]) = [(src, request)] \<and> list_all (\<lambda>(q, m). q = me) (s_sent s) \<and>
    t_imports t = [(copied md e, md)] \<and>
    t_complete (import_done None t) \<and> t_error (import_done None t) = None \<and> last (t_sent (import_done None t)) = (src, ExportComplete) \<and>
    s_complete (source_message me ExportComplete s) \<and> s_error (source_message me ExportComplete s) = None"
proof -
  let ?e = "if md = Add then e\<lparr>identity := None\<rparr> else e"
  have tok: "ptoken pl \<noteq> []" by (rule full_token_ne [OF connectAsTarget_Inr(3) [OF conn]])
  note ss = source_serves [OF tok k refl, of me "if md = Add then ds else []", folded s_def]
  have ev: "map (\<lambda>(q, m). T_message src m) (s_sent s) = map (T_message src) (frames_in (account_plan (ptoken pl) ?e) @ [ExportComplete])"
    unfolding ss(1) by simp
  have "md = Add \<or> (\<exists>i. identity ?e = Some i \<and> js_truthy i)" using full by auto
  note tt = target_imports [OF conn src md this, of ds, folded ev, folded t_def]
  have "t_sent (target_run t0 [T_connect src, T_markers ds]) = [(src, request)]"
    unfolding request_def by (rule target_asks(2) [OF conn src md])
  moreover have "list_all (\<lambda>(q, m). q = me) (s_sent s)" unfolding ss(1) by (simp add: list_all_iff)
  moreover have "t_imports t = [(copied md e, md)]" using tt(1) copied_add [of md e] by simp
  moreover have "t_complete (import_done None t)" "t_error (import_done None t) = None" "last (t_sent (import_done None t)) = (src, ExportComplete)"
    using tt(2-4) by (simp_all add: import_done_def Let_def t_post_def cleanup_target_def)
  moreover have "s_complete (source_message me ExportComplete s)" "s_error (source_message me ExportComplete s) = None"
    using ss(2-4) by (simp_all add: source_message_def cleanup_source_def)
  ultimately show ?thesis by blast
qed

theorem pairing_copies_account_witness:
  "connectAsTarget demo_secrets demo_payload 0 = Inr demo_target \<and>
   t_imports (target_run demo_target ([T_connect ''12D3'', T_markers []] @ map (\<lambda>(q, m). T_message ''12D3'' m)
     (s_sent (source_run demo_token ([demo_request, S_marked True, S_exported (Some demo_account)]
       @ pump (length (export_plan (Some demo_token) demo_account))))))) =
     [(copied Replace demo_account, Replace)]"
  using demo_connects pairing_copies_account
    [OF demo_connects, where src = "''12D3''" and md = Replace and e = demo_account and me = "''me''" and ds = "[]", OF _ _ _ order_refl]
  by (simp add: demo_payload_def demo_account_def demo_request_def)

end
