(* ===== verification/Sfu_Auth.thy ===== *)
theory Sfu_Auth
  imports Js_Json
begin

text \<open>
  What a client has to prove before the media server lets it in, \<^verbatim>\<open>sfu/auth.ts\<close>: that it holds the device key its peer id is made of
  and that it was admitted to the room, both over a challenge this server made for this one socket. Ed25519, base58 and the base64 forms of
  the platform's \<^verbatim>\<open>Buffer\<close> are parameters.
\<close>

record node_lib =
  bs58_decode :: "string \<Rightarrow> 8 word list option" \<comment> \<open>\<open>None\<close> when it throws\<close>
  from_base64 :: "string \<Rightarrow> 8 word list"
  from_base64url :: "string \<Rightarrow> 8 word list"
  to_base64url :: "8 word list \<Rightarrow> string"
  ed25519_verify :: "string \<Rightarrow> 8 word list \<Rightarrow> 8 word list \<Rightarrow> bool"
    \<comment> \<open>\<^verbatim>\<open>verify(null, data, createPublicKey(x), signature)\<close>, false when either throws\<close>

definition JOIN_TIMEOUT_MS :: int where "JOIN_TIMEOUT_MS = 10000"

definition alnum :: "char \<Rightarrow> bool" where
  "alnum c \<longleftrightarrow> (let n = of_char c :: nat in 48 \<le> n \<and> n \<le> 57 \<or> 65 \<le> n \<and> n \<le> 90 \<or> 97 \<le> n \<and> n \<le> 122)"

definition base64_char :: "char \<Rightarrow> bool" where
  "base64_char c \<longleftrightarrow> alnum c \<or> c = CHR ''+'' \<or> c = CHR ''/''"

definition base64url_char :: "char \<Rightarrow> bool" where
  "base64url_char c \<longleftrightarrow> alnum c \<or> c = CHR ''_'' \<or> c = CHR ''-''"

definition hex_char :: "char \<Rightarrow> bool" where
  "hex_char c \<longleftrightarrow> (let n = of_char c :: nat in 48 \<le> n \<and> n \<le> 57 \<or> 97 \<le> n \<and> n \<le> 102)"

definition joinPayload :: "string \<Rightarrow> string \<Rightarrow> string \<Rightarrow> string" where
  "joinPayload nonce room peer = json_array [''awful:sfu:join:v1'', nonce, room, peer]"

definition roomPayload :: "string \<Rightarrow> string \<Rightarrow> string \<Rightarrow> string" where
  "roomPayload nonce room peer = json_array [''awful:sfu:room:v2'', nonce, room, peer]"

definition verifyJoin :: "node_lib \<Rightarrow> string \<Rightarrow> string \<Rightarrow> string \<Rightarrow> string option \<Rightarrow> bool" where
  "verifyJoin lib nonce room peer signature =
     (case signature of
        None \<Rightarrow> False
      | Some s \<Rightarrow>
          if \<not> (length s = 88 \<and> list_all base64_char (take 86 s) \<and> drop 86 s = ''=='') then False
          else (case bs58_decode lib peer of
                  None \<Rightarrow> False
                | Some bytes \<Rightarrow>
                    if length bytes \<noteq> 38 \<or> take 6 bytes \<noteq> [0, 36, 8, 1, 18, 32] then False
                    else ed25519_verify lib (to_base64url lib (drop 6 bytes)) (utf8 (joinPayload nonce room peer)) (from_base64 lib s)))"

definition verifyRoomAdmission :: "node_lib \<Rightarrow> string \<Rightarrow> string \<Rightarrow> string \<Rightarrow> string option \<Rightarrow> bool" where
  "verifyRoomAdmission lib nonce room peer capability =
     (if take 4 room \<noteq> ''rs2_'' then False
      else case capability of
        None \<Rightarrow> False
      | Some c \<Rightarrow>
          if \<not> (length room = 47 \<and> list_all base64url_char (drop 4 room) \<and> length c = 86 \<and> list_all base64url_char c \<and>
                 length nonce = 64 \<and> list_all hex_char nonce) then False
          else if to_base64url lib (from_base64url lib (drop 4 room)) \<noteq> drop 4 room \<or> to_base64url lib (from_base64url lib c) \<noteq> c then False
          else ed25519_verify lib (drop 4 room) (utf8 (roomPayload nonce room peer)) (from_base64url lib c))"

text \<open>
  A proof speaks for one challenge, room and peer, and a proof of one kind is never one of the other: the signed texts differ.
\<close>

lemma payloads_inject:
  "joinPayload n r p = joinPayload n' r' p' \<longleftrightarrow> n = n' \<and> r = r' \<and> p = p'"
  "roomPayload n r p = roomPayload n' r' p' \<longleftrightarrow> n = n' \<and> r = r' \<and> p = p'"
  "joinPayload n r p \<noteq> roomPayload n' r' p'"
  by (simp_all add: joinPayload_def roomPayload_def)

end
