(* ===== verification/Sfu_Server.thy ===== *)
theory Sfu_Server
  imports Sfu_Auth Sfu_Heartbeat
begin

text \<open>
  The sessions of the media server, \<^verbatim>\<open>sfu/index.ts\<close>: joining a room by proof, resuming and replacing a session, the transports,
  producers and consumers a session holds in the mediasoup worker, what the other members are told, and how everything is given back
  when a socket goes away.

  A session (\<^verbatim>\<open>PeerState\<close>) is a mutable object that the code compares by identity, so sessions live in a store and rooms hold their
  addresses. A socket's frames are handled one at a time; where the code awaits, the socket's \<open>pending_task\<close> says what for, and the answer is an event, so
  that other sockets, timers and the worker may come in between. The worker is outside: the identifiers it hands out are fresh numbers, and
  \<open>liveT\<close>, \<open>liveP\<close> and \<open>liveC\<close> are the transports, producers and consumers that it has made and that have not been closed. Request identifiers are
  echoed and left out, and so are the RTP, ICE and DTLS parameters that are only passed on, and the diagnostic snapshots (\<^verbatim>\<open>ms:diag\<close>).
\<close>

section \<open>State\<close>

datatype direction = Dsend | Drecv
datatype media_source = From_camera | From_screen
datatype media_kind = Audio | Video

datatype reply =
    Challenge string
  | Joined string \<comment> \<open>\<^verbatim>\<open>auth:joined\<close> with the resume token\<close>
  | Resumed_session string "string list" "(string \<times> nat \<times> media_source \<times> media_kind) list" "nat list" "nat list"
      \<comment> \<open>\<^verbatim>\<open>auth:resumed\<close>: token, peers, producers, own, consuming\<close>
  | Ms_error string "direction option"
  | Ms_capabilities nat
  | Transport_options direction nat
  | Ice_restarted direction
  | Produced nat
  | New_producer string nat media_source
  | Producer_closed string nat media_source media_kind bool \<comment> \<open>the last one is \<^verbatim>\<open>replacing\<close>\<close>
  | Consumer_options nat nat string media_source
  | Consume_failed nat
  | Producer_consumed string nat
  | Producer_consumer_closed string nat
  | Peer_left string

record producer_entry =
  pe_source :: media_source
  pe_kind :: media_kind
  viewers :: "string list" \<comment> \<open>the set \<^verbatim>\<open>consumers\<close>\<close>

record PeerState =
  peer_id :: string
  room_code :: string
  sock :: nat \<comment> \<open>\<^verbatim>\<open>ws\<close>\<close>
  sendT :: "nat option"
  recvT :: "nat option"
  producers :: "(nat, producer_entry) jsmap"
  consumers :: "(nat, nat \<times> bool) jsmap" \<comment> \<open>to the producer, and whether it is paused\<close>
  byProducer :: "(nat, nat) jsmap" \<comment> \<open>\<^verbatim>\<open>consumersByProducerId\<close>\<close>
  notifiedClosed :: "nat list"
  transportsInFlight :: "direction list"
  connectedT :: "direction list"
  reapTimers :: "(direction, nat) jsmap" \<comment> \<open>with the transport each timer is for\<close>
  producersInFlight :: nat
  consumersInFlight :: nat
  cumulativeProduces :: nat
  workerOps :: nat
  workerOpsWindowStart :: int
  pauseTimer :: bool
  resumeToken :: string
  detachTimer :: "nat option" \<comment> \<open>with the socket it was armed for\<close>

datatype pending_task =
    Probing string string nat nat "bool option" \<comment> \<open>room, peer, the incumbent, its socket, a verdict known at once\<close>
  | Making_router nat direction
  | Making_transport nat direction
  | Connecting nat direction nat
  | Restarting nat direction
  | Producing nat media_source media_kind
  | Consuming_router nat nat
  | Consuming nat nat
  | Resuming nat nat

record Conn =
  c_open :: bool \<comment> \<open>\<^verbatim>\<open>readyState === OPEN\<close>\<close>
  c_closed :: bool \<comment> \<open>the close event has come\<close>
  c_nonce :: "string option" \<comment> \<open>\<^verbatim>\<open>joinNonce\<close>\<close>
  c_deadline :: int
  c_joinTimer :: bool
  c_session :: "nat option" \<comment> \<open>the variable \<^verbatim>\<open>peer\<close>\<close>
  c_endedBy :: "EndedBy option"
  c_msgs :: "reply list" \<comment> \<open>sent on it\<close>

record sfu =
  peers :: "nat \<Rightarrow> PeerState"
  conns :: "nat \<Rightarrow> Conn"
  rooms :: "(string, (string, nat) jsmap) jsmap"
  routers :: "(string, nat) jsmap"
  closers :: "(string \<times> nat) list" \<comment> \<open>routers to be closed when they are there\<close>
  tasks :: "(nat, pending_task) jsmap" \<comment> \<open>what the frame of a socket waits for\<close>
  liveT :: "nat list"
  liveP :: "nat list"
  liveC :: "nat list"
  fresh :: nat

record sfu_config =
  max_rooms :: nat \<comment> \<open>\<^verbatim>\<open>SFU_MAX_ROOMS\<close>\<close>
  reaping :: bool \<comment> \<open>\<^verbatim>\<open>TRANSPORT_CONNECT_TIMEOUT_MS > 0\<close>\<close>
  resume_grace :: bool \<comment> \<open>\<^verbatim>\<open>RESUME_GRACE_MS > 0\<close>\<close>
  max_worker_ops :: nat

definition MAX_PEERS_PER_ROOM :: nat where "MAX_PEERS_PER_ROOM = 32"
definition MAX_PRODUCERS_PER_PEER :: nat where "MAX_PRODUCERS_PER_PEER = 8"
definition MAX_CUMULATIVE_PRODUCES_PER_SESSION :: nat where "MAX_CUMULATIVE_PRODUCES_PER_SESSION = 256"
definition MAX_CONSUMERS_PER_PEER :: nat where "MAX_CONSUMERS_PER_PEER = 256"
definition MAX_ID_LENGTH :: nat where "MAX_ID_LENGTH = 128"
definition WORKER_OP_WINDOW_MS :: int where "WORKER_OP_WINDOW_MS = 10000"

definition no_conn :: Conn where
  "no_conn = \<lparr>c_open = False, c_closed = True, c_nonce = None, c_deadline = 0, c_joinTimer = False, c_session = None, c_endedBy = None, c_msgs = []\<rparr>"

definition new_peer :: "string \<Rightarrow> string \<Rightarrow> nat \<Rightarrow> string \<Rightarrow> int \<Rightarrow> PeerState" where
  "new_peer room p w token now =
     \<lparr>peer_id = p, room_code = room, sock = w, sendT = None, recvT = None, producers = [], consumers = [], byProducer = [], notifiedClosed = [],
      transportsInFlight = [], connectedT = [], reapTimers = [], producersInFlight = 0, consumersInFlight = 0, cumulativeProduces = 0,
      workerOps = 0, workerOpsWindowStart = now, pauseTimer = False, resumeToken = token, detachTimer = None\<rparr>"

definition sfu_start :: sfu where
  "sfu_start = \<lparr>peers = (\<lambda>a. new_peer [] [] 0 [] 0), conns = (\<lambda>w. no_conn), rooms = [], routers = [], closers = [], tasks = [],
     liveT = [], liveP = [], liveC = [], fresh = 0\<rparr>"

definition upd_peer :: "nat \<Rightarrow> (PeerState \<Rightarrow> PeerState) \<Rightarrow> sfu \<Rightarrow> sfu" where
  "upd_peer a f st = st\<lparr>peers := (peers st)(a := f (peers st a))\<rparr>"

definition upd_conn :: "nat \<Rightarrow> (Conn \<Rightarrow> Conn) \<Rightarrow> sfu \<Rightarrow> sfu" where
  "upd_conn w f st = st\<lparr>conns := (conns st)(w := f (conns st w))\<rparr>"

definition room_members :: "sfu \<Rightarrow> string \<Rightarrow> (string, nat) jsmap" where
  "room_members st r = js_get_or [] (rooms st) r"

definition seat :: "sfu \<Rightarrow> string \<Rightarrow> string \<Rightarrow> nat option" where
  "seat st r p = js_get (room_members st r) p"

definition is_current :: "sfu \<Rightarrow> nat \<Rightarrow> bool" where
  \<comment> \<open>\<^verbatim>\<open>rooms.get(peer.roomCode)?.get(peer.peerId) === peer\<close>\<close>
  "is_current st a \<longleftrightarrow> seat st (room_code (peers st a)) (peer_id (peers st a)) = Some a"

definition isValidId :: "string option \<Rightarrow> bool" where
  "isValidId v \<longleftrightarrow>
     (case v of None \<Rightarrow> False
      | Some s \<Rightarrow> s \<noteq> [] \<and> length s \<le> MAX_ID_LENGTH \<and>
          list_all (\<lambda>c. let n = of_char c :: nat in \<not> n \<le> 31 \<and> n \<noteq> 127 \<and> \<not> is_space c) s)"

definition resumeTokenMatches :: "string option \<Rightarrow> string \<Rightarrow> unit + bool" where
  \<comment> \<open>\<^verbatim>\<open>timingSafeEqual\<close> throws on buffers of different length\<close>
  "resumeTokenMatches offered held =
     (case offered of
        None \<Rightarrow> Inr False
      | Some s \<Rightarrow> if length s \<noteq> length held then Inr False
          else if length (utf8 s) \<noteq> length (utf8 held) then Inl ()
          else Inr (utf8 s = utf8 held))"

section \<open>Sockets\<close>

definition send_to :: "nat \<Rightarrow> reply \<Rightarrow> sfu \<Rightarrow> sfu" where
  "send_to w m st = (if c_open (conns st w) then upd_conn w (\<lambda>c. c\<lparr>c_msgs := c_msgs c @ [m]\<rparr>) st else st)"

definition send_all :: "nat list \<Rightarrow> reply \<Rightarrow> sfu \<Rightarrow> sfu" where
  "send_all ws m st = fold (\<lambda>w. send_to w m) ws st"

definition shut :: "nat \<Rightarrow> sfu \<Rightarrow> sfu" where
  \<comment> \<open>\<^verbatim>\<open>ws.close()\<close> or \<^verbatim>\<open>ws.terminate()\<close>\<close>
  "shut w st = upd_conn w (\<lambda>c. c\<lparr>c_open := False\<rparr>) st"

definition cut :: "nat \<Rightarrow> EndedBy \<Rightarrow> sfu \<Rightarrow> sfu" where
  "cut w by_whom st = upd_conn w (\<lambda>c. c\<lparr>c_open := False, c_endedBy := Some by_whom\<rparr>) st"

definition refuse :: "nat \<Rightarrow> string \<Rightarrow> sfu \<Rightarrow> sfu" where
  "refuse w reason st = shut w (send_to w (Ms_error reason None) st)"

definition await_task :: "nat \<Rightarrow> pending_task \<Rightarrow> sfu \<Rightarrow> sfu" where
  "await_task w t st = st\<lparr>tasks := js_set (tasks st) w t\<rparr>"

definition end_task :: "nat \<Rightarrow> sfu \<Rightarrow> sfu" where
  "end_task w st = st\<lparr>tasks := js_delete (tasks st) w\<rparr>"

definition others :: "sfu \<Rightarrow> nat \<Rightarrow> nat list" where
  \<comment> \<open>the sockets of the other members of the room of a session\<close>
  "others st a = map (\<lambda>(p, b). sock (peers st b)) (filter (\<lambda>(p, b). p \<noteq> peer_id (peers st a)) (room_members st (room_code (peers st a))))"

definition roomProducers :: "sfu \<Rightarrow> (string, nat) jsmap \<Rightarrow> string \<Rightarrow> (string \<times> nat \<times> media_source \<times> media_kind) list" where
  "roomProducers st room exceptPeerId =
     concat (map (\<lambda>(p, b). if p = exceptPeerId then []
       else map (\<lambda>(pid, e). (p, pid, pe_source e, pe_kind e)) (producers (peers st b))) room)"

section \<open>What a session holds\<close>

definition transport_of :: "direction \<Rightarrow> PeerState \<Rightarrow> nat option" where
  "transport_of d p = (case d of Dsend \<Rightarrow> sendT p | Drecv \<Rightarrow> recvT p)"

definition set_transport :: "direction \<Rightarrow> nat option \<Rightarrow> PeerState \<Rightarrow> PeerState" where
  "set_transport d t p = (case d of Dsend \<Rightarrow> p\<lparr>sendT := t\<rparr> | Drecv \<Rightarrow> p\<lparr>recvT := t\<rparr>)"

definition closeT :: "nat option \<Rightarrow> sfu \<Rightarrow> sfu" where
  "closeT t st = (case t of None \<Rightarrow> st | Some x \<Rightarrow> st\<lparr>liveT := removeAll x (liveT st)\<rparr>)"

definition closeP :: "nat \<Rightarrow> sfu \<Rightarrow> sfu" where "closeP x st = st\<lparr>liveP := removeAll x (liveP st)\<rparr>"
definition closeC :: "nat \<Rightarrow> sfu \<Rightarrow> sfu" where "closeC x st = st\<lparr>liveC := removeAll x (liveC st)\<rparr>"

definition clearTransportReapTimer :: "direction \<Rightarrow> PeerState \<Rightarrow> PeerState" where
  "clearTransportReapTimer d p = p\<lparr>reapTimers := js_delete (reapTimers p) d\<rparr>"

definition reapTransport :: "nat \<Rightarrow> direction \<Rightarrow> nat \<Rightarrow> sfu \<Rightarrow> sfu" where
  "reapTransport a d t st =
     (if transport_of d (peers st a) \<noteq> Some t then st
      else
        let st = upd_peer a (\<lambda>p. set_transport d None (clearTransportReapTimer d p)\<lparr>connectedT := removeAll d (connectedT p)\<rparr>) st;
            st = closeT (Some t) st in
        send_to (sock (peers st a)) (Ms_error ''transport-timeout'' (Some d)) st)"

definition spendWorkerOp :: "sfu_config \<Rightarrow> nat \<Rightarrow> nat \<Rightarrow> int \<Rightarrow> sfu \<Rightarrow> bool \<times> sfu" where
  "spendWorkerOp cfg w a now st =
     (let st = (if WORKER_OP_WINDOW_MS \<le> now - workerOpsWindowStart (peers st a)
                then upd_peer a (\<lambda>p. p\<lparr>workerOpsWindowStart := now, workerOps := 0\<rparr>) st else st);
          st = upd_peer a (\<lambda>p. p\<lparr>workerOps := workerOps p + 1\<rparr>) st in
      if workerOps (peers st a) \<le> max_worker_ops cfg then (True, st)
      else (False, upd_peer a (\<lambda>p. p\<lparr>pauseTimer := True\<rparr>) (send_to w (Ms_error ''rate-limited'' None) st)))"

definition getOrCreateRouter :: "sfu_config \<Rightarrow> string \<Rightarrow> sfu \<Rightarrow> sfu option" where
  \<comment> \<open>\<open>None\<close> is \<^verbatim>\<open>RoomCeilingError\<close>; otherwise the router of the room is awaited\<close>
  "getOrCreateRouter cfg r st =
     (if js_get (routers st) r \<noteq> None then Some st
      else if max_rooms cfg \<le> length (routers st) then None
      else Some (st\<lparr>routers := js_set (routers st) r (fresh st), fresh := fresh st + 1\<rparr>))"

definition server_full :: "nat \<Rightarrow> sfu \<Rightarrow> sfu" where
  \<comment> \<open>the \<^verbatim>\<open>catch\<close> around the handlers, at capacity\<close>
  "server_full w st = refuse w ''server-full'' st"

definition leave_media :: "nat \<Rightarrow> (string, nat) jsmap \<Rightarrow> sfu \<Rightarrow> sfu" where
  \<comment> \<open>\<^verbatim>\<open>handlePeerLeft\<close> up to the removal from the room\<close>
  "leave_media a room st =
     (let pid = peer_id (peers st a);
          st = fold closeP (map fst (producers (peers st a))) st;
          st = fold closeC (map fst (consumers (peers st a))) st;
          st = upd_peer a (\<lambda>p. p\<lparr>producers := [], consumers := []\<rparr>) st;
          st = fold (\<lambda>(q, b). if q = pid then id
                 else upd_peer b (\<lambda>p. p\<lparr>producers := map (\<lambda>(i, e). (i, e\<lparr>viewers := removeAll pid (viewers e)\<rparr>)) (producers p)\<rparr>)) room st;
          st = closeT (sendT (peers st a)) st;
          st = closeT (recvT (peers st a)) st in
      upd_peer a (\<lambda>p. (clearTransportReapTimer Drecv (clearTransportReapTimer Dsend p))\<lparr>pauseTimer := False\<rparr>) st)"

definition handlePeerLeft :: "nat \<Rightarrow> sfu \<Rightarrow> sfu" where
  "handlePeerLeft a st =
     (let st = upd_peer a (\<lambda>p. p\<lparr>detachTimer := None\<rparr>) st;
          r = room_code (peers st a); pid = peer_id (peers st a) in
      case js_get (rooms st) r of
        None \<Rightarrow> st
      | Some room \<Rightarrow>
          let st = leave_media a room st;
              room = js_delete room pid;
              st = st\<lparr>rooms := js_set (rooms st) r room\<rparr>;
              st = send_all (map (\<lambda>(q, b). sock (peers st b)) room) (Peer_left pid) st in
          if room = [] then
            let st = st\<lparr>rooms := js_delete (rooms st) r\<rparr> in
            (case js_get (routers st) r of None \<Rightarrow> st | Some rid \<Rightarrow> st\<lparr>closers := closers st @ [(r, rid)]\<rparr>)
          else st)"

section \<open>Joining\<close>

definition resumeSession :: "nat \<Rightarrow> nat \<Rightarrow> string \<Rightarrow> sfu \<Rightarrow> sfu" where
  "resumeSession a w token st =
     (let previous = sock (peers st a);
          st = upd_peer a (\<lambda>p. p\<lparr>detachTimer := None, sock := w, pauseTimer := False\<rparr>) st;
          st = (if previous \<noteq> w \<and> \<not> c_closed (conns st previous) then cut previous Resumed st else st);
          st = upd_peer a (\<lambda>p. p\<lparr>resumeToken := token\<rparr>) st;
          room = room_members st (room_code (peers st a)); pid = peer_id (peers st a) in
      send_to w (Resumed_session token (filter (\<lambda>q. q \<noteq> pid) (map fst room)) (roomProducers st room pid)
        (map fst (producers (peers st a))) (map fst (byProducer (peers st a)))) st)"

definition close_old :: "string \<Rightarrow> string \<Rightarrow> nat \<Rightarrow> sfu \<Rightarrow> sfu" where
  \<comment> \<open>the previous session failed its liveness probe\<close>
  "close_old r pid old st =
     (let room = room_members st r;
          st = fold (\<lambda>(q, b). if q = pid then id
                 else fold (\<lambda>(i, e). send_to (sock (peers st b)) (Producer_closed pid i (pe_source e) (pe_kind e) True)) (producers (peers st old))) room st;
          st = fold closeP (map fst (producers (peers st old))) st;
          st = fold closeC (map fst (consumers (peers st old))) st;
          st = closeT (sendT (peers st old)) st;
          st = closeT (recvT (peers st old)) st;
          st = upd_peer old (\<lambda>p. (clearTransportReapTimer Drecv (clearTransportReapTimer Dsend p))\<lparr>detachTimer := None\<rparr>) st in
      cut (sock (peers st old)) Replaced st)"

definition admit :: "nat \<Rightarrow> string \<Rightarrow> string \<Rightarrow> nat option \<Rightarrow> string \<Rightarrow> int \<Rightarrow> sfu \<Rightarrow> sfu" where
  "admit w r pid old token now st =
     (let a = fresh st;
          st = st\<lparr>fresh := a + 1, peers := (peers st)(a := new_peer r pid w token now)\<rparr>;
          st = upd_conn w (\<lambda>c. c\<lparr>c_session := Some a\<rparr>) st;
          st = (if js_get (rooms st) r = None then st\<lparr>rooms := js_set (rooms st) r []\<rparr> else st);
          st = (case old of None \<Rightarrow> st | Some b \<Rightarrow> close_old r pid b st);
          room = js_set (room_members st r) pid a;
          st = st\<lparr>rooms := js_set (rooms st) r room\<rparr>;
          st = send_to w (Joined token) st in
      fold (\<lambda>(q, i, src, k). send_to w (New_producer q i src)) (roomProducers st room pid) st)"

definition probe_verdict :: "sfu \<Rightarrow> nat \<Rightarrow> bool \<Rightarrow> bool option" where
  \<comment> \<open>\<^verbatim>\<open>probeSessionAlive\<close>: what is known without asking the socket\<close>
  "probe_verdict st w buffered = (if \<not> c_open (conns st w) then Some False else if buffered then Some True else None)"

record join_msg =
  j_room :: "string option"
  j_peer :: "string option"
  j_signature :: "string option"
  j_capability :: "string option"
  j_resume :: "string option"

definition handleJoin :: "sfu_config \<Rightarrow> node_lib \<Rightarrow> nat \<Rightarrow> join_msg \<Rightarrow> int \<Rightarrow> string \<Rightarrow> bool \<Rightarrow> sfu \<Rightarrow> sfu" where
  \<comment> \<open>with a fresh token at hand, and whether the incumbent's socket has bytes queued\<close>
  "handleJoin cfg lib w j now token buffered st =
     (if \<not> isValidId (j_room j) \<or> \<not> isValidId (j_peer j) then refuse w ''invalid-join'' st
      else
        let r = the (j_room j); pid = the (j_peer j); nonce = c_nonce (conns st w);
            st = upd_conn w (\<lambda>c. c\<lparr>c_nonce := None\<rparr>) st in
        if (case nonce of None \<Rightarrow> True
            | Some n \<Rightarrow> c_deadline (conns st w) \<le> now \<or> \<not> verifyJoin lib n r pid (j_signature j) \<or>
                \<not> verifyRoomAdmission lib n r pid (j_capability j))
        then refuse w ''authentication-failed'' st
        else
          let st = upd_conn w (\<lambda>c. c\<lparr>c_joinTimer := False\<rparr>) st;
              existing = js_get (rooms st) r in
          if existing = None \<and> max_rooms cfg \<le> length (routers st) then server_full w st
          else if existing \<noteq> None \<and> seat st r pid = None \<and> MAX_PEERS_PER_ROOM \<le> length (room_members st r) then refuse w ''room-full'' st
          else case seat st r pid of
              None \<Rightarrow> admit w r pid None token now st
            | Some old \<Rightarrow>
                (case resumeTokenMatches (j_resume j) (resumeToken (peers st old)) of
                   Inl _ \<Rightarrow> st
                 | Inr True \<Rightarrow> resumeSession old w token (upd_conn w (\<lambda>c. c\<lparr>c_session := Some old\<rparr>) st)
                 | Inr False \<Rightarrow>
                     await_task w (Probing r pid old (sock (peers st old)) (probe_verdict st (sock (peers st old)) buffered)) st))"

definition probe_answer :: "nat \<Rightarrow> bool \<Rightarrow> string \<Rightarrow> int \<Rightarrow> sfu \<Rightarrow> sfu" where
  \<comment> \<open>the probe of the incumbent settled: a pong, or a close, an error or the time-out\<close>
  "probe_answer w pong token now st =
     (case js_get (tasks st) w of
        Some (Probing r pid old probedWs verdict) \<Rightarrow>
          let st = end_task w st; alive = (case verdict of Some v \<Rightarrow> v | None \<Rightarrow> pong) in
          if \<not> c_open (conns st w) then st
          else if alive then refuse w ''peer-id-in-use'' st
          else (case seat st r pid of
                  None \<Rightarrow> admit w r pid None token now st
                | Some cur \<Rightarrow>
                    if cur \<noteq> old \<or> sock (peers st cur) \<noteq> probedWs then refuse w ''peer-id-in-use'' st
                    else admit w r pid (Some cur) token now st)
      | _ \<Rightarrow> st)"

section \<open>Media\<close>

definition handleGetCapabilities :: "nat \<Rightarrow> sfu \<Rightarrow> sfu" where
  "handleGetCapabilities a st =
     send_to (sock (peers st a)) (Ms_capabilities (length (room_members st (room_code (peers st a))) - 1)) st"

definition handleCreateTransport :: "sfu_config \<Rightarrow> nat \<Rightarrow> nat \<Rightarrow> direction option \<Rightarrow> sfu \<Rightarrow> sfu" where
  "handleCreateTransport cfg w a dir st =
     (case dir of
        None \<Rightarrow> st
      | Some d \<Rightarrow>
          if d \<in> set (transportsInFlight (peers st a)) then st
          else (case getOrCreateRouter cfg (room_code (peers st a)) st of
                  None \<Rightarrow> server_full w st
                | Some st \<Rightarrow> await_task w (Making_router a d)
                    (upd_peer a (\<lambda>p. p\<lparr>transportsInFlight := transportsInFlight p @ [d]\<rparr>) st)))"

definition transport_made :: "sfu_config \<Rightarrow> nat \<Rightarrow> direction \<Rightarrow> sfu \<Rightarrow> sfu" where
  \<comment> \<open>\<^verbatim>\<open>createWebRtcTransport\<close> resolved\<close>
  "transport_made cfg a d st =
     (let t = fresh st;
          st = upd_peer a (\<lambda>p. p\<lparr>transportsInFlight := removeAll d (transportsInFlight p)\<rparr>) (st\<lparr>fresh := t + 1, liveT := liveT st @ [t]\<rparr>) in
      if \<not> is_current st a then closeT (Some t) st
      else
        let st = (case transport_of d (peers st a) of
                    None \<Rightarrow> st
                  | Some previous \<Rightarrow>
                      upd_peer a (\<lambda>p. clearTransportReapTimer d (p\<lparr>connectedT := removeAll d (connectedT p)\<rparr>)) (closeT (Some previous) st));
            st = upd_peer a (set_transport d (Some t)) st;
            st = (if reaping cfg then upd_peer a (\<lambda>p. p\<lparr>reapTimers := js_set (reapTimers p) d t\<rparr>) st else st) in
        send_to (sock (peers st a)) (Transport_options d t) st)"

definition handleRestartIce :: "nat \<Rightarrow> nat \<Rightarrow> direction option \<Rightarrow> sfu \<Rightarrow> sfu" where
  "handleRestartIce w a dir st =
     (case dir of
        None \<Rightarrow> st
      | Some d \<Rightarrow>
          (case transport_of d (peers st a) of
             None \<Rightarrow> st
           | Some t \<Rightarrow> if t \<notin> set (liveT st) \<or> d \<notin> set (connectedT (peers st a)) then st else await_task w (Restarting a d) st))"

definition handleConnectTransport :: "nat \<Rightarrow> nat \<Rightarrow> direction option \<Rightarrow> sfu \<Rightarrow> sfu" where
  "handleConnectTransport w a dir st =
     (case dir of
        None \<Rightarrow> st
      | Some d \<Rightarrow>
          if d \<in> set (connectedT (peers st a)) then st
          else (case transport_of d (peers st a) of None \<Rightarrow> st | Some t \<Rightarrow> await_task w (Connecting a d t) st))"

definition handleProduce :: "nat \<Rightarrow> nat \<Rightarrow> media_source option \<Rightarrow> media_kind \<Rightarrow> sfu \<Rightarrow> sfu" where
  "handleProduce w a src kind st =
     (let p = peers st a in
      if sendT p = None then st
      else case src of
        None \<Rightarrow> send_to (sock p) (Ms_error ''invalid-produce'' None) st
      | Some s \<Rightarrow>
          if MAX_PRODUCERS_PER_PEER \<le> length (producers p) + producersInFlight p then send_to (sock p) (Ms_error ''producer-limit'' None) st
          else if MAX_CUMULATIVE_PRODUCES_PER_SESSION \<le> cumulativeProduces p then send_to (sock p) (Ms_error ''producer-limit'' None) st
          else await_task w (Producing a s kind)
            (upd_peer a (\<lambda>p. p\<lparr>cumulativeProduces := cumulativeProduces p + 1, producersInFlight := producersInFlight p + 1\<rparr>) st))"

definition produced :: "nat \<Rightarrow> media_source \<Rightarrow> media_kind \<Rightarrow> sfu \<Rightarrow> sfu" where
  \<comment> \<open>\<^verbatim>\<open>produce()\<close> resolved\<close>
  "produced a src kind st =
     (let i = fresh st; st = st\<lparr>fresh := i + 1, liveP := liveP st @ [i]\<rparr> in
      if \<not> is_current st a then closeP i st
      else
        let st = upd_peer a (\<lambda>p. p\<lparr>producers := js_set (producers p) i \<lparr>pe_source = src, pe_kind = kind, viewers = []\<rparr>\<rparr>) st;
            st = send_to (sock (peers st a)) (Produced i) st in
        send_all (others st a) (New_producer (peer_id (peers st a)) i src) st)"

definition notifyProducerClosed :: "nat \<Rightarrow> nat \<Rightarrow> sfu \<Rightarrow> sfu" where
  \<comment> \<open>\<^verbatim>\<open>transportclose\<close> of a producer of the session, which closes it\<close>
  "notifyProducerClosed a i st =
     (case js_get (producers (peers st a)) i of
        None \<Rightarrow> st
      | Some e \<Rightarrow>
          if i \<notin> set (liveP st) then st
          else
            let st = closeP i st in
            if i \<in> set (notifiedClosed (peers st a)) then st
            else
              let st = upd_peer a (\<lambda>p. p\<lparr>notifiedClosed := set_add (notifiedClosed p) i, producers := js_delete (producers p) i\<rparr>) st in
              send_all (others st a) (Producer_closed (peer_id (peers st a)) i (pe_source e) (pe_kind e) False) st)"

definition owner_of :: "sfu \<Rightarrow> nat \<Rightarrow> nat \<Rightarrow> (string \<times> nat \<times> producer_entry) option" where
  \<comment> \<open>the loop over the room of a session for the holder of a producer\<close>
  "owner_of st a i =
     (case filter (\<lambda>(q, b). js_get (producers (peers st b)) i \<noteq> None) (room_members st (room_code (peers st a))) of
        [] \<Rightarrow> None
      | (q, b) # _ \<Rightarrow> Some (q, b, the (js_get (producers (peers st b)) i)))"

definition handleConsume :: "sfu_config \<Rightarrow> nat \<Rightarrow> nat \<Rightarrow> nat \<Rightarrow> sfu \<Rightarrow> sfu" where
  "handleConsume cfg w a i st =
     (let p = peers st a;
          existing = (case js_get (byProducer p) i of None \<Rightarrow> None
                      | Some c \<Rightarrow> (case js_get (consumers p) c of None \<Rightarrow> None | Some x \<Rightarrow> Some (c, fst x))) in
      if recvT p = None then st
      else case existing of
        Some (c, ci) \<Rightarrow>
          send_to (sock p) (Consumer_options c ci [] (case owner_of st a i of None \<Rightarrow> From_camera | Some (q, b, e) \<Rightarrow> pe_source e)) st
      | None \<Rightarrow>
          if MAX_CONSUMERS_PER_PEER \<le> length (consumers p) + consumersInFlight p then send_to (sock p) (Ms_error ''consumer-limit'' None) st
          else (case getOrCreateRouter cfg (room_code p) st of
                  None \<Rightarrow> server_full w st
                | Some st \<Rightarrow> await_task w (Consuming_router a i) (upd_peer a (\<lambda>p. p\<lparr>consumersInFlight := consumersInFlight p + 1\<rparr>) st)))"

definition consumed :: "nat \<Rightarrow> nat \<Rightarrow> sfu \<Rightarrow> sfu" where
  \<comment> \<open>\<^verbatim>\<open>consume()\<close> resolved\<close>
  "consumed a i st =
     (let c = fresh st; st = st\<lparr>fresh := c + 1, liveC := liveC st @ [c]\<rparr> in
      if \<not> is_current st a then closeC c st
      else
        let st = upd_peer a (\<lambda>p. p\<lparr>consumers := js_set (consumers p) c (i, True), byProducer := js_set (byProducer p) i c\<rparr>) st;
            me = peer_id (peers st a) in
        case owner_of st a i of
          None \<Rightarrow> send_to (sock (peers st a)) (Consumer_options c i [] From_camera) st
        | Some (q, b, e) \<Rightarrow>
            let st = upd_peer b (\<lambda>p. p\<lparr>producers := js_set (producers p) i (e\<lparr>viewers := set_add (viewers e) me\<rparr>)\<rparr>) st;
                st = (if pe_source e = From_screen \<and> q \<noteq> [] then send_to (sock (peers st b)) (Producer_consumed me i) st else st) in
            send_to (sock (peers st a)) (Consumer_options c i q (pe_source e)) st)"

definition consumer_gone :: "nat \<Rightarrow> nat \<Rightarrow> sfu \<Rightarrow> sfu" where
  \<comment> \<open>\<^verbatim>\<open>transportclose\<close> or \<^verbatim>\<open>producerclose\<close> of a consumer of the session\<close>
  "consumer_gone a c st =
     (case js_get (consumers (peers st a)) c of
        None \<Rightarrow> st
      | Some (i, _) \<Rightarrow>
          if c \<notin> set (liveC st) then st
          else upd_peer a (\<lambda>p. p\<lparr>consumers := js_delete (consumers p) c, byProducer := js_delete (byProducer p) i\<rparr>) (closeC c st))"

definition handleResumeConsumer :: "nat \<Rightarrow> nat \<Rightarrow> nat \<Rightarrow> sfu \<Rightarrow> sfu" where
  "handleResumeConsumer w a i st =
     (case js_get (byProducer (peers st a)) i of
        None \<Rightarrow> st
      | Some c \<Rightarrow> (case js_get (consumers (peers st a)) c of
          None \<Rightarrow> st
        | Some (_, paused) \<Rightarrow> if \<not> paused then st else await_task w (Resuming a c) st))"

definition handleCloseConsumer :: "nat \<Rightarrow> nat \<Rightarrow> sfu \<Rightarrow> sfu" where
  "handleCloseConsumer a i st =
     (case js_get (byProducer (peers st a)) i of
        None \<Rightarrow> st
      | Some c \<Rightarrow>
          if js_get (consumers (peers st a)) c = None then upd_peer a (\<lambda>p. p\<lparr>byProducer := js_delete (byProducer p) i\<rparr>) st
          else
            let me = peer_id (peers st a);
                st = (case owner_of st a i of
                        None \<Rightarrow> st
                      | Some (q, b, e) \<Rightarrow>
                          if pe_source e = From_screen
                          then send_to (sock (peers st b)) (Producer_consumer_closed me i)
                            (upd_peer b (\<lambda>p. p\<lparr>producers := js_set (producers p) i (e\<lparr>viewers := removeAll me (viewers e)\<rparr>)\<rparr>) st)
                          else st) in
            upd_peer a (\<lambda>p. p\<lparr>consumers := js_delete (consumers p) c, byProducer := js_delete (byProducer p) i\<rparr>) (closeC c st))"

definition handleCloseProducer :: "nat \<Rightarrow> nat \<Rightarrow> sfu \<Rightarrow> sfu" where
  "handleCloseProducer a i st =
     (case js_get (producers (peers st a)) i of
        None \<Rightarrow> st
      | Some e \<Rightarrow>
          let st = upd_peer a (\<lambda>p. p\<lparr>producers := js_delete (producers p) i\<rparr>) (closeP i st) in
          send_all (others st a) (Producer_closed (peer_id (peers st a)) i (pe_source e) (pe_kind e) False) st)"

section \<open>Frames and answers\<close>

datatype ClientMsg =
    Join join_msg
  | Get_capabilities
  | Create_transport "direction option"
  | Connect_transport "direction option"
  | Restart_ice "direction option"
  | Produce "media_source option" media_kind
  | Consume nat
  | Resume_consumer nat
  | Close_consumer nat
  | Close_producer nat
  | Unknown_type

datatype frame = Oversized | Bad_json | Malformed | Msg ClientMsg

definition worker_op :: "ClientMsg \<Rightarrow> bool" where
  \<comment> \<open>\<^verbatim>\<open>WORKER_OP_TYPES\<close>\<close>
  "worker_op m \<longleftrightarrow> (case m of Join _ \<Rightarrow> False | Get_capabilities \<Rightarrow> False | Unknown_type \<Rightarrow> False | _ \<Rightarrow> True)"

fun route :: "sfu_config \<Rightarrow> nat \<Rightarrow> nat \<Rightarrow> ClientMsg \<Rightarrow> sfu \<Rightarrow> sfu" where
  "route cfg w a Get_capabilities st = handleGetCapabilities a st"
| "route cfg w a (Create_transport d) st = handleCreateTransport cfg w a d st"
| "route cfg w a (Connect_transport d) st = handleConnectTransport w a d st"
| "route cfg w a (Restart_ice d) st = handleRestartIce w a d st"
| "route cfg w a (Produce src k) st = handleProduce w a src k st"
| "route cfg w a (Consume i) st = handleConsume cfg w a i st"
| "route cfg w a (Resume_consumer i) st = handleResumeConsumer w a i st"
| "route cfg w a (Close_consumer i) st = handleCloseConsumer a i st"
| "route cfg w a (Close_producer i) st = handleCloseProducer a i st"
| "route cfg w a (Join _) st = st"
| "route cfg w a Unknown_type st = st"

definition handleFrame :: "sfu_config \<Rightarrow> node_lib \<Rightarrow> nat \<Rightarrow> frame \<Rightarrow> int \<Rightarrow> string \<Rightarrow> bool \<Rightarrow> sfu \<Rightarrow> sfu" where
  \<comment> \<open>the frame chain hands over a frame when the one before it is done\<close>
  "handleFrame cfg lib w f now token buffered st =
     (if c_closed (conns st w) \<or> js_get (tasks st) w \<noteq> None then st
      else case f of
        Oversized \<Rightarrow> shut w st
      | Bad_json \<Rightarrow> st
      | Malformed \<Rightarrow> shut w st
      | Msg m \<Rightarrow>
          (case c_session (conns st w) of
             None \<Rightarrow> (case m of Join j \<Rightarrow> handleJoin cfg lib w j now token buffered st | _ \<Rightarrow> shut w st)
           | Some a \<Rightarrow>
               if worker_op m then
                 (case spendWorkerOp cfg w a now st of (ok, st) \<Rightarrow> if ok then route cfg w a m st else st)
               else route cfg w a m st))"

datatype outcome = Resolved | Failed | No_ports

definition settle_task :: "sfu_config \<Rightarrow> nat \<Rightarrow> outcome \<Rightarrow> bool \<Rightarrow> sfu \<Rightarrow> sfu" where
  \<comment> \<open>what the frame of socket \<open>w\<close> waits for settled; \<open>can\<close> is \<^verbatim>\<open>router.canConsume\<close>\<close>
  "settle_task cfg w res can st =
     (let failed = (\<lambda>st. if res = No_ports then server_full w st else st) in
      case js_get (tasks st) w of
        Some (Making_router a d) \<Rightarrow>
          if res = Resolved then await_task w (Making_transport a d) st
          else failed (upd_peer a (\<lambda>p. p\<lparr>transportsInFlight := removeAll d (transportsInFlight p)\<rparr>) (end_task w st))
      | Some (Making_transport a d) \<Rightarrow>
          if res = Resolved then transport_made cfg a d (end_task w st)
          else failed (upd_peer a (\<lambda>p. p\<lparr>transportsInFlight := removeAll d (transportsInFlight p)\<rparr>) (end_task w st))
      | Some (Connecting a d t) \<Rightarrow>
          if res = Resolved
          then upd_peer a (\<lambda>p. clearTransportReapTimer d (p\<lparr>connectedT := set_add (connectedT p) d\<rparr>)) (end_task w st)
          else failed (end_task w st)
      | Some (Restarting a d) \<Rightarrow>
          if res = Resolved then send_to (sock (peers st a)) (Ice_restarted d) (end_task w st) else failed (end_task w st)
      | Some (Producing a s k) \<Rightarrow>
          let st = upd_peer a (\<lambda>p. p\<lparr>producersInFlight := producersInFlight p - 1\<rparr>) (end_task w st) in
          if res = Resolved then produced a s k st else failed st
      | Some (Consuming_router a i) \<Rightarrow>
          let done = upd_peer a (\<lambda>p. p\<lparr>consumersInFlight := consumersInFlight p - 1\<rparr>) (end_task w st) in
          if res \<noteq> Resolved then failed done
          else if \<not> can then send_to (sock (peers st a)) (Consume_failed i) done
          else if recvT (peers st a) = None then done
          else await_task w (Consuming a i) st
      | Some (Consuming a i) \<Rightarrow>
          let st = upd_peer a (\<lambda>p. p\<lparr>consumersInFlight := consumersInFlight p - 1\<rparr>) (end_task w st) in
          if res = Resolved then consumed a i st else failed st
      | Some (Resuming a c) \<Rightarrow>
          let st = end_task w st in
          if res = Resolved \<and> js_get (consumers (peers st a)) c \<noteq> None
          then upd_peer a (\<lambda>p. p\<lparr>consumers := js_set (consumers p) c (fst (the (js_get (consumers p) c)), False)\<rparr>) st
          else st
      | _ \<Rightarrow> st)"

definition on_connection :: "string \<Rightarrow> int \<Rightarrow> sfu \<Rightarrow> sfu" where
  "on_connection nonce now st =
     (let w = fresh st in
      st\<lparr>fresh := w + 1, conns := (conns st)(w := \<lparr>c_open = True, c_closed = False, c_nonce = Some nonce,
        c_deadline = now + JOIN_TIMEOUT_MS, c_joinTimer = True, c_session = None, c_endedBy = None, c_msgs = [Challenge nonce]\<rparr>)\<rparr>)"

definition on_close :: "sfu_config \<Rightarrow> nat \<Rightarrow> int \<Rightarrow> sfu \<Rightarrow> sfu" where
  "on_close cfg w code st =
     (if c_closed (conns st w) then st
      else
        let st = upd_conn w (\<lambda>c. c\<lparr>c_open := False, c_closed := True, c_joinTimer := False\<rparr>) st in
        case c_session (conns st w) of
          None \<Rightarrow> st
        | Some a \<Rightarrow>
            upd_conn w (\<lambda>c. c\<lparr>c_session := None\<rparr>)
              (if is_current st a \<and> sock (peers st a) = w then
                 if resume_grace cfg \<and> holdsForResume code (c_endedBy (conns st w))
                 then upd_peer a (\<lambda>p. p\<lparr>detachTimer := Some w\<rparr>) st
                 else handlePeerLeft a st
               else st))"

definition detach_fires :: "nat \<Rightarrow> sfu \<Rightarrow> sfu" where
  "detach_fires a st =
     (case detachTimer (peers st a) of
        None \<Rightarrow> st
      | Some w \<Rightarrow>
          let st = upd_peer a (\<lambda>p. p\<lparr>detachTimer := None\<rparr>) st in
          if is_current st a \<and> sock (peers st a) = w then handlePeerLeft a st else st)"

definition reap_fires :: "nat \<Rightarrow> direction \<Rightarrow> sfu \<Rightarrow> sfu" where
  "reap_fires a d st =
     (case js_get (reapTimers (peers st a)) d of
        None \<Rightarrow> st
      | Some t \<Rightarrow> reapTransport a d t (upd_peer a (clearTransportReapTimer d) st))"

definition join_timeout :: "nat \<Rightarrow> sfu \<Rightarrow> sfu" where
  "join_timeout w st = (if c_joinTimer (conns st w) then cut w Join_timeout st else st)"

definition router_rejected :: "string \<Rightarrow> nat \<Rightarrow> sfu \<Rightarrow> sfu" where
  "router_rejected r rid st = (if js_get (routers st) r = Some rid then st\<lparr>routers := js_delete (routers st) r\<rparr> else st)"

definition router_closed :: "string \<Rightarrow> nat \<Rightarrow> sfu \<Rightarrow> sfu" where
  \<comment> \<open>the router of a room that emptied is there and is closed\<close>
  "router_closed r rid st =
     (if (r, rid) \<in> set (closers st) then st\<lparr>closers := remove1 (r, rid) (closers st), routers := js_delete (routers st) r\<rparr> else st)"

datatype sfu_event =
    Connection string int
  | Frame_in nat frame int string bool
  | Answer nat outcome bool
  | Probe_answer nat bool string int
  | Going nat \<comment> \<open>the socket leaves the state OPEN\<close>
  | Cut_by_sweep nat EndedBy
  | Close_event nat int
  | Detach_timer nat
  | Reap_timer nat direction
  | Transport_failed nat direction nat \<comment> \<open>its ICE or DTLS state says so\<close>
  | Producer_gone nat nat
  | Consumer_gone nat nat
  | Join_timer nat
  | Pause_timer nat
  | Router_rejected string nat
  | Router_closed string nat

fun sfu_step :: "sfu_config \<Rightarrow> node_lib \<Rightarrow> sfu_event \<Rightarrow> sfu \<Rightarrow> sfu" where
  "sfu_step cfg lib (Connection nonce now) st = on_connection nonce now st"
| "sfu_step cfg lib (Frame_in w f now token buffered) st = handleFrame cfg lib w f now token buffered st"
| "sfu_step cfg lib (Answer w res can) st = settle_task cfg w res can st"
| "sfu_step cfg lib (Probe_answer w pong token now) st = probe_answer w pong token now st"
| "sfu_step cfg lib (Going w) st = shut w st"
| "sfu_step cfg lib (Cut_by_sweep w e) st = cut w e st"
| "sfu_step cfg lib (Close_event w code) st = on_close cfg w code st"
| "sfu_step cfg lib (Detach_timer a) st = detach_fires a st"
| "sfu_step cfg lib (Reap_timer a d) st = reap_fires a d st"
| "sfu_step cfg lib (Transport_failed a d t) st = reapTransport a d t st"
| "sfu_step cfg lib (Producer_gone a i) st = notifyProducerClosed a i st"
| "sfu_step cfg lib (Consumer_gone a c) st = consumer_gone a c st"
| "sfu_step cfg lib (Join_timer w) st = join_timeout w st"
| "sfu_step cfg lib (Pause_timer a) st = upd_peer a (\<lambda>p. p\<lparr>pauseTimer := False\<rparr>) st"
| "sfu_step cfg lib (Router_rejected r rid) st = router_rejected r rid st"
| "sfu_step cfg lib (Router_closed r rid) st = router_closed r rid st"

definition sfu_run :: "sfu_config \<Rightarrow> node_lib \<Rightarrow> sfu_event list \<Rightarrow> sfu" where
  "sfu_run cfg lib evs = fold (sfu_step cfg lib) evs sfu_start"

end
