(* ===== verification/Sfu_Server_Safety.thy ===== *)
theory Sfu_Server_Safety
  imports Sfu_Server
begin

text \<open>
  What holds of the media server in every interleaving of frames, worker answers, timers and closing sockets: rooms hold live sessions,
  the transports open in the worker are exactly the ones sessions in a room hold, and limits are kept.
\<close>

section \<open>What the small operations leave alone\<close>

lemma fields_basic [simp]:
  "conns (upd_peer a f u) = conns u" "rooms (upd_peer a f u) = rooms u" "routers (upd_peer a f u) = routers u"
  "closers (upd_peer a f u) = closers u" "tasks (upd_peer a f u) = tasks u" "liveT (upd_peer a f u) = liveT u"
  "liveP (upd_peer a f u) = liveP u" "liveC (upd_peer a f u) = liveC u" "fresh (upd_peer a f u) = fresh u"
  "peers (upd_conn w g u) = peers u" "rooms (upd_conn w g u) = rooms u" "routers (upd_conn w g u) = routers u"
  "closers (upd_conn w g u) = closers u" "tasks (upd_conn w g u) = tasks u" "liveT (upd_conn w g u) = liveT u"
  "liveP (upd_conn w g u) = liveP u" "liveC (upd_conn w g u) = liveC u" "fresh (upd_conn w g u) = fresh u"
  "peers (closeP x u) = peers u" "conns (closeP x u) = conns u" "rooms (closeP x u) = rooms u" "routers (closeP x u) = routers u"
  "closers (closeP x u) = closers u" "tasks (closeP x u) = tasks u" "liveT (closeP x u) = liveT u" "liveC (closeP x u) = liveC u"
  "fresh (closeP x u) = fresh u" "peers (closeC x u) = peers u" "conns (closeC x u) = conns u" "rooms (closeC x u) = rooms u"
  "routers (closeC x u) = routers u" "closers (closeC x u) = closers u" "tasks (closeC x u) = tasks u"
  "liveT (closeC x u) = liveT u" "liveP (closeC x u) = liveP u" "fresh (closeC x u) = fresh u"
  "peers (await_task w t u) = peers u" "conns (await_task w t u) = conns u" "rooms (await_task w t u) = rooms u"
  "routers (await_task w t u) = routers u" "closers (await_task w t u) = closers u" "liveT (await_task w t u) = liveT u"
  "liveP (await_task w t u) = liveP u" "liveC (await_task w t u) = liveC u" "fresh (await_task w t u) = fresh u"
  "peers (end_task w u) = peers u" "conns (end_task w u) = conns u" "rooms (end_task w u) = rooms u"
  "routers (end_task w u) = routers u" "closers (end_task w u) = closers u" "liveT (end_task w u) = liveT u"
  "liveP (end_task w u) = liveP u" "liveC (end_task w u) = liveC u" "fresh (end_task w u) = fresh u"
  by (simp_all add: upd_peer_def upd_conn_def closeP_def closeC_def await_task_def end_task_def)

lemma fields_closeT [simp]:
  "peers (closeT t u) = peers u" "conns (closeT t u) = conns u" "rooms (closeT t u) = rooms u" "routers (closeT t u) = routers u"
  "closers (closeT t u) = closers u" "tasks (closeT t u) = tasks u" "liveP (closeT t u) = liveP u" "liveC (closeT t u) = liveC u"
  "fresh (closeT t u) = fresh u"
  by (simp_all add: closeT_def split: option.split)

lemma fields_socket [simp]:
  "peers (send_to w m u) = peers u" "rooms (send_to w m u) = rooms u" "routers (send_to w m u) = routers u"
  "closers (send_to w m u) = closers u" "tasks (send_to w m u) = tasks u" "liveT (send_to w m u) = liveT u"
  "liveP (send_to w m u) = liveP u" "liveC (send_to w m u) = liveC u" "fresh (send_to w m u) = fresh u"
  "peers (shut w u) = peers u" "rooms (shut w u) = rooms u" "routers (shut w u) = routers u" "closers (shut w u) = closers u"
  "tasks (shut w u) = tasks u" "liveT (shut w u) = liveT u" "liveP (shut w u) = liveP u" "liveC (shut w u) = liveC u"
  "fresh (shut w u) = fresh u" "peers (cut w e u) = peers u" "rooms (cut w e u) = rooms u" "routers (cut w e u) = routers u"
  "closers (cut w e u) = closers u" "tasks (cut w e u) = tasks u" "liveT (cut w e u) = liveT u" "liveP (cut w e u) = liveP u"
  "liveC (cut w e u) = liveC u" "fresh (cut w e u) = fresh u"
  by (simp_all add: send_to_def shut_def cut_def)

lemma fields_refuse [simp]:
  "peers (refuse w m u) = peers u" "rooms (refuse w m u) = rooms u" "routers (refuse w m u) = routers u"
  "closers (refuse w m u) = closers u" "tasks (refuse w m u) = tasks u" "liveT (refuse w m u) = liveT u"
  "liveP (refuse w m u) = liveP u" "liveC (refuse w m u) = liveC u" "fresh (refuse w m u) = fresh u"
  "peers (server_full w u) = peers u" "rooms (server_full w u) = rooms u" "routers (server_full w u) = routers u"
  "closers (server_full w u) = closers u" "tasks (server_full w u) = tasks u" "liveT (server_full w u) = liveT u"
  "liveP (server_full w u) = liveP u" "liveC (server_full w u) = liveC u" "fresh (server_full w u) = fresh u"
  by (simp_all add: refuse_def server_full_def)

lemma fold_field: "(\<And>x v. h (f x v) = h v) \<Longrightarrow> h (fold f xs u) = h u"
  by (induction xs arbitrary: u) simp_all

lemma fields_all [simp]:
  "peers (send_all ws m u) = peers u" "rooms (send_all ws m u) = rooms u" "routers (send_all ws m u) = routers u"
  "closers (send_all ws m u) = closers u" "tasks (send_all ws m u) = tasks u" "liveT (send_all ws m u) = liveT u"
  "liveP (send_all ws m u) = liveP u" "liveC (send_all ws m u) = liveC u" "fresh (send_all ws m u) = fresh u"
  "peers (fold closeP xs u) = peers u" "conns (fold closeP xs u) = conns u" "rooms (fold closeP xs u) = rooms u"
  "routers (fold closeP xs u) = routers u" "closers (fold closeP xs u) = closers u" "tasks (fold closeP xs u) = tasks u"
  "liveT (fold closeP xs u) = liveT u" "liveC (fold closeP xs u) = liveC u" "fresh (fold closeP xs u) = fresh u"
  "peers (fold closeC xs u) = peers u" "conns (fold closeC xs u) = conns u" "rooms (fold closeC xs u) = rooms u"
  "routers (fold closeC xs u) = routers u" "closers (fold closeC xs u) = closers u" "tasks (fold closeC xs u) = tasks u"
  "liveT (fold closeC xs u) = liveT u" "liveP (fold closeC xs u) = liveP u" "fresh (fold closeC xs u) = fresh u"
  by (simp_all add: send_all_def fold_field [where f = "\<lambda>w. send_to w m"] fold_field [where f = closeP] fold_field [where f = closeC])

lemma liveT_closeT [simp]: "liveT (closeT t st) = filter (\<lambda>x. t \<noteq> Some x) (liveT st)"
  by (auto simp: closeT_def removeAll_filter_not_eq eq_commute split: option.split intro!: filter_cong)

lemma peers_upd_peer: "peers (upd_peer a f u) b = (if b = a then f (peers u a) else peers u b)"
  by (simp add: upd_peer_def)

lemma conns_upd_conn: "conns (upd_conn w f u) x = (if x = w then f (conns u w) else conns u x)"
  by (simp add: upd_conn_def)

section \<open>The skeleton of a state\<close>

definition ident :: "PeerState \<Rightarrow> string \<times> string \<times> nat \<times> nat option \<times> nat option \<times> nat option" where
  "ident p = (peer_id p, room_code p, sock p, detachTimer p, sendT p, recvT p)"

definition probing_at :: "sfu \<Rightarrow> nat \<Rightarrow> bool" where
  "probing_at st w \<longleftrightarrow> (case js_get (tasks st) w of Some (Probing _ _ _ _ _) \<Rightarrow> True | _ \<Rightarrow> False)"

definition same_skel :: "sfu \<Rightarrow> sfu \<Rightarrow> bool" where
  \<comment> \<open>only messages, media and sockets on their way out have changed\<close>
  "same_skel st st' \<longleftrightarrow>
     (\<forall>a. ident (peers st' a) = ident (peers st a)) \<and>
     (\<forall>w. (c_open (conns st' w) \<longrightarrow> c_open (conns st w)) \<and> c_closed (conns st' w) = c_closed (conns st w) \<and>
          c_session (conns st' w) = c_session (conns st w)) \<and>
     rooms st' = rooms st \<and> liveT st' = liveT st \<and> fresh st \<le> fresh st' \<and> (\<forall>w. probing_at st' w \<longrightarrow> probing_at st w)"

lemma same_skel_refl [simp]: "same_skel st st"
  by (simp add: same_skel_def)

lemma same_skel_trans: "same_skel st u \<Longrightarrow> same_skel u v \<Longrightarrow> same_skel st v"
  by (simp add: same_skel_def)

lemma same_skel_fold: "(\<And>x v. same_skel st v \<Longrightarrow> same_skel st (f x v)) \<Longrightarrow> same_skel st u \<Longrightarrow> same_skel st (fold f xs u)"
  by (induction xs arbitrary: u) simp_all

lemma same_skel_peer [simp]:
  "(\<And>p. ident (f p) = ident p) \<Longrightarrow> same_skel st (upd_peer a f u) \<longleftrightarrow> same_skel st u"
  unfolding same_skel_def upd_peer_def probing_at_def by auto

lemma same_skel_conn:
  "(\<And>c. (c_open (f c) \<longrightarrow> c_open c) \<and> c_closed (f c) = c_closed c \<and> c_session (f c) = c_session c) \<Longrightarrow>
   same_skel st u \<Longrightarrow> same_skel st (upd_conn w f u)"
  by (auto simp: same_skel_def upd_conn_def probing_at_def)

lemma same_skel_send [simp]: "same_skel st u \<Longrightarrow> same_skel st (send_to w m u)"
  by (simp add: send_to_def same_skel_conn)

lemma same_skel_send_all [simp]: "same_skel st u \<Longrightarrow> same_skel st (send_all ws m u)"
  unfolding send_all_def by (rule same_skel_fold) simp_all

lemma same_skel_shut [simp]: "same_skel st u \<Longrightarrow> same_skel st (shut w u)" "same_skel st u \<Longrightarrow> same_skel st (cut w e u)"
  by (simp_all add: shut_def cut_def same_skel_conn)

lemma same_skel_refuse [simp]: "same_skel st u \<Longrightarrow> same_skel st (refuse w reason u)" "same_skel st u \<Longrightarrow> same_skel st (server_full w u)"
  by (simp_all add: refuse_def server_full_def)

lemma same_skel_worker [simp]:
  "same_skel st (closeP x u) \<longleftrightarrow> same_skel st u" "same_skel st (closeC x u) \<longleftrightarrow> same_skel st u"
  "same_skel st (u\<lparr>routers := rs\<rparr>) \<longleftrightarrow> same_skel st u" "same_skel st (u\<lparr>closers := cs\<rparr>) \<longleftrightarrow> same_skel st u"
  "same_skel st (u\<lparr>liveP := xs\<rparr>) \<longleftrightarrow> same_skel st u" "same_skel st (u\<lparr>liveC := xs\<rparr>) \<longleftrightarrow> same_skel st u"
  by (simp_all add: same_skel_def closeP_def closeC_def probing_at_def)

lemma same_skel_fresh [simp]: "same_skel st u \<Longrightarrow> fresh u \<le> n \<Longrightarrow> same_skel st (u\<lparr>fresh := n\<rparr>)"
  by (auto simp: same_skel_def probing_at_def)

lemma same_skel_await [simp]: "same_skel st u \<Longrightarrow> (\<nexists>r p b x v. t = Probing r p b x v) \<Longrightarrow> same_skel st (await_task w t u)"
  by (auto simp: same_skel_def await_task_def probing_at_def split: pending_task.splits option.splits if_splits)

lemma same_skel_end [simp]: "same_skel st u \<Longrightarrow> same_skel st (end_task w u)"
  by (auto simp: same_skel_def end_task_def probing_at_def split: pending_task.splits option.splits if_splits)

lemma same_skel_closeP_all [simp]: "same_skel st (fold closeP xs u) \<longleftrightarrow> same_skel st u"
  by (induction xs arbitrary: u) simp_all

lemma same_skel_closeC_all [simp]: "same_skel st (fold closeC xs u) \<longleftrightarrow> same_skel st u"
  by (induction xs arbitrary: u) simp_all

section \<open>The invariant\<close>

definition rooms_ok :: "sfu \<Rightarrow> bool" where
  "rooms_ok st \<longleftrightarrow> js_wf (rooms st) \<and> (\<forall>r m. js_get (rooms st) r = Some m \<longrightarrow> js_wf m) \<and>
     (\<forall>r p a. seat st r p = Some a \<longrightarrow> room_code (peers st a) = r \<and> peer_id (peers st a) = p \<and> a < fresh st \<and>
        sock (peers st a) < fresh st)"

definition attached :: "sfu \<Rightarrow> nat \<Rightarrow> bool" where
  \<comment> \<open>the session's socket is there and is its own, or the session is about to end\<close>
  "attached st a \<longleftrightarrow>
     (let w = sock (peers st a) in
      if c_closed (conns st w) then detachTimer (peers st a) = Some w else c_session (conns st w) = Some a)"

definition socks_ok :: "sfu \<Rightarrow> bool" where
  "socks_ok st \<longleftrightarrow>
     (\<forall>w. c_open (conns st w) \<longrightarrow> \<not> c_closed (conns st w)) \<and>
     (\<forall>w. fresh st \<le> w \<longrightarrow> c_closed (conns st w)) \<and>
     (\<forall>w. c_closed (conns st w) \<or> probing_at st w \<longrightarrow> c_session (conns st w) = None)"

definition holds_port :: "PeerState \<Rightarrow> nat \<Rightarrow> bool" where
  "holds_port p t \<longleftrightarrow> sendT p = Some t \<or> recvT p = Some t"

definition ports_ok :: "sfu \<Rightarrow> bool" where
  "ports_ok st \<longleftrightarrow> distinct (liveT st) \<and> (\<forall>t \<in> set (liveT st). t < fresh st) \<and>
     (\<forall>t \<in> set (liveT st). \<exists>r p a. seat st r p = Some a \<and> holds_port (peers st a) t)"

definition sfu_ok :: "sfu \<Rightarrow> bool" where
  "sfu_ok st \<longleftrightarrow> rooms_ok st \<and> (\<forall>r p a. seat st r p = Some a \<longrightarrow> attached st a) \<and> socks_ok st \<and> ports_ok st"

lemma same_skelD:
  assumes "same_skel st st'"
  shows "peer_id (peers st' a) = peer_id (peers st a)" "room_code (peers st' a) = room_code (peers st a)" "sock (peers st' a) = sock (peers st a)"
    "detachTimer (peers st' a) = detachTimer (peers st a)" "sendT (peers st' a) = sendT (peers st a)" "recvT (peers st' a) = recvT (peers st a)"
    "c_closed (conns st' w) = c_closed (conns st w)" "c_session (conns st' w) = c_session (conns st w)" "rooms st' = rooms st" "liveT st' = liveT st"
  using assms by (simp_all add: same_skel_def ident_def)

lemma same_skel_slot: "same_skel st st' \<Longrightarrow> seat st' r p = seat st r p"
  by (simp add: same_skel_def seat_def room_members_def)

lemma sfu_ok_same:
  assumes ok: "sfu_ok st" and s: "same_skel st st'"
  shows "sfu_ok st'"
proof -
  have f: "fresh st \<le> fresh st'" "\<And>w. c_open (conns st' w) \<Longrightarrow> c_open (conns st w)" "\<And>w. probing_at st' w \<Longrightarrow> probing_at st w"
    using s by (simp_all add: same_skel_def)
  have "rooms_ok st'" using ok f(1) unfolding sfu_ok_def rooms_ok_def same_skelD [OF s] same_skel_slot [OF s] by (meson less_le_trans)
  moreover have "attached st' a = attached st a" for a by (simp add: attached_def same_skelD [OF s])
  moreover have "socks_ok st'" using ok f unfolding sfu_ok_def socks_ok_def same_skelD [OF s] by (meson order_trans)
  moreover have "ports_ok st'" using ok f(1) unfolding sfu_ok_def ports_ok_def holds_port_def same_skelD [OF s] same_skel_slot [OF s] by (meson less_le_trans)
  ultimately show ?thesis using ok same_skel_slot [OF s] by (simp add: sfu_ok_def)
qed

section \<open>Steps that leave the skeleton alone\<close>

lemma ident_simps [simp]:
  "ident (p\<lparr>producers := x1\<rparr>) = ident p" "ident (p\<lparr>consumers := x2\<rparr>) = ident p" "ident (p\<lparr>byProducer := x3\<rparr>) = ident p"
  "ident (p\<lparr>notifiedClosed := x4\<rparr>) = ident p" "ident (p\<lparr>transportsInFlight := x5\<rparr>) = ident p" "ident (p\<lparr>connectedT := x6\<rparr>) = ident p"
  "ident (p\<lparr>reapTimers := x7\<rparr>) = ident p" "ident (p\<lparr>producersInFlight := x8\<rparr>) = ident p" "ident (p\<lparr>consumersInFlight := x9\<rparr>) = ident p"
  "ident (p\<lparr>cumulativeProduces := y1\<rparr>) = ident p" "ident (p\<lparr>workerOps := y2\<rparr>) = ident p" "ident (p\<lparr>workerOpsWindowStart := y3\<rparr>) = ident p"
  "ident (p\<lparr>pauseTimer := y4\<rparr>) = ident p" "ident (p\<lparr>resumeToken := y5\<rparr>) = ident p" "ident (clearTransportReapTimer d p) = ident p"
  by (simp_all add: ident_def clearTransportReapTimer_def)

lemma skel_getOrCreateRouter: "getOrCreateRouter cfg r u = Some v \<Longrightarrow> same_skel st u \<Longrightarrow> same_skel st v"
  by (auto simp: getOrCreateRouter_def same_skel_def probing_at_def split: if_splits)

lemma skel_spend: "same_skel st (snd (spendWorkerOp cfg w a now st))"
  by (simp add: spendWorkerOp_def Let_def)

lemma skel_create: "same_skel st (handleCreateTransport cfg w a d st)"
  using skel_getOrCreateRouter by (auto simp: handleCreateTransport_def split: option.splits)

lemma skel_consume: "same_skel st (handleConsume cfg w a i st)"
  using skel_getOrCreateRouter by (auto simp: handleConsume_def Let_def split: option.splits)

lemma skel_media:
  "same_skel st (handleGetCapabilities a st)" "same_skel st (handleRestartIce w a d st)" "same_skel st (handleConnectTransport w a d st)"
  "same_skel st (handleProduce w a src k st)" "same_skel st (handleResumeConsumer w a i st)" "same_skel st (handleCloseProducer a i st)"
  "same_skel st (consumer_gone a c st)" "same_skel st (notifyProducerClosed a i st)"
  by (simp_all add: handleGetCapabilities_def handleRestartIce_def handleConnectTransport_def handleProduce_def handleResumeConsumer_def
      handleCloseProducer_def consumer_gone_def notifyProducerClosed_def Let_def split: option.splits prod.splits)

lemma skel_produced: "same_skel st u \<Longrightarrow> same_skel st (produced a src k u)"
  by (simp add: produced_def Let_def)

lemma skel_consumed: "same_skel st u \<Longrightarrow> same_skel st (consumed a i u)"
  by (simp add: consumed_def Let_def split: option.splits prod.splits)

lemma skel_close_consumer: "same_skel st (handleCloseConsumer a i st)"
  by (simp add: handleCloseConsumer_def Let_def split: option.splits prod.splits)

lemma skel_route: "same_skel st (route cfg w a m st)"
  by (cases m) (simp_all add: skel_media skel_create skel_consume skel_close_consumer)

lemma skel_answer:
  assumes "\<And>a d. js_get (tasks st) w = Some (Making_transport a d) \<Longrightarrow> res \<noteq> Resolved"
  shows "same_skel st (settle_task cfg w res can st)"
  using assms by (auto simp: settle_task_def Let_def skel_produced skel_consumed split: option.splits pending_task.splits)

section \<open>Transports come and go\<close>

definition same_frame :: "sfu \<Rightarrow> sfu \<Rightarrow> bool" where
  "same_frame st st' \<longleftrightarrow>
     (\<forall>a. peer_id (peers st' a) = peer_id (peers st a) \<and> room_code (peers st' a) = room_code (peers st a) \<and>
          sock (peers st' a) = sock (peers st a) \<and> detachTimer (peers st' a) = detachTimer (peers st a)) \<and>
     (\<forall>w. (c_open (conns st' w) \<longrightarrow> c_open (conns st w)) \<and> c_closed (conns st' w) = c_closed (conns st w) \<and>
          c_session (conns st' w) = c_session (conns st w)) \<and>
     rooms st' = rooms st \<and> fresh st \<le> fresh st' \<and> (\<forall>w. probing_at st' w \<longrightarrow> probing_at st w)"

lemma frame_slot: "same_frame st st' \<Longrightarrow> seat st' r p = seat st r p"
  by (simp add: same_frame_def seat_def room_members_def)

lemma sfu_ok_frame:
  assumes ok: "sfu_ok st" and s: "same_frame st st'" and "ports_ok st'"
  shows "sfu_ok st'"
proof -
  have f: "fresh st \<le> fresh st'" "\<And>w. c_open (conns st' w) \<Longrightarrow> c_open (conns st w)" "\<And>w. probing_at st' w \<Longrightarrow> probing_at st w"
    and e: "peer_id (peers st' a) = peer_id (peers st a)" "room_code (peers st' a) = room_code (peers st a)" "sock (peers st' a) = sock (peers st a)"
      "detachTimer (peers st' a) = detachTimer (peers st a)" "c_closed (conns st' w) = c_closed (conns st w)"
      "c_session (conns st' w) = c_session (conns st w)" "rooms st' = rooms st" for a w
    using s by (simp_all add: same_frame_def)
  have "rooms_ok st'" using ok f(1) unfolding sfu_ok_def rooms_ok_def e frame_slot [OF s] by (meson less_le_trans)
  moreover have "attached st' a = attached st a" for a by (simp add: attached_def e)
  moreover have "socks_ok st'" using ok f unfolding sfu_ok_def socks_ok_def e by (meson order_trans)
  ultimately show ?thesis using ok frame_slot [OF s] assms(3) by (simp add: sfu_ok_def)
qed

lemma direction_ex: "(\<exists>e. P e) \<longleftrightarrow> P Dsend \<or> P Drecv"
  by (metis direction.exhaust)

lemma transport_simps [simp]:
  "transport_of d (set_transport d x p) = x"
  "holds_port (set_transport d None p) t \<longleftrightarrow> (\<exists>e. e \<noteq> d \<and> transport_of e p = Some t)"
  "peer_id (set_transport d x p) = peer_id p" "room_code (set_transport d x p) = room_code p" "sock (set_transport d x p) = sock p"
  "detachTimer (set_transport d x p) = detachTimer p" "reapTimers (set_transport d x p) = reapTimers p"
  "connectedT (set_transport d x p) = connectedT p"
  by (cases d; simp add: set_transport_def transport_of_def holds_port_def direction_ex)+

lemma holds_port_iff: "holds_port p t \<longleftrightarrow> (\<exists>e. transport_of e p = Some t)"
  by (simp add: holds_port_def transport_of_def direction_ex)

lemma reap_peer_simps [simp]:
  "peer_id (clearTransportReapTimer d p) = peer_id p" "room_code (clearTransportReapTimer d p) = room_code p"
  "sock (clearTransportReapTimer d p) = sock p" "detachTimer (clearTransportReapTimer d p) = detachTimer p"
  "sendT (clearTransportReapTimer d p) = sendT p" "recvT (clearTransportReapTimer d p) = recvT p"
  "transport_of e (clearTransportReapTimer d p) = transport_of e p" "connectedT (clearTransportReapTimer d p) = connectedT p"
  by (simp_all add: clearTransportReapTimer_def transport_of_def split: direction.splits)

lemma reapTransport_ok:
  assumes ok: "sfu_ok st"
  shows "sfu_ok (reapTransport a d t st)"
proof (cases "transport_of d (peers st a) = Some t")
  case True
  let ?f = "\<lambda>p. set_transport d None (clearTransportReapTimer d p)\<lparr>connectedT := removeAll d (connectedT p)\<rparr>"
  let ?u = "closeT (Some t) (upd_peer a ?f st)"
  have "same_frame st ?u" by (auto simp: same_frame_def closeT_def upd_peer_def probing_at_def)
  moreover have "ports_ok ?u"
  proof -
    have p: "ports_ok st" using ok by (simp add: sfu_ok_def)
    have "\<exists>r p b. seat ?u r p = Some b \<and> holds_port (peers ?u b) x" if x: "x \<in> set (liveT st)" "x \<noteq> t" for x
    proof -
      obtain r p b where b: "seat st r p = Some b" "holds_port (peers st b) x" using p x(1) by (auto simp: ports_ok_def)
      have "holds_port (?f (peers st a)) x" if "holds_port (peers st a) x"
        using that True x(2) by (auto simp: holds_port_def set_transport_def transport_of_def split: direction.splits)
      then have "holds_port (peers ?u b) x" using b(2) by (auto simp: closeT_def upd_peer_def)
      moreover have "seat ?u r p = Some b" using b(1) by (simp add: seat_def room_members_def closeT_def upd_peer_def)
      ultimately show ?thesis by blast
    qed
    then show ?thesis using p by (auto simp: ports_ok_def closeT_def upd_peer_def distinct_removeAll)
  qed
  ultimately have "sfu_ok ?u" using sfu_ok_frame [OF ok] by blast
  then have "sfu_ok (send_to (sock (peers ?u a)) (Ms_error ''transport-timeout'' (Some d)) ?u)" by (rule sfu_ok_same) simp
  then show ?thesis using True by (simp add: reapTransport_def Let_def)
qed (simp add: reapTransport_def ok)

lemma transport_made_ok:
  assumes ok: "sfu_ok st"
  shows "sfu_ok (transport_made cfg a d st)"
proof -
  let ?t = "fresh st"
  define u where "u = upd_peer a (\<lambda>p. p\<lparr>transportsInFlight := removeAll d (transportsInFlight p)\<rparr>) (st\<lparr>fresh := ?t + 1\<rparr>)"
  have p: "ports_ok st" using ok by (simp add: sfu_ok_def)
  have u: "sfu_ok u" unfolding u_def by (rule sfu_ok_same [OF ok]) simp
  have fr: "?t \<notin> set (liveT st)" using p by (auto simp: ports_ok_def)
  have lu: "liveT u = liveT st" by (simp add: u_def upd_peer_def)
  have v: "upd_peer a (\<lambda>p. p\<lparr>transportsInFlight := removeAll d (transportsInFlight p)\<rparr>) (st\<lparr>fresh := ?t + 1, liveT := liveT st @ [?t]\<rparr>) =
      u\<lparr>liveT := liveT u @ [?t]\<rparr>" by (simp add: u_def upd_peer_def)
  have cur: "is_current (u\<lparr>liveT := liveT u @ [?t]\<rparr>) a = is_current u a" by (simp add: is_current_def seat_def room_members_def)
  show ?thesis
  proof (cases "is_current u a")
    case False
    then have "transport_made cfg a d st = closeT (Some ?t) (u\<lparr>liveT := liveT u @ [?t]\<rparr>)"
      unfolding transport_made_def Let_def v cur by simp
    also have "\<dots> = u" using fr lu by (simp add: closeT_def)
    finally show ?thesis using u by simp
  next
    case True
    define f where "f = (\<lambda>p :: PeerState. if transport_of d p = None then p else clearTransportReapTimer d (p\<lparr>connectedT := removeAll d (connectedT p)\<rparr>))"
    define g where "g = (\<lambda>p :: PeerState. if reaping cfg then p\<lparr>reapTimers := js_set (reapTimers p) d ?t\<rparr> else p)"
    define h where "h = (\<lambda>p. g (set_transport d (Some ?t) (f p)))"
    define x where "x = upd_peer a h (closeT (transport_of d (peers u a)) (u\<lparr>liveT := liveT u @ [?t]\<rparr>))"
    have eq: "transport_made cfg a d st = send_to (sock (peers x a)) (Transport_options d ?t) x"
      unfolding transport_made_def Let_def v cur x_def h_def g_def f_def using True
      by (auto simp: upd_peer_def closeT_def split: option.split)
    have hp: "peer_id (h p) = peer_id p \<and> room_code (h p) = room_code p \<and> sock (h p) = sock p \<and> detachTimer (h p) = detachTimer p" for p
      by (simp add: h_def g_def f_def)
    have ht: "holds_port (h p) t \<longleftrightarrow> t = ?t \<or> (\<exists>e. e \<noteq> d \<and> transport_of e p = Some t)" for p t
      by (cases d) (auto simp: h_def g_def f_def holds_port_def set_transport_def transport_of_def clearTransportReapTimer_def direction_ex)
    have xs: "seat x r p = seat u r p" for r p by (simp add: x_def seat_def room_members_def upd_peer_def closeT_def split: option.split)
    have "same_frame u x" using hp by (auto simp: same_frame_def x_def upd_peer_def closeT_def probing_at_def split: option.split)
    moreover have "ports_ok x"
      unfolding ports_ok_def
    proof (intro conjI ballI)
      have lx: "set (liveT x) = insert ?t (set (liveT u)) - {y. transport_of d (peers u a) = Some y}"
        by (auto simp: x_def upd_peer_def closeT_def split: option.split)
      show "distinct (liveT x)" using p fr lu by (auto simp: x_def upd_peer_def closeT_def ports_ok_def distinct_removeAll split: option.split)
      fix t assume t: "t \<in> set (liveT x)"
      then have tu: "t = ?t \<or> t \<in> set (liveT u)" "transport_of d (peers u a) \<noteq> Some t" using lx by auto
      show "t < fresh x" using tu p lu by (auto simp: x_def upd_peer_def closeT_def u_def ports_ok_def less_Suc_eq split: option.split)
      show "\<exists>r p b. seat x r p = Some b \<and> holds_port (peers x b) t"
      proof (cases "t = ?t")
        case True
        have "seat u (room_code (peers u a)) (peer_id (peers u a)) = Some a" using \<open>is_current u a\<close> by (simp add: is_current_def)
        moreover have "holds_port (peers x a) t" using True ht by (simp add: x_def upd_peer_def closeT_def split: option.split)
        ultimately show ?thesis using xs by metis
      next
        case False
        then obtain r p b where b: "seat u r p = Some b" "holds_port (peers u b) t"
          using u tu by (auto simp: sfu_ok_def ports_ok_def)
        have "holds_port (h (peers u a)) t" if "holds_port (peers u a) t" using that tu(2) unfolding ht by (auto simp: holds_port_iff)
        then have "holds_port (peers x b) t" using b(2) by (auto simp: x_def upd_peer_def closeT_def split: option.split)
        then show ?thesis using b(1) xs by metis
      qed
    qed
    ultimately have "sfu_ok x" using sfu_ok_frame [OF u] by blast
    then show ?thesis unfolding eq by (rule sfu_ok_same) simp
  qed
qed

section \<open>Leaving and joining\<close>

lemma slot_rooms:
  "seat (st\<lparr>rooms := js_set (rooms st) r m\<rparr>) r' p = (if r' = r then js_get m p else seat st r' p)"
  "seat (st\<lparr>rooms := js_delete (rooms st) r\<rparr>) r' p = (if r' = r then None else seat st r' p)"
  by (auto simp: seat_def room_members_def js_get_or_def)

text \<open>What it takes for a state to be in order after one seat was given up or given to another session.\<close>

lemma sfu_ok_reslot:
  assumes ok: "rooms_ok st" "ports_ok st"
    and rooms: "js_wf (rooms st')" "\<And>q m. js_get (rooms st') q = Some m \<Longrightarrow> js_wf m"
    and slots: "\<And>q x. seat st' q x = (if q = r \<and> x = p then new else seat st q x)"
    and kept: "\<And>q x b. seat st q x = Some b \<Longrightarrow> \<not> (q = r \<and> x = p) \<Longrightarrow> ident (peers st' b) = ident (peers st b) \<and> attached st' b"
    and new: "\<And>a. new = Some a \<Longrightarrow> room_code (peers st' a) = r \<and> peer_id (peers st' a) = p \<and> a < fresh st' \<and> sock (peers st' a) < fresh st' \<and> attached st' a"
    and f: "fresh st \<le> fresh st'" and socks: "socks_ok st'"
    and ports: "liveT st' = filter (\<lambda>t. \<forall>b. seat st r p = Some b \<longrightarrow> \<not> holds_port (peers st b) t) (liveT st)"
  shows "sfu_ok st'"
proof -
  note o = ok(1) ok(1) ok(2)
  have s: "room_code (peers st' b) = q \<and> peer_id (peers st' b) = x \<and> b < fresh st' \<and> sock (peers st' b) < fresh st' \<and> attached st' b" if "seat st' q x = Some b" for q x b
  proof (cases "q = r \<and> x = p")
    case True
    then show ?thesis using that slots new by simp
  next
    case False
    then have "seat st q x = Some b" using that slots by (metis (full_types))
    moreover from this have "ident (peers st' b) = ident (peers st b)" "attached st' b" using kept [OF _ False] by blast+
    moreover have "b < fresh st'" "sock (peers st b) < fresh st'" using calculation(1) o(1) f less_le_trans unfolding rooms_ok_def by blast+
    ultimately show ?thesis using o(1) by (auto simp: rooms_ok_def ident_def)
  qed
  have "rooms_ok st'" unfolding rooms_ok_def using rooms s by blast
  moreover have "ports_ok st'"
    unfolding ports_ok_def
  proof (intro conjI ballI)
    show "distinct (liveT st')" using o(3) ports by (simp add: ports_ok_def)
    fix t assume t: "t \<in> set (liveT st')"
    then have tl: "t \<in> set (liveT st)" using ports by auto
    then show "t < fresh st'" using o(3) f by (auto simp: ports_ok_def)
    obtain q x b where b: "seat st q x = Some b" "holds_port (peers st b) t" using o(3) tl by (auto simp: ports_ok_def)
    then have n: "\<not> (q = r \<and> x = p)" using t ports by auto
    then have "seat st' q x = Some b" using slots b(1) by auto
    moreover have "holds_port (peers st' b) t" using kept [OF b(1) n] b(2) by (simp add: ident_def holds_port_def)
    ultimately show "\<exists>q x b. seat st' q x = Some b \<and> holds_port (peers st' b) t" by blast
  qed
  ultimately show ?thesis using s socks by (auto simp: sfu_ok_def)
qed

lemma liveT_over [simp]:
  "(closeT t u)\<lparr>liveT := xs\<rparr> = u\<lparr>liveT := xs\<rparr>" "(upd_peer a f u)\<lparr>liveT := xs\<rparr> = upd_peer a f (u\<lparr>liveT := xs\<rparr>)"
  "(closeP x u)\<lparr>liveT := xs\<rparr> = closeP x (u\<lparr>liveT := xs\<rparr>)" "(closeC x u)\<lparr>liveT := xs\<rparr> = closeC x (u\<lparr>liveT := xs\<rparr>)"
  "(upd_conn w g u)\<lparr>liveT := xs\<rparr> = upd_conn w g (u\<lparr>liveT := xs\<rparr>)"
  by (simp_all add: closeT_def upd_peer_def closeP_def closeC_def upd_conn_def split: option.split)

lemma liveT_send [simp]: "(send_to w m u)\<lparr>liveT := xs\<rparr> = send_to w m (u\<lparr>liveT := xs\<rparr>)" "(cut w e u)\<lparr>liveT := xs\<rparr> = cut w e (u\<lparr>liveT := xs\<rparr>)"
  by (simp_all add: send_to_def cut_def)

lemma liveT_fold: "(\<And>x v. (f x v)\<lparr>liveT := xs\<rparr> = f x (v\<lparr>liveT := xs\<rparr>)) \<Longrightarrow> (fold f ys u)\<lparr>liveT := xs\<rparr> = fold f ys (u\<lparr>liveT := xs\<rparr>)"
  by (induction ys arbitrary: u) simp_all

lemma liveT_folds [simp]:
  "(fold closeP ys u)\<lparr>liveT := xs\<rparr> = fold closeP ys (u\<lparr>liveT := xs\<rparr>)" "(fold closeC ys u)\<lparr>liveT := xs\<rparr> = fold closeC ys (u\<lparr>liveT := xs\<rparr>)"
  by (rule liveT_fold; simp)+

lemma leave_media_skel:
  "same_skel st ((leave_media a room st)\<lparr>liveT := liveT st\<rparr>)"
  "liveT (leave_media a room st) = filter (\<lambda>t. \<not> holds_port (peers st a) t) (liveT st)"
proof -
  define pid where "pid = peer_id (peers st a)"
  define f where "f = (\<lambda>(q, b). if q = pid then id
      else upd_peer b (\<lambda>p. p\<lparr>producers := map (\<lambda>(i, e). (i, e\<lparr>viewers := removeAll pid (viewers e)\<rparr>)) (producers p)\<rparr>))"
  define x where "x = upd_peer a (\<lambda>p. p\<lparr>producers := [], consumers := []\<rparr>)
      (fold closeC (map fst (consumers (peers st a))) (fold closeP (map fst (producers (peers st a))) st))"
  define g where "g = (\<lambda>p :: PeerState. (clearTransportReapTimer Drecv (clearTransportReapTimer Dsend p))\<lparr>pauseTimer := False\<rparr>)"
  have lm: "leave_media a room st = upd_peer a g (closeT (recvT (peers (fold f room x) a)) (closeT (sendT (peers (fold f room x) a)) (fold f room x)))"
    unfolding leave_media_def Let_def x_def f_def g_def pid_def by simp
  have fl: "(f y v)\<lparr>liveT := xs\<rparr> = f y (v\<lparr>liveT := xs\<rparr>)" "liveT (f y v) = liveT v" "same_skel st u \<Longrightarrow> same_skel st (f y u)" for y v xs u
    by (auto simp: f_def split: prod.split)
  have lf: "liveT (fold f room v) = liveT v" for v by (induction room arbitrary: v) (simp_all add: fl)
  have x: "same_skel st (x\<lparr>liveT := liveT st\<rparr>)" "liveT x = liveT st" by (simp_all add: x_def)
  have fx: "(fold f room x)\<lparr>liveT := liveT st\<rparr> = fold f room (x\<lparr>liveT := liveT st\<rparr>)" by (rule liveT_fold) (rule fl(1))
  have sf: "same_skel st (fold f room (x\<lparr>liveT := liveT st\<rparr>))" by (rule same_skel_fold) (use x fl(3) in simp_all)
  show "same_skel st ((leave_media a room st)\<lparr>liveT := liveT st\<rparr>)"
    unfolding lm using sf by (simp add: fx g_def)
  have "peers ((fold f room x)\<lparr>liveT := liveT st\<rparr>) a = peers (fold f room x) a" by simp
  then have "sendT (peers (fold f room x) a) = sendT (peers st a)" "recvT (peers (fold f room x) a) = recvT (peers st a)"
    using same_skelD(5,6) [OF sf] fx by metis+
  then show "liveT (leave_media a room st) = filter (\<lambda>t. \<not> holds_port (peers st a) t) (liveT st)"
    unfolding lm by (simp add: lf x(2) holds_port_def conj_commute)
qed

lemma attached_cong:
  assumes "sock (peers u b) = sock (peers st b)" "detachTimer (peers u b) = detachTimer (peers st b)"
    and "c_closed (conns u (sock (peers st b))) = c_closed (conns st (sock (peers st b)))"
    and "c_session (conns u (sock (peers st b))) = c_session (conns st (sock (peers st b)))"
  shows "attached u b = attached st b"
  by (simp add: attached_def assms Let_def)

lemma slot_member: "js_get (rooms st) r = Some m \<Longrightarrow> seat st r p = js_get m p"
  by (simp add: seat_def room_members_def js_get_or_def)

lemma handlePeerLeft_skel:
  assumes cur: "is_current st a"
  shows "\<exists>u. same_skel u (handlePeerLeft a st) \<and> liveT u = filter (\<lambda>t. \<not> holds_port (peers st a) t) (liveT st) \<and>
      (\<forall>b. ident (peers u b) = (if b = a then ident (peers st a\<lparr>detachTimer := None\<rparr>) else ident (peers st b))) \<and>
      (\<forall>w. (c_open (conns u w) \<longrightarrow> c_open (conns st w)) \<and> c_closed (conns u w) = c_closed (conns st w) \<and> c_session (conns u w) = c_session (conns st w)) \<and>
      fresh st \<le> fresh u \<and> (\<forall>w. probing_at u w \<longrightarrow> probing_at st w) \<and>
      rooms u = (let m = js_delete (room_members st (room_code (peers st a))) (peer_id (peers st a)) in
        if m = [] then js_delete (js_set (rooms st) (room_code (peers st a)) m) (room_code (peers st a)) else js_set (rooms st) (room_code (peers st a)) m)"
proof -
  let ?r = "room_code (peers st a)" and ?p = "peer_id (peers st a)"
  obtain m where m: "js_get (rooms st) ?r = Some m"
    using cur by (cases "js_get (rooms st) ?r") (auto simp: is_current_def seat_def room_members_def js_get_or_def)
  have rm: "room_members st ?r = m" using m by (simp add: room_members_def js_get_or_def)
  define d where "d = upd_peer a (\<lambda>p. p\<lparr>detachTimer := None\<rparr>) st"
  define v where "v = leave_media a m d"
  define m' where "m' = js_delete m ?p"
  define R where "R = (if m' = [] then js_delete (js_set (rooms st) ?r m') ?r else js_set (rooms st) ?r m')"
  define x where "x = send_all (map (\<lambda>(q, b). sock (peers v b)) m') (Peer_left ?p) (v\<lparr>rooms := js_set (rooms v) ?r m'\<rparr>)"
  have pd: "peer_id (peers d a) = ?p" "room_code (peers d a) = ?r" "rooms d = rooms st" by (simp_all add: d_def peers_upd_peer)
  have vd: "same_skel d (v\<lparr>liveT := liveT d\<rparr>)" and vl: "liveT v = filter (\<lambda>t. \<not> holds_port (peers st a) t) (liveT st)"
    using leave_media_skel [where st = d and a = a and room = m] by (simp_all add: v_def d_def peers_upd_peer holds_port_def)
  have rv: "rooms v = rooms st" using same_skelD(9) [OF vd] pd by simp
  have h: "handlePeerLeft a st = (if m' = [] then
      (case js_get (routers (x\<lparr>rooms := js_delete (rooms x) ?r\<rparr>)) ?r of None \<Rightarrow> x\<lparr>rooms := js_delete (rooms x) ?r\<rparr>
       | Some rid \<Rightarrow> x\<lparr>rooms := js_delete (rooms x) ?r, closers := closers x @ [(?r, rid)]\<rparr>) else x)"
    unfolding handlePeerLeft_def d_def [symmetric] Let_def pd m option.case v_def [symmetric] m'_def [symmetric] by (simp add: x_def split: option.split)
  define u where "u = v\<lparr>rooms := R\<rparr>"
  have sk: "same_skel (v\<lparr>rooms := Q\<rparr>) (w\<lparr>rooms := Q\<rparr>)" if "same_skel v w" for Q w
    using that by (simp add: same_skel_def probing_at_def)
  have x0: "same_skel (v\<lparr>rooms := js_set (rooms st) ?r m'\<rparr>) x" using rv by (simp add: x_def)
  then have sx: "same_skel (v\<lparr>rooms := Q\<rparr>) (x\<lparr>rooms := Q\<rparr>)" "rooms x = js_set (rooms st) ?r m'" for Q
    using rv by (auto simp: same_skel_def probing_at_def)
  have "same_skel u (handlePeerLeft a st)"
    unfolding h u_def R_def using x0 sx by (auto split: option.split)
  moreover have "ident (peers u b) = (if b = a then ident (peers st a\<lparr>detachTimer := None\<rparr>) else ident (peers st b))" for b
    using vd by (simp add: u_def same_skel_def d_def peers_upd_peer)
  moreover have "(c_open (conns u w) \<longrightarrow> c_open (conns st w)) \<and> c_closed (conns u w) = c_closed (conns st w) \<and> c_session (conns u w) = c_session (conns st w)" for w
    using vd by (simp add: u_def same_skel_def d_def)
  moreover have "fresh st \<le> fresh u" "\<And>w. probing_at u w \<Longrightarrow> probing_at st w"
    using vd by (simp_all add: u_def same_skel_def d_def probing_at_def)
  moreover have "liveT u = filter (\<lambda>t. \<not> holds_port (peers st a) t) (liveT st)" using vl by (simp add: u_def)
  ultimately show ?thesis unfolding rm m'_def [symmetric] Let_def R_def [symmetric] by (intro exI [of _ u]) (simp add: u_def)
qed

lemma current_unique: "rooms_ok st \<Longrightarrow> seat st q x = Some b \<Longrightarrow> q = room_code (peers st b) \<and> x = peer_id (peers st b) \<and> is_current st b \<and> b < fresh st"
  by (auto simp: rooms_ok_def is_current_def)

lemma slot_left:
  assumes cur: "is_current st a"
  shows "seat (handlePeerLeft a st) q x = (if q = room_code (peers st a) \<and> x = peer_id (peers st a) then None else seat st q x)"
proof -
  let ?r = "room_code (peers st a)" and ?p = "peer_id (peers st a)"
  let ?m = "room_members st ?r"
  have R: "rooms (handlePeerLeft a st) = (let m = js_delete ?m ?p in if m = [] then js_delete (js_set (rooms st) ?r m) ?r else js_set (rooms st) ?r m)"
    using handlePeerLeft_skel [OF cur] same_skelD(9) by metis
  show ?thesis
  proof (cases "js_delete ?m ?p = []")
    case True
    have "js_get (js_delete ?m ?p) x = None" unfolding True by simp
    then have "js_get ?m x = None" if "x \<noteq> ?p" using that by (simp split: if_splits)
    then show ?thesis using True unfolding seat_def room_members_def [of "handlePeerLeft a st"] R Let_def
      by (cases "q = ?r") (auto simp: js_get_or_def room_members_def [of st q])
  next
    case False
    then show ?thesis unfolding seat_def room_members_def [of "handlePeerLeft a st"] R Let_def
      by (cases "q = ?r") (auto simp: js_get_or_def room_members_def [of st q])
  qed
qed

lemma left_ok:
  assumes ok: "rooms_ok st" "ports_ok st" and cur: "is_current st a"
    and F: "rooms F = rooms (handlePeerLeft a st)" "peers F = peers (handlePeerLeft a st)" "liveT F = liveT (handlePeerLeft a st)"
      "fresh F = fresh (handlePeerLeft a st)"
    and socks: "socks_ok F" and att: "\<And>b. b \<noteq> a \<Longrightarrow> is_current st b \<Longrightarrow> attached F b"
  shows "sfu_ok F"
proof -
  let ?r = "room_code (peers st a)" and ?p = "peer_id (peers st a)"
  let ?m = "room_members st ?r"
  obtain u where u: "same_skel u (handlePeerLeft a st)" "liveT u = filter (\<lambda>t. \<not> holds_port (peers st a) t) (liveT st)"
      "\<And>b. ident (peers u b) = (if b = a then ident (peers st a\<lparr>detachTimer := None\<rparr>) else ident (peers st b))" "fresh st \<le> fresh u"
      "rooms u = (let m = js_delete ?m ?p in if m = [] then js_delete (js_set (rooms st) ?r m) ?r else js_set (rooms st) ?r m)"
    using handlePeerLeft_skel [OF cur] by blast
  have wm: "js_wf ?m" using ok(1) by (cases "js_get (rooms st) ?r") (auto simp: rooms_ok_def room_members_def js_get_or_def)
  have R: "rooms F = rooms u" "liveT F = liveT u" using F same_skelD(9,10) [OF u(1)] by simp_all
  have f: "fresh st \<le> fresh F" using F(4) u(1,4) by (simp add: same_skel_def)
  have iF: "ident (peers F b) = (if b = a then ident (peers st a\<lparr>detachTimer := None\<rparr>) else ident (peers st b))" for b
    using u(1,3) F(2) by (simp add: same_skel_def)
  have sl: "seat F q x = (if q = ?r \<and> x = ?p then None else seat st q x)" for q x
    using slot_left [OF cur] F(1) by (simp add: seat_def room_members_def)
  show ?thesis
  proof (rule sfu_ok_reslot [OF ok, of F ?r ?p None])
    show "js_wf (rooms F)" "\<And>q m. js_get (rooms F) q = Some m \<Longrightarrow> js_wf m"
      unfolding R u(5) Let_def using ok(1) wm by (auto simp: rooms_ok_def split: if_splits)
    show "ident (peers F b) = ident (peers st b) \<and> attached F b" if b: "seat st q x = Some b" "\<not> (q = ?r \<and> x = ?p)" for q x b
    proof -
      have "b \<noteq> a" "is_current st b" using current_unique [OF ok(1) b(1)] b(2) by auto
      then show ?thesis using iF att by simp
    qed
    have "seat st ?r ?p = Some a" using cur by (simp add: is_current_def)
    then show "liveT F = filter (\<lambda>t. \<forall>b. seat st ?r ?p = Some b \<longrightarrow> \<not> holds_port (peers st b) t) (liveT st)"
      unfolding R u(2) by simp
  qed (use sl f socks in auto)
qed

lemma handlePeerLeft_conns:
  assumes cur: "is_current st a"
  shows "c_open (conns (handlePeerLeft a st) w) \<Longrightarrow> c_open (conns st w)" "c_closed (conns (handlePeerLeft a st) w) = c_closed (conns st w)"
    "c_session (conns (handlePeerLeft a st) w) = c_session (conns st w)" "probing_at (handlePeerLeft a st) w \<Longrightarrow> probing_at st w"
    "fresh st \<le> fresh (handlePeerLeft a st)"
    "b \<noteq> a \<Longrightarrow> ident (peers (handlePeerLeft a st) b) = ident (peers st b)"
proof -
  obtain u where "same_skel u (handlePeerLeft a st)"
      "\<And>b. ident (peers u b) = (if b = a then ident (peers st a\<lparr>detachTimer := None\<rparr>) else ident (peers st b))"
      "\<And>w. (c_open (conns u w) \<longrightarrow> c_open (conns st w)) \<and> c_closed (conns u w) = c_closed (conns st w) \<and> c_session (conns u w) = c_session (conns st w)"
      "fresh st \<le> fresh u" "\<And>w. probing_at u w \<Longrightarrow> probing_at st w"
    using handlePeerLeft_skel [OF cur] by blast
  then show "c_open (conns (handlePeerLeft a st) w) \<Longrightarrow> c_open (conns st w)" "c_closed (conns (handlePeerLeft a st) w) = c_closed (conns st w)"
    "c_session (conns (handlePeerLeft a st) w) = c_session (conns st w)" "probing_at (handlePeerLeft a st) w \<Longrightarrow> probing_at st w"
    "fresh st \<le> fresh (handlePeerLeft a st)"
    "b \<noteq> a \<Longrightarrow> ident (peers (handlePeerLeft a st) b) = ident (peers st b)"
    by (auto simp: same_skel_def)
qed

lemma handlePeerLeft_ok:
  assumes ok: "sfu_ok st" and cur: "is_current st a"
  shows "sfu_ok (handlePeerLeft a st)"
proof (rule left_ok [OF _ _ cur])
  show "rooms_ok st" "ports_ok st" using ok by (simp_all add: sfu_ok_def)
  note c = handlePeerLeft_conns [OF cur]
  show "socks_ok (handlePeerLeft a st)" using ok c(1,4,5) unfolding sfu_ok_def socks_ok_def c(2,3) by (meson order_trans)
  fix b assume "b \<noteq> a" "is_current st b"
  then show "attached (handlePeerLeft a st) b" using c(6) [of b] ok
    by (subst attached_cong [of _ _ st]) (auto simp: ident_def c sfu_ok_def is_current_def)
qed simp_all

lemma close_old_skel:
  fixes st :: sfu and r pid :: string and b :: nat
  defines "u \<equiv> close_old r pid b st"
  shows "rooms u = rooms st" "fresh u = fresh st" "tasks u = tasks st" "routers u = routers st" "closers u = closers st"
    "c_closed (conns u w) = c_closed (conns st w)" "c_session (conns u w) = c_session (conns st w)" "c_open (conns u w) \<Longrightarrow> c_open (conns st w)"
    "peers u c = (if c = b then (clearTransportReapTimer Drecv (clearTransportReapTimer Dsend (peers st b)))\<lparr>detachTimer := None\<rparr> else peers st c)"
    "liveT u = filter (\<lambda>t. \<not> holds_port (peers st b) t) (liveT st)"
proof -
  define g where "g = (\<lambda>(q, c). if q = pid then id
      else fold (\<lambda>(i, e). send_to (sock (peers st c)) (Producer_closed pid i (pe_source e) (pe_kind e) True)) (producers (peers st b)))"
  define x where "x = fold g (room_members st r) st"
  define f where "f = (\<lambda>p :: PeerState. (clearTransportReapTimer Drecv (clearTransportReapTimer Dsend p))\<lparr>detachTimer := None\<rparr>)"
  have gp: "h (g y v) = h v" if "\<And>w m v. h (send_to w m v) = h v" for h :: "sfu \<Rightarrow> 'x" and y v
    using fold_field [where h = h and f = "\<lambda>(i, e). send_to (sock (peers st (snd y))) (Producer_closed pid i (pe_source e) (pe_kind e) True)"] that
    by (auto simp: g_def split: prod.splits)
  have fx: "h x = h st" if "\<And>w m v. h (send_to w m v) = h v" for h :: "sfu \<Rightarrow> 'x"
    unfolding x_def by (rule fold_field) (use gp that in blast)
  note fields = fx [of peers] fx [of rooms] fx [of fresh] fx [of tasks] fx [of routers] fx [of closers] fx [of liveT]
  have gs: "same_skel st (g y v)" if "same_skel st v" for y v
    unfolding g_def using that by (auto split: prod.split intro!: same_skel_fold)
  have sx: "same_skel st x" unfolding x_def by (rule same_skel_fold) (use gs in simp_all)
  have u: "u = cut (sock (peers st b)) Replaced (upd_peer b f (closeT (recvT (peers st b)) (closeT (sendT (peers st b))
      (fold closeC (map fst (consumers (peers st b))) (fold closeP (map fst (producers (peers st b))) x)))))"
    unfolding u_def close_old_def Let_def g_def [symmetric] x_def [symmetric] f_def [symmetric] by (simp add: fields peers_upd_peer) (simp add: f_def)
  show "rooms u = rooms st" "fresh u = fresh st" "tasks u = tasks st" "routers u = routers st" "closers u = closers st"
    unfolding u by (simp_all add: fields)
  show "peers u c = (if c = b then (clearTransportReapTimer Drecv (clearTransportReapTimer Dsend (peers st b)))\<lparr>detachTimer := None\<rparr> else peers st c)"
    unfolding u by (simp add: fields peers_upd_peer f_def)
  show "liveT u = filter (\<lambda>t. \<not> holds_port (peers st b) t) (liveT st)"
    unfolding u by (simp add: fields holds_port_def conj_commute)
  show "c_closed (conns u w) = c_closed (conns st w)" "c_session (conns u w) = c_session (conns st w)" "c_open (conns u w) \<Longrightarrow> c_open (conns st w)"
    unfolding u using sx by (simp_all add: cut_def conns_upd_conn same_skel_def split: if_splits)
qed

end
