(* ===== verification/Sfu_Server_Run.thy ===== *)
theory Sfu_Server_Run
  imports Sfu_Server_Safety
begin

text \<open>
  The invariant of the media server carried through joining, resuming, closing sockets and timers, and so through every run.
\<close>

section \<open>Admission\<close>

lemma admit_skel:
  fixes st :: sfu and w :: nat and r pid :: string and old :: "nat option" and token :: string and now :: int
  defines "a \<equiv> fresh st"
  assumes old: "\<And>b. old = Some b \<Longrightarrow> b \<noteq> a"
  shows "\<exists>u. same_skel u (admit w r pid old token now st) \<and> fresh u = a + 1 \<and> tasks u = tasks st \<and>
      (\<exists>R. (R = rooms st \<or> js_get (rooms st) r = None \<and> R = js_set (rooms st) r []) \<and> rooms u = js_set R r (js_set (room_members st r) pid a)) \<and>
      (\<forall>c. peers u c = (if c = a then new_peer r pid w token now
        else if Some c = old then (clearTransportReapTimer Drecv (clearTransportReapTimer Dsend (peers st c)))\<lparr>detachTimer := None\<rparr> else peers st c)) \<and>
      (\<forall>x. c_closed (conns u x) = c_closed (conns st x) \<and> (c_open (conns u x) \<longrightarrow> c_open (conns st x)) \<and>
        c_session (conns u x) = (if x = w then Some a else c_session (conns st x))) \<and>
      liveT u = filter (\<lambda>t. \<forall>b. old = Some b \<longrightarrow> \<not> holds_port (peers st b) t) (liveT st)"
proof -
  define s1 where "s1 = upd_conn w (\<lambda>c. c\<lparr>c_session := Some a\<rparr>) (st\<lparr>fresh := a + 1, peers := (peers st)(a := new_peer r pid w token now)\<rparr>)"
  define s2 where "s2 = (if js_get (rooms s1) r = None then s1\<lparr>rooms := js_set (rooms s1) r []\<rparr> else s1)"
  define s3 where "s3 = (case old of None \<Rightarrow> s2 | Some b \<Rightarrow> close_old r pid b s2)"
  define u where "u = s3\<lparr>rooms := js_set (rooms s3) r (js_set (room_members s3 r) pid a)\<rparr>"
  have ad: "admit w r pid old token now st = fold (\<lambda>(q, i, src, k). send_to w (New_producer q i src))
      (roomProducers (send_to w (Joined token) u) (js_set (room_members s3 r) pid a) pid) (send_to w (Joined token) u)"
    unfolding admit_def Let_def a_def [symmetric] s1_def [symmetric] s2_def [symmetric] s3_def [symmetric] u_def [symmetric] ..
  have "same_skel u (admit w r pid old token now st)"
    unfolding ad by (rule same_skel_fold) (auto split: prod.splits)
  moreover have s2f: "fresh s2 = a + 1" "tasks s2 = tasks st" "peers s2 = (peers st)(a := new_peer r pid w token now)" "liveT s2 = liveT st"
      "conns s2 = (conns st)(w := (conns st w)\<lparr>c_session := Some a\<rparr>)"
    by (simp_all add: s2_def s1_def upd_conn_def)
  have rs: "rooms s3 = rooms s2" "fresh s3 = fresh s2" "tasks s3 = tasks s2"
    by (simp_all add: s3_def close_old_skel split: option.split)
  have "peers u c = (if c = a then new_peer r pid w token now
        else if Some c = old then (clearTransportReapTimer Drecv (clearTransportReapTimer Dsend (peers st c)))\<lparr>detachTimer := None\<rparr> else peers st c)" for c
    using old by (auto simp: u_def s3_def close_old_skel s2f split: option.split)
  moreover have "c_closed (conns u x) = c_closed (conns st x) \<and> (c_open (conns u x) \<longrightarrow> c_open (conns st x)) \<and>
        c_session (conns u x) = (if x = w then Some a else c_session (conns st x))" for x
    by (cases old) (auto simp: u_def s3_def close_old_skel s2f dest!: close_old_skel(8))
  moreover have "liveT u = filter (\<lambda>t. \<forall>b. old = Some b \<longrightarrow> \<not> holds_port (peers st b) t) (liveT st)"
    using old by (auto simp: u_def s3_def close_old_skel s2f split: option.split)
  moreover have "rooms s2 = rooms st \<or> js_get (rooms st) r = None \<and> rooms s2 = js_set (rooms st) r []" "room_members s3 r = room_members st r"
    by (auto simp: s2_def s1_def room_members_def rs js_get_or_def)
  ultimately show ?thesis using rs s2f(1,2) by (intro exI [of _ u]) (auto simp: u_def)
qed

lemma sfu_okD:
  assumes "sfu_ok st"
  shows "rooms_ok st" "ports_ok st" "socks_ok st" "seat st r p = Some b \<Longrightarrow> attached st b"
    "seat st r p = Some b \<Longrightarrow> room_code (peers st b) = r \<and> peer_id (peers st b) = p \<and> b < fresh st \<and> sock (peers st b) < fresh st"
  "\<not> c_closed (conns st w) \<Longrightarrow> w < fresh st"
  using assms by (auto simp: sfu_ok_def rooms_ok_def socks_ok_def not_le [symmetric])

lemma admit_ok:
  assumes ok: "sfu_ok st" and w: "\<not> c_closed (conns st w)" "c_session (conns st w) = None" "\<not> probing_at st w"
    and old: "old = seat st r pid"
  shows "sfu_ok (admit w r pid old token now st)"
proof -
  note o = sfu_okD [OF ok]
  let ?a = "fresh st"
  have ob: "b \<noteq> ?a" if "old = Some b" for b using that o(5) [of r pid b] old by auto
  obtain u R where k: "same_skel u (admit w r pid old token now st)" "fresh u = ?a + 1" "tasks u = tasks st"
      "R = rooms st \<or> js_get (rooms st) r = None \<and> R = js_set (rooms st) r []" "rooms u = js_set R r (js_set (room_members st r) pid ?a)"
      "\<forall>c. peers u c = (if c = ?a then new_peer r pid w token now
        else if Some c = old then (clearTransportReapTimer Drecv (clearTransportReapTimer Dsend (peers st c)))\<lparr>detachTimer := None\<rparr> else peers st c)"
      "\<forall>x. c_closed (conns u x) = c_closed (conns st x) \<and> (c_open (conns u x) \<longrightarrow> c_open (conns st x)) \<and>
        c_session (conns u x) = (if x = w then Some ?a else c_session (conns st x))"
      "liveT u = filter (\<lambda>t. \<forall>b. old = Some b \<longrightarrow> \<not> holds_port (peers st b) t) (liveT st)"
    using admit_skel [of old st w r pid token now, OF ob] by blast
  note u = k(1-5) k(6) [rule_format] k(7) [rule_format, THEN conjunct1] k(7) [rule_format, THEN conjunct2, THEN conjunct1, rule_format]
    k(7) [rule_format, THEN conjunct2, THEN conjunct2] k(8)
  have pr: "probing_at u x = probing_at st x" for x by (simp add: probing_at_def u(3))
  have "sfu_ok u"
  proof (rule sfu_ok_reslot [OF o(1,2), of u r pid "Some ?a"])
    show "js_wf (rooms u)" "\<And>q m. js_get (rooms u) q = Some m \<Longrightarrow> js_wf m"
      unfolding u(5) using o(1) u(4) by (auto simp: rooms_ok_def room_members_def js_get_or_def split: if_splits option.split)
    show "seat u q x = (if q = r \<and> x = pid then Some ?a else seat st q x)" for q x
      using u(4) by (auto simp: seat_def room_members_def u(5) js_get_or_def)
    show "ident (peers u b) = ident (peers st b) \<and> attached u b" if b: "seat st q x = Some b" "\<not> (q = r \<and> x = pid)" for q x b
    proof -
      have n: "b \<noteq> ?a" "Some b \<noteq> old" using o(5) [OF b(1)] o(5) [of r pid b] b(2) old by auto
      have "sock (peers st b) \<noteq> w" using o(4) [OF b(1)] w by (auto simp: attached_def Let_def)
      then have "attached u b = attached st b" by (intro attached_cong) (simp_all add: u n)
      then show ?thesis using o(4) [OF b(1)] n by (simp add: u(6))
    qed
    show "room_code (peers u b) = r \<and> peer_id (peers u b) = pid \<and> b < fresh u \<and> sock (peers u b) < fresh u \<and> attached u b" if "Some ?a = Some b" for b
      using that w o(6) [of w] by (auto simp: u new_peer_def attached_def)
    show "socks_ok u" using o(3) w unfolding socks_ok_def by (auto simp: u pr dest: u(8))
  qed (use u(2,10) old in auto)
  then show ?thesis using u(1) by (rule sfu_ok_same)
qed

lemma resumeSession_ok:
  fixes st :: sfu
  assumes ok: "sfu_ok st" and a: "seat st r p = Some a" and w: "\<not> c_closed (conns st w)" "c_session (conns st w) = None" "\<not> probing_at st w"
  shows "sfu_ok (resumeSession a w token (upd_conn w (\<lambda>c. c\<lparr>c_session := Some a\<rparr>) st))"
proof -
  note o = sfu_okD [OF ok]
  define s0 where "s0 = upd_conn w (\<lambda>c. c\<lparr>c_session := Some a\<rparr>) st"
  define u where "u = upd_peer a (\<lambda>p. p\<lparr>detachTimer := None, sock := w, pauseTimer := False\<rparr>) s0"
  have sk: "same_skel u (resumeSession a w token s0)"
    by (simp add: resumeSession_def Let_def u_def [symmetric])
  have pr: "probing_at u x = probing_at st x" for x by (simp add: u_def s0_def probing_at_def)
  have pu: "peers u b = (if b = a then (peers st a)\<lparr>detachTimer := None, sock := w, pauseTimer := False\<rparr> else peers st b)"
      "c_closed (conns u x) = c_closed (conns st x)" "c_open (conns u x) = c_open (conns st x)"
      "c_session (conns u x) = (if x = w then Some a else c_session (conns st x))" "rooms u = rooms st" "fresh u = fresh st" "liveT u = liveT st" for b x
    by (simp_all add: u_def s0_def peers_upd_peer conns_upd_conn)
  have sl: "seat u q x = seat st q x" for q x by (simp add: seat_def room_members_def pu)
  have "rooms_ok u" using o(1) o(6) [OF w(1)] unfolding rooms_ok_def sl pu by auto
  moreover have "attached u b" if b: "seat st q x = Some b" for q x b
  proof (cases "b = a")
    case False
    have "sock (peers st b) \<noteq> w" using o(4) [OF b] w by (auto simp: attached_def Let_def)
    then have "attached u b = attached st b" using False by (intro attached_cong) (simp_all add: pu)
    then show ?thesis using o(4) [OF b] by simp
  qed (simp add: attached_def pu w)
  moreover have "socks_ok u" using o(3) w unfolding socks_ok_def by (auto simp: pu pr)
  moreover have "ports_ok u" using o(2) unfolding ports_ok_def sl by (simp add: pu holds_port_def) (metis (no_types))
  ultimately have "sfu_ok u" by (simp add: sfu_ok_def sl)
  then show ?thesis using sk unfolding s0_def by (rule sfu_ok_same)
qed

lemma await_probe_ok:
  assumes "sfu_ok st" "c_session (conns st w) = None"
  shows "sfu_ok (await_task w t st)"
proof -
  have "rooms_ok (await_task w t st) = rooms_ok st" "attached (await_task w t st) a = attached st a" "ports_ok (await_task w t st) = ports_ok st"
    "seat (await_task w t st) r p = seat st r p" for a r p
    by (simp_all add: rooms_ok_def attached_def ports_ok_def seat_def room_members_def)
  moreover have "socks_ok (await_task w t st)" using sfu_okD(3) [OF assms(1)] assms(2)
    by (auto simp: socks_ok_def probing_at_def await_task_def split: if_splits)
  ultimately show ?thesis using assms(1) by (simp add: sfu_ok_def)
qed

lemma skel_join_conn: "same_skel st (upd_conn w (\<lambda>c. c\<lparr>c_joinTimer := False\<rparr>) (upd_conn w (\<lambda>c. c\<lparr>c_nonce := None\<rparr>) st))"
    "same_skel st (upd_conn w (\<lambda>c. c\<lparr>c_nonce := None\<rparr>) st)"
  by (simp_all add: same_skel_conn)

lemma handleJoin_ok:
  assumes ok: "sfu_ok st" and w: "\<not> c_closed (conns st w)" "c_session (conns st w) = None" "\<not> probing_at st w"
  shows "sfu_ok (handleJoin cfg lib w j now token buffered st)"
proof -
  define n where "n = upd_conn w (\<lambda>c. c\<lparr>c_nonce := None\<rparr>) st"
  define u where "u = upd_conn w (\<lambda>c. c\<lparr>c_joinTimer := False\<rparr>) n"
  have u: "sfu_ok u" "\<not> c_closed (conns u w)" "c_session (conns u w) = None" "\<not> probing_at u w"
    using sfu_ok_same [OF ok skel_join_conn(1) [of st w]] w unfolding u_def n_def by (simp_all add: conns_upd_conn probing_at_def)
  have n: "sfu_ok (refuse w m n)" for m unfolding n_def by (rule sfu_ok_same [OF ok]) (simp add: skel_join_conn)
  have f: "sfu_ok (refuse w m u)" "sfu_ok (server_full w u)" for m by (rule sfu_ok_same [OF u(1)]; simp)+
  have i: "sfu_ok (refuse w m st)" for m by (rule sfu_ok_same [OF ok]) simp
  have ad: "sfu_ok (admit w r p None token now u)" if "seat u r p = None" for r p
    using admit_ok [OF u, of "seat u r p" r p token now] that by simp
  have rs: "sfu_ok (resumeSession b w token (upd_conn w (\<lambda>c. c\<lparr>c_session := Some b\<rparr>) u))" if "seat u r p = Some b" for r p b
    using resumeSession_ok [OF u(1) that u(2,3,4)] .
  show ?thesis
    unfolding handleJoin_def Let_def n_def [symmetric] u_def [symmetric]
    using i n f ad rs u(1) await_probe_ok [OF u(1,3)] by (simp split: option.splits sum.splits bool.splits)
qed

lemma probe_answer_ok:
  assumes ok: "sfu_ok st"
  shows "sfu_ok (probe_answer w pong token now st)"
proof (cases "\<exists>r pid old x v. js_get (tasks st) w = Some (Probing r pid old x v)")
  case True
  then obtain r pid old x v where t: "js_get (tasks st) w = Some (Probing r pid old x v)" by blast
  define u where "u = end_task w st"
  have u: "sfu_ok u" unfolding u_def by (rule sfu_ok_same [OF ok]) simp
  have c: "c_session (conns u w) = None" using t sfu_okD(3) [OF ok] by (auto simp: socks_ok_def probing_at_def u_def)
  have p: "\<not> probing_at u w" by (simp add: probing_at_def u_def end_task_def)
  have o: "\<not> c_closed (conns u w)" if "c_open (conns u w)" using that sfu_okD(3) [OF u] by (auto simp: socks_ok_def)
  have f: "sfu_ok (refuse w m u)" for m by (rule sfu_ok_same [OF u]) simp
  have ad: "sfu_ok (admit w r pid (seat u r pid) token now u)" if "c_open (conns u w)"
    using admit_ok [OF u o [OF that] c p] by blast
  show ?thesis unfolding probe_answer_def t u_def [symmetric] Let_def option.case pending_task.case
    using u f ad by (cases "seat u r pid") (auto split: if_splits)
qed (auto simp: probe_answer_def ok split: option.splits pending_task.splits)

lemma handleFrame_ok:
  assumes ok: "sfu_ok st"
  shows "sfu_ok (handleFrame cfg lib w f now token buffered st)"
proof -
  have s: "sfu_ok (shut w st)" by (rule sfu_ok_same [OF ok]) simp
  have j: "sfu_ok (handleJoin cfg lib w j now token buffered st)"
    if "\<not> c_closed (conns st w)" "js_get (tasks st) w = None" "c_session (conns st w) = None" for j
    using that by (intro handleJoin_ok [OF ok]) (simp_all add: probing_at_def)
  have "sfu_ok (snd (spendWorkerOp cfg w a now st))" for a by (rule sfu_ok_same [OF ok skel_spend])
  then have p: "sfu_ok (route cfg w a m u)" "sfu_ok u" if "spendWorkerOp cfg w a now st = (b, u)" for a m b u
    using that sfu_ok_same [OF _ skel_route] by (metis snd_conv)+
  have r: "sfu_ok (route cfg w a m st)" for a m by (rule sfu_ok_same [OF ok skel_route])
  show ?thesis unfolding handleFrame_def using ok s j p r
    by (auto split: frame.split option.split ClientMsg.split prod.split simp del: route.simps)
qed

lemma on_connection_ok:
  assumes ok: "sfu_ok st"
  shows "sfu_ok (on_connection nonce now st)"
proof -
  note o = sfu_okD [OF ok]
  let ?w = "fresh st" and ?u = "on_connection nonce now st"
  have cl: "c_closed (conns st ?w)" using o(3) by (auto simp: socks_ok_def)
  have u: "peers ?u = peers st" "rooms ?u = rooms st" "fresh ?u = fresh st + 1" "liveT ?u = liveT st" "tasks ?u = tasks st"
    by (simp_all add: on_connection_def Let_def)
  have sl: "seat ?u r p = seat st r p" for r p by (simp add: seat_def room_members_def u)
  have "attached ?u b" if b: "seat st r p = Some b" for r p b
  proof -
    have "sock (peers st b) \<noteq> ?w"
      using o(5) [OF b] by simp
    then have "attached ?u b = attached st b" by (intro attached_cong) (simp_all add: u on_connection_def Let_def)
    then show ?thesis using o(4) [OF b] by simp
  qed
  moreover have "rooms_ok ?u" using o(1) unfolding rooms_ok_def sl by (auto simp: u intro: less_SucI)
  moreover have "socks_ok ?u" using o(3) by (auto simp: socks_ok_def on_connection_def Let_def probing_at_def)
  moreover have "ports_ok ?u" using o(2) unfolding ports_ok_def sl by (auto simp: u intro: less_SucI)
  ultimately show ?thesis by (simp add: sfu_ok_def sl)
qed

section \<open>Closing sockets and timers\<close>

lemma attached_kept:
  assumes "sfu_ok st" "seat st r p = Some b" "ident (peers F b) = ident (peers st b)"
    "c_closed (conns F (sock (peers st b))) = c_closed (conns st (sock (peers st b)))"
    "c_session (conns F (sock (peers st b))) = c_session (conns st (sock (peers st b)))"
  shows "attached F b"
  using sfu_okD(4) [OF assms(1,2)] attached_cong [of F b st] assms(3-5) by (simp add: ident_def)

definition gone :: "nat \<Rightarrow> sfu \<Rightarrow> sfu \<Rightarrow> bool" where
  \<comment> \<open>the socket has closed and let go of its session; the others are as they were, or on their way out\<close>
  "gone w st F \<longleftrightarrow> \<not> c_open (conns F w) \<and> c_closed (conns F w) \<and> c_session (conns F w) = None \<and>
     (\<forall>x. x \<noteq> w \<longrightarrow> (c_open (conns F x) \<longrightarrow> c_open (conns st x)) \<and> c_closed (conns F x) = c_closed (conns st x) \<and> c_session (conns F x) = c_session (conns st x)) \<and>
     (\<forall>x. probing_at F x \<longrightarrow> probing_at st x) \<and> fresh st \<le> fresh F"

lemma gone_socks: "gone w st F \<Longrightarrow> socks_ok st \<Longrightarrow> socks_ok F"
  unfolding gone_def socks_ok_def by (metis le_trans)

lemma gone_attached:
  assumes "sfu_ok st" "gone w st F" "seat st r p = Some b" "sock (peers st b) \<noteq> w" "ident (peers F b) = ident (peers st b)"
  shows "attached F b"
  using assms by (intro attached_kept [OF assms(1,3,5)]) (simp_all add: gone_def)

lemma gone_idle_ok:
  assumes ok: "sfu_ok st" and g: "gone w st F" and n: "\<And>r p b. seat st r p = Some b \<Longrightarrow> sock (peers st b) \<noteq> w"
    and F: "rooms F = rooms st" "peers F = peers st" "liveT F = liveT st" "fresh F = fresh st"
  shows "sfu_ok F"
proof -
  note o = sfu_okD [OF ok]
  have s: "seat F r p = seat st r p" for r p by (simp add: seat_def room_members_def F)
  have "rooms_ok F" "ports_ok F" using o(1,2) unfolding rooms_ok_def ports_ok_def s by (simp_all add: F)
  then show ?thesis using gone_attached [OF ok g] n gone_socks [OF g o(3)] by (auto simp: sfu_ok_def s F)
qed

lemma gone_detach_ok:
  assumes ok: "sfu_ok st" and g: "gone w st F" and a: "seat st r p = Some a" "sock (peers st a) = w"
    and u: "\<And>q x b. seat st q x = Some b \<Longrightarrow> sock (peers st b) = w \<Longrightarrow> b = a"
    and F: "rooms F = rooms st" "peers F = (peers st)(a := peers st a\<lparr>detachTimer := Some w\<rparr>)" "liveT F = liveT st" "fresh F = fresh st"
  shows "sfu_ok F"
proof -
  note o = sfu_okD [OF ok]
  have s: "seat F r p = seat st r p" for r p by (simp add: seat_def room_members_def F)
  have "attached F b" if b: "seat st q x = Some b" for q x b
  proof (cases "b = a")
    case True
    then show ?thesis using g a(2) by (simp add: attached_def F gone_def)
  next
    case False
    then show ?thesis using u [OF b] by (intro gone_attached [OF ok g b]) (auto simp: F)
  qed
  moreover have "rooms_ok F" using o(1) unfolding rooms_ok_def s by (auto simp: F)
  moreover have "ports_ok F" using o(2) unfolding ports_ok_def s by (simp add: F holds_port_def) (metis (no_types))
  ultimately show ?thesis using gone_socks [OF g o(3)] by (simp add: sfu_ok_def s)
qed

lemma gone_left_ok:
  assumes ok: "sfu_ok st" and u: "rooms u = rooms st" "peers u = peers st" "liveT u = liveT st" "fresh u = fresh st" and cur: "is_current u a" "sock (peers st a) = w"
    and one: "\<And>q x b. seat st q x = Some b \<Longrightarrow> sock (peers st b) = w \<Longrightarrow> b = a"
    and g: "gone w st F" and F: "rooms F = rooms (handlePeerLeft a u)" "peers F = peers (handlePeerLeft a u)" "liveT F = liveT (handlePeerLeft a u)"
      "fresh F = fresh (handlePeerLeft a u)"
  shows "sfu_ok F"
proof (rule left_ok [OF _ _ cur(1) F])
  note o = sfu_okD [OF ok]
  have s: "seat u r p = seat st r p" for r p by (simp add: seat_def room_members_def u)
  show "rooms_ok u" "ports_ok u" using o(1,2) unfolding rooms_ok_def ports_ok_def s by (simp_all add: u)
  show "socks_ok F" by (rule gone_socks [OF g o(3)])
  fix b assume b: "b \<noteq> a" "is_current u b"
  then obtain r p where rp: "seat st r p = Some b" using s by (auto simp: is_current_def)
  then have "sock (peers st b) \<noteq> w" using one b(1) by blast
  then show "attached F b" using handlePeerLeft_conns(6) [OF cur(1) b(1)] by (intro gone_attached [OF ok g rp]) (simp_all add: F u)
qed

lemma on_close_ok:
  assumes ok: "sfu_ok st"
  shows "sfu_ok (on_close cfg w code st)"
proof (cases "c_closed (conns st w)")
  case False
  define u where "u = upd_conn w (\<lambda>c. c\<lparr>c_open := False, c_closed := True, c_joinTimer := False\<rparr>) st"
  define v where "v = upd_conn w (\<lambda>c. c\<lparr>c_session := None\<rparr>)"
  have u: "rooms u = rooms st" "peers u = peers st" "liveT u = liveT st" "fresh u = fresh st" "tasks u = tasks st"
      "c_session (conns u w) = c_session (conns st w)" "is_current u b = is_current st b" for b
    by (simp_all add: u_def conns_upd_conn is_current_def seat_def room_members_def)
  have vf: "rooms (v x) = rooms x" "peers (v x) = peers x" "liveT (v x) = liveT x" "fresh (v x) = fresh x" for x by (simp_all add: v_def)
  have mine: "c_session (conns st w) = Some b" if "seat st r p = Some b" "sock (peers st b) = w" for r p b
    using sfu_okD(4) [OF ok that(1)] that(2) False by (simp add: attached_def)
  show ?thesis
  proof (cases "c_session (conns st w)")
    case None
    then have e: "on_close cfg w code st = u" using False unfolding on_close_def u_def [symmetric] Let_def u by simp
    have "gone w st u" using None by (simp add: gone_def u_def conns_upd_conn probing_at_def)
    then show ?thesis unfolding e using mine None by (intro gone_idle_ok [OF ok]) (auto simp: u)
  next
    case (Some a)
    have one: "b = a" if "seat st q x = Some b" "sock (peers st b) = w" for q x b using mine [OF that] Some by simp
    have oc: "on_close cfg w code st = v (if is_current u a \<and> sock (peers st a) = w then
        if resume_grace cfg \<and> holdsForResume code (c_endedBy (conns u w)) then upd_peer a (\<lambda>p. p\<lparr>detachTimer := Some w\<rparr>) u else handlePeerLeft a u else u)"
      using False unfolding on_close_def u_def [symmetric] v_def [symmetric] Let_def u Some by simp
    have gu: "gone w st (v u)" "gone w st (v (upd_peer a f u))" for f by (simp_all add: gone_def u_def v_def conns_upd_conn probing_at_def)
    have gl: "gone w st (v (handlePeerLeft a u))" if "is_current u a"
      using handlePeerLeft_conns [OF that] gu(1) by (simp add: gone_def v_def conns_upd_conn probing_at_def) (auto simp: u)
    show ?thesis
    proof (cases "is_current u a \<and> sock (peers st a) = w")
      case False
      have "sock (peers st b) \<noteq> w" if b: "seat st r p = Some b" for r p b
        using one [OF b] False [unfolded u(7)] b sfu_okD(5) [OF ok b] by (auto simp: is_current_def)
      then show ?thesis unfolding oc if_not_P [OF False] by (intro gone_idle_ok [OF ok gu(1)]) (simp_all add: vf u)
    next
      case True
      then have cur: "is_current u a" "sock (peers st a) = w" by simp_all
      have "seat st (room_code (peers st a)) (peer_id (peers st a)) = Some a" using cur(1) [unfolded u(7)] by (simp add: is_current_def)
      then have "sfu_ok (v (upd_peer a (\<lambda>p. p\<lparr>detachTimer := Some w\<rparr>) u))"
        by (rule gone_detach_ok [OF ok gu(2) _ cur(2) one]) (simp_all add: vf u upd_peer_def)
      moreover have "sfu_ok (v (handlePeerLeft a u))" by (rule gone_left_ok [OF ok u(1-4) cur one gl [OF cur(1)]]) (simp_all add: vf)
      ultimately show ?thesis unfolding oc if_P [OF True] by simp
    qed
  qed
qed (simp add: on_close_def ok)

lemma detach_fires_ok:
  assumes ok: "sfu_ok st"
  shows "sfu_ok (detach_fires a st)"
proof (cases "detachTimer (peers st a)")
  case (Some w)
  note o = sfu_okD [OF ok]
  define u where "u = upd_peer a (\<lambda>p. p\<lparr>detachTimer := None\<rparr>) st"
  have pu: "peers u b = (if b = a then (peers st a)\<lparr>detachTimer := None\<rparr> else peers st b)" "conns u = conns st" "tasks u = tasks st"
      "fresh u = fresh st" "rooms u = rooms st" "liveT u = liveT st" for b
    by (simp_all add: u_def peers_upd_peer)
  have sl: "seat u r p = seat st r p" "is_current u b = is_current st b" for r p b
    by (auto simp: seat_def room_members_def pu is_current_def)
  have ro: "rooms_ok u" "ports_ok u" "socks_ok u"
    using o(1,2,3) unfolding rooms_ok_def ports_ok_def sl socks_ok_def by (simp_all add: pu holds_port_def probing_at_def) (metis (no_types))
  note att = attached_kept [OF ok]
  show ?thesis
  proof (cases "is_current u a \<and> sock (peers u a) = w")
    case True
    then have cur: "is_current u a" by simp
    note c = handlePeerLeft_conns [OF cur]
    have "sfu_ok (handlePeerLeft a u)"
    proof (rule left_ok [OF ro(1,2) cur])
      show "socks_ok (handlePeerLeft a u)" using ro(3) c(1,4,5) unfolding socks_ok_def c(2,3) by (meson order_trans)
      fix b assume b: "b \<noteq> a" "is_current u b"
      then obtain r p where rp: "seat st r p = Some b" using sl by (auto simp: is_current_def)
      then show "attached (handlePeerLeft a u) b" using att [OF rp] c(6) [OF b(1)] b(1) by (simp add: c pu)
    qed simp_all
    then show ?thesis using True by (simp add: detach_fires_def Some u_def [symmetric])
  next
    case False
    have "attached u b" if b: "seat st r p = Some b" for r p b
    proof (cases "b = a")
      case True
      then have "sock (peers st a) \<noteq> w" using False o(5) [OF b] b by (auto simp: sl pu is_current_def)
      then show ?thesis using o(4) [OF b] True Some by (simp add: attached_def pu Let_def split: if_splits)
    qed (use att [OF b] in \<open>simp add: pu\<close>)
    then have "sfu_ok u" using ro by (simp add: sfu_ok_def sl)
    moreover have "detach_fires a st = u" using False by (auto simp: detach_fires_def Some u_def [symmetric])
    ultimately show ?thesis by simp
  qed
qed (simp add: detach_fires_def ok)

lemma answer_ok:
  assumes ok: "sfu_ok st"
  shows "sfu_ok (settle_task cfg w res can st)"
proof (cases "\<exists>a d. js_get (tasks st) w = Some (Making_transport a d) \<and> res = Resolved")
  case True
  have "sfu_ok (end_task w st)" by (rule sfu_ok_same [OF ok]) simp
  then show ?thesis using True transport_made_ok by (auto simp: settle_task_def Let_def)
next
  case False
  then show ?thesis by (intro sfu_ok_same [OF ok skel_answer]) blast
qed

lemma reap_fires_ok: "sfu_ok st \<Longrightarrow> sfu_ok (reap_fires a d st)"
  unfolding reap_fires_def by (auto split: option.split intro!: reapTransport_ok elim: sfu_ok_same)

lemma sfu_step_ok:
  assumes ok: "sfu_ok st"
  shows "sfu_ok (sfu_step cfg lib ev st)"
proof -
  have "same_skel st (join_timeout w st)" "same_skel st (router_rejected r rid st)" "same_skel st (router_closed r rid st)" "same_skel st (shut w st)"
    "same_skel st (cut w e st)" "same_skel st (upd_peer a (\<lambda>p. p\<lparr>pauseTimer := False\<rparr>) st)" for w r rid e a
    by (simp_all add: join_timeout_def router_rejected_def router_closed_def)
  note same = this skel_media
  show ?thesis using sfu_ok_same [OF ok] same
    by (cases ev) (simp_all add: on_connection_ok handleFrame_ok answer_ok probe_answer_ok on_close_ok detach_fires_ok reap_fires_ok reapTransport_ok ok)
qed

lemma sfu_ok_start: "sfu_ok sfu_start"
  by (simp add: sfu_ok_def rooms_ok_def socks_ok_def ports_ok_def sfu_start_def seat_def room_members_def js_get_or_def no_conn_def)

text \<open>What may be said of a state together with the events that led to it, once it holds at the start and every step keeps it, holds of every run.\<close>

locale traced_machine =
  fixes start :: 's and step :: "'e \<Rightarrow> 's \<Rightarrow> 's" and good :: "'e list \<Rightarrow> 's \<Rightarrow> bool"
  assumes good_start: "good [] start"
    and good_step: "good evs st \<Longrightarrow> good (evs @ [ev]) (step ev st)"
begin

lemma good_run: "good evs (fold step evs start)"
  by (induction evs rule: rev_induct) (simp_all add: good_start good_step)

end

interpretation sfu_seats: traced_machine sfu_start "sfu_step cfg lib" "\<lambda>_. sfu_ok" for cfg lib
  by unfold_locales (simp_all add: sfu_ok_start sfu_step_ok)

lemma sfu_ok_run: "sfu_ok (sfu_run cfg lib evs)"
  unfolding sfu_run_def by (rule sfu_seats.good_run)

section \<open>What it means for calls\<close>

definition seated :: "sfu \<Rightarrow> nat list" where
  \<comment> \<open>the sessions in all rooms\<close>
  "seated st = concat (map (\<lambda>(r, m). map snd m) (rooms st))"

lemma slot_seated: "seat st r p = Some a \<Longrightarrow> a \<in> set (seated st)"
  by (force simp: seat_def room_members_def js_get_or_def seated_def split: option.splits dest!: map_of_SomeD)

lemma card_holds_port: "finite {t. holds_port p t}" "card {t. holds_port p t} \<le> 2"
proof -
  have e: "{t. holds_port p t} = set_option (sendT p) \<union> set_option (recvT p)" by (auto simp: holds_port_def)
  then show "finite {t. holds_port p t}" by simp
  show "card {t. holds_port p t} \<le> 2" unfolding e by (cases "sendT p"; cases "recvT p") (simp_all add: card_insert_if)
qed

lemma length_le_shares:
  assumes "distinct xs" "set xs \<subseteq> (\<Union>a \<in> set as. S a)" "\<And>a. finite (S a)" "\<And>a. card (S a) \<le> n"
  shows "length xs \<le> n * length as"
proof -
  have "length xs \<le> card (\<Union>a \<in> set as. S a)" using assms(1-3) by (simp add: distinct_card [symmetric] card_mono)
  also have "\<dots> \<le> (\<Sum>a \<in> set as. card (S a))" by (rule card_UN_le) simp
  also have "\<dots> \<le> n * card (set as)" using sum_bounded_above [of "set as" "\<lambda>a. card (S a)" n] assms(4) by (simp add: mult.commute)
  also have "\<dots> \<le> n * length as" by (simp add: card_length)
  finally show ?thesis .
qed

text \<open>C17: No port of the media range is lost. Whatever order frames, answers of the worker, timers and closing sockets come in, every transport the
  worker has open is the send or the receive transport of a session that holds a seat in a room, none is counted twice, and so at most two
  are open per seat: a transport finished for a session that has gone, a duplicate, a reaped one and those of a session that left,
  was replaced or ran out of grace have all been closed.\<close>

theorem ports_are_accounted_for:
  "let st = sfu_run cfg lib evs in
   distinct (liveT st) \<and> set (liveT st) \<subseteq> (\<Union>a \<in> set (seated st). {t. sendT (peers st a) = Some t \<or> recvT (peers st a) = Some t}) \<and>
   length (liveT st) \<le> 2 * length (seated st)"
proof -
  let ?st = "sfu_run cfg lib evs"
  have p: "ports_ok ?st" using sfu_ok_run by (simp add: sfu_ok_def)
  have s: "set (liveT ?st) \<subseteq> (\<Union>a \<in> set (seated ?st). {t. holds_port (peers ?st a) t})"
    using p slot_seated unfolding ports_ok_def by fastforce
  have d: "distinct (liveT ?st)" using p by (simp add: ports_ok_def)
  have "length (liveT ?st) \<le> 2 * length (seated ?st)" by (rule length_le_shares [OF d s]) (rule card_holds_port)+
  then show ?thesis using d s by (simp add: Let_def holds_port_def)
qed

text \<open>C21: No session is left behind. A session that holds a seat has that peer's id and room, and either its own socket has not closed and is still tied
  to it, so that a frame or the close event of that socket reaches it, or its socket has closed and the timer that ends the session is
  armed for exactly that socket.\<close>

theorem seats_are_tended:
  assumes "seat (sfu_run cfg lib evs) r p = Some a"
  shows "let st = sfu_run cfg lib evs; w = sock (peers st a) in
    room_code (peers st a) = r \<and> peer_id (peers st a) = p \<and>
    (if c_closed (conns st w) then detachTimer (peers st a) = Some w else c_session (conns st w) = Some a)"
  using sfu_okD(4,5) [OF sfu_ok_run assms] by (simp add: attached_def Let_def)

text \<open>A small call to look at: a server whose library accepts every signature.\<close>

definition sfu_demo_lib :: node_lib where
  "sfu_demo_lib = \<lparr>bs58_decode = (\<lambda>_. Some ([0, 36, 8, 1, 18, 32] @ replicate 32 0)), from_base64 = (\<lambda>_. []),
     from_base64url = map (\<lambda>c. of_nat (of_char c)), to_base64url = map (\<lambda>b. char_of (unat b)), ed25519_verify = (\<lambda>_ _ _. True)\<rparr>"

definition sfu_demo_cfg :: sfu_config where
  "sfu_demo_cfg = \<lparr>max_rooms = 2, reaping = True, resume_grace = True, max_worker_ops = 40\<rparr>"

definition sfu_demo_room :: string where "sfu_demo_room = ''rs2_'' @ replicate 43 (CHR ''A'')"

definition sfu_demo_join :: "string \<Rightarrow> join_msg" where
  "sfu_demo_join p = \<lparr>j_room = Some sfu_demo_room, j_peer = Some p, j_signature = Some (replicate 86 (CHR ''A'') @ ''==''),
     j_capability = Some (replicate 86 (CHR ''A'')), j_resume = None\<rparr>"

definition sfu_demo_nonce :: string where "sfu_demo_nonce = replicate 64 (CHR ''0'')"

definition sfu_demo_call :: "sfu_event list" where
  "sfu_demo_call = [Connection sfu_demo_nonce 0, Frame_in 0 (Msg (Join (sfu_demo_join ''alice''))) 5 ''t1'' False,
     Connection sfu_demo_nonce 10, Frame_in 2 (Msg (Join (sfu_demo_join ''bob''))) 15 ''t2'' False,
     Frame_in 0 (Msg (Create_transport (Some Dsend))) 20 [] False, Answer 0 Resolved False, Answer 0 Resolved False]"

lemma sfu_demo_proofs:
  "verifyJoin sfu_demo_lib sfu_demo_nonce sfu_demo_room p (j_signature (sfu_demo_join p))"
  "verifyRoomAdmission sfu_demo_lib sfu_demo_nonce sfu_demo_room p (j_capability (sfu_demo_join p))"
  "isValidId (Some sfu_demo_room)" "j_room (sfu_demo_join p) = Some sfu_demo_room" "j_peer (sfu_demo_join p) = Some p" "j_resume (sfu_demo_join p) = None"
proof -
  have a: "alnum (CHR ''A'')" "hex_char (CHR ''0'')" by (simp_all add: alnum_def hex_char_def Let_def)
  have b: "base64_char (CHR ''A'')" "base64url_char (CHR ''A'')" by (simp_all add: base64_char_def base64url_char_def a)
  have c: "char_of (65 :: nat) = CHR ''A''" by code_simp
  have r: "drop 4 sfu_demo_room = replicate 43 (CHR ''A'')" "take 4 sfu_demo_room = ''rs2_''" "length sfu_demo_room = 47" by (simp_all add: sfu_demo_room_def)
  show "verifyJoin sfu_demo_lib sfu_demo_nonce sfu_demo_room p (j_signature (sfu_demo_join p))"
    by (simp add: verifyJoin_def sfu_demo_lib_def sfu_demo_join_def b list_all_length)
  show "verifyRoomAdmission sfu_demo_lib sfu_demo_nonce sfu_demo_room p (j_capability (sfu_demo_join p))"
    using r unfolding verifyRoomAdmission_def by (simp add: sfu_demo_lib_def sfu_demo_join_def sfu_demo_nonce_def a b c list_all_length)
  show "isValidId (Some sfu_demo_room)"
    by (simp add: isValidId_def sfu_demo_room_def list_all_length nth_append nth_Cons' MAX_ID_LENGTH_def Let_def is_space_def)
qed (simp_all add: sfu_demo_join_def)

lemmas sfu_eval = sfu_demo_call_def sfu_run_def sfu_start_def no_conn_def on_connection_def handleFrame_def handleJoin_def sfu_demo_proofs
  upd_conn_def upd_peer_def JOIN_TIMEOUT_MS_def seat_def room_members_def js_get_or_def admit_def new_peer_def send_to_def roomProducers_def
  spendWorkerOp_def handleCreateTransport_def getOrCreateRouter_def await_task_def end_task_def settle_task_def transport_made_def
  sfu_demo_cfg_def worker_op_def is_current_def closeT_def transport_of_def set_transport_def isValidId_def [of "Some ''alice''"]
  isValidId_def [of "Some ''bob''"] MAX_ID_LENGTH_def Let_def is_space_def WORKER_OP_WINDOW_MS_def MAX_PEERS_PER_ROOM_def

lemma sfu_demo_slots:
  "seat (sfu_run sfu_demo_cfg sfu_demo_lib sfu_demo_call) sfu_demo_room ''alice'' = Some 1"
  "seat (sfu_run sfu_demo_cfg sfu_demo_lib sfu_demo_call) sfu_demo_room ''bob'' = Some 3"
  by (simp_all add: sfu_eval)

theorem seats_are_tended_witness:
  "seat (sfu_run sfu_demo_cfg sfu_demo_lib sfu_demo_call) sfu_demo_room ''alice'' = Some 1 \<and>
   (let st = sfu_run sfu_demo_cfg sfu_demo_lib sfu_demo_call; w = sock (peers st 1) in
    room_code (peers st 1) = sfu_demo_room \<and> peer_id (peers st 1) = ''alice'' \<and>
    (if c_closed (conns st w) then detachTimer (peers st 1) = Some w else c_session (conns st w) = Some 1))"
  using seats_are_tended [OF sfu_demo_slots(1)] sfu_demo_slots(1) by blast

end
