(* ===== verification/Sfu_Server_Limits.thy ===== *)
theory Sfu_Server_Limits
  imports Sfu_Server_Run
begin

text \<open>
  The ceilings of the media server, counting what is still being made: along every run a session stays within its producers, consumers
  and its lifetime budget, and the server within its routers. What is in flight is the number of frames that wait for such an answer.
\<close>

section \<open>Counting what is waited for\<close>

definition waiting_for :: "(pending_task \<Rightarrow> bool) \<Rightarrow> (nat, pending_task) jsmap \<Rightarrow> nat" where
  "waiting_for P m = length (filter (\<lambda>(w, t). P t) m)"

lemma waiting_delete:
  "js_wf m \<Longrightarrow> waiting_for P (js_delete m w) + (case js_get m w of None \<Rightarrow> 0 | Some t \<Rightarrow> if P t then 1 else 0) = waiting_for P m"
proof (induction m)
  case (Cons x m)
  obtain k t where x: "x = (k, t)" by fastforce
  have "k \<notin> fst ` set m" "js_wf m" using Cons.prems x by (auto simp: js_wf_def)
  moreover from this have "AList.delete k m = m" by (simp add: delete_idem)
  ultimately show ?case using Cons.IH unfolding x waiting_for_def by (cases "w = k") auto
qed (simp add: waiting_for_def)

lemma waiting_set_new: "js_get m w = None \<Longrightarrow> waiting_for P (js_set m w t) = waiting_for P m + (if P t then 1 else 0)"
  by (induction m) (auto simp: waiting_for_def split: if_splits)

lemma waiting_set_same: "js_get m w = Some t' \<Longrightarrow> P t = P t' \<Longrightarrow> waiting_for P (js_set m w t) = waiting_for P m"
  by (induction m) (auto simp: waiting_for_def split: if_splits)

fun producing :: "nat \<Rightarrow> pending_task \<Rightarrow> bool" where
  "producing a (Producing b _ _) = (b = a)"
| "producing a _ = False"

fun consuming :: "nat \<Rightarrow> pending_task \<Rightarrow> bool" where
  "consuming a (Consuming_router b _) = (b = a)"
| "consuming a (Consuming b _) = (b = a)"
| "consuming a _ = False"

section \<open>Steps that add nothing\<close>

definition light :: "PeerState \<Rightarrow> PeerState \<Rightarrow> bool" where
  "light p q \<longleftrightarrow> length (producers q) \<le> length (producers p) \<and> length (consumers q) \<le> length (consumers p) \<and>
     producersInFlight q = producersInFlight p \<and> consumersInFlight q = consumersInFlight p \<and> cumulativeProduces q = cumulativeProduces p"

definition lighter :: "sfu \<Rightarrow> sfu \<Rightarrow> bool" where
  "lighter st st' \<longleftrightarrow> (\<forall>a. light (peers st a) (peers st' a)) \<and> tasks st' = tasks st \<and> length (routers st') \<le> length (routers st) \<and> fresh st \<le> fresh st' \<and>
     (\<forall>w. c_session (conns st' w) = c_session (conns st w) \<or> c_session (conns st' w) = None)"

lemma light_refl [simp]: "light p p"
  by (simp add: light_def)

lemma lighter_refl [simp]: "lighter st st"
  by (simp add: lighter_def)

lemma lighter_trans: "lighter st u \<Longrightarrow> lighter u v \<Longrightarrow> lighter st v"
  unfolding lighter_def light_def by (metis (no_types, lifting) le_trans)

lemma lighter_fold: "(\<And>x v. lighter st v \<Longrightarrow> lighter st (f x v)) \<Longrightarrow> lighter st u \<Longrightarrow> lighter st (fold f xs u)"
  by (induction xs arbitrary: u) simp_all

lemma lighter_peer [simp]: "lighter st u \<Longrightarrow> light (peers u a) (f (peers u a)) \<Longrightarrow> lighter st (upd_peer a f u)"
  by (erule lighter_trans) (simp add: lighter_def peers_upd_peer)

lemma lighter_quiet [simp]:
  "lighter st (closeP x u) \<longleftrightarrow> lighter st u" "lighter st (closeC x u) \<longleftrightarrow> lighter st u" "lighter st (closeT t u) \<longleftrightarrow> lighter st u"
  "lighter st (u\<lparr>closers := cs\<rparr>) \<longleftrightarrow> lighter st u" "lighter st (u\<lparr>liveP := xs\<rparr>) \<longleftrightarrow> lighter st u"
  "lighter st (u\<lparr>liveC := xs\<rparr>) \<longleftrightarrow> lighter st u" "lighter st (u\<lparr>liveT := xs\<rparr>) \<longleftrightarrow> lighter st u" "lighter st (u\<lparr>rooms := m\<rparr>) \<longleftrightarrow> lighter st u"
  by (simp_all add: lighter_def)

lemma lighter_folds [simp]: "lighter st (fold closeP xs u) \<longleftrightarrow> lighter st u" "lighter st (fold closeC xs u) \<longleftrightarrow> lighter st u"
  by (induction xs arbitrary: u) simp_all

lemma lighter_fresh [simp]: "lighter st u \<Longrightarrow> fresh u \<le> n \<Longrightarrow> lighter st (u\<lparr>fresh := n\<rparr>)"
  by (simp add: lighter_def)

lemma lighter_routers [simp]: "lighter st u \<Longrightarrow> length rs \<le> length (routers u) \<Longrightarrow> lighter st (u\<lparr>routers := rs\<rparr>)"
  by (simp add: lighter_def)

lemma lighter_conn: "(\<And>c. c_session (f c) = c_session c \<or> c_session (f c) = None) \<Longrightarrow> lighter st u \<Longrightarrow> lighter st (upd_conn w f u)"
  by (erule lighter_trans) (auto simp: lighter_def conns_upd_conn)

lemma lighter_send [simp]:
  "lighter st u \<Longrightarrow> lighter st (send_to w m u)" "lighter st u \<Longrightarrow> lighter st (shut w u)" "lighter st u \<Longrightarrow> lighter st (cut w e u)"
  by (simp_all add: send_to_def shut_def cut_def lighter_conn)

lemma lighter_send_all [simp]: "lighter st u \<Longrightarrow> lighter st (send_all ws m u)"
  unfolding send_all_def by (rule lighter_fold) simp_all

lemma lighter_refuse [simp]: "lighter st u \<Longrightarrow> lighter st (refuse w reason u)" "lighter st u \<Longrightarrow> lighter st (server_full w u)"
  by (simp_all add: refuse_def server_full_def)

lemma length_js_delete_le: "length (js_delete m k) \<le> length m"
  by (induction m) auto

lemma light_simps [simp]:
  "light p (q\<lparr>transportsInFlight := x1\<rparr>) = light p q" "light p (q\<lparr>connectedT := x2\<rparr>) = light p q" "light p (q\<lparr>reapTimers := x3\<rparr>) = light p q"
  "light p (q\<lparr>byProducer := x4\<rparr>) = light p q" "light p (q\<lparr>notifiedClosed := x5\<rparr>) = light p q" "light p (q\<lparr>workerOps := x6\<rparr>) = light p q"
  "light p (q\<lparr>workerOpsWindowStart := x7\<rparr>) = light p q" "light p (q\<lparr>pauseTimer := x8\<rparr>) = light p q" "light p (q\<lparr>resumeToken := x9\<rparr>) = light p q"
  "light p (q\<lparr>detachTimer := y1\<rparr>) = light p q" "light p (q\<lparr>sock := y2\<rparr>) = light p q" "light p (set_transport d t q) = light p q"
  "light p (clearTransportReapTimer d q) = light p q"
  by (simp_all add: light_def clearTransportReapTimer_def set_transport_def split: direction.split)

lemma light_media [simp]:
  "light p (p\<lparr>producers := js_delete (producers p) i\<rparr>)" "light p (p\<lparr>consumers := js_delete (consumers p) c\<rparr>)" "light p (p\<lparr>producers := [], consumers := []\<rparr>)"
  "light p (p\<lparr>producers := map (\<lambda>(i, e). (i, f i e)) (producers p)\<rparr>)"
  by (simp_all add: light_def length_js_delete_le)

lemma light_set [simp]:
  "js_get (producers p) i \<noteq> None \<Longrightarrow> light p (p\<lparr>producers := js_set (producers p) i e\<rparr>)"
  "js_get (consumers p) c \<noteq> None \<Longrightarrow> light p (p\<lparr>consumers := js_set (consumers p) c x\<rparr>)"
  by (simp_all add: light_def length_js_set)

lemma lighter_viewers: "lighter st u \<Longrightarrow>
    lighter st (fold (\<lambda>(q, b). if q = pid then id else upd_peer b (\<lambda>p. p\<lparr>producers := map (\<lambda>(i, e). (i, f i e)) (producers p)\<rparr>)) room u)"
  by (rule lighter_fold) (auto split: prod.splits)

lemma lighter_notice: "lighter st u \<Longrightarrow> lighter st (fold (\<lambda>(q, b). if q = pid then id else fold (\<lambda>(i, e). send_to (f b) (g i e)) es) room u)"
  by (rule lighter_fold) (auto split: prod.splits intro!: lighter_fold)

lemma lighter_left: "lighter st u \<Longrightarrow> lighter st (handlePeerLeft a u)"
  by (simp add: handlePeerLeft_def leave_media_def Let_def lighter_viewers split: option.splits)

lemma lighter_close_old: "lighter st u \<Longrightarrow> lighter st (close_old r pid b u)"
  unfolding close_old_def Let_def by (simp add: lighter_notice)

lemma lighter_reap: "lighter st u \<Longrightarrow> lighter st (reapTransport a d t u)"
  by (simp add: reapTransport_def Let_def)

lemma lighter_made: "lighter st u \<Longrightarrow> lighter st (transport_made cfg a d u)"
  by (simp add: transport_made_def Let_def split: option.split)

lemma owner_holds: "owner_of st a i = Some (q, b, e) \<Longrightarrow> js_get (producers (peers st b)) i = Some e"
  by (auto simp: owner_of_def filter_eq_Cons_iff split: list.splits)

lemma lighter_media:
  "lighter st (handleGetCapabilities a st)" "lighter st (handleCloseProducer a i st)" "lighter st (consumer_gone a c st)"
  "lighter st (notifyProducerClosed a i st)"
  by (simp_all add: handleGetCapabilities_def handleCloseProducer_def consumer_gone_def notifyProducerClosed_def Let_def light_def length_js_delete_le
      split: option.splits prod.splits)

lemma lighter_close_consumer: "lighter st (handleCloseConsumer a i st)"
  by (auto simp: handleCloseConsumer_def Let_def split: option.splits prod.splits dest!: owner_holds)

lemma lighter_spend: "lighter st (snd (spendWorkerOp cfg w a now st))"
  by (simp add: spendWorkerOp_def Let_def)

section \<open>The invariant\<close>

definition within_caps :: "PeerState \<Rightarrow> bool" where
  "within_caps p \<longleftrightarrow> length (producers p) + producersInFlight p \<le> MAX_PRODUCERS_PER_PEER \<and>
     length (consumers p) + consumersInFlight p \<le> MAX_CONSUMERS_PER_PEER \<and> cumulativeProduces p \<le> MAX_CUMULATIVE_PRODUCES_PER_SESSION"

definition limits_ok :: "sfu_config \<Rightarrow> sfu \<Rightarrow> bool" where
  "limits_ok cfg st \<longleftrightarrow> js_wf (tasks st) \<and> length (routers st) \<le> max_rooms cfg \<and>
     (\<forall>a. within_caps (peers st a) \<and> producersInFlight (peers st a) = waiting_for (producing a) (tasks st) \<and>
          consumersInFlight (peers st a) = waiting_for (consuming a) (tasks st)) \<and>
     (\<forall>a. fresh st \<le> a \<longrightarrow> waiting_for (producing a) (tasks st) = 0 \<and> waiting_for (consuming a) (tasks st) = 0) \<and>
     (\<forall>w a. c_session (conns st w) = Some a \<longrightarrow> a < fresh st)"

lemma limits_lighter:
  assumes l: "limits_ok cfg st" and s: "lighter st st'"
  shows "limits_ok cfg st'"
proof -
  have t: "tasks st' = tasks st" "fresh st \<le> fresh st'" "length (routers st') \<le> length (routers st)" using s by (simp_all add: lighter_def)
  have "within_caps (peers st' a) \<and> producersInFlight (peers st' a) = waiting_for (producing a) (tasks st) \<and>
          consumersInFlight (peers st' a) = waiting_for (consuming a) (tasks st)" for a
    using l s unfolding limits_ok_def lighter_def light_def within_caps_def by (smt (verit) add_le_cancel_right le_trans)
  moreover have "a < fresh st'" if "c_session (conns st' w) = Some a" for w a
    using that l s unfolding limits_ok_def lighter_def by (metis less_le_trans option.distinct(1))
  ultimately show ?thesis using l t unfolding limits_ok_def t(1) by (meson le_trans)
qed

lemma limits_await:
  assumes l: "limits_ok cfg st" and n: "js_get (tasks st) w = None" and t: "\<And>b. producing b t \<or> consuming b t \<Longrightarrow> b < fresh st"
    and p: "\<And>b. within_caps (peers u b) \<and> producersInFlight (peers u b) = producersInFlight (peers st b) + (if producing b t then 1 else 0) \<and>
      consumersInFlight (peers u b) = consumersInFlight (peers st b) + (if consuming b t then 1 else 0)"
    and u: "tasks u = tasks st" "length (routers u) \<le> max_rooms cfg" "fresh st \<le> fresh u" "conns u = conns st"
  shows "limits_ok cfg (await_task w t u)"
proof -
  have "waiting_for P (js_set (tasks st) w t) = waiting_for P (tasks st) + (if P t then 1 else 0)" for P by (rule waiting_set_new [OF n])
  moreover have "\<not> producing b t \<and> \<not> consuming b t" if "fresh u \<le> b" for b using t [of b] u(3) that by auto
  moreover have "a < fresh u" if "c_session (conns st w) = Some a" for w a using that l u(3) unfolding limits_ok_def by (meson less_le_trans)
  moreover have "waiting_for (producing b) (tasks st) = 0 \<and> waiting_for (consuming b) (tasks st) = 0" if "fresh u \<le> b" for b
    using l u(3) that unfolding limits_ok_def by (meson le_trans)
  ultimately show ?thesis using l p u unfolding limits_ok_def await_task_def by simp
qed

lemma limits_quiet_await: "limits_ok cfg st \<Longrightarrow> js_get (tasks st) w = None \<Longrightarrow> (\<And>b. \<not> producing b t \<and> \<not> consuming b t) \<Longrightarrow> limits_ok cfg (await_task w t st)"
  by (rule limits_await) (auto simp: limits_ok_def)

lemma limits_reawait:
  assumes l: "limits_ok cfg st" and t: "js_get (tasks st) w = Some t'" "\<And>b. producing b t = producing b t'" "\<And>b. consuming b t = consuming b t'"
  shows "limits_ok cfg (await_task w t st)"
proof -
  have "waiting_for (producing b) (js_set (tasks st) w t) = waiting_for (producing b) (tasks st)"
    "waiting_for (consuming b) (js_set (tasks st) w t) = waiting_for (consuming b) (tasks st)" for b
    using waiting_set_same [OF t(1)] t(2,3) by blast+
  then show ?thesis using l unfolding limits_ok_def await_task_def by simp
qed

lemma limits_end:
  assumes l: "limits_ok cfg st" and t: "js_get (tasks st) w = Some t"
    and p: "\<And>b. within_caps (peers u b) \<and> producersInFlight (peers u b) = producersInFlight (peers st b) - (if producing b t then 1 else 0) \<and>
      consumersInFlight (peers u b) = consumersInFlight (peers st b) - (if consuming b t then 1 else 0)"
    and u: "tasks u = js_delete (tasks st) w" "routers u = routers st" "fresh st \<le> fresh u" "conns u = conns st"
  shows "limits_ok cfg u"
proof -
  have "waiting_for P (js_delete (tasks st) w) = waiting_for P (tasks st) - (if P t then 1 else 0)" for P
    using waiting_delete [of "tasks st" P w] l t by (simp add: limits_ok_def split: if_splits)
  moreover have "a < fresh u" if "c_session (conns st w) = Some a" for w a using that l u(3) unfolding limits_ok_def by (meson less_le_trans)
  moreover have "waiting_for (producing b) (tasks st) = 0 \<and> waiting_for (consuming b) (tasks st) = 0" if "fresh u \<le> b" for b
    using l u(3) that unfolding limits_ok_def by (meson le_trans)
  ultimately show ?thesis using l p u unfolding limits_ok_def by simp
qed

lemma router_fields:
  assumes "getOrCreateRouter cfg r st = Some u" "length (routers st) \<le> max_rooms cfg"
  shows "length (routers u) \<le> max_rooms cfg" "peers u = peers st" "tasks u = tasks st" "conns u = conns st" "fresh st \<le> fresh u"
  using assms by (auto simp: getOrCreateRouter_def split: if_splits)

section \<open>Every step keeps the ceilings\<close>

lemma limitsD:
  assumes "limits_ok cfg st"
  shows "within_caps (peers st a)" "length (routers st) \<le> max_rooms cfg" "c_session (conns st w) = Some a \<Longrightarrow> a < fresh st"
  using assms by (auto simp: limits_ok_def)

lemma limits_route:
  assumes l: "limits_ok cfg st" and n: "js_get (tasks st) w = None" and a: "a < fresh st"
  shows "limits_ok cfg (route cfg w a m st)"
proof -
  have w: "within_caps (peers st b)" for b using l by (simp add: limits_ok_def)
  have rf: "limits_ok cfg (server_full w st)" "limits_ok cfg (send_to x y st)" for x y by (rule limits_lighter [OF l]; simp)+
  show ?thesis
  proof (cases m)
    case (Create_transport d)
    have "limits_ok cfg (await_task w (Making_router a x) (upd_peer a (\<lambda>p. p\<lparr>transportsInFlight := y p\<rparr>) u))"
      if "getOrCreateRouter cfg (room_code (peers st a)) st = Some u" for u x y
      using router_fields [OF that limitsD(2) [OF l]] w by (intro limits_await [OF l n]) (auto simp: peers_upd_peer within_caps_def)
    then show ?thesis using Create_transport l rf by (auto simp: handleCreateTransport_def split: option.split)
  next
    case (Consume i)
    have "limits_ok cfg (await_task w (Consuming_router a i) (upd_peer a (\<lambda>p. p\<lparr>consumersInFlight := consumersInFlight p + 1\<rparr>) u))"
      if "getOrCreateRouter cfg (room_code (peers st a)) st = Some u" "\<not> MAX_CONSUMERS_PER_PEER \<le> length (consumers (peers st a)) + consumersInFlight (peers st a)" for u
      using router_fields [OF that(1) limitsD(2) [OF l]] w that(2) a by (intro limits_await [OF l n]) (auto simp: peers_upd_peer within_caps_def)
    then show ?thesis using Consume l rf by (auto simp: handleConsume_def Let_def split: option.split)
  next
    case (Produce src k)
    have "limits_ok cfg (await_task w (Producing a s k)
        (upd_peer a (\<lambda>p. p\<lparr>cumulativeProduces := cumulativeProduces p + 1, producersInFlight := producersInFlight p + 1\<rparr>) st))"
      if "\<not> MAX_PRODUCERS_PER_PEER \<le> length (producers (peers st a)) + producersInFlight (peers st a)"
        "\<not> MAX_CUMULATIVE_PRODUCES_PER_SESSION \<le> cumulativeProduces (peers st a)" for s
      using that w a limitsD(2) [OF l] by (intro limits_await [OF l n]) (auto simp: peers_upd_peer within_caps_def)
    then show ?thesis using Produce l rf by (auto simp: handleProduce_def Let_def split: option.split)
  next
    case (Restart_ice d)
    then show ?thesis using l n by (auto simp: handleRestartIce_def limits_quiet_await split: option.split)
  next
    case (Connect_transport d)
    then show ?thesis using l n by (auto simp: handleConnectTransport_def limits_quiet_await split: option.split)
  next
    case (Resume_consumer i)
    then show ?thesis using l n by (auto simp: handleResumeConsumer_def limits_quiet_await split: option.split prod.split)
  qed (use limits_lighter [OF l] lighter_media lighter_close_consumer l in auto)
qed

lemma waiting_pos: "js_get m w = Some t \<Longrightarrow> P t \<Longrightarrow> 0 < waiting_for P m"
  by (auto simp: waiting_for_def filter_empty_conv dest!: map_of_SomeD)

lemma limits_produced:
  assumes l: "limits_ok cfg st" and t: "js_get (tasks st) w = Some (Producing a s k)"
  defines "v \<equiv> upd_peer a (\<lambda>p. p\<lparr>producersInFlight := producersInFlight p - 1\<rparr>) (end_task w st)"
  shows "limits_ok cfg v" "limits_ok cfg (produced a s k v)"
proof -
  have in1: "0 < producersInFlight (peers st a)" using l waiting_pos [OF t, of "producing a"] by (simp add: limits_ok_def)
  have lim: "within_caps (peers st b)" for b using l by (simp add: limits_ok_def)
  have pv: "peers v b = (if b = a then peers st a\<lparr>producersInFlight := producersInFlight (peers st a) - 1\<rparr> else peers st b)" "tasks v = js_delete (tasks st) w"
      "routers v = routers st" "fresh v = fresh st" "conns v = conns st" for b
    by (simp_all add: v_def peers_upd_peer end_task_def)
  have "within_caps (peers v b)" for b using lim [of b] by (auto simp: pv within_caps_def)
  then show v: "limits_ok cfg v" by (intro limits_end [OF l t]) (auto simp: pv)
  define x where "x = upd_peer a (\<lambda>p. p\<lparr>producers := js_set (producers p) (fresh v) \<lparr>pe_source = s, pe_kind = k, viewers = []\<rparr>\<rparr>)
      (v\<lparr>fresh := fresh v + 1, liveP := liveP v @ [fresh v]\<rparr>)"
  have px: "peers x b = (if b = a then peers v a\<lparr>producers := js_set (producers (peers v a)) (fresh v) \<lparr>pe_source = s, pe_kind = k, viewers = []\<rparr>\<rparr> else peers v b)"
      "tasks x = tasks v" "routers x = routers v" "fresh x = fresh v + 1" "conns x = conns v" for b
    by (simp_all add: x_def peers_upd_peer)
  have "within_caps (peers x b)" for b using lim [of b] in1 by (auto simp: px pv within_caps_def)
  then have "limits_ok cfg x" by (intro limits_end [OF l t]) (auto simp: px pv)
  moreover have "lighter x (produced a s k v)" if "is_current (v\<lparr>fresh := fresh v + 1, liveP := liveP v @ [fresh v]\<rparr>) a"
    unfolding produced_def Let_def x_def [symmetric] using that by simp
  moreover have "lighter v (produced a s k v)" if "\<not> is_current (v\<lparr>fresh := fresh v + 1, liveP := liveP v @ [fresh v]\<rparr>) a"
    using that by (simp add: produced_def Let_def)
  ultimately show "limits_ok cfg (produced a s k v)" using limits_lighter v by blast
qed

lemma limits_consume_end:
  assumes l: "limits_ok cfg st" and t: "js_get (tasks st) w = Some y" "\<And>b. consuming b y = (a = b)" "\<And>b. \<not> producing b y"
  shows "limits_ok cfg (upd_peer a (\<lambda>p. p\<lparr>consumersInFlight := consumersInFlight p - 1\<rparr>) (end_task w st))"
proof -
  let ?v = "upd_peer a (\<lambda>p. p\<lparr>consumersInFlight := consumersInFlight p - 1\<rparr>) (end_task w st)"
  have "within_caps (peers ?v b)" for b using l by (auto simp: limits_ok_def within_caps_def peers_upd_peer dest!: spec [of _ b])
  then show ?thesis by (intro limits_end [OF l t(1)]) (auto simp: t peers_upd_peer end_task_def)
qed

lemma limits_consumed:
  assumes l: "limits_ok cfg st" and t: "js_get (tasks st) w = Some (Consuming a i)"
  defines "v \<equiv> upd_peer a (\<lambda>p. p\<lparr>consumersInFlight := consumersInFlight p - 1\<rparr>) (end_task w st)"
  shows "limits_ok cfg (consumed a i v)"
proof -
  have in1: "0 < consumersInFlight (peers st a)" using l waiting_pos [OF t, of "consuming a"] by (simp add: limits_ok_def)
  have lim: "within_caps (peers st b)" for b using l by (simp add: limits_ok_def)
  have pv: "peers v b = (if b = a then peers st a\<lparr>consumersInFlight := consumersInFlight (peers st a) - 1\<rparr> else peers st b)" "tasks v = js_delete (tasks st) w"
      "routers v = routers st" "fresh v = fresh st" "conns v = conns st" for b
    by (simp_all add: v_def peers_upd_peer end_task_def)
  have v: "limits_ok cfg v" unfolding v_def by (rule limits_consume_end [OF l t]) auto
  define x where "x = upd_peer a (\<lambda>p. p\<lparr>consumers := js_set (consumers p) (fresh v) (i, True), byProducer := js_set (byProducer p) i (fresh v)\<rparr>)
      (v\<lparr>fresh := fresh v + 1, liveC := liveC v @ [fresh v]\<rparr>)"
  have px: "peers x b = (if b = a then peers v a\<lparr>consumers := js_set (consumers (peers v a)) (fresh v) (i, True),
        byProducer := js_set (byProducer (peers v a)) i (fresh v)\<rparr> else peers v b)"
      "tasks x = tasks v" "routers x = routers v" "fresh x = fresh v + 1" "conns x = conns v" for b
    by (simp_all add: x_def peers_upd_peer)
  have "within_caps (peers x b)" for b using lim [of b] in1 by (auto simp: px pv within_caps_def)
  then have "limits_ok cfg x" by (intro limits_end [OF l t]) (auto simp: px pv)
  moreover have "lighter x (consumed a i v)" if "is_current (v\<lparr>fresh := fresh v + 1, liveC := liveC v @ [fresh v]\<rparr>) a"
    unfolding consumed_def Let_def x_def [symmetric] using that by (auto split: option.split prod.split dest!: owner_holds)
  moreover have "lighter v (consumed a i v)" if "\<not> is_current (v\<lparr>fresh := fresh v + 1, liveC := liveC v @ [fresh v]\<rparr>) a"
    using that by (simp add: consumed_def Let_def)
  ultimately show ?thesis using limits_lighter v by blast
qed

lemma limits_idle_end:
  assumes l: "limits_ok cfg st" and t: "js_get (tasks st) w = Some y" "\<And>b. \<not> consuming b y \<and> \<not> producing b y"
  shows "limits_ok cfg (end_task w st)"
  using assms by (intro limits_end [OF l t(1)]) (auto simp: limits_ok_def end_task_def)

lemma limits_answer:
  assumes l: "limits_ok cfg st"
  shows "limits_ok cfg (settle_task cfg w res can st)"
proof (cases "js_get (tasks st) w")
  case (Some y)
  have r: "limits_ok cfg (server_full w u)" "limits_ok cfg (send_to x m u)" "limits_ok cfg (upd_peer a (\<lambda>p. p\<lparr>transportsInFlight := f p\<rparr>) u)"
      "limits_ok cfg (transport_made cfg a d u)" "limits_ok cfg (upd_peer a (\<lambda>p. clearTransportReapTimer d (p\<lparr>connectedT := f2 p\<rparr>)) u)"
      "js_get (consumers (peers u a)) c \<noteq> None \<Longrightarrow> limits_ok cfg (upd_peer a (\<lambda>p. p\<lparr>consumers := js_set (consumers p) c (g p)\<rparr>) u)"
    if "limits_ok cfg u" for u x m a f d c g f2
    by (rule limits_lighter [OF that]; simp add: lighter_made)+
  note e = limits_idle_end [OF l Some]
  show ?thesis
  proof (cases y)
    case (Making_router a d)
    then show ?thesis using r e limits_reawait [OF l Some, of "Making_transport a d"] by (simp add: settle_task_def Some)
  next
    case (Making_transport a d)
    then show ?thesis using r e by (simp add: settle_task_def Some)
  next
    case (Connecting a d x)
    then show ?thesis using r e by (simp add: settle_task_def Some)
  next
    case (Restarting a d)
    then show ?thesis using r e by (simp add: settle_task_def Some)
  next
    case (Producing a s k)
    then show ?thesis using r limits_produced [OF l, of w a s k] Some by (simp add: settle_task_def Let_def)
  next
    case (Consuming_router a i)
    then show ?thesis using r limits_consume_end [OF l Some, of a] limits_reawait [OF l Some, of "Consuming a i"] by (simp add: settle_task_def Some Let_def)
  next
    case (Consuming a i)
    then show ?thesis using r limits_consume_end [OF l Some, of a] limits_consumed [OF l, of w a i] Some by (simp add: settle_task_def Let_def)
  next
    case (Resuming a c)
    then show ?thesis using r(6) [OF e] e by (simp add: settle_task_def Some Let_def)
  qed (simp add: settle_task_def Some l)
qed (simp add: settle_task_def l)

section \<open>Joining and the rest\<close>

lemma limits_admit:
  assumes l: "limits_ok cfg st"
  shows "limits_ok cfg (admit w r pid old token now st)"
proof -
  let ?a = "fresh st"
  define u where "u = upd_conn w (\<lambda>c. c\<lparr>c_session := Some ?a\<rparr>) (st\<lparr>fresh := ?a + 1, peers := (peers st)(?a := new_peer r pid w token now)\<rparr>)"
  have np: "within_caps (new_peer r pid w token now)" "producersInFlight (new_peer r pid w token now) = 0" "consumersInFlight (new_peer r pid w token now) = 0"
    by (simp_all add: within_caps_def new_peer_def)
  have "within_caps (peers u b) \<and> producersInFlight (peers u b) = waiting_for (producing b) (tasks st) \<and> consumersInFlight (peers u b) = waiting_for (consuming b) (tasks st)" for b
    using l np by (cases "b = ?a") (auto simp: limits_ok_def u_def)
  moreover have "b < fresh u" if "c_session (conns u x) = Some b" for x b
    using that l by (auto simp: limits_ok_def u_def conns_upd_conn less_SucI split: if_splits)
  ultimately have "limits_ok cfg u" using l by (auto simp: limits_ok_def u_def)
  moreover have "lighter u (admit w r pid old token now st)"
    unfolding admit_def Let_def u_def [symmetric] by (rule lighter_fold) (auto simp: lighter_close_old split: prod.split option.split)
  ultimately show ?thesis by (rule limits_lighter)
qed

lemma limits_resume:
  assumes l: "limits_ok cfg st" and a: "a < fresh st"
  shows "limits_ok cfg (resumeSession a w token (upd_conn w (\<lambda>c. c\<lparr>c_session := Some a\<rparr>) st))"
proof -
  have "limits_ok cfg (upd_conn w (\<lambda>c. c\<lparr>c_session := Some a\<rparr>) st)" using l a by (auto simp: limits_ok_def conns_upd_conn)
  then show ?thesis by (rule limits_lighter) (simp add: resumeSession_def Let_def)
qed

lemma limits_join:
  assumes l: "limits_ok cfg st" and ok: "sfu_ok st" and n: "js_get (tasks st) w = None"
  shows "limits_ok cfg (handleJoin cfg lib w j now token b st)"
proof -
  define m where "m = upd_conn w (\<lambda>c. c\<lparr>c_nonce := None\<rparr>) st"
  define u where "u = upd_conn w (\<lambda>c. c\<lparr>c_joinTimer := False\<rparr>) m"
  have u: "limits_ok cfg m" "limits_ok cfg u" by (rule limits_lighter [OF l]; simp add: m_def u_def lighter_conn)+
  have f: "fresh u = fresh st" "seat u q x = seat st q x" "tasks u = tasks st" for q x by (simp_all add: u_def m_def seat_def room_members_def)
  have rf: "limits_ok cfg (refuse w x st)" "limits_ok cfg (refuse w x m)" "limits_ok cfg (refuse w x u)" "limits_ok cfg (server_full w u)" for x
    using limits_lighter [OF l] limits_lighter [OF u(1)] limits_lighter [OF u(2)] by simp_all
  have rs: "limits_ok cfg (resumeSession c w token (upd_conn w (\<lambda>x. x\<lparr>c_session := Some c\<rparr>) u))" if "seat st q x = Some c" for q x c
    using limits_resume [OF u(2)] sfu_okD(5) [OF ok that] f by simp
  have aw: "limits_ok cfg (await_task w (Probing x1 x2 x3 x4 x5) u)" for x1 x2 x3 x4 x5
    using limits_quiet_await [OF u(2)] n f by simp
  show ?thesis unfolding handleJoin_def Let_def m_def [symmetric] u_def [symmetric]
    by (auto simp: rf u rs aw f limits_admit split: option.splits sum.splits bool.splits)
qed

lemma limits_probe:
  assumes l: "limits_ok cfg st"
  shows "limits_ok cfg (probe_answer w pong token now st)"
proof (cases "\<exists>r p old x y. js_get (tasks st) w = Some (Probing r p old x y)")
  case True
  then obtain r p old x y where t: "js_get (tasks st) w = Some (Probing r p old x y)" by blast
  have u: "limits_ok cfg (end_task w st)" by (rule limits_idle_end [OF l t]) simp
  then have "limits_ok cfg (refuse w m (end_task w st))" for m by (rule limits_lighter) simp
  then show ?thesis using u limits_admit [OF u] by (auto simp: probe_answer_def t Let_def split: option.split)
qed (use l in \<open>auto simp: probe_answer_def split: option.splits pending_task.splits\<close>)

lemma limits_frame:
  assumes l: "limits_ok cfg st" and ok: "sfu_ok st"
  shows "limits_ok cfg (handleFrame cfg lib w f now token b st)"
proof -
  have s: "limits_ok cfg (shut w st)" by (rule limits_lighter [OF l]) simp
  have p: "limits_ok cfg (route cfg w a m u)" "limits_ok cfg u"
    if "spendWorkerOp cfg w a now st = (x, u)" "js_get (tasks st) w = None" "c_session (conns st w) = Some a" for a m x u
  proof -
    have lu: "lighter st u" using lighter_spend [of st cfg w a now] that(1) by simp
    show u: "limits_ok cfg u" by (rule limits_lighter [OF l lu])
    have "a < fresh u" using limitsD(3) [OF l that(3)] lu by (auto simp: lighter_def)
    then show "limits_ok cfg (route cfg w a m u)" using limits_route [OF u] lu that(2) by (simp add: lighter_def)
  qed
  have r: "limits_ok cfg (route cfg w a m st)" if "js_get (tasks st) w = None" "c_session (conns st w) = Some a" for a m
    using limits_route [OF l that(1) limitsD(3) [OF l that(2)]] .
  show ?thesis unfolding handleFrame_def using s l limits_join [OF l ok] p r
    by (auto split: frame.split option.split ClientMsg.split prod.split simp del: route.simps)
qed

lemma limits_step:
  assumes l: "limits_ok cfg st" and ok: "sfu_ok st"
  shows "limits_ok cfg (sfu_step cfg lib ev st)"
proof -
  have c: "limits_ok cfg (on_connection nonce now st)" for nonce now
    using l by (auto simp: limits_ok_def on_connection_def Let_def less_SucI)
  have "lighter st (join_timeout w st)" "lighter st (router_rejected r rid st)" "lighter st (router_closed r rid st)" "lighter st (shut w st)" "lighter st (cut w e st)"
      "lighter st (upd_peer a (\<lambda>p. p\<lparr>pauseTimer := False\<rparr>) st)" "lighter st (reapTransport a d t st)" "lighter st (reap_fires a d st)"
      "lighter st (detach_fires a st)" "lighter st (on_close cfg w code st)" for w r rid e a d t code
    by (auto simp: join_timeout_def router_rejected_def router_closed_def length_js_delete_le lighter_reap reap_fires_def detach_fires_def
        on_close_def Let_def lighter_left lighter_conn split: option.split)
  then show ?thesis using limits_lighter [OF l] lighter_media
    by (cases ev) (simp_all add: c limits_frame [OF l ok] limits_answer [OF l] limits_probe [OF l])
qed

interpretation sfu_limits: traced_machine sfu_start "sfu_step cfg lib" "\<lambda>_ st. sfu_ok st \<and> limits_ok cfg st" for cfg lib
  by unfold_locales (auto simp: sfu_ok_start sfu_step_ok limits_step, simp add: sfu_start_def limits_ok_def no_conn_def within_caps_def new_peer_def waiting_for_def)

lemma limits_run: "limits_ok cfg (sfu_run cfg lib evs)"
  unfolding sfu_run_def using sfu_limits.good_run by blast

text \<open>C20: The ceilings of the media server hold at every moment, what is still being made included, although the handlers check them before an answer that other
  frames may overtake: a session never has more than 8 producers or 256 consumers made or in the making, is never granted more than 256
  producers over its life, and the server never has more routers than \<^verbatim>\<open>SFU_MAX_ROOMS\<close>.\<close>

theorem ceilings_hold:
  "let st = sfu_run cfg lib evs in
   length (producers (peers st a)) + producersInFlight (peers st a) \<le> 8 \<and> length (consumers (peers st a)) + consumersInFlight (peers st a) \<le> 256 \<and>
   cumulativeProduces (peers st a) \<le> 256 \<and> length (routers st) \<le> max_rooms cfg"
  using limitsD(1) [OF limits_run [of cfg lib evs], of a] limitsD(2) [OF limits_run [of cfg lib evs]] unfolding within_caps_def
  by (simp add: Let_def MAX_PRODUCERS_PER_PEER_def MAX_CONSUMERS_PER_PEER_def MAX_CUMULATIVE_PRODUCES_PER_SESSION_def)

end
