(* ===== verification/Sfu_Server_Views.thy ===== *)
theory Sfu_Server_Views
  imports Sfu_Server_Limits
begin

text \<open>
  What the members of a call know of each other: a client that follows the messages on its socket always has exactly the producers that the
  other members of its room hold.
\<close>

section \<open>Following the messages\<close>

fun vstep :: "reply \<Rightarrow> (string \<times> nat) set \<Rightarrow> (string \<times> nat) set" where
  "vstep (Joined _) V = {}"
| "vstep (Resumed_session _ _ ps _ _) V = (\<lambda>(q, i, src, k). (q, i)) ` set ps"
| "vstep (New_producer q i _) V = insert (q, i) V"
| "vstep (Producer_closed q i _ _ _) V = V - {(q, i)}"
| "vstep (Peer_left q) V = {x \<in> V. fst x \<noteq> q}"
| "vstep _ V = V"

definition known :: "reply list \<Rightarrow> (string \<times> nat) set" where
  "known ms = fold vstep ms {}"

lemma view_append [simp]: "known (ms @ ms') = fold vstep ms' (known ms)"
  by (simp add: known_def)

definition has :: "sfu \<Rightarrow> nat \<Rightarrow> nat \<Rightarrow> bool" where
  "has st a i \<longleftrightarrow> js_get (producers (peers st a)) i \<noteq> None"

definition there :: "sfu \<Rightarrow> string \<Rightarrow> string \<Rightarrow> (string \<times> nat) set" where
  \<comment> \<open>the producers of the other members\<close>
  "there st r p = {(q, i). q \<noteq> p \<and> (\<exists>b. seat st r q = Some b \<and> has st b i)}"

definition aware :: "sfu \<Rightarrow> bool" where
  "aware st \<longleftrightarrow>
     (\<forall>r p a. seat st r p = Some a \<and> c_open (conns st (sock (peers st a))) \<longrightarrow> known (c_msgs (conns st (sock (peers st a)))) = there st r p) \<and>
     (\<forall>a b i. has st a i \<and> has st b i \<longrightarrow> a = b) \<and> (\<forall>a i. has st a i \<longrightarrow> i < fresh st)"

section \<open>What is sent\<close>

definition sends :: "(nat \<times> reply) list \<Rightarrow> sfu \<Rightarrow> sfu" where
  "sends xs st = fold (\<lambda>(w, m). send_to w m) xs st"

lemma conns_sends:
  "c_msgs (conns (sends xs st) w) = c_msgs (conns st w) @ (if c_open (conns st w) then map snd (filter (\<lambda>x. fst x = w) xs) else [])"
  "c_open (conns (sends xs st) w) = c_open (conns st w)"
proof (induction xs arbitrary: st)
  case (Cons x xs)
  case 1
  show ?case using Cons.IH by (cases x) (auto simp: sends_def send_to_def conns_upd_conn)
next
  case (Cons x xs)
  case 2
  show ?case using Cons.IH by (cases x) (auto simp: sends_def send_to_def conns_upd_conn)
qed (simp_all add: sends_def)

lemma fields_sends [simp]: "peers (sends xs st) = peers st" "rooms (sends xs st) = rooms st" "fresh (sends xs st) = fresh st"
  unfolding sends_def by (rule fold_field, simp split: prod.split)+

lemma send_to_sends: "send_to w m st = sends [(w, m)] st"
  by (simp add: sends_def)

lemma send_all_sends: "send_all ws m st = sends (map (\<lambda>w. (w, m)) ws) st"
  by (simp add: send_all_def sends_def fold_map comp_def)

lemma fold_sends: "fold (\<lambda>x. sends (f x)) xs st = sends (concat (map f xs)) st"
  by (induction xs arbitrary: st) (simp_all add: sends_def)

lemma fold_same_msg: "vstep m (vstep m V) = vstep m V \<Longrightarrow> fold vstep (map snd (filter (\<lambda>x. fst x = w) (map (\<lambda>w. (w, m)) ws))) V = (if w \<in> set ws then vstep m V else V)"
  by (induction ws arbitrary: V) auto

lemma view_send_all:
  assumes "\<And>V. vstep m (vstep m V) = vstep m V"
  shows "known (c_msgs (conns (send_all ws m st) w)) =
    (if c_open (conns st w) \<and> w \<in> set ws then vstep m (known (c_msgs (conns st w))) else known (c_msgs (conns st w)))"
    "c_open (conns (send_all ws m st) w) = c_open (conns st w)"
  using assms by (auto simp: send_all_sends conns_sends fold_same_msg)

section \<open>Steps that say nothing of producers\<close>

definition keeps :: "PeerState \<Rightarrow> PeerState \<Rightarrow> bool" where
  "keeps p q \<longleftrightarrow> sock q = sock p \<and> (\<forall>i. js_get (producers q) i = None \<longleftrightarrow> js_get (producers p) i = None)"

definition hush :: "sfu \<Rightarrow> sfu \<Rightarrow> bool" where
  "hush st st' \<longleftrightarrow> rooms st' = rooms st \<and> fresh st \<le> fresh st' \<and> (\<forall>a. keeps (peers st a) (peers st' a)) \<and>
     (\<forall>w. (c_open (conns st' w) \<longrightarrow> c_open (conns st w)) \<and> known (c_msgs (conns st' w)) = known (c_msgs (conns st w)))"

lemma keeps_refl [simp]: "keeps p p"
  by (simp add: keeps_def)

lemma hush_refl [simp]: "hush st st"
  by (simp add: hush_def)

lemma hush_trans: "hush st u \<Longrightarrow> hush u v \<Longrightarrow> hush st v"
  by (simp add: hush_def keeps_def)

lemma hush_fold: "(\<And>x v. hush st v \<Longrightarrow> hush st (f x v)) \<Longrightarrow> hush st u \<Longrightarrow> hush st (fold f xs u)"
  by (induction xs arbitrary: u) simp_all

lemma hush_peer [simp]: "hush st u \<Longrightarrow> keeps (peers u a) (f (peers u a)) \<Longrightarrow> hush st (upd_peer a f u)"
  by (erule hush_trans) (simp add: hush_def peers_upd_peer)

lemma hush_quiet [simp]:
  "hush st (closeP x u) \<longleftrightarrow> hush st u" "hush st (closeC x u) \<longleftrightarrow> hush st u" "hush st (closeT t u) \<longleftrightarrow> hush st u"
  "hush st (u\<lparr>closers := cs\<rparr>) \<longleftrightarrow> hush st u" "hush st (u\<lparr>liveP := xs\<rparr>) \<longleftrightarrow> hush st u" "hush st (u\<lparr>routers := rs\<rparr>) \<longleftrightarrow> hush st u"
  "hush st (u\<lparr>liveC := xs\<rparr>) \<longleftrightarrow> hush st u" "hush st (u\<lparr>liveT := xs\<rparr>) \<longleftrightarrow> hush st u" "hush st (await_task w tk u) \<longleftrightarrow> hush st u"
  "hush st (end_task w u) \<longleftrightarrow> hush st u"
  by (simp_all add: hush_def)

lemma hush_fresh [simp]: "hush st u \<Longrightarrow> fresh u \<le> n \<Longrightarrow> hush st (u\<lparr>fresh := n\<rparr>)"
  by (simp add: hush_def)

lemma hush_conn: "(\<And>c. (c_open (f c) \<longrightarrow> c_open c) \<and> c_msgs (f c) = c_msgs c) \<Longrightarrow> hush st u \<Longrightarrow> hush st (upd_conn w f u)"
  by (erule hush_trans) (auto simp: hush_def conns_upd_conn)

lemma hush_send [simp]: "hush st u \<Longrightarrow> (\<And>V. vstep m V = V) \<Longrightarrow> hush st (send_to w m u)"
  by (erule hush_trans) (auto simp: hush_def send_to_def conns_upd_conn)

lemma hush_shut [simp]: "hush st u \<Longrightarrow> hush st (shut w u)" "hush st u \<Longrightarrow> hush st (cut w e u)"
  by (simp_all add: shut_def cut_def hush_conn)

lemma hush_refuse [simp]: "hush st u \<Longrightarrow> hush st (refuse w reason u)" "hush st u \<Longrightarrow> hush st (server_full w u)"
  by (simp_all add: refuse_def server_full_def)

lemma keeps_simps [simp]:
  "keeps p (q\<lparr>transportsInFlight := x1\<rparr>) = keeps p q" "keeps p (q\<lparr>connectedT := x2\<rparr>) = keeps p q" "keeps p (q\<lparr>reapTimers := x3\<rparr>) = keeps p q"
  "keeps p (q\<lparr>byProducer := x4\<rparr>) = keeps p q" "keeps p (q\<lparr>notifiedClosed := x5\<rparr>) = keeps p q" "keeps p (q\<lparr>workerOps := x6\<rparr>) = keeps p q"
  "keeps p (q\<lparr>workerOpsWindowStart := x7\<rparr>) = keeps p q" "keeps p (q\<lparr>pauseTimer := x8\<rparr>) = keeps p q" "keeps p (q\<lparr>resumeToken := x9\<rparr>) = keeps p q"
  "keeps p (q\<lparr>detachTimer := y1\<rparr>) = keeps p q" "keeps p (q\<lparr>consumers := y2\<rparr>) = keeps p q" "keeps p (set_transport d t q) = keeps p q"
  "keeps p (clearTransportReapTimer d q) = keeps p q" "keeps p (q\<lparr>producersInFlight := y3\<rparr>) = keeps p q" "keeps p (q\<lparr>consumersInFlight := y4\<rparr>) = keeps p q"
  "keeps p (q\<lparr>cumulativeProduces := y5\<rparr>) = keeps p q"
  by (simp_all add: keeps_def clearTransportReapTimer_def set_transport_def split: direction.split)

lemma keeps_set [simp]: "js_get (producers p) i \<noteq> None \<Longrightarrow> keeps p (p\<lparr>producers := js_set (producers p) i e\<rparr>)"
  by (auto simp: keeps_def)

lemma keeps_map [simp]: "keeps p (p\<lparr>producers := map (\<lambda>(i, e). (i, f i e)) (producers p)\<rparr>)"
  by (auto simp: keeps_def map_of_eq_None_iff image_image split_def)

lemma hush_router: "getOrCreateRouter cfg r u = Some v \<Longrightarrow> hush st u \<Longrightarrow> hush st v"
  by (auto simp: getOrCreateRouter_def split: if_splits)

lemma hush_media:
  "hush st (handleGetCapabilities a st)" "hush st (handleRestartIce w a d st)" "hush st (handleConnectTransport w a d st)"
  "hush st (handleProduce w a src k st)" "hush st (handleResumeConsumer w a i st)" "hush st (consumer_gone a c st)"
  by (simp_all add: handleGetCapabilities_def handleRestartIce_def handleConnectTransport_def handleProduce_def handleResumeConsumer_def
      consumer_gone_def Let_def split: option.splits prod.splits)

lemma hush_close_consumer: "hush st (handleCloseConsumer a i st)"
  by (auto simp: handleCloseConsumer_def Let_def split: option.splits prod.splits dest!: owner_holds)

lemma hush_worker:
  "hush st (handleCreateTransport cfg w a d st)" "hush st (handleConsume cfg w a i st)" "hush st (snd (spendWorkerOp cfg w a now st))"
  using hush_router by (auto simp: handleCreateTransport_def handleConsume_def spendWorkerOp_def Let_def split: option.splits)

lemma hush_made: "hush st u \<Longrightarrow> hush st (transport_made cfg a d u)" "hush st u \<Longrightarrow> hush st (reapTransport a d t u)"
  by (simp_all add: transport_made_def reapTransport_def Let_def split: option.splits)

lemma hush_consumed: "hush st u \<Longrightarrow> hush st (consumed a i u)"
  by (auto simp: consumed_def Let_def split: option.splits prod.splits dest!: owner_holds)

lemma hush_route:
  assumes "\<nexists>i. m = Close_producer i"
  shows "hush st (route cfg w a m st)"
  using assms by (cases m) (simp_all add: hush_media hush_worker hush_close_consumer)

lemma hush_answer:
  assumes "\<And>a s k. js_get (tasks st) w = Some (Producing a s k) \<Longrightarrow> res \<noteq> Resolved"
  shows "hush st (settle_task cfg w res can st)"
  using assms by (auto simp: settle_task_def Let_def hush_made hush_consumed split: option.splits pending_task.splits)

lemma aware_hush:
  assumes a: "aware st" and h: "hush st st'"
  shows "aware st'"
proof -
  have s: "seat st' r p = seat st r p" "has st' b i = has st b i" "sock (peers st' b) = sock (peers st b)" "fresh st \<le> fresh st'" for r p b i
    using h by (simp_all add: hush_def seat_def room_members_def has_def keeps_def)
  then have "there st' r p = there st r p" for r p by (simp add: there_def)
  then show ?thesis using a h s(4) unfolding aware_def s(1-3) hush_def by (metis less_le_trans)
qed

section \<open>Who is told\<close>

lemma sock_unique:
  assumes ok: "sfu_ok st" and a: "seat st r p = Some a" and b: "seat st q x = Some b" and s: "sock (peers st a) = sock (peers st b)"
    and w: "c_open (conns st (sock (peers st a)))"
  shows "a = b" "r = q" "p = x"
proof -
  note o = sfu_okD [OF ok]
  have "\<not> c_closed (conns st (sock (peers st a)))" using w o(3) by (auto simp: socks_ok_def)
  then show ab: "a = b" using o(4) [OF a] o(4) [OF b] s by (simp add: attached_def Let_def)
  show "r = q" "p = x" using o(5) [OF a] o(5) [OF b] ab by auto
qed

lemma room_entry:
  assumes ok: "sfu_ok st"
  shows "(q, b) \<in> set (room_members st r) \<longleftrightarrow> seat st r q = Some b"
proof -
  have "js_wf (room_members st r)" using sfu_okD(1) [OF ok] by (cases "js_get (rooms st) r") (auto simp: rooms_ok_def room_members_def js_get_or_def)
  then show ?thesis by (simp add: seat_def js_wf_def)
qed

lemma told:
  assumes ok: "sfu_ok st" and c: "seat st r p = Some c" and w: "c_open (conns st (sock (peers st c)))"
  shows "sock (peers st c) \<in> set (map (\<lambda>(q, b). sock (peers st b)) (filter (\<lambda>(q, b). q \<noteq> x) (room_members st r0))) \<longleftrightarrow> r = r0 \<and> p \<noteq> x" (is "?L \<longleftrightarrow> ?R")
proof
  assume ?L
  then obtain q b where b: "(q, b) \<in> set (room_members st r0)" "q \<noteq> x" "sock (peers st c) = sock (peers st b)" by auto
  then show ?R using sock_unique [OF ok c _ b(3) w] room_entry [OF ok] by metis
next
  assume ?R
  then have "(p, c) \<in> set (filter (\<lambda>(q, b). q \<noteq> x) (room_members st r0))" using c room_entry [OF ok] by simp
  then show ?L by force
qed

lemma told_others:
  assumes "sfu_ok st" "seat st r p = Some c" "c_open (conns st (sock (peers st c)))"
    and "peers u = peers st" "rooms u = rooms st"
  shows "sock (peers st c) \<in> set (others u a) \<longleftrightarrow> r = room_code (peers st a) \<and> p \<noteq> peer_id (peers st a)"
  using told [OF assms(1-3)] assms(4,5) by (simp add: others_def room_members_def)

lemma there_iff: "(q, i) \<in> there st r p \<longleftrightarrow> q \<noteq> p \<and> (\<exists>b. seat st r q = Some b \<and> has st b i)"
  by (simp add: there_def)

lemma awareD: "aware st \<Longrightarrow> has st a i \<Longrightarrow> has st b i \<Longrightarrow> a = b"
  unfolding aware_def by blast

lemma awareI:
  assumes "\<And>r p a. seat st r p = Some a \<Longrightarrow> c_open (conns st (sock (peers st a))) \<Longrightarrow> known (c_msgs (conns st (sock (peers st a)))) = there st r p"
    and "\<And>a b i. has st a i \<Longrightarrow> has st b i \<Longrightarrow> a = b" and "\<And>a i. has st a i \<Longrightarrow> i < fresh st"
  shows "aware st"
  using assms unfolding aware_def by blast

section \<open>A producer comes or goes\<close>

lemma aware_drop:
  assumes a: "aware st" and ok: "sfu_ok st" and i: "has st a i"
    and u: "rooms u = rooms st" "conns u = conns st" "fresh u = fresh st"
      "\<And>b. sock (peers u b) = sock (peers st b) \<and> room_code (peers u b) = room_code (peers st b) \<and> peer_id (peers u b) = peer_id (peers st b)"
      "\<And>b j. has u b j \<longleftrightarrow> has st b j \<and> \<not> (b = a \<and> j = i)"
  shows "aware (send_all (others u a) (Producer_closed (peer_id (peers st a)) i src k rep) u)" (is "aware ?F")
proof -
  let ?r = "room_code (peers st a)" and ?p = "peer_id (peers st a)"
  note o = sfu_okD [OF ok]
  have F: "seat ?F r p = seat st r p" "sock (peers ?F b) = sock (peers st b)" "has ?F b j = (has st b j \<and> \<not> (b = a \<and> j = i))" "fresh ?F = fresh st" for r p b j
    using u by (simp_all add: seat_def room_members_def has_def)
  have ot: "others u a = others st a" using u(1,4) by (simp add: others_def room_members_def)
  have "known (c_msgs (conns ?F (sock (peers st c)))) = there ?F r p" if c: "seat st r p = Some c" "c_open (conns st (sock (peers st c)))" for r p c
  proof -
    have v: "known (c_msgs (conns st (sock (peers st c)))) = there st r p" using a c unfolding aware_def by blast
    have "known (c_msgs (conns ?F (sock (peers st c)))) = (if r = ?r \<and> p \<noteq> ?p then there st r p - {(?p, i)} else there st r p)"
      using view_send_all(1) [of "Producer_closed ?p i src k rep" "others st a" u] c v told_others [OF ok c, of st a] u ot by simp
    moreover have "(q, j) \<in> there ?F r p \<longleftrightarrow> (q, j) \<in> there st r p \<and> \<not> (r = ?r \<and> p \<noteq> ?p \<and> q = ?p \<and> j = i)" for q j
    proof -
      have "b = a \<longleftrightarrow> r = ?r \<and> q = ?p" if "seat st r q = Some b" "has st b i" for b
        using o(5) [OF that(1)] awareD [OF a that(2) i] by auto
      then show ?thesis unfolding there_iff F by auto
    qed
    ultimately show ?thesis by auto
  qed
  moreover have "c_open (conns ?F w) = c_open (conns st w)" for w using u(2) by (simp add: send_all_sends conns_sends)
  ultimately show ?thesis using a unfolding aware_def F by metis
qed

lemma aware_close_producer: "aware st \<Longrightarrow> sfu_ok st \<Longrightarrow> aware (handleCloseProducer a i st)"
  unfolding handleCloseProducer_def Let_def
  by (auto split: option.split intro!: aware_drop simp: has_def peers_upd_peer split: if_splits)

lemma aware_producer_gone: "aware st \<Longrightarrow> sfu_ok st \<Longrightarrow> aware (notifyProducerClosed a i st)"
  unfolding notifyProducerClosed_def Let_def
  by (auto split: option.split intro!: aware_drop simp: has_def peers_upd_peer split: if_splits elim: aware_hush)

lemma aware_produced:
  assumes a: "aware st" and ok: "sfu_ok st"
  shows "aware (produced a src k st)"
proof -
  let ?i = "fresh st" and ?r = "room_code (peers st a)" and ?p = "peer_id (peers st a)"
  define v where "v = st\<lparr>fresh := ?i + 1, liveP := liveP st @ [?i]\<rparr>"
  define u where "u = upd_peer a (\<lambda>p. p\<lparr>producers := js_set (producers p) ?i \<lparr>pe_source = src, pe_kind = k, viewers = []\<rparr>\<rparr>) v"
  let ?F = "send_all (others (send_to (sock (peers u a)) (Produced ?i) u) a) (New_producer ?p ?i src) (send_to (sock (peers u a)) (Produced ?i) u)"
  note o = sfu_okD [OF ok]
  have n: "\<not> has st b ?i" for b using a unfolding aware_def by auto
  have pu: "sock (peers u b) = sock (peers st b)" "room_code (peers u b) = room_code (peers st b)" "peer_id (peers u b) = peer_id (peers st b)" "rooms u = rooms st"
      "conns u = conns st" "fresh u = fresh st + 1" "has u b j = (has st b j \<or> b = a \<and> j = ?i)" for b j
    by (auto simp: u_def v_def peers_upd_peer has_def)
  have F: "seat ?F r p = seat st r p" "sock (peers ?F b) = sock (peers st b)" "has ?F b j = (has st b j \<or> b = a \<and> j = ?i)" "fresh ?F = fresh st + 1" for r p b j
    using pu by (simp_all add: seat_def room_members_def has_def)
  have ot: "others (send_to w m u) a = others st a" for w m using pu by (simp add: others_def room_members_def)
  have sv: "known (c_msgs (conns (send_to (sock (peers u a)) (Produced ?i) u) w)) = known (c_msgs (conns st w))"
      "c_open (conns (send_to (sock (peers u a)) (Produced ?i) u) w) = c_open (conns st w)" for w
    using pu(5) by (simp_all add: send_to_sends conns_sends)
  show ?thesis
  proof (cases "is_current v a")
    case True
    then have cur: "seat st ?r ?p = Some a" by (simp add: is_current_def v_def seat_def room_members_def)
    have "known (c_msgs (conns ?F (sock (peers st c)))) = there ?F r p" if c: "seat st r p = Some c" "c_open (conns st (sock (peers st c)))" for r p c
    proof -
      have v: "known (c_msgs (conns st (sock (peers st c)))) = there st r p" using a c unfolding aware_def by blast
      have "known (c_msgs (conns ?F (sock (peers st c)))) = (if r = ?r \<and> p \<noteq> ?p then insert (?p, ?i) (there st r p) else there st r p)"
        using view_send_all(1) [of "New_producer ?p ?i src" "others st a"] c v told_others [OF ok c, of st a] ot sv by simp
      moreover have "(q, j) \<in> there ?F r p \<longleftrightarrow> (q, j) \<in> there st r p \<or> r = ?r \<and> p \<noteq> ?p \<and> q = ?p \<and> j = ?i" for q j
        unfolding there_iff F using cur o(5) [of r q a] by auto
      ultimately show ?thesis by auto
    qed
    moreover have "c_open (conns ?F w) = c_open (conns st w)" for w using sv(2) by (simp add: view_send_all)
    moreover have "b = c" if "has ?F b j" "has ?F c j" for b c j using that awareD [OF a, of b j c] n unfolding F by auto
    moreover have "j < fresh ?F" if "has ?F b j" for b j using that a unfolding F aware_def by (auto intro: less_SucI)
    ultimately have "aware ?F" unfolding aware_def F(1,2) by metis
    moreover have "produced a src k st = ?F" unfolding produced_def Let_def v_def [symmetric] using True by (simp add: u_def [symmetric] pu)
    ultimately show ?thesis by simp
  next
    case False
    then have "hush st (produced a src k st)" by (simp add: produced_def Let_def v_def)
    then show ?thesis by (rule aware_hush [OF a])
  qed
qed

section \<open>Members come and go\<close>

lemma leave_media_has:
  "conns (leave_media a room st) = conns st" "sock (peers (leave_media a room st) b) = sock (peers st b)" "fresh (leave_media a room st) = fresh st"
  "has (leave_media a room st) b j \<longleftrightarrow> b \<noteq> a \<and> has st b j"
proof -
  define f where "f = (\<lambda>(q, b). if q = peer_id (peers st a) then id
      else upd_peer b (\<lambda>p. p\<lparr>producers := map (\<lambda>(i, e). (i, e\<lparr>viewers := removeAll (peer_id (peers st a)) (viewers e)\<rparr>)) (producers p)\<rparr>))"
  define x where "x = upd_peer a (\<lambda>p. p\<lparr>producers := [], consumers := []\<rparr>)
      (fold closeC (map fst (consumers (peers st a))) (fold closeP (map fst (producers (peers st a))) st))"
  define g where "g = (\<lambda>p :: PeerState. (clearTransportReapTimer Drecv (clearTransportReapTimer Dsend p))\<lparr>pauseTimer := False\<rparr>)"
  have lm: "leave_media a room st = upd_peer a g (closeT (recvT (peers (fold f room x) a)) (closeT (sendT (peers (fold f room x) a)) (fold f room x)))"
    unfolding leave_media_def Let_def x_def f_def g_def by simp
  have "hush x (fold f room x)" by (rule hush_fold) (auto simp: f_def split: prod.splits)
  then have k: "keeps (peers x b) (peers (fold f room x) b)" for b by (simp add: hush_def)
  have c: "conns (fold f room x) = conns x" "fresh (fold f room x) = fresh x" by (rule fold_field, simp add: f_def split: prod.split)+
  show "conns (leave_media a room st) = conns st" "fresh (leave_media a room st) = fresh st" unfolding lm by (simp add: c, simp add: x_def)+
  have "sock (peers (fold f room x) b) = sock (peers x b)" "has (fold f room x) b j = has x b j" using k [of b] by (simp_all add: keeps_def has_def)
  moreover have "sock (peers x b) = sock (peers st b)" "has x b j \<longleftrightarrow> b \<noteq> a \<and> has st b j" by (simp_all add: x_def peers_upd_peer has_def)
  moreover have "sock (peers (leave_media a room st) b) = sock (peers (fold f room x) b)" "has (leave_media a room st) b j = has (fold f room x) b j"
    unfolding lm by (simp_all add: peers_upd_peer has_def g_def clearTransportReapTimer_def)
  ultimately show "sock (peers (leave_media a room st) b) = sock (peers st b)" "has (leave_media a room st) b j \<longleftrightarrow> b \<noteq> a \<and> has st b j" by simp_all
qed

lemma left_parts:
  assumes cur: "is_current u a"
  shows "sock (peers (handlePeerLeft a u) b) = sock (peers u b)" "has (handlePeerLeft a u) b j \<longleftrightarrow> b \<noteq> a \<and> has u b j" "fresh (handlePeerLeft a u) = fresh u"
    "\<exists>v. conns v = conns u \<and> conns (handlePeerLeft a u) = conns (send_all (map (\<lambda>(q, b). sock (peers u b))
      (filter (\<lambda>(q, b). q \<noteq> peer_id (peers u a)) (room_members u (room_code (peers u a))))) (Peer_left (peer_id (peers u a))) v)"
proof -
  let ?r = "room_code (peers u a)" and ?p = "peer_id (peers u a)"
  obtain m where m: "js_get (rooms u) ?r = Some m"
    using cur by (cases "js_get (rooms u) ?r") (auto simp: is_current_def seat_def room_members_def js_get_or_def)
  have rm: "room_members u ?r = m" using m by (simp add: room_members_def js_get_or_def)
  define d where "d = upd_peer a (\<lambda>p. p\<lparr>detachTimer := None\<rparr>) u"
  define v where "v = (leave_media a m d)\<lparr>rooms := js_set (rooms (leave_media a m d)) ?r (js_delete m ?p)\<rparr>"
  define x where "x = send_all (map (\<lambda>(q, b). sock (peers v b)) (js_delete m ?p)) (Peer_left ?p) v"
  have pd: "peer_id (peers d a) = ?p" "room_code (peers d a) = ?r" "rooms d = rooms u" by (simp_all add: d_def peers_upd_peer)
  have h: "handlePeerLeft a u = (if js_delete m ?p = [] then
      (case js_get (routers (x\<lparr>rooms := js_delete (rooms x) ?r\<rparr>)) ?r of None \<Rightarrow> x\<lparr>rooms := js_delete (rooms x) ?r\<rparr>
       | Some rid \<Rightarrow> x\<lparr>rooms := js_delete (rooms x) ?r, closers := closers x @ [(?r, rid)]\<rparr>) else x)"
    unfolding handlePeerLeft_def d_def [symmetric] Let_def pd m option.case v_def [symmetric] by (simp add: x_def split: option.split)
  have hx: "peers (handlePeerLeft a u) = peers x" "conns (handlePeerLeft a u) = conns x" "fresh (handlePeerLeft a u) = fresh x"
    unfolding h by (simp_all split: option.split)
  have s: "sock (peers v b) = sock (peers u b)" "has v b j \<longleftrightarrow> b \<noteq> a \<and> has u b j" "conns v = conns u" "fresh v = fresh u" for b j
    using leave_media_has [of a m d] by (auto simp: v_def d_def peers_upd_peer has_def)
  show "sock (peers (handlePeerLeft a u) b) = sock (peers u b)" "fresh (handlePeerLeft a u) = fresh u" using s by (simp_all add: hx x_def)
  show "has (handlePeerLeft a u) b j \<longleftrightarrow> b \<noteq> a \<and> has u b j" using s(2) by (simp add: has_def hx x_def)
  have "js_delete m ?p = filter (\<lambda>(q, b). q \<noteq> ?p) m" by (auto simp: AList.delete_eq split_def intro: filter_cong)
  then have "conns (handlePeerLeft a u) = conns (send_all (map (\<lambda>(q, b). sock (peers u b)) (filter (\<lambda>(q, b). q \<noteq> ?p) m)) (Peer_left ?p) v)"
    using s(1) by (simp add: hx x_def)
  then show "\<exists>v. conns v = conns u \<and> conns (handlePeerLeft a u) = conns (send_all (map (\<lambda>(q, b). sock (peers u b))
      (filter (\<lambda>(q, b). q \<noteq> ?p) (room_members u ?r))) (Peer_left ?p) v)" unfolding rm using s(3) by blast
qed

lemma aware_left:
  assumes a: "aware st" and ok: "sfu_ok st" and cur: "is_current u a" and h: "hush st u"
    and ids: "room_code (peers u a) = room_code (peers st a)" "peer_id (peers u a) = peer_id (peers st a)"
  shows "aware (handlePeerLeft a u)" (is "aware ?F")
proof -
  let ?r = "room_code (peers st a)" and ?p = "peer_id (peers st a)"
  have u: "rooms u = rooms st" "seat u r p = seat st r p" "sock (peers u b) = sock (peers st b)" "has u b i = has st b i" "fresh st \<le> fresh u"
      "c_open (conns u w) \<Longrightarrow> c_open (conns st w)" "known (c_msgs (conns u w)) = known (c_msgs (conns st w))" for r p b i w
    using h unfolding hush_def seat_def room_members_def keeps_def has_def by auto
  have rm: "room_members u r = room_members st r" for r using u(1) by (simp add: room_members_def)
  note lp = left_parts [OF cur]
  obtain v where v: "conns v = conns u" "conns ?F = conns (send_all (map (\<lambda>(q, b). sock (peers st b)) (filter (\<lambda>(q, b). q \<noteq> ?p) (room_members st ?r))) (Peer_left ?p) v)"
    using lp(4) unfolding ids rm u(3) by blast
  have sF: "seat ?F q x = (if q = ?r \<and> x = ?p then None else seat st q x)" for q x using slot_left [OF cur] by (simp add: ids u)
  have "known (c_msgs (conns ?F (sock (peers st c)))) = there ?F r p"
    if c: "seat ?F r p = Some c" "c_open (conns ?F (sock (peers st c)))" for r p c
  proof -
    have oF: "c_open (conns u (sock (peers st c)))" using c(2) v by (simp add: view_send_all)
    have c': "seat st r p = Some c" "c_open (conns st (sock (peers st c)))" "\<not> (r = ?r \<and> p = ?p)" using c(1) oF u(6) sF by (auto split: if_splits)
    have V: "known (c_msgs (conns st (sock (peers st c)))) = there st r p" using a c' unfolding aware_def by blast
    have "known (c_msgs (conns ?F (sock (peers st c)))) = (if r = ?r then {x \<in> there st r p. fst x \<noteq> ?p} else there st r p)"
    proof -
      have "known (c_msgs (conns v (sock (peers st c)))) = there st r p" "c_open (conns v (sock (peers st c)))" using V oF v(1) u(7) by simp_all
      then show ?thesis unfolding v(2) using told [OF ok c'(1,2), of ?p ?r] c'(3) by (simp add: view_send_all)
    qed
    moreover have "(q, j) \<in> there ?F r p \<longleftrightarrow> (q, j) \<in> there st r p \<and> \<not> (r = ?r \<and> q = ?p)" for q j
    proof (cases "r = ?r \<and> q = ?p")
      case False
      then have "seat st r q \<noteq> Some a" using sfu_okD(5) [OF ok, of r q a] by metis
      then show ?thesis unfolding there_iff sF lp(2) u(4) using False by auto
    qed (simp add: there_iff sF)
    ultimately show ?thesis by auto
  qed
  moreover have "i < fresh ?F" if "has ?F b i" for b i
  proof -
    have "has st b i" using that lp(2) u(4) by simp
    then have "i < fresh st" using a unfolding aware_def by blast
    then show ?thesis using u(5) lp(3) by simp
  qed
  moreover have "b = c" if "has ?F b i" "has ?F c i" for b c i using that awareD [OF a] lp(2) u(4) by metis
  moreover have "sock (peers ?F b) = sock (peers st b)" for b using lp(1) u(3) by simp
  ultimately show ?thesis by (intro awareI) (simp, blast, blast)
qed

section \<open>Joining\<close>

lemma fold_closed_view: "fold vstep (map (\<lambda>(i, e). Producer_closed p i (f e) (g e) x) es) V = V - Pair p ` fst ` set es"
  by (induction es arbitrary: V) auto

lemma fold_new_view: "fold vstep (map (\<lambda>(q, i, src, k). New_producer q i src) ps) V = V \<union> (\<lambda>(q, i, src, k). (q, i)) ` set ps"
  by (induction ps arbitrary: V) auto

definition notices :: "sfu \<Rightarrow> string \<Rightarrow> string \<Rightarrow> nat \<Rightarrow> (nat \<times> reply) list" where
  "notices st r pid old = concat (map (\<lambda>(q, b). if q = pid then []
     else map (\<lambda>(i, e). (sock (peers st b), Producer_closed pid i (pe_source e) (pe_kind e) True)) (producers (peers st old))) (room_members st r))"

lemma close_old_conns:
  "conns (close_old r pid old st) = conns (cut (sock (peers st old)) Replaced (sends (notices st r pid old) st))"
proof -
  have e: "(\<lambda>(q, b). if q = pid then id
      else fold (\<lambda>(i, e). send_to (sock (peers st b)) (Producer_closed pid i (pe_source e) (pe_kind e) True)) (producers (peers st old))) =
    (\<lambda>x. sends ((\<lambda>(q, b). if q = pid then []
      else map (\<lambda>(i, e). (sock (peers st b), Producer_closed pid i (pe_source e) (pe_kind e) True)) (producers (peers st old))) x))"
    by (rule ext) (auto simp: sends_def fold_map comp_def split_def)
  show ?thesis unfolding close_old_def Let_def e fold_sends notices_def [symmetric]
    by (simp add: cut_def upd_conn_def peers_upd_peer)
qed

lemma fold_notices_view:
  "fold vstep (map snd (filter (\<lambda>y. fst y = x) (concat (map (\<lambda>(q, b). if q = pid then []
     else map (\<lambda>(i, e). (s b, Producer_closed pid i (f e) (g e) True)) es) room)))) V =
   V - (if x \<in> set (map (\<lambda>(q, b). s b) (filter (\<lambda>(q, b). q \<noteq> pid) room)) then Pair pid ` fst ` set es else {})"
proof (induction room arbitrary: V)
  case (Cons y room)
  obtain q b where y: "y = (q, b)" by fastforce
  have "map snd (filter (\<lambda>y. fst y = x) (map (\<lambda>(i, e). (z, Producer_closed pid i (f e) (g e) True)) es)) =
      (if z = x then map (\<lambda>(i, e). Producer_closed pid i (f e) (g e) True) es else [])" for z
    by (auto simp: filter_map comp_def split_def)
  then have m: "fold vstep (map snd (filter (\<lambda>y. fst y = x) (map (\<lambda>(i, e). (z, Producer_closed pid i (f e) (g e) True)) es))) W =
      W - (if z = x then Pair pid ` fst ` set es else {})" for z W
    by (simp add: fold_closed_view)
  show ?case by (cases "q = pid"; cases "s b = x") (simp_all add: y m Cons.IH Diff_idemp)
qed simp

lemma view_notices:
  assumes "c_open (conns st x)"
  shows "known (c_msgs (conns (sends (notices st r pid old) st) x)) = known (c_msgs (conns st x)) -
    (if x \<in> set (map (\<lambda>(q, b). sock (peers st b)) (filter (\<lambda>(q, b). q \<noteq> pid) (room_members st r))) then {(pid, i) | i. has st old i} else {})"
proof -
  have "{(pid, i) | i. has st old i} = Pair pid ` fst ` set (producers (peers st old))" by (force simp: has_def map_of_eq_None_iff)
  then show ?thesis using assms by (simp add: conns_sends notices_def fold_notices_view)
qed

lemma roomProducers_there:
  assumes "\<And>q b. (q, b) \<in> set room \<longleftrightarrow> seat st r q = Some b"
  shows "(\<lambda>(q, i, src, k). (q, i)) ` set (roomProducers st room p) = there st r p"
proof -
  have h: "has st b i \<longleftrightarrow> i \<in> fst ` set (producers (peers st b))" for b i by (simp add: has_def map_of_eq_None_iff)
  have "map (\<lambda>(q, i, src, k). (q, i)) (roomProducers st room p) =
      concat (map (\<lambda>(q, b). if q = p then [] else map (\<lambda>x. (q, fst x)) (producers (peers st b))) room)"
    by (induction room) (auto simp: roomProducers_def comp_def split_def)
  then have "(\<lambda>(q, i, src, k). (q, i)) ` set (roomProducers st room p) =
      (\<Union>(q, b) \<in> set room. if q = p then {} else (\<lambda>x. (q, fst x)) ` set (producers (peers st b)))"
    by (subst set_map [symmetric]) (simp add: split_def if_distrib [of set] cong: if_cong)
  moreover have "(q, i) \<in> (\<Union>(q, b) \<in> set room. if q = p then {} else (\<lambda>x. (q, fst x)) ` set (producers (peers st b))) \<longleftrightarrow> (q, i) \<in> there st r p" for q i
    unfolding there_iff h assms [symmetric] by (force split: if_splits)
  ultimately have "y \<in> (\<lambda>(q, i, src, k). (q, i)) ` set (roomProducers st room p) \<longleftrightarrow> y \<in> there st r p" for y by (cases y) simp
  then show ?thesis by blast
qed

lemma admit_parts:
  fixes st :: sfu and w :: nat and r pid :: string and token :: string and now :: int
  assumes ok: "sfu_ok st"
  defines "old \<equiv> seat st r pid"
  defines "F \<equiv> admit w r pid old token now st"
  shows "\<exists>u s2. F = sends (map (\<lambda>(q, i, src, k). (w, New_producer q i src)) (roomProducers u (js_set (room_members st r) pid (fresh st)) pid)) (sends [(w, Joined token)] u) \<and>
      conns u = (case old of None \<Rightarrow> conns s2 | Some b \<Rightarrow> conns (cut (sock (peers s2 b)) Replaced (sends (notices s2 r pid b) s2))) \<and>
      (\<forall>y. c_msgs (conns s2 y) = c_msgs (conns st y) \<and> c_open (conns s2 y) = c_open (conns st y)) \<and> room_members s2 r = room_members st r \<and>
      peers s2 = (peers st)(fresh st := new_peer r pid w token now) \<and> fresh u = fresh st + 1 \<and>
      (\<forall>b. sock (peers u b) = (if b = fresh st then w else sock (peers st b))) \<and> (\<forall>b i. has u b i \<longleftrightarrow> b \<noteq> fresh st \<and> has st b i) \<and>
      (\<forall>q x. seat u q x = (if q = r \<and> x = pid then Some (fresh st) else seat st q x))"
proof -
  let ?a = "fresh st"
  define s1 where "s1 = upd_conn w (\<lambda>c. c\<lparr>c_session := Some ?a\<rparr>) (st\<lparr>fresh := ?a + 1, peers := (peers st)(?a := new_peer r pid w token now)\<rparr>)"
  define s2 where "s2 = (if js_get (rooms s1) r = None then s1\<lparr>rooms := js_set (rooms s1) r []\<rparr> else s1)"
  define s3 where "s3 = (case old of None \<Rightarrow> s2 | Some b \<Rightarrow> close_old r pid b s2)"
  define u where "u = s3\<lparr>rooms := js_set (rooms s3) r (js_set (room_members st r) pid ?a)\<rparr>"
  have s2f: "fresh s2 = ?a + 1" "peers s2 = (peers st)(?a := new_peer r pid w token now)" "room_members s2 q = room_members st q"
      "c_msgs (conns s2 y) = c_msgs (conns st y)" "c_open (conns s2 y) = c_open (conns st y)" for y q
    by (auto simp: s2_def s1_def conns_upd_conn room_members_def js_get_or_def)
  have s3f: "rooms s3 = rooms s2" "fresh s3 = fresh s2" "sock (peers s3 b) = sock (peers s2 b)" "has s3 b i = has s2 b i" for b i
    by (auto simp: s3_def close_old_skel has_def clearTransportReapTimer_def split: option.split)
  have rm: "room_members s3 q = room_members st q" for q using s2f(3) s3f(1) by (simp add: room_members_def)
  let ?room = "js_set (room_members st r) pid ?a" and ?j = "send_to w (Joined token) u"
  have "F = fold (\<lambda>(q, i, src, k). send_to w (New_producer q i src)) (roomProducers ?j ?room pid) ?j"
    unfolding F_def admit_def Let_def s1_def [symmetric] s2_def [symmetric] s3_def [symmetric] rm u_def [symmetric] ..
  moreover have "roomProducers ?j ?room pid = roomProducers u ?room pid" unfolding roomProducers_def fields_socket ..
  ultimately have F: "F = sends (map (\<lambda>(q, i, src, k). (w, New_producer q i src)) (roomProducers u ?room pid)) (sends [(w, Joined token)] u)"
    by (simp add: sends_def fold_map comp_def split_def)
  have "conns u = (case old of None \<Rightarrow> conns s2 | Some b \<Rightarrow> conns (cut (sock (peers s2 b)) Replaced (sends (notices s2 r pid b) s2)))"
    by (simp add: u_def s3_def close_old_conns split: option.split)
  moreover have "sock (peers u b) = (if b = ?a then w else sock (peers st b))" "has u b i \<longleftrightarrow> b \<noteq> ?a \<and> has st b i" for b i
    using s3f(3,4) by (auto simp: u_def has_def s2f new_peer_def)
  moreover have "seat u q x = (if q = r \<and> x = pid then Some ?a else seat st q x)" for q x
    using rm [of q] rm [of r] by (simp add: u_def seat_def room_members_def)
  ultimately show ?thesis using F s2f s3f(2) by (intro exI [of _ u] exI [of _ s2]) (simp add: u_def)
qed

lemma aware_admit:
  assumes a: "aware st" and ok: "sfu_ok st" and w: "\<not> c_closed (conns st w)" "c_session (conns st w) = None" and old: "old = seat st r pid"
  shows "aware (admit w r pid old token now st)" (is "aware ?F")
proof -
  note o = sfu_okD [OF ok]
  let ?a = "fresh st" and ?room = "js_set (room_members st r) pid (fresh st)"
  obtain u s2 where u: "?F = sends (map (\<lambda>(q, i, src, k). (w, New_producer q i src)) (roomProducers u ?room pid)) (sends [(w, Joined token)] u)"
      "conns u = (case old of None \<Rightarrow> conns s2 | Some b \<Rightarrow> conns (cut (sock (peers s2 b)) Replaced (sends (notices s2 r pid b) s2)))"
      "\<forall>y. c_msgs (conns s2 y) = c_msgs (conns st y) \<and> c_open (conns s2 y) = c_open (conns st y)" "room_members s2 r = room_members st r"
      "peers s2 = (peers st)(?a := new_peer r pid w token now)" "fresh u = ?a + 1"
      "\<forall>b. sock (peers u b) = (if b = ?a then w else sock (peers st b))" "\<forall>b i. has u b i \<longleftrightarrow> b \<noteq> ?a \<and> has st b i"
      "\<forall>q x. seat u q x = (if q = r \<and> x = pid then Some ?a else seat st q x)"
    using admit_parts [OF ok, of w r pid token now, folded old] by (elim exE conjE) (rule that)
  have F: "seat ?F q x = seat u q x" "sock (peers ?F b) = sock (peers u b)" "has ?F b i = has u b i" "fresh ?F = ?a + 1" "there ?F q x = there u q x" for q x b i
    using u(6) by (simp_all add: u(1) seat_def room_members_def has_def there_def)
  have oF: "c_open (conns ?F y) = c_open (conns u y)" for y by (simp add: u(1) conns_sends)
  have msgs: "known (c_msgs (conns ?F y)) = (if y = w then there u r pid else known (c_msgs (conns u y)))" if "c_open (conns u y)" for y
  proof -
    have "js_wf (room_members st r)" using o(1) by (cases "js_get (rooms st) r") (auto simp: rooms_ok_def room_members_def js_get_or_def)
    then have "js_wf ?room" by blast
    then have "(q, b) \<in> set ?room \<longleftrightarrow> js_get ?room q = Some b" for q b unfolding js_wf_def by (rule map_of_eq_Some_iff [symmetric])
    then have "(\<lambda>(q, i, src, k). (q, i)) ` set (roomProducers u ?room pid) = there u r pid"
      using u(9) by (intro roomProducers_there) (auto simp: seat_def)
    moreover have "map snd (filter (\<lambda>x. fst x = y) (map (\<lambda>(q, i, src, k). (w, New_producer q i src)) ps)) =
        (if y = w then map (\<lambda>(q, i, src, k). New_producer q i src) ps else [])"
        for ps :: "(string \<times> nat \<times> media_source \<times> media_kind) list" and y
      by (auto simp: filter_map comp_def split_def)
    ultimately show ?thesis using that by (cases "y = w") (simp_all add: u(1) conns_sends fold_new_view)
  qed
  have na: "seat st q x \<noteq> Some ?a" for q x using o(5) [of q x ?a] by auto
  have old_view: "known (c_msgs (conns ?F (sock (peers st c)))) = there u q x"
    if c: "seat st q x = Some c" "\<not> (q = r \<and> x = pid)" "c_open (conns u (sock (peers st c)))" for q x c
  proof -
    let ?y = "sock (peers st c)"
    have yw: "?y \<noteq> w" using o(4) [OF c(1)] w by (auto simp: attached_def Let_def)
    have op: "c_open (conns st ?y)" using c(3) u(3) unfolding u(2)
      by (cases old) (simp_all add: cut_def conns_upd_conn conns_sends split: if_splits)
    have V: "known (c_msgs (conns st ?y)) = there st q x" using a c(1) op unfolding aware_def by blast
    have "known (c_msgs (conns u ?y)) = there st q x - (if q = r then {(pid, i) | i b. old = Some b \<and> has st b i} else {})"
    proof (cases old)
      case (Some b)
      have b: "b \<noteq> ?a" using o(5) [of r pid b] Some old by auto
      have "set (map (\<lambda>(q, b). sock (peers s2 b)) (filter (\<lambda>(q, b). q \<noteq> pid) (room_members s2 r))) =
          set (map (\<lambda>(q, b). sock (peers st b)) (filter (\<lambda>(q, b). q \<noteq> pid) (room_members st r)))"
        unfolding u(4) set_map using room_entry [OF ok] na by (intro image_cong) (auto simp: u(5))
      then have "known (c_msgs (conns (sends (notices s2 r pid b) s2) ?y)) = there st q x - (if q = r then {(pid, i) | i. has s2 b i} else {})"
        using view_notices [of s2 ?y r pid b] op u(3) V told [OF ok c(1) op, of pid r] c(2) by simp
      moreover have "c_msgs (conns u ?y) = c_msgs (conns (sends (notices s2 r pid b) s2) ?y)" unfolding u(2) Some option.case by (simp add: cut_def conns_upd_conn)
      moreover have "has s2 b i = has st b i" for i using b by (simp add: has_def u(5))
      ultimately show ?thesis by (simp add: Some)
    qed (use u(2,3) V in simp)
    moreover have "(p, i) \<in> there u q x \<longleftrightarrow> (p, i) \<in> there st q x \<and> \<not> (q = r \<and> p = pid)" for p i
    proof (cases "q = r \<and> p = pid")
      case False
      then have "seat st q p \<noteq> Some ?a" using o(5) [of q p ?a] by blast
      then show ?thesis using False u(8,9) by (auto simp: there_iff)
    qed (use u(8,9) in \<open>auto simp: there_iff\<close>)
    moreover have "(p, i) \<in> there st q x - (if q = r then {(pid, i) | i b. old = Some b \<and> has st b i} else {}) \<longleftrightarrow>
        (p, i) \<in> there st q x \<and> \<not> (q = r \<and> p = pid)" for p i
      using old by (cases "q = r"; cases "p = pid") (simp_all add: there_iff, blast)
    ultimately have "(p, i) \<in> known (c_msgs (conns u ?y)) \<longleftrightarrow> (p, i) \<in> there u q x" for p i by simp
    then have "z \<in> known (c_msgs (conns u ?y)) \<longleftrightarrow> z \<in> there u q x" for z by (cases z) simp
    then have "known (c_msgs (conns u ?y)) = there u q x" by (rule set_eqI)
    then show ?thesis using msgs [OF c(3)] yw by simp
  qed
  show ?thesis
  proof (rule awareI)
    fix q x c assume c: "seat ?F q x = Some c" "c_open (conns ?F (sock (peers ?F c)))"
    show "known (c_msgs (conns ?F (sock (peers ?F c)))) = there ?F q x"
    proof (cases "q = r \<and> x = pid")
      case True
      then have "c = ?a" using c(1) u(9) by (simp add: F)
      then show ?thesis using msgs [of w] c(2) True u(7) by (simp add: F oF)
    next
      case False
      then have s: "seat st q x = Some c" using c(1) u(9) by (metis F(1))
      then have "c \<noteq> ?a" using o(5) by blast
      then show ?thesis using old_view [OF s False] c(2) u(7) by (simp add: F oF)
    qed
  next
    fix b c i assume "has ?F b i" "has ?F c i"
    then show "b = c" using awareD [OF a, of b i c] u(8) by (simp add: F)
  next
    fix b i assume "has ?F b i"
    then have "i < ?a" using a u(8) unfolding aware_def F by blast
    then show "i < fresh ?F" by (simp add: F)
  qed
qed

lemma aware_resume:
  assumes a: "aware st" and ok: "sfu_ok st" and w: "\<not> c_closed (conns st w)" "c_session (conns st w) = None" and s: "seat st r p = Some c"
  shows "aware (resumeSession c w token (upd_conn w (\<lambda>c'. c'\<lparr>c_session := Some c\<rparr>) st))" (is "aware ?F")
proof -
  note o = sfu_okD [OF ok]
  define s0 where "s0 = upd_conn w (\<lambda>c'. c'\<lparr>c_session := Some c\<rparr>) st"
  define s1 where "s1 = upd_peer c (\<lambda>p. p\<lparr>detachTimer := None, sock := w, pauseTimer := False\<rparr>) s0"
  define s2 where "s2 = (if sock (peers s0 c) \<noteq> w \<and> \<not> c_closed (conns s1 (sock (peers s0 c))) then cut (sock (peers s0 c)) Resumed s1 else s1)"
  define u where "u = upd_peer c (\<lambda>p. p\<lparr>resumeToken := token\<rparr>) s2"
  let ?m = "Resumed_session token (filter (\<lambda>q. q \<noteq> p) (map fst (room_members u r))) (roomProducers u (room_members u r) p)
        (map fst (producers (peers u c))) (map fst (byProducer (peers u c)))"
  have pu: "rooms u = rooms st" "fresh u = fresh st" "sock (peers u b) = (if b = c then w else sock (peers st b))" "has u b i = has st b i"
      "c_msgs (conns u y) = c_msgs (conns st y)" "c_open (conns u y) \<Longrightarrow> c_open (conns st y)" "room_code (peers u c) = r" "peer_id (peers u c) = p"
      "c_open (conns u w) = c_open (conns st w)" for b i y
    using o(5) [OF s] by (auto simp: u_def s2_def s1_def s0_def peers_upd_peer conns_upd_conn cut_def has_def split: if_splits)
  have F: "?F = sends [(w, ?m)] u"
    unfolding resumeSession_def Let_def s0_def [symmetric] s1_def [symmetric] s2_def [symmetric] u_def [symmetric] pu(7,8) send_to_sends ..
  have sl: "seat u q x = seat st q x" "room_members u q = room_members st q" for q x using pu(1) by (simp_all add: seat_def room_members_def)
  have th: "there ?F q x = there st q x" "seat ?F q x = seat st q x" "has ?F b i = has st b i" "sock (peers ?F b) = (if b = c then w else sock (peers st b))" "fresh ?F = fresh st" for q x b i
    unfolding F using pu sl by (simp_all add: there_def seat_def room_members_def has_def)
  have "(q, b) \<in> set (room_members u r) \<longleftrightarrow> seat u r q = Some b" for q b using room_entry [OF ok] by (simp add: sl)
  then have rp: "(\<lambda>(q, i, src, k). (q, i)) ` set (roomProducers u (room_members u r) p) = there st r p"
    using roomProducers_there [of "room_members u r" u r p] sl pu(4) by (simp add: there_def)
  show ?thesis
  proof (rule awareI)
    fix q x b assume b: "seat ?F q x = Some b" "c_open (conns ?F (sock (peers ?F b)))"
    then have sb: "seat st q x = Some b" by (simp add: th)
    show "known (c_msgs (conns ?F (sock (peers ?F b)))) = there ?F q x"
    proof (cases "b = c")
      case True
      then have "q = r" "x = p" using o(5) [OF sb] o(5) [OF s] by auto
      then show ?thesis using True b(2) rp unfolding th by (simp add: F conns_sends)
    next
      case False
      have n: "sock (peers st b) \<noteq> w" using o(4) [OF sb] w by (auto simp: attached_def Let_def)
      then have "c_open (conns u (sock (peers st b)))" using b(2) False by (simp add: F conns_sends pu(3))
      then show ?thesis using a sb False n pu(6) unfolding aware_def th by (simp add: F conns_sends pu(5))
    qed
  next
    fix b d i assume "has ?F b i" "has ?F d i"
    then show "b = d" using awareD [OF a] by (simp add: th)
  next
    fix b i assume "has ?F b i"
    then show "i < fresh ?F" using a unfolding aware_def by (simp add: th)
  qed
qed

section \<open>Every run\<close>

lemma aware_connection:
  assumes a: "aware st" and ok: "sfu_ok st"
  shows "aware (on_connection nonce now st)" (is "aware ?F")
proof -
  have F: "seat ?F q x = seat st q x" "has ?F b i = has st b i" "peers ?F = peers st" "there ?F q x = there st q x" "fresh ?F = fresh st + 1"
      "y < fresh st \<Longrightarrow> conns ?F y = conns st y" for q x b i y
    by (simp_all add: on_connection_def Let_def seat_def room_members_def has_def there_def)
  show ?thesis
  proof (rule awareI)
    fix r p b assume b: "seat ?F r p = Some b" "c_open (conns ?F (sock (peers ?F b)))"
    then have "conns ?F (sock (peers st b)) = conns st (sock (peers st b))" using sfu_okD(5) [OF ok, of r p b] F(1,6) by simp
    then show "known (c_msgs (conns ?F (sock (peers ?F b)))) = there ?F r p" using a b unfolding F aware_def by simp
  next
    fix b c i assume "has ?F b i" "has ?F c i"
    then show "b = c" using awareD [OF a] by (simp add: F)
  next
    fix b i assume "has ?F b i"
    then have "i < fresh st" using a unfolding aware_def by (simp add: F)
    then show "i < fresh ?F" by (simp add: F)
  qed
qed

lemma aware_join:
  assumes a: "aware st" and ok: "sfu_ok st" and w: "\<not> c_closed (conns st w)" "c_session (conns st w) = None"
  shows "aware (handleJoin cfg lib w j now token b st)"
proof -
  define n where "n = upd_conn w (\<lambda>c. c\<lparr>c_nonce := None\<rparr>) st"
  define u where "u = upd_conn w (\<lambda>c. c\<lparr>c_joinTimer := False\<rparr>) n"
  have u: "sfu_ok u" "\<not> c_closed (conns u w)" "c_session (conns u w) = None"
    using sfu_ok_same [OF ok skel_join_conn(1) [of st w]] w unfolding u_def n_def by (simp_all add: conns_upd_conn)
  have h: "hush st n" "hush st u" by (simp_all add: n_def u_def hush_conn)
  then have au: "aware n" "aware u" using aware_hush [OF a] by blast+
  have rf: "aware (refuse w m st)" "aware (refuse w m n)" "aware (refuse w m u)" "aware (server_full w u)" "aware (await_task w t u)" for m t
    using aware_hush [OF a, of "refuse w m st"] aware_hush [OF au(1), of "refuse w m n"] aware_hush [OF au(2)] by simp_all
  have ad: "aware (admit w r p None token now u)" if "seat u r p = None" for r p
    using aware_admit [OF au(2) u(1-3), of None r p] that by simp
  note rs = aware_resume [OF au(2) u(1-3)]
  show ?thesis unfolding handleJoin_def Let_def n_def [symmetric] u_def [symmetric]
    using rf ad rs au(2) by (simp split: option.splits sum.splits bool.splits)
qed

lemma aware_probe:
  assumes a: "aware st" and ok: "sfu_ok st"
  shows "aware (probe_answer w pong token now st)"
proof (cases "\<exists>r p old x y. js_get (tasks st) w = Some (Probing r p old x y)")
  case True
  then obtain r p old x y where t: "js_get (tasks st) w = Some (Probing r p old x y)" by blast
  define u where "u = end_task w st"
  have u: "sfu_ok u" unfolding u_def by (rule sfu_ok_same [OF ok]) simp
  have c: "c_session (conns u w) = None" using t sfu_okD(3) [OF ok] by (auto simp: socks_ok_def probing_at_def u_def)
  have o: "\<not> c_closed (conns u w)" if "c_open (conns u w)" using that sfu_okD(3) [OF u] by (auto simp: socks_ok_def)
  have au: "aware u" "aware (refuse w m u)" for m by (rule aware_hush [OF a]; simp add: u_def)+
  have ad: "aware (admit w r p (seat u r p) token now u)" if "c_open (conns u w)"
    by (rule aware_admit [OF au(1) u o [OF that] c refl])
  show ?thesis unfolding probe_answer_def t u_def [symmetric] Let_def option.case pending_task.case
    using au ad by (cases "seat u r p") (auto split: if_splits)
qed (auto simp: probe_answer_def a split: option.splits pending_task.splits)

lemma aware_frame:
  assumes a: "aware st" and ok: "sfu_ok st"
  shows "aware (handleFrame cfg lib w f now token b st)"
proof -
  have rt: "aware (route cfg w c m u)" if "aware u" "sfu_ok u" for c m u
    using that aware_close_producer aware_hush [OF that(1) hush_route] by (cases "\<exists>i. m = Close_producer i") auto
  have p: "aware (route cfg w c m u)" "aware u" if "spendWorkerOp cfg w c now st = (x, u)" for c m x u
  proof -
    have "hush st u" "same_skel st u" using that hush_worker(3) [of st cfg w c now] skel_spend [of st cfg w c now] by simp_all
    then show "aware u" "aware (route cfg w c m u)" using rt aware_hush [OF a] sfu_ok_same [OF ok] by blast+
  qed
  have "aware (shut w st)" by (rule aware_hush [OF a]) simp
  then show ?thesis unfolding handleFrame_def using a p rt [OF a ok] aware_join [OF a ok]
    by (auto split: frame.split option.split ClientMsg.split prod.split simp del: route.simps)
qed

lemma aware_answer:
  assumes a: "aware st" and ok: "sfu_ok st"
  shows "aware (settle_task cfg w res can st)"
proof (cases "\<exists>c s k. js_get (tasks st) w = Some (Producing c s k) \<and> res = Resolved")
  case True
  then obtain c s k where t: "js_get (tasks st) w = Some (Producing c s k)" "res = Resolved" by blast
  let ?u = "upd_peer c (\<lambda>p. p\<lparr>producersInFlight := producersInFlight p - 1\<rparr>) (end_task w st)"
  have "aware ?u" "sfu_ok ?u" by (rule aware_hush [OF a], simp) (rule sfu_ok_same [OF ok], simp)
  then show ?thesis using t aware_produced by (simp add: settle_task_def Let_def)
next
  case False
  then show ?thesis by (intro aware_hush [OF a hush_answer]) blast
qed

lemma aware_close:
  assumes a: "aware st" and ok: "sfu_ok st"
  shows "aware (on_close cfg w code st)"
proof (cases "c_closed (conns st w)")
  case False
  define u where "u = upd_conn w (\<lambda>c. c\<lparr>c_open := False, c_closed := True, c_joinTimer := False\<rparr>) st"
  have h: "hush st u" by (simp add: u_def hush_conn)
  then have au: "aware u" by (rule aware_hush [OF a])
  have l: "aware (handlePeerLeft c u)" if "is_current u c" for c
    by (rule aware_left [OF a ok that h]) (simp_all add: u_def)
  have d: "aware (upd_peer c (\<lambda>p. p\<lparr>detachTimer := Some w\<rparr>) u)" for c by (rule aware_hush [OF au]) simp
  have "aware (upd_conn w (\<lambda>c. c\<lparr>c_session := None\<rparr>) x)" if "aware x" for x by (rule aware_hush [OF that]) (simp add: hush_conn)
  then show ?thesis using False au l d unfolding on_close_def u_def [symmetric] Let_def by (auto split: option.split)
qed (simp add: on_close_def a)

lemma aware_detach:
  assumes a: "aware st" and ok: "sfu_ok st"
  shows "aware (detach_fires c st)"
proof -
  define u where "u = upd_peer c (\<lambda>p. p\<lparr>detachTimer := None\<rparr>) st"
  have h: "hush st u" by (simp add: u_def)
  have "aware (handlePeerLeft c u)" if "is_current u c" by (rule aware_left [OF a ok that h]) (simp_all add: u_def peers_upd_peer)
  then show ?thesis using a aware_hush [OF a h] by (auto simp: detach_fires_def u_def [symmetric] Let_def split: option.split)
qed

lemma aware_step:
  assumes a: "aware st" and ok: "sfu_ok st"
  shows "aware (sfu_step cfg lib ev st)"
proof -
  have "hush st (join_timeout w st)" "hush st (router_rejected r rid st)" "hush st (router_closed r rid st)" "hush st (shut w st)" "hush st (cut w e st)"
      "hush st (upd_peer c (\<lambda>p. p\<lparr>pauseTimer := False\<rparr>) st)" "hush st (reapTransport c d t st)" "hush st (reap_fires c d st)" "hush st (consumer_gone c i st)"
    for w r rid e c d t i
    by (auto simp: join_timeout_def router_rejected_def router_closed_def hush_made reap_fires_def hush_media split: option.split)
  then show ?thesis using aware_hush [OF a]
    by (cases ev) (simp_all add: aware_connection [OF a ok] aware_frame [OF a ok] aware_answer [OF a ok] aware_probe [OF a ok] aware_close [OF a ok]
        aware_detach [OF a ok] aware_producer_gone [OF a ok])
qed

interpretation sfu_views: traced_machine sfu_start "sfu_step cfg lib" "\<lambda>_ st. sfu_ok st \<and> aware st" for cfg lib
  by unfold_locales (auto simp: sfu_ok_start sfu_step_ok aware_step, simp add: sfu_start_def aware_def seat_def room_members_def js_get_or_def has_def new_peer_def)

lemma aware_run: "aware (sfu_run cfg lib evs)"
  unfolding sfu_run_def using sfu_views.good_run by blast

text \<open>C16: The members of a call see each other. A member whose socket is open and who follows its messages (a join empties its view, a resume replaces it, a new producer
  is added, a closed one and all those of a peer that left are dropped) knows at every moment exactly the producers that the other members of its room
  hold: whatever interleaving of joins, resumes, replaced sessions, produce answers, closing transports and leaving peers led there, it misses
  none and keeps no stale one.\<close>

theorem members_know_the_producers:
  assumes "seat (sfu_run cfg lib evs) r p = Some a" and "c_open (conns (sfu_run cfg lib evs) (sock (peers (sfu_run cfg lib evs) a)))"
  shows "let st = sfu_run cfg lib evs in
    known (c_msgs (conns st (sock (peers st a)))) = {(q, i). q \<noteq> p \<and> (\<exists>b. seat st r q = Some b \<and> i \<in> fst ` set (producers (peers st b)))}"
proof -
  have "known (c_msgs (conns (sfu_run cfg lib evs) (sock (peers (sfu_run cfg lib evs) a)))) = there (sfu_run cfg lib evs) r p"
    using aware_run [of cfg lib evs] assms unfolding aware_def by blast
  then show ?thesis by (simp add: Let_def there_def has_def map_of_eq_None_iff)
qed

definition sfu_demo_talk :: "sfu_event list" where
  "sfu_demo_talk = [Connection sfu_demo_nonce 0, Frame_in 0 (Msg (Join (sfu_demo_join ''alice''))) 5 ''t1'' False,
     Frame_in 0 (Msg (Create_transport (Some Dsend))) 20 [] False, Answer 0 Resolved False, Answer 0 Resolved False,
     Frame_in 0 (Msg (Produce (Some From_camera) Audio)) 25 [] False,
     Connection sfu_demo_nonce 30, Frame_in 4 (Msg (Join (sfu_demo_join ''bob''))) 35 ''t2'' False, Answer 0 Resolved False]"

lemmas sfu_eval_produce = handleProduce_def produced_def others_def send_all_def MAX_PRODUCERS_PER_PEER_def MAX_CUMULATIVE_PRODUCES_PER_SESSION_def sfu_demo_talk_def

lemma sfu_demo_talk_facts:
  "seat (sfu_run sfu_demo_cfg sfu_demo_lib sfu_demo_talk) sfu_demo_room ''bob'' = Some 5" "sock (peers (sfu_run sfu_demo_cfg sfu_demo_lib sfu_demo_talk) 5) = 4"
  "c_open (conns (sfu_run sfu_demo_cfg sfu_demo_lib sfu_demo_talk) 4)"
  "known (c_msgs (conns (sfu_run sfu_demo_cfg sfu_demo_lib sfu_demo_talk) 4)) = {(''alice'', 6)}"
  by (simp_all add: sfu_eval sfu_eval_produce known_def)

theorem members_know_the_producers_witness:
  "seat (sfu_run sfu_demo_cfg sfu_demo_lib sfu_demo_talk) sfu_demo_room ''bob'' = Some 5 \<and>
   c_open (conns (sfu_run sfu_demo_cfg sfu_demo_lib sfu_demo_talk) (sock (peers (sfu_run sfu_demo_cfg sfu_demo_lib sfu_demo_talk) 5))) \<and>
   {(''alice'', 6)} = {(q, i). q \<noteq> ''bob'' \<and> (\<exists>b. seat (sfu_run sfu_demo_cfg sfu_demo_lib sfu_demo_talk) sfu_demo_room q = Some b \<and>
      i \<in> fst ` set (producers (peers (sfu_run sfu_demo_cfg sfu_demo_lib sfu_demo_talk) b)))}"
  using members_know_the_producers [OF sfu_demo_talk_facts(1)] sfu_demo_talk_facts unfolding Let_def by simp

end
