(* ===== verification/Sfu_Server_Vouched.thy ===== *)
theory Sfu_Server_Vouched
  imports Sfu_Server_Run
begin

text \<open>
  Who may sit in a room of the media server: along every run, the socket a seated session talks on has answered its own challenge for
  exactly that room and peer.
\<close>

section \<open>Sockets only gain messages and lose challenges\<close>

definition talks :: "sfu \<Rightarrow> sfu \<Rightarrow> bool" where
  "talks st st' \<longleftrightarrow>
     (\<forall>w. (\<exists>ms. c_msgs (conns st' w) = c_msgs (conns st w) @ ms) \<and> (c_nonce (conns st' w) = c_nonce (conns st w) \<or> c_nonce (conns st' w) = None)) \<and>
     (\<forall>w r p b x v. js_get (tasks st') w = Some (Probing r p b x v) \<longrightarrow> js_get (tasks st) w = Some (Probing r p b x v)) \<and> fresh st \<le> fresh st'"

lemma talks_refl [simp]: "talks st st"
  by (simp add: talks_def)

lemma talks_trans: "talks st u \<Longrightarrow> talks u v \<Longrightarrow> talks st v"
  unfolding talks_def by (metis append_assoc le_trans)

lemma talks_fold: "(\<And>x v. talks st v \<Longrightarrow> talks st (f x v)) \<Longrightarrow> talks st u \<Longrightarrow> talks st (fold f xs u)"
  by (induction xs arbitrary: u) simp_all

lemma talks_quiet [simp]:
  "talks st (upd_peer a f u) \<longleftrightarrow> talks st u" "talks st (closeP x u) \<longleftrightarrow> talks st u" "talks st (closeC x u) \<longleftrightarrow> talks st u"
  "talks st (closeT t u) \<longleftrightarrow> talks st u" "talks st (u\<lparr>routers := rs\<rparr>) \<longleftrightarrow> talks st u" "talks st (u\<lparr>closers := cs\<rparr>) \<longleftrightarrow> talks st u"
  "talks st (u\<lparr>liveP := xs\<rparr>) \<longleftrightarrow> talks st u" "talks st (u\<lparr>liveC := xs\<rparr>) \<longleftrightarrow> talks st u" "talks st (u\<lparr>liveT := xs\<rparr>) \<longleftrightarrow> talks st u"
  "talks st (u\<lparr>rooms := m\<rparr>) \<longleftrightarrow> talks st u" "talks st (u\<lparr>peers := ps\<rparr>) \<longleftrightarrow> talks st u"
  by (simp_all add: talks_def)

lemma talks_folds [simp]: "talks st (fold closeP xs u) \<longleftrightarrow> talks st u" "talks st (fold closeC xs u) \<longleftrightarrow> talks st u"
  by (induction xs arbitrary: u) simp_all

lemma talks_fresh [simp]: "talks st u \<Longrightarrow> fresh u \<le> n \<Longrightarrow> talks st (u\<lparr>fresh := n\<rparr>)"
  by (auto simp: talks_def)

lemma talks_conn:
  "(\<And>c. (\<exists>ms. c_msgs (f c) = c_msgs c @ ms) \<and> (c_nonce (f c) = c_nonce c \<or> c_nonce (f c) = None)) \<Longrightarrow> talks st u \<Longrightarrow> talks st (upd_conn w f u)"
  by (erule talks_trans) (simp add: talks_def conns_upd_conn)

lemma talks_send [simp]: "talks st u \<Longrightarrow> talks st (send_to w m u)" "talks st u \<Longrightarrow> talks st (shut w u)" "talks st u \<Longrightarrow> talks st (cut w e u)"
  by (simp_all add: send_to_def shut_def cut_def talks_conn)

lemma talks_send_all [simp]: "talks st u \<Longrightarrow> talks st (send_all ws m u)"
  unfolding send_all_def by (rule talks_fold) simp_all

lemma talks_refuse [simp]: "talks st u \<Longrightarrow> talks st (refuse w reason u)" "talks st u \<Longrightarrow> talks st (server_full w u)"
  by (simp_all add: refuse_def server_full_def)

lemma talks_await [simp]: "talks st u \<Longrightarrow> (\<nexists>r p b x v. t = Probing r p b x v) \<Longrightarrow> talks st (await_task w t u)"
  by (auto simp: talks_def await_task_def split: if_splits)

lemma talks_end [simp]: "talks st u \<Longrightarrow> talks st (end_task w u)"
  by (auto simp: talks_def end_task_def split: if_splits)

section \<open>Every operation does\<close>

lemma talks_router: "getOrCreateRouter cfg r u = Some v \<Longrightarrow> talks st u \<Longrightarrow> talks st v"
  by (auto simp: getOrCreateRouter_def split: if_splits)

lemma talks_media:
  "talks st (handleGetCapabilities a st)" "talks st (handleRestartIce w a d st)" "talks st (handleConnectTransport w a d st)"
  "talks st (handleProduce w a src k st)" "talks st (handleResumeConsumer w a i st)" "talks st (handleCloseProducer a i st)"
  "talks st (consumer_gone a c st)" "talks st (notifyProducerClosed a i st)" "talks st (handleCloseConsumer a i st)"
  by (simp_all add: handleGetCapabilities_def handleRestartIce_def handleConnectTransport_def handleProduce_def handleResumeConsumer_def
      handleCloseProducer_def consumer_gone_def notifyProducerClosed_def handleCloseConsumer_def Let_def split: option.splits prod.splits)

lemma talks_worker:
  "talks st (handleCreateTransport cfg w a d st)" "talks st (handleConsume cfg w a i st)" "talks st (snd (spendWorkerOp cfg w a now st))"
  using talks_router by (auto simp: handleCreateTransport_def handleConsume_def spendWorkerOp_def Let_def split: option.splits)

lemma talks_made:
  "talks st u \<Longrightarrow> talks st (transport_made cfg a d u)" "talks st u \<Longrightarrow> talks st (produced a src k u)" "talks st u \<Longrightarrow> talks st (consumed a i u)"
  "talks st u \<Longrightarrow> talks st (reapTransport a d t u)"
  by (simp_all add: transport_made_def produced_def consumed_def reapTransport_def Let_def split: option.splits prod.splits)

lemma talks_route: "talks st (route cfg w a m st)"
  by (cases m) (simp_all add: talks_media talks_worker)

lemma talks_answer: "talks st (settle_task cfg w res can st)"
  by (auto simp: settle_task_def Let_def talks_made split: option.splits pending_task.splits)

lemma talks_viewers: "talks st u \<Longrightarrow> talks st (fold (\<lambda>(q, b). if q = pid then id else upd_peer b f) room u)"
  by (rule talks_fold) (auto split: prod.splits)

lemma talks_left: "talks st u \<Longrightarrow> talks st (handlePeerLeft a u)"
  by (simp add: handlePeerLeft_def leave_media_def Let_def talks_viewers split: option.splits)

lemma talks_notice: "talks st u \<Longrightarrow> talks st (fold (\<lambda>(q, b). if q = pid then id else fold (\<lambda>(i, e). send_to (f b) (g i e)) es) room u)"
  by (rule talks_fold) (auto split: prod.splits intro!: talks_fold)

lemma talks_close_old: "talks st u \<Longrightarrow> talks st (close_old r pid b u)"
  unfolding close_old_def Let_def by (simp add: talks_notice)

lemma talks_admit: "talks st u \<Longrightarrow> talks st (admit w r pid old token now u)"
  unfolding admit_def Let_def
  by (rule talks_fold) (auto simp: talks_close_old talks_conn split: prod.splits option.splits)

lemma talks_resume: "talks st u \<Longrightarrow> talks st (resumeSession a w token u)"
  by (simp add: resumeSession_def Let_def)

section \<open>Proofs\<close>

definition proven :: "node_lib \<Rightarrow> sfu_event list \<Rightarrow> sfu \<Rightarrow> nat \<Rightarrow> string \<Rightarrow> string \<Rightarrow> bool" where
  \<comment> \<open>the socket got a challenge and sent a join that answers it for the room and the peer\<close>
  "proven lib evs st w r p \<longleftrightarrow>
     (\<exists>n ms j now token b. c_msgs (conns st w) = Challenge n # ms \<and> Frame_in w (Msg (Join j)) now token b \<in> set evs \<and>
        j_room j = Some r \<and> j_peer j = Some p \<and> verifyJoin lib n r p (j_signature j) \<and> verifyRoomAdmission lib n r p (j_capability j))"

definition vouched :: "node_lib \<Rightarrow> sfu_event list \<Rightarrow> sfu \<Rightarrow> bool" where
  "vouched lib evs st \<longleftrightarrow>
     (\<forall>w n. c_nonce (conns st w) = Some n \<longrightarrow> (\<exists>ms. c_msgs (conns st w) = Challenge n # ms)) \<and>
     (\<forall>r p a. seat st r p = Some a \<longrightarrow> proven lib evs st (sock (peers st a)) r p) \<and>
     (\<forall>w r p b x v. js_get (tasks st) w = Some (Probing r p b x v) \<longrightarrow> w < fresh st \<and> proven lib evs st w r p)"

lemma proven_talks:
  assumes "proven lib evs st w r p" "talks st st'"
  shows "proven lib (evs @ [e]) st' w r p"
proof -
  obtain n ms j now token b where *: "c_msgs (conns st w) = Challenge n # ms" "Frame_in w (Msg (Join j)) now token b \<in> set evs" "j_room j = Some r"
      "j_peer j = Some p" "verifyJoin lib n r p (j_signature j)" "verifyRoomAdmission lib n r p (j_capability j)"
    using assms(1) unfolding proven_def by blast
  moreover obtain ms' where "c_msgs (conns st' w) = c_msgs (conns st w) @ ms'" using assms(2) unfolding talks_def by blast
  ultimately have "c_msgs (conns st' w) = Challenge n # (ms @ ms')" "Frame_in w (Msg (Join j)) now token b \<in> set (evs @ [e])" by simp_all
  then show ?thesis using *(3-6) unfolding proven_def by blast
qed

lemma vouched_step:
  assumes v: "vouched lib evs st" and t: "talks st st'"
    and s: "\<And>r p a. seat st' r p = Some a \<Longrightarrow> seat st r p = Some a \<and> sock (peers st' a) = sock (peers st a) \<or> proven lib (evs @ [e]) st' (sock (peers st' a)) r p"
  shows "vouched lib (evs @ [e]) st'"
  unfolding vouched_def
proof (intro conjI allI impI)
  fix w n assume "c_nonce (conns st' w) = Some n"
  moreover from this obtain ms where "c_nonce (conns st w) = Some n" "c_msgs (conns st' w) = c_msgs (conns st w) @ ms" using t unfolding talks_def by (metis option.distinct(1))
  ultimately show "\<exists>ms. c_msgs (conns st' w) = Challenge n # ms" using v unfolding vouched_def by (metis append_Cons)
next
  fix r p a assume "seat st' r p = Some a"
  then show "proven lib (evs @ [e]) st' (sock (peers st' a)) r p" using s [of r p a] v proven_talks [OF _ t] unfolding vouched_def by metis
next
  fix w r p b x u assume "js_get (tasks st') w = Some (Probing r p b x u)"
  then have "js_get (tasks st) w = Some (Probing r p b x u)" using t by (auto simp: talks_def)
  then have "w < fresh st \<and> proven lib evs st w r p" using v unfolding vouched_def by blast
  then show "w < fresh st'" "proven lib (evs @ [e]) st' w r p" using t proven_talks [OF _ t] by (auto simp: talks_def)
qed

lemma vouched_same:
  assumes "vouched lib evs st" "talks st st'" "rooms st' = rooms st" "\<And>a. sock (peers st' a) = sock (peers st a)"
  shows "vouched lib (evs @ [e]) st'"
  using assms by (intro vouched_step [OF assms(1,2)]) (simp add: seat_def room_members_def)

lemma vouched_skel: "vouched lib evs st \<Longrightarrow> talks st st' \<Longrightarrow> same_skel st st' \<Longrightarrow> vouched lib (evs @ [e]) st'"
  by (rule vouched_same) (simp_all add: same_skelD)

lemma seats_of_transports:
  "rooms (transport_made cfg a d st) = rooms st" "sock (peers (transport_made cfg a d st) b) = sock (peers st b)"
  "rooms (reapTransport a d t st) = rooms st" "sock (peers (reapTransport a d t st) b) = sock (peers st b)"
  by (simp_all add: transport_made_def reapTransport_def Let_def peers_upd_peer split: option.split)

lemma vouched_answer:
  assumes "vouched lib evs st"
  shows "vouched lib (evs @ [e]) (settle_task cfg w res can st)"
proof (cases "\<exists>a d. js_get (tasks st) w = Some (Making_transport a d) \<and> res = Resolved")
  case True
  then obtain a d where "settle_task cfg w res can st = transport_made cfg a d (end_task w st)" by (auto simp: settle_task_def Let_def)
  then show ?thesis using vouched_same [OF assms talks_answer] seats_of_transports(1,2) by (metis fields_basic(46,48))
next
  case False
  then show ?thesis by (intro vouched_skel [OF assms talks_answer skel_answer]) blast
qed

lemma vouched_left:
  assumes v: "vouched lib evs st" and cur: "is_current u a" and t: "talks st F" and u: "rooms u = rooms st" "\<And>b. sock (peers u b) = sock (peers st b)"
    and F: "rooms F = rooms (handlePeerLeft a u)" "peers F = peers (handlePeerLeft a u)"
  shows "vouched lib (evs @ [e]) F"
proof (rule vouched_step [OF v t], rule disjI1)
  fix r p b assume "seat F r p = Some b"
  then have "seat (handlePeerLeft a u) r p = Some b" using F(1) by (simp add: seat_def room_members_def)
  moreover have "sock (peers (handlePeerLeft a u) b) = sock (peers u b)"
  proof -
    obtain x where x: "same_skel x (handlePeerLeft a u)" "\<forall>b. ident (peers x b) = (if b = a then ident (peers u a\<lparr>detachTimer := None\<rparr>) else ident (peers u b))"
      using handlePeerLeft_skel [OF cur] by blast
    show ?thesis using spec [OF x(2), of b] same_skelD(3) [OF x(1), of b] by (cases "b = a") (auto simp: ident_def)
  qed
  moreover have "seat u r p = seat st r p" using u(1) by (simp add: seat_def room_members_def)
  ultimately show "seat st r p = Some b \<and> sock (peers F b) = sock (peers st b)" using slot_left [OF cur] F(2) u(2) by (auto split: if_splits)
qed

lemma admit_slots:
  assumes ok: "sfu_ok st" and old: "old = seat st r pid" and b: "seat (admit w r pid old token now st) q x = Some b"
  shows "q = r \<and> x = pid \<and> sock (peers (admit w r pid old token now st) b) = w \<or>
    seat st q x = Some b \<and> sock (peers (admit w r pid old token now st) b) = sock (peers st b)"
proof -
  let ?a = "fresh st" and ?F = "admit w r pid old token now st"
  note o = sfu_okD [OF ok]
  have ob: "c \<noteq> ?a" if "old = Some c" for c using that o(5) [of r pid c] old by auto
  obtain u R where u: "same_skel u ?F"
      "R = rooms st \<or> js_get (rooms st) r = None \<and> R = js_set (rooms st) r []" "rooms u = js_set R r (js_set (room_members st r) pid ?a)"
      "\<forall>c. peers u c = (if c = ?a then new_peer r pid w token now
        else if Some c = old then (clearTransportReapTimer Drecv (clearTransportReapTimer Dsend (peers st c)))\<lparr>detachTimer := None\<rparr> else peers st c)"
    using admit_skel [of old st w r pid token now, OF ob] by blast
  have "seat u q x = (if q = r \<and> x = pid then Some ?a else seat st q x)"
    using u(2) by (auto simp: seat_def room_members_def u(3) js_get_or_def)
  then have s: "(if q = r \<and> x = pid then Some ?a else seat st q x) = Some b" using b same_skel_slot [OF u(1)] by simp
  have "sock (peers ?F b) = sock (peers u b)" by (rule same_skelD(3) [OF u(1)])
  then show ?thesis using s u(4) o(5) [of q x b] by (auto simp: new_peer_def split: if_splits)
qed

lemma vouched_admit:
  assumes v: "vouched lib evs st" and ok: "sfu_ok u" and t: "talks st u" "\<And>q x. seat u q x = seat st q x" "\<And>b. sock (peers u b) = sock (peers st b)"
    and old: "old = seat u r pid" and p: "proven lib (evs @ [e]) (admit w r pid old token now u) w r pid"
  shows "vouched lib (evs @ [e]) (admit w r pid old token now u)"
  using admit_slots [OF ok old] p t(2,3) by (intro vouched_step [OF v talks_admit [OF t(1)]]) fastforce

lemma vouched_await:
  assumes "vouched lib evs st" "proven lib evs st w r p" "w < fresh st"
  shows "vouched lib evs (await_task w (Probing r p b x y) st)"
proof -
  have "proven lib evs (await_task w (Probing r p b x y) st) q a c = proven lib evs st q a c" for q a c by (simp add: proven_def)
  then show ?thesis using assms by (auto simp: vouched_def seat_def room_members_def await_task_def split: if_splits)
qed

lemma talks_join: "talks st (upd_conn w (\<lambda>c. c\<lparr>c_joinTimer := False\<rparr>) (upd_conn w (\<lambda>c. c\<lparr>c_nonce := None\<rparr>) st))"
    "talks st (upd_conn w (\<lambda>c. c\<lparr>c_nonce := None\<rparr>) st)"
  by (simp_all add: talks_conn)

lemma vouched_handleJoin:
  assumes v: "vouched lib evs st" and ok: "sfu_ok st" and w: "\<not> c_closed (conns st w)" "c_session (conns st w) = None" "\<not> probing_at st w"
  shows "vouched lib (evs @ [Frame_in w (Msg (Join j)) now token b]) (handleJoin cfg lib w j now token b st)"
proof -
  let ?e = "Frame_in w (Msg (Join j)) now token b"
  define n where "n = upd_conn w (\<lambda>c. c\<lparr>c_nonce := None\<rparr>) st"
  define u where "u = upd_conn w (\<lambda>c. c\<lparr>c_joinTimer := False\<rparr>) n"
  have u: "sfu_ok u" "talks st u" "peers u = peers st" "rooms u = rooms st" "\<not> c_closed (conns u w)" "c_session (conns u w) = None" "\<not> probing_at u w"
    using sfu_ok_same [OF ok skel_join_conn(1) [of st w]] talks_join(1) [of st w] w unfolding u_def n_def by (simp_all add: conns_upd_conn probing_at_def)
  have su: "seat u q x = seat st q x" for q x by (simp add: seat_def room_members_def u)
  have nt: "talks st n" "rooms n = rooms st" "peers n = peers st" using talks_join(2) by (simp_all add: n_def)
  have rf: "vouched lib (evs @ [?e]) (refuse w m n)" "vouched lib (evs @ [?e]) (refuse w m u)" "vouched lib (evs @ [?e]) (refuse w m st)"
      "vouched lib (evs @ [?e]) (server_full w u)" for m
    by (rule vouched_same [OF v]; simp add: nt u)+
  have vu: "vouched lib (evs @ [?e]) u" by (rule vouched_same [OF v]) (simp_all add: u)
  show ?thesis
  proof (cases "\<exists>r p m. j_room j = Some r \<and> j_peer j = Some p \<and> c_nonce (conns st w) = Some m \<and> verifyJoin lib m r p (j_signature j) \<and>
      verifyRoomAdmission lib m r p (j_capability j)")
    case False
    then show ?thesis unfolding handleJoin_def Let_def n_def [symmetric] u_def [symmetric]
      by (auto simp: rf isValidId_def split: option.splits)
  next
    case True
    then obtain r p m where j: "j_room j = Some r" "j_peer j = Some p" "c_nonce (conns st w) = Some m" "verifyJoin lib m r p (j_signature j)"
        "verifyRoomAdmission lib m r p (j_capability j)" by blast
    obtain ms where ms: "c_msgs (conns st w) = Challenge m # ms" using v j(3) unfolding vouched_def by blast
    have pr: "proven lib (evs @ [?e]) F w r p" if tF: "talks st F" for F
    proof -
      obtain ms' where "c_msgs (conns F w) = c_msgs (conns st w) @ ms'" using tF unfolding talks_def by blast
      then have "c_msgs (conns F w) = Challenge m # (ms @ ms')" using ms by simp
      then show ?thesis unfolding proven_def using j by (metis in_set_conv_decomp)
    qed
    have ad: "vouched lib (evs @ [?e]) (admit w r p None token now u)" if "seat u r p = None"
      using that pr [OF talks_admit [OF u(2)]] by (intro vouched_admit [OF v u(1,2)]) (simp_all add: su u)
    have rs: "vouched lib (evs @ [?e]) (resumeSession a w token (upd_conn w (\<lambda>c. c\<lparr>c_session := Some a\<rparr>) u))" (is "vouched _ _ ?F") if a: "seat u r p = Some a" for a
    proof (rule vouched_step [OF v])
      show t: "talks st ?F" using u(2) by (simp add: talks_resume talks_conn)
      have P: "rooms ?F = rooms st" "sock (peers ?F c) = (if c = a then w else sock (peers st c))" for c
        by (simp_all add: resumeSession_def Let_def peers_upd_peer u)
      fix q x c assume "seat ?F q x = Some c"
      then have c: "seat st q x = Some c" by (simp add: seat_def room_members_def P)
      then have "q = r \<and> x = p" if "c = a" using that a sfu_okD(5) [OF ok c] sfu_okD(5) [OF ok, of r p a] by (simp add: su)
      then show "seat st q x = Some c \<and> sock (peers ?F c) = sock (peers st c) \<or> proven lib (evs @ [?e]) ?F (sock (peers ?F c)) q x"
        using c P(2) pr [OF t] by auto
    qed
    have aw: "vouched lib (evs @ [?e]) (await_task w (Probing r p c x y) u)" for c x y
      using vouched_await [OF vu pr [OF u(2)]] sfu_okD(6) [OF ok w(1)] u(2) by (auto simp: talks_def)
    show ?thesis unfolding handleJoin_def Let_def n_def [symmetric] u_def [symmetric]
      by (auto simp: j rf vu ad rs aw split: option.splits sum.splits bool.splits)
  qed
qed

lemma vouched_probe:
  assumes v: "vouched lib evs st" and ok: "sfu_ok st"
  shows "vouched lib (evs @ [e]) (probe_answer w pong token now st)"
proof (cases "\<exists>r p old x y. js_get (tasks st) w = Some (Probing r p old x y)")
  case True
  then obtain r p old x y where t: "js_get (tasks st) w = Some (Probing r p old x y)" by blast
  define u where "u = end_task w st"
  have u: "sfu_ok u" unfolding u_def by (rule sfu_ok_same [OF ok]) simp
  have su: "talks st u" "rooms u = rooms st" "peers u = peers st" "seat u q z = seat st q z" for q z by (simp_all add: u_def seat_def room_members_def)
  have rf: "vouched lib (evs @ [e]) (refuse w m u)" "vouched lib (evs @ [e]) u" for m by (rule vouched_same [OF v]; simp add: su)+
  have ad: "vouched lib (evs @ [e]) (admit w r p (seat u r p) token now u)"
    using v t proven_talks [OF _ talks_admit [OF su(1)]] by (intro vouched_admit [OF v u su(1)]) (auto simp: su vouched_def)
  show ?thesis unfolding probe_answer_def t u_def [symmetric] Let_def option.case pending_task.case
    using rf ad by (cases "seat u r p") (auto split: if_splits)
qed (use vouched_same [OF v, of st] in \<open>auto simp: probe_answer_def split: option.splits pending_task.splits\<close>)

lemma vouched_connection:
  assumes v: "vouched lib evs st" and ok: "sfu_ok st"
  shows "vouched lib (evs @ [e]) (on_connection nonce now st)"
proof -
  let ?u = "on_connection nonce now st"
  have u: "rooms ?u = rooms st" "peers ?u = peers st" "tasks ?u = tasks st" "fresh ?u = fresh st + 1"
      "conns ?u w = (if w = fresh st then conns ?u w else conns st w)" for w
    by (simp_all add: on_connection_def Let_def)
  have p: "proven lib (evs @ [e]) ?u w r p" if "proven lib evs st w r p" "w < fresh st" for w r p
    using that u(5) [of w] unfolding proven_def by (metis UnCI less_irrefl set_append)
  show ?thesis unfolding vouched_def seat_def room_members_def u(1-4)
  proof (intro conjI allI impI)
    fix w n assume "c_nonce (conns ?u w) = Some n"
    then show "\<exists>ms. c_msgs (conns ?u w) = Challenge n # ms" using v by (auto simp: vouched_def on_connection_def Let_def split: if_splits)
  next
    fix r q a assume "js_get (js_get_or [] (rooms st) r) q = Some a"
    then have "seat st r q = Some a" by (simp add: seat_def room_members_def)
    then show "proven lib (evs @ [e]) ?u (sock (peers st a)) r q" using v p sfu_okD(5) [OF ok] unfolding vouched_def by blast
  next
    fix w r q b x y assume "js_get (tasks st) w = Some (Probing r q b x y)"
    then have "w < fresh st \<and> proven lib evs st w r q" using v unfolding vouched_def by blast
    then show "w < fresh st + 1" "proven lib (evs @ [e]) ?u w r q" using p by auto
  qed
qed

lemma vouched_close:
  assumes v: "vouched lib evs st"
  shows "vouched lib (evs @ [e]) (on_close cfg w code st)"
proof (cases "\<exists>a. \<not> c_closed (conns st w) \<and> c_session (conns st w) = Some a \<and> is_current st a \<and> sock (peers st a) = w \<and>
    \<not> (resume_grace cfg \<and> holdsForResume code (c_endedBy (conns st w)))")
  case True
  define u where "u = upd_conn w (\<lambda>c. c\<lparr>c_open := False, c_closed := True, c_joinTimer := False\<rparr>) st"
  obtain a where a: "on_close cfg w code st = upd_conn w (\<lambda>c. c\<lparr>c_session := None\<rparr>) (handlePeerLeft a u)" "is_current u a"
    using True by (auto simp: on_close_def Let_def u_def conns_upd_conn is_current_def seat_def room_members_def)
  have "talks st (on_close cfg w code st)" unfolding a by (simp add: talks_conn talks_left u_def)
  then show ?thesis by (rule vouched_left [OF v a(2)]) (simp_all add: a u_def)
next
  case False
  have s: "is_current (upd_conn w f st) a = is_current st a" for f a by (simp add: is_current_def seat_def room_members_def)
  show ?thesis
  proof (rule vouched_same [OF v])
    show "talks st (on_close cfg w code st)"
      by (simp add: on_close_def Let_def talks_conn talks_left split: option.split)
    show "rooms (on_close cfg w code st) = rooms st" "\<And>a. sock (peers (on_close cfg w code st) a) = sock (peers st a)"
      using False by (auto simp: on_close_def Let_def conns_upd_conn peers_upd_peer s split: option.split)
  qed
qed

lemma vouched_detach:
  assumes v: "vouched lib evs st"
  shows "vouched lib (evs @ [e]) (detach_fires a st)"
proof -
  define u where "u = upd_peer a (\<lambda>p. p\<lparr>detachTimer := None\<rparr>) st"
  have u: "talks st u" "rooms u = rooms st" "sock (peers u b) = sock (peers st b)" for b by (simp_all add: u_def peers_upd_peer)
  have "vouched lib (evs @ [e]) (handlePeerLeft a u)" if "is_current u a"
    by (rule vouched_left [OF v that]) (simp_all add: u talks_left)
  moreover have "vouched lib (evs @ [e]) u" "vouched lib (evs @ [e]) st" by (rule vouched_same [OF v]; simp add: u)+
  ultimately show ?thesis by (auto simp: detach_fires_def u_def [symmetric] Let_def split: option.split)
qed

lemma vouched_frame:
  assumes v: "vouched lib evs st" and ok: "sfu_ok st"
  shows "vouched lib (evs @ [Frame_in w f now token b]) (handleFrame cfg lib w f now token b st)"
proof -
  let ?e = "Frame_in w f now token b"
  have s: "vouched lib (evs @ [?e]) (shut w st)" "vouched lib (evs @ [?e]) st" by (rule vouched_same [OF v]; simp)+
  have r: "vouched lib (evs @ [?e]) (route cfg w a m st)" for a m by (rule vouched_skel [OF v talks_route skel_route])
  have p: "vouched lib (evs @ [?e]) (route cfg w a m u)" "vouched lib (evs @ [?e]) u" if "spendWorkerOp cfg w a now st = (x, u)" for a m x u
    using that talks_worker(3) [of st cfg w a now] skel_spend [of st cfg w a now] vouched_skel [OF v] talks_trans [OF _ talks_route] same_skel_trans [OF _ skel_route]
    by (metis snd_conv)+
  have j: "vouched lib (evs @ [?e]) (handleJoin cfg lib w j now token b st)"
    if "\<not> c_closed (conns st w)" "js_get (tasks st) w = None" "c_session (conns st w) = None" "f = Msg (Join j)" for j
    using vouched_handleJoin [OF v ok that(1,3)] that by (simp add: probing_at_def)
  show ?thesis unfolding handleFrame_def using s r p j
    by (auto split: frame.split option.split ClientMsg.split prod.split simp del: route.simps)
qed

lemma vouched_sfu_step:
  assumes v: "vouched lib evs st" and ok: "sfu_ok st"
  shows "vouched lib (evs @ [ev]) (sfu_step cfg lib ev st)"
proof -
  have "talks st (join_timeout w st)" "talks st (router_rejected r rid st)" "talks st (router_closed r rid st)" for w r rid
    by (simp_all add: join_timeout_def router_rejected_def router_closed_def)
  moreover have "same_skel st (join_timeout w st)" "same_skel st (router_rejected r rid st)" "same_skel st (router_closed r rid st)" for w r rid
    by (simp_all add: join_timeout_def router_rejected_def router_closed_def)
  ultimately have j: "vouched lib (evs @ [x]) (join_timeout w st)" "vouched lib (evs @ [x]) (router_rejected r rid st)"
      "vouched lib (evs @ [x]) (router_closed r rid st)" for x w r rid
    using vouched_skel [OF v] by blast+
  have m: "vouched lib (evs @ [x]) (notifyProducerClosed a i st)" "vouched lib (evs @ [x]) (consumer_gone a i st)" for x a i
    by (rule vouched_skel [OF v]; simp add: talks_media skel_media)+
  have s: "vouched lib (evs @ [x]) (shut w st)" "vouched lib (evs @ [x]) (cut w e st)" "vouched lib (evs @ [x]) (upd_peer a (\<lambda>p. p\<lparr>pauseTimer := False\<rparr>) st)" for x w e a
    by (rule vouched_skel [OF v]; simp)+
  have r: "vouched lib (evs @ [x]) (reapTransport a d t st)" for x a d t
    by (rule vouched_same [OF v]) (simp_all add: talks_made seats_of_transports)
  have f: "vouched lib (evs @ [x]) (reap_fires a d st)" for x a d
    by (rule vouched_same [OF v]) (simp_all add: reap_fires_def talks_made seats_of_transports peers_upd_peer split: option.split)
  show ?thesis
    by (cases ev) (simp_all add: j m s r f vouched_connection [OF v ok] vouched_frame [OF v ok] vouched_answer [OF v] vouched_probe [OF v ok]
        vouched_close [OF v] vouched_detach [OF v])
qed

interpretation sfu_proofs: traced_machine sfu_start "sfu_step cfg lib" "\<lambda>evs st. sfu_ok st \<and> vouched lib evs st" for cfg lib
  by unfold_locales (auto simp: sfu_ok_start sfu_step_ok vouched_sfu_step, simp add: sfu_start_def vouched_def seat_def room_members_def js_get_or_def no_conn_def)

lemma vouched_run: "vouched lib evs (sfu_run cfg lib evs)"
  unfolding sfu_run_def using sfu_proofs.good_run by blast

text \<open>C18: Nobody sits in a room without proof. Whenever a session holds the seat of peer \<open>p\<close> in room \<open>r\<close>, the socket it now talks on was given a challenge
  by this server and sent a join for exactly that room and that peer whose signature by the device key in \<open>p\<close> and whose room capability both verify
  over that socket's challenge; that also holds of a socket that took the session over by a resume token and of one let in after a probe.\<close>

theorem seats_are_vouched_for:
  assumes "seat (sfu_run cfg lib evs) r p = Some a"
  shows "\<exists>n ms j now token b. let w = sock (peers (sfu_run cfg lib evs) a) in
    c_msgs (conns (sfu_run cfg lib evs) w) = Challenge n # ms \<and> Frame_in w (Msg (Join j)) now token b \<in> set evs \<and>
    j_room j = Some r \<and> j_peer j = Some p \<and> verifyJoin lib n r p (j_signature j) \<and> verifyRoomAdmission lib n r p (j_capability j)"
proof -
  have "proven lib evs (sfu_run cfg lib evs) (sock (peers (sfu_run cfg lib evs) a)) r p"
    using vouched_run [of lib evs cfg] assms unfolding vouched_def by blast
  then show ?thesis unfolding proven_def Let_def .
qed

theorem seats_are_vouched_for_witness:
  "seat (sfu_run sfu_demo_cfg sfu_demo_lib sfu_demo_call) sfu_demo_room ''bob'' = Some 3 \<and>
   (\<exists>n ms j now token b. let w = sock (peers (sfu_run sfu_demo_cfg sfu_demo_lib sfu_demo_call) 3) in
    c_msgs (conns (sfu_run sfu_demo_cfg sfu_demo_lib sfu_demo_call) w) = Challenge n # ms \<and> Frame_in w (Msg (Join j)) now token b \<in> set sfu_demo_call \<and>
    j_room j = Some sfu_demo_room \<and> j_peer j = Some ''bob'' \<and> verifyJoin sfu_demo_lib n sfu_demo_room ''bob'' (j_signature j) \<and>
    verifyRoomAdmission sfu_demo_lib n sfu_demo_room ''bob'' (j_capability j))"
  using seats_are_vouched_for [OF sfu_demo_slots(2)] sfu_demo_slots(2) by blast

end
