(* ===== verification/Sfu_Server_Seats.thy ===== *)
theory Sfu_Server_Seats
  imports Sfu_Server_Views Sfu_Server_Vouched
begin

text \<open>
  How a seat is lost: only by the close of the session's own socket, by the timer armed for it, or to a proven owner of the same key after
  that very socket was asked and did not answer.
\<close>

lemma slot_admit:
  assumes ok: "sfu_ok st"
  shows "seat (admit w r pid (seat st r pid) token now st) q x = (if q = r \<and> x = pid then Some (fresh st) else seat st q x)"
proof -
  have "c \<noteq> fresh st" if "seat st r pid = Some c" for c using that sfu_okD(5) [OF ok that] by auto
  then obtain u R where u: "same_skel u (admit w r pid (seat st r pid) token now st)"
      "R = rooms st \<or> js_get (rooms st) r = None \<and> R = js_set (rooms st) r []" "rooms u = js_set R r (js_set (room_members st r) pid (fresh st))"
    using admit_skel [of "seat st r pid" st w r pid token now] by blast
  show ?thesis unfolding same_skel_slot [OF u(1)] using u(2) by (auto simp: seat_def room_members_def u(3) js_get_or_def)
qed

lemma slot_rooms_same: "rooms st' = rooms st \<Longrightarrow> seat st' r p = seat st r p"
  by (simp add: seat_def room_members_def)

lemma join_keeps_seats:
  assumes ok: "sfu_ok st" and s: "seat st r p = Some a"
  shows "seat (handleJoin cfg lib w j now token b st) r p = Some a"
proof -
  define n where "n = upd_conn w (\<lambda>c. c\<lparr>c_nonce := None\<rparr>) st"
  define u where "u = upd_conn w (\<lambda>c. c\<lparr>c_joinTimer := False\<rparr>) n"
  have u: "sfu_ok u" using sfu_ok_same [OF ok skel_join_conn(1) [of st w]] unfolding u_def n_def .
  have r: "rooms n = rooms st" "rooms u = rooms st" by (simp_all add: n_def u_def)
  have su: "seat u r p = Some a" "seat n r p = Some a" using s r by (simp_all add: seat_def room_members_def)
  have ad: "seat (admit w r' p' None token now u) r p = Some a" if "seat u r' p' = None" for r' p'
    using slot_admit [OF u, of w r' p' token now r p] that su by (auto split: if_splits)
  have rs: "rooms (resumeSession c w token (upd_conn w f u)) = rooms u" for c f by (simp add: resumeSession_def Let_def)
  have "seat (refuse w m st) r p = Some a" "seat (refuse w m n) r p = Some a" "seat (refuse w m u) r p = Some a" "seat (server_full w u) r p = Some a"
      "seat (await_task w t u) r p = Some a" "seat (resumeSession c w token (upd_conn w f u)) r p = Some a" for m t c f
    using s by (simp_all add: seat_def room_members_def r rs)
  then show ?thesis unfolding handleJoin_def Let_def n_def [symmetric] u_def [symmetric]
    using su ad by (simp split: option.splits sum.splits bool.splits)
qed

lemma frame_keeps_seats:
  assumes ok: "sfu_ok st" and s: "seat st r p = Some a"
  shows "seat (handleFrame cfg lib w f now token b st) r p = Some a"
proof -
  have rt: "seat (route cfg w c m u) r p = seat u r p" for c m u by (rule same_skel_slot [OF skel_route])
  have sp: "seat u r p = seat st r p" if "spendWorkerOp cfg w c now st = (x, u)" for c x u
    using same_skel_slot [OF skel_spend [of st cfg w c now]] that by simp
  have "seat (shut w st) r p = seat st r p" by (simp add: seat_def room_members_def)
  then show ?thesis unfolding handleFrame_def using s rt sp join_keeps_seats [OF ok s]
    by (auto split: frame.split option.split ClientMsg.split prod.split simp del: route.simps)
qed

lemma probe_takes_seat:
  assumes ok: "sfu_ok st" and s: "seat st r p = Some a" and l: "seat (probe_answer w pong token now st) r p \<noteq> Some a"
  shows "\<exists>v. js_get (tasks st) w = Some (Probing r p a (sock (peers st a)) v) \<and> \<not> (case v of Some x \<Rightarrow> x | None \<Rightarrow> pong)"
proof (cases "\<exists>q x old y v. js_get (tasks st) w = Some (Probing q x old y v)")
  case True
  then obtain q x old y v where t: "js_get (tasks st) w = Some (Probing q x old y v)" by blast
  define u where "u = end_task w st"
  have u: "sfu_ok u" unfolding u_def by (rule sfu_ok_same [OF ok]) simp
  have su: "seat u r' p' = seat st r' p'" "seat (refuse w m u) r' p' = seat st r' p'" "peers u = peers st" for r' p' m by (simp_all add: u_def seat_def room_members_def)
  have l': "seat (admit w q x (seat u q x) token now u) r p \<noteq> Some a \<and> \<not> (case v of Some x \<Rightarrow> x | None \<Rightarrow> pong) \<and>
      (\<forall>c. seat u q x = Some c \<longrightarrow> c = old \<and> sock (peers u c) = y)"
    using l s unfolding probe_answer_def t u_def [symmetric] Let_def option.case pending_task.case
    by (auto simp: su split: if_splits option.splits)
  then have "r = q" "p = x" using slot_admit [OF u, of w q x token now r p] s su by (auto split: if_splits)
  then show ?thesis using t l' s su by auto
qed (use s l in \<open>auto simp: probe_answer_def split: option.splits pending_task.splits\<close>)

lemma left_takes_seat:
  assumes "is_current u c" "seat u r p = Some a" "sfu_ok st" "rooms u = rooms st" "\<And>b. room_code (peers u b) = room_code (peers st b) \<and> peer_id (peers u b) = peer_id (peers st b)"
    and "seat (handlePeerLeft c u) r p \<noteq> Some a"
  shows "c = a"
  using assms slot_left [OF assms(1), of r p] by (auto simp: is_current_def split: if_splits)

lemma close_takes_seat:
  assumes ok: "sfu_ok st" and s: "seat st r p = Some a" and l: "seat (on_close cfg w code st) r p \<noteq> Some a"
  shows "w = sock (peers st a)"
proof -
  define u where "u = upd_conn w (\<lambda>c. c\<lparr>c_open := False, c_closed := True, c_joinTimer := False\<rparr>) st"
  have u: "rooms u = rooms st" "peers u = peers st" "seat u r p = Some a" using s by (simp_all add: u_def seat_def room_members_def)
  have f: "seat (upd_conn w g x) r p = seat x r p" "seat (upd_peer c h x) r p = seat x r p" for g x c h by (simp_all add: seat_def room_members_def)
  obtain c where c: "is_current u c" "sock (peers u c) = w" "seat (handlePeerLeft c u) r p \<noteq> Some a"
    using l s u unfolding on_close_def u_def [symmetric] Let_def by (auto simp: f split: if_splits option.splits)
  then have "c = a" using left_takes_seat [OF c(1) u(3) ok] u by simp
  then show ?thesis using c(2) u(2) by simp
qed

lemma detach_takes_seat:
  assumes ok: "sfu_ok st" and s: "seat st r p = Some a" and l: "seat (detach_fires c st) r p \<noteq> Some a"
  shows "c = a \<and> detachTimer (peers st a) = Some (sock (peers st a))"
proof -
  define u where "u = upd_peer c (\<lambda>p. p\<lparr>detachTimer := None\<rparr>) st"
  have u: "rooms u = rooms st" "seat u r p = Some a" using s by (simp_all add: u_def seat_def room_members_def)
  have i: "room_code (peers u b) = room_code (peers st b) \<and> peer_id (peers u b) = peer_id (peers st b) \<and> sock (peers u b) = sock (peers st b)" for b
    by (simp add: u_def peers_upd_peer)
  have c: "is_current u c" "detachTimer (peers st c) = Some (sock (peers u c))" "seat (handlePeerLeft c u) r p \<noteq> Some a"
    using l s u unfolding detach_fires_def u_def [symmetric] Let_def by (auto split: if_splits option.splits)
  then have "c = a" using left_takes_seat [OF c(1) u(2) ok u(1)] i by simp
  then show ?thesis using c(2) i by simp
qed

text \<open>C19: A live member keeps its seat. If a step of the server takes the seat of a session away, then that session's own socket has just closed, or the timer armed
  for that closed socket ran out, or a socket that waited for the probe of exactly the socket the session has now got the answer that nobody is there.
  No frame of anybody else, no answer of the worker, no verdict about a socket the session has meanwhile left, and no resume or join of another
  peer unseats it.\<close>

theorem incumbents_keep_their_seat:
  fixes evs :: "sfu_event list" and a :: nat
  assumes "seat (sfu_run cfg lib evs) r p = Some a" and "seat (sfu_run cfg lib (evs @ [ev])) r p \<noteq> Some a"
  shows "let st = sfu_run cfg lib evs; w = sock (peers st a) in
    (\<exists>code. ev = Close_event w code) \<or> ev = Detach_timer a \<and> detachTimer (peers st a) = Some w \<or>
    (\<exists>x pong token now v. ev = Probe_answer x pong token now \<and> js_get (tasks st) x = Some (Probing r p a w v) \<and>
      \<not> (case v of Some alive \<Rightarrow> alive | None \<Rightarrow> pong))"
proof -
  let ?st = "sfu_run cfg lib evs"
  have l: "seat (sfu_step cfg lib ev ?st) r p \<noteq> Some a" using assms(2) by (simp add: sfu_run_def)
  note k = sfu_ok_run [of cfg lib evs] assms(1)
  have "rooms (settle_task cfg x res can ?st) = rooms ?st" for x res can
  proof (cases "\<exists>c d. js_get (tasks ?st) x = Some (Making_transport c d) \<and> res = Resolved")
    case True
    then show ?thesis using seats_of_transports(1) by (auto simp: settle_task_def Let_def)
  next
    case False
    then have "same_skel ?st (settle_task cfg x res can ?st)" by (intro skel_answer) blast
    then show ?thesis by (rule same_skelD(9))
  qed
  moreover have "rooms (notifyProducerClosed c i ?st) = rooms ?st" "rooms (consumer_gone c i ?st) = rooms ?st" for c i
    using same_skelD(9) [OF skel_media(7)] same_skelD(9) [OF skel_media(8)] by blast+
  moreover have "rooms (on_connection nonce now ?st) = rooms ?st" "rooms (join_timeout x ?st) = rooms ?st" "rooms (router_rejected q rid ?st) = rooms ?st"
      "rooms (router_closed q rid ?st) = rooms ?st" "rooms (reap_fires c d ?st) = rooms ?st" for nonce now x q rid c d
    by (simp_all add: on_connection_def Let_def join_timeout_def router_rejected_def router_closed_def reap_fires_def seats_of_transports split: option.split)
  moreover have "rooms (sfu_step cfg lib ev ?st) \<noteq> rooms ?st" using l k(2) slot_rooms_same by metis
  ultimately show ?thesis using l frame_keeps_seats [OF k] probe_takes_seat [OF k] close_takes_seat [OF k] detach_takes_seat [OF k]
    by (cases ev) (simp_all add: seats_of_transports Let_def)
qed

lemma sfu_demo_leaves: "seat (sfu_run sfu_demo_cfg sfu_demo_lib (sfu_demo_call @ [Close_event 0 1000])) sfu_demo_room ''alice'' \<noteq> Some 1"
  by (simp add: sfu_eval on_close_def holdsForResume_def handlePeerLeft_def leave_media_def clearTransportReapTimer_def send_all_def)

theorem incumbents_keep_their_seat_witness:
  "seat (sfu_run sfu_demo_cfg sfu_demo_lib sfu_demo_call) sfu_demo_room ''alice'' = Some 1 \<and>
   seat (sfu_run sfu_demo_cfg sfu_demo_lib (sfu_demo_call @ [Close_event 0 1000])) sfu_demo_room ''alice'' \<noteq> Some 1 \<and>
   (let st = sfu_run sfu_demo_cfg sfu_demo_lib sfu_demo_call; w = sock (peers st 1) in
    (\<exists>code. Close_event 0 1000 = Close_event w code) \<or> Close_event 0 1000 = Detach_timer 1 \<and> detachTimer (peers st 1) = Some w \<or>
    (\<exists>x pong token now v. Close_event 0 1000 = Probe_answer x pong token now \<and> js_get (tasks st) x = Some (Probing sfu_demo_room ''alice'' 1 w v) \<and>
      \<not> (case v of Some alive \<Rightarrow> alive | None \<Rightarrow> pong)))"
  using incumbents_keep_their_seat [OF sfu_demo_slots(1) sfu_demo_leaves] sfu_demo_slots(1) sfu_demo_leaves by blast

section \<open>A connect that is answered late\<close>

text \<open>
  When the answer to a connect comes after the transport it was for has been reaped, the direction is noted as connected although there is no
  transport; the transport the client then builds is refused its connect.
\<close>

definition sfu_demo_late :: "sfu_event list" where
  "sfu_demo_late = [Connection sfu_demo_nonce 0, Frame_in 0 (Msg (Join (sfu_demo_join ''alice''))) 5 ''t1'' False,
     Frame_in 0 (Msg (Create_transport (Some Dsend))) 20 [] False, Answer 0 Resolved False, Answer 0 Resolved False,
     Frame_in 0 (Msg (Connect_transport (Some Dsend))) 25 [] False, Reap_timer 1 Dsend, Answer 0 Resolved False,
     Frame_in 0 (Msg (Create_transport (Some Dsend))) 30 [] False, Answer 0 Resolved False, Answer 0 Resolved False,
     Frame_in 0 (Msg (Connect_transport (Some Dsend))) 35 [] False]"

lemma late_connect_refuses_the_next:
  "sendT (peers (sfu_run sfu_demo_cfg sfu_demo_lib sfu_demo_late) 1) = Some 4" "connectedT (peers (sfu_run sfu_demo_cfg sfu_demo_lib sfu_demo_late) 1) = [Dsend]"
  "tasks (sfu_run sfu_demo_cfg sfu_demo_lib sfu_demo_late) = []"
  by (simp_all add: sfu_eval sfu_demo_late_def handleConnectTransport_def reap_fires_def reapTransport_def clearTransportReapTimer_def set_add_def)

end
