(* ===== verification/Sync_Store.thy ===== *)
theory Sync_Store
  imports Sync_Inbound Sync_Push Message_Signing Flood_Cap Js_Text
begin

text \<open>
  What the store makes of one batch of history rows: \<^verbatim>\<open>_storeSyncBatch\<close> of
  \<^verbatim>\<open>frontend/src/lib/transport/transport.svelte.ts\<close>, with the plugin checks of
  \<^verbatim>\<open>plugins/validate.ts\<close> and \<^verbatim>\<open>allowsUnsignedDmHistory\<close> of \<^verbatim>\<open>dm-ownership.ts\<close>. Its answer, the rows held and the
  floors, is what \<open>Sync_Inbound\<close> decides watermarks on.

  \<^item> The state is what the function reads and writes of the device: the clear fields of the stored
    messages by id, the refusal claims, the clocks, the gate's memory, the flood caps, and the log of the calls
    of \<^verbatim>\<open>setWatermark\<close>. Attachments, plugin card caches, notifications, the member list and the screen are left out: nothing here reads them.
  \<^item> The call is one step. A thrown error (a row that is \<^verbatim>\<open>null\<close>, or the identity changed meanwhile) makes the
    batch count as refused whole; the first is a branch here, the second is a step that is not taken.
  \<^item> \<^verbatim>\<open>blindValue\<close> (a keyed hash), \<^verbatim>\<open>JSON.parse\<close>, the identity of a peer and the code of the conversation with
    it are arguments.
\<close>

section \<open>The checks on a plugin row\<close>

definition CARD_MAX_BYTES :: nat where "CARD_MAX_BYTES = 16 * 1024"
definition UPDATE_MAX_BYTES :: nat where "UPDATE_MAX_BYTES = 4 * 1024"
definition EPHEMERAL_MAX_BYTES :: nat where "EPHEMERAL_MAX_BYTES = 4 * 1024"

definition plugin_id_char :: "char \<Rightarrow> bool" where
  "plugin_id_char c \<longleftrightarrow> (let n = of_char c :: nat in 97 \<le> n \<and> n \<le> 122 \<or> 48 \<le> n \<and> n \<le> 57 \<or> n = 45)"

fun validatePluginId :: "js_value \<Rightarrow> bool" where
  \<comment> \<open>\<^verbatim>\<open>/^[a-z0-9-]{2,32}$/\<close>\<close>
  "validatePluginId (JStr s) \<longleftrightarrow> 2 \<le> length s \<and> length s \<le> 32 \<and> list_all plugin_id_char s"
| "validatePluginId _ \<longleftrightarrow> False"

definition validatePayload :: "nat \<Rightarrow> js_value \<Rightarrow> bool" where
  \<comment> \<open>the three validators, which differ in the limit\<close>
  "validatePayload limit data \<longleftrightarrow> length (json_text data) \<le> limit"

definition payload_limit :: "js_value \<Rightarrow> nat" where
  "payload_limit type =
     (if type = JStr (wire_tag PluginCard) then CARD_MAX_BYTES
      else if type = JStr (wire_tag PluginUpdate) then UPDATE_MAX_BYTES else EPHEMERAL_MAX_BYTES)"

record plugin_payload =
  pp_pluginId :: js_value
  pp_cardId :: js_value
  pp_data :: js_value

definition parsePluginPayload :: "(string \<Rightarrow> js_value option) \<Rightarrow> js_value \<Rightarrow> js_value \<Rightarrow> plugin_payload option" where
  "parsePluginPayload parse type content =
     (case content of
        JStr t \<Rightarrow>
          (case parse t of
             None \<Rightarrow> None
           | Some payload \<Rightarrow>
               if \<not> (case payload of JObj _ \<Rightarrow> True | JArr _ \<Rightarrow> True | _ \<Rightarrow> False) then None
               else if \<not> validatePluginId (js_prop payload ''pluginId'') then None
               else if type \<noteq> JStr (wire_tag PluginCard) \<and>
                 \<not> (is_js_string (js_prop payload ''cardId'') \<and> js_truthy (js_prop payload ''cardId'')) then None
               else if js_prop payload ''data'' \<noteq> JUndefined \<and> \<not> validatePayload (payload_limit type) (js_prop payload ''data'')
               then None
               else Some \<lparr>pp_pluginId = js_prop payload ''pluginId'', pp_cardId = js_prop payload ''cardId'',
                          pp_data = js_prop payload ''data''\<rparr>)
      | _ \<Rightarrow> None)"

section \<open>The state\<close>

record clear_row =
  cl_room :: string
  cl_sender :: string
  cl_lamport :: int

record sync_store =
  st_rows :: "(string, clear_row) jsmap"
  st_refused :: refused
  st_clocks :: clocks
  st_memo :: "prefix_cache \<times> string list"
  st_flood :: plugin_flood
  st_watermarks :: "(string \<times> string \<times> int) list" \<comment> \<open>the calls of \<^verbatim>\<open>setWatermark\<close>\<close>

record sync_device =
  d_lib :: sig_lib
  d_blind :: "string \<Rightarrow> string"
  d_parse :: "string \<Rightarrow> js_value option"
  d_did :: string
  d_joined :: "string list"
  d_peerDid :: "string \<Rightarrow> string option"
  d_dmCode :: "string \<Rightarrow> string option"

record sync_call =
  sc_room :: string
  sc_from :: "string option"
  sc_live :: bool
  sc_claims :: bool
  sc_now :: int

definition SYNC_BATCH_SIZE :: nat where "SYNC_BATCH_SIZE = 20"

section \<open>Who may leave out the signature\<close>

definition unsignedFrom :: "sync_device \<Rightarrow> sync_call \<Rightarrow> string option option" where
  \<comment> \<open>\<open>None\<close>: the frame is refused whole\<close>
  "unsignedFrom D c =
     (if take 3 (sc_room c) \<noteq> ''dm-'' then Some None
      else case sc_from c of
             None \<Rightarrow> None
           | Some peer \<Rightarrow>
               if peer = [] then None
               else if d_peerDid D peer \<noteq> Some [] \<and> d_peerDid D peer = Some (d_did D) then Some (Some ''*'')
               else if d_dmCode D peer \<noteq> Some (sc_room c) then None
               else Some (d_peerDid D peer))"

fun has_length :: "js_value \<Rightarrow> bool" where
  \<comment> \<open>whether \<^verbatim>\<open>files?.length\<close> is truthy\<close>
  "has_length (JArr vs) \<longleftrightarrow> vs \<noteq> []"
| "has_length (JStr s) \<longleftrightarrow> s \<noteq> []"
| "has_length v \<longleftrightarrow> js_truthy (js_prop v ''length'')"

definition allowsUnsignedDmHistory :: "js_value \<Rightarrow> string option \<Rightarrow> bool \<Rightarrow> bool" where
  "allowsUnsignedDmHistory row author isLive \<longleftrightarrow> \<not> isLive \<and>
     (case author of None \<Rightarrow> False | Some a \<Rightarrow> a = ''*'' \<or> js_prop row ''senderId'' = JStr a) \<and>
     js_prop row ''type'' \<in> set (map (JStr \<circ> wire_tag) [Text, Reply, Reaction]) \<and>
     \<not> has_length (optional (js_prop row ''meta'') ''files'')"

section \<open>Rows already held\<close>

definition known_row :: "sync_store \<Rightarrow> js_value \<Rightarrow> clear_row option" where
  \<comment> \<open>\<^verbatim>\<open>messageClearFieldsByIds\<close> leaves out an id that is no string or empty\<close>
  "known_row s w = (case js_prop w ''id'' of JStr i \<Rightarrow> if i = [] then None else js_get (st_rows s) i | _ \<Rightarrow> None)"

definition same_row :: "sync_device \<Rightarrow> string \<Rightarrow> clear_row \<Rightarrow> js_value \<Rightarrow> bool" where
  "same_row D room row w \<longleftrightarrow> cl_room row = d_blind D room \<and>
     (case js_prop w ''senderId'' of JStr did \<Rightarrow> cl_sender row = d_blind D did | _ \<Rightarrow> False)"

definition held_rows :: "sync_device \<Rightarrow> string \<Rightarrow> sync_store \<Rightarrow> js_value list \<Rightarrow> HeldRow list" where
  "held_rows D room s ws = concat (map (\<lambda>w.
     case known_row s w of
       Some row \<Rightarrow> if same_row D room row w then [\<lparr>hr_sender = js_prop w ''senderId'', hr_lamport = JNum (JInt (cl_lamport row))\<rparr>] else []
     | None \<Rightarrow> []) ws)"

section \<open>Rows that fail verification\<close>

fun verify_all :: "sig_lib \<Rightarrow> clocks \<Rightarrow> prefix_cache \<times> string list \<Rightarrow> string \<Rightarrow> (js_value \<Rightarrow> bool) \<Rightarrow> js_value list \<Rightarrow>
  (js_value \<times> bool) list \<times> prefix_cache \<times> string list" where
  \<comment> \<open>each row with whether its verdict is \<^verbatim>\<open>ok\<close>; a throw counts as a bad signature\<close>
  "verify_all lib cs memo room allow [] = ([], memo)"
| "verify_all lib cs memo room allow (w # ws) =
     (let (v, memo') = verifyIncoming lib cs memo w \<lparr>vroom = Some room, allowUnsigned = allow w\<rparr>;
          (vs, memo'') = verify_all lib cs memo' room allow ws
      in ((w, v = Inr Ok) # vs, memo''))"

definition unrepairable :: "js_value \<Rightarrow> bool" where
  \<comment> \<open>no signature, or a retired one\<close>
  "unrepairable m \<longleftrightarrow> \<not> js_truthy (js_prop m ''sig'') \<or> js_prop m ''sigV'' \<noteq> JNum (JInt 3)"

fun reject_loop :: "(string, int) jsmap \<Rightarrow> (string, int) jsmap \<Rightarrow> (js_value \<times> bool) list \<Rightarrow> (string, int) jsmap \<times> (string, int) jsmap" where
  \<comment> \<open>\<^verbatim>\<open>rejectedFloor\<close> and \<^verbatim>\<open>permanentMax\<close>\<close>
  "reject_loop fl pm [] = (fl, pm)"
| "reject_loop fl pm ((m, ok) # vs) =
     (if ok then reject_loop fl pm vs
      else case js_prop m ''senderId'' of
        JStr sid \<Rightarrow>
          let lam = as_int (js_prop m ''lamport'') in
          if sid = [] \<or> \<not> isSafeInteger (js_prop m ''lamport'') \<or> lam < 0 then reject_loop fl pm vs
          else if unrepairable m
          then reject_loop fl (if (case js_get pm sid of None \<Rightarrow> True | Some a \<Rightarrow> a < lam) then js_set pm sid lam else pm) vs
          else reject_loop (if (case js_get fl sid of None \<Rightarrow> True | Some a \<Rightarrow> lam < a) then js_set fl sid lam else fl) pm vs
      | _ \<Rightarrow> reject_loop fl pm vs)"

definition below_floor :: "(string, int) jsmap \<Rightarrow> string \<Rightarrow> int \<Rightarrow> bool" where
  "below_floor fl sid lam \<longleftrightarrow> (case js_get fl sid of None \<Rightarrow> True | Some f \<Rightarrow> lam < f)"

fun claim_refusals :: "sync_device \<Rightarrow> sync_call \<Rightarrow> (string, int) jsmap \<Rightarrow> (string \<times> int) list \<Rightarrow> refused \<Rightarrow> refused" where
  "claim_refusals D c fl [] r = r"
| "claim_refusals D c fl ((sid, lam) # pm) r =
     claim_refusals D c fl pm
       (if sid \<noteq> d_did D \<and> below_floor fl sid lam then noteRefused r (sc_room c) sid lam (sc_now c) else r)"

section \<open>Rows that are stored\<close>

definition is_plugin :: "js_value \<Rightarrow> bool" where
  "is_plugin w \<longleftrightarrow> js_prop w ''type'' = JStr (wire_tag PluginCard) \<or> js_prop w ''type'' = JStr (wire_tag PluginUpdate)"

definition plugin_refused :: "sync_device \<Rightarrow> js_value \<Rightarrow> bool" where
  "plugin_refused D w \<longleftrightarrow> is_plugin w \<and> parsePluginPayload (d_parse D) (js_prop w ''type'') (js_prop w ''content'') = None"

definition flood_check :: "sync_call \<Rightarrow> plugin_flood \<Rightarrow> js_value \<Rightarrow> bool \<times> plugin_flood" where
  \<comment> \<open>the senderId and the id of a verified row are strings\<close>
  "flood_check c f w =
     (if js_prop w ''type'' = JStr (wire_tag PluginUpdate)
      then pluginFloodCaps f (Update (sc_room c) (as_string (js_prop w ''senderId'')) (as_string (js_prop w ''id''))) (sc_now c)
      else pluginFloodCaps f (Card (sc_room c) (as_string (js_prop w ''senderId'')) (as_string (js_prop w ''id''))) (sc_now c))"

fun usable_loop :: "sync_device \<Rightarrow> sync_call \<Rightarrow> (string, int) jsmap \<Rightarrow> js_value list \<Rightarrow> plugin_flood \<Rightarrow> refused \<Rightarrow>
  js_value list \<times> plugin_flood \<times> refused" where
  "usable_loop D c fl [] f r = ([], f, r)"
| "usable_loop D c fl (w # ws) f r =
     (if plugin_refused D w
      then usable_loop D c fl ws f
        (case js_prop w ''senderId'' of
           JStr sid \<Rightarrow> if sid \<noteq> [] \<and> isSafeInteger (js_prop w ''lamport'') \<and> 0 \<le> as_int (js_prop w ''lamport'') \<and>
               below_floor fl sid (as_int (js_prop w ''lamport''))
             then noteRefused r (sc_room c) sid (as_int (js_prop w ''lamport'')) (sc_now c) else r
         | _ \<Rightarrow> r)
      else
        let (pass, f') = (if sc_live c \<and> is_plugin w then flood_check c f w else (True, f));
            (ws', f'', r') = usable_loop D c fl ws f' r
        in (if pass then w # ws' else ws', f'', r'))"

definition put_row :: "sync_device \<Rightarrow> string \<Rightarrow> (string, clear_row) jsmap \<Rightarrow> js_value \<Rightarrow> (string, clear_row) jsmap" where
  \<comment> \<open>\<^verbatim>\<open>bulkPutMessages\<close>, of \<^verbatim>\<open>wireToMessage(w, roomCode)\<close>; a verified row has a string as its id and sender and a safe integer as its lamport\<close>
  "put_row D room rs w = js_set rs (as_string (js_prop w ''id''))
     \<lparr>cl_room = d_blind D room, cl_sender = d_blind D (as_string (js_prop w ''senderId'')), cl_lamport = as_int (js_prop w ''lamport'')\<rparr>"

definition row_claim :: "sync_call \<Rightarrow> (string, int) jsmap \<Rightarrow> js_value \<Rightarrow> (string \<times> string \<times> int) list" where
  \<comment> \<open>the watermark a row outside a push claims by itself\<close>
  "row_claim c fl w =
     (let sid = as_string (js_prop w ''senderId''); lam = as_int (js_prop w ''lamport'') in
      if sc_claims c \<and> isSafeInteger (js_prop w ''lamport'') \<and> 0 \<le> lam \<and> below_floor fl sid lam then [(sc_room c, sid, lam)] else [])"

definition storeSyncBatch :: "sync_device \<Rightarrow> sync_call \<Rightarrow> js_value list \<Rightarrow> sync_store \<Rightarrow> BatchOutcome option \<times> sync_store" where
  "storeSyncBatch D c ws s =
     (if ws = [] \<or> sc_room c = [] \<or> sc_room c \<notin> set (d_joined D) \<or> SYNC_BATCH_SIZE * 4 < length ws then (None, s)
      else case unsignedFrom D c of
             None \<Rightarrow> (None, s)
           | Some author \<Rightarrow>
               if JNull \<in> set ws \<or> JUndefined \<in> set ws then (None, s)
               else
                 let room = sc_room c;
                     held = held_rows D room s ws;
                     fresh = filter (\<lambda>w. known_row s w = None) ws;
                     (vs, memo) = verify_all (d_lib D) (st_clocks s) (st_memo s) room (\<lambda>w. allowsUnsignedDmHistory w author (sc_live c)) fresh;
                     (fl, pm) = reject_loop [] [] vs;
                     refused = claim_refusals D c fl pm (st_refused s);
                     (usable, flood, refused') = usable_loop D c fl (map fst (filter snd vs)) (st_flood s) refused
                 in (Some \<lparr>held = held @ map (\<lambda>w. \<lparr>hr_sender = js_prop w ''senderId'', hr_lamport = js_prop w ''lamport''\<rparr>) usable, floors = fl\<rparr>,
                     \<lparr>st_rows = foldl (put_row D room) (st_rows s) usable, st_refused = refused',
                      st_clocks = foldl (\<lambda>cs w. observeLamport cs room (js_prop w ''lamport'')) (st_clocks s) usable,
                      st_memo = memo, st_flood = flood, st_watermarks = st_watermarks s @ concat (map (row_claim c fl) usable)\<rparr>))"

section \<open>What became of a row\<close>

definition id_reused :: "sync_device \<Rightarrow> sync_call \<Rightarrow> sync_store \<Rightarrow> js_value \<Rightarrow> bool" where
  \<comment> \<open>the id names a message we hold of another room or another sender\<close>
  "id_reused D c s w \<longleftrightarrow> (case known_row s w of None \<Rightarrow> False | Some row \<Rightarrow> \<not> same_row D (sc_room c) row w)"

definition gate_refuses :: "sync_device \<Rightarrow> sync_call \<Rightarrow> sync_store \<Rightarrow> js_value \<Rightarrow> bool" where
  "gate_refuses D c s w \<longleftrightarrow> (\<exists>memo author. unsignedFrom D c = Some author \<and>
     fst (verifyIncoming (d_lib D) (st_clocks s) memo w
       \<lparr>vroom = Some (sc_room c), allowUnsigned = allowsUnsignedDmHistory w author (sc_live c)\<rparr>) \<noteq> Inr Ok)"

definition misnamed :: "js_value \<Rightarrow> bool" where
  "misnamed w \<longleftrightarrow> \<not> (is_js_string (js_prop w ''senderId'') \<and> js_truthy (js_prop w ''senderId'') \<and>
     isSafeInteger (js_prop w ''lamport'') \<and> 0 \<le> as_int (js_prop w ''lamport''))"

definition refused_for_good :: "sync_device \<Rightarrow> sync_call \<Rightarrow> sync_store \<Rightarrow> js_value \<Rightarrow> bool" where
  "refused_for_good D c s w \<longleftrightarrow> id_reused D c s w \<or>
     known_row s w = None \<and> (gate_refuses D c s w \<and> (unrepairable w \<or> misnamed w) \<or> plugin_refused D w)"

definition kept :: "sync_device \<Rightarrow> sync_call \<Rightarrow> sync_store \<Rightarrow> sync_store \<Rightarrow> js_value \<Rightarrow> bool" where
  \<comment> \<open>the message of this id is in the store after the batch, and it is this row's\<close>
  "kept D c s s' w \<longleftrightarrow> known_row s' w \<noteq> None \<and> \<not> id_reused D c s w"

lemma verify_all_rows: "map fst (fst (verify_all lib cs memo room allow ws)) = ws"
  by (induction ws arbitrary: memo) (simp_all add: case_prod_unfold Let_def)

lemma verify_all_verdict:
  assumes "(w, b) \<in> set (fst (verify_all lib cs memo room allow ws))"
  shows "\<exists>memo. b \<longleftrightarrow> fst (verifyIncoming lib cs memo w \<lparr>vroom = Some room, allowUnsigned = allow w\<rparr>) = Inr Ok"
  using assms
proof (induction ws arbitrary: memo)
  case (Cons x ws)
  let ?v = "verifyIncoming lib cs memo x \<lparr>vroom = Some room, allowUnsigned = allow x\<rparr>"
  have "(w, b) = (x, fst ?v = Inr Ok) \<or> (w, b) \<in> set (fst (verify_all lib cs (snd ?v) room allow ws))"
    using Cons.prems by (simp add: case_prod_unfold Let_def)
  then show ?case using Cons.IH by blast
qed simp

lemma gate_names:
  assumes "fst (verifyIncoming lib cs memo w opts) = Inr Ok"
  shows "\<exists>i sid. js_prop w ''id'' = JStr i \<and> i \<noteq> [] \<and> js_prop w ''senderId'' = JStr sid"
proof -
  obtain cache verified where m: "memo = (cache, verified)" by force
  obtain content where c: "js_prop w ''content'' = JStr content"
    using assms by (cases "js_prop w ''content''") (auto simp: verifyIncoming_def Let_def m split: if_splits)
  have "fst (messageIdAllowedFor (sha lib) cache (js_prop w ''id'') (js_prop w ''senderId''))"
    using assms unfolding verifyIncoming_def c m by (auto simp: Let_def case_prod_unfold split: if_splits)
  then show ?thesis by (auto simp: messageIdAllowedFor_def split: js_value.splits if_splits)
qed

lemma reject_step:
  "\<exists>fl' pm'. reject_loop fl pm (v # vs) = reject_loop fl' pm' vs \<and>
     (\<forall>sid l. (\<exists>f. js_get fl sid = Some f \<and> f \<le> l) \<longrightarrow> (\<exists>f. js_get fl' sid = Some f \<and> f \<le> l))"
proof -
  obtain m ok where v: "v = (m, ok)" by force
  show ?thesis
  proof (cases "\<exists>sid. js_prop m ''senderId'' = JStr sid \<and> \<not> ok \<and> \<not> (sid = [] \<or> \<not> isSafeInteger (js_prop m ''lamport'') \<or> as_int (js_prop m ''lamport'') < 0)")
    case False
    then have "reject_loop fl pm (v # vs) = reject_loop fl pm vs" by (cases "js_prop m ''senderId''") (auto simp: v Let_def)
    then show ?thesis by blast
  next
    case True
    then obtain sid where sid: "js_prop m ''senderId'' = JStr sid" "\<not> ok"
      "\<not> (sid = [] \<or> \<not> isSafeInteger (js_prop m ''lamport'') \<or> as_int (js_prop m ''lamport'') < 0)" by blast
    let ?l = "as_int (js_prop m ''lamport'')"
    define fl' where "fl' = (if (case js_get fl sid of None \<Rightarrow> True | Some a \<Rightarrow> ?l < a) then js_set fl sid ?l else fl)"
    define pm' where "pm' = (if (case js_get pm sid of None \<Rightarrow> True | Some a \<Rightarrow> a < ?l) then js_set pm sid ?l else pm)"
    have "reject_loop fl pm (v # vs) = (if unrepairable m then reject_loop fl pm' vs else reject_loop fl' pm vs)"
      using sid by (simp add: v Let_def fl'_def pm'_def)
    moreover have "\<forall>s l. (\<exists>f. js_get fl s = Some f \<and> f \<le> l) \<longrightarrow> (\<exists>f. js_get fl' s = Some f \<and> f \<le> l)"
      by (auto simp: fl'_def split: option.splits)
    ultimately show ?thesis by (cases "unrepairable m") auto
  qed
qed

lemma reject_loop_floor:
  "(\<exists>f. js_get fl sid = Some f \<and> f \<le> l) \<Longrightarrow> \<exists>f. js_get (fst (reject_loop fl pm vs)) sid = Some f \<and> f \<le> l"
proof (induction vs arbitrary: fl pm)
  case (Cons v vs)
  then show ?case using reject_step [of fl pm v vs] by metis
qed simp

lemma rejected_floor:
  assumes "(m, False) \<in> set vs" "\<not> unrepairable m" "\<not> misnamed m"
  shows "\<exists>sid f. js_prop m ''senderId'' = JStr sid \<and> js_get (fst (reject_loop fl pm vs)) sid = Some f \<and> f \<le> as_int (js_prop m ''lamport'')"
  using assms(1)
proof (induction vs arbitrary: fl pm)
  case (Cons v vs)
  show ?case
  proof (cases "v = (m, False)")
    case True
    obtain sid where sid: "js_prop m ''senderId'' = JStr sid" "sid \<noteq> []"
      using assms(3) by (cases "js_prop m ''senderId''") (auto simp: misnamed_def)
    let ?fl = "if (case js_get fl sid of None \<Rightarrow> True | Some a \<Rightarrow> as_int (js_prop m ''lamport'') < a)
       then js_set fl sid (as_int (js_prop m ''lamport'')) else fl"
    have "reject_loop fl pm (v # vs) = reject_loop ?fl pm vs"
      using sid assms(2,3) True by (simp add: Let_def misnamed_def)
    moreover have "\<exists>f. js_get ?fl sid = Some f \<and> f \<le> as_int (js_prop m ''lamport'')" by (simp split: option.split)
    ultimately show ?thesis using reject_loop_floor [of ?fl sid "as_int (js_prop m ''lamport'')" pm vs] sid(1) by simp
  next
    case False
    then have "(m, False) \<in> set vs" using Cons.prems by simp
    then have IH: "\<exists>sid f. js_prop m ''senderId'' = JStr sid \<and> js_get (fst (reject_loop fl pm vs)) sid = Some f \<and> f \<le> as_int (js_prop m ''lamport'')"
      for fl pm by (rule Cons.IH)
    obtain fl' pm' where "reject_loop fl pm (v # vs) = reject_loop fl' pm' vs" using reject_step by blast
    then show ?thesis using IH by simp
  qed
qed simp

lemma usable_rows: "\<not> sc_live c \<Longrightarrow> fst (usable_loop D c fl ws f r) = filter (\<lambda>w. \<not> plugin_refused D w) ws"
  by (induction D c fl ws f r rule: usable_loop.induct) (auto simp: case_prod_unfold Let_def)

lemma put_rows_keep: "js_get rs i \<noteq> None \<Longrightarrow> js_get (foldl (put_row D room) rs ws) i \<noteq> None"
  by (induction ws arbitrary: rs) (auto simp: put_row_def)

lemma put_rows_put:
  assumes "w \<in> set ws"
  shows "js_get (foldl (put_row D room) rs ws) (as_string (js_prop w ''id'')) \<noteq> None"
  using assms
proof (induction ws arbitrary: rs)
  case (Cons x ws)
  show ?case
  proof (cases "w = x")
    case True
    have "js_get (put_row D room rs x) (as_string (js_prop w ''id'')) \<noteq> None" by (simp add: put_row_def True)
    then show ?thesis using put_rows_keep by fastforce
  qed (use Cons in auto)
qed simp

lemma storeE:
  assumes "storeSyncBatch D c ws s = (Some oc, s')"
  obtains author vs memo fl pm usable flood refused where "unsignedFrom D c = Some author"
    "verify_all (d_lib D) (st_clocks s) (st_memo s) (sc_room c) (\<lambda>w. allowsUnsignedDmHistory w author (sc_live c))
       (filter (\<lambda>w. known_row s w = None) ws) = (vs, memo)"
    "reject_loop [] [] vs = (fl, pm)"
    "usable_loop D c fl (map fst (filter snd vs)) (st_flood s) (claim_refusals D c fl pm (st_refused s)) = (usable, flood, refused)"
    "floors oc = fl" "held oc = held_rows D (sc_room c) s ws @ map (\<lambda>w. \<lparr>hr_sender = js_prop w ''senderId'', hr_lamport = js_prop w ''lamport''\<rparr>) usable"
    "st_rows s' = foldl (put_row D (sc_room c)) (st_rows s) usable"
  using assms by (auto simp: storeSyncBatch_def Let_def split: if_splits option.splits prod.splits)

text \<open>Every row of a handled batch is kept, refused for good, or marked by a floor.\<close>

lemma batch_rows_settled:
  assumes "storeSyncBatch D c ws s = (Some oc, s')" and w: "w \<in> set ws" and live: "\<not> sc_live c"
  shows "kept D c s s' w \<or> refused_for_good D c s w \<or>
    (\<exists>sid f. js_prop w ''senderId'' = JStr sid \<and> (sid, f) \<in> set (floors oc) \<and> f \<le> as_int (js_prop w ''lamport''))"
proof -
  obtain author vs memo fl pm usable flood refused where o: "unsignedFrom D c = Some author"
    and v: "verify_all (d_lib D) (st_clocks s) (st_memo s) (sc_room c) (\<lambda>w. allowsUnsignedDmHistory w author (sc_live c))
       (filter (\<lambda>w. known_row s w = None) ws) = (vs, memo)"
    and r: "reject_loop [] [] vs = (fl, pm)"
    and u: "usable_loop D c fl (map fst (filter snd vs)) (st_flood s) (claim_refusals D c fl pm (st_refused s)) = (usable, flood, refused)"
    and oc: "floors oc = fl" "st_rows s' = foldl (put_row D (sc_room c)) (st_rows s) usable"
    by (rule storeE [OF assms(1)])
  show ?thesis
  proof (cases "known_row s w")
    case (Some row)
    then obtain i where i: "js_prop w ''id'' = JStr i" "i \<noteq> []" "js_get (st_rows s) i = Some row"
      by (auto simp: known_row_def split: js_value.splits if_splits)
    then have "known_row s' w \<noteq> None" using put_rows_keep [of "st_rows s" i] oc(2) by (simp add: known_row_def)
    then show ?thesis by (auto simp: kept_def refused_for_good_def)
  next
    case None
    have "map fst vs = filter (\<lambda>w. known_row s w = None) ws" using verify_all_rows v by (metis fst_conv)
    then have "w \<in> set (map fst vs)" using w None by simp
    then obtain b where b: "(w, b) \<in> set vs" by auto
    obtain memo' where ok: "b \<longleftrightarrow> fst (verifyIncoming (d_lib D) (st_clocks s) memo' w
        \<lparr>vroom = Some (sc_room c), allowUnsigned = allowsUnsignedDmHistory w author (sc_live c)\<rparr>) = Inr Ok"
      using verify_all_verdict [of w b] b v by (metis fst_conv)
    show ?thesis
    proof (cases b)
      case False
      then have "gate_refuses D c s w" using ok o unfolding gate_refuses_def by blast
      moreover have "\<exists>sid f. js_prop w ''senderId'' = JStr sid \<and> (sid, f) \<in> set (floors oc) \<and> f \<le> as_int (js_prop w ''lamport'')"
        if "\<not> unrepairable w" "\<not> misnamed w"
        using rejected_floor [of w vs "[]" "[]"] b False that r oc(1) by (auto dest: map_of_SomeD)
      ultimately show ?thesis using None by (auto simp: refused_for_good_def)
    next
      case True
      obtain i where i: "js_prop w ''id'' = JStr i" "i \<noteq> []" using gate_names ok True by metis
      show ?thesis
      proof (cases "plugin_refused D w")
        case False
        have "w \<in> set (map fst (filter snd vs))" using b True by force
        then have "w \<in> set usable" using usable_rows [OF live, of D fl "map fst (filter snd vs)" "st_flood s" "claim_refusals D c fl pm (st_refused s)"] u False by simp
        then have "known_row s' w \<noteq> None" using put_rows_put [of w usable] i oc(2) by (simp add: known_row_def)
        then show ?thesis using None by (simp add: kept_def id_reused_def)
      qed (use None in \<open>simp add: refused_for_good_def\<close>)
    qed
  qed
qed

text \<open>What a batch claims to hold are rows of the batch, when the copies of rows we hold carry the lamport we have of them.\<close>

definition true_copy :: "sync_device \<Rightarrow> sync_call \<Rightarrow> sync_store \<Rightarrow> js_value \<Rightarrow> bool" where
  "true_copy D c s w \<longleftrightarrow> (case known_row s w of
     None \<Rightarrow> True
   | Some row \<Rightarrow> same_row D (sc_room c) row w \<longrightarrow> js_prop w ''lamport'' = JNum (JInt (cl_lamport row)))"

lemma claims_are_rows:
  assumes "storeSyncBatch D c ws s = (Some oc, s')" "\<not> sc_live c" "list_all (true_copy D c s) ws" "x \<in> set (valid_pairs oc)"
  shows "\<exists>w \<in> set ws. js_prop w ''senderId'' = JStr (fst x) \<and> js_prop w ''lamport'' = JNum (JInt (snd x))"
proof -
  obtain author vs memo fl pm usable flood refused where
    v: "verify_all (d_lib D) (st_clocks s) (st_memo s) (sc_room c) (\<lambda>w. allowsUnsignedDmHistory w author (sc_live c))
       (filter (\<lambda>w. known_row s w = None) ws) = (vs, memo)"
    and u: "usable_loop D c fl (map fst (filter snd vs)) (st_flood s) (claim_refusals D c fl pm (st_refused s)) = (usable, flood, refused)"
    and oc: "held oc = held_rows D (sc_room c) s ws @ map (\<lambda>w. \<lparr>hr_sender = js_prop w ''senderId'', hr_lamport = js_prop w ''lamport''\<rparr>) usable"
    by (rule storeE [OF assms(1)])
  have vs: "map fst vs = filter (\<lambda>w. known_row s w = None) ws" using verify_all_rows v by (metis fst_conv)
  have "set usable \<subseteq> set (map fst vs)" using usable_rows [OF assms(2), of D fl "map fst (filter snd vs)" "st_flood s" "claim_refusals D c fl pm (st_refused s)"] u by auto
  then have us: "set usable \<subseteq> set ws" unfolding vs by auto
  obtain h where h: "h \<in> set (held oc)" "validRow h" "x = row_pair h" using assms(4) by (auto simp: valid_pairs_def)
  then have "hr_sender h = JStr (fst x) \<and> hr_lamport h = JNum (JInt (snd x))"
    by (cases "hr_sender h") (auto simp: validRow_def row_pair_def isSafeInteger_iff)
  moreover have "\<exists>w \<in> set ws. js_prop w ''senderId'' = hr_sender h \<and> js_prop w ''lamport'' = hr_lamport h"
    using h(1) us assms(3) unfolding oc
    by (fastforce simp: held_rows_def true_copy_def list_all_iff split: option.splits if_splits)
  ultimately show ?thesis by auto
qed

end
