(* ===== verification/Spec2Isabelle.thy ===== *)
theory Spec2Isabelle
  imports Logical_Clock Sync_Throttle Sync_View Sync_Inbound_Rooms
    Frame_Assembler Lobby_Budget Flood_Cap Sfu_Admission Sfu_Heartbeat Replay_Window Room_Envelope
    Room_Channel_Roundtrip Room_Openings Diag_Ring Typing Chat_Window Spotlight Room_Name Sfu_Pool
    Message_Gate Profile_Echo Plugin_Reducers Room_Lists
    Palette_Mru Ping_Stats Image_Header Node_Lock Room_Stream Dm_Codec
    Device_Sync_Session Sfu_Server_Seats Sync_Store
begin

text \<open>
  A verification development for awful.chat, an end-to-end encrypted peer-to-peer chat: a browser
  client (\<^verbatim>\<open>frontend/\<close>), a media server (\<^verbatim>\<open>sfu/\<close>) and a relay (\<^verbatim>\<open>relay/\<close>, in Go, not
  modelled). Paths below are relative to \<^verbatim>\<open>src/\<close>; \<^verbatim>\<open>lib/\<close> is \<^verbatim>\<open>frontend/src/lib/\<close>.

  \<^bold>\<open>The system.\<close> Peers open streams to each other. Bytes on a stream are cut into frames
  (\<open>Frame_Assembler\<close>); on a frame stream two members of a room prove to each other that they know its key
  (\<open>Membership\<close>) and then exchange sealed envelopes (\<open>Room_Envelope\<close>) numbered against replay
  (\<open>Replay_Window\<close>), the whole being the secure room channel (\<open>Room_Channel\<close>) on its stream (\<open>Room_Stream\<close>).
  Of the tabs of a browser profile one runs all this (\<open>Node_Lock\<close>). Messages carry an id bound to
  their sender (\<open>Message_Id\<close>), a Lamport time (\<open>Logical_Clock\<close>) and a signature over a canonical text
  (\<open>Message_Signing\<close>), and pass one gate on arrival (\<open>Message_Gate\<close>). Every device shows a conversation in
  one order (\<open>Message_Order\<close>). What a device missed comes in a history push: the sender plans and paces
  it (\<open>Sync_Push\<close>), the receiver checks and stores each batch (\<open>Sync_Store\<close>), claims the push and moves its watermarks (\<open>Sync_Inbound\<close>) and hands the
  rows to the view (\<open>Sync_View\<close>). Around this are the budgets that keep peers, relays and plugins from
  overrunning a device, and the small pure modules of the user interface.

  \<^bold>\<open>The theories.\<close>

  \<^item> Shared: \<open>Prelude\<close> (values, maps and sets of the language, the lemma collections, the locale \<open>keyed_map\<close>
    and its interpretation on the maps), \<open>Stable_Sort\<close> (\<^verbatim>\<open>Array.prototype.sort\<close>, the locale \<open>comparator\<close>),
    \<open>Js_Strings\<close>, \<open>Js_Json\<close> and \<open>Js_Text\<close> (string methods, \<^verbatim>\<open>JSON.stringify\<close>, UTF-8, and that they are
    injective), \<open>Js_Parse\<close> (reading JSON text back, the locale \<open>text_reader\<close>), \<open>Rate_Window\<close> (the locale \<open>sliding_cap\<close>, interpreted in \<open>Lobby_Budget\<close> and \<open>Flood_Cap\<close>).
  \<^item> Order and time: \<open>Logical_Clock\<close> (\<^verbatim>\<open>lib/transport/logical-clock.ts\<close>), \<open>Message_Order\<close>
    (\<^verbatim>\<open>message-order.ts\<close>; \<open>comparator\<close> interpreted on \<open>compareMessages\<close>), \<open>Message_Types\<close> (\<^verbatim>\<open>lib/types/message.ts\<close>).
    Shown: views converge, hostile lamports cannot exhaust the counter.
  \<^item> History sync: \<open>Sync_Push\<close> (\<^verbatim>\<open>sync-push.ts\<close>), \<open>Sync_Inbound\<close> with \<open>Sync_Inbound_Safety\<close> and
    \<open>Sync_Inbound_Rooms\<close> (\<^verbatim>\<open>sync-inbound.ts\<close>, the class as a state machine over an object store, promise
    queues, timers and a log of effects), \<open>Sync_Store\<close> (\<^verbatim>\<open>_storeSyncBatch\<close> of \<^verbatim>\<open>transport.svelte.ts\<close> with \<^verbatim>\<open>plugins/validate.ts\<close>: which rows of a
    batch are held, stored, marked by a floor or refused for good), \<open>Sync_Throttle\<close>, \<open>Refused_Lamports\<close>, \<open>Sync_View\<close>. Shown: plans lose no
    row and keep the order, below a watermark every row is stored or refused for good (below, across sender, store and receiver), an open
    push holds its room, tables are bounded.
  \<^item> Room security: \<open>Base64url\<close> (the locale \<open>text_codec\<close>, interpreted on both codecs), \<open>Replay_Window\<close>
    (64-bit words refining a set), \<open>Membership\<close>, \<open>Room_Envelope\<close>, \<open>Room_Channel\<close>, \<open>Room_Channel_Roundtrip\<close>
    and \<open>Room_Stream\<close> (\<^verbatim>\<open>lib/room-security/\<close>: \<^verbatim>\<open>base64url.ts\<close>, \<^verbatim>\<open>replay.ts\<close>, \<^verbatim>\<open>membership.ts\<close>, \<^verbatim>\<open>session.ts\<close>, \<^verbatim>\<open>envelope.ts\<close>,
    \<^verbatim>\<open>scope.ts\<close>, \<^verbatim>\<open>channel.ts\<close>, \<^verbatim>\<open>stream.ts\<close>). Shown: a proof speaks only for its own session, the handshake completes, a
    channel delivers whole messages of its peer once, what the two ends of a channel take and exchange in any interleaving arrives in order and, undisturbed, in full, an error ends the channel, a stream
    carries the channel's frames however it is cut, says nothing before it knows the room, and ends once.
  \<^item> Authorship: \<open>Message_Id\<close>, \<open>Message_Signing\<close>, \<open>Message_Gate\<close> (\<^verbatim>\<open>message-id.ts\<close>, \<^verbatim>\<open>messaging.ts\<close>,
    \<^verbatim>\<open>file-descriptor.ts\<close>, \<^verbatim>\<open>verify-incoming.ts\<close> and the codecs they use). Shown: an accepted signed row is what its
    author signed, for the room it is filed under, and an unsigned one passes only where that is allowed; what is signed here is accepted there.
  \<^item> Tabs and direct messages: \<open>Node_Lock\<close> (\<^verbatim>\<open>node-lock.ts\<close> in every tab of a profile, over the browser's Lock Manager,
    broadcast messages and timers), \<open>Dm_Codec\<close> (\<^verbatim>\<open>dm-codec.ts\<close>). Shown: a tab that thinks it runs the node does, or
    is about to be told, unless it stole the seat with a spent abort controller; received envelopes are fit to be handled, and those within the limits round-trip; a pair has one room.
  \<^item> Device sync: \<open>Device_Sync\<close> and \<open>Device_Sync_Session\<close> (\<^verbatim>\<open>sync.svelte.ts\<close>: pairing codes, batching, the source and the target as
    state machines over messages, sends, timers and the awaited database calls). Shown: the account goes only to the peer that holds the
    token, an import rests only on frames of the scanned source, an undisturbed session copies the account, batches of rows with any text keep their budget in bytes.
  \<^item> Streams and budgets: \<open>Frame_Assembler\<close>, \<open>Room_Openings\<close>, \<open>Lobby_Budget\<close> (\<^verbatim>\<open>lib/transport/libp2p/\<close>), \<open>Flood_Cap\<close>
    (\<^verbatim>\<open>lib/plugins/flood-cap.ts\<close>), \<open>Profile_Echo\<close> (\<^verbatim>\<open>profile-echo.ts\<close>). Shown: chunking does not matter, turns
    are fair and counted, caps hold and never drop a paced sender, a cached frame is current.
  \<^item> The media server: \<open>Sfu_Admission\<close>, \<open>Sfu_Heartbeat\<close> (\<^verbatim>\<open>sfu/admission.ts\<close>, \<^verbatim>\<open>heartbeat.ts\<close> with the handlers
    of \<^verbatim>\<open>index.ts\<close>) and its choice by the client, \<open>Sfu_Pool\<close> (\<^verbatim>\<open>lib/transport/sfu-pool.ts\<close>); the proofs of a join, \<open>Sfu_Auth\<close>
    (\<^verbatim>\<open>sfu/auth.ts\<close>), and the server itself, \<open>Sfu_Server\<close> (\<^verbatim>\<open>sfu/index.ts\<close>): sessions in a store of objects, sockets, rooms and
    what is open in the worker, moved by \<open>sfu_step\<close>, one event per frame, answer of the worker, timer, probe or closing socket; a
    transport the worker closes on its own is the event \<open>Transport_failed\<close>. Shown of every run from the start (the locale \<open>traced_machine\<close>,
    interpreted once per invariant): \<open>Sfu_Server_Safety\<close> and \<open>_Run\<close>, transports are accounted for and sessions tended; \<open>_Vouched\<close>,
    seats need proof; \<open>_Limits\<close>, ceilings; \<open>_Views\<close>, members know exactly the producers of their room; \<open>_Seats\<close>, how a seat is lost.
  \<^item> User interface: \<open>Typing\<close>, \<open>Chat_Window\<close>, \<open>Spotlight\<close> (with \<^verbatim>\<open>call-tiles.ts\<close>), \<open>Room_Name\<close>, \<open>Room_Lists\<close>
    (\<^verbatim>\<open>room-order.ts\<close>, \<^verbatim>\<open>reaction-tally.ts\<close>, \<^verbatim>\<open>wire-name.ts\<close>, \<^verbatim>\<open>notify-rules.ts\<close>), \<open>Palette_Mru\<close>, \<open>Diag_Ring\<close>
    (\<^verbatim>\<open>telemetry/\<close>), \<open>Image_Header\<close> (\<^verbatim>\<open>image-size.ts\<close>: the walks over headers from peers end, windows read what the
    whole file says, redraws are bounded), and the plugin cards \<open>Plugin_Reducers\<close> and \<open>Ping_Stats\<close> (\<^verbatim>\<open>frontend/plugins/\<close>).

  \<^bold>\<open>How code becomes definitions.\<close> A class is a record of its fields and one function per method; module
  variables are passed and returned; what throws is \<open>Inl\<close> of an error type; a callback's answers are
  arguments; an \<^verbatim>\<open>await\<close> splits a method into steps between which other events may come, so the
  asynchronous classes are step functions or inductive step relations with invariants over reachable
  states. A \<^verbatim>\<open>Map\<close> is an association list in insertion order. Machine words are \<open>word\<close>s where the
  code computes with bits; other numbers are unbounded integers with the safe-integer tests written
  out, or rationals. Strings are lists of 8-bit code units, except where sizes in UTF-8 are the point: the batching of \<open>Device_Sync\<close> works on texts of 16-bit units. Loops are structural recursion or functions
  with a termination proof, and the walks of \<open>Image_Header\<close> are partial functions whose termination is a theorem;
  only the readers of \<open>Js_Parse\<close> have fuel, the length of their input, which is proved enough. Numeric limits are the source's own constants.

  \<^bold>\<open>Parameters.\<close> Packages and the platform are arguments: AES-GCM and HKDF (\<open>aead\<close>), HMAC (\<open>crypto\<close>), ed25519,
  base58 and SHA-256 (\<open>sig_lib\<close>), the IP-address tests of \<^verbatim>\<open>node:net\<close> (\<open>net\<close>), the JSON parser of the
  channel, the URL parser, random numbers and clocks. What a theorem needs of them is a named
  predicate (\<open>aead_lawful\<close>, \<open>lib_lawful\<close> and others) with a concrete instance in the witness.

  \<^bold>\<open>Not modelled.\<close> The reactive application state (\<^verbatim>\<open>transport.svelte.ts\<close>, \<^verbatim>\<open>dm.svelte.ts\<close> and the
  Svelte components) apart from the room-name handlers, the storing of a history batch and the device sync, because it is wiring around libp2p, IndexedDB and
  the DOM; storage, media (\<^verbatim>\<open>mediasoup.ts\<close>, \<^verbatim>\<open>voice.ts\<close>) and file transfer, which drive browser objects; the
  protocols that are mostly calls of cryptographic packages (invitations, pairing, introductions,
  backups); search and palette ranking; the diagnostic snapshots and the start-up of the media server; the relay and the dashboard. Next in the plan: the leases of
  \<^verbatim>\<open>opfs-lease.ts\<close> over the Lock Manager, the palette scorer and the session logic of the plugins.
\<close>

section \<open>History sync, end to end\<close>












definition demo_plan1 :: "row PushPlan" where
  "demo_plan1 = \<lparr>batchSize = 1, pageSize = 4, maxBatchBytes = 100, sizeOf = \<lambda>_. 10\<rparr>"

text \<open>Why only one of several rows with the watermark's own lamport: when a sender has two, as two devices of one person can write them, a
  batch boundary can lie between them, and the watermark is written when the first is stored.\<close>

lemma tie_is_split:
  "map (map mid \<circ> rows) (planPush [\<lparr>lamport = 4, mid = ''m'', mtype = Text, senderId = ''a''\<rparr>,
     \<lparr>lamport = 4, mid = ''n'', mtype = Text, senderId = ''a''\<rparr>] demo_plan1) = [[''m''], [''n'']]"
  "Commit \<lparr>c_room = ''r'', c_sender = ''a'', c_lamport = 4, c_push = 0, basis = [(0, Some Asc, demo_outcome 4)]\<rparr> \<in> set (InboundPushes.log
     (inbound_run init_inbound [inbound_event.Frame ''p'' ''r'' (Sync_Inbound_Safety.demo_frame 0), inbound_event.Job 0 (answer.Outcome (Some (demo_outcome 4))), inbound_event.Job 0 (answer.Written True)]))"
  by code_simp+






end
